(* ===== verification/Prelude.thy ===== *)
theory Prelude
  imports Complex_Main "HOL-Library.AList"
begin

text \<open>
  Shared vocabulary of the development.

  Python values that several components use get one model here: a \<open>dict\<close> is an
  association list in insertion order (\<open>dict_set\<close> overwrites in place or appends,
  \<open>dict_del\<close> removes, as CPython does), a bounded \<open>deque\<close> or queue that sheds its
  oldest element is \<open>last_n\<close> of an append, an exception is the \<open>Inl\<close> of a sum,
  and a run of operations is \<open>foldl\<close> of a step function. The two locales
  \<open>step_invariant\<close> and \<open>drop_oldest\<close> state the contracts that most components
  share; each component interprets them on its own operations.
\<close>

type_synonym conn_id = int

text \<open>The wire formats and the physical channels of \<^verbatim>\<open>protocol/base.py\<close>.\<close>

datatype protocol_version = V0 | V1

datatype channel = CONTROL | DATA

named_theorems dict_simps "lookup, key set and distinctness of dictionaries"

section \<open>Results and floats\<close>

text \<open>A comprehension whose element expression may raise stops at the first error.\<close>

fun seq_results :: "('e + 'a) list \<Rightarrow> 'e + 'a list" where
  "seq_results [] = Inr []"
| "seq_results (x # xs) =
     (case x of
        Inl e \<Rightarrow> Inl e
      | Inr a \<Rightarrow> (case seq_results xs of Inl e \<Rightarrow> Inl e | Inr as \<Rightarrow> Inr (a # as)))"

lemma seq_results_Inr [simp]: "seq_results (map (\<lambda>x. Inr (f x)) xs) = Inr (map f xs)"
  by (induction xs) simp_all

lemma seq_results_cong_Inr:
  "(\<And>x. x \<in> set xs \<Longrightarrow> g x = Inr (f x)) \<Longrightarrow> seq_results (map g xs) = Inr (map f xs)"
  by (induction xs) simp_all

lemma seq_results_length: "seq_results xs = Inr ys \<Longrightarrow> length ys = length xs"
  by (induction xs arbitrary: ys) (auto split: sum.splits)

lemma map_sum_Inr_iff [simp]: "map_sum id f x = Inr y \<longleftrightarrow> (\<exists>z. x = Inr z \<and> y = f z)"
  by (cases x) auto

lemma map_sum_Inl_iff [simp]: "map_sum f g x = Inl y \<longleftrightarrow> (\<exists>z. x = Inl z \<and> y = f z)"
  by (cases x) auto

text \<open>A Python float: a real number, an infinity or not a number. Rounding is not modelled.\<close>

datatype pyfloat = Finite real | PosInf | NegInf | NaN

section \<open>Dictionaries in insertion order\<close>

type_synonym ('k, 'v) dict = "('k \<times> 'v) list"

abbreviation dict_get :: "('k, 'v) dict \<Rightarrow> 'k \<Rightarrow> 'v option" where
  "dict_get d k \<equiv> map_of d k"

abbreviation dict_set :: "'k \<Rightarrow> 'v \<Rightarrow> ('k, 'v) dict \<Rightarrow> ('k, 'v) dict" where
  "dict_set k v d \<equiv> AList.update k v d"

abbreviation dict_del :: "'k \<Rightarrow> ('k, 'v) dict \<Rightarrow> ('k, 'v) dict" where
  "dict_del k d \<equiv> AList.delete k d"

abbreviation dict_keys :: "('k, 'v) dict \<Rightarrow> 'k list" where
  "dict_keys d \<equiv> map fst d"

abbreviation wf_dict :: "('k, 'v) dict \<Rightarrow> bool" where
  "wf_dict d \<equiv> distinct (dict_keys d)"

lemma dict_get_set [dict_simps]:
  "dict_get (dict_set k v d) k' = (if k' = k then Some v else dict_get d k')"
  by (simp add: update_conv')

lemma dict_get_del [dict_simps]:
  "dict_get (dict_del k d) k' = (if k' = k then None else dict_get d k')"
  by (simp add: delete_conv')

lemma dict_get_key: "dict_get d k = Some v \<Longrightarrow> k \<in> fst ` set d"
  by (force dest: map_of_SomeD)

lemma wf_dict_set [dict_simps]: "wf_dict d \<Longrightarrow> wf_dict (dict_set k v d)"
  by (rule distinct_update)

lemma wf_dict_del [dict_simps]: "wf_dict d \<Longrightarrow> wf_dict (dict_del k d)"
  by (rule distinct_delete)

lemma keys_dict_set [dict_simps]:
  "set (dict_keys (dict_set k v d)) = insert k (set (dict_keys d))"
  by (auto simp: dom_update)

lemma keys_dict_del [dict_simps]:
  "set (dict_keys (dict_del k d)) = set (dict_keys d) - {k}"
  by (auto simp: delete_keys)

lemma image_keys_dict_del [dict_simps]: "fst ` set (dict_del k d) = fst ` set d - {k}"
  using keys_dict_del [of k d] by simp

lemma image_keys_dict_set [dict_simps]: "fst ` set (dict_set k v d) = insert k (fst ` set d)"
  using keys_dict_set [of k v d] by simp

lemma set_dict_del: "set (dict_del k d) \<subseteq> set d"
  by (auto simp: AList.delete_eq)

lemma dict_set_new [dict_simps]:
  "k \<notin> set (dict_keys d) \<Longrightarrow> dict_set k v d = d @ [(k, v)]"
  by (induction d) auto

text \<open>A dict comprehension: later entries of the same key overwrite earlier ones.\<close>

definition dict_of :: "('k \<times> 'v) list \<Rightarrow> ('k, 'v) dict" where
  "dict_of xs = foldl (\<lambda>d kv. dict_set (fst kv) (snd kv) d) [] xs"

lemma dict_of_acc:
  "distinct (map fst (acc @ xs)) \<Longrightarrow> foldl (\<lambda>d kv. dict_set (fst kv) (snd kv) d) acc xs = acc @ xs"
proof (induction xs arbitrary: acc)
  case (Cons x xs)
  then have "fst x \<notin> set (dict_keys acc)"
    by auto
  with Cons show ?case
    by (simp add: dict_simps)
qed simp

lemma dict_of_distinct [dict_simps]: "distinct (map fst xs) \<Longrightarrow> dict_of xs = xs"
  by (simp add: dict_of_def dict_of_acc)

lemma length_dict_del [dict_simps]:
  "wf_dict d \<Longrightarrow> k \<in> set (dict_keys d) \<Longrightarrow> Suc (length (dict_del k d)) = length d"
proof (induction d)
  case (Cons p d)
  show ?case
  proof (cases "fst p = k")
    case True
    with Cons.prems have "k \<notin> fst ` set d"
      by auto
    then have "dict_del k d = d"
      by (simp add: AList.delete_eq filter_id_conv image_iff split_beta)
    with True show ?thesis
      by (simp add: AList.delete_eq split_beta)
  next
    case False
    with Cons show ?thesis
      by (auto simp: AList.delete_eq split_beta)
  qed
qed simp

section \<open>Decimal numerals\<close>

text \<open>The decimal form of a number in a formatted string, and its value.\<close>

fun decimal :: "nat \<Rightarrow> string" where
  "decimal n = (if n < 10 then [char_of (48 + n)] else decimal (n div 10) @ [char_of (48 + n mod 10)])"

declare decimal.simps [simp del]

definition undecimal :: "string \<Rightarrow> nat" where
  "undecimal ds = foldl (\<lambda>a c. 10 * a + (of_char c - 48)) 0 ds"

lemma undecimal_decimal: "undecimal (decimal n) = n"
proof (induction n rule: decimal.induct)
  case (1 n)
  show ?case
  proof (cases "n < 10")
    case True
    then show ?thesis by (subst decimal.simps) (simp add: undecimal_def)
  next
    case False
    have "undecimal (decimal (n div 10) @ [char_of (48 + n mod 10)]) = 10 * (n div 10) + n mod 10"
      using 1 [OF False] by (simp add: undecimal_def)
    with False show ?thesis by (subst decimal.simps) simp
  qed
qed

lemma digits_plain: "c \<in> set (decimal n) \<Longrightarrow> \<exists>d < 10. c = char_of (48 + d :: nat)"
proof (induction n rule: decimal.induct)
  case (1 n)
  show ?case
  proof (cases "n < 10")
    case True
    with "1.prems" show ?thesis by (subst (asm) decimal.simps) auto
  next
    case False
    with "1.prems" consider "c \<in> set (decimal (n div 10))" | "c = char_of (48 + n mod 10)"
      by (subst (asm) decimal.simps) auto
    then show ?thesis
      using "1.IH" [OF False] by cases (auto intro: exI [of _ "n mod 10"])
  qed
qed

section \<open>Shedding the oldest elements\<close>

definition last_n :: "nat \<Rightarrow> 'a list \<Rightarrow> 'a list" where
  "last_n n xs = drop (length xs - n) xs"

lemma length_last_n [simp]: "length (last_n n xs) = min n (length xs)"
  by (simp add: last_n_def)

lemma last_n_all [simp]: "length xs \<le> n \<Longrightarrow> last_n n xs = xs"
  by (simp add: last_n_def)

lemma last_n_append_last_n: "last_n n (last_n n xs @ ys) = last_n n (xs @ ys)"
  by (cases "length xs \<le> n") (auto simp: last_n_def add.commute)

lemma suffix_last_n: "\<exists>ys. ys @ last_n n xs = xs"
  by (rule exI [of _ "take (length xs - n) xs"]) (simp add: last_n_def)

lemma set_last_n: "set (last_n n xs) \<subseteq> set xs"
  by (simp add: last_n_def set_drop_subset)

lemma filter_last_n_drop:
  assumes "length xs - n \<le> k" and P: "filter P xs = drop k xs"
  shows "filter P (last_n n xs) = drop k xs"
proof -
  have all: "\<forall>x\<in>set (drop k xs). P x"
    by (simp add: P [symmetric])
  have "filter P (take k xs) @ drop k xs = drop k xs"
    using P all by (metis append_take_drop_id filter_True filter_append)
  then have none: "\<forall>x\<in>set (take k xs). \<not> P x"
    by (simp add: filter_empty_conv)
  have "last_n n xs = take (k - (length xs - n)) (drop (length xs - n) xs) @ drop k xs"
    using assms(1) unfolding last_n_def by (metis append_take_drop_id drop_drop le_add_diff_inverse2)
  moreover have "set (take (k - (length xs - n)) (drop (length xs - n) xs)) \<subseteq> set (take k xs)"
    by (metis drop_take set_drop_subset)
  ultimately show ?thesis
    using all none by (auto simp: filter_empty_conv)
qed

lemma map_last_n: "map f (last_n n xs) = last_n n (map f xs)"
  by (simp add: last_n_def drop_map)

lemma sorted_wrt_last_n: "sorted_wrt P xs \<Longrightarrow> sorted_wrt P (last_n n xs)"
  by (simp add: last_n_def sorted_wrt_drop)

text \<open>
  The contract of a queue that admits every element and sheds from its old end:
  whatever the sequence of pushes, the queue holds the most recent ones.
\<close>

locale drop_oldest =
  fixes push :: "'q \<Rightarrow> 'a \<Rightarrow> 'q"
    and items :: "'q \<Rightarrow> 'a list"
    and cap :: nat
    and ok :: "'q \<Rightarrow> bool"
  assumes items_push: "ok q \<Longrightarrow> items (push q x) = last_n cap (items q @ [x])"
    and ok_push: "ok q \<Longrightarrow> ok (push q x)"
    and ok_bound: "ok q \<Longrightarrow> length (items q) \<le> cap"
begin

lemma ok_run: "ok q \<Longrightarrow> ok (foldl push q xs)"
  by (induction xs arbitrary: q) (simp_all add: ok_push)

lemma items_run: "ok q \<Longrightarrow> items (foldl push q xs) = last_n cap (items q @ xs)"
proof (induction xs arbitrary: q)
  case Nil
  then show ?case by (simp add: ok_bound)
next
  case (Cons x xs)
  have "items (foldl push (push q x) xs) = last_n cap (last_n cap (items q @ [x]) @ xs)"
    using Cons by (simp add: ok_push items_push)
  then show ?case
    by (simp add: last_n_append_last_n)
qed

end

section \<open>Runs of operations\<close>

text \<open>
  A component whose operations all keep an invariant keeps it over every run; a
  quantity that no operation decreases is monotone over every run.
\<close>

locale step_invariant =
  fixes step :: "'s \<Rightarrow> 'e \<Rightarrow> 's"
    and inv :: "'s \<Rightarrow> bool"
  assumes step_keeps: "inv s \<Longrightarrow> inv (step s e)"
begin

lemma run_keeps: "inv s \<Longrightarrow> inv (foldl step s es)"
  by (induction es arbitrary: s) (simp_all add: step_keeps)

end

locale step_monotone =
  fixes step :: "'s \<Rightarrow> 'e \<Rightarrow> 's"
    and level :: "'s \<Rightarrow> 'n::order"
  assumes step_up: "level s \<le> level (step s e)"
begin

lemma run_up: "level s \<le> level (foldl step s es)"
proof (induction es arbitrary: s)
  case (Cons e es)
  have "level s \<le> level (step s e)"
    by (rule step_up)
  also have "level (step s e) \<le> level (foldl step (step s e) es)"
    by (rule Cons.IH)
  finally show ?case
    by simp
qed simp

end

end
