(* ===== verification/TypeSpecs.thy ===== *)
theory TypeSpecs
  imports Prelude
begin

text \<open>
  The type system of command and message fields (\<^verbatim>\<open>core/typespec.py\<close>): Python
  values as far as a field can hold them, the resolution of an annotation into a
  type specification, the request-time check, the coercion of a checked value and
  the JSON Schema each type publishes. A failure reason is a value of \<open>reason\<close>
  rather than an English sentence, with one constructor per sentence of the source.

  The last section gives JSON Schema its meaning (\<open>kw_ok\<close>: a value is valid when it
  satisfies every keyword) and shows that the check and the published schema agree:
  everything the schema admits is accepted, and for types without uploads and
  without members that Python and JSON compare differently, nothing else is.
\<close>

section \<open>Python values\<close>

text \<open>
  A dict is an association list in insertion order; \<open>PEnum\<close> is a member of a plain
  enumeration (class, member name and value), \<open>PUpload\<close> a fetched file, \<open>PObj\<close> an instance
  of a dataclass.
\<close>

datatype pyval =
    PNone
  | PBool bool
  | PInt int
  | PFloat pyfloat
  | PStr string
  | PList "pyval list"
  | PTuple "pyval list"
  | PDict "(pyval \<times> pyval) list"
  | PEnum string string pyval
  | PUpload string string "nat list"
  | PObj string "(string \<times> pyval) list"

fun type_name :: "pyval \<Rightarrow> string" where
  "type_name PNone = ''NoneType''"
| "type_name (PBool b) = ''bool''"
| "type_name (PInt i) = ''int''"
| "type_name (PFloat x) = ''float''"
| "type_name (PStr s) = ''str''"
| "type_name (PList vs) = ''list''"
| "type_name (PTuple vs) = ''tuple''"
| "type_name (PDict d) = ''dict''"
| "type_name (PEnum c n x) = c"
| "type_name (PUpload n m b) = ''UploadedFile''"
| "type_name (PObj c fs) = c"

text \<open>Numbers: Python counts \<open>bool\<close> as one, JSON does not.\<close>

definition json_num :: "pyval \<Rightarrow> pyfloat option" where
  "json_num v = (case v of PInt i \<Rightarrow> Some (Finite (of_int i)) | PFloat x \<Rightarrow> Some x | _ \<Rightarrow> None)"

definition py_num :: "pyval \<Rightarrow> pyfloat option" where
  "py_num v = (case v of PBool b \<Rightarrow> Some (Finite (of_bool b)) | _ \<Rightarrow> json_num v)"

text \<open>A NaN equals nothing, not even itself.\<close>

definition float_eq :: "pyfloat \<Rightarrow> pyfloat \<Rightarrow> bool" where
  "float_eq x y \<longleftrightarrow> x = y \<and> x \<noteq> NaN"

fun float_less :: "pyfloat \<Rightarrow> pyfloat \<Rightarrow> bool" where
  "float_less NaN y = False"
| "float_less x NaN = False"
| "float_less (Finite a) (Finite b) = (a < b)"
| "float_less NegInf y = (y \<noteq> NegInf)"
| "float_less x PosInf = (x \<noteq> PosInf)"
| "float_less x NegInf = False"
| "float_less PosInf y = False"

definition is_integer :: "pyfloat \<Rightarrow> bool" where
  "is_integer x = (case x of Finite a \<Rightarrow> a = of_int \<lfloor>a\<rfloor> | _ \<Rightarrow> False)"

text \<open>
  Equality over a reading of numbers: \<open>val_eq py_num\<close> is Python's \<open>==\<close>,
  \<open>val_eq json_num\<close> the equality of JSON values.
\<close>

primrec val_eq :: "(pyval \<Rightarrow> pyfloat option) \<Rightarrow> pyval \<Rightarrow> pyval \<Rightarrow> bool" where
  "val_eq f PNone b = (b = PNone)"
| "val_eq f (PBool x) b =
     (case f (PBool x) of
        Some n \<Rightarrow> (case f b of Some m \<Rightarrow> float_eq n m | None \<Rightarrow> False)
      | None \<Rightarrow> b = PBool x)"
| "val_eq f (PInt i) b =
     (case f (PInt i) of
        Some n \<Rightarrow> (case f b of Some m \<Rightarrow> float_eq n m | None \<Rightarrow> False)
      | None \<Rightarrow> False)"
| "val_eq f (PFloat x) b =
     (case f (PFloat x) of
        Some n \<Rightarrow> (case f b of Some m \<Rightarrow> float_eq n m | None \<Rightarrow> False)
      | None \<Rightarrow> False)"
| "val_eq f (PStr s) b = (b = PStr s)"
| "val_eq f (PList xs) b =
     (case b of PList ys \<Rightarrow> list_all2 (\<lambda>p y. p y) (map (val_eq f) xs) ys | _ \<Rightarrow> False)"
| "val_eq f (PTuple xs) b =
     (case b of PTuple ys \<Rightarrow> list_all2 (\<lambda>p y. p y) (map (val_eq f) xs) ys | _ \<Rightarrow> False)"
| "val_eq f (PDict d) b =
     (case b of
        PDict d' \<Rightarrow> length d = length d' \<and>
          list_all (\<lambda>pq. list_ex (\<lambda>kv. fst pq (fst kv) \<and> snd pq (snd kv)) d')
            (map (map_prod (val_eq f) (val_eq f)) d)
      | _ \<Rightarrow> False)"
| "val_eq f (PEnum c n x) b = (b = PEnum c n x)"
| "val_eq f (PUpload n m x) b = (b = PUpload n m x)"
| "val_eq f (PObj c fs) b =
     (case b of
        PObj c' fs' \<Rightarrow> c = c' \<and>
          list_all2 (\<lambda>p kv. fst p = fst kv \<and> snd p (snd kv)) (map (map_prod id (val_eq f)) fs) fs'
      | _ \<Rightarrow> False)"

abbreviation py_eq :: "pyval \<Rightarrow> pyval \<Rightarrow> bool" where
  "py_eq \<equiv> val_eq py_num"

abbreviation json_eq :: "pyval \<Rightarrow> pyval \<Rightarrow> bool" where
  "json_eq \<equiv> val_eq json_num"

text \<open>The operator \<open>in\<close> on a list or tuple.\<close>

definition py_in :: "pyval \<Rightarrow> pyval list \<Rightarrow> bool" where
  "py_in v ms = list_ex (\<lambda>m. py_eq m v) ms"

text \<open>\<open>len\<close>; \<open>None\<close> where Python raises \<open>TypeError\<close>.\<close>

fun py_len :: "pyval \<Rightarrow> nat option" where
  "py_len (PStr s) = Some (length s)"
| "py_len (PList vs) = Some (length vs)"
| "py_len (PTuple vs) = Some (length vs)"
| "py_len (PDict d) = Some (length d)"
| "py_len v = None"

section \<open>Type specifications\<close>

datatype py_type = TBool | TInt | TFloat | TStr

fun json_type :: "py_type \<Rightarrow> string" where
  "json_type TBool = ''boolean''"
| "json_type TInt = ''integer''"
| "json_type TFloat = ''number''"
| "json_type TStr = ''string''"

text \<open>
  An enumeration is its class name and its members in order (name and value); a
  dataclass its class name, its fields in order and the names without a default.
\<close>

datatype type_spec =
    AnySpec
  | PrimitiveSpec py_type
  | LiteralSpec "pyval list"
  | EnumSpec string "(string \<times> pyval) list"
  | ListSpec type_spec
  | DictSpec type_spec
  | DataclassSpec string "(string \<times> type_spec) list" "string list"
  | OptionalSpec type_spec
  | UploadSpec

datatype reason =
    Expected string string
  | NotOneOf pyval "pyval list"
  | NotMember pyval string
  | AtIndex nat reason
  | AtKey pyval reason
  | AtField string reason
  | KeyNotString pyval
  | MissingField string
  | NotUpload

subsection \<open>Annotations\<close>

text \<open>
  A resolved annotation. A dataclass lists each field with its annotation and
  whether the field has a default or a default factory.
\<close>

datatype annotation =
    AnnAny
  | AnnNone
  | AnnUnion "annotation list"
  | AnnLiteral "pyval list"
  | AnnList "annotation list"
  | AnnDict "annotation list"
  | AnnPrim py_type
  | AnnUpload
  | AnnEnum string "(string \<times> pyval) list"
  | AnnDataclass string "((string \<times> bool) \<times> annotation) list"
  | AnnOther string

text \<open>The one non-\<open>None\<close> arm of a two-member union that has exactly one.\<close>

definition unwrap_optional :: "annotation list \<Rightarrow> annotation option" where
  "unwrap_optional args =
     (let non_none = filter (\<lambda>a. a \<noteq> AnnNone) args in
      if AnnNone \<in> set args \<and> length non_none = 1 then Some (hd non_none) else None)"

lemma unwrap_optional_mem:
  assumes "unwrap_optional args = Some a"
  shows "a \<in> set args"
proof -
  have "filter (\<lambda>a. a \<noteq> AnnNone) args \<noteq> []" and "a = hd (filter (\<lambda>a. a \<noteq> AnnNone) args)"
    using assms by (auto simp: unwrap_optional_def Let_def split: if_splits)
  then have "a \<in> set (filter (\<lambda>a. a \<noteq> AnnNone) args)"
    by (metis list.set_sel(1))
  then show ?thesis
    by simp
qed

lemma size_unwrap_optional [termination_simp]:
  "unwrap_optional args = Some a \<Longrightarrow> size a < Suc (size_list size args)"
  using size_list_estimation' [OF unwrap_optional_mem, of args a "size a" size] by simp

text \<open>\<open>TypeSpec.of\<close>; \<open>Inl\<close> is the \<open>TypeError\<close> naming the unsupported annotation.\<close>

fun spec_of :: "annotation \<Rightarrow> annotation + type_spec"
  and spec_of_fields :: "((string \<times> bool) \<times> annotation) list \<Rightarrow> annotation + (string \<times> type_spec) list"
where
  "spec_of AnnAny = Inr AnySpec"
| "spec_of (AnnUnion args) =
     (case unwrap_optional args of
        Some inner \<Rightarrow> map_sum id OptionalSpec (spec_of inner)
      | None \<Rightarrow> Inl (AnnUnion args))"
| "spec_of (AnnLiteral vs) = Inr (LiteralSpec vs)"
| "spec_of (AnnList args) =
     (case args of
        a # as \<Rightarrow> map_sum id ListSpec (spec_of a)
      | [] \<Rightarrow> Inr (ListSpec AnySpec))"
| "spec_of (AnnDict args) =
     (case args of
        [k, v] \<Rightarrow> map_sum id DictSpec (spec_of v)
      | _ \<Rightarrow> Inr (DictSpec AnySpec))"
| "spec_of (AnnPrim t) = Inr (PrimitiveSpec t)"
| "spec_of AnnUpload = Inr UploadSpec"
| "spec_of (AnnEnum c ms) = Inr (EnumSpec c ms)"
| "spec_of (AnnDataclass c fs) =
     map_sum id (\<lambda>ss. DataclassSpec c ss (map (fst \<circ> fst) (filter (\<lambda>f. \<not> snd (fst f)) fs)))
       (spec_of_fields fs)"
| "spec_of AnnNone = Inl AnnNone"
| "spec_of (AnnOther s) = Inl (AnnOther s)"
| "spec_of_fields [] = Inr []"
| "spec_of_fields (((n, d), a) # fs) =
     (case spec_of a of
        Inl e \<Rightarrow> Inl e
      | Inr s \<Rightarrow> map_sum id (\<lambda>ss. (n, s) # ss) (spec_of_fields fs))"

subsection \<open>The request-time check\<close>

text \<open>\<open>PrimitiveSpec.check\<close>: a bool is never a number, an integral float fits \<open>int\<close>.\<close>

definition prim_check :: "py_type \<Rightarrow> pyval \<Rightarrow> reason option" where
  "prim_check t v =
     (let fits = (case t of
          TBool \<Rightarrow> (case v of PBool b \<Rightarrow> True | _ \<Rightarrow> False)
        | TInt \<Rightarrow> (case v of PInt i \<Rightarrow> True | PFloat x \<Rightarrow> is_integer x | _ \<Rightarrow> False)
        | TFloat \<Rightarrow> (case v of PInt i \<Rightarrow> True | PFloat x \<Rightarrow> True | _ \<Rightarrow> False)
        | TStr \<Rightarrow> (case v of PStr s \<Rightarrow> True | _ \<Rightarrow> False))
      in if fits then None else Some (Expected (json_type t) (type_name v)))"

text \<open>The loops over elements stop at the first reason.\<close>

fun elems_check :: "(pyval \<Rightarrow> reason option) \<Rightarrow> nat \<Rightarrow> pyval list \<Rightarrow> reason option" where
  "elems_check c i [] = None"
| "elems_check c i (v # vs) =
     (case c v of Some r \<Rightarrow> Some (AtIndex i r) | None \<Rightarrow> elems_check c (Suc i) vs)"

fun items_check :: "(pyval \<Rightarrow> reason option) \<Rightarrow> (pyval \<times> pyval) list \<Rightarrow> reason option" where
  "items_check c [] = None"
| "items_check c ((k, v) # d) =
     (case k of
        PStr n \<Rightarrow> (case c v of Some r \<Rightarrow> Some (AtKey k r) | None \<Rightarrow> items_check c d)
      | _ \<Rightarrow> Some (KeyNotString k))"

fun known_check ::
  "(string \<times> (pyval \<Rightarrow> reason option)) list \<Rightarrow> (pyval \<times> pyval) list \<Rightarrow> reason option"
where
  "known_check cs [] = None"
| "known_check cs ((k, v) # d) =
     (case k of
        PStr n \<Rightarrow>
          (case map_of cs n of
             None \<Rightarrow> known_check cs d
           | Some c \<Rightarrow> (case c v of Some r \<Rightarrow> Some (AtField n r) | None \<Rightarrow> known_check cs d))
      | _ \<Rightarrow> known_check cs d)"

definition has_key :: "(pyval \<times> pyval) list \<Rightarrow> string \<Rightarrow> bool" where
  "has_key d n \<longleftrightarrow> PStr n \<in> set (map fst d)"

definition dataclass_check ::
  "string \<Rightarrow> (string \<times> (pyval \<Rightarrow> reason option)) list \<Rightarrow> string list \<Rightarrow> pyval \<Rightarrow> reason option"
where
  "dataclass_check c cs required v =
     (case v of
        PObj c' fs \<Rightarrow> if c' = c then None else Some (Expected ''object'' (type_name v))
      | PDict d \<Rightarrow>
          (case find (\<lambda>n. \<not> has_key d n) required of
             Some n \<Rightarrow> Some (MissingField n)
           | None \<Rightarrow> known_check cs d)
      | _ \<Rightarrow> Some (Expected ''object'' (type_name v)))"

definition upload_check :: "pyval \<Rightarrow> reason option" where
  "upload_check v =
     (case v of
        PUpload n m b \<Rightarrow> None
      | PDict d \<Rightarrow>
          (case map_of d (PStr ''upload_id'') of
             Some (PStr s) \<Rightarrow> None
           | _ \<Rightarrow> Some NotUpload)
      | _ \<Rightarrow> Some NotUpload)"

definition is_member :: "string \<Rightarrow> pyval \<Rightarrow> bool" where
  "is_member c v = (case v of PEnum c' n x \<Rightarrow> c' = c | _ \<Rightarrow> False)"

primrec check :: "type_spec \<Rightarrow> pyval \<Rightarrow> reason option" where
  "check AnySpec v = None"
| "check (PrimitiveSpec t) v = prim_check t v"
| "check (LiteralSpec vs) v = (if py_in v vs then None else Some (NotOneOf v vs))"
| "check (EnumSpec c ms) v =
     (if is_member c v \<or> py_in v (map snd ms) then None else Some (NotMember v c))"
| "check (ListSpec s) v =
     (case v of
        PList vs \<Rightarrow> elems_check (check s) 0 vs
      | _ \<Rightarrow> Some (Expected ''array'' (type_name v)))"
| "check (DictSpec s) v =
     (case v of
        PDict d \<Rightarrow> items_check (check s) d
      | _ \<Rightarrow> Some (Expected ''object'' (type_name v)))"
| "check (DataclassSpec c fs required) v =
     dataclass_check c (map (map_prod id check) fs) required v"
| "check (OptionalSpec s) v = (if v = PNone then None else check s v)"
| "check UploadSpec v = upload_check v"

subsection \<open>Coercion\<close>

text \<open>
  \<open>coerce\<close> assumes a value that passed the check; \<open>None\<close> stands for the values that
  assumption excludes (an enumeration raises there, a container would not iterate).
  Dataclasses, literals and uploads keep their wire form.
\<close>

definition enum_coerce :: "string \<Rightarrow> (string \<times> pyval) list \<Rightarrow> pyval \<Rightarrow> pyval option" where
  "enum_coerce c ms v =
     (if is_member c v then Some v
      else map_option (\<lambda>m. PEnum c (fst m) (snd m)) (find (\<lambda>m. py_eq (snd m) v) ms))"

definition prim_coerce :: "py_type \<Rightarrow> pyval \<Rightarrow> pyval" where
  "prim_coerce t v =
     (case v of
        PFloat (Finite a) \<Rightarrow> if t = TInt then PInt (if 0 \<le> a then \<lfloor>a\<rfloor> else \<lceil>a\<rceil>) else v
      | _ \<Rightarrow> v)"

primrec coerce :: "type_spec \<Rightarrow> pyval \<Rightarrow> pyval option" where
  "coerce AnySpec v = Some v"
| "coerce (PrimitiveSpec t) v = Some (prim_coerce t v)"
| "coerce (LiteralSpec vs) v = Some v"
| "coerce (EnumSpec c ms) v = enum_coerce c ms v"
| "coerce (ListSpec s) v =
     (case v of PList vs \<Rightarrow> map_option PList (those (map (coerce s) vs)) | _ \<Rightarrow> None)"
| "coerce (DictSpec s) v =
     (case v of
        PDict d \<Rightarrow> map_option PDict (those (map (\<lambda>kv. map_option (Pair (fst kv)) (coerce s (snd kv))) d))
      | _ \<Rightarrow> None)"
| "coerce (DataclassSpec c fs required) v = Some v"
| "coerce (OptionalSpec s) v = (if v = PNone then Some PNone else coerce s v)"
| "coerce UploadSpec v = Some v"

text \<open>
  The values of the declared Python type: a literal is one of the declared values itself, an
  enumeration holds a member of its class, a dataclass an instance whose fields have their types,
  an upload the fetched file. As for a type checker, an \<open>int\<close> is also a \<open>float\<close>.
\<close>

primrec has_type :: "type_spec \<Rightarrow> pyval \<Rightarrow> bool" where
  "has_type AnySpec v = True"
| "has_type (PrimitiveSpec t) v =
     (case t of
        TBool \<Rightarrow> (\<exists>b. v = PBool b)
      | TInt \<Rightarrow> (\<exists>i. v = PInt i)
      | TFloat \<Rightarrow> (\<exists>i. v = PInt i) \<or> (\<exists>x. v = PFloat x)
      | TStr \<Rightarrow> (\<exists>s. v = PStr s))"
| "has_type (LiteralSpec vs) v = (v \<in> set vs)"
| "has_type (EnumSpec c ms) v = (\<exists>n x. v = PEnum c n x)"
| "has_type (ListSpec s) v = (\<exists>vs. v = PList vs \<and> list_all (has_type s) vs)"
| "has_type (DictSpec s) v =
     (\<exists>d. v = PDict d \<and> list_all (\<lambda>kv. (\<exists>n. fst kv = PStr n) \<and> has_type s (snd kv)) d)"
| "has_type (DataclassSpec c fs required) v =
     (\<exists>xs. v = PObj c xs \<and> map fst xs = map fst fs \<and> list_all2 (\<lambda>f x. snd f (snd x)) (map (map_prod id has_type) fs) xs)"
| "has_type (OptionalSpec s) v = (v = PNone \<or> has_type s v)"
| "has_type UploadSpec v = (\<exists>n m b. v = PUpload n m b)"

text \<open>
  The types whose values coercion brings into their Python form: no dataclass and no upload below
  them, which keep their wire form, and only literals that Python's \<open>==\<close> tells apart from every
  other value, strings and \<open>None\<close>.
\<close>

fun exact_literal :: "pyval \<Rightarrow> bool" where
  "exact_literal (PStr s) = True"
| "exact_literal PNone = True"
| "exact_literal v = False"

primrec coerces_fully :: "type_spec \<Rightarrow> bool" where
  "coerces_fully AnySpec = True"
| "coerces_fully (PrimitiveSpec t) = True"
| "coerces_fully (LiteralSpec vs) = list_all exact_literal vs"
| "coerces_fully (EnumSpec c ms) = True"
| "coerces_fully (ListSpec s) = coerces_fully s"
| "coerces_fully (DictSpec s) = coerces_fully s"
| "coerces_fully (DataclassSpec c fs required) = False"
| "coerces_fully (OptionalSpec s) = coerces_fully s"
| "coerces_fully UploadSpec = False"

lemma elems_check_None [simp]: "elems_check c i vs = None \<longleftrightarrow> (\<forall>v\<in>set vs. c v = None)"
  by (induction vs arbitrary: i) (auto split: option.splits)

lemma items_check_None:
  "items_check c d = None \<longleftrightarrow> (\<forall>kv\<in>set d. (\<exists>n. fst kv = PStr n) \<and> c (snd kv) = None)"
proof (induction d)
  case (Cons kv d)
  then show ?case
    by (cases kv; cases "fst kv") (auto split: option.splits)
qed simp

lemma known_check_None:
  "known_check cs d = None \<longleftrightarrow>
     (\<forall>kv\<in>set d. \<forall>n c. fst kv = PStr n \<longrightarrow> map_of cs n = Some c \<longrightarrow> c (snd kv) = None)"
proof (induction d)
  case (Cons kv d)
  then show ?case
    by (cases kv; cases "fst kv") (auto split: option.splits)
qed simp

lemma find_None_list_all: "find (\<lambda>x. \<not> P x) xs = None \<longleftrightarrow> list_all P xs"
  by (auto simp: find_None_iff list_all_iff)

lemma py_in_Some: "py_in v (map snd ms) \<longleftrightarrow> (\<exists>m. find (\<lambda>m. py_eq (snd m) v) ms = Some m)"
  by (induction ms) (auto simp: py_in_def)

lemma those_map_Some:
  "(\<And>x. x \<in> set xs \<Longrightarrow> f x = Some (g x)) \<Longrightarrow> those (map f xs) = Some (map g xs)"
  by (induction xs) auto

text \<open>The facts about one coerced value, by induction on the type.\<close>

definition coerced :: "type_spec \<Rightarrow> pyval \<Rightarrow> pyval \<Rightarrow> bool" where
  "coerced s v w \<longleftrightarrow>
     coerce s v = Some w \<and> (coerces_fully s \<longrightarrow> has_type s w) \<and> check s w = None \<and> coerce s w = Some w"

lemma exact_literal_in: "list_all exact_literal vs \<Longrightarrow> py_in v vs \<Longrightarrow> v \<in> set vs"
proof (induction vs)
  case (Cons u vs)
  then show ?case
    by (cases u) (auto simp: py_in_def)
qed (simp add: py_in_def)

lemma coerced_prim:
  assumes "prim_check t v = None"
  shows "coerced (PrimitiveSpec t) v (prim_coerce t v)"
proof (cases v)
  case (PFloat x)
  then show ?thesis
    using assms
    by (cases t; cases x) (auto simp: coerced_def prim_check_def prim_coerce_def is_integer_def
        floor_le_ceiling dest: sym split: if_splits)
qed (use assms in \<open>cases t; auto simp: coerced_def prim_check_def prim_coerce_def\<close>)+

lemma coerced_enum:
  assumes "is_member c v \<or> py_in v (map snd ms)"
  shows "\<exists>w. coerced (EnumSpec c ms) v w"
proof (cases "is_member c v")
  case True
  then show ?thesis
    by (auto simp: coerced_def enum_coerce_def is_member_def split: pyval.splits)
next
  case False
  with assms obtain m where "find (\<lambda>m. py_eq (snd m) v) ms = Some m"
    by (auto simp: py_in_Some)
  with False show ?thesis
    by (auto simp: coerced_def enum_coerce_def is_member_def)
qed

lemma coerced_elems:
  assumes "\<forall>v\<in>set vs. \<exists>w. coerced s v w"
  shows "\<exists>w. coerced (ListSpec s) (PList vs) w"
proof -
  from assms obtain g where g: "\<forall>v\<in>set vs. coerced s v (g v)"
    by metis
  have 1: "those (map (coerce s) vs) = Some (map g vs)"
    using g by (intro those_map_Some) (auto simp: coerced_def)
  have 2: "those (map (coerce s) (map g vs)) = Some (map g vs)"
    using g those_map_Some [of vs "coerce s \<circ> g" g] by (auto simp: coerced_def)
  show ?thesis
    using g 1 2 by (intro exI [of _ "PList (map g vs)"]) (auto simp: coerced_def list_all_iff)
qed

lemma coerced_items:
  assumes "\<forall>kv\<in>set d. (\<exists>n. fst kv = PStr n) \<and> (\<exists>w. coerced s (snd kv) w)"
  shows "\<exists>w. coerced (DictSpec s) (PDict d) w"
proof -
  from assms obtain g where g: "\<forall>kv\<in>set d. (\<exists>n. fst kv = PStr n) \<and> coerced s (snd kv) (g kv)"
    by metis
  define h where "h kv = (fst kv, g kv)" for kv
  let ?c = "\<lambda>kv. map_option (Pair (fst kv)) (coerce s (snd kv))"
  have 1: "those (map ?c d) = Some (map h d)"
    using g by (intro those_map_Some) (auto simp: coerced_def h_def)
  have 2: "those (map ?c (map h d)) = Some (map h d)"
    using g those_map_Some [of d "?c \<circ> h" h] by (auto simp: coerced_def h_def)
  show ?thesis
    using g 1 2
    by (intro exI [of _ "PDict (map h d)"]) (auto simp: coerced_def list_all_iff items_check_None h_def)
qed

lemma check_coerced: "check s v = None \<Longrightarrow> \<exists>w. coerced s v w"
proof (induction s arbitrary: v)
  case (PrimitiveSpec t)
  then show ?case
    using coerced_prim by auto
next
  case (EnumSpec c ms)
  then show ?case
    using coerced_enum by (auto split: if_splits)
next
  case (ListSpec s)
  then obtain vs where "v = PList vs" "\<forall>v\<in>set vs. check s v = None"
    by (auto split: pyval.splits)
  then show ?case
    using ListSpec.IH by (auto intro: coerced_elems)
next
  case (DictSpec s)
  then obtain d where "v = PDict d" "\<forall>kv\<in>set d. (\<exists>n. fst kv = PStr n) \<and> check s (snd kv) = None"
    by (auto simp: items_check_None split: pyval.splits)
  then show ?case
    using DictSpec.IH by (auto intro!: coerced_items)
next
  case (DataclassSpec c fs required)
  then have "coerced (DataclassSpec c fs required) v v"
    by (auto simp: coerced_def dataclass_check_def find_None_list_all
        split: pyval.splits option.splits if_splits)
  then show ?case ..
next
  case (OptionalSpec s)
  show ?case
  proof (cases "v = PNone")
    case False
    with OptionalSpec obtain w where "coerced s v w"
      by auto
    then have "coerced (OptionalSpec s) v w"
      using False by (auto simp: coerced_def)
    then show ?thesis ..
  qed (auto simp: coerced_def)
next
  case UploadSpec
  then have "coerced UploadSpec v v"
    by (auto simp: coerced_def upload_check_def split: pyval.splits option.splits)
  then show ?case ..
next
  case (LiteralSpec vs)
  then have "coerced (LiteralSpec vs) v v"
    by (auto simp: coerced_def exact_literal_in split: if_splits)
  then show ?case ..
qed (auto simp: coerced_def split: if_splits)

section \<open>Published schemas\<close>

text \<open>
  A schema is a dict of keywords; one constructor per keyword the code writes, in
  the order it writes them. Setting a keyword replaces the entry of the same key or
  appends one.
\<close>

datatype keyword =
    KType string
  | KEnum "pyval list"
  | KItems "keyword list"
  | KAdditional "keyword list"
  | KProperties "(string \<times> keyword list) list"
  | KRequired "string list"
  | KAnyOf "keyword list list"
  | KRef string
  | KFormat string
  | KDescription string
  | KDefault pyval
  | KMinimum pyfloat
  | KMaximum pyfloat
  | KMinLength int
  | KMaxLength int
  | KModerate bool

type_synonym schema = "keyword list"

fun key_of :: "keyword \<Rightarrow> string" where
  "key_of (KType t) = ''type''"
| "key_of (KEnum vs) = ''enum''"
| "key_of (KItems s) = ''items''"
| "key_of (KAdditional s) = ''additionalProperties''"
| "key_of (KProperties ps) = ''properties''"
| "key_of (KRequired ns) = ''required''"
| "key_of (KAnyOf ss) = ''anyOf''"
| "key_of (KRef r) = ''$ref''"
| "key_of (KFormat f) = ''format''"
| "key_of (KDescription d) = ''description''"
| "key_of (KDefault v) = ''default''"
| "key_of (KMinimum x) = ''minimum''"
| "key_of (KMaximum x) = ''maximum''"
| "key_of (KMinLength n) = ''minLength''"
| "key_of (KMaxLength n) = ''maxLength''"
| "key_of (KModerate b) = ''x-reactor-moderate''"

fun set_kw :: "keyword \<Rightarrow> schema \<Rightarrow> schema" where
  "set_kw k [] = [k]"
| "set_kw k (k' # ks) = (if key_of k' = key_of k then k # ks else k' # set_kw k ks)"

definition enum_schema :: "pyval list \<Rightarrow> schema" where
  "enum_schema vs =
     (let member_types = set (map type_name vs) in
      if member_types = {''bool''} then [KType ''boolean'', KEnum vs]
      else if member_types = {''int''} then [KType ''integer'', KEnum vs]
      else if member_types = {''float''} then [KType ''number'', KEnum vs]
      else if member_types = {''str''} then [KType ''string'', KEnum vs]
      else [KEnum vs])"

definition upload_ref :: string where
  "upload_ref = ''#/components/schemas/ReactorUploadReference''"

primrec to_json_schema :: "type_spec \<Rightarrow> schema" where
  "to_json_schema AnySpec = []"
| "to_json_schema (PrimitiveSpec t) = [KType (json_type t)]"
| "to_json_schema (LiteralSpec vs) = enum_schema vs"
| "to_json_schema (EnumSpec c ms) = enum_schema (map snd ms)"
| "to_json_schema (ListSpec s) = [KType ''array'', KItems (to_json_schema s)]"
| "to_json_schema (DictSpec s) = [KType ''object'', KAdditional (to_json_schema s)]"
| "to_json_schema (DataclassSpec c fs required) =
     [KType ''object'', KProperties (map (map_prod id to_json_schema) fs)]
     @ (if required \<noteq> [] then [KRequired required] else [])"
| "to_json_schema (OptionalSpec s) = [KAnyOf [to_json_schema s, [KType ''null'']]]"
| "to_json_schema UploadSpec = [KRef upload_ref]"

definition upload_reference_schema :: schema where
  "upload_reference_schema =
     [KType ''object'', KFormat ''reactor-upload-reference'',
      KDescription ''Reference to a file uploaded via the Reactor upload protocol.'',
      KProperties
        [(''upload_id'', [KType ''string'', KFormat ''uuid'']),
         (''name'', [KType ''string'']),
         (''mime_type'', [KType ''string'']),
         (''size'', [KType ''integer''])],
      KRequired [''upload_id'', ''name'', ''mime_type'', ''size'']]"

section \<open>The meaning of a schema\<close>

text \<open>
  JSON Schema 2020-12 on the keywords above. Each keyword constrains the values of
  its own kind and passes every other value; \<open>format\<close>, \<open>description\<close>, \<open>default\<close> and
  extension keys are annotations. A number without fractional part is an integer,
  and a bool is not a number.
\<close>

definition type_ok :: "string \<Rightarrow> pyval \<Rightarrow> bool" where
  "type_ok t v =
     (case v of
        PNone \<Rightarrow> t = ''null''
      | PBool b \<Rightarrow> t = ''boolean''
      | PInt i \<Rightarrow> t = ''integer'' \<or> t = ''number''
      | PFloat x \<Rightarrow> t = ''number'' \<or> t = ''integer'' \<and> is_integer x
      | PStr s \<Rightarrow> t = ''string''
      | PList vs \<Rightarrow> t = ''array''
      | PDict d \<Rightarrow> t = ''object''
      | _ \<Rightarrow> False)"

primrec kw_ok :: "(string \<Rightarrow> pyval \<Rightarrow> bool) \<Rightarrow> keyword \<Rightarrow> pyval \<Rightarrow> bool" where
  "kw_ok refs (KType t) v = type_ok t v"
| "kw_ok refs (KEnum vs) v = list_ex (\<lambda>m. json_eq m v) vs"
| "kw_ok refs (KItems s) v =
     (case v of PList vs \<Rightarrow> list_all (\<lambda>x. list_all (\<lambda>p. p x) (map (kw_ok refs) s)) vs | _ \<Rightarrow> True)"
| "kw_ok refs (KAdditional s) v =
     (case v of
        PDict d \<Rightarrow> list_all (\<lambda>kv. list_all (\<lambda>p. p (snd kv)) (map (kw_ok refs) s)) d
      | _ \<Rightarrow> True)"
| "kw_ok refs (KProperties ps) v =
     (case v of
        PDict d \<Rightarrow>
          list_all (\<lambda>kv. list_all (\<lambda>np. fst kv = PStr (fst np) \<longrightarrow> list_all (\<lambda>p. p (snd kv)) (snd np))
              (map (map_prod id (map (kw_ok refs))) ps)) d
      | _ \<Rightarrow> True)"
| "kw_ok refs (KRequired ns) v = (case v of PDict d \<Rightarrow> list_all (has_key d) ns | _ \<Rightarrow> True)"
| "kw_ok refs (KAnyOf ss) v = list_ex (list_all (\<lambda>p. p v)) (map (map (kw_ok refs)) ss)"
| "kw_ok refs (KRef r) v = refs r v"
| "kw_ok refs (KFormat s) v = True"
| "kw_ok refs (KDescription s) v = True"
| "kw_ok refs (KDefault x) v = True"
| "kw_ok refs (KMinimum x) v = (case json_num v of Some n \<Rightarrow> \<not> float_less n x | None \<Rightarrow> True)"
| "kw_ok refs (KMaximum x) v = (case json_num v of Some n \<Rightarrow> \<not> float_less x n | None \<Rightarrow> True)"
| "kw_ok refs (KMinLength n) v = (case v of PStr s \<Rightarrow> n \<le> int (length s) | _ \<Rightarrow> True)"
| "kw_ok refs (KMaxLength n) v = (case v of PStr s \<Rightarrow> int (length s) \<le> n | _ \<Rightarrow> True)"
| "kw_ok refs (KModerate b) v = True"

definition valid_in :: "(string \<Rightarrow> pyval \<Rightarrow> bool) \<Rightarrow> schema \<Rightarrow> pyval \<Rightarrow> bool" where
  "valid_in refs s v = list_all (\<lambda>k. kw_ok refs k v) s"

text \<open>References resolve in the document's components, where uploads are the one fixed entry.\<close>

definition component_refs :: "string \<Rightarrow> pyval \<Rightarrow> bool" where
  "component_refs r v =
     (if r = upload_ref then valid_in (\<lambda>_ _. False) upload_reference_schema v else False)"

abbreviation schema_valid :: "schema \<Rightarrow> pyval \<Rightarrow> bool" where
  "schema_valid \<equiv> valid_in component_refs"

text \<open>The values a wire can carry: JSON, with string keys that do not repeat.\<close>

primrec is_wire :: "pyval \<Rightarrow> bool" where
  "is_wire PNone = True"
| "is_wire (PBool b) = True"
| "is_wire (PInt i) = True"
| "is_wire (PFloat x) = True"
| "is_wire (PStr s) = True"
| "is_wire (PList vs) = list_all (\<lambda>p. p) (map is_wire vs)"
| "is_wire (PTuple vs) = False"
| "is_wire (PDict d) =
     (distinct (map fst d) \<and> list_all (\<lambda>kv. \<exists>n. fst kv = PStr n) d
      \<and> list_all snd (map (map_prod id is_wire) d))"
| "is_wire (PEnum c n x) = False"
| "is_wire (PUpload n m b) = False"
| "is_wire (PObj c fs) = False"

text \<open>
  Members Python and JSON compare alike: no bool, and no number a bool equals; no
  container either, whose elements might be such.
\<close>

definition unambiguous :: "pyval \<Rightarrow> bool" where
  "unambiguous m =
     (case m of
        PNone \<Rightarrow> True
      | PStr s \<Rightarrow> True
      | PInt i \<Rightarrow> i \<noteq> 0 \<and> i \<noteq> 1
      | PFloat x \<Rightarrow> x \<noteq> Finite 0 \<and> x \<noteq> Finite 1
      | _ \<Rightarrow> False)"

primrec plain_spec :: "type_spec \<Rightarrow> bool" where
  "plain_spec AnySpec = True"
| "plain_spec (PrimitiveSpec t) = True"
| "plain_spec (LiteralSpec vs) = list_all unambiguous vs"
| "plain_spec (EnumSpec c ms) = list_all (unambiguous \<circ> snd) ms"
| "plain_spec (ListSpec s) = plain_spec s"
| "plain_spec (DictSpec s) = plain_spec s"
| "plain_spec (DataclassSpec c fs required) = list_all snd (map (map_prod id plain_spec) fs)"
| "plain_spec (OptionalSpec s) = plain_spec s"
| "plain_spec UploadSpec = False"

text \<open>Field names of a dataclass do not repeat.\<close>

primrec spec_wf :: "type_spec \<Rightarrow> bool" where
  "spec_wf AnySpec = True"
| "spec_wf (PrimitiveSpec t) = True"
| "spec_wf (LiteralSpec vs) = True"
| "spec_wf (EnumSpec c ms) = True"
| "spec_wf (ListSpec s) = spec_wf s"
| "spec_wf (DictSpec s) = spec_wf s"
| "spec_wf (DataclassSpec c fs required) =
     (distinct (map fst fs) \<and> list_all snd (map (map_prod id spec_wf) fs))"
| "spec_wf (OptionalSpec s) = spec_wf s"
| "spec_wf UploadSpec = True"

section \<open>Check and schema agree\<close>

lemma valid_in_simps [simp]:
  "valid_in refs [] v"
  "valid_in refs (k # ks) v \<longleftrightarrow> kw_ok refs k v \<and> valid_in refs ks v"
  "valid_in refs (ks @ ks') v \<longleftrightarrow> valid_in refs ks v \<and> valid_in refs ks' v"
  by (simp_all add: valid_in_def)

lemma list_all_apply: "list_all (\<lambda>p. p x) (map (kw_ok refs) s) = valid_in refs s x"
  by (simp add: valid_in_def list_all_iff)

lemma kw_ok_nested [simp]:
  "kw_ok refs (KItems s) (PList vs) \<longleftrightarrow> (\<forall>x\<in>set vs. valid_in refs s x)"
  "kw_ok refs (KAdditional s) (PDict d) \<longleftrightarrow> (\<forall>kv\<in>set d. valid_in refs s (snd kv))"
  "kw_ok refs (KProperties ps) (PDict d) \<longleftrightarrow>
     (\<forall>kv\<in>set d. \<forall>np\<in>set ps. fst kv = PStr (fst np) \<longrightarrow> valid_in refs (snd np) (snd kv))"
  "kw_ok refs (KRequired ns) (PDict d) \<longleftrightarrow> list_all (has_key d) ns"
  "kw_ok refs (KAnyOf ss) v \<longleftrightarrow> (\<exists>s\<in>set ss. valid_in refs s v)"
  by (simp_all add: list_all_apply list_ex_iff) (simp_all add: list_all_iff list_all_apply valid_in_def)

declare kw_ok.simps(3-7) [simp del]

lemma json_num_py_num: "json_num v = Some n \<Longrightarrow> py_num v = Some n"
  by (simp add: py_num_def json_num_def split: pyval.splits)

lemma json_eq_scalar:
  assumes "unambiguous m" and "is_wire v"
  shows "py_eq m v = json_eq m v"
  using assms by (cases m; cases v) (auto simp: unambiguous_def py_num_def json_num_def float_eq_def)

lemma list_all2_apply:
  "list_all2 (\<lambda>p y. p y) (map f xs) ys \<longleftrightarrow> list_all2 f xs ys"
  by (simp add: list_all2_map1)

lemma json_eq_py_eq: "json_eq m v \<Longrightarrow> py_eq m v"
proof (induction m arbitrary: v)
  case (PList xs)
  then show ?case
    by (auto simp: list_all2_apply split: pyval.splits elim!: list.rel_mono_strong)
next
  case (PTuple xs)
  then show ?case
    by (auto simp: list_all2_apply split: pyval.splits elim!: list.rel_mono_strong)
next
  case (PDict d)
  then obtain d' where v: "v = PDict d'" and len: "length d = length d'"
    and ex: "\<forall>x\<in>set d. \<exists>kv\<in>set d'. json_eq (fst x) (fst kv) \<and> json_eq (snd x) (snd kv)"
    by (auto simp: list_all_iff list_ex_iff split: pyval.splits)
  have "\<exists>kv\<in>set d'. py_eq (fst x) (fst kv) \<and> py_eq (snd x) (snd kv)" if "x \<in> set d" for x
  proof -
    have "fst x \<in> Basic_BNFs.fsts x" "snd x \<in> Basic_BNFs.snds x"
      by (cases x, simp)+
    then show ?thesis
      using ex that PDict.IH by blast
  qed
  then show ?case
    using v len by (simp add: list_all_iff list_ex_iff)
next
  case (PObj c fs)
  have "fst x = fst kv \<and> py_eq (snd x) (snd kv)"
    if "x \<in> set fs" "fst x = fst kv \<and> json_eq (snd x) (snd kv)" for x kv
  proof -
    have "snd x \<in> Basic_BNFs.snds x"
      by (cases x) simp
    then show ?thesis
      using that PObj.IH by blast
  qed
  then show ?case
    using PObj.prems by (auto simp: list_all2_map1 split: pyval.splits elim!: list.rel_mono_strong)
next
  case (PBool b)
  then show ?case
    by (cases v) (simp_all add: py_num_def json_num_def float_eq_def)
next
  case (PInt i)
  then show ?case
    by (cases v) (simp_all add: py_num_def json_num_def)
next
  case (PFloat x)
  then show ?case
    by (cases v) (simp_all add: py_num_def json_num_def)
qed simp_all

lemma enum_schema_enum: "valid_in refs (enum_schema vs) v \<Longrightarrow> list_ex (\<lambda>m. json_eq m v) vs"
  by (simp add: enum_schema_def Let_def split: if_splits)

lemma uniform_type:
  assumes "set (map type_name vs) = {t}" and "m \<in> set vs"
  shows "type_name m = t"
  using assms by auto

lemma enum_type_ok:
  assumes "unambiguous m" "json_eq m v" "is_wire v"
  shows "type_name m = ''bool'' \<Longrightarrow> type_ok ''boolean'' v"
    and "type_name m = ''int'' \<Longrightarrow> type_ok ''integer'' v"
    and "type_name m = ''float'' \<Longrightarrow> type_ok ''number'' v"
    and "type_name m = ''str'' \<Longrightarrow> type_ok ''string'' v"
  using assms
  by (cases m; cases v; auto simp: unambiguous_def type_ok_def json_num_def float_eq_def is_integer_def)+

lemma enum_schema_valid:
  assumes "\<forall>m\<in>set vs. unambiguous m" and "is_wire v"
  shows "valid_in refs (enum_schema vs) v \<longleftrightarrow> py_in v vs"
proof
  assume "valid_in refs (enum_schema vs) v"
  then show "py_in v vs"
    unfolding py_in_def list_ex_iff using enum_schema_enum [of refs vs v] json_eq_py_eq
    by (auto simp: list_ex_iff)
next
  assume "py_in v vs"
  then obtain m where m: "m \<in> set vs" "json_eq m v"
    using assms json_eq_scalar by (auto simp: py_in_def list_ex_iff)
  then have "list_ex (\<lambda>m. json_eq m v) vs"
    by (auto simp: list_ex_iff)
  then show "valid_in refs (enum_schema vs) v"
    using enum_type_ok [OF _ m(2) assms(2)] assms(1) m(1) uniform_type [of vs _ m]
    by (simp add: enum_schema_def Let_def)
qed

lemma not_member_wire: "is_wire v \<Longrightarrow> \<not> is_member c v"
  by (cases v) (simp_all add: is_member_def)

lemma prim_check_schema: "is_wire v \<Longrightarrow> type_ok (json_type t) v \<longleftrightarrow> prim_check t v = None"
  by (cases v; cases t) (simp_all add: prim_check_def type_ok_def)

lemma wire_elem: "is_wire (PList vs) \<Longrightarrow> x \<in> set vs \<Longrightarrow> is_wire x"
  by (auto simp: list_all_iff)

lemma wire_item: "is_wire (PDict d) \<Longrightarrow> kv \<in> set d \<Longrightarrow> (\<exists>n. fst kv = PStr n) \<and> is_wire (snd kv)"
  by (auto simp: list_all_iff)

lemma type_ok_shape:
  "type_ok ''array'' v \<longleftrightarrow> (\<exists>vs. v = PList vs)"
  "type_ok ''object'' v \<longleftrightarrow> (\<exists>d. v = PDict d)"
  "type_ok ''null'' v \<longleftrightarrow> v = PNone"
  by (cases v; simp add: type_ok_def)+

lemma map_of_checks: "map_of (map (map_prod id f) fs) n = map_option f (map_of fs n)"
  by (induction fs) auto

text \<open>The dataclass case, once, for any relation between the field checks and schemas.\<close>

lemma known_properties:
  assumes "distinct (map fst fs)"
  shows "known_check (map (map_prod id check) fs) d = None \<longleftrightarrow>
    (\<forall>kv\<in>set d. \<forall>np\<in>set fs. fst kv = PStr (fst np) \<longrightarrow> check (snd np) (snd kv) = None)"
proof -
  have mem: "map_of fs n = Some s \<longleftrightarrow> (n, s) \<in> set fs" for n s
    using assms map_of_eq_Some_iff by fastforce
  show ?thesis
    unfolding known_check_None map_of_checks by (auto simp: mem Ball_def) blast
qed

text \<open>Everything the schema admits passes the check, uploads included.\<close>

lemma schema_valid_checks:
  assumes "is_wire v" and "spec_wf s" and "schema_valid (to_json_schema s) v"
  shows "check s v = None"
  using assms
proof (induction s arbitrary: v)
  case (PrimitiveSpec t)
  then show ?case
    by (simp add: prim_check_schema)
next
  case (LiteralSpec vs)
  then have "list_ex (\<lambda>m. json_eq m v) vs"
    by (auto dest: enum_schema_enum)
  then show ?case
    unfolding check.simps py_in_def list_ex_iff using json_eq_py_eq by auto
next
  case (EnumSpec c ms)
  then have "list_ex (\<lambda>m. json_eq m v) (map snd ms)"
    by (auto dest: enum_schema_enum)
  then show ?case
    unfolding check.simps py_in_def list_ex_iff using json_eq_py_eq by auto
next
  case (ListSpec s)
  then obtain vs where v: "v = PList vs"
    by (auto simp: type_ok_shape)
  then show ?case
    using ListSpec wire_elem by auto
next
  case (DictSpec s)
  then obtain d where v: "v = PDict d"
    by (auto simp: type_ok_shape)
  then show ?case
    using DictSpec wire_item [of d] by (auto simp: items_check_None)
next
  case (DataclassSpec c fs required)
  then obtain d where v: "v = PDict d"
    by (auto simp: type_ok_shape)
  have fields: "check (snd np) (snd kv) = None"
    if "kv \<in> set d" "np \<in> set fs" "fst kv = PStr (fst np)" for kv np
  proof (rule DataclassSpec.IH)
    show "np \<in> set fs" by fact
    show "snd np \<in> Basic_BNFs.snds np" by (cases np) simp
    show "is_wire (snd kv)" using DataclassSpec.prems(1) wire_item that v by blast
    show "spec_wf (snd np)" using DataclassSpec.prems(2) that by (auto simp: list_all_iff)
    show "schema_valid (to_json_schema (snd np)) (snd kv)"
      using DataclassSpec.prems(3) that v by force
  qed
  have "list_all (has_key d) required"
    using DataclassSpec.prems(3) v by (cases required) auto
  then show ?case
    using v DataclassSpec.prems known_properties fields
    by (simp add: dataclass_check_def find_None_list_all [THEN iffD2])
next
  case (OptionalSpec s)
  then show ?case
    by (auto simp: type_ok_shape)
next
  case UploadSpec
  then obtain d where v: "v = PDict d" and u: "has_key d ''upload_id''"
    and t: "\<forall>kv\<in>set d. fst kv = PStr ''upload_id'' \<longrightarrow> type_ok ''string'' (snd kv)"
    by (auto simp: component_refs_def upload_reference_schema_def type_ok_shape)
  then obtain x where x: "map_of d (PStr ''upload_id'') = Some x"
    by (force simp: has_key_def map_of_eq_None_iff image_iff dest!: weak_map_of_SomeI)
  then have "type_ok ''string'' x"
    using t by (force dest: map_of_SomeD)
  then show ?case
    using v x by (cases x) (auto simp: upload_check_def type_ok_def)
qed simp

lemma check_schema_valid:
  assumes "is_wire v" and "plain_spec s" and "spec_wf s" and "check s v = None"
  shows "schema_valid (to_json_schema s) v"
  using assms
proof (induction s arbitrary: v)
  case (PrimitiveSpec t)
  then show ?case
    by (simp add: prim_check_schema)
next
  case (LiteralSpec vs)
  then show ?case
    by (auto simp: enum_schema_valid list_all_iff split: if_splits)
next
  case (EnumSpec c ms)
  then show ?case
    by (auto simp: enum_schema_valid list_all_iff not_member_wire split: if_splits)
next
  case (ListSpec s)
  then obtain vs where v: "v = PList vs"
    by (auto split: pyval.splits)
  then show ?case
    using ListSpec wire_elem by (auto simp: type_ok_shape)
next
  case (DictSpec s)
  then obtain d where v: "v = PDict d"
    by (auto split: pyval.splits)
  then show ?case
    using DictSpec wire_item [of d] by (auto simp: items_check_None type_ok_shape)
next
  case (DataclassSpec c fs required)
  then obtain d where v: "v = PDict d" and req: "list_all (has_key d) required"
    and known: "known_check (map (map_prod id check) fs) d = None"
    by (auto simp: dataclass_check_def find_None_list_all split: pyval.splits option.splits)
  have "schema_valid (to_json_schema (snd np)) (snd kv)"
    if "kv \<in> set d" "np \<in> set fs" "fst kv = PStr (fst np)" for kv np
  proof (rule DataclassSpec.IH)
    show "np \<in> set fs" by fact
    show "snd np \<in> Basic_BNFs.snds np" by (cases np) simp
    show "is_wire (snd kv)" using DataclassSpec.prems(1) wire_item that v by blast
    show "plain_spec (snd np)" "spec_wf (snd np)"
      using DataclassSpec.prems(2,3) that by (auto simp: list_all_iff)
    show "check (snd np) (snd kv) = None"
      using known_properties [of fs d] known DataclassSpec.prems(3) that by auto
  qed
  then show ?case
    using v req by (force simp: type_ok_shape)
next
  case (OptionalSpec s)
  then show ?case
    by (auto simp: type_ok_shape split: if_splits)
qed simp_all

text \<open>
  C14. The request-time check and the published schema agree. A value the schema of
  a field type admits always passes the check, so a client that follows the schema
  is never refused over a type, nested objects, enumerations and uploads included;
  and for a type without uploads whose literal and enumeration members Python and
  JSON compare alike, the check admits nothing else.
\<close>

theorem check_agrees_with_schema:
  assumes "is_wire v" and "spec_wf s"
  shows "(schema_valid (to_json_schema s) v \<longrightarrow> check s v = None)
    \<and> (plain_spec s \<longrightarrow> (check s v = None \<longleftrightarrow> schema_valid (to_json_schema s) v))"
  using schema_valid_checks [OF assms] check_schema_valid [OF assms(1) _ assms(2)] by blast

definition example_spec :: type_spec where
  "example_spec = DataclassSpec ''Move''
     [(''steps'', ListSpec (PrimitiveSpec TInt)), (''mode'', LiteralSpec [PStr ''a'', PInt 7])] [''steps'']"

definition example_value :: pyval where
  "example_value = PDict [(PStr ''mode'', PInt 7), (PStr ''steps'', PList [PFloat (Finite 2)])]"

theorem check_agrees_with_schema_witness:
  "is_wire example_value \<and> spec_wf example_spec \<and> plain_spec example_spec
   \<and> check example_spec example_value = None
   \<and> schema_valid (to_json_schema example_spec) example_value"
proof -
  have pre: "is_wire example_value" "spec_wf example_spec" "plain_spec example_spec"
    by (simp_all add: example_value_def example_spec_def unambiguous_def)
  have "check example_spec example_value = None"
    by (simp add: example_value_def example_spec_def dataclass_check_def has_key_def prim_check_def
        is_integer_def py_in_def py_num_def json_num_def float_eq_def)
  with pre check_agrees_with_schema [OF pre(1,2)] show ?thesis
    by blast
qed

text \<open>
  C36. A value that passed the check can always be coerced; the coerced value passes the same
  check and coercing it again changes nothing. For every type without a dataclass or an upload
  in it, and whose literals are strings or \<open>None\<close>, the coerced value has the declared Python
  type: an integral float in an \<open>int\<close> field is an \<open>int\<close>, an enumeration field holds a member
  of its class, a literal field one of the declared values, element by element through lists,
  dicts and optionals. The excluded types keep their wire form: a dataclass field holds the dict,
  an upload field the reference, a number literal what equals it.
\<close>

theorem coerce_typed:
  assumes "check s v = None"
  shows "\<exists>w. coerce s v = Some w \<and> check s w = None \<and> coerce s w = Some w \<and> (coerces_fully s \<longrightarrow> has_type s w)"
  using check_coerced [OF assms] by (auto simp: coerced_def)

theorem coerce_typed_witness:
  "\<exists>w. coerce (ListSpec (EnumSpec ''Speed'' [(''SLOW'', PInt 1), (''FAST'', PInt 2)])) (PList [PFloat (Finite 2)]) = Some w
     \<and> w = PList [PEnum ''Speed'' ''FAST'' (PInt 2)]
     \<and> has_type (ListSpec (EnumSpec ''Speed'' [(''SLOW'', PInt 1), (''FAST'', PInt 2)])) w"
proof -
  let ?s = "ListSpec (EnumSpec ''Speed'' [(''SLOW'', PInt 1), (''FAST'', PInt 2)])"
  have "check ?s (PList [PFloat (Finite 2)]) = None"
    by (simp add: py_in_def py_num_def json_num_def float_eq_def)
  from coerce_typed [OF this] show ?thesis
    by (simp add: enum_coerce_def is_member_def py_num_def json_num_def float_eq_def)
qed

text \<open>A dataclass field keeps its wire form: an enumeration inside it is not coerced to its member.\<close>

lemma dataclass_not_coerced:
  "let s = DataclassSpec ''P'' [(''speed'', EnumSpec ''Speed'' [(''SLOW'', PInt 1)])] [''speed''];
       v = PDict [(PStr ''speed'', PInt 1)]
   in check s v = None \<and> coerce s v = Some v \<and> \<not> has_type s v"
  by (simp add: dataclass_check_def has_key_def py_in_def py_num_def json_num_def float_eq_def)

text \<open>
  Where the two disagree: Python's \<open>in\<close> takes \<open>True\<close> for a literal \<open>1\<close>, which the
  schema refuses, and an upload reference passes with its id alone, while the schema
  requires the name, the type and the size too.
\<close>

lemma literal_bool_gap:
  "check (LiteralSpec [PInt 1, PInt 2]) (PBool True) = None
   \<and> coerce (LiteralSpec [PInt 1, PInt 2]) (PBool True) = Some (PBool True)
   \<and> \<not> schema_valid (to_json_schema (LiteralSpec [PInt 1, PInt 2])) (PBool True)"
  by (simp add: py_in_def py_num_def json_num_def float_eq_def enum_schema_def type_ok_def)

lemma upload_reference_gap:
  "check UploadSpec (PDict [(PStr ''upload_id'', PStr ''u-1'')]) = None
   \<and> \<not> schema_valid (to_json_schema UploadSpec) (PDict [(PStr ''upload_id'', PStr ''u-1'')])"
  by (simp add: upload_check_def component_refs_def upload_reference_schema_def has_key_def)

end
