(* ===== verification/Contract.thy ===== *)
theory Contract
  imports TypeSpecs
begin

text \<open>
  Command fields and the model contract: the constraints of a field
  (\<^verbatim>\<open>core/fields.py\<close>), the declaration of a command class (\<^verbatim>\<open>core/model.py\<close>),
  the validation of a client payload into a command
  (\<^verbatim>\<open>interface/model/contract.py\<close>) and the request schema published for it
  (\<^verbatim>\<open>interface/model/schema.py\<close>).
\<close>

section \<open>Fields\<close>

text \<open>\<open>fi_default = None\<close> is \<open>NO_DEFAULT\<close>: the field is required.\<close>

record field_info =
  fi_default :: "pyval option"
  fi_description :: "string option"
  fi_ge :: "pyfloat option"
  fi_le :: "pyfloat option"
  fi_min_length :: "int option"
  fi_max_length :: "int option"
  fi_choices :: "pyval list option"
  fi_moderate :: bool

definition plain_info :: field_info where
  "plain_info = \<lparr>fi_default = None, fi_description = None, fi_ge = None, fi_le = None,
     fi_min_length = None, fi_max_length = None, fi_choices = None, fi_moderate = False\<rparr>"

datatype violation =
    NotInChoices pyval "pyval list"
  | BelowGe pyval pyfloat
  | GeNotComparable pyval pyfloat
  | AboveLe pyval pyfloat
  | LeNotComparable pyval pyfloat
  | TooShort nat int
  | NoLengthMin pyval int
  | TooLong nat int
  | NoLengthMax pyval int

text \<open>One constraint each; a comparison or length that raises is a violation too.\<close>

definition choices_fault :: "pyval \<Rightarrow> pyval list \<Rightarrow> violation option" where
  "choices_fault v cs = (if py_in v cs then None else Some (NotInChoices v cs))"

definition ge_fault :: "pyval \<Rightarrow> pyfloat \<Rightarrow> violation option" where
  "ge_fault v b =
     (case py_num v of
        None \<Rightarrow> Some (GeNotComparable v b)
      | Some n \<Rightarrow> if float_less n b then Some (BelowGe v b) else None)"

definition le_fault :: "pyval \<Rightarrow> pyfloat \<Rightarrow> violation option" where
  "le_fault v b =
     (case py_num v of
        None \<Rightarrow> Some (LeNotComparable v b)
      | Some n \<Rightarrow> if float_less b n then Some (AboveLe v b) else None)"

definition min_fault :: "pyval \<Rightarrow> int \<Rightarrow> violation option" where
  "min_fault v b =
     (case py_len v of
        None \<Rightarrow> Some (NoLengthMin v b)
      | Some n \<Rightarrow> if int n < b then Some (TooShort n b) else None)"

definition max_fault :: "pyval \<Rightarrow> int \<Rightarrow> violation option" where
  "max_fault v b =
     (case py_len v of
        None \<Rightarrow> Some (NoLengthMax v b)
      | Some n \<Rightarrow> if b < int n then Some (TooLong n b) else None)"

fun first_some :: "'a option list \<Rightarrow> 'a option" where
  "first_some [] = None"
| "first_some (Some x # xs) = Some x"
| "first_some (None # xs) = first_some xs"

lemma first_some_None: "first_some xs = None \<longleftrightarrow> (\<forall>x\<in>set xs. x = None)"
  by (induction xs rule: first_some.induct) auto

definition validate_field :: "pyval \<Rightarrow> field_info \<Rightarrow> violation option" where
  "validate_field v info = first_some
     [Option.bind (fi_choices info) (choices_fault v),
      Option.bind (fi_ge info) (ge_fault v),
      Option.bind (fi_le info) (le_fault v),
      Option.bind (fi_min_length info) (min_fault v),
      Option.bind (fi_max_length info) (max_fault v)]"

lemma bind_None_iff: "Option.bind x f = None \<longleftrightarrow> (\<forall>y. x = Some y \<longrightarrow> f y = None)"
  by (cases x) simp_all

lemma validate_field_None:
  "validate_field v info = None \<longleftrightarrow>
     (\<forall>cs. fi_choices info = Some cs \<longrightarrow> choices_fault v cs = None)
   \<and> (\<forall>b. fi_ge info = Some b \<longrightarrow> ge_fault v b = None)
   \<and> (\<forall>b. fi_le info = Some b \<longrightarrow> le_fault v b = None)
   \<and> (\<forall>b. fi_min_length info = Some b \<longrightarrow> min_fault v b = None)
   \<and> (\<forall>b. fi_max_length info = Some b \<longrightarrow> max_fault v b = None)"
  by (simp add: validate_field_def first_some_None bind_None_iff)

subsection \<open>Declaring a command\<close>

record command_field =
  cf_spec :: type_spec
  cf_info :: field_info

type_synonym command_fields = "(string, command_field) dict"

datatype declare_error =
    MutableDefault string
  | ConstraintDefault string violation
  | RawField string
  | Unsupported annotation
  | TypeDefault string reason

definition default_not_static :: "pyval \<Rightarrow> bool" where
  "default_not_static d = (case d of PList vs \<Rightarrow> True | PDict xs \<Rightarrow> True | _ \<Rightarrow> False)"

definition raise_if_default_not_static :: "string \<Rightarrow> pyval \<Rightarrow> declare_error option" where
  "raise_if_default_not_static n d =
     (if d = PNone then None
      else if default_not_static d then Some (MutableDefault n) else None)"

definition raise_if_default_invalid :: "string \<Rightarrow> pyval option \<Rightarrow> field_info \<Rightarrow> declare_error option" where
  "raise_if_default_invalid n d info =
     (case d of
        None \<Rightarrow> None
      | Some v \<Rightarrow>
          if v = PNone then None
          else first_some [raise_if_default_not_static n v,
                           map_option (ConstraintDefault n) (validate_field v info)])"

text \<open>What the class body assigns to an annotated name.\<close>

datatype raw_default = NoRaw | RawInfo field_info | RawDataclassField | RawValue pyval

text \<open>A declaration: the annotation (\<open>None\<close> for a class variable) and the assignment.\<close>

type_synonym field_decl = "string \<times> annotation option \<times> raw_default"

definition raw_info :: "string \<Rightarrow> raw_default \<Rightarrow> declare_error + field_info" where
  "raw_info n raw =
     (case raw of
        NoRaw \<Rightarrow> Inr plain_info
      | RawDataclassField \<Rightarrow> Inl (RawField n)
      | RawInfo info \<Rightarrow>
          (case raise_if_default_invalid n (fi_default info) info of
             Some e \<Rightarrow> Inl e
           | None \<Rightarrow> Inr info)
      | RawValue v \<Rightarrow>
          (case raise_if_default_not_static n v of
             Some e \<Rightarrow> Inl e
           | None \<Rightarrow> Inr (plain_info\<lparr>fi_default := Some v\<rparr>)))"

definition declare_field :: "string \<Rightarrow> annotation \<Rightarrow> raw_default \<Rightarrow> declare_error + command_field" where
  "declare_field n ann raw =
     (if raw = RawDataclassField then Inl (RawField n)
      else case spec_of ann of
        Inl a \<Rightarrow> Inl (Unsupported a)
      | Inr s \<Rightarrow>
          (case raw_info n raw of
             Inl e \<Rightarrow> Inl e
           | Inr info \<Rightarrow>
               (case fi_default info of
                  Some d \<Rightarrow>
                    if d = PNone then Inr \<lparr>cf_spec = s, cf_info = info\<rparr>
                    else (case check s d of
                            Some r \<Rightarrow> Inl (TypeDefault n r)
                          | None \<Rightarrow> Inr \<lparr>cf_spec = s, cf_info = info\<rparr>)
                | None \<Rightarrow> Inr \<lparr>cf_spec = s, cf_info = info\<rparr>)))"

text \<open>
  \<open>_build_command\<close>: the fields start from what the bases recorded; a class variable
  takes an inherited field out, a field declared again keeps its position.
\<close>

fun build_command :: "command_fields \<Rightarrow> field_decl list \<Rightarrow> declare_error + command_fields" where
  "build_command fs [] = Inr fs"
| "build_command fs ((n, ann, raw) # ds) =
     (case ann of
        None \<Rightarrow> build_command (dict_del n fs) ds
      | Some a \<Rightarrow>
          (case declare_field n a raw of
             Inl e \<Rightarrow> Inl e
           | Inr f \<Rightarrow> build_command (dict_set n f fs) ds))"

text \<open>\<open>inherited_record\<close>: bases from the most distant to the closest.\<close>

definition inherited_record :: "command_fields list \<Rightarrow> command_fields" where
  "inherited_record mro_tail =
     foldl (\<lambda>m r. foldl (\<lambda>d kv. dict_set (fst kv) (snd kv) d) m r) [] (rev mro_tail)"

definition is_upload :: "type_spec \<Rightarrow> bool" where
  "is_upload s = ((case s of OptionalSpec i \<Rightarrow> i | _ \<Rightarrow> s) = UploadSpec)"

definition upload_fields :: "command_fields \<Rightarrow> string set" where
  "upload_fields fs = {n. \<exists>f. (n, f) \<in> set fs \<and> is_upload (cf_spec f)}"

text \<open>
  A declared field: its default, unless absent or \<open>None\<close>, is immutable, fits the
  type and satisfies the field's own constraints.
\<close>

definition field_wf :: "command_field \<Rightarrow> bool" where
  "field_wf f \<longleftrightarrow>
     (\<forall>d. fi_default (cf_info f) = Some d \<longrightarrow> d \<noteq> PNone \<longrightarrow>
        \<not> default_not_static d \<and> check (cf_spec f) d = None \<and> validate_field d (cf_info f) = None)"

definition fields_wf :: "command_fields \<Rightarrow> bool" where
  "fields_wf fs \<longleftrightarrow> wf_dict fs \<and> (\<forall>f\<in>snd ` set fs. field_wf f)"

lemma validate_field_default: "validate_field v (plain_info\<lparr>fi_default := d\<rparr>) = None"
  by (simp add: validate_field_def plain_info_def)

lemma declare_field_wf: "declare_field n a raw = Inr f \<Longrightarrow> field_wf f"
  by (auto simp: declare_field_def raw_info_def field_wf_def raise_if_default_invalid_def
      raise_if_default_not_static_def first_some_None validate_field_default plain_info_def [symmetric]
      split: if_splits sum.splits raw_default.splits option.splits)
     (auto simp: plain_info_def)

lemma dict_set_subset: "set (dict_set k v d) \<subseteq> insert (k, v) (set d)"
  by (induction d) auto

lemma fields_wf_set: "fields_wf fs \<Longrightarrow> field_wf f \<Longrightarrow> fields_wf (dict_set n f fs)"
  unfolding fields_wf_def using dict_set_subset [of n f fs] by (auto simp: dict_simps)

lemma fields_wf_del: "fields_wf fs \<Longrightarrow> fields_wf (dict_del n fs)"
  unfolding fields_wf_def using set_dict_del [of n fs] by (auto simp: dict_simps)

lemma build_command_wf:
  "fields_wf fs \<Longrightarrow> build_command fs ds = Inr fs' \<Longrightarrow> fields_wf fs'"
  by (induction fs ds rule: build_command.induct)
     (auto simp: fields_wf_del fields_wf_set declare_field_wf split: option.splits sum.splits)

section \<open>Validating a payload\<close>

datatype contract_reason =
    UnknownCommand
  | UnexpectedArgument
  | BadType reason
  | BadConstraint violation
  | MissingArgument

type_synonym contract_error = "string \<times> contract_reason"

record 'h command_spec =
  cs_name :: string
  cs_fields :: command_fields
  cs_handler :: 'h
  cs_description :: string
  cs_response :: "string option"

text \<open>
  The loop over the declared fields, collecting the keyword arguments. A value that
  passed its check always coerces (\<open>coerce_typed\<close>).
\<close>

fun collect_args ::
  "(string, pyval) dict \<Rightarrow> command_fields \<Rightarrow> (string, pyval) dict \<Rightarrow> contract_error + (string, pyval) dict"
where
  "collect_args args [] kwargs = Inr kwargs"
| "collect_args args ((n, f) # fs) kwargs =
     (case dict_get args n of
        Some v \<Rightarrow>
          (case check (cf_spec f) v of
             Some r \<Rightarrow> Inl (n, BadType r)
           | None \<Rightarrow>
               (case validate_field v (cf_info f) of
                  Some c \<Rightarrow> Inl (n, BadConstraint c)
                | None \<Rightarrow> collect_args args fs (dict_set n (the (coerce (cf_spec f) v)) kwargs)))
      | None \<Rightarrow>
          if fi_default (cf_info f) = None then Inl (n, MissingArgument)
          else collect_args args fs kwargs)"

text \<open>The command's constructor: an omitted field takes its default.\<close>

definition construct :: "command_fields \<Rightarrow> (string, pyval) dict \<Rightarrow> (string, pyval) dict" where
  "construct fs kwargs =
     map (\<lambda>nf. (fst nf, case dict_get kwargs (fst nf) of
                           Some v \<Rightarrow> v
                         | None \<Rightarrow> the (fi_default (cf_info (snd nf))))) fs"

definition validate ::
  "(string, 'h command_spec) dict \<Rightarrow> string \<Rightarrow> (string, pyval) dict
    \<Rightarrow> contract_error + string \<times> (string, pyval) dict"
where
  "validate commands name raw_args =
     (case dict_get commands name of
        None \<Rightarrow> Inl (name, UnknownCommand)
      | Some spec \<Rightarrow>
          (case find (\<lambda>a. a \<notin> set (dict_keys (cs_fields spec))) (dict_keys raw_args) of
             Some a \<Rightarrow> Inl (a, UnexpectedArgument)
           | None \<Rightarrow>
               (case collect_args raw_args (cs_fields spec) [] of
                  Inl e \<Rightarrow> Inl e
                | Inr kwargs \<Rightarrow> Inr (cs_name spec, construct (cs_fields spec) kwargs))))"

text \<open>The reference reading: each field judged on its own, the first failure reported.\<close>

definition field_error :: "(string, pyval) dict \<Rightarrow> string \<times> command_field \<Rightarrow> contract_error option" where
  "field_error args nf =
     (case dict_get args (fst nf) of
        Some v \<Rightarrow>
          first_some [map_option (\<lambda>r. (fst nf, BadType r)) (check (cf_spec (snd nf)) v),
                      map_option (\<lambda>c. (fst nf, BadConstraint c)) (validate_field v (cf_info (snd nf)))]
      | None \<Rightarrow> if fi_default (cf_info (snd nf)) = None then Some (fst nf, MissingArgument) else None)"

definition field_value :: "(string, pyval) dict \<Rightarrow> string \<times> command_field \<Rightarrow> pyval" where
  "field_value args nf =
     (case dict_get args (fst nf) of
        Some v \<Rightarrow> the (coerce (cf_spec (snd nf)) v)
      | None \<Rightarrow> the (fi_default (cf_info (snd nf))))"

definition validate_spec ::
  "command_fields \<Rightarrow> (string, pyval) dict \<Rightarrow> contract_error + (string, pyval) dict"
where
  "validate_spec fs args =
     (case find (\<lambda>a. a \<notin> set (dict_keys fs)) (dict_keys args) of
        Some a \<Rightarrow> Inl (a, UnexpectedArgument)
      | None \<Rightarrow>
          (case first_some (map (field_error args) fs) of
             Some e \<Rightarrow> Inl e
           | None \<Rightarrow> Inr (map (\<lambda>nf. (fst nf, field_value args nf)) fs)))"

text \<open>The keyword arguments the loop leaves: the given fields, coerced, in field order.\<close>

definition given :: "(string, pyval) dict \<Rightarrow> command_fields \<Rightarrow> (string, pyval) dict" where
  "given args fs =
     map (\<lambda>nf. (fst nf, field_value args nf)) (filter (\<lambda>nf. dict_get args (fst nf) \<noteq> None) fs)"

lemma given_Cons:
  "given args (nf # fs) =
     (if dict_get args (fst nf) = None then given args fs
      else (fst nf, field_value args nf) # given args fs)"
  by (simp add: given_def)

lemma collect_args_spec:
  assumes "distinct (map fst fs)" and "set (map fst fs) \<inter> set (dict_keys kwargs) = {}"
  shows "collect_args args fs kwargs =
    (case first_some (map (field_error args) fs) of
       Some e \<Rightarrow> Inl e
     | None \<Rightarrow> Inr (kwargs @ given args fs))"
  using assms
proof (induction fs arbitrary: kwargs)
  case (Cons nf fs)
  obtain n f where [simp]: "nf = (n, f)"
    by (cases nf)
  have new: "n \<notin> fst ` set kwargs"
    using Cons.prems by auto
  show ?case
  proof (cases "dict_get args n")
    case None
    have fe: "field_error args (n, f) =
        (if fi_default (cf_info f) = None then Some (n, MissingArgument) else None)"
      using None by (simp add: field_error_def)
    have "collect_args args fs kwargs =
        (case first_some (map (field_error args) fs) of
           Some e \<Rightarrow> Inl e | None \<Rightarrow> Inr (kwargs @ given args fs))"
      using Cons.prems by (intro Cons.IH) auto
    then show ?thesis
      using None fe by (simp add: given_Cons split: option.split)
  next
    case (Some v)
    have "dict_set n (the (coerce (cf_spec f) v)) kwargs = kwargs @ [(n, field_value args nf)]"
      using new Some by (simp add: dict_set_new field_value_def)
    moreover have "collect_args args fs (kwargs @ [(n, field_value args nf)]) =
        (case first_some (map (field_error args) fs) of
           Some e \<Rightarrow> Inl e
         | None \<Rightarrow> Inr ((kwargs @ [(n, field_value args nf)]) @ given args fs))"
      using Cons.prems by (intro Cons.IH) auto
    moreover have "field_error args (n, f) =
        first_some [map_option (\<lambda>r. (n, BadType r)) (check (cf_spec f) v),
                    map_option (\<lambda>c. (n, BadConstraint c)) (validate_field v (cf_info f))]"
      using Some by (simp add: field_error_def)
    ultimately show ?thesis
      using Some by (cases "check (cf_spec f) v"; cases "validate_field v (cf_info f)")
        (simp_all add: given_Cons split: option.split)
  qed
qed (simp add: given_def)

lemma given_get:
  assumes "distinct (map fst fs)" and "nf \<in> set fs"
  shows "dict_get (given args fs) (fst nf) =
    (if dict_get args (fst nf) = None then None else Some (field_value args nf))"
proof (cases "dict_get args (fst nf) = None")
  case True
  then show ?thesis
    by (force simp: given_def map_of_eq_None_iff)
next
  case False
  have d: "distinct (map fst (given args fs))"
    using assms(1) by (simp add: given_def comp_def distinct_map_filter)
  have "(fst nf, field_value args nf) \<in> set (given args fs)"
    using assms(2) False by (auto simp: given_def)
  with d False show ?thesis
    by (simp add: map_of_eq_Some_iff)
qed

lemma construct_given:
  assumes "distinct (map fst fs)"
  shows "construct fs (given args fs) = map (\<lambda>nf. (fst nf, field_value args nf)) fs"
  unfolding construct_def using given_get [OF assms]
  by (intro map_cong refl) (auto simp: field_value_def split: option.splits)

lemma validate_eq_spec:
  assumes "\<forall>spec\<in>snd ` set commands. wf_dict (cs_fields spec)"
  shows "validate commands name args =
    (case dict_get commands name of
       None \<Rightarrow> Inl (name, UnknownCommand)
     | Some spec \<Rightarrow> map_sum id (Pair (cs_name spec)) (validate_spec (cs_fields spec) args))"
proof (cases "dict_get commands name")
  case (Some spec)
  then have wf: "wf_dict (cs_fields spec)"
    using assms map_of_SomeD by force
  show ?thesis
    using Some collect_args_spec [OF wf, of "[]" args] construct_given [OF wf]
    by (simp add: validate_def validate_spec_def split: option.splits)
qed (simp add: validate_def)

lemma field_error_None:
  "field_error args nf = None \<longleftrightarrow>
     (case dict_get args (fst nf) of
        Some v \<Rightarrow> check (cf_spec (snd nf)) v = None \<and> validate_field v (cf_info (snd nf)) = None
      | None \<Rightarrow> fi_default (cf_info (snd nf)) \<noteq> None)"
  by (auto simp: field_error_def first_some_None split: option.splits)

lemma two_checks_Inr:
  "(\<exists>c. (case x of Some a \<Rightarrow> Inl (f a)
        | None \<Rightarrow> (case y of Some e \<Rightarrow> Inl e | None \<Rightarrow> Inr z)) = Inr c) \<longleftrightarrow> x = None \<and> y = None"
  by (cases x; cases y) simp_all

lemma validate_spec_Inr:
  "(\<exists>cmd. validate_spec fs args = Inr cmd) \<longleftrightarrow>
     set (dict_keys args) \<subseteq> set (dict_keys fs) \<and> (\<forall>nf\<in>set fs. field_error args nf = None)"
proof -
  have "find (\<lambda>a. a \<notin> set (dict_keys fs)) (dict_keys args) = None \<longleftrightarrow>
      set (dict_keys args) \<subseteq> set (dict_keys fs)"
    by (auto simp: find_None_iff)
  moreover have "first_some (map (field_error args) fs) = None \<longleftrightarrow> (\<forall>nf\<in>set fs. field_error args nf = None)"
    by (simp add: first_some_None)
  ultimately show ?thesis
    unfolding validate_spec_def two_checks_Inr by (rule conj_cong)
qed

text \<open>
  C12. The validation loop computes the reference reading. An unknown command is
  refused first, then the first argument (in the order sent) that no field declares,
  then the first field (in declaration order) that is missing, has the wrong type or
  violates a constraint, with that field's own reason; otherwise the command holds,
  for every declared field, the coerced argument or the declared default.
\<close>

theorem validate_refines_spec:
  assumes "\<forall>spec\<in>snd ` set commands. wf_dict (cs_fields spec)"
  shows "validate commands name args =
    (case dict_get commands name of
       None \<Rightarrow> Inl (name, UnknownCommand)
     | Some spec \<Rightarrow> map_sum id (Pair (cs_name spec)) (validate_spec (cs_fields spec) args))"
  by (rule validate_eq_spec [OF assms])

text \<open>A command with a required and an optional field, for concrete payloads.\<close>

definition generate_fields :: command_fields where
  "generate_fields =
     [(''prompt'', \<lparr>cf_spec = PrimitiveSpec TStr, cf_info = plain_info\<lparr>fi_min_length := Some 1\<rparr>\<rparr>),
      (''seed'', \<lparr>cf_spec = PrimitiveSpec TInt,
        cf_info = plain_info\<lparr>fi_default := Some (PInt 0), fi_ge := Some (Finite 0)\<rparr>\<rparr>)]"

definition generate_commands :: "(string, unit command_spec) dict" where
  "generate_commands = [(''generate'',
     \<lparr>cs_name = ''generate'', cs_fields = generate_fields, cs_handler = (),
      cs_description = [], cs_response = None\<rparr>)]"

lemma generate_wf: "\<forall>spec\<in>snd ` set generate_commands. wf_dict (cs_fields spec)"
  by (simp add: generate_commands_def generate_fields_def)

lemmas generate_simps =
  generate_commands_def generate_fields_def validate_spec_def field_error_def field_value_def
  plain_info_def prim_check_def validate_field_def ge_fault_def min_fault_def py_num_def json_num_def
  is_integer_def prim_coerce_def

theorem validate_refines_spec_witness:
  "validate generate_commands ''generate'' [(''seed'', PFloat (Finite 3)), (''prompt'', PStr ''cat'')]
     = Inr (''generate'', [(''prompt'', PStr ''cat''), (''seed'', PInt 3)])
   \<and> validate generate_commands ''generate'' [(''seed'', PInt 3)] = Inl (''prompt'', MissingArgument)"
  unfolding validate_refines_spec [OF generate_wf] by (simp add: generate_simps)

text \<open>
  Declaring a command leaves only usable defaults: in every class built from well
  formed bases the field names are distinct, and a default other than \<open>None\<close> is
  immutable, fits the field's type and satisfies the field's own constraints.
\<close>

theorem build_command_wf_fields:
  assumes "fields_wf inherited" and "build_command inherited decls = Inr fs"
  shows "fields_wf fs"
  by (rule build_command_wf [OF assms])

definition seed_decl :: "field_decl list" where
  "seed_decl = [(''seed'', Some (AnnPrim TInt),
     RawInfo (plain_info\<lparr>fi_default := Some (PInt 0), fi_ge := Some (Finite 0)\<rparr>))]"

theorem build_command_wf_fields_witness:
  "fields_wf [] \<and> (\<exists>fs. build_command [] seed_decl = Inr fs \<and> fields_wf fs)"
proof -
  have wf: "fields_wf []"
    by (simp add: fields_wf_def)
  have "\<exists>fs. build_command [] seed_decl = Inr fs"
    by (simp add: seed_decl_def declare_field_def raw_info_def plain_info_def raise_if_default_invalid_def
        raise_if_default_not_static_def default_not_static_def validate_field_def ge_fault_def
        py_num_def json_num_def prim_check_def)
  then show ?thesis
    using wf build_command_wf_fields [OF wf] by blast
qed

end
