(* ===== verification/ContractSchema.thy ===== *)
theory ContractSchema
  imports Contract
begin

text \<open>
  The published request schema of a command (\<^verbatim>\<open>interface/model/schema.py\<close>) and its
  agreement with the validation of \<open>Contract\<close>: what the contract accepts conforms to
  the body schema, and for commands whose constraints match their field types the two
  accept exactly the same payloads.
\<close>

section \<open>Rendering\<close>

text \<open>\<open>_coerce_default\<close>: enumeration members become their values, tuples arrays.\<close>

primrec coerce_default :: "pyval \<Rightarrow> pyval" where
  "coerce_default PNone = PNone"
| "coerce_default (PBool b) = PBool b"
| "coerce_default (PInt i) = PInt i"
| "coerce_default (PFloat x) = PFloat x"
| "coerce_default (PStr s) = PStr s"
| "coerce_default (PList vs) = PList (map coerce_default vs)"
| "coerce_default (PTuple vs) = PList (map coerce_default vs)"
| "coerce_default (PDict d) = PDict (map (map_prod id coerce_default) d)"
| "coerce_default (PEnum c n x) = x"
| "coerce_default (PUpload n m b) = PUpload n m b"
| "coerce_default (PObj c fs) = PObj c fs"

definition opt_kw :: "('a \<Rightarrow> keyword) \<Rightarrow> 'a option \<Rightarrow> schema \<Rightarrow> schema" where
  "opt_kw k x s = (case x of None \<Rightarrow> s | Some v \<Rightarrow> set_kw (k v) s)"

text \<open>An empty description is falsy and writes no keyword.\<close>

definition merge_constraints :: "schema \<Rightarrow> field_info \<Rightarrow> schema" where
  "merge_constraints s info =
     (let s = (case fi_description info of
                 Some d \<Rightarrow> if d \<noteq> [] then set_kw (KDescription d) s else s
               | None \<Rightarrow> s);
          s = opt_kw KMinimum (fi_ge info) s;
          s = opt_kw KMaximum (fi_le info) s;
          s = opt_kw KMinLength (fi_min_length info) s;
          s = opt_kw KMaxLength (fi_max_length info) s;
          s = opt_kw KEnum (fi_choices info) s
      in set_kw (KModerate (fi_moderate info)) s)"

definition command_field_schema :: "command_field \<Rightarrow> schema" where
  "command_field_schema f =
     merge_constraints
       (opt_kw KDefault (map_option coerce_default (fi_default (cf_info f))) (to_json_schema (cf_spec f)))
       (cf_info f)"

definition has_kw :: "string \<Rightarrow> schema \<Rightarrow> bool" where
  "has_kw key s = list_ex (\<lambda>k. key_of k = key) s"

definition body :: "(string, schema) dict \<Rightarrow> schema" where
  "body ps =
     (let required = map fst (filter (\<lambda>p. \<not> has_kw ''default'' (snd p)) ps) in
      [KType ''object'', KProperties ps] @ (if required \<noteq> [] then [KRequired required] else []))"

definition ref :: "string \<Rightarrow> schema" where
  "ref c = [KRef (''#/components/schemas/'' @ c)]"

text \<open>A response: the status, its description and the schema of its body, if any.\<close>

definition command_responses :: "string option \<Rightarrow> (string \<times> string \<times> schema option) list" where
  "command_responses r =
     (case r of
        None \<Rightarrow> [(''202'', ''Command accepted'', None)]
      | Some m \<Rightarrow> [(''200'', m, Some (ref m))])"

record operation =
  op_id :: string
  op_summary :: string
  op_body :: schema
  op_responses :: "(string \<times> string \<times> schema option) list"

record message_schema =
  ms_description :: string
  ms_schema :: "(string, schema) dict"
  ms_type_name :: string

record openapi =
  oa_title :: string
  oa_version :: string
  oa_paths :: "(string, operation) dict"
  oa_webhooks :: "(string, operation) dict"
  oa_schemas :: "(string, schema) dict"

text \<open>The per-field part of \<open>render_schema\<close>, and the command operations of \<open>to_openapi\<close>.\<close>

definition command_schema :: "command_fields \<Rightarrow> (string, schema) dict" where
  "command_schema fs = map (map_prod id command_field_schema) fs"

definition command_operation :: "string \<Rightarrow> 'h command_spec \<Rightarrow> operation" where
  "command_operation name spec =
     \<lparr>op_id = name,
      op_summary = (if cs_description spec \<noteq> [] then cs_description spec else ''Trigger '' @ name),
      op_body = body (command_schema (cs_fields spec)),
      op_responses = command_responses (cs_response spec)\<rparr>"

definition webhook :: "string \<Rightarrow> message_schema \<Rightarrow> operation" where
  "webhook name m =
     \<lparr>op_id = name, op_summary = ms_description m, op_body = ref (ms_type_name m), op_responses = []\<rparr>"

definition to_openapi ::
  "string \<Rightarrow> string \<Rightarrow> (string, 'h command_spec) dict \<Rightarrow> (string, message_schema) dict \<Rightarrow> openapi"
where
  "to_openapi title version commands messages =
     \<lparr>oa_title = title, oa_version = version,
      oa_paths = dict_of (map (\<lambda>c. (''/events/'' @ fst c, command_operation (fst c) (snd c))) commands),
      oa_webhooks = dict_of (map (\<lambda>m. (fst m, webhook (fst m) (snd m))) messages),
      oa_schemas = dict_of ((''ReactorUploadReference'', upload_reference_schema)
        # map (\<lambda>m. (ms_type_name (snd m), body (ms_schema (snd m)))) messages)\<rparr>"

section \<open>Keywords of a rendered field\<close>

definition others :: "string \<Rightarrow> schema \<Rightarrow> schema" where
  "others key s = filter (\<lambda>k. key_of k \<noteq> key) s"

definition wf_schema :: "schema \<Rightarrow> bool" where
  "wf_schema s = distinct (map key_of s)"

lemma wf_schema_simps [simp]:
  "wf_schema []"
  "wf_schema (k # s) \<longleftrightarrow> key_of k \<notin> key_of ` set s \<and> wf_schema s"
  by (simp_all add: wf_schema_def)

lemma keys_set_kw: "set (map key_of (set_kw k s)) = insert (key_of k) (set (map key_of s))"
  by (induction s) auto

lemma wf_set_kw [simp]: "wf_schema s \<Longrightarrow> wf_schema (set_kw k s)"
proof (induction s)
  case (Cons k' s)
  then show ?case
    using keys_set_kw [of k s] by auto
qed simp

lemma others_id: "key \<notin> set (map key_of s) \<Longrightarrow> others key s = s"
  unfolding others_def by (rule filter_True) auto

lemma valid_set_kw:
  "wf_schema s \<Longrightarrow> valid_in refs (set_kw k s) v \<longleftrightarrow> kw_ok refs k v \<and> valid_in refs (others (key_of k) s) v"
proof (induction s)
  case Nil
  then show ?case by (simp add: others_def)
next
  case (Cons k' s)
  show ?case
  proof (cases "key_of k' = key_of k")
    case True
    then have "others (key_of k) s = s"
      using Cons.prems by (intro others_id) auto
    with True show ?thesis
      by (simp add: others_def)
  next
    case False
    with Cons show ?thesis
      by (auto simp: others_def)
  qed
qed

lemma valid_set_new:
  "wf_schema s \<Longrightarrow> key_of k \<notin> set (map key_of s) \<Longrightarrow>
     valid_in refs (set_kw k s) v \<longleftrightarrow> kw_ok refs k v \<and> valid_in refs s v"
  by (simp add: valid_set_kw others_id del: set_map)

lemma keys_enum_schema:
  "map key_of (enum_schema vs) = [''type'', ''enum''] \<or> map key_of (enum_schema vs) = [''enum'']"
  unfolding enum_schema_def Let_def by (simp del: set_map split: if_split)

definition type_keys :: "string list" where
  "type_keys = [''type'', ''enum'', ''items'', ''additionalProperties'', ''properties'', ''required'',
     ''anyOf'', ''$ref'']"

lemma wf_enum_schema: "wf_schema (enum_schema vs)"
  unfolding wf_schema_def using keys_enum_schema [of vs] by (elim disjE) simp_all

lemma wf_of_type [simp]: "wf_schema (to_json_schema s)"
  by (cases s) (auto simp: wf_enum_schema)

lemma keys_of_type: "set (map key_of (to_json_schema s)) \<subseteq> set type_keys"
proof (cases s)
  case (LiteralSpec vs)
  then show ?thesis
    using keys_enum_schema [of vs] by (auto simp: type_keys_def simp del: set_map)
next
  case (EnumSpec c ms)
  then show ?thesis
    using keys_enum_schema [of "map snd ms"] by (auto simp: type_keys_def simp del: set_map)
qed (auto simp: type_keys_def)

lemma type_key_fresh:
  assumes "k \<in> set (to_json_schema s)"
  shows "key_of k \<notin> {''default'', ''description'', ''minimum'', ''maximum'', ''minLength'', ''maxLength'',
    ''x-reactor-moderate''}"
proof -
  have "key_of k \<in> set type_keys"
    using keys_of_type [of s] assms by auto
  then show ?thesis
    by (auto simp: type_keys_def)
qed

lemma in_set_kw:
  "wf_schema s \<Longrightarrow> k' \<in> set (set_kw k s) \<longleftrightarrow> k' = k \<or> k' \<in> set s \<and> key_of k' \<noteq> key_of k"
  by (induction s) (auto simp: rev_image_eqI)

lemma wf_opt_kw [simp]: "wf_schema s \<Longrightarrow> wf_schema (opt_kw k x s)"
  by (simp add: opt_kw_def split: option.splits)

lemma in_opt_kw:
  assumes "wf_schema s" and "\<And>y. key_of (k y) = key"
  shows "k' \<in> set (opt_kw k x s) \<longleftrightarrow>
    (\<exists>y. x = Some y \<and> k' = k y) \<or> k' \<in> set s \<and> (x \<noteq> None \<longrightarrow> key_of k' \<noteq> key)"
  using assms by (cases x) (auto simp: opt_kw_def in_set_kw)

lemmas in_field_kw =
  in_opt_kw [of _ KDefault "''default''", simplified]
  in_opt_kw [of _ KMinimum "''minimum''", simplified]
  in_opt_kw [of _ KMaximum "''maximum''", simplified]
  in_opt_kw [of _ KMinLength "''minLength''", simplified]
  in_opt_kw [of _ KMaxLength "''maxLength''", simplified]
  in_opt_kw [of _ KEnum "''enum''", simplified]
  in_opt_kw [of _ KDescription "''description''", simplified]

definition described :: "field_info \<Rightarrow> string option" where
  "described info = Option.bind (fi_description info) (\<lambda>d. if d \<noteq> [] then Some d else None)"

lemma description_opt:
  "(case fi_description info of
      Some d \<Rightarrow> if d \<noteq> [] then set_kw (KDescription d) s else s
    | None \<Rightarrow> s) = opt_kw KDescription (described info) s"
  by (simp add: described_def opt_kw_def split: option.split)

lemma merge_constraints_opt:
  "merge_constraints s info =
     set_kw (KModerate (fi_moderate info))
       (opt_kw KEnum (fi_choices info) (opt_kw KMaxLength (fi_max_length info)
         (opt_kw KMinLength (fi_min_length info) (opt_kw KMaximum (fi_le info)
           (opt_kw KMinimum (fi_ge info) (opt_kw KDescription (described info) s))))))"
  by (simp add: merge_constraints_def description_opt Let_def)

text \<open>The schema of a type with its own \<open>enum\<close> replaced by the field's choices, if any.\<close>

definition narrowed :: "command_field \<Rightarrow> schema" where
  "narrowed f =
     (if fi_choices (cf_info f) = None then to_json_schema (cf_spec f)
      else others ''enum'' (to_json_schema (cf_spec f)))"

lemma in_field_schema:
  "k \<in> set (command_field_schema f) \<longleftrightarrow>
     k = KModerate (fi_moderate (cf_info f))
   \<or> (\<exists>c. fi_choices (cf_info f) = Some c \<and> k = KEnum c)
   \<or> (\<exists>b. fi_max_length (cf_info f) = Some b \<and> k = KMaxLength b)
   \<or> (\<exists>b. fi_min_length (cf_info f) = Some b \<and> k = KMinLength b)
   \<or> (\<exists>b. fi_le (cf_info f) = Some b \<and> k = KMaximum b)
   \<or> (\<exists>b. fi_ge (cf_info f) = Some b \<and> k = KMinimum b)
   \<or> (\<exists>d. described (cf_info f) = Some d \<and> k = KDescription d)
   \<or> (\<exists>d. fi_default (cf_info f) = Some d \<and> k = KDefault (coerce_default d))
   \<or> k \<in> set (narrowed f)"
proof -
  let ?t = "to_json_schema (cf_spec f)"
  have fresh: "k \<in> set ?t \<Longrightarrow> key_of k \<notin> {''default'', ''description'', ''minimum'', ''maximum'', ''minLength'',
      ''maxLength'', ''x-reactor-moderate''}"
    by (rule type_key_fresh)
  show ?thesis
    unfolding command_field_schema_def merge_constraints_opt narrowed_def others_def
    apply (simp add: in_set_kw in_field_kw)
    using fresh apply (cases "fi_choices (cf_info f)")
     apply auto
    done
qed

lemma has_default_kw: "has_kw ''default'' (command_field_schema f) \<longleftrightarrow> fi_default (cf_info f) \<noteq> None"
proof -
  have "key_of k \<noteq> ''default''" if "k \<in> set (narrowed f)" for k
    using that type_key_fresh by (auto simp: narrowed_def others_def split: if_splits)
  then show ?thesis
    unfolding has_kw_def list_ex_iff Bex_def in_field_schema by auto
qed

lemma valid_in_iff: "valid_in refs s v \<longleftrightarrow> (\<forall>k\<in>set s. kw_ok refs k v)"
  by (simp add: valid_in_def list_all_iff)

lemma valid_field_schema:
  "valid_in refs (command_field_schema f) v \<longleftrightarrow>
     valid_in refs (narrowed f) v
   \<and> (\<forall>cs. fi_choices (cf_info f) = Some cs \<longrightarrow> list_ex (\<lambda>m. json_eq m v) cs)
   \<and> (\<forall>b. fi_ge (cf_info f) = Some b \<longrightarrow> kw_ok refs (KMinimum b) v)
   \<and> (\<forall>b. fi_le (cf_info f) = Some b \<longrightarrow> kw_ok refs (KMaximum b) v)
   \<and> (\<forall>b. fi_min_length (cf_info f) = Some b \<longrightarrow> kw_ok refs (KMinLength b) v)
   \<and> (\<forall>b. fi_max_length (cf_info f) = Some b \<longrightarrow> kw_ok refs (KMaxLength b) v)"
  unfolding valid_in_iff Ball_def in_field_schema by (auto simp del: kw_ok.simps(12-15))

section \<open>What validation accepts and what the schema admits\<close>

definition plain_field :: "command_field \<Rightarrow> bool" where
  "plain_field f \<longleftrightarrow> plain_spec (cf_spec f) \<and> spec_wf (cf_spec f)
     \<and> (\<forall>cs. fi_choices (cf_info f) = Some cs \<longrightarrow> list_all unambiguous cs)"

text \<open>Bounds on numbers, lengths on strings, choices on primitive types.\<close>

definition aligned :: "command_field \<Rightarrow> bool" where
  "aligned f \<longleftrightarrow>
     (fi_ge (cf_info f) \<noteq> None \<or> fi_le (cf_info f) \<noteq> None \<longrightarrow>
        cf_spec f = PrimitiveSpec TInt \<or> cf_spec f = PrimitiveSpec TFloat)
   \<and> (fi_min_length (cf_info f) \<noteq> None \<or> fi_max_length (cf_info f) \<noteq> None \<longrightarrow>
        cf_spec f = PrimitiveSpec TStr)
   \<and> (fi_choices (cf_info f) \<noteq> None \<longrightarrow> (\<exists>t. cf_spec f = PrimitiveSpec t))"

lemma valid_others: "valid_in refs s v \<Longrightarrow> valid_in refs (others key s) v"
  by (simp add: valid_in_iff others_def)

lemma py_in_json:
  "list_all unambiguous cs \<Longrightarrow> is_wire v \<Longrightarrow> py_in v cs \<longleftrightarrow> list_ex (\<lambda>m. json_eq m v) cs"
  by (auto simp: py_in_def list_ex_iff list_all_iff json_eq_scalar)

lemma ge_fault_kw: "ge_fault v b = None \<Longrightarrow> kw_ok refs (KMinimum b) v"
  by (auto simp: ge_fault_def dest: json_num_py_num split: option.splits if_splits)

lemma le_fault_kw: "le_fault v b = None \<Longrightarrow> kw_ok refs (KMaximum b) v"
  by (auto simp: le_fault_def dest: json_num_py_num split: option.splits if_splits)

lemma min_fault_kw: "min_fault v b = None \<Longrightarrow> kw_ok refs (KMinLength b) v"
  by (cases v) (auto simp: min_fault_def split: if_splits)

lemma max_fault_kw: "max_fault v b = None \<Longrightarrow> kw_ok refs (KMaxLength b) v"
  by (cases v) (auto simp: max_fault_def split: if_splits)

lemma accepted_field_valid:
  assumes "plain_field f" "is_wire v" "check (cf_spec f) v = None" "validate_field v (cf_info f) = None"
  shows "schema_valid (command_field_schema f) v"
proof -
  have "schema_valid (narrowed f) v"
    using assms check_schema_valid valid_others by (auto simp: plain_field_def narrowed_def)
  moreover have "list_ex (\<lambda>m. json_eq m v) cs" if "fi_choices (cf_info f) = Some cs" for cs
    using assms that py_in_json [of cs v]
    by (auto simp: plain_field_def validate_field_None choices_fault_def split: if_splits)
  ultimately show ?thesis
    using assms(4)
    by (simp add: valid_field_schema validate_field_None ge_fault_kw le_fault_kw min_fault_kw max_fault_kw
        del: kw_ok.simps(12-15))
qed

lemma aligned_bounds:
  assumes "prim_check t v = None"
  shows "t = TInt \<or> t = TFloat \<Longrightarrow> kw_ok refs (KMinimum b) v \<Longrightarrow> ge_fault v b = None"
    and "t = TInt \<or> t = TFloat \<Longrightarrow> kw_ok refs (KMaximum b) v \<Longrightarrow> le_fault v b = None"
    and "t = TStr \<Longrightarrow> kw_ok refs (KMinLength n) v \<Longrightarrow> min_fault v n = None"
    and "t = TStr \<Longrightarrow> kw_ok refs (KMaxLength n) v \<Longrightarrow> max_fault v n = None"
  using assms
  by (cases v; auto simp: prim_check_def ge_fault_def le_fault_def min_fault_def max_fault_def py_num_def
      json_num_def split: if_splits)+

lemma valid_field_accepted:
  assumes "aligned f" "spec_wf (cf_spec f)" "is_wire v" "schema_valid (command_field_schema f) v"
  shows "check (cf_spec f) v = None \<and> validate_field v (cf_info f) = None"
proof -
  have narrow: "narrowed f = to_json_schema (cf_spec f)"
    using assms(1) by (auto simp: narrowed_def aligned_def others_def)
  then have chk: "check (cf_spec f) v = None"
    using assms schema_valid_checks by (simp add: valid_field_schema)
  have "choices_fault v cs = None" if "fi_choices (cf_info f) = Some cs" for cs
    using assms(4) that json_eq_py_eq
    by (fastforce simp: valid_field_schema choices_fault_def py_in_def list_ex_iff)
  then show ?thesis
    using chk assms(1,4)
    by (auto simp: valid_field_schema validate_field_None aligned_def aligned_bounds
        simp del: kw_ok.simps(12-15))
qed

text \<open>The arguments of a request as the JSON object it carries.\<close>

definition payload :: "(string, pyval) dict \<Rightarrow> pyval" where
  "payload args = PDict (map (\<lambda>nv. (PStr (fst nv), snd nv)) args)"

lemma payload_keys: "has_key (map (\<lambda>nv. (PStr (fst nv), snd nv)) args) n \<longleftrightarrow> dict_get args n \<noteq> None"
  by (force simp: has_key_def map_of_eq_None_iff)

lemma body_valid:
  "schema_valid (body (command_schema fs)) (payload args) \<longleftrightarrow>
     (\<forall>nv\<in>set args. \<forall>nf\<in>set fs. fst nv = fst nf \<longrightarrow> schema_valid (command_field_schema (snd nf)) (snd nv))
   \<and> (\<forall>nf\<in>set fs. fi_default (cf_info (snd nf)) = None \<longrightarrow> dict_get args (fst nf) \<noteq> None)"
proof -
  have "filter (\<lambda>p. \<not> has_kw ''default'' (snd p)) (command_schema fs) =
      map (map_prod id command_field_schema) (filter (\<lambda>nf. fi_default (cf_info (snd nf)) = None) fs)"
    by (simp add: command_schema_def filter_map comp_def has_default_kw)
  then show ?thesis
    by (auto simp: body_def payload_def type_ok_shape payload_keys command_schema_def Let_def list_all_iff
        filter_empty_conv) blast
qed

lemma wire_get: "wf_dict args \<Longrightarrow> nv \<in> set args \<Longrightarrow> dict_get args (fst nv) = Some (snd nv)"
  by (cases nv) (simp add: map_of_is_SomeI)

text \<open>
  C13. What validation accepts is what the published request schema admits, less undeclared
  names. Take a command of a contract whose field names are distinct, whose types hold no upload
  and only unambiguous literals and choices, and whose constraints are put on the types they are
  meant for (bounds on numbers, lengths on strings): for every JSON payload the contract builds a
  command exactly when the payload names only declared fields and is valid against the body
  schema the OpenAPI document publishes for the command. The schema itself does not refuse an
  undeclared name; the runtime does.
\<close>

theorem validate_iff_body_schema:
  fixes commands :: "(string, 'h command_spec) dict"
  assumes get: "dict_get commands name = Some spec"
    and wf: "\<forall>spec\<in>snd ` set commands. wf_dict (cs_fields spec)"
    and plain: "\<forall>nf\<in>set (cs_fields spec). plain_field (snd nf) \<and> aligned (snd nf)"
    and args: "wf_dict args" "\<forall>nv\<in>set args. is_wire (snd nv)"
  shows "(\<exists>cmd. validate commands name args = Inr cmd) \<longleftrightarrow>
    set (dict_keys args) \<subseteq> set (dict_keys (cs_fields spec)) \<and> schema_valid (op_body (command_operation name spec)) (payload args)"
proof -
  let ?fs = "cs_fields spec"
  have dist: "wf_dict ?fs"
    using wf get map_of_SomeD by force
  have "(\<exists>cmd. validate commands name args = Inr cmd) \<longleftrightarrow> (\<exists>cmd. validate_spec ?fs args = Inr cmd)"
    unfolding validate_eq_spec [OF wf] using get by auto
  also have "\<dots> \<longleftrightarrow> set (dict_keys args) \<subseteq> set (dict_keys ?fs) \<and> (\<forall>nf\<in>set ?fs. field_error args nf = None)"
    by (auto simp: validate_spec_Inr)
  also have "(\<forall>nf\<in>set ?fs. field_error args nf = None) \<longleftrightarrow>
      (\<forall>nf\<in>set ?fs. \<forall>v. dict_get args (fst nf) = Some v \<longrightarrow>
          check (cf_spec (snd nf)) v = None \<and> validate_field v (cf_info (snd nf)) = None)
    \<and> (\<forall>nf\<in>set ?fs. fi_default (cf_info (snd nf)) = None \<longrightarrow> dict_get args (fst nf) \<noteq> None)"
    unfolding field_error_None by (auto split: option.splits)
  also have "\<dots> \<longleftrightarrow> schema_valid (body (command_schema ?fs)) (payload args)"
    unfolding body_valid
  proof (intro conj_cong refl iffI ballI allI impI)
    fix nv nf
    assume ok: "\<forall>nf\<in>set ?fs. \<forall>v. dict_get args (fst nf) = Some v \<longrightarrow>
        check (cf_spec (snd nf)) v = None \<and> validate_field v (cf_info (snd nf)) = None"
      and in_args: "nv \<in> set args" and in_fs: "nf \<in> set ?fs" and same: "fst nv = fst nf"
    then have "dict_get args (fst nf) = Some (snd nv)"
      using wire_get [OF args(1) in_args] by simp
    then show "schema_valid (command_field_schema (snd nf)) (snd nv)"
      using ok in_fs in_args plain args(2) accepted_field_valid by blast
  next
    fix nf v
    assume valid: "\<forall>nv\<in>set args. \<forall>nf\<in>set ?fs. fst nv = fst nf \<longrightarrow>
        schema_valid (command_field_schema (snd nf)) (snd nv)"
      and in_fs: "nf \<in> set ?fs" and arg: "dict_get args (fst nf) = Some v"
    then have "(fst nf, v) \<in> set args"
      by (simp add: map_of_SomeD)
    then show "check (cf_spec (snd nf)) v = None \<and> validate_field v (cf_info (snd nf)) = None"
      using valid in_fs plain args(2) valid_field_accepted
      by (metis fst_conv plain_field_def snd_conv)
  qed
  finally show ?thesis
    by (simp add: command_operation_def)
qed

theorem validate_iff_body_schema_witness:
  "schema_valid (op_body (command_operation ''generate'' (snd (hd generate_commands))))
     (payload [(''prompt'', PStr ''cat'')])
   \<and> \<not> schema_valid (op_body (command_operation ''generate'' (snd (hd generate_commands))))
     (payload [(''prompt'', PStr [])])"
proof -
  let ?spec = "snd (hd generate_commands)"
  have get: "dict_get generate_commands ''generate'' = Some ?spec"
    and fs: "\<forall>nf\<in>set (cs_fields ?spec). plain_field (snd nf) \<and> aligned (snd nf)"
    and keys: "set (dict_keys [(''prompt'', v)]) \<subseteq> set (dict_keys (cs_fields ?spec))" for v :: pyval
    by (simp_all add: generate_commands_def generate_fields_def plain_field_def aligned_def plain_info_def)
  have iff: "(\<exists>cmd. validate generate_commands ''generate'' [(''prompt'', PStr s)] = Inr cmd) \<longleftrightarrow>
      schema_valid (op_body (command_operation ''generate'' ?spec)) (payload [(''prompt'', PStr s)])" for s
    using validate_iff_body_schema [OF get generate_wf fs, of "[(''prompt'', PStr s)]"] keys by simp
  have "\<exists>cmd. validate generate_commands ''generate'' [(''prompt'', PStr ''cat'')] = Inr cmd"
    and "\<not> (\<exists>cmd. validate generate_commands ''generate'' [(''prompt'', PStr [])] = Inr cmd)"
    unfolding validate_eq_spec [OF generate_wf] by (simp_all add: generate_simps)
  then show ?thesis
    unfolding iff by blast
qed

text \<open>
  Two constraints the schema states in a way JSON Schema does not apply: a length on a
  list field is published as a string length, so the empty list is valid and refused;
  and a bound on an optional field refuses an explicit null the schema admits.
\<close>

definition tags_field :: command_field where
  "tags_field = \<lparr>cf_spec = ListSpec (PrimitiveSpec TStr), cf_info = plain_info\<lparr>fi_min_length := Some 1\<rparr>\<rparr>"

definition level_field :: command_field where
  "level_field = \<lparr>cf_spec = OptionalSpec (PrimitiveSpec TInt),
     cf_info = plain_info\<lparr>fi_default := Some PNone, fi_ge := Some (Finite 0)\<rparr>\<rparr>"

lemma list_length_gap:
  "validate_field (PList []) (cf_info tags_field) = Some (TooShort 0 1)
   \<and> schema_valid (command_field_schema tags_field) (PList [])"
  by (simp add: tags_field_def validate_field_def min_fault_def plain_info_def valid_field_schema
      narrowed_def type_ok_shape)

lemma optional_null_gap:
  "check (cf_spec level_field) PNone = None
   \<and> validate_field PNone (cf_info level_field) = Some (GeNotComparable PNone (Finite 0))
   \<and> schema_valid (command_field_schema level_field) PNone"
  by (simp add: level_field_def validate_field_def ge_fault_def plain_info_def valid_field_schema
      narrowed_def type_ok_shape py_num_def json_num_def)

end
