(* ===== verification/ContractBuild.thy ===== *)
theory ContractBuild
  imports Contract
begin

text \<open>
  How a model class becomes a contract (\<open>ModelContract.build\<close> of
  \<^verbatim>\<open>interface/model/contract.py\<close>): one walk over the classes of the method
  resolution order, most derived first, binding each command and each lifecycle hook
  to a method. The two theorems at the end say which method that is.
\<close>

section \<open>Classes and their attributes\<close>

text \<open>The return annotation of a handler, as far as \<open>_response_type\<close> tells them apart.\<close>

datatype return_annotation = NoReturn | ReturnsNone | ReturnsMessage string | Unresolvable | ReturnsOther

datatype hook = SessionStartedHook | SessionEndedHook | ConnectedHook | DisconnectedHook | FileUploadedHook

definition lifecycle_attrs :: "hook list" where
  "lifecycle_attrs = [SessionStartedHook, SessionEndedHook, ConnectedHook, DisconnectedHook, FileUploadedHook]"

text \<open>What \<open>@event\<close> stamps on a method.\<close>

record event_handler =
  eh_name :: string
  eh_description :: string
  eh_fields :: command_fields
  eh_is_async :: bool
  eh_reserved :: "string list"

text \<open>
  One entry of a class's \<open>vars\<close>: the identity of the object, its event metadata, the
  state field it was generated for, its lifecycle marks, and what the checks read of
  it as a callable (its parameters and its return annotation).
\<close>

record attribute =
  at_id :: nat
  at_event :: "event_handler option"
  at_generated :: "string option"
  at_marks :: "hook list"
  at_callable :: bool
  at_params :: "string list"
  at_return :: return_annotation

record klass =
  k_name :: string
  k_vars :: "(string, attribute) dict"

datatype build_error =
    DuplicateCommand string
  | BadReturn string
  | UnresolvedReturn string
  | MarkedTwice string hook
  | HookNotMethod string hook
  | HookIsEvent string hook
  | BadUploadHook "string list"
  | SecondHook string string hook

section \<open>The walk\<close>

text \<open>A loop whose body may raise.\<close>

fun each :: "('s \<Rightarrow> 'a \<Rightarrow> 'e + 's) \<Rightarrow> 's \<Rightarrow> 'a list \<Rightarrow> 'e + 's" where
  "each f s [] = Inr s"
| "each f s (x # xs) = (case f s x of Inl e \<Rightarrow> Inl e | Inr s' \<Rightarrow> each f s' xs)"

lemma each_history:
  assumes "\<And>h s x s'. P h s \<Longrightarrow> f s x = Inr s' \<Longrightarrow> x \<in> set xs \<Longrightarrow> P (h @ [x]) s'"
    and "P h s" and "each f s xs = Inr s'"
  shows "P (h @ xs) s'"
  using assms
proof (induction xs arbitrary: h s)
  case (Cons x xs)
  then obtain s1 where s1: "f s x = Inr s1" "each f s1 xs = Inr s'"
    by (auto split: sum.splits)
  have "P (h @ [x]) s1"
    using Cons.prems(1,2) s1(1) by simp
  then have "P ((h @ [x]) @ xs) s'"
    using Cons.prems(1) s1(2) by (intro Cons.IH) auto
  then show ?case
    by simp
qed simp

definition response_type :: "string \<Rightarrow> attribute \<Rightarrow> build_error + string option" where
  "response_type name a =
     (case at_return a of
        NoReturn \<Rightarrow> Inr None
      | ReturnsNone \<Rightarrow> Inr None
      | ReturnsMessage m \<Rightarrow> Inr (Some m)
      | Unresolvable \<Rightarrow> Inl (UnresolvedReturn name)
      | ReturnsOther \<Rightarrow> Inl (BadReturn name))"

definition command_spec_of :: "event_handler \<Rightarrow> attribute \<Rightarrow> build_error + attribute command_spec" where
  "command_spec_of h a =
     map_sum id (\<lambda>r. \<lparr>cs_name = eh_name h, cs_fields = eh_fields h, cs_handler = a,
                      cs_description = eh_description h, cs_response = r\<rparr>)
       (response_type (eh_name h) a)"

text \<open>\<open>inspect.getattr_static\<close>: the most derived definition of a name.\<close>

definition getattr_static :: "klass list \<Rightarrow> string \<Rightarrow> attribute option" where
  "getattr_static mro n = first_some (map (\<lambda>k. dict_get (k_vars k) n) mro)"

definition reserved_params :: "string list" where
  "reserved_params = [''client'']"

definition check_file_uploaded_signature :: "attribute \<Rightarrow> build_error option" where
  "check_file_uploaded_signature a =
     (let params = filter (\<lambda>p. p \<noteq> ''self'') (at_params a);
          required = filter (\<lambda>p. p \<notin> set reserved_params) params
      in if required \<noteq> [''uploaded_file''] then Some (BadUploadHook params) else None)"

record build_state =
  bs_commands :: "(string, attribute command_spec) dict"
  bs_claimed :: "(string, string) dict"
  bs_hooks :: "(hook, attribute) dict"
  bs_owner :: "(hook, string \<times> string) dict"
  bs_marked :: "(hook, string) dict"

definition build_init :: build_state where
  "build_init = \<lparr>bs_commands = [], bs_claimed = [], bs_hooks = [], bs_owner = [], bs_marked = []\<rparr>"

text \<open>A generated setter whose field the app's state class does not declare.\<close>

definition dropped :: "string set \<Rightarrow> attribute \<Rightarrow> bool" where
  "dropped state_fields a = (case at_generated a of Some f \<Rightarrow> f \<notin> state_fields | None \<Rightarrow> False)"

definition bind_command ::
  "string set \<Rightarrow> build_state \<Rightarrow> string \<Rightarrow> attribute \<Rightarrow> event_handler \<Rightarrow> build_error + build_state"
where
  "bind_command state_fields s n a h =
     (if dropped state_fields a then Inr s
      else case dict_get (bs_commands s) (eh_name h) of
        Some c \<Rightarrow>
          if dict_get (bs_claimed s) (eh_name h) \<noteq> Some n then Inl (DuplicateCommand (eh_name h)) else Inr s
      | None \<Rightarrow>
          map_sum id
            (\<lambda>c. s\<lparr>bs_commands := dict_set (eh_name h) c (bs_commands s),
                   bs_claimed := dict_set (eh_name h) n (bs_claimed s)\<rparr>)
            (command_spec_of h a))"

text \<open>The first class that marks a kind: which method runs, and whether it may.\<close>

definition first_hook ::
  "klass list \<Rightarrow> string \<Rightarrow> string \<Rightarrow> attribute \<Rightarrow> build_state \<Rightarrow> hook \<Rightarrow> build_error + build_state"
where
  "first_hook mro kn n a s key =
     (case getattr_static mro n of
        None \<Rightarrow> Inl (HookNotMethod n key)
      | Some h \<Rightarrow>
          if \<not> at_callable h then Inl (HookNotMethod n key)
          else if at_id h \<noteq> at_id a \<and> at_event h \<noteq> None then Inl (HookIsEvent n key)
          else case (if key = FileUploadedHook \<and> at_id h \<noteq> at_id a
                     then check_file_uploaded_signature h else None) of
            Some e \<Rightarrow> Inl e
          | None \<Rightarrow> Inr (s\<lparr>bs_owner := dict_set key (kn, n) (bs_owner s),
                           bs_hooks := dict_set key h (bs_hooks s)\<rparr>))"

definition bind_hook ::
  "klass list \<Rightarrow> string \<Rightarrow> string \<Rightarrow> attribute \<Rightarrow> build_state \<Rightarrow> hook \<Rightarrow> build_error + build_state"
where
  "bind_hook mro kn n a s key =
     (if key \<notin> set (at_marks a) then Inr s
      else if dict_get (bs_marked s) key \<noteq> None then Inl (MarkedTwice kn key)
      else let s = s\<lparr>bs_marked := dict_set key n (bs_marked s)\<rparr> in
        case dict_get (bs_owner s) key of
          None \<Rightarrow> first_hook mro kn n a s key
        | Some owner \<Rightarrow> if snd owner \<noteq> n then Inl (SecondHook (snd owner) n key) else Inr s)"

definition visit_attr ::
  "klass list \<Rightarrow> string set \<Rightarrow> string \<Rightarrow> build_state \<Rightarrow> string \<times> attribute \<Rightarrow> build_error + build_state"
where
  "visit_attr mro state_fields kn s na =
     (case at_event (snd na) of
        Some h \<Rightarrow> bind_command state_fields s (fst na) (snd na) h
      | None \<Rightarrow> each (bind_hook mro kn (fst na) (snd na)) s lifecycle_attrs)"

definition visit_class ::
  "klass list \<Rightarrow> string set \<Rightarrow> build_state \<Rightarrow> klass \<Rightarrow> build_error + build_state"
where
  "visit_class mro state_fields s k =
     each (visit_attr mro state_fields (k_name k)) (s\<lparr>bs_marked := []\<rparr>) (k_vars k)"

definition build_contract :: "klass list \<Rightarrow> string set \<Rightarrow> build_error + build_state" where
  "build_contract mro state_fields = each (visit_class mro state_fields) build_init mro"

section \<open>What the walk has bound\<close>

abbreviation all_attrs :: "klass list \<Rightarrow> (string \<times> attribute) list" where
  "all_attrs mro \<equiv> concat (map k_vars mro)"

definition declares :: "string set \<Rightarrow> string \<Rightarrow> string \<times> attribute \<Rightarrow> bool" where
  "declares state_fields c na =
     (case at_event (snd na) of Some h \<Rightarrow> eh_name h = c \<and> \<not> dropped state_fields (snd na) | None \<Rightarrow> False)"

definition marks :: "hook \<Rightarrow> string \<times> attribute \<Rightarrow> bool" where
  "marks key na \<longleftrightarrow> at_event (snd na) = None \<and> key \<in> set (at_marks (snd na))"

text \<open>All attributes with a property have the same name.\<close>

definition one_name :: "(string \<times> attribute \<Rightarrow> bool) \<Rightarrow> (string \<times> attribute) list \<Rightarrow> bool" where
  "one_name P seen \<longleftrightarrow> (\<forall>x\<in>set seen. \<forall>y\<in>set seen. P x \<longrightarrow> P y \<longrightarrow> fst x = fst y)"

definition command_bound :: "string set \<Rightarrow> (string \<times> attribute) list \<Rightarrow> string \<Rightarrow> build_state \<Rightarrow> bool" where
  "command_bound sf seen c s \<longleftrightarrow>
     dict_get (bs_claimed s) c = map_option fst (find (declares sf c) seen)
   \<and> map_option cs_handler (dict_get (bs_commands s) c) = map_option snd (find (declares sf c) seen)
   \<and> one_name (declares sf c) seen"

text \<open>The same for one lifecycle kind.\<close>

definition hook_bound :: "klass list \<Rightarrow> (string \<times> attribute) list \<Rightarrow> hook \<Rightarrow> build_state \<Rightarrow> bool" where
  "hook_bound mro seen key s \<longleftrightarrow>
     map_option snd (dict_get (bs_owner s) key) = map_option fst (find (marks key) seen)
   \<and> dict_get (bs_hooks s) key = Option.bind (find (marks key) seen) (\<lambda>na. getattr_static mro (fst na))
   \<and> one_name (marks key) seen"

lemma find_snoc:
  "find P (xs @ [x]) = (case find P xs of Some y \<Rightarrow> Some y | None \<Rightarrow> if P x then Some x else None)"
  by (induction xs) auto

lemma find_snoc_False: "\<not> P x \<Longrightarrow> find P (xs @ [x]) = find P xs"
  by (simp add: find_snoc split: option.split)

lemma one_name_False: "\<not> P x \<Longrightarrow> one_name P (seen @ [x]) = one_name P seen"
  by (auto simp: one_name_def)

lemma one_name_first: "find P seen = None \<Longrightarrow> one_name P (seen @ [x])"
  by (auto simp: one_name_def find_None_iff)

lemma one_name_again:
  assumes "find P seen = Some y" "fst y = fst x" "one_name P seen"
  shows "one_name P (seen @ [x])"
proof -
  have "y \<in> set seen" "P y"
    using assms(1) by (metis find_Some_iff nth_mem)+
  have same: "fst z = fst x" if "z \<in> set (seen @ [x])" "P z" for z
  proof (cases "z = x")
    case False
    with that have "z \<in> set seen"
      by simp
    then have "fst z = fst y"
      using assms(3) \<open>y \<in> set seen\<close> \<open>P y\<close> that(2) unfolding one_name_def by blast
    then show ?thesis
      by (simp only: assms(2))
  qed simp
  show ?thesis
    unfolding one_name_def
  proof (intro ballI impI)
    fix a b
    assume "a \<in> set (seen @ [x])" "b \<in> set (seen @ [x])" "P a" "P b"
    then have "fst a = fst x" "fst b = fst x"
      by (iprover intro: same)+
    then show "fst a = fst b"
      by (simp only:)
  qed
qed

subsection \<open>Commands\<close>

lemma command_bound_skip:
  assumes "command_bound sf seen c s" and "\<not> declares sf c na"
    and "dict_get (bs_commands s') c = dict_get (bs_commands s) c"
    and "dict_get (bs_claimed s') c = dict_get (bs_claimed s) c"
  shows "command_bound sf (seen @ [na]) c s'"
  using assms by (simp add: command_bound_def find_snoc_False one_name_False)

lemma command_spec_of_handler: "command_spec_of h a = Inr c \<Longrightarrow> cs_handler c = a"
  by (auto simp: command_spec_of_def)

lemma bind_command_other:
  assumes "bind_command sf s n a h = Inr s'" and "c \<noteq> eh_name h"
  shows "dict_get (bs_commands s') c = dict_get (bs_commands s) c
    \<and> dict_get (bs_claimed s') c = dict_get (bs_claimed s) c"
  using assms by (auto simp: bind_command_def dict_simps split: if_splits option.splits)

lemma bind_command_this:
  assumes inv: "command_bound sf seen (eh_name h) s" and ev: "at_event a = Some h"
    and keep: "\<not> dropped sf a" and bind: "bind_command sf s n a h = Inr s'"
  shows "command_bound sf (seen @ [(n, a)]) (eh_name h) s'"
proof -
  let ?c = "eh_name h"
  have dec: "declares sf ?c (n, a)"
    using ev keep by (auto simp: declares_def)
  show ?thesis
  proof (cases "find (declares sf ?c) seen")
    case None
    then have "dict_get (bs_commands s) ?c = None"
      using inv by (simp add: command_bound_def)
    then obtain c where c: "command_spec_of h a = Inr c"
      and s': "s' = s\<lparr>bs_commands := dict_set ?c c (bs_commands s), bs_claimed := dict_set ?c n (bs_claimed s)\<rparr>"
      using bind keep by (auto simp: bind_command_def)
    show ?thesis
      using None dec command_spec_of_handler [OF c]
      by (simp add: command_bound_def s' find_snoc dict_simps one_name_first)
  next
    case (Some y)
    then obtain c where "dict_get (bs_commands s) ?c = Some c" and y: "dict_get (bs_claimed s) ?c = Some (fst y)"
      using inv by (auto simp: command_bound_def)
    then have s': "s' = s" and n: "fst y = n"
      using bind keep by (auto simp: bind_command_def split: if_splits)
    show ?thesis
      using inv Some n one_name_again [OF Some, of "(n, a)"]
      by (simp add: command_bound_def s' find_snoc)
  qed
qed

lemma bind_command_bound:
  assumes inv: "command_bound sf seen c s" and ev: "at_event a = Some h"
    and bind: "bind_command sf s n a h = Inr s'"
  shows "command_bound sf (seen @ [(n, a)]) c s'"
proof (cases "c = eh_name h \<and> \<not> dropped sf a")
  case True
  then show ?thesis
    using assms bind_command_this by simp
next
  case False
  then have "\<not> declares sf c (n, a)"
    using ev by (auto simp: declares_def)
  moreover have "s' = s \<or> c \<noteq> eh_name h"
    using False bind by (auto simp: bind_command_def)
  ultimately show ?thesis
    using command_bound_skip [OF inv] bind_command_other [OF bind] by metis
qed

lemma bind_hook_commands:
  assumes "bind_hook mro kn n a s key = Inr s'"
  shows "bs_commands s' = bs_commands s \<and> bs_claimed s' = bs_claimed s"
  using assms
  by (auto simp: bind_hook_def first_hook_def Let_def split: if_splits option.splits)

lemma hooks_commands:
  assumes "each (bind_hook mro kn n a) s ks = Inr s'"
  shows "bs_commands s' = bs_commands s \<and> bs_claimed s' = bs_claimed s"
  using each_history [where P = "\<lambda>_ s'. bs_commands s' = bs_commands s \<and> bs_claimed s' = bs_claimed s"
      and h = "[]", OF _ _ assms] bind_hook_commands by fastforce

lemma visit_attr_commands:
  assumes "command_bound sf seen c s" and "visit_attr mro sf kn s na = Inr s'"
  shows "command_bound sf (seen @ [na]) c s'"
proof (cases "at_event (snd na)")
  case None
  then have "each (bind_hook mro kn (fst na) (snd na)) s lifecycle_attrs = Inr s'"
    using assms(2) by (simp add: visit_attr_def)
  then show ?thesis
    using hooks_commands None by (intro command_bound_skip [OF assms(1)]) (auto simp: declares_def)
next
  case (Some h)
  then show ?thesis
    using assms bind_command_bound [OF assms(1), of "snd na" h "fst na"] by (simp add: visit_attr_def)
qed

subsection \<open>Hooks\<close>

lemma bind_hook_other:
  assumes "bind_hook mro kn n a s key = Inr s'" and "key' \<noteq> key"
  shows "hook_bound mro seen key' s' = hook_bound mro seen key' s"
  using assms
  by (auto simp: bind_hook_def first_hook_def hook_bound_def Let_def dict_simps split: if_splits option.splits)

lemma first_hook_Inr:
  assumes "first_hook mro kn n a s key = Inr s'"
  shows "\<exists>h. getattr_static mro n = Some h
    \<and> s' = s\<lparr>bs_owner := dict_set key (kn, n) (bs_owner s), bs_hooks := dict_set key h (bs_hooks s)\<rparr>"
  using assms by (auto simp: first_hook_def split: option.splits if_splits)

lemma bind_hook_this:
  assumes inv: "hook_bound mro seen key s" and ev: "at_event a = None"
    and bind: "bind_hook mro kn n a s key = Inr s'"
  shows "hook_bound mro (seen @ [(n, a)]) key s'"
proof (cases "key \<in> set (at_marks a)")
  case False
  then show ?thesis
    using inv bind by (simp add: bind_hook_def hook_bound_def marks_def find_snoc_False one_name_False)
next
  case True
  then have mk: "marks key (n, a)"
    using ev by (simp add: marks_def)
  show ?thesis
  proof (cases "find (marks key) seen")
    case None
    then have "dict_get (bs_owner s) key = None"
      using inv by (simp add: hook_bound_def)
    then have "first_hook mro kn n a (s\<lparr>bs_marked := dict_set key n (bs_marked s)\<rparr>) key = Inr s'"
      using bind True by (auto simp: bind_hook_def Let_def split: if_splits)
    from first_hook_Inr [OF this] show ?thesis
      using mk None by (auto simp: hook_bound_def find_snoc dict_simps one_name_first)
  next
    case (Some y)
    then obtain owner where o: "dict_get (bs_owner s) key = Some owner" "snd owner = fst y"
      using inv by (auto simp: hook_bound_def)
    then have "fst y = n" and s': "bs_owner s' = bs_owner s" "bs_hooks s' = bs_hooks s"
      using bind True by (auto simp: bind_hook_def Let_def split: if_splits)
    then show ?thesis
      using inv Some one_name_again [OF Some, of "(n, a)"] by (simp add: hook_bound_def find_snoc)
  qed
qed

lemma each_hooks:
  assumes "distinct ks" and "at_event a = None" and "each (bind_hook mro kn n a) s ks = Inr s'"
    and "\<forall>key\<in>set ks. hook_bound mro seen key s"
  shows "(\<forall>key\<in>set ks. hook_bound mro (seen @ [(n, a)]) key s')
    \<and> (\<forall>key h. key \<notin> set ks \<longrightarrow> hook_bound mro h key s' = hook_bound mro h key s)"
  using assms
proof (induction ks arbitrary: s)
  case (Cons k ks)
  then obtain s1 where s1: "bind_hook mro kn n a s k = Inr s1" "each (bind_hook mro kn n a) s1 ks = Inr s'"
    by (auto split: sum.splits)
  have this_key: "hook_bound mro (seen @ [(n, a)]) k s1"
    using bind_hook_this [OF _ Cons.prems(2) s1(1)] Cons.prems(4) by simp
  have "hook_bound mro seen key s1" if "key \<in> set ks" for key
  proof -
    have "key \<noteq> k"
      using that Cons.prems(1) by auto
    then show ?thesis
      using bind_hook_other [OF s1(1), of key] Cons.prems(4) that by simp
  qed
  then have rest: "\<forall>key\<in>set ks. hook_bound mro seen key s1"
    by blast
  have ih: "(\<forall>key\<in>set ks. hook_bound mro (seen @ [(n, a)]) key s')
      \<and> (\<forall>key h. key \<notin> set ks \<longrightarrow> hook_bound mro h key s' = hook_bound mro h key s1)"
    using Cons.prems(1) by (intro Cons.IH [OF _ Cons.prems(2) s1(2) rest]) simp
  show ?case
  proof (intro conjI ballI allI impI)
    fix key
    assume "key \<in> set (k # ks)"
    then show "hook_bound mro (seen @ [(n, a)]) key s'"
      using ih this_key Cons.prems(1) by auto
  next
    fix key h
    assume "key \<notin> set (k # ks)"
    then show "hook_bound mro h key s' = hook_bound mro h key s"
      using ih bind_hook_other [OF s1(1), of key h] by simp
  qed
qed simp

lemma lifecycle_attrs_all: "set lifecycle_attrs = UNIV" "distinct lifecycle_attrs"
  by (auto simp: lifecycle_attrs_def) (metis hook.exhaust)

lemma bind_command_hooks:
  "bind_command sf s n a h = Inr s' \<Longrightarrow> bs_owner s' = bs_owner s \<and> bs_hooks s' = bs_hooks s"
  by (auto simp: bind_command_def split: if_splits option.splits)

lemma visit_attr_hooks:
  assumes "\<forall>key. hook_bound mro seen key s" and "visit_attr mro sf kn s na = Inr s'"
  shows "\<forall>key. hook_bound mro (seen @ [na]) key s'"
proof (cases "at_event (snd na)")
  case None
  then have "each (bind_hook mro kn (fst na) (snd na)) s lifecycle_attrs = Inr s'"
    using assms(2) by (simp add: visit_attr_def)
  from each_hooks [OF lifecycle_attrs_all(2) None this] assms(1) show ?thesis
    by (simp add: lifecycle_attrs_all(1))
next
  case (Some h)
  then have "bs_owner s' = bs_owner s \<and> bs_hooks s' = bs_hooks s"
    using assms(2) bind_command_hooks by (simp add: visit_attr_def)
  moreover have "\<not> marks key na" for key
    using Some by (simp add: marks_def)
  ultimately show ?thesis
    using assms(1) by (simp add: hook_bound_def find_snoc_False one_name_False)
qed

subsection \<open>The whole walk\<close>

definition bound :: "klass list \<Rightarrow> string set \<Rightarrow> (string \<times> attribute) list \<Rightarrow> build_state \<Rightarrow> bool" where
  "bound mro sf seen s \<longleftrightarrow> (\<forall>c. command_bound sf seen c s) \<and> (\<forall>key. hook_bound mro seen key s)"

lemma visit_attr_bound:
  "bound mro sf seen s \<Longrightarrow> visit_attr mro sf kn s na = Inr s' \<Longrightarrow> bound mro sf (seen @ [na]) s'"
  unfolding bound_def using visit_attr_commands visit_attr_hooks by blast

lemma visit_class_bound:
  assumes "bound mro sf seen s" and "visit_class mro sf s k = Inr s'"
  shows "bound mro sf (seen @ k_vars k) s'"
proof (rule each_history [where P = "bound mro sf"])
  show "bound mro sf seen (s\<lparr>bs_marked := []\<rparr>)"
    using assms(1) by (simp add: bound_def command_bound_def hook_bound_def)
  show "each (visit_attr mro sf (k_name k)) (s\<lparr>bs_marked := []\<rparr>) (k_vars k) = Inr s'"
    using assms(2) by (simp add: visit_class_def)
qed (rule visit_attr_bound)

lemma each_visit_class:
  "bound mro sf seen s \<Longrightarrow> each (visit_class mro sf) s ks = Inr s' \<Longrightarrow>
     bound mro sf (seen @ all_attrs ks) s'"
proof (induction ks arbitrary: seen s)
  case (Cons k ks)
  then obtain s1 where s1: "visit_class mro sf s k = Inr s1" "each (visit_class mro sf) s1 ks = Inr s'"
    by (auto split: sum.splits)
  from Cons.IH [OF visit_class_bound [OF Cons.prems(1) s1(1)] s1(2)] show ?case
    by simp
qed simp

lemma bound_init: "bound mro sf [] build_init"
  by (simp add: bound_def build_init_def command_bound_def hook_bound_def one_name_def)

lemma build_contract_bound: "build_contract mro sf = Inr s \<Longrightarrow> bound mro sf (all_attrs mro) s"
  using each_visit_class [OF bound_init] by (simp add: build_contract_def)

text \<open>
  C37. The contract of a model binds a command to the most derived \<open>@event\<close> definition
  of its name: walking the classes in resolution order and leaving out generated
  setters for fields the state class does not declare, a command exists exactly when
  some attribute declares it, its handler is the first such attribute, and every
  attribute that declares the name is the same method; a second method claiming the
  name makes the build fail.
\<close>

theorem command_most_derived:
  assumes "build_contract mro sf = Inr s"
  shows "map_option cs_handler (dict_get (bs_commands s) c)
      = map_option snd (find (declares sf c) (all_attrs mro))
    \<and> (\<forall>x\<in>set (all_attrs mro). \<forall>y\<in>set (all_attrs mro).
         declares sf c x \<longrightarrow> declares sf c y \<longrightarrow> fst x = fst y)"
  using build_contract_bound [OF assms] unfolding bound_def command_bound_def one_name_def by blast

text \<open>
  A lifecycle hook runs the most derived definition of the method name that marks
  it, whether or not that definition repeats the mark; no mark, no hook; and a model
  whose classes mark two different method names with one kind is refused.
\<close>

theorem hook_most_derived:
  assumes "build_contract mro sf = Inr s"
  shows "dict_get (bs_hooks s) key
      = Option.bind (find (marks key) (all_attrs mro)) (\<lambda>na. getattr_static mro (fst na))
    \<and> (\<forall>x\<in>set (all_attrs mro). \<forall>y\<in>set (all_attrs mro). marks key x \<longrightarrow> marks key y \<longrightarrow> fst x = fst y)"
  using build_contract_bound [OF assms] unfolding bound_def hook_bound_def one_name_def by blast

text \<open>A subclass that redeclares a command and overrides a hook without its mark.\<close>

definition go_handler :: event_handler where
  "go_handler = \<lparr>eh_name = ''go'', eh_description = [], eh_fields = [], eh_is_async = True, eh_reserved = []\<rparr>"

definition plain_method :: "nat \<Rightarrow> event_handler option \<Rightarrow> hook list \<Rightarrow> attribute" where
  "plain_method i ev ms = \<lparr>at_id = i, at_event = ev, at_generated = None, at_marks = ms, at_callable = True,
     at_params = [''self''], at_return = ReturnsNone\<rparr>"

definition example_mro :: "klass list" where
  "example_mro =
     [\<lparr>k_name = ''Derived'', k_vars = [(''go'', plain_method 1 (Some go_handler) []), (''stop'', plain_method 2 None [])]\<rparr>,
      \<lparr>k_name = ''Base'', k_vars = [(''stop'', plain_method 3 None [SessionEndedHook]), (''go'', plain_method 4 (Some go_handler) [])]\<rparr>]"

lemmas example_simps =
  example_mro_def build_contract_def build_init_def visit_class_def visit_attr_def bind_command_def
  dropped_def plain_method_def go_handler_def command_spec_of_def response_type_def lifecycle_attrs_def
  bind_hook_def first_hook_def getattr_static_def

lemma example_builds: "\<exists>s. build_contract example_mro {} = Inr s"
  by (simp add: example_simps)

theorem command_most_derived_witness:
  "\<exists>s. build_contract example_mro {} = Inr s
     \<and> map_option cs_handler (dict_get (bs_commands s) ''go'') = Some (plain_method 1 (Some go_handler) [])"
proof -
  obtain s where s: "build_contract example_mro {} = Inr s"
    using example_builds by blast
  have "find (declares {} ''go'') (all_attrs example_mro) = Some (''go'', plain_method 1 (Some go_handler) [])"
    by (simp add: example_mro_def declares_def plain_method_def go_handler_def dropped_def)
  then have "map_option cs_handler (dict_get (bs_commands s) ''go'') = Some (plain_method 1 (Some go_handler) [])"
    using command_most_derived [OF s, THEN conjunct1, of "''go''"] by simp
  with s show ?thesis
    by blast
qed

theorem hook_most_derived_witness:
  "\<exists>s. build_contract example_mro {} = Inr s
     \<and> dict_get (bs_hooks s) SessionEndedHook = Some (plain_method 2 None [])"
proof -
  obtain s where s: "build_contract example_mro {} = Inr s"
    using example_builds by blast
  have "find (marks SessionEndedHook) (all_attrs example_mro) = Some (''stop'', plain_method 3 None [SessionEndedHook])"
    by (simp add: example_mro_def marks_def plain_method_def go_handler_def)
  then have "dict_get (bs_hooks s) SessionEndedHook = getattr_static example_mro ''stop''"
    using hook_most_derived [OF s, THEN conjunct1, of SessionEndedHook] by simp
  with s show ?thesis
    by (auto simp: getattr_static_def example_mro_def)
qed

end
