(* ===== verification/Values.thy ===== *)
theory Values
  imports Prelude
begin

text \<open>
  The neutral values of \<^verbatim>\<open>core/values.py\<close> that carry behaviour: media bundles,
  \<open>frame_count\<close>, \<open>split_batch\<close>, media chunks and the health roll-up, with the stage and
  transport readings of \<^verbatim>\<open>core/stats.py\<close>.

  NumPy is not part of the repository. An array is an element of a type variable \<open>'a\<close> and the
  operations the code applies to it are the fields of the parameter \<open>'a numpy\<close>: the shape,
  \<open>a[i]\<close> along the first axis, \<open>a.reshape(1, -1)\<close>, and \<open>np.array_split(a, n, axis=1)\<close>
  (\<open>None\<close> where it raises). A property that needs one of their documented laws names it as a
  hypothesis.
\<close>

section \<open>Vocabulary\<close>

type_synonym bytes = "nat list"

datatype track_kind = VIDEO | AUDIO

datatype track_direction = IN | OUT

datatype client_track_direction = RECVONLY | SENDONLY

record frame_stage =
  fs_name :: string
  fs_total_ms :: real
  fs_frames :: int
  fs_part_of :: string

record message_stage =
  ms_name :: string
  ms_total_ms :: real
  ms_messages :: int
  ms_part_of :: string

record transport_track_reading =
  rt_track_name :: string
  rt_kind :: "track_kind option"
  rt_direction :: client_track_direction
  rt_codec :: string
  rt_metrics :: "(string, real) dict"
  rt_frame_stages :: "frame_stage list"

record transport_reading =
  rd_metrics :: "(string, real) dict"
  rd_tracks :: "transport_track_reading list"
  rd_message_stages :: "message_stage list"

record 'a input_frame =
  if_data :: 'a
  if_pts :: "real option"
  if_metadata :: "bytes option"
  if_capture_time_us :: "int option"

record track_info =
  ti_name :: string
  ti_kind :: track_kind
  ti_rate :: real
  ti_direction :: track_direction
  ti_buffer_seconds :: "real option"

datatype metadata = NoMeta | OneMeta bytes | PerFrame "bytes list"

record 'a track_data =
  td_info :: track_info
  td_data :: 'a
  td_metadata :: metadata

type_synonym 'a media_bundle = "(string, 'a track_data) dict"

record 'a numpy =
  np_shape :: "'a \<Rightarrow> nat list"
  np_index :: "'a \<Rightarrow> nat \<Rightarrow> 'a"
  np_row :: "'a \<Rightarrow> 'a"
  np_array_split :: "'a \<Rightarrow> nat \<Rightarrow> 'a list option"

abbreviation ndim :: "'a numpy \<Rightarrow> 'a \<Rightarrow> nat" where
  "ndim np a \<equiv> length (np_shape np a)"

datatype values_error = ValueError | IndexError

section \<open>Bundles\<close>

definition get_track :: "'a media_bundle \<Rightarrow> string \<Rightarrow> 'a track_data option" where
  "get_track b name = dict_get b name"

definition get_tracks :: "'a media_bundle \<Rightarrow> 'a track_data list" where
  "get_tracks b = map snd b"

definition get_tracks_by_kind :: "'a media_bundle \<Rightarrow> track_kind \<Rightarrow> 'a track_data list" where
  "get_tracks_by_kind b kind = filter (\<lambda>t. ti_kind (td_info t) = kind) (map snd b)"

definition batched_sizes :: "'a numpy \<Rightarrow> 'a media_bundle \<Rightarrow> nat list" where
  "batched_sizes np b =
     map (\<lambda>t. hd (np_shape np (td_data t)))
       (filter (\<lambda>t. ndim np (td_data t) = 4) (get_tracks_by_kind b VIDEO))"

definition frame_count :: "'a numpy \<Rightarrow> 'a media_bundle \<Rightarrow> values_error + nat" where
  "frame_count np b =
     (let counts = remdups (batched_sizes np b)
      in if counts = [] then Inr 1
         else if length counts > 1 then Inl ValueError
         else Inr (hd counts))"

definition frame_metadata :: "metadata \<Rightarrow> nat \<Rightarrow> values_error + metadata" where
  "frame_metadata m index =
     (case m of
        PerFrame ms \<Rightarrow> if index < length ms then Inr (OneMeta (ms ! index)) else Inl IndexError
      | _ \<Rightarrow> Inr m)"

definition metadata_covers :: "nat \<Rightarrow> 'a track_data \<Rightarrow> bool" where
  "metadata_covers n t \<longleftrightarrow> (case td_metadata t of PerFrame ms \<Rightarrow> length ms = n | _ \<Rightarrow> True)"

definition squeeze_track :: "'a numpy \<Rightarrow> 'a track_data \<Rightarrow> values_error + 'a track_data" where
  "squeeze_track np t =
     map_sum id (\<lambda>m. \<lparr>td_info = td_info t,
        td_data = (if ndim np (td_data t) = 4 then np_index np (td_data t) 0 else td_data t),
        td_metadata = m\<rparr>) (frame_metadata (td_metadata t) 0)"

definition video_split :: "'a numpy \<Rightarrow> nat \<Rightarrow> 'a track_data \<Rightarrow> 'a list" where
  "video_split np n t =
     (if ndim np (td_data t) = 4
      then map (np_index np (td_data t)) [0..<hd (np_shape np (td_data t))]
      else replicate n (td_data t))"

definition audio_split :: "'a numpy \<Rightarrow> nat \<Rightarrow> 'a track_data \<Rightarrow> values_error + 'a list" where
  "audio_split np n t =
     (let audio = (if ndim np (td_data t) = 1 then np_row np (td_data t) else td_data t)
      in case np_array_split np audio n of None \<Rightarrow> Inl ValueError | Some parts \<Rightarrow> Inr parts)"

definition frame_track ::
  "('a track_data) \<Rightarrow> 'a list \<Rightarrow> nat \<Rightarrow> values_error + 'a track_data" where
  "frame_track source payloads index =
     (if index < length payloads
      then map_sum id (\<lambda>m. \<lparr>td_info = td_info source, td_data = payloads ! index, td_metadata = m\<rparr>)
             (frame_metadata (td_metadata source) index)
      else Inl IndexError)"

definition split_frame ::
  "(string, 'a track_data) dict \<Rightarrow> (string \<times> 'a list) list \<Rightarrow> nat \<Rightarrow> values_error + 'a media_bundle" where
  "split_frame by_name splits index =
     map_sum id dict_of
       (seq_results (map (\<lambda>(name, payloads).
          map_sum id (\<lambda>t. (name, t)) (frame_track (the (dict_get by_name name)) payloads index)) splits))"

definition split_batch :: "'a numpy \<Rightarrow> 'a media_bundle \<Rightarrow> values_error + 'a media_bundle list" where
  "split_batch np b =
     (let video_tracks = get_tracks_by_kind b VIDEO;
          sizes = batched_sizes np b
      in if video_tracks = [] then Inr [b]
         else if sizes = [] then Inr [b]
         else
           let n_frames = hd sizes
           in if \<not> list_all (metadata_covers n_frames) (get_tracks b) then Inl ValueError
              else if n_frames = 1 then
                map_sum id (\<lambda>ts. [ts])
                  (seq_results (map (\<lambda>(name, t). map_sum id (\<lambda>t'. (name, t')) (squeeze_track np t)) b))
              else if \<not> list_all (\<lambda>size. size = n_frames) sizes then Inl ValueError
              else
                let video_splits = dict_of (map (\<lambda>t. (ti_name (td_info t), video_split np n_frames t)) video_tracks)
                in case seq_results (map (\<lambda>t. map_sum id (\<lambda>p. (ti_name (td_info t), p))
                          (audio_split np n_frames t)) (get_tracks_by_kind b AUDIO)) of
                     Inl e \<Rightarrow> Inl e
                   | Inr audios \<Rightarrow>
                       let by_name = dict_of (map (\<lambda>t. (ti_name (td_info t), t)) (get_tracks b))
                       in seq_results (map (split_frame by_name (video_splits @ dict_of audios))
                            [0..<n_frames]))"

record 'a media_chunk =
  mc_bundle :: "'a media_bundle"
  mc_fps :: real
  mc_n_frames :: nat
  mc_wait :: bool
  mc_session :: "int option"
  mc_emitted_at :: "real option"

definition chunk_frames :: "'a numpy \<Rightarrow> 'a media_chunk \<Rightarrow> values_error + 'a media_bundle list" where
  "chunk_frames np c = split_batch np (mc_bundle c)"

section \<open>Health\<close>

datatype health_status = UNHEALTHY | HEALTHY

record health =
  hl_status :: health_status
  hl_detail :: "string option"

fun join_details :: "string list \<Rightarrow> string" where
  "join_details [] = ''''"
| "join_details [d] = d"
| "join_details (d # ds) = d @ ''; '' @ join_details ds"

fun aggregate_loop :: "health list \<Rightarrow> health_status \<times> string list \<Rightarrow> health_status \<times> string list" where
  "aggregate_loop [] acc = acc"
| "aggregate_loop (part # parts) (worst, details) =
     (if hl_status part = UNHEALTHY
      then aggregate_loop parts
        (UNHEALTHY, case hl_detail part of
           None \<Rightarrow> details | Some d \<Rightarrow> if d = [] then details else details @ [d])
      else aggregate_loop parts (worst, details))"

definition aggregate :: "health list \<Rightarrow> health" where
  "aggregate parts =
     (let (worst, details) = aggregate_loop parts (HEALTHY, []);
          joined = join_details details
      in \<lparr>hl_status = worst, hl_detail = (if joined = [] then None else Some joined)\<rparr>)"

section \<open>Splitting: lemmas\<close>

lemma frame_metadata_covered:
  "metadata_covers n t \<Longrightarrow> i < n \<Longrightarrow> frame_metadata (td_metadata t) i =
     Inr (case td_metadata t of PerFrame ms \<Rightarrow> OneMeta (ms ! i) | m \<Rightarrow> m)"
  by (auto simp: metadata_covers_def frame_metadata_def split: metadata.splits)

lemma frame_count_Inr:
  "frame_count np b = Inr n \<Longrightarrow>
   (batched_sizes np b = [] \<and> n = 1) \<or>
   (batched_sizes np b \<noteq> [] \<and> hd (batched_sizes np b) = n \<and> (\<forall>k \<in> set (batched_sizes np b). k = n))"
proof -
  assume fc: "frame_count np b = Inr n"
  show ?thesis
  proof (cases "batched_sizes np b = []")
    case False
    with fc obtain c where c: "remdups (batched_sizes np b) = [c]" "n = c"
      by (auto simp: frame_count_def Let_def length_Suc_conv split: if_splits)
         (metis One_nat_def Suc_lessI length_0_conv length_Suc_conv length_greater_0_conv list.sel(1)
           remdups_eq_nil_iff)
    then have "set (batched_sizes np b) = {n}"
      by (metis empty_set list.simps(15) set_remdups)
    with False show ?thesis by (metis hd_in_set singletonD)
  qed (use fc in \<open>simp add: frame_count_def\<close>)
qed

text \<open>
  A bundle is well keyed when every track is filed under its own name, once; then the
  dictionaries \<open>split_batch\<close> builds by track name are the bundle's own entries.
\<close>

abbreviation track_name :: "'a track_data \<Rightarrow> string" where
  "track_name t \<equiv> ti_name (td_info t)"

definition well_keyed :: "'a media_bundle \<Rightarrow> bool" where
  "well_keyed b \<longleftrightarrow> wf_dict b \<and> list_all (\<lambda>(k, t). track_name t = k) b"

definition frame_payloads :: "'a numpy \<Rightarrow> nat \<Rightarrow> 'a track_data \<Rightarrow> 'a list" where
  "frame_payloads np n t =
     (if ti_kind (td_info t) = VIDEO then video_split np n t
      else the (np_array_split np (if ndim np (td_data t) = 1 then np_row np (td_data t) else td_data t) n))"

definition nth_metadata :: "metadata \<Rightarrow> nat \<Rightarrow> metadata" where
  "nth_metadata m i = (case m of PerFrame ms \<Rightarrow> OneMeta (ms ! i) | _ \<Rightarrow> m)"

definition nth_frame :: "'a numpy \<Rightarrow> nat \<Rightarrow> nat \<Rightarrow> 'a track_data \<Rightarrow> 'a track_data" where
  "nth_frame np n i t = \<lparr>td_info = td_info t, td_data = frame_payloads np n t ! i,
     td_metadata = nth_metadata (td_metadata t) i\<rparr>"

lemma well_keyed_names: "well_keyed b \<Longrightarrow> map track_name (map snd b) = dict_keys b"
  by (induction b) (auto simp: well_keyed_def)

lemma well_keyed_entries: "well_keyed b \<Longrightarrow> map (\<lambda>t. (track_name t, t)) (map snd b) = b"
  by (induction b) (auto simp: well_keyed_def)

lemma well_keyed_get: "well_keyed b \<Longrightarrow> t \<in> set (map snd b) \<Longrightarrow> dict_get b (track_name t) = Some t"
  by (auto simp: well_keyed_def list_all_iff intro!: map_of_is_SomeI)

lemma split_frame_nth:
  assumes "well_keyed b" and "set ts \<subseteq> set (map snd b)" and "distinct (map track_name ts)"
    and "\<And>t. t \<in> set ts \<Longrightarrow> length (frame_payloads np n t) = n \<and> metadata_covers n t"
    and "i < n"
  shows "split_frame b (map (\<lambda>t. (track_name t, frame_payloads np n t)) ts) i =
    Inr (map (\<lambda>t. (track_name t, nth_frame np n i t)) ts)"
proof -
  have "frame_track (the (dict_get b (track_name t))) (frame_payloads np n t) i = Inr (nth_frame np n i t)"
    if "t \<in> set ts" for t
  proof -
    have "dict_get b (track_name t) = Some t"
      using assms(1,2) that by (intro well_keyed_get) auto
    then show ?thesis
      using assms(4) [OF that] assms(5) frame_metadata_covered [of n t i]
      by (simp add: frame_track_def nth_frame_def nth_metadata_def split: metadata.split)
  qed
  then have "seq_results (map (\<lambda>t. map_sum id (Pair (track_name t))
       (frame_track (the (dict_get b (track_name t))) (frame_payloads np n t) i)) ts)
     = Inr (map (\<lambda>t. (track_name t, nth_frame np n i t)) ts)"
    by (intro seq_results_cong_Inr) simp
  moreover have "distinct (map fst (map (\<lambda>t. (track_name t, nth_frame np n i t)) ts))"
    using assms(3) by (simp add: comp_def)
  ultimately show ?thesis
    by (simp add: split_frame_def comp_def dict_of_distinct)
qed

section \<open>Properties\<close>

text \<open>
  A chunk splits into as many single-frame bundles as its frame count says: whenever the
  bundle's \<open>frame_count\<close> is defined and \<open>split_batch\<close> succeeds, the two agree.
\<close>

theorem split_batch_length:
  assumes "frame_count np b = Inr n" and "split_batch np b = Inr bs"
  shows "length bs = n"
proof (cases "batched_sizes np b = []")
  case True
  then show ?thesis
    using assms frame_count_Inr [OF assms(1)] by (auto simp: split_batch_def Let_def split: if_splits)
next
  case False
  then have n: "hd (batched_sizes np b) = n"
    using frame_count_Inr [OF assms(1)] by simp
  have "get_tracks_by_kind b VIDEO \<noteq> []"
    using False by (auto simp: batched_sizes_def)
  then show ?thesis
    using assms(2) False n
    by (auto simp: split_batch_def Let_def dest: seq_results_length split: if_splits sum.splits)
qed

theorem split_batch_length_witness:
  "length (projr (split_batch \<lparr>np_shape = id, np_index = \<lambda>a i. tl a, np_row = id,
       np_array_split = \<lambda>a n. Some (replicate n a)\<rparr>
     [(''v'', \<lparr>td_info = \<lparr>ti_name = ''v'', ti_kind = VIDEO, ti_rate = 0, ti_direction = OUT,
         ti_buffer_seconds = None\<rparr>, td_data = [3, 4, 4, 3], td_metadata = NoMeta\<rparr>)])) = 3"
  (is "length (projr (split_batch ?np ?b)) = 3")
proof -
  have "frame_count ?np ?b = Inr 3"
    by (simp add: frame_count_def batched_sizes_def get_tracks_by_kind_def)
  moreover have "split_batch ?np ?b = Inr (projr (split_batch ?np ?b))"
    by (simp add: split_batch_def batched_sizes_def get_tracks_by_kind_def get_tracks_def metadata_covers_def
        video_split_def dict_of_def split_frame_def frame_track_def frame_metadata_def numeral_eq_Suc
        Let_def)
  ultimately show ?thesis
    by (rule split_batch_length)
qed

text \<open>
  The content of a split: for a batch of several frames whose tracks are filed under their
  own names, whose batched videos agree and whose metadata lists cover every frame, frame \<open>i\<close>
  carries every track of the bundle: a batched video's \<open>i\<close>-th picture, an unbatched video
  unchanged, the \<open>i\<close>-th of the parts \<open>np.array_split\<close> cuts the audio into, and the track's own
  \<open>i\<close>-th metadata entry (a single value rides on every frame).
\<close>

theorem split_batch_frames:
  assumes "well_keyed b" and "frame_count np b = Inr n" and "batched_sizes np b \<noteq> []" and "n \<noteq> 1"
    and "list_all (metadata_covers n) (get_tracks b)"
    and split_law: "\<And>a. \<exists>ps. np_array_split np a n = Some ps \<and> length ps = n"
  shows "\<exists>bs. split_batch np b = Inr bs \<and> length bs = n \<and>
    (\<forall>i < n. \<forall>k t. get_track b k = Some t \<longrightarrow> get_track (bs ! i) k = Some (nth_frame np n i t))"
proof -
  define vs where "vs = get_tracks_by_kind b VIDEO"
  define as where "as = get_tracks_by_kind b AUDIO"
  have sizes: "hd (batched_sizes np b) = n" "\<forall>k \<in> set (batched_sizes np b). k = n"
    using frame_count_Inr [OF assms(2)] assms(3) by auto
  have sub: "set (vs @ as) = set (map snd b)"
    by (auto simp: vs_def as_def get_tracks_by_kind_def) (metis track_kind.exhaust)
  have dist: "distinct (map track_name (vs @ as))"
  proof -
    have "distinct (map track_name (map snd b))"
      using assms(1) by (simp only: well_keyed_names well_keyed_def)
    then have "inj_on track_name (set (map snd b))" "distinct (map snd b)"
      unfolding distinct_map [of track_name] by blast+
    moreover have "distinct (vs @ as)"
      using calculation(2) by (auto simp: vs_def as_def get_tracks_by_kind_def)
    ultimately show ?thesis
      by (simp only: distinct_map [of track_name "vs @ as"] sub)
  qed
  have pay: "length (frame_payloads np n t) = n \<and> metadata_covers n t" if "t \<in> set (vs @ as)" for t
  proof -
    have "hd (np_shape np (td_data t)) = n" if "t \<in> set vs" "ndim np (td_data t) = 4"
      using sizes(2) that by (auto simp: batched_sizes_def vs_def)
    moreover have "t \<in> set (map snd b)" using that unfolding sub .
    ultimately show ?thesis
      using that assms(5) split_law [of "if ndim np (td_data t) = 1 then np_row np (td_data t) else td_data t"]
      by (auto simp: frame_payloads_def video_split_def vs_def as_def get_tracks_by_kind_def
          get_tracks_def list_all_iff)
  qed
  have "audio_split np n t = Inr (frame_payloads np n t)" if "t \<in> set as" for t
    using that split_law [of "if ndim np (td_data t) = 1 then np_row np (td_data t) else td_data t"]
    by (auto simp: audio_split_def frame_payloads_def as_def get_tracks_by_kind_def Let_def)
  then have audio: "seq_results (map (\<lambda>t. map_sum id (Pair (track_name t)) (audio_split np n t)) as)
      = Inr (map (\<lambda>t. (track_name t, frame_payloads np n t)) as)"
    by (intro seq_results_cong_Inr) simp
  have video: "map (\<lambda>t. (track_name t, video_split np n t)) vs
      = map (\<lambda>t. (track_name t, frame_payloads np n t)) vs"
    by (auto simp: frame_payloads_def vs_def get_tracks_by_kind_def)
  have byname: "dict_of (map (\<lambda>t. (track_name t, t)) (get_tracks b)) = b"
    using assms(1) well_keyed_entries [OF assms(1)] by (simp add: get_tracks_def well_keyed_def dict_of_distinct)
  have frames: "seq_results (map (split_frame b (map (\<lambda>t. (track_name t, frame_payloads np n t)) (vs @ as))) [0..<n])
      = Inr (map (\<lambda>i. map (\<lambda>t. (track_name t, nth_frame np n i t)) (vs @ as)) [0..<n])"
    using sub dist pay assms(1) by (intro seq_results_cong_Inr split_frame_nth) auto
  have dicts: "dict_of (map (\<lambda>t. (track_name t, video_split np n t)) vs)
        = map (\<lambda>t. (track_name t, frame_payloads np n t)) vs"
      "dict_of (map (\<lambda>t. (track_name t, frame_payloads np n t)) as)
        = map (\<lambda>t. (track_name t, frame_payloads np n t)) as"
    unfolding video using dist by (simp_all add: dict_of_distinct comp_def)
  have "vs \<noteq> []"
    using assms(3) by (auto simp: vs_def batched_sizes_def)
  moreover have "list_all (\<lambda>size. size = n) (batched_sizes np b)"
    using sizes(2) by (simp add: list_all_iff)
  ultimately have res: "split_batch np b =
      Inr (map (\<lambda>i. map (\<lambda>t. (track_name t, nth_frame np n i t)) (vs @ as)) [0..<n])"
    unfolding split_batch_def vs_def [symmetric] as_def [symmetric] Let_def sizes(1)
    by (simp only: assms(3,4,5) audio dicts byname frames [unfolded map_append] map_append
        if_False if_True not_True_eq_False sum.case simp_thms)
  have "get_track (map (\<lambda>t. (track_name t, nth_frame np n i t)) (vs @ as)) k = Some (nth_frame np n i t)"
    if "get_track b k = Some t" for i k t
  proof -
    have "(k, t) \<in> set b" using that by (simp add: get_track_def map_of_SomeD)
    then have "t \<in> set (map snd b)" "k = track_name t"
      using assms(1) by (auto simp: well_keyed_def list_all_iff image_iff intro: rev_bexI)
    then have "t \<in> set (vs @ as)" "k = track_name t"
      unfolding sub by simp_all
    then show ?thesis
      unfolding get_track_def using dist by (intro map_of_is_SomeI) (auto simp: comp_def)
  qed
  with res show ?thesis by simp
qed

text \<open>
  A concrete NumPy for the witnesses: an array is its shape and its elements in row-major order.
\<close>

definition prodl :: "nat list \<Rightarrow> nat" where
  "prodl xs = foldr (*) xs 1"

fun cut_at :: "nat list \<Rightarrow> 'x list \<Rightarrow> 'x list list" where
  "cut_at [] xs = []"
| "cut_at (k # ks) xs = take k xs # cut_at ks (drop k xs)"

definition section_sizes :: "nat \<Rightarrow> nat \<Rightarrow> nat list" where
  "section_sizes m n = replicate (m mod n) (m div n + 1) @ replicate (n - m mod n) (m div n)"

definition flat_numpy :: "(nat list \<times> int list) numpy" where
  "flat_numpy = \<lparr>np_shape = fst,
     np_index = \<lambda>a i. (tl (fst a), take (prodl (tl (fst a))) (drop (i * prodl (tl (fst a))) (snd a))),
     np_row = \<lambda>a. ([1, length (snd a)], snd a),
     np_array_split = \<lambda>a n. if n = 0 then None
        else Some (map (\<lambda>xs. ([1, length xs], xs)) (cut_at (section_sizes (length (snd a)) n) (snd a)))\<rparr>"

lemma length_cut_at [simp]: "length (cut_at ks xs) = length ks"
  by (induction ks xs rule: cut_at.induct) simp_all

lemma flat_numpy_split:
  "0 < n \<Longrightarrow> \<exists>ps. np_array_split flat_numpy a n = Some ps \<and> length ps = n"
  using mod_less_divisor [of n "length (snd a)"]
  by (simp add: flat_numpy_def section_sizes_def del: mod_less_divisor)

definition sample_track :: "string \<Rightarrow> track_kind \<Rightarrow> nat list \<Rightarrow> int list \<Rightarrow> metadata
    \<Rightarrow> (nat list \<times> int list) track_data" where
  "sample_track name kind shape xs m = \<lparr>td_info = \<lparr>ti_name = name, ti_kind = kind, ti_rate = 0,
     ti_direction = OUT, ti_buffer_seconds = None\<rparr>, td_data = (shape, xs), td_metadata = m\<rparr>"

lemma section_sizes_3_2: "section_sizes 3 2 = [2, 1]"
  by code_simp

theorem split_batch_frames_witness:
  "\<exists>bs. split_batch flat_numpy
      [(''v'', sample_track ''v'' VIDEO [2, 1, 1, 1] [5, 6] (PerFrame [[1], [2]])),
       (''a'', sample_track ''a'' AUDIO [1, 3] [7, 8, 9] NoMeta)] = Inr bs \<and>
    map_option (\<lambda>t. (snd (td_data t), td_metadata t)) (get_track (bs ! 1) ''v'') = Some ([6], OneMeta [2]) \<and>
    map_option (\<lambda>t. snd (td_data t)) (get_track (bs ! 0) ''a'') = Some [7, 8]"
  (is "\<exists>bs. split_batch _ ?b = _ \<and> _")
proof -
  have "well_keyed ?b"
    by (simp add: well_keyed_def sample_track_def)
  moreover have "frame_count flat_numpy ?b = Inr 2" "batched_sizes flat_numpy ?b \<noteq> []"
    by (simp_all add: frame_count_def batched_sizes_def get_tracks_by_kind_def sample_track_def flat_numpy_def)
  moreover have "list_all (metadata_covers 2) (get_tracks ?b)"
    by (simp add: get_tracks_def metadata_covers_def sample_track_def)
  ultimately obtain bs where "split_batch flat_numpy ?b = Inr bs"
    and nth: "\<And>i k t. i < 2 \<Longrightarrow> get_track ?b k = Some t \<Longrightarrow>
      get_track (bs ! i) k = Some (nth_frame flat_numpy 2 i t)"
    using split_batch_frames [of ?b flat_numpy 2] flat_numpy_split [of 2] by auto
  moreover have "get_track ?b ''v'' = Some (sample_track ''v'' VIDEO [2, 1, 1, 1] [5, 6] (PerFrame [[1], [2]]))"
    "get_track ?b ''a'' = Some (sample_track ''a'' AUDIO [1, 3] [7, 8, 9] NoMeta)"
    by (simp_all add: get_track_def)
  moreover have "snd (td_data (nth_frame flat_numpy 2 1 (sample_track ''v'' VIDEO [2, 1, 1, 1] [5, 6] (PerFrame [[1], [2]])))) = [6]"
    "td_metadata (nth_frame flat_numpy 2 1 (sample_track ''v'' VIDEO [2, 1, 1, 1] [5, 6] (PerFrame [[1], [2]]))) = OneMeta [2]"
    "snd (td_data (nth_frame flat_numpy 2 0 (sample_track ''a'' AUDIO [1, 3] [7, 8, 9] NoMeta))) = [7, 8]"
    by (simp_all add: nth_frame_def frame_payloads_def video_split_def nth_metadata_def sample_track_def
        flat_numpy_def prodl_def section_sizes_3_2 [unfolded numeral_3_eq_3] upt_rec_numeral)
  ultimately show ?thesis
    by (intro exI [of _ bs]) simp
qed

text \<open>
  A disagreement on the batch size is not always an error: when the first batched video
  holds one frame, \<open>split_batch\<close> squeezes every batched video to its first picture and never
  compares the sizes, so a second video of \<open>k\<close> frames silently loses all but one, although
  \<open>frame_count\<close> rejects the same bundle.
\<close>

theorem split_batch_misses_disagreement:
  assumes "np_shape np (td_data t1) = [1, h, w, c]" and "np_shape np (td_data t2) = [k, h', w', c']"
    and "ti_kind (td_info t1) = VIDEO" and "ti_kind (td_info t2) = VIDEO"
    and "td_metadata t1 = NoMeta" and "td_metadata t2 = NoMeta" and "k \<noteq> 1"
  shows "frame_count np [(n1, t1), (n2, t2)] = Inl ValueError \<and>
    split_batch np [(n1, t1), (n2, t2)] =
      Inr [[(n1, t1\<lparr>td_data := np_index np (td_data t1) 0\<rparr>),
            (n2, t2\<lparr>td_data := np_index np (td_data t2) 0\<rparr>)]]"
  using assms
  by (simp add: frame_count_def split_batch_def batched_sizes_def get_tracks_by_kind_def get_tracks_def
      metadata_covers_def squeeze_track_def frame_metadata_def)

theorem split_batch_misses_disagreement_witness:
  "frame_count flat_numpy [(''p'', sample_track ''p'' VIDEO [1, 1, 1, 1] [5] NoMeta),
     (''q'', sample_track ''q'' VIDEO [3, 1, 1, 1] [6, 7, 8] NoMeta)] = Inl ValueError \<and>
   \<not> isl (split_batch flat_numpy [(''p'', sample_track ''p'' VIDEO [1, 1, 1, 1] [5] NoMeta),
     (''q'', sample_track ''q'' VIDEO [3, 1, 1, 1] [6, 7, 8] NoMeta)])"
  using split_batch_misses_disagreement
    [of flat_numpy "sample_track ''p'' VIDEO [1, 1, 1, 1] [5] NoMeta" 1 1 1
        "sample_track ''q'' VIDEO [3, 1, 1, 1] [6, 7, 8] NoMeta" 3 1 1 1 "''p''" "''q''"]
  by (simp add: flat_numpy_def sample_track_def)

text \<open>
  The roll-up keeps the worst status: the aggregate is healthy exactly when every part is,
  and a healthy aggregate carries no detail.
\<close>

lemma aggregate_loop_worst:
  "fst (aggregate_loop parts acc) =
     (if UNHEALTHY \<in> hl_status ` set parts then UNHEALTHY else fst acc)"
  by (induction parts acc rule: aggregate_loop.induct) auto

lemma aggregate_loop_healthy:
  "UNHEALTHY \<notin> hl_status ` set parts \<Longrightarrow> aggregate_loop parts acc = acc"
  by (induction parts acc rule: aggregate_loop.induct) auto

theorem aggregate_keeps_worst:
  "(hl_status (aggregate parts) = HEALTHY \<longleftrightarrow> (\<forall>p. p \<in> set parts \<longrightarrow> hl_status p = HEALTHY)) \<and>
   (hl_status (aggregate parts) = HEALTHY \<longrightarrow> hl_detail (aggregate parts) = None)"
proof (cases "UNHEALTHY \<in> hl_status ` set parts")
  case True
  then have "hl_status (aggregate parts) = UNHEALTHY"
    using aggregate_loop_worst [of parts "(HEALTHY, [])"] by (simp add: aggregate_def split_beta Let_def)
  with True show ?thesis by auto
next
  case False
  then have "aggregate parts = \<lparr>hl_status = HEALTHY, hl_detail = None\<rparr>"
    by (simp add: aggregate_def aggregate_loop_healthy)
  with False show ?thesis by (auto simp: image_iff) (metis health_status.exhaust)
qed

theorem aggregate_keeps_worst_witness:
  "hl_status (aggregate [\<lparr>hl_status = HEALTHY, hl_detail = None\<rparr>,
     \<lparr>hl_status = UNHEALTHY, hl_detail = Some ''loading''\<rparr>]) = UNHEALTHY"
  (is "hl_status (aggregate ?parts) = _")
proof (cases "hl_status (aggregate ?parts)")
  case HEALTHY
  with aggregate_keeps_worst [of ?parts] show ?thesis by simp
qed

end
