(* ===== verification/ChunkEncoder.thy ===== *)
theory ChunkEncoder
  imports Prelude
begin

text \<open>
  The encoder of a recording (\<^verbatim>\<open>recording/chunk_encoder.py\<close>). The container and its
  streams belong to libav, which is not part of the repository: what it answers to one
  feed is the argument \<open>av\<close> of the feed. What the class keeps is modelled: whether the
  output is open, failed or stopped, and the next grid position of each stream.
\<close>

section \<open>Rounding\<close>

text \<open>Python's \<open>round\<close>: to the nearest integer, a tie to the even one.\<close>

definition py_round :: "real \<Rightarrow> int" where
  "py_round x =
     (let f = \<lfloor>x\<rfloor>; d = x - of_int f in
      if d < 1 / 2 then f else if d > 1 / 2 then f + 1 else if even f then f else f + 1)"

lemma py_round_error: "\<bar>of_int (py_round x) - x\<bar> \<le> 1 / 2"
  unfolding py_round_def Let_def using floor_correct [of x]
  by (auto simp: abs_le_iff split: if_split)

lemma py_round_of_int [simp]: "py_round (of_int n) = n"
  by (simp add: py_round_def)

lemma py_round_nonneg: "0 \<le> x \<Longrightarrow> 0 \<le> py_round x"
  by (simp add: py_round_def Let_def)

lemma py_round_mono_int: "x \<le> of_int n \<Longrightarrow> py_round x \<le> n"
  using py_round_error [of x] by linarith

definition recording_fps :: nat where
  "recording_fps = 30"

text \<open>One grid slot of audio at a sample rate.\<close>

definition samples_per_frame :: "nat \<Rightarrow> nat \<Rightarrow> nat" where
  "samples_per_frame rate fps = nat (py_round (real rate / real fps))"

lemma samples_per_frame_exact:
  assumes "fps dvd rate" "0 < fps"
  shows "samples_per_frame rate fps * fps = rate"
proof -
  obtain k where k: "rate = fps * k"
    using assms(1) by (rule dvdE)
  then have "real rate / real fps = of_int (int k)"
    using assms(2) by simp
  then have "samples_per_frame rate fps = k"
    unfolding samples_per_frame_def by (simp only: py_round_of_int nat_int)
  with k show ?thesis
    by simp
qed

section \<open>State and feeds\<close>

record encoder =
  en_has_audio :: bool
  en_rate :: nat
  en_fps :: nat
  en_open :: bool
  en_failed :: bool
  en_stopped :: bool
  en_video_pts :: nat
  en_audio_pts :: nat

definition new_encoder :: "bool \<Rightarrow> nat \<Rightarrow> encoder" where
  "new_encoder has_audio rate =
     \<lparr>en_has_audio = has_audio, en_rate = rate, en_fps = recording_fps, en_open = False,
      en_failed = False, en_stopped = False, en_video_pts = 0, en_audio_pts = 0\<rparr>"

datatype encoder_error = BadShape | EncoderStopped | FailedState | OpenRefused | Rejected

text \<open>What libav does with one feed: accept it, refuse to open, or raise while writing.\<close>

datatype av_answer = AvOk | AvNoOpen | AvNoVideo | AvNoAudio

definition write_video :: "encoder \<Rightarrow> encoder" where
  "write_video e = e\<lparr>en_video_pts := en_video_pts e + 1\<rparr>"

definition write_audio :: "nat \<Rightarrow> encoder \<Rightarrow> encoder" where
  "write_audio n e = e\<lparr>en_audio_pts := en_audio_pts e + n\<rparr>"

definition samples_per_slot :: "encoder \<Rightarrow> nat" where
  "samples_per_slot e = samples_per_frame (en_rate e) (en_fps e)"

text \<open>The positions advance before the frame is muxed, so a rejected one counts as well.\<close>

definition feed_video :: "av_answer \<Rightarrow> nat list \<Rightarrow> encoder \<Rightarrow> encoder_error option \<times> encoder" where
  "feed_video av shape e =
     (if length shape \<noteq> 3 \<or> shape ! 2 \<noteq> 3 then (Some BadShape, e)
      else if en_stopped e then (Some EncoderStopped, e)
      else if en_failed e then (Some FailedState, e)
      else if \<not> en_open e \<and> av = AvNoOpen then (Some OpenRefused, e)
      else let e = write_video (e\<lparr>en_open := True\<rparr>) in
        if av = AvNoVideo then (Some Rejected, e\<lparr>en_failed := True\<rparr>)
        else if en_has_audio e then (None, e)
        else let e = write_audio (samples_per_slot e) e in
          if av = AvNoAudio then (Some Rejected, e\<lparr>en_failed := True\<rparr>) else (None, e))"

definition feed_audio :: "av_answer \<Rightarrow> nat \<Rightarrow> encoder \<Rightarrow> encoder_error option \<times> encoder" where
  "feed_audio av n e =
     (if \<not> en_has_audio e \<or> \<not> en_open e then (None, e)
      else if en_failed e then (Some FailedState, e)
      else let e = write_audio n e in
        if av = AvNoAudio then (Some Rejected, e\<lparr>en_failed := True\<rparr>) else (None, e))"

text \<open>
  \<open>stop\<close>: \<open>stuck\<close> is a feed that still holds the lock at the deadline, \<open>closes\<close> whether
  libav closes the container. The answer is whether the output is closed.
\<close>

definition stop_encoder :: "bool \<Rightarrow> bool \<Rightarrow> encoder \<Rightarrow> bool \<times> encoder" where
  "stop_encoder stuck closes e =
     (if stuck then (False, e\<lparr>en_stopped := True\<rparr>)
      else (\<not> en_open e \<or> closes, e\<lparr>en_stopped := True, en_open := False\<rparr>))"

section \<open>The two timelines\<close>

text \<open>
  A grid slot: one frame and, for a recording with audio, its samples. The worker
  stops at the first error.
\<close>

definition feed_slot :: "av_answer \<Rightarrow> nat list \<Rightarrow> nat \<Rightarrow> encoder \<Rightarrow> encoder_error option \<times> encoder" where
  "feed_slot av shape n e =
     (case feed_video av shape e of
        (Some r, e) \<Rightarrow> (Some r, e)
      | (None, e) \<Rightarrow> feed_audio av n e)"

definition locked :: "encoder \<Rightarrow> bool" where
  "locked e \<longleftrightarrow> en_audio_pts e = en_video_pts e * samples_per_slot e"

lemma feed_slot_config:
  "feed_slot av shape n e = (r, e') \<Longrightarrow>
     en_has_audio e' = en_has_audio e \<and> en_rate e' = en_rate e \<and> en_fps e' = en_fps e"
  by (auto simp: feed_slot_def feed_video_def feed_audio_def write_video_def write_audio_def Let_def
      split: if_splits prod.splits option.splits)

lemma feed_slot_locked:
  assumes "locked e" and "n = samples_per_slot e" and "feed_slot av shape n e = (None, e')"
  shows "locked e' \<and> en_video_pts e' = en_video_pts e + 1"
  using assms
  by (auto simp: feed_slot_def feed_video_def feed_audio_def write_video_def write_audio_def Let_def
      locked_def samples_per_slot_def split: if_splits prod.splits option.splits)

text \<open>Slots fed one after the other; \<open>None\<close> once one of them fails.\<close>

fun feed_slots :: "(av_answer \<times> nat list) list \<Rightarrow> encoder \<Rightarrow> encoder option" where
  "feed_slots [] e = Some e"
| "feed_slots ((av, shape) # xs) e =
     (case feed_slot av shape (samples_per_slot e) e of
        (None, e') \<Rightarrow> feed_slots xs e'
      | (Some r, e') \<Rightarrow> None)"

lemma feed_slots_locked:
  "locked e \<Longrightarrow> feed_slots xs e = Some e' \<Longrightarrow>
     locked e' \<and> en_video_pts e' = en_video_pts e + length xs \<and> samples_per_slot e' = samples_per_slot e"
proof (induction xs arbitrary: e)
  case (Cons x xs)
  obtain av shape where x: "x = (av, shape)"
    by (cases x)
  with Cons.prems obtain e1 where e1: "feed_slot av shape (samples_per_slot e) e = (None, e1)"
    and rest: "feed_slots xs e1 = Some e'"
    by (auto split: prod.splits option.splits)
  have "samples_per_slot e1 = samples_per_slot e"
    using feed_slot_config [OF e1] by (simp add: samples_per_slot_def)
  then show ?case
    using Cons.IH [OF _ rest] feed_slot_locked [OF Cons.prems(1) refl e1] by simp
qed simp

lemma new_encoder_locked: "locked (new_encoder has_audio rate)"
  by (simp add: locked_def new_encoder_def)

text \<open>
  The audio and the video of a recording stay locked, whatever the model emits: after
  any number of grid slots fed without error, with or without an audio track, the video
  stands at one frame per slot and the audio at one slot of samples per frame; and when
  the sample rate is a multiple of the grid rate the two positions are the same instant.
\<close>

theorem timelines_locked:
  assumes "feed_slots xs (new_encoder has_audio rate) = Some e"
  shows "en_video_pts e = length xs
    \<and> en_audio_pts e = length xs * samples_per_frame rate recording_fps
    \<and> (recording_fps dvd rate \<longrightarrow> en_audio_pts e * recording_fps = en_video_pts e * rate)"
proof -
  have slot: "samples_per_slot (new_encoder has_audio rate) = samples_per_frame rate recording_fps"
    by (simp add: samples_per_slot_def new_encoder_def)
  from feed_slots_locked [OF new_encoder_locked assms] slot
  have v: "en_video_pts e = length xs"
    and a: "en_audio_pts e = length xs * samples_per_frame rate recording_fps"
    by (simp_all add: locked_def new_encoder_def)
  show ?thesis
    using v a samples_per_frame_exact [of recording_fps rate] by (simp add: recording_fps_def mult.assoc)
qed

theorem timelines_locked_witness:
  "\<exists>e. feed_slots [(AvOk, [2, 2, 3]), (AvOk, [4, 4, 3])] (new_encoder False 48000) = Some e
     \<and> en_audio_pts e = 3200 \<and> en_video_pts e = 2"
proof -
  let ?xs = "[(AvOk, [2, 2, 3]), (AvOk, [4, 4, 3 :: nat])]"
  have "\<exists>e. feed_slots ?xs (new_encoder False 48000) = Some e"
    by (simp add: feed_slot_def feed_video_def feed_audio_def Let_def write_video_def write_audio_def
        new_encoder_def)
  then obtain e where e: "feed_slots ?xs (new_encoder False 48000) = Some e"
    by blast
  from e timelines_locked [OF e] show ?thesis
    by (simp add: recording_fps_def)
qed

text \<open>
  At a rate that is not a multiple of the grid rate the slot is rounded, and the audio
  falls behind the video it belongs to: at 16 kHz by ten samples in every second.
\<close>

lemma sixteen_khz_slot: "samples_per_frame 16000 recording_fps = 533"
proof -
  have "\<lfloor>1600 / 3 :: real\<rfloor> = 533"
    by (rule floor_unique) simp_all
  then show ?thesis
    by (simp add: samples_per_frame_def py_round_def recording_fps_def Let_def)
qed

lemma sixteen_khz_drift:
  "feed_slots xs (new_encoder has_audio 16000) = Some e \<Longrightarrow>
     en_video_pts e * 16000 = en_audio_pts e * 30 + 10 * length xs"
  using feed_slots_locked [OF new_encoder_locked, of xs has_audio 16000 e]
  by (simp add: locked_def new_encoder_def samples_per_slot_def sixteen_khz_slot)

end
