(* ===== verification/RecorderFeed.thy ===== *)
theory RecorderFeed
  imports Values ChunkEncoder
begin

text \<open>
  The media path of the recorder (\<^verbatim>\<open>recording/recorder.py\<close>): a chunk handed over by the
  model thread is resampled onto the fixed recording grid, each grid frame is paired
  with its slot of audio from the jitter buffer and queued under a bound, and the feed
  worker writes the queue into the encoder.

  The model thread and the worker run at the same time. A schedule says, for every grid
  frame of an emission, which worker iterations (and whether the stop signal) fall
  before the producer looks for room and which fall while it waits for it; a wait that
  runs out of events has reached its deadline. The theorems hold for every schedule.
  The worker takes a frame off the queue and writes it in two iterations, so that anything may come
  between them. The floating-point operations of the grid debt and of the media clock are exact
  operations followed by a rounding \<open>fl\<close>, an argument; what a property needs of it is the error
  bound of IEEE arithmetic (\<open>rounds\<close>). \<open>rc_written\<close> and \<open>rc_offered\<close> are history
  variables: what reached the encoder and what was ever queued, in order.
\<close>

definition feed_depth :: nat where
  "feed_depth = 4"

definition audio_backlog_frames :: nat where
  "audio_backlog_frames = 2"

section \<open>The audio jitter buffer\<close>

text \<open>The trimming loop of \<open>_buffer_audio\<close>; \<open>n\<close> is the buffered sample count.\<close>

fun trim_audio :: "nat \<Rightarrow> int list list \<Rightarrow> nat \<Rightarrow> int list list \<times> nat" where
  "trim_audio cap [] n = ([], n)"
| "trim_audio cap (head # buf) n =
     (if n \<le> cap then (head # buf, n)
      else let excess = n - cap in
        if length head \<le> excess then trim_audio cap buf (n - length head)
        else (drop excess head # buf, n - excess))"

definition buffer_audio :: "nat \<Rightarrow> int list \<Rightarrow> int list list \<Rightarrow> nat \<Rightarrow> int list list \<times> nat" where
  "buffer_audio rate flat buf n =
     (if flat = [] then (buf, n)
      else let slack = audio_backlog_frames * samples_per_frame rate recording_fps in
        trim_audio (length flat + slack) (buf @ [flat]) (n + length flat))"

text \<open>The filling loop of \<open>_take_audio\<close>: what it copied, and the buffer it leaves.\<close>

fun fill_audio :: "nat \<Rightarrow> int list list \<Rightarrow> nat \<Rightarrow> int list \<times> int list list \<times> nat" where
  "fill_audio need [] n = ([], [], n)"
| "fill_audio need (head # buf) n =
     (if need = 0 then ([], head # buf, n)
      else let take_n = min (length head) need in
        if take_n = length head then
          (case fill_audio (need - take_n) buf (n - take_n) of
             (out, buf', n') \<Rightarrow> (head @ out, buf', n'))
        else (take take_n head, drop take_n head # buf, n - take_n))"

definition take_audio :: "nat \<Rightarrow> int list list \<Rightarrow> nat \<Rightarrow> int list option \<times> int list list \<times> nat" where
  "take_audio target buf n =
     (if target = 0 then (None, buf, n)
      else case fill_audio target buf n of
        (out, buf', n') \<Rightarrow> (Some (out @ replicate (target - length out) 0), buf', n'))"

abbreviation counted :: "int list list \<Rightarrow> nat \<Rightarrow> bool" where
  "counted buf n \<equiv> n = length (concat buf)"

lemma trim_audio_spec:
  "counted buf n \<Longrightarrow> trim_audio cap buf n = (buf', n') \<Longrightarrow>
     concat buf' = last_n cap (concat buf) \<and> counted buf' n'"
proof (induction cap buf n rule: trim_audio.induct)
  case (2 cap head buf n)
  show ?case
  proof (cases "n \<le> cap")
    case True
    then show ?thesis
      using 2 by (auto simp: last_n_def)
  next
    case False
    define excess where "excess = n - cap"
    show ?thesis
    proof (cases "length head \<le> excess")
      case True
      have "trim_audio cap buf (n - length head) = (buf', n')"
        using 2 False True by (simp add: Let_def excess_def)
      with 2 False True have "concat buf' = last_n cap (concat buf) \<and> counted buf' n'"
        by (simp add: Let_def excess_def)
      moreover have "last_n cap (head @ concat buf) = last_n cap (concat buf)"
        using True 2(2) by (auto simp: last_n_def excess_def)
      ultimately show ?thesis
        by simp
    next
      case False
      then show ?thesis
        using 2 \<open>\<not> n \<le> cap\<close> by (auto simp: Let_def excess_def last_n_def)
    qed
  qed
qed (simp add: last_n_def)

lemma fill_audio_spec:
  "counted buf n \<Longrightarrow> fill_audio need buf n = (out, buf', n') \<Longrightarrow>
     out = take need (concat buf) \<and> concat buf' = drop need (concat buf) \<and> counted buf' n'"
proof (induction need buf n arbitrary: out buf' n' rule: fill_audio.induct)
  case (2 need head buf n)
  show ?case
  proof (cases "need = 0")
    case False
    show ?thesis
    proof (cases "length head \<le> need")
      case True
      then obtain out1 where rest: "fill_audio (need - length head) buf (n - length head) = (out1, buf', n')"
        and out: "out = head @ out1"
        using 2(3) False by (auto simp: Let_def min_def split: prod.splits)
      have "out1 = take (need - length head) (concat buf) \<and> concat buf' = drop (need - length head) (concat buf)
          \<and> counted buf' n'"
        using 2(1) [OF False _ _ _ rest] 2(2) True by (simp add: min_def)
      then show ?thesis
        using out True by simp
    next
      case more: False
      then have "min (length head) need = need" "need \<noteq> length head"
        by auto
      then show ?thesis
        using 2(2,3) False more by (auto simp: Let_def)
    qed
  qed (use 2 in auto)
qed simp

section \<open>State\<close>

record rec_config =
  rcf_enabled :: bool
  rcf_chunk_seconds :: int
  rcf_clip_max_seconds :: int
  rcf_video_track :: "string option"
  rcf_audio_track :: "string option"

type_synonym 'a feed_item = "'a \<times> int list option"

text \<open>
  A queue entry is a grid frame with its audio, or the stop sentinel \<open>None\<close>. \<open>rc_hand\<close> is the
  worker's \<open>item\<close> between its \<open>get\<close> and its write.
\<close>

record 'a recorder =
  rc_started :: bool
  rc_disabled :: bool
  rc_feed_stop :: bool
  rc_worker :: bool
  rc_encoder :: "encoder option"
  rc_video_track :: "string option"
  rc_audio_track :: "string option"
  rc_rate :: nat
  rc_has_audio :: bool
  rc_queue :: "'a feed_item option list"
  rc_hand :: "'a feed_item option"
  rc_debt :: real
  rc_buf :: "int list list"
  rc_buffered :: nat
  rc_dropped :: nat
  rc_media :: real
  rc_media_started :: bool
  rc_written :: "'a feed_item list"
  rc_offered :: "'a feed_item list"

definition encoder_failed :: "'a recorder \<Rightarrow> bool" where
  "encoder_failed r = (case rc_encoder r of Some e \<Rightarrow> en_failed e | None \<Rightarrow> False)"

definition disabled :: "'a recorder \<Rightarrow> bool" where
  "disabled r \<longleftrightarrow> rc_disabled r \<or> \<not> rc_started r \<or> encoder_failed r"

text \<open>\<open>start\<close>, as far as the media path goes: a reset state with a running worker.\<close>

definition start_feed :: "'a recorder" where
  "start_feed =
     \<lparr>rc_started = True, rc_disabled = False, rc_feed_stop = False, rc_worker = True, rc_encoder = None,
      rc_video_track = None, rc_audio_track = None, rc_rate = 48000, rc_has_audio = False, rc_queue = [], rc_hand = None,
      rc_debt = 0, rc_buf = [], rc_buffered = 0, rc_dropped = 0, rc_media = 0, rc_media_started = False,
      rc_written = [], rc_offered = []\<rparr>"

section \<open>Building the encoder\<close>

definition video_track_name :: "rec_config \<Rightarrow> 'a media_bundle \<Rightarrow> string option" where
  "video_track_name cfg b =
     (case Option.bind (rcf_video_track cfg) (get_track b) of
        Some t \<Rightarrow> rcf_video_track cfg
      | None \<Rightarrow>
          (case get_tracks_by_kind b VIDEO of
             [] \<Rightarrow> None
           | t # ts \<Rightarrow> Some (ti_name (td_info t))))"

definition audio_track_of :: "rec_config \<Rightarrow> 'a media_bundle \<Rightarrow> string option \<times> 'a track_data option" where
  "audio_track_of cfg b =
     (case rcf_audio_track cfg of
        Some n \<Rightarrow> (Some n, get_track b n)
      | None \<Rightarrow>
          (case get_tracks_by_kind b AUDIO of
             [] \<Rightarrow> (None, None)
           | t # ts \<Rightarrow> (Some (ti_name (td_info t)), Some t)))"

definition build_encoder :: "rec_config \<Rightarrow> 'a media_bundle \<Rightarrow> 'a recorder \<Rightarrow> 'a recorder" where
  "build_encoder cfg b r =
     (case video_track_name cfg b of
        None \<Rightarrow> r\<lparr>rc_disabled := True\<rparr>
      | Some v \<Rightarrow>
          (let (name, td) = audio_track_of cfg b;
               has = (name \<noteq> None \<and> td \<noteq> None);
               rate = (case td of
                         Some t \<Rightarrow> if has \<and> ti_rate (td_info t) > 0 then nat \<lfloor>ti_rate (td_info t)\<rfloor> else rc_rate r
                       | None \<Rightarrow> rc_rate r)
           in r\<lparr>rc_video_track := Some v, rc_audio_track := name, rc_has_audio := has, rc_rate := rate,
                rc_encoder := Some (new_encoder has rate)\<rparr>))"

definition video_frames :: "'a numpy \<Rightarrow> 'a media_bundle \<Rightarrow> 'a recorder \<Rightarrow> 'a list" where
  "video_frames np b r =
     (case (case Option.bind (rc_video_track r) (get_track b) of
              Some t \<Rightarrow> Some t
            | None \<Rightarrow> (case get_tracks_by_kind b VIDEO of [] \<Rightarrow> None | t # ts \<Rightarrow> Some t)) of
        None \<Rightarrow> []
      | Some t \<Rightarrow>
          if ndim np (td_data t) = 4
          then map (np_index np (td_data t)) [0..<hd (np_shape np (td_data t))]
          else [td_data t])"

section \<open>The feed worker\<close>

definition drain_queue :: "'a recorder \<Rightarrow> 'a recorder" where
  "drain_queue r = r\<lparr>rc_queue := []\<rparr>"

text \<open>One item written: the frame and, when the recording has audio, its samples.\<close>

definition write_item ::
  "'a numpy \<Rightarrow> av_answer \<Rightarrow> bool \<Rightarrow> 'a feed_item \<Rightarrow> encoder \<Rightarrow> encoder_error option \<times> encoder"
where
  "write_item np av has_audio item e =
     (case feed_video av (np_shape np (fst item)) e of
        (Some x, e) \<Rightarrow> (Some x, e)
      | (None, e) \<Rightarrow>
          (case snd item of
             Some samples \<Rightarrow> if has_audio then feed_audio av (length samples) e else (None, e)
           | None \<Rightarrow> (None, e)))"

text \<open>
  The worker's two handlers: a closed encoder is teardown, anything else disables the
  recording; both discard the queue and end the worker.
\<close>

definition feed_failed :: "encoder_error \<Rightarrow> 'a recorder \<Rightarrow> 'a recorder" where
  "feed_failed x r =
     drain_queue (r\<lparr>rc_disabled := (rc_disabled r \<or> x \<noteq> EncoderStopped), rc_worker := False\<rparr>)"

text \<open>
  The halves of an iteration of \<open>_feed_loop\<close>: the item is taken off the queue, which makes room, and
  then written; \<open>av\<close> is what libav answers, should it be asked.
\<close>

definition feed_step :: "'a numpy \<Rightarrow> av_answer \<Rightarrow> 'a recorder \<Rightarrow> 'a recorder" where
  "feed_step np av r =
     (if \<not> rc_worker r then r
      else case rc_hand r of
        Some item \<Rightarrow>
          (case rc_encoder r of
             None \<Rightarrow> r\<lparr>rc_hand := None\<rparr>
           | Some e \<Rightarrow>
               (case write_item np av (rc_has_audio r) item e of
                  (None, e') \<Rightarrow>
                    r\<lparr>rc_hand := None, rc_encoder := Some e', rc_written := rc_written r @ [item]\<rparr>
                | (Some x, e') \<Rightarrow> feed_failed x (r\<lparr>rc_hand := None, rc_encoder := Some e'\<rparr>)))
      | None \<Rightarrow>
          (case rc_queue r of
             [] \<Rightarrow> if rc_feed_stop r then r\<lparr>rc_worker := False\<rparr> else r
           | None # q \<Rightarrow> r\<lparr>rc_queue := q, rc_worker := False\<rparr>
           | Some item # q \<Rightarrow> r\<lparr>rc_queue := q, rc_hand := Some item\<rparr>))"

text \<open>The first half of \<open>stop\<close>: latch, then queue the sentinel behind every frame.\<close>

definition signal_stop :: "'a recorder \<Rightarrow> 'a recorder" where
  "signal_stop r =
     (if \<not> rc_started r then r
      else r\<lparr>rc_disabled := True, rc_feed_stop := True, rc_queue := rc_queue r @ [None]\<rparr>)"

text \<open>
  The second half: once the worker has ended or the drain deadline has passed, whichever comes
  first, the encoder is closed. Which of the two is not fixed: the step may come at any time after
  the first half, also while frames are queued. \<open>stuck\<close> and \<open>closes\<close> are as for \<open>stop_encoder\<close>.
\<close>

definition close_recording :: "bool \<Rightarrow> bool \<Rightarrow> 'a recorder \<Rightarrow> 'a recorder" where
  "close_recording stuck closes r =
     (if \<not> (rc_started r \<and> rc_feed_stop r) then r
      else r\<lparr>rc_started := False, rc_encoder := map_option (\<lambda>e. snd (stop_encoder stuck closes e)) (rc_encoder r)\<rparr>)"

datatype feed_event = Worker av_answer | Stopping | Closing bool bool

fun apply_event :: "'a numpy \<Rightarrow> 'a recorder \<Rightarrow> feed_event \<Rightarrow> 'a recorder" where
  "apply_event np r (Worker av) = feed_step np av r"
| "apply_event np r Stopping = signal_stop r"
| "apply_event np r (Closing stuck closes) = close_recording stuck closes r"

section \<open>An emission\<close>

datatype slot = TAKEN | FULL | WINDING_DOWN

fun claim_slot :: "'a numpy \<Rightarrow> nat \<Rightarrow> bool \<Rightarrow> feed_event list \<Rightarrow> 'a recorder \<Rightarrow> slot \<times> 'a recorder" where
  "claim_slot np cap wait es r =
     (if length (rc_queue r) < cap then (TAKEN, r)
      else if rc_feed_stop r \<or> rc_disabled r then (WINDING_DOWN, r)
      else if \<not> wait then (FULL, r)
      else case es of
        [] \<Rightarrow> (FULL, r)
      | e # es' \<Rightarrow> claim_slot np cap wait es' (apply_event np r e))"

declare claim_slot.simps [simp del]

text \<open>The audio of a slot and the queued pair.\<close>

definition queue_frame :: "nat \<Rightarrow> 'a \<Rightarrow> 'a recorder \<Rightarrow> 'a recorder" where
  "queue_frame target frame r =
     (case (if rc_has_audio r then take_audio target (rc_buf r) (rc_buffered r)
            else (None, rc_buf r, rc_buffered r)) of
        (audio, buf, n) \<Rightarrow>
          r\<lparr>rc_buf := buf, rc_buffered := n, rc_queue := rc_queue r @ [Some (frame, audio)],
            rc_offered := rc_offered r @ [(frame, audio)]\<rparr>)"

type_synonym schedule = "nat \<Rightarrow> feed_event list \<times> feed_event list"

text \<open>
  The loop over the grid frames of one emission: the answer that ended it and how many
  frames it queued.
\<close>

fun emit ::
  "'a numpy \<Rightarrow> (nat \<Rightarrow> 'a) \<Rightarrow> nat \<Rightarrow> nat \<Rightarrow> bool \<Rightarrow> schedule \<Rightarrow> nat list \<Rightarrow> 'a recorder
    \<Rightarrow> slot \<times> nat \<times> 'a recorder"
where
  "emit np frame target cap wait sched [] r = (TAKEN, 0, r)"
| "emit np frame target cap wait sched (i # is) r =
     (case claim_slot np cap wait (snd (sched i)) (foldl (apply_event np) r (fst (sched i))) of
        (TAKEN, r1) \<Rightarrow>
          (case emit np frame target cap wait sched is (queue_frame target (frame i) r1) of
             (out, fed, r2) \<Rightarrow> (out, Suc fed, r2))
      | (out, r1) \<Rightarrow> (out, 0, r1))"

definition advance :: "(real \<Rightarrow> real) \<Rightarrow> real \<Rightarrow> 'a recorder \<Rightarrow> 'a recorder" where
  "advance fl seconds r =
     (if seconds \<le> 0 then r else r\<lparr>rc_media := fl (rc_media r + seconds), rc_media_started := True\<rparr>)"

text \<open>
  What one emission did: the frames it was handed at which rate, the grid frames they were made
  into, how many of these it queued, and the answer that ended it.
\<close>

record emission =
  em_frames :: nat
  em_fps :: real
  em_grid :: nat
  em_fed :: nat
  em_outcome :: slot

definition grid_index :: "nat \<Rightarrow> nat \<Rightarrow> nat \<Rightarrow> nat" where
  "grid_index n grid i = i * n div grid"

definition record_frames ::
  "(real \<Rightarrow> real) \<Rightarrow> 'a numpy \<Rightarrow> schedule \<Rightarrow> real \<Rightarrow> bool \<Rightarrow> 'a list \<Rightarrow> 'a recorder \<Rightarrow> emission \<times> 'a recorder"
where
  "record_frames fl np sched fps wait frames r =
     (let owed = fl (rc_debt r + fl (fl (real (length frames) / fps) * real recording_fps));
          grid = nat \<lfloor>owed\<rfloor>;
          target = (if rc_has_audio r then samples_per_frame (rc_rate r) recording_fps else 0);
          cap = max feed_depth grid
      in case emit np (\<lambda>i. frames ! grid_index (length frames) grid i) target cap wait sched [0..<grid]
                (r\<lparr>rc_debt := fl (owed - real grid)\<rparr>) of
           (out, fed, r1) \<Rightarrow>
             (let r2 = (if out = FULL then r1\<lparr>rc_dropped := rc_dropped r1 + (grid - fed)\<rparr> else r1);
                  r3 = (if fed \<noteq> 0 then advance fl (fl (real fed / real recording_fps)) r2 else r2)
              in (\<lparr>em_frames = length frames, em_fps = fps, em_grid = grid, em_fed = fed, em_outcome = out\<rparr>, r3)))"

definition buffer_bundle :: "('a \<Rightarrow> int list) \<Rightarrow> 'a media_bundle \<Rightarrow> 'a recorder \<Rightarrow> 'a recorder" where
  "buffer_bundle samples b r =
     (case Option.bind (rc_audio_track r) (get_track b) of
        None \<Rightarrow> r
      | Some t \<Rightarrow>
          (case buffer_audio (rc_rate r) (samples (td_data t)) (rc_buf r) (rc_buffered r) of
             (buf, n) \<Rightarrow> r\<lparr>rc_buf := buf, rc_buffered := n\<rparr>))"

text \<open>\<open>samples\<close> is NumPy's flattening to 16-bit samples.\<close>

definition on_chunk ::
  "(real \<Rightarrow> real) \<Rightarrow> 'a numpy \<Rightarrow> ('a \<Rightarrow> int list) \<Rightarrow> rec_config \<Rightarrow> schedule \<Rightarrow> 'a media_chunk \<Rightarrow> 'a recorder
    \<Rightarrow> emission option \<times> 'a recorder"
where
  "on_chunk fl np samples cfg sched chunk r =
     (if disabled r then (None, r)
      else let r = (if rc_encoder r = None then build_encoder cfg (mc_bundle chunk) r else r) in
        if rc_encoder r = None then (None, r)
        else let frames = video_frames np (mc_bundle chunk) r in
          if frames = [] then (None, r)
          else let fps = (if mc_fps chunk > 0 then mc_fps chunk else real recording_fps);
                   r = (if rc_has_audio r then buffer_bundle samples (mc_bundle chunk) r else r)
               in map_prod Some id (record_frames fl np sched fps (mc_wait chunk) frames r))"

section \<open>What the worker and the producer leave alone\<close>

text \<open>The ledger of a recorder: what only an emission changes.\<close>

definition ledger :: "'a recorder \<Rightarrow> real \<times> real \<times> nat" where
  "ledger r = (rc_debt r, rc_media r, rc_dropped r)"

definition audio_state :: "'a recorder \<Rightarrow> bool \<times> nat \<times> int list list \<times> nat" where
  "audio_state r = (rc_has_audio r, rc_rate r, rc_buf r, rc_buffered r)"

lemma feed_step_keeps [simp]:
  "ledger (feed_step np av r) = ledger r"
  "audio_state (feed_step np av r) = audio_state r"
  "rc_offered (feed_step np av r) = rc_offered r"
  by (simp_all add: feed_step_def feed_failed_def drain_queue_def ledger_def audio_state_def
      split: option.split list.split prod.split)

lemma signal_stop_keeps [simp]:
  "ledger (signal_stop r) = ledger r"
  "audio_state (signal_stop r) = audio_state r"
  "rc_offered (signal_stop r) = rc_offered r"
  by (simp_all add: signal_stop_def ledger_def audio_state_def)

lemma close_recording_keeps [simp]:
  "ledger (close_recording stuck closes r) = ledger r"
  "audio_state (close_recording stuck closes r) = audio_state r"
  "rc_offered (close_recording stuck closes r) = rc_offered r"
  by (simp_all add: close_recording_def ledger_def audio_state_def)

lemma apply_event_keeps [simp]:
  "ledger (apply_event np r e) = ledger r"
  "audio_state (apply_event np r e) = audio_state r"
  "rc_offered (apply_event np r e) = rc_offered r"
  by (cases e; simp)+

lemma events_keep [simp]:
  "ledger (foldl (apply_event np) r es) = ledger r"
  "audio_state (foldl (apply_event np) r es) = audio_state r"
  "rc_offered (foldl (apply_event np) r es) = rc_offered r"
  by (induction es arbitrary: r) simp_all

lemma claim_slot_events:
  "\<exists>k. snd (claim_slot np cap wait es r) = foldl (apply_event np) r (take k es)"
proof (induction np cap wait es r rule: claim_slot.induct)
  case (1 np cap wait es r)
  show ?case
  proof (cases "length (rc_queue r) < cap \<or> rc_feed_stop r \<or> rc_disabled r \<or> \<not> wait \<or> es = []")
    case True
    then have "snd (claim_slot np cap wait es r) = foldl (apply_event np) r (take 0 es)"
      by (auto simp: claim_slot.simps [of np cap wait es r])
    then show ?thesis ..
  next
    case False
    then obtain e es' where es: "es = e # es'"
      by (cases es) auto
    with 1 False obtain k where
      "snd (claim_slot np cap wait es' (apply_event np r e)) = foldl (apply_event np) (apply_event np r e) (take k es')"
      by auto
    then have "snd (claim_slot np cap wait es r) = foldl (apply_event np) r (take (Suc k) es)"
      using False unfolding es by (subst claim_slot.simps) simp
    then show ?thesis ..
  qed
qed

lemma claim_slot_keeps:
  assumes "claim_slot np cap wait es r = (out, r')"
  shows "ledger r' = ledger r" "audio_state r' = audio_state r" "rc_offered r' = rc_offered r"
proof -
  obtain k where "r' = foldl (apply_event np) r (take k es)"
    using claim_slot_events [of np cap wait es r] assms by auto
  then show "ledger r' = ledger r" "audio_state r' = audio_state r" "rc_offered r' = rc_offered r"
    by simp_all
qed

lemma queue_frame_ledger [simp]:
  "ledger (queue_frame target f r) = ledger r"
  "length (rc_offered (queue_frame target f r)) = Suc (length (rc_offered r))"
  by (simp_all add: queue_frame_def ledger_def split: prod.splits)

lemma claim_slot_taken:
  "claim_slot np cap wait es r = (TAKEN, r') \<Longrightarrow> length (rc_queue r') < cap"
  by (induction np cap wait es r rule: claim_slot.induct)
     (auto simp: claim_slot.simps split: if_splits list.splits)

lemma emit_spec:
  "emit np frame target cap wait sched is r = (out, fed, r') \<Longrightarrow>
     ledger r' = ledger r \<and> fed \<le> length is \<and> (out = TAKEN \<longrightarrow> fed = length is)
     \<and> length (rc_offered r') = length (rc_offered r) + fed"
proof (induction "is" arbitrary: r fed)
  case (Cons i "is")
  obtain o1 r1 where c: "claim_slot np cap wait (snd (sched i)) (foldl (apply_event np) r (fst (sched i))) = (o1, r1)"
    by fastforce
  have led: "ledger r1 = ledger r" "rc_offered r1 = rc_offered r"
    using claim_slot_keeps(1,3) [OF c] by simp_all
  show ?case
  proof (cases "o1 = TAKEN")
    case True
    then obtain f where "emit np frame target cap wait sched is (queue_frame target (frame i) r1) = (out, f, r')"
      and "fed = Suc f"
      using Cons.prems c by (auto split: prod.splits)
    with Cons.IH [of "queue_frame target (frame i) r1" f] led show ?thesis
      by simp
  next
    case False
    then show ?thesis
      using Cons.prems c led by (cases o1) auto
  qed
qed simp

section \<open>No drift\<close>

text \<open>A recording session: chunks and worker events in any order.\<close>

datatype 'a feed_op = Chunk schedule "'a media_chunk" | Event feed_event

definition feed_run_step ::
  "(real \<Rightarrow> real) \<Rightarrow> 'a numpy \<Rightarrow> ('a \<Rightarrow> int list) \<Rightarrow> rec_config \<Rightarrow> emission list \<times> 'a recorder \<Rightarrow> 'a feed_op
    \<Rightarrow> emission list \<times> 'a recorder"
where
  "feed_run_step fl np samples cfg s op =
     (case op of
        Event e \<Rightarrow> (fst s, apply_event np (snd s) e)
      | Chunk sched c \<Rightarrow>
          (case on_chunk fl np samples cfg sched c (snd s) of
             (None, r) \<Rightarrow> (fst s, r)
           | (Some em, r) \<Rightarrow> (fst s @ [em], r)))"

text \<open>The grid frames an emission's media lasts.\<close>

definition em_played :: "emission \<Rightarrow> real" where
  "em_played e = real (em_frames e) / em_fps e * real recording_fps"

text \<open>The frames of an emission that a stop cut off.\<close>

definition em_cut :: "emission \<Rightarrow> nat" where
  "em_cut e = (if em_outcome e = WINDING_DOWN then em_grid e - em_fed e else 0)"

text \<open>
  Rounding with a relative error: for IEEE doubles \<open>u\<close> is \<open>2 powr - 53\<close>, as long as nothing
  overflows or underflows, and frame counts, rates and seconds are far from both.
\<close>

definition rounds :: "real \<Rightarrow> (real \<Rightarrow> real) \<Rightarrow> bool" where
  "rounds u fl \<longleftrightarrow> 0 \<le> u \<and> u \<le> 1 \<and> (\<forall>x. \<bar>fl x - x\<bar> \<le> u * \<bar>x\<bar>)"

lemma rounds_above: "rounds u fl \<Longrightarrow> 0 \<le> x \<Longrightarrow> 0 \<le> fl x \<and> fl x \<le> (1 + u) * x"
proof -
  assume r: "rounds u fl" and x: "0 \<le> x"
  have "\<bar>fl x - x\<bar> \<le> u * \<bar>x\<bar>" using r by (simp add: rounds_def)
  moreover have "u * x \<le> x" using r x by (simp add: rounds_def mult_left_le_one_le)
  ultimately show ?thesis using x by (simp add: abs_le_iff algebra_simps)
qed

text \<open>How far rounding can take the debt away over some emissions.\<close>

definition rounding :: "real \<Rightarrow> emission list \<Rightarrow> real" where
  "rounding u ems = ((1 + u) ^ 3 - 1) * sum_list (map em_played ems) + ((1 + u)\<^sup>2 - 1) * real (length ems)"

text \<open>One emission's debt: what it carries over is what it was owed, less what it made, up to rounding.\<close>

lemma debt_step:
  fixes fl :: "real \<Rightarrow> real"
  assumes r: "rounds u fl" and debt: "0 \<le> debt" "debt \<le> 1 + u" and "0 \<le> n / fps" and k: "0 \<le> k"
  defines "owed \<equiv> fl (debt + fl (fl (n / fps) * k))"
  defines "grid \<equiv> nat \<lfloor>owed\<rfloor>"
  shows "0 \<le> fl (owed - real grid)" and "fl (owed - real grid) \<le> 1 + u"
    and "\<bar>fl (owed - real grid) + real grid - debt - n / fps * k\<bar> \<le> ((1 + u) ^ 3 - 1) * (n / fps * k) + ((1 + u)\<^sup>2 - 1)"
proof -
  have u: "0 \<le> u" using r by (simp add: rounds_def)
  have err: "\<bar>fl x - x\<bar> \<le> u * x" if "0 \<le> x" for x
    using r that unfolding rounds_def by (metis abs_of_nonneg)
  define s where "s = n / fps"
  define d where "d = fl (fl s * k)"
  have s: "0 \<le> s" using assms(4) by (simp add: s_def)
  have s1: "0 \<le> fl s" "fl s \<le> (1 + u) * s" using rounds_above [OF r s] by auto
  have d0: "0 \<le> d" using rounds_above [OF r, of "fl s * k"] s1 k by (simp add: d_def)
  have owed0: "0 \<le> owed" unfolding owed_def using rounds_above [OF r, of "debt + d"] d0 debt(1) by (simp add: d_def s_def)
  have part: "0 \<le> owed - real grid" "owed - real grid < 1" using owed0 unfolding grid_def by linarith+
  show "0 \<le> fl (owed - real grid)" using rounds_above [OF r part(1)] by simp
  have "(1 + u) * (owed - real grid) \<le> 1 + u" using part u mult_left_le [of "owed - real grid" "1 + u"] by simp
  with rounds_above [OF r part(1)] show "fl (owed - real grid) \<le> 1 + u" by linarith
  have e1: "\<bar>fl s * k - s * k\<bar> \<le> u * (s * k)"
    using err [OF s] k by (simp add: abs_mult mult_right_mono flip: left_diff_distrib mult.assoc)
  have "\<bar>d - fl s * k\<bar> \<le> u * (fl s * k)" unfolding d_def using s1 k by (intro err) simp
  moreover have up1: "u * (fl s * k) \<le> u * ((1 + u) * (s * k))"
    using mult_right_mono [OF s1(2) k] u by (intro mult_left_mono) (simp_all add: mult.assoc)
  ultimately have e2: "\<bar>d - s * k\<bar> \<le> u * (s * k) + u * ((1 + u) * (s * k))" using e1 by linarith
  have e3: "\<bar>owed - (debt + d)\<bar> \<le> u * (debt + d)"
    unfolding owed_def d_def s_def using d0 debt(1) by (intro err) (simp add: d_def s_def)
  have "d \<le> s * k + (u * (s * k) + u * ((1 + u) * (s * k)))" using e2 by linarith
  then have "u * (debt + d) \<le> u * (1 + u + (s * k + (u * (s * k) + u * ((1 + u) * (s * k)))))"
    using debt(2) u by (intro mult_left_mono) simp_all
  with e3 have e4: "\<bar>owed - (debt + d)\<bar> \<le> u * (1 + u + (s * k + (u * (s * k) + u * ((1 + u) * (s * k)))))" by linarith
  have "u * (owed - real grid) \<le> u" using part u mult_left_le [of "owed - real grid" u] by simp
  with err [OF part(1)] have e5: "\<bar>fl (owed - real grid) - (owed - real grid)\<bar> \<le> u" by linarith
  have "((1 + u) ^ 3 - 1) * (s * k) + ((1 + u)\<^sup>2 - 1) =
      u * (s * k) + u * ((1 + u) * (s * k)) + u * (1 + u + (s * k + (u * (s * k) + u * ((1 + u) * (s * k))))) + u"
    by (simp add: power3_eq_cube power2_eq_square algebra_simps)
  with e2 e4 e5 show "\<bar>fl (owed - real grid) + real grid - debt - n / fps * k\<bar> \<le>
      ((1 + u) ^ 3 - 1) * (n / fps * k) + ((1 + u)\<^sup>2 - 1)"
    unfolding s_def [symmetric] by linarith
qed

definition accounted :: "(real \<Rightarrow> real) \<Rightarrow> real \<Rightarrow> emission list \<times> 'a recorder \<Rightarrow> bool" where
  "accounted fl u s \<longleftrightarrow>
     (rounds u fl \<longrightarrow> 0 \<le> rc_debt (snd s) \<and> rc_debt (snd s) \<le> 1 + u \<and>
        \<bar>rc_debt (snd s) + real (sum_list (map em_grid (fst s))) - sum_list (map em_played (fst s))\<bar> \<le> rounding u (fst s))
   \<and> length (rc_offered (snd s)) = sum_list (map em_fed (fst s))
   \<and> rc_dropped (snd s) + length (rc_offered (snd s)) + sum_list (map em_cut (fst s)) = sum_list (map em_grid (fst s))"

lemma build_encoder_ledger [simp]: "ledger (build_encoder cfg b r) = ledger r"
  by (simp add: build_encoder_def ledger_def Let_def split: option.splits prod.splits)

lemma buffer_bundle_ledger [simp]: "ledger (buffer_bundle samples b r) = ledger r"
  by (simp add: buffer_bundle_def ledger_def split: option.splits prod.splits)

lemma build_encoder_queue [simp]:
  "rc_queue (build_encoder cfg b r) = rc_queue r"
  "rc_written (build_encoder cfg b r) = rc_written r"
  "rc_offered (build_encoder cfg b r) = rc_offered r"
  "rc_worker (build_encoder cfg b r) = rc_worker r" "rc_hand (build_encoder cfg b r) = rc_hand r"
  by (simp_all add: build_encoder_def Let_def split: option.splits prod.splits)

lemma buffer_bundle_queue [simp]:
  "rc_queue (buffer_bundle samples b r) = rc_queue r"
  "rc_written (buffer_bundle samples b r) = rc_written r"
  "rc_offered (buffer_bundle samples b r) = rc_offered r"
  "rc_worker (buffer_bundle samples b r) = rc_worker r" "rc_hand (buffer_bundle samples b r) = rc_hand r"
  "rc_encoder (buffer_bundle samples b r) = rc_encoder r"
  by (simp_all add: buffer_bundle_def split: option.splits prod.splits)

lemma record_frames_accounted:
  assumes acc: "accounted fl u (ems, r)" and fps: "0 < fps"
    and rec: "record_frames fl np sched fps wait frames r = (em, r')"
  shows "accounted fl u (ems @ [em], r')"
proof -
  define owed where "owed = fl (rc_debt r + fl (fl (real (length frames) / fps) * real recording_fps))"
  define grid where "grid = nat \<lfloor>owed\<rfloor>"
  define target where "target = (if rc_has_audio r then samples_per_frame (rc_rate r) recording_fps else 0)"
  obtain out fed r1 where e: "emit np (\<lambda>i. frames ! grid_index (length frames) grid i) target
      (max feed_depth grid) wait sched [0..<grid] (r\<lparr>rc_debt := fl (owed - real grid)\<rparr>) = (out, fed, r1)"
    by (metis prod_cases3)
  have em: "em = \<lparr>em_frames = length frames, em_fps = fps, em_grid = grid, em_fed = fed, em_outcome = out\<rparr>"
    and r': "r' = (let r2 = (if out = FULL then r1\<lparr>rc_dropped := rc_dropped r1 + (grid - fed)\<rparr> else r1)
        in if fed \<noteq> 0 then advance fl (fl (real fed / real recording_fps)) r2 else r2)"
    using rec e unfolding record_frames_def Let_def owed_def [symmetric] grid_def [symmetric] target_def [symmetric]
    by auto
  have led: "rc_debt r1 = fl (owed - real grid)" "rc_dropped r1 = rc_dropped r"
    and fed: "fed \<le> grid" "out = TAKEN \<longrightarrow> fed = grid" "length (rc_offered r1) = length (rc_offered r) + fed"
    using emit_spec [OF e] by (simp_all add: ledger_def)
  have fields: "rc_debt r' = fl (owed - real grid)" "length (rc_offered r') = length (rc_offered r) + fed"
    "rc_dropped r' = rc_dropped r + (if out = FULL then grid - fed else 0)"
    using led fed(3) by (simp_all add: r' Let_def advance_def)
  have cut: "fed + (if out = FULL then grid - fed else 0) + em_cut em = grid"
    using fed by (cases out) (simp_all add: em_cut_def em)
  have drift: "0 \<le> rc_debt r' \<and> rc_debt r' \<le> 1 + u \<and>
      \<bar>rc_debt r' + real (sum_list (map em_grid (ems @ [em]))) - sum_list (map em_played (ems @ [em]))\<bar> \<le> rounding u (ems @ [em])"
    if r: "rounds u fl"
  proof -
    have old: "0 \<le> rc_debt r" "rc_debt r \<le> 1 + u"
      "\<bar>rc_debt r + real (sum_list (map em_grid ems)) - sum_list (map em_played ems)\<bar> \<le> rounding u ems"
      using acc r by (auto simp: accounted_def)
    have "0 \<le> real (length frames) / fps" "0 \<le> real recording_fps" using fps by simp_all
    note step = debt_step [OF r old(1,2) this, folded owed_def, folded grid_def]
    have "rounding u (ems @ [em]) = rounding u ems + (((1 + u) ^ 3 - 1) * em_played em + ((1 + u)\<^sup>2 - 1))"
      by (simp add: rounding_def algebra_simps)
    then show ?thesis
      using step old(3) unfolding fields(1) by (simp add: em em_played_def)
  qed
  from acc have "rc_dropped r + length (rc_offered r) + sum_list (map em_cut ems) = sum_list (map em_grid ems)"
    "length (rc_offered r) = sum_list (map em_fed ems)" by (simp_all add: accounted_def)
  with drift cut show ?thesis
    unfolding accounted_def fst_conv snd_conv fields(2,3) by (simp add: em)
qed

lemma on_chunk_accounted:
  assumes acc: "accounted fl u (ems, r)" and oc: "on_chunk fl np samples cfg sched c r = (res, r')"
  shows "case res of None \<Rightarrow> accounted fl u (ems, r') | Some em \<Rightarrow> accounted fl u (ems @ [em], r')"
proof -
  have led: "accounted fl u (ems, q)" if "ledger q = ledger r" "rc_offered q = rc_offered r" for q :: "'a recorder"
    using acc that by (simp add: accounted_def ledger_def)
  define r0 where "r0 = (if rc_encoder r = None then build_encoder cfg (mc_bundle c) r else r)"
  define r1 where "r1 = (if rc_has_audio r0 then buffer_bundle samples (mc_bundle c) r0 else r0)"
  define fps where "fps = (if mc_fps c > 0 then mc_fps c else real recording_fps)"
  define frames where "frames = video_frames np (mc_bundle c) r0"
  have acc01: "accounted fl u (ems, r0)" "accounted fl u (ems, r1)"
    by (simp_all add: led r0_def r1_def)
  have oc': "on_chunk fl np samples cfg sched c r =
      (if disabled r then (None, r) else if rc_encoder r0 = None \<or> frames = [] then (None, r0)
       else map_prod Some id (record_frames fl np sched fps (mc_wait c) frames r1))"
    by (simp add: on_chunk_def Let_def r0_def r1_def fps_def frames_def)
  obtain em r2 where rec: "record_frames fl np sched fps (mc_wait c) frames r1 = (em, r2)"
    by fastforce
  have "0 < fps"
    by (simp add: fps_def recording_fps_def)
  from record_frames_accounted [OF acc01(2) this rec] show ?thesis
    using oc acc acc01(1) by (auto simp: oc' rec split: if_splits)
qed

interpretation feed_ledger: step_invariant "feed_run_step fl np samples cfg" "accounted fl u" for fl np samples cfg u
proof
  fix s :: "emission list \<times> 'a recorder" and op
  assume acc: "accounted fl u s"
  show "accounted fl u (feed_run_step fl np samples cfg s op)"
  proof (cases op)
    case (Event e)
    have "ledger (apply_event np (snd s) e) = ledger (snd s)" by simp
    with Event show ?thesis
      using acc by (simp add: feed_run_step_def accounted_def ledger_def)
  next
    case (Chunk sched c)
    obtain res r' where "on_chunk fl np samples cfg sched c (snd s) = (res, r')"
      by fastforce
    moreover from this have "case res of None \<Rightarrow> accounted fl u (fst s, r') | Some em \<Rightarrow> accounted fl u (fst s @ [em], r')"
      using acc by (intro on_chunk_accounted) simp_all
    ultimately show ?thesis
      using Chunk by (cases res) (simp_all add: feed_run_step_def)
  qed
qed

lemma start_accounted: "accounted fl u ([], start_feed)"
  by (auto simp: accounted_def start_feed_def rounding_def rounds_def)

text \<open>
  C15. Resampling accumulates no drift beyond rounding. Whatever chunks a session emits, at whatever
  rates, and however the encoder's worker and a stop are scheduled against them: every grid
  frame made was queued for the encoder, counted as dropped, or cut off by a stop; and the
  grid frames made differ from thirty times the seconds handed over (frames
  by rate, summed exactly) by at most one frame and what rounding adds: where an operation on
  floating-point numbers rounds with relative error at most \<open>u\<close>, \<open>u\<close> for the frame carried over, the
  share \<open>(1 + u) ^ 3 - 1\<close> of the media and \<open>(1 + u)\<^sup>2 - 1\<close> for each emission.
\<close>

theorem recorded_frames_no_drift:
  assumes "foldl (feed_run_step fl np samples cfg) ([], start_feed) ops = (ems, r)" and "rounds u fl"
  shows "let made = rc_dropped r + length (rc_offered r) + sum_list (map em_cut ems);
             media = sum_list (map (\<lambda>e. real (em_frames e) / em_fps e * 30) ems);
             slack = ((1 + u) ^ 3 - 1) * media + ((1 + u)\<^sup>2 - 1) * real (length ems)
    in real made \<le> media + slack \<and> media \<le> real made + 1 + u + slack"
proof -
  have acc: "accounted fl u (ems, r)"
    using feed_ledger.run_keeps [OF start_accounted, of fl u np samples cfg ops] assms(1) by simp
  have "em_played = (\<lambda>e. real (em_frames e) / em_fps e * 30)"
    by (simp add: fun_eq_iff em_played_def recording_fps_def)
  with acc assms(2) show ?thesis
    by (auto simp: accounted_def rounding_def Let_def abs_le_iff)
qed

text \<open>A concrete session: a model at 24 frames a second emits a batch of four.\<close>

definition toy_numpy :: "(nat list \<times> nat) numpy" where
  "toy_numpy = \<lparr>np_shape = fst, np_index = (\<lambda>a i. (tl (fst a), i)), np_row = id, np_array_split = (\<lambda>a n. None)\<rparr>"

definition toy_chunk :: "(nat list \<times> nat) media_chunk" where
  "toy_chunk = \<lparr>mc_bundle = [(''main'', \<lparr>td_info = \<lparr>ti_name = ''main'', ti_kind = VIDEO, ti_rate = 24,
        ti_direction = OUT, ti_buffer_seconds = None\<rparr>, td_data = ([4, 2, 2, 3], 0), td_metadata = NoMeta\<rparr>)],
     mc_fps = 24, mc_n_frames = 4, mc_wait = False, mc_session = None, mc_emitted_at = None\<rparr>"

definition toy_config :: rec_config where
  "toy_config = \<lparr>rcf_enabled = True, rcf_chunk_seconds = 4, rcf_clip_max_seconds = 300,
     rcf_video_track = None, rcf_audio_track = None\<rparr>"

section \<open>A batch always fits\<close>

lemma feed_step_queue: "length (rc_queue (feed_step np av r)) \<le> length (rc_queue r)"
  by (auto simp: feed_step_def feed_failed_def drain_queue_def split: prod.split option.split list.split)

definition no_stop :: "feed_event list \<Rightarrow> bool" where
  "no_stop es \<longleftrightarrow> Stopping \<notin> set es"

lemma events_queue: "no_stop es \<Longrightarrow> length (rc_queue (foldl (apply_event np) r es)) \<le> length (rc_queue r)"
proof (induction es arbitrary: r)
  case (Cons e es)
  then have "length (rc_queue (apply_event np r e)) \<le> length (rc_queue r)"
    by (cases e) (auto simp: no_stop_def feed_step_queue close_recording_def)
  moreover have "no_stop es"
    using Cons.prems by (simp add: no_stop_def)
  ultimately show ?case
    using le_trans [OF Cons.IH] by simp
qed simp

lemma queue_frame_queue [simp]: "length (rc_queue (queue_frame target f r)) = Suc (length (rc_queue r))"
  by (simp add: queue_frame_def split: prod.splits)

lemma emit_fits:
  assumes "length (rc_queue r) + length is \<le> cap" and "\<And>i. no_stop (fst (sched i))"
  shows "\<exists>r'. emit np frame target cap wait sched is r = (TAKEN, length is, r')"
  using assms(1)
proof (induction "is" arbitrary: r)
  case (Cons i "is")
  define r1 where "r1 = foldl (apply_event np) r (fst (sched i))"
  have "length (rc_queue r1) \<le> length (rc_queue r)"
    unfolding r1_def by (rule events_queue [OF assms(2)])
  then have room: "length (rc_queue r1) + length is < cap"
    using Cons.prems by simp
  then have "claim_slot np cap wait (snd (sched i)) r1 = (TAKEN, r1)"
    by (simp add: claim_slot.simps)
  moreover obtain r' where "emit np frame target cap wait sched is (queue_frame target (frame i) r1) = (TAKEN, length is, r')"
    using Cons.IH [of "queue_frame target (frame i) r1"] room by auto
  ultimately show ?case
    by (simp add: r1_def)
qed simp

lemma record_frames_fits:
  assumes "rc_queue r = []" and "\<And>i. no_stop (fst (sched i))"
    and "record_frames fl np sched fps wait frames r = (em, r')"
  shows "em_outcome em = TAKEN \<and> em_fed em = em_grid em"
proof -
  define owed where "owed = fl (rc_debt r + fl (fl (real (length frames) / fps) * real recording_fps))"
  define grid where "grid = nat \<lfloor>owed\<rfloor>"
  define target where "target = (if rc_has_audio r then samples_per_frame (rc_rate r) recording_fps else 0)"
  obtain r1 where "emit np (\<lambda>i. frames ! grid_index (length frames) grid i) target
      (max feed_depth grid) wait sched [0..<grid] (r\<lparr>rc_debt := fl (owed - real grid)\<rparr>) = (TAKEN, grid, r1)"
    using emit_fits [of "r\<lparr>rc_debt := fl (owed - real grid)\<rparr>" "[0..<grid]" "max feed_depth grid" sched] assms(1,2)
    by simp blast
  then show ?thesis
    using assms(3)
    unfolding record_frames_def Let_def owed_def [symmetric] grid_def [symmetric] target_def [symmetric]
    by auto
qed

text \<open>
  C35. However large, a batch handed over while the feed queue is empty is queued whole:
  whether or not the chunk waits, and whatever the worker does meanwhile, no frame of it
  is refused as long as the recording is not stopped.
\<close>

theorem batch_fits_empty_queue:
  assumes "rc_queue r = []" and "\<forall>i. no_stop (fst (sched i))"
    and "record_frames fl np sched fps wait frames r = (em, r')"
  shows "em_outcome em = TAKEN \<and> em_fed em = em_grid em"
  using record_frames_fits [OF assms(1) _ assms(3)] assms(2) by blast

theorem batch_fits_empty_queue_witness:
  "\<exists>em r'. record_frames id toy_numpy (\<lambda>i. ([Worker AvOk], [])) 24 False [([2, 2, 3], 0), ([2, 2, 3], 1)]
       (start_feed :: (nat list \<times> nat) recorder) = (em, r') \<and> em_fed em = em_grid em"
proof -
  obtain em r' where rec: "record_frames id toy_numpy (\<lambda>i. ([Worker AvOk], [])) 24 False
      [([2, 2, 3], 0), ([2, 2, 3], 1)] (start_feed :: (nat list \<times> nat) recorder) = (em, r')"
    by fastforce
  have "rc_queue (start_feed :: (nat list \<times> nat) recorder) = []"
    by (simp add: start_feed_def)
  from batch_fits_empty_queue [OF this _ rec] show ?thesis
    using rec by (auto simp: no_stop_def)
qed

section \<open>A concrete session\<close>

definition toy_ops :: "(nat list \<times> nat) feed_op list" where
  "toy_ops = [Chunk (\<lambda>i. ([Worker AvOk], [])) toy_chunk, Event Stopping]"

abbreviation toy_step ::
  "emission list \<times> (nat list \<times> nat) recorder \<Rightarrow> (nat list \<times> nat) feed_op \<Rightarrow> emission list \<times> (nat list \<times> nat) recorder"
where
  "toy_step \<equiv> feed_run_step id toy_numpy (\<lambda>a. [int (snd a)]) toy_config"

lemma toy_on_chunk:
  "\<exists>frames r. on_chunk id toy_numpy samples toy_config sched toy_chunk start_feed
      = map_prod Some id (record_frames id toy_numpy sched 24 False frames r)
    \<and> length frames = 4 \<and> rc_queue r = [] \<and> rc_debt r = 0"
  by (simp add: on_chunk_def start_feed_def disabled_def encoder_failed_def toy_chunk_def toy_config_def
      toy_numpy_def build_encoder_def video_track_name_def audio_track_of_def get_track_def
      get_tracks_by_kind_def video_frames_def Let_def) (intro exI conjI, rule refl, simp_all)

lemma record_frames_inputs:
  "record_frames fl np sched fps wait frames r = (em, r') \<Longrightarrow> em_frames em = length frames \<and> em_fps em = fps"
  by (auto simp: record_frames_def Let_def split: prod.splits)

lemma exact_rounds: "rounds 0 id"
  by (simp add: rounds_def)

theorem recorded_frames_no_drift_witness:
  "\<exists>ems r. foldl toy_step ([], start_feed) toy_ops = (ems, r) \<and>
     rc_dropped r + length (rc_offered r) + sum_list (map em_cut ems) \<in> {4, 5}"
proof -
  define sched :: schedule where "sched = (\<lambda>i. ([Worker AvOk], []))"
  obtain frames r0 where oc: "on_chunk id toy_numpy (\<lambda>a. [int (snd a)]) toy_config sched toy_chunk start_feed
      = map_prod Some id (record_frames id toy_numpy sched 24 False frames r0)"
    and n: "length frames = 4" and q: "rc_queue r0 = []"
    using toy_on_chunk by blast
  obtain em r1 where rec: "record_frames id toy_numpy sched 24 False frames r0 = (em, r1)"
    by fastforce
  have due: "real (em_frames em) / em_fps em * 30 = 5"
    using record_frames_inputs [OF rec] n by simp
  have run: "foldl toy_step ([], start_feed) toy_ops = ([em], signal_stop r1)"
    using oc rec by (simp add: toy_ops_def feed_run_step_def sched_def)
  from recorded_frames_no_drift [OF run exact_rounds] due
  have "rc_dropped (signal_stop r1) + length (rc_offered (signal_stop r1)) + sum_list (map em_cut [em]) \<in> {4, 5}"
    by (auto simp: Let_def)
  with run show ?thesis
    by blast
qed

section \<open>The audio of a slot\<close>

text \<open>
  The jitter buffer hands out audio exactly. Buffering an emission keeps all of it
  and, of what was there before, the newest two slots' worth and nothing older; taking a
  slot returns exactly its number of samples, the oldest buffered ones in order with
  silence only once the buffer is empty, and leaves precisely the rest; and the sample
  count always is the number of samples held, so neither loop runs off the buffer.
\<close>

theorem audio_buffer_exact:
  assumes cnt: "counted buf n" and "0 < target" and "flat \<noteq> []"
    and b: "buffer_audio rate flat buf n = (buf1, n1)"
    and t: "take_audio target buf1 n1 = (out, buf2, n2)"
  shows "concat buf1 = last_n (audio_backlog_frames * samples_per_frame rate recording_fps) (concat buf) @ flat
    \<and> n1 = length (concat buf1)
    \<and> out = Some (take target (concat buf1) @ replicate (target - length (concat buf1)) 0)
    \<and> concat buf2 = drop target (concat buf1) \<and> n2 = length (concat buf2)"
proof -
  define slack where "slack = audio_backlog_frames * samples_per_frame rate recording_fps"
  have "trim_audio (length flat + slack) (buf @ [flat]) (n + length flat) = (buf1, n1)"
    using b assms(3) by (simp add: buffer_audio_def Let_def slack_def)
  then have 1: "concat buf1 = last_n (length flat + slack) (concat (buf @ [flat])) \<and> counted buf1 n1"
    by (rule trim_audio_spec [rotated]) (simp add: cnt)
  have 2: "concat buf1 = last_n slack (concat buf) @ flat"
    using conjunct1 [OF 1] by (simp add: last_n_def)
  obtain o1 b2 m2 where f: "fill_audio target buf1 n1 = (o1, b2, m2)"
    by (metis prod_cases3)
  have out: "out = Some (o1 @ replicate (target - length o1) 0)" and bm: "b2 = buf2" "m2 = n2"
    using t assms(2) f by (simp_all add: take_audio_def)
  have 3: "o1 = take target (concat buf1)" "concat buf2 = drop target (concat buf1)" "counted buf2 n2"
    using fill_audio_spec [OF conjunct2 [OF 1] f] unfolding bm by blast+
  have pad: "target - length o1 = target - length (concat buf1)"
    unfolding 3(1) by simp
  have "out = Some (take target (concat buf1) @ replicate (target - length (concat buf1)) 0)"
    unfolding out pad by (simp only: 3(1))
  then show ?thesis
    using 1 2 3(2,3) unfolding slack_def by blast
qed

theorem audio_buffer_exact_witness:
  "\<exists>buf1 n1 out buf2 n2. buffer_audio 60 [5, 6] [[1], [2, 3, 4]] 4 = (buf1, n1)
     \<and> take_audio 3 buf1 n1 = (out, buf2, n2)
     \<and> concat buf1 = [1, 2, 3, 4, 5, 6] \<and> out = Some [1, 2, 3] \<and> concat buf2 = [4, 5, 6]"
proof -
  obtain buf1 n1 where b: "buffer_audio 60 [5, 6] [[1], [2, 3, 4]] 4 = (buf1, n1)"
    by fastforce
  obtain out buf2 n2 where t: "take_audio 3 buf1 n1 = (out, buf2, n2)"
    by (metis prod_cases3)
  have "audio_backlog_frames * samples_per_frame 60 recording_fps = 4"
    using samples_per_frame_exact [of 30 60] by (simp add: audio_backlog_frames_def recording_fps_def)
  then show ?thesis
    using audio_buffer_exact [OF _ _ _ b t] b t by (auto simp: last_n_def)
qed

section \<open>Order\<close>

fun items :: "'a feed_item option list \<Rightarrow> 'a feed_item list" where
  "items [] = []"
| "items (None # q) = items q"
| "items (Some x # q) = x # items q"

lemma items_append [simp]: "items (q @ q') = items q @ items q'"
  by (induction q rule: items.induct) simp_all

definition hand_items :: "'a recorder \<Rightarrow> 'a feed_item list" where
  "hand_items r = (case rc_hand r of None \<Rightarrow> [] | Some x \<Rightarrow> [x])"

text \<open>
  The worker writes a prefix of what was queued; while it lives, what is not written yet
  is exactly the frame it holds and what the queue still holds.
\<close>

definition in_order :: "'a recorder \<Rightarrow> bool" where
  "in_order r \<longleftrightarrow>
     (\<exists>rest. rc_offered r = rc_written r @ rest)
   \<and> (rc_worker r \<longrightarrow> rc_offered r = rc_written r @ hand_items r @ items (rc_queue r))
   \<and> (rc_encoder r = None \<longrightarrow> hand_items r @ items (rc_queue r) = [])"

lemma feed_step_in_order:
  assumes "in_order r"
  shows "in_order (feed_step np av r)"
proof (cases "rc_worker r")
  case True
  show ?thesis
  proof (cases "rc_hand r")
    case None
    with assms True show ?thesis
      by (auto simp: feed_step_def in_order_def hand_items_def split: list.split option.split)
  next
    case (Some item)
    then obtain e where e: "rc_encoder r = Some e"
      using assms by (cases "rc_encoder r") (auto simp: in_order_def hand_items_def)
    obtain y e' where "write_item np av (rc_has_audio r) item e = (y, e')"
      by fastforce
    then show ?thesis
      using assms True Some e
      by (cases y) (auto simp: feed_step_def feed_failed_def drain_queue_def in_order_def hand_items_def)
  qed
qed (use assms in \<open>simp add: feed_step_def\<close>)

lemma signal_stop_in_order: "in_order r \<Longrightarrow> in_order (signal_stop r)"
  by (auto simp: signal_stop_def in_order_def hand_items_def)

lemma close_recording_in_order: "in_order r \<Longrightarrow> in_order (close_recording stuck closes r)"
  by (auto simp: close_recording_def in_order_def hand_items_def)

lemma apply_event_in_order: "in_order r \<Longrightarrow> in_order (apply_event np r e)"
  by (cases e) (simp_all add: feed_step_in_order signal_stop_in_order close_recording_in_order)

lemma events_in_order: "in_order r \<Longrightarrow> in_order (foldl (apply_event np) r es)"
  by (induction es arbitrary: r) (simp_all add: apply_event_in_order)

text \<open>What an emission keeps, given that events and queueing within the bound keep it.\<close>

lemma emit_keeps:
  assumes ev: "\<And>r e. P r \<Longrightarrow> P (apply_event np r e)"
    and qf: "\<And>r f. P r \<Longrightarrow> length (rc_queue r) < cap \<Longrightarrow> P (queue_frame target f r)"
    and "P r" and "emit np frame target cap wait sched is r = (out, fed, r')"
  shows "P r'"
  using assms(3,4)
proof (induction "is" arbitrary: r fed)
  case (Cons i "is")
  have evs: "P (foldl (apply_event np) q es)" if "P q" for q es
    using that by (induction es arbitrary: q) (simp_all add: ev)
  obtain o1 r1 where c: "claim_slot np cap wait (snd (sched i)) (foldl (apply_event np) r (fst (sched i))) = (o1, r1)"
    by fastforce
  have "P r1"
    using claim_slot_events [of np cap wait "snd (sched i)" "foldl (apply_event np) r (fst (sched i))"] c
      evs Cons.prems(1) by (metis snd_conv)
  show ?case
  proof (cases "o1 = TAKEN")
    case True
    then have "P (queue_frame target (frame i) r1)"
      using qf [OF \<open>P r1\<close>] claim_slot_taken c by blast
    moreover obtain f where "emit np frame target cap wait sched is (queue_frame target (frame i) r1) = (out, f, r')"
      using Cons.prems(2) c True by (auto split: prod.splits)
    ultimately show ?thesis
      by (rule Cons.IH)
  next
    case False
    then show ?thesis
      using Cons.prems(2) c \<open>P r1\<close> by (cases o1) auto
  qed
qed simp

definition live :: "'a recorder \<Rightarrow> bool" where
  "live r \<longleftrightarrow> in_order r \<and> rc_encoder r \<noteq> None"

lemma feed_step_encoder: "rc_encoder r \<noteq> None \<Longrightarrow> rc_encoder (feed_step np av r) \<noteq> None"
  by (auto simp: feed_step_def feed_failed_def drain_queue_def split: prod.split option.split list.split)

lemma apply_event_encoder: "rc_encoder r \<noteq> None \<Longrightarrow> rc_encoder (apply_event np r e) \<noteq> None"
proof (cases e)
  case (Worker av)
  then show "rc_encoder r \<noteq> None \<Longrightarrow> ?thesis"
    using feed_step_encoder [of r np av] by simp
qed (simp_all add: signal_stop_def close_recording_def)

lemma apply_event_live: "live r \<Longrightarrow> live (apply_event np r e)"
  unfolding live_def using apply_event_in_order apply_event_encoder by blast

lemma queue_frame_live: "live r \<Longrightarrow> live (queue_frame target f r)"
  by (auto simp: live_def in_order_def queue_frame_def hand_items_def split: prod.splits)

text \<open>The emission and what follows it, as far as order and room go.\<close>

lemma record_frames_emit:
  assumes "record_frames fl np sched fps wait frames r = (em, r')"
  obtains frame target debt fed out r1 where
    "emit np frame target (max feed_depth (em_grid em)) wait sched [0..<em_grid em] (r\<lparr>rc_debt := debt\<rparr>) = (out, fed, r1)"
    "rc_queue r' = rc_queue r1" "rc_written r' = rc_written r1" "rc_offered r' = rc_offered r1"
    "rc_worker r' = rc_worker r1" "rc_encoder r' = rc_encoder r1" "rc_hand r' = rc_hand r1"
proof -
  define owed where "owed = fl (rc_debt r + fl (fl (real (length frames) / fps) * real recording_fps))"
  define grid where "grid = nat \<lfloor>owed\<rfloor>"
  define target where "target = (if rc_has_audio r then samples_per_frame (rc_rate r) recording_fps else 0)"
  define frame where "frame = (\<lambda>i. frames ! grid_index (length frames) grid i)"
  obtain out fed r1 where e: "emit np frame target (max feed_depth grid) wait sched [0..<grid]
      (r\<lparr>rc_debt := fl (owed - real grid)\<rparr>) = (out, fed, r1)"
    by (metis prod_cases3)
  have grid: "em_grid em = grid"
    and r': "r' = (let r2 = (if out = FULL then r1\<lparr>rc_dropped := rc_dropped r1 + (grid - fed)\<rparr> else r1)
        in if fed \<noteq> 0 then advance fl (fl (real fed / real recording_fps)) r2 else r2)"
    using assms e unfolding record_frames_def Let_def owed_def [symmetric] grid_def [symmetric]
      target_def [symmetric] frame_def [symmetric] by auto
  show thesis
    by (rule that [OF e [folded grid]]) (simp_all add: r' Let_def advance_def)
qed

lemma record_frames_live:
  assumes "live r" and "record_frames fl np sched fps wait frames r = (em, r')"
  shows "live r'"
  using assms(2)
proof (rule record_frames_emit)
  fix frame target debt fed out r1
  assume e: "emit np frame target (max feed_depth (em_grid em)) wait sched [0..<em_grid em]
      (r\<lparr>rc_debt := debt\<rparr>) = (out, fed, r1)"
    and "rc_queue r' = rc_queue r1" "rc_written r' = rc_written r1" "rc_offered r' = rc_offered r1"
    "rc_worker r' = rc_worker r1" "rc_encoder r' = rc_encoder r1" "rc_hand r' = rc_hand r1"
  moreover have "live (r\<lparr>rc_debt := debt\<rparr>)"
    using assms(1) by (simp add: live_def in_order_def hand_items_def)
  then have "live r1"
    by (intro emit_keeps [where P = live, OF _ _ _ e]) (simp_all add: apply_event_live queue_frame_live)
  ultimately show "live r'"
    by (simp add: live_def in_order_def hand_items_def)
qed

lemma items_length: "length (items q) \<le> length q"
  by (induction q rule: items.induct) simp_all

lemma feed_step_items: "length (items (rc_queue (feed_step np av r))) \<le> length (items (rc_queue r))"
  by (auto simp: feed_step_def feed_failed_def drain_queue_def split: prod.split option.split list.split)

lemma record_frames_bound:
  assumes "record_frames fl np sched fps wait frames r = (em, r')"
    and "length (items (rc_queue r)) \<le> bound"
  shows "length (items (rc_queue r')) \<le> max bound (max feed_depth (em_grid em))"
  using assms(1)
proof (rule record_frames_emit)
  fix frame target debt fed out r1
  let ?cap = "max feed_depth (em_grid em)"
  let ?P = "\<lambda>r :: 'a recorder. length (items (rc_queue r)) \<le> max bound ?cap"
  assume e: "emit np frame target ?cap wait sched [0..<em_grid em] (r\<lparr>rc_debt := debt\<rparr>) = (out, fed, r1)"
    and q: "rc_queue r' = rc_queue r1"
  have "?P r1"
  proof (rule emit_keeps [where P = ?P, OF _ _ _ e])
    fix r :: "'a recorder" and ev
    assume "?P r"
    then show "?P (apply_event np r ev)"
      using feed_step_items [of np _ r] by (cases ev) (auto simp: signal_stop_def close_recording_def intro: le_trans)
  next
    fix r :: "'a recorder" and f
    assume "length (rc_queue r) < ?cap"
    then show "?P (queue_frame target f r)"
      using items_length [of "rc_queue (queue_frame target f r)"] by simp
  qed (use assms(2) in simp)
  with q show ?thesis
    by simp
qed

text \<open>The deepest the queue may be: the fixed depth or the largest emission so far.\<close>

definition depth :: "emission list \<Rightarrow> nat" where
  "depth ems = fold max (map em_grid ems) feed_depth"

lemma depth_snoc [simp]: "depth (ems @ [em]) = max (em_grid em) (depth ems)"
  by (simp add: depth_def)

lemma depth_ge: "feed_depth \<le> depth ems"
  by (induction ems rule: rev_induct) (simp_all add: depth_def)

definition queue_ok :: "emission list \<times> 'a recorder \<Rightarrow> bool" where
  "queue_ok s \<longleftrightarrow> in_order (snd s) \<and> length (items (rc_queue (snd s))) \<le> depth (fst s)"

lemma on_chunk_queue_ok:
  assumes ok: "queue_ok (ems, r)" and oc: "on_chunk fl np samples cfg sched c r = (res, r')"
  shows "case res of None \<Rightarrow> queue_ok (ems, r') | Some em \<Rightarrow> queue_ok (ems @ [em], r')"
proof -
  define r0 where "r0 = (if rc_encoder r = None then build_encoder cfg (mc_bundle c) r else r)"
  define r1 where "r1 = (if rc_has_audio r0 then buffer_bundle samples (mc_bundle c) r0 else r0)"
  define fps where "fps = (if mc_fps c > 0 then mc_fps c else real recording_fps)"
  define frames where "frames = video_frames np (mc_bundle c) r0"
  have ok0: "queue_ok (ems, r0)"
    using ok by (auto simp: r0_def queue_ok_def in_order_def hand_items_def)
  then have ok1: "in_order r1" "length (items (rc_queue r1)) \<le> depth ems"
    by (auto simp: r1_def queue_ok_def in_order_def hand_items_def)
  have oc': "on_chunk fl np samples cfg sched c r =
      (if disabled r then (None, r) else if rc_encoder r0 = None \<or> frames = [] then (None, r0)
       else map_prod Some id (record_frames fl np sched fps (mc_wait c) frames r1))"
    by (simp add: on_chunk_def Let_def r0_def r1_def fps_def frames_def)
  obtain em r2 where rec: "record_frames fl np sched fps (mc_wait c) frames r1 = (em, r2)"
    by fastforce
  have "queue_ok (ems @ [em], r2)" if "rc_encoder r0 \<noteq> None"
  proof -
    have "live r1"
      using that ok1(1) by (simp add: live_def r1_def)
    then have "in_order r2"
      using record_frames_live [OF _ rec] by (simp add: live_def)
    then show ?thesis
      using record_frames_bound [OF rec ok1(2)] depth_ge [of ems] by (simp add: queue_ok_def)
  qed
  then show ?thesis
    using oc ok ok0 by (auto simp: oc' rec split: if_splits)
qed

lemma apply_event_queue_ok: "queue_ok (ems, r) \<Longrightarrow> queue_ok (ems, apply_event np r e)"
  using feed_step_items [of np _ r] apply_event_in_order [of r np e]
  by (cases e) (auto simp: queue_ok_def signal_stop_def close_recording_def intro: le_trans)

interpretation feed_queue: step_invariant "feed_run_step fl np samples cfg" queue_ok for fl np samples cfg
proof
  fix s :: "emission list \<times> 'a recorder" and op
  assume ok: "queue_ok s"
  show "queue_ok (feed_run_step fl np samples cfg s op)"
  proof (cases op)
    case (Event e)
    then show ?thesis
      using ok apply_event_queue_ok [of "fst s" "snd s"] by (simp add: feed_run_step_def)
  next
    case (Chunk sched c)
    obtain res r' where oc: "on_chunk fl np samples cfg sched c (snd s) = (res, r')"
      by fastforce
    have "case res of None \<Rightarrow> queue_ok (fst s, r') | Some em \<Rightarrow> queue_ok (fst s @ [em], r')"
      using ok by (intro on_chunk_queue_ok [OF _ oc]) simp
    then show ?thesis
      using Chunk oc by (cases res) (simp_all add: feed_run_step_def)
  qed
qed

lemma start_queue_ok: "queue_ok ([], start_feed)"
  by (simp add: queue_ok_def in_order_def hand_items_def start_feed_def)

text \<open>
  C33. The feed keeps order and stays bounded. In every session what reached the encoder
  is a prefix of what was queued, frame by frame with its own audio and nothing twice;
  while the worker runs, the rest is exactly the frame it has taken and not yet written,
  followed by what the queue holds; and the queue never holds more frames than its fixed depth or the largest single emission.
\<close>

theorem feed_in_order:
  assumes "foldl (feed_run_step fl np samples cfg) ([], start_feed) ops = (ems, r)"
  shows "(\<exists>rest. rc_offered r = rc_written r @ rest)
    \<and> (rc_worker r \<longrightarrow> rc_offered r = rc_written r @ hand_items r @ items (rc_queue r))
    \<and> length (items (rc_queue r)) \<le> depth ems"
  using feed_queue.run_keeps [OF start_queue_ok, of fl np samples cfg ops] assms
  by (simp add: queue_ok_def in_order_def)

theorem feed_in_order_witness:
  "\<exists>ems r. foldl toy_step ([], start_feed) toy_ops = (ems, r) \<and> length (items (rc_queue r)) \<le> depth ems"
proof -
  obtain ems r where run: "foldl toy_step ([], start_feed) toy_ops = (ems, r)"
    by fastforce
  from run feed_in_order [OF run] show ?thesis
    by blast
qed

section \<open>Stopping\<close>

definition healthy :: "encoder \<Rightarrow> bool" where
  "healthy e \<longleftrightarrow> \<not> en_failed e \<and> \<not> en_stopped e"

definition good_frame :: "'a numpy \<Rightarrow> 'a \<Rightarrow> bool" where
  "good_frame np f \<longleftrightarrow> (\<exists>h w. np_shape np f = [h, w, 3])"

lemma write_item_ok:
  assumes "healthy e" and "good_frame np (fst item)"
  shows "\<exists>e'. write_item np AvOk has_audio item e = (None, e') \<and> healthy e'"
  using assms
  by (auto simp: write_item_def feed_video_def feed_audio_def healthy_def good_frame_def write_video_def
      write_audio_def Let_def split: option.splits)

lemma feed_step_writes:
  assumes "rc_worker r" "rc_hand r = Some item" "rc_encoder r = Some e" "healthy e"
    "good_frame np (fst item)"
  shows "\<exists>e'. feed_step np AvOk r =
    r\<lparr>rc_hand := None, rc_encoder := Some e', rc_written := rc_written r @ [item]\<rparr> \<and> healthy e'"
  using write_item_ok [OF assms(4,5), of "rc_has_audio r"] assms by (auto simp: feed_step_def)

lemma worker_drains:
  assumes "rc_worker r" "rc_hand r = None" "rc_queue r = map Some xs @ [None]" "rc_encoder r = Some e" "healthy e"
    "\<forall>x\<in>set xs. good_frame np (fst x)"
  shows "let r' = (feed_step np AvOk ^^ Suc (2 * length xs)) r
    in rc_written r' = rc_written r @ xs \<and> rc_queue r' = [] \<and> rc_hand r' = None \<and> \<not> rc_worker r'"
  using assms
proof (induction xs arbitrary: r e)
  case Nil
  then show ?case
    by (simp add: feed_step_def)
next
  case (Cons x xs)
  define r1 where "r1 = feed_step np AvOk r"
  have r1: "r1 = r\<lparr>rc_queue := map Some xs @ [None], rc_hand := Some x\<rparr>"
    using Cons.prems by (simp add: r1_def feed_step_def)
  obtain e' where step: "feed_step np AvOk r1 =
      r1\<lparr>rc_hand := None, rc_encoder := Some e', rc_written := rc_written r1 @ [x]\<rparr>" and "healthy e'"
    using feed_step_writes [of r1 x e np] Cons.prems by (auto simp: r1)
  then have "let r' = (feed_step np AvOk ^^ Suc (2 * length xs)) (feed_step np AvOk r1)
      in rc_written r' = rc_written (feed_step np AvOk r1) @ xs \<and> rc_queue r' = [] \<and> rc_hand r' = None \<and> \<not> rc_worker r'"
    using Cons.prems by (intro Cons.IH [of _ e']) (simp_all add: r1)
  moreover have "(feed_step np AvOk ^^ Suc (2 * length (x # xs))) r =
      (feed_step np AvOk ^^ Suc (2 * length xs)) (feed_step np AvOk r1)"
    unfolding r1_def by (simp add: funpow_swap1)
  ultimately show ?case
    using step by (simp add: Let_def r1)
qed

text \<open>
  C34. A stop keeps the end of the session: with a live worker and a healthy encoder, the
  frame in the worker's hand and the frames queued when the recording stops are all written, in order, before the
  worker exits, and it does exit after two iterations per queued frame (taking it and writing it),
  one for the frame in hand and one for the sentinel, unless \<open>stop\<close> closes the encoder earlier, its drain
  deadline passed.
\<close>

theorem stop_drains_queue:
  assumes "rc_started r" "rc_worker r" "rc_queue r = map Some xs" "rc_encoder r = Some e" "healthy e"
    "\<forall>x\<in>set (hand_items r @ xs). good_frame np (fst x)"
  shows "let r' = (feed_step np AvOk ^^ (length (hand_items r) + 2 * length xs + 1)) (signal_stop r)
    in rc_written r' = rc_written r @ hand_items r @ xs \<and> rc_queue r' = [] \<and> rc_hand r' = None \<and> \<not> rc_worker r'"
proof (cases "rc_hand r")
  case None
  then show ?thesis
    using worker_drains [of "signal_stop r" xs e np] assms by (simp add: signal_stop_def hand_items_def)
next
  case (Some x)
  then obtain e' where "feed_step np AvOk (signal_stop r) =
      (signal_stop r)\<lparr>rc_hand := None, rc_encoder := Some e', rc_written := rc_written r @ [x]\<rparr>" "healthy e'"
    using feed_step_writes [of "signal_stop r" x e np] assms by (auto simp: signal_stop_def hand_items_def)
  with worker_drains [of "feed_step np AvOk (signal_stop r)" xs e' np] assms Some show ?thesis
    by (simp add: signal_stop_def hand_items_def funpow_swap1 Let_def)
qed

definition toy_live :: "(nat list \<times> nat) recorder" where
  "toy_live = start_feed\<lparr>rc_encoder := Some (new_encoder False 48000), rc_queue := [Some (([2, 2, 3], 7), None)]\<rparr>"

theorem stop_drains_queue_witness:
  "rc_written ((feed_step toy_numpy AvOk ^^ 3) (signal_stop toy_live)) = [(([2, 2, 3], 7), None)]"
proof -
  have "rc_started toy_live" "rc_worker toy_live" "rc_queue toy_live = map Some [(([2, 2, 3], 7), None)]"
    "rc_encoder toy_live = Some (new_encoder False 48000)" "healthy (new_encoder False 48000)"
    "\<forall>x\<in>set (hand_items toy_live @ [(([2, 2, 3], 7), None :: int list option)]). good_frame toy_numpy (fst x)"
    by (simp_all add: toy_live_def start_feed_def healthy_def new_encoder_def good_frame_def toy_numpy_def hand_items_def)
  from stop_drains_queue [OF this] show ?thesis
    by (simp add: Let_def toy_live_def start_feed_def hand_items_def numeral_3_eq_3)
qed

text \<open>
  The source frame of a grid frame: in range, never going back, the first frame first, and
  no source frame skipped when the grid is at least as fine as the source.
\<close>

lemma grid_index_in_range: "i < grid \<Longrightarrow> 0 < n \<Longrightarrow> grid_index n grid i < n"
  by (simp add: grid_index_def less_mult_imp_div_less)

lemma grid_index_mono: "i \<le> j \<Longrightarrow> grid_index n grid i \<le> grid_index n grid j"
  by (simp add: grid_index_def div_le_mono)

lemma grid_index_step:
  assumes "n \<le> grid" "0 < grid"
  shows "grid_index n grid (Suc i) \<le> Suc (grid_index n grid i)"
proof -
  have "Suc i * n div grid \<le> (i * n + grid) div grid"
    using assms(1) by (intro div_le_mono) simp
  then show ?thesis
    using assms(2) by (simp add: grid_index_def)
qed

end
