(* ===== verification/RecorderClips.thy ===== *)
theory RecorderClips
  imports ChunkEncoder
begin

text \<open>
  Clips and retention of the recorder (\<^verbatim>\<open>recording/recorder.py\<close>,
  \<^verbatim>\<open>recording/markers.py\<close>): a clip request resolves to a marker range at once, the
  watcher announces segments and clips as they land on disk, the HTTP side answers
  manifests and segment paths, and the reaper deletes what has aged out.

  A recording's directory is what the code can see of it: its files by name with their
  size, and when the two end markers were written. The encoder's muxer writes the
  segments; here they are given.
\<close>

section \<open>Directories\<close>

text \<open>\<^verbatim>\<open>f"chunk_{idx:05d}.m4s"\<close>\<close>

definition pad5 :: "string \<Rightarrow> string" where
  "pad5 s = replicate (5 - length s) (CHR ''0'') @ s"

definition chunk_name :: "nat \<Rightarrow> string" where
  "chunk_name i = ''chunk_'' @ pad5 (decimal i) @ ''.m4s''"

definition init_filename :: string where
  "init_filename = ''init.mp4''"

record rec_dir =
  rd_files :: "(string, nat) dict"
  rd_complete :: "real option"
  rd_incomplete :: "real option"

definition has_file :: "rec_dir \<Rightarrow> string \<Rightarrow> bool" where
  "has_file d n \<longleftrightarrow> dict_get (rd_files d) n \<noteq> None"

definition init_ready :: "rec_dir \<Rightarrow> bool" where
  "init_ready d =
     (case dict_get (rd_files d) init_filename of
        None \<Rightarrow> False
      | Some sz \<Rightarrow> sz > 0 \<or> has_file d (chunk_name 0))"

definition boundary_ready :: "rec_dir \<Rightarrow> nat \<Rightarrow> bool" where
  "boundary_ready d i \<longleftrightarrow>
     init_ready d \<and> has_file d (chunk_name i)
     \<and> (has_file d (chunk_name (i + 1)) \<or> rd_complete d \<noteq> None)"

text \<open>When the recording ended: the completion marker first, then the incomplete one.\<close>

definition ended_at :: "rec_dir \<Rightarrow> real option" where
  "ended_at d = (case rd_complete d of Some t \<Rightarrow> Some t | None \<Rightarrow> rd_incomplete d)"

lemma undecimal_zeros: "undecimal (replicate n (CHR ''0'') @ s) = undecimal s"
  by (induction n) (simp_all add: undecimal_def)

lemma chunk_name_inj: "chunk_name i = chunk_name j \<Longrightarrow> i = j"
proof -
  assume "chunk_name i = chunk_name j"
  then have "pad5 (decimal i) = pad5 (decimal j)"
    by (simp add: chunk_name_def)
  then have "undecimal (pad5 (decimal i)) = undecimal (pad5 (decimal j))"
    by simp
  then show "i = j"
    by (simp add: pad5_def undecimal_zeros undecimal_decimal)
qed

section \<open>Markers\<close>

text \<open>Python's two-argument \<open>min\<close> and \<open>max\<close> keep the first argument unless the second compares beyond it.\<close>

fun float_lt :: "pyfloat \<Rightarrow> pyfloat \<Rightarrow> bool" where
  "float_lt (Finite a) (Finite b) = (a < b)"
| "float_lt (Finite a) PosInf = True"
| "float_lt NegInf (Finite b) = True"
| "float_lt NegInf PosInf = True"
| "float_lt x y = False"

definition py_min :: "pyfloat \<Rightarrow> pyfloat \<Rightarrow> pyfloat" where
  "py_min a b = (if float_lt b a then b else a)"

definition py_max :: "pyfloat \<Rightarrow> pyfloat \<Rightarrow> pyfloat" where
  "py_max a b = (if float_lt a b then b else a)"

text \<open>The difference of a marker and a duration.\<close>

fun marker_minus :: "real \<Rightarrow> pyfloat \<Rightarrow> pyfloat" where
  "marker_minus e (Finite d) = Finite (e - d)"
| "marker_minus e PosInf = NegInf"
| "marker_minus e NegInf = PosInf"
| "marker_minus e NaN = NaN"

text \<open>\<open>compute_clip_range\<close> and \<open>compute_recording_range\<close>; a start past the recording stays as computed.\<close>

definition clip_start :: "real \<Rightarrow> pyfloat \<Rightarrow> pyfloat" where
  "clip_start now duration = py_max (Finite 0) (marker_minus now duration)"

definition boundary_index :: "real \<Rightarrow> int \<Rightarrow> nat" where
  "boundary_index e chunk_seconds =
     (if chunk_seconds \<le> 0 then 0 else nat (max 0 (\<lceil>e / of_int chunk_seconds\<rceil> - 1)))"

text \<open>\<^verbatim>\<open>f"{x:.3f}"\<close> read back as a number.\<close>

definition round3 :: "real \<Rightarrow> real" where
  "round3 x = of_int (py_round (x * 1000)) / 1000"

section \<open>Requests\<close>

datatype clip_kind = Snap | Recording

record clip =
  cl_session :: string
  cl_kind :: clip_kind
  cl_start :: real
  cl_end :: real
  cl_now :: real
  cl_ready_at_ms :: int
  cl_url :: "string \<times> real \<times> real"

record clip_state =
  ck_disabled :: bool
  ck_session :: "string option"
  ck_media :: real
  ck_media_started :: bool
  ck_pending :: "(nat \<times> clip) list"
  ck_announced_init :: bool
  ck_announced :: int
  ck_root :: "(string, rec_dir) dict option"

datatype clip_error = RecorderDisabled | NoMediaYet | BadDuration | BadRange | SessionGone

definition build_result ::
  "int \<Rightarrow> real \<Rightarrow> string \<Rightarrow> clip_kind \<Rightarrow> real \<Rightarrow> real \<Rightarrow> clip_state \<Rightarrow> clip \<times> clip_state"
where
  "build_result chunk_seconds clock sid kind st en s =
     (let now = ck_media s;
          cs = of_int chunk_seconds;
          wait_s = (if chunk_seconds > 0 then max 0 ((of_int \<lfloor>now / cs\<rfloor> + 1) * cs - now) else 0);
          c = \<lparr>cl_session = sid, cl_kind = kind, cl_start = st, cl_end = en, cl_now = now,
               cl_ready_at_ms = py_round ((clock + wait_s) * 1000), cl_url = (sid, round3 st, round3 en)\<rparr>
      in (c, s\<lparr>ck_pending := ck_pending s @ [(boundary_index en chunk_seconds, c)]\<rparr>))"

definition require_started :: "clip_state \<Rightarrow> clip_error + string" where
  "require_started s =
     (if ck_disabled s then Inl RecorderDisabled
      else if \<not> ck_media_started s then Inl NoMediaYet
      else case ck_session s of None \<Rightarrow> Inl NoMediaYet | Some sid \<Rightarrow> Inr sid)"

text \<open>
  The start of a clip of a finite or infinite duration is a marker; a \<open>NaN\<close> duration compares
  as neither too long nor too short and \<open>max\<close> then answers zero.
\<close>

definition marker_of :: "pyfloat \<Rightarrow> real" where
  "marker_of x = (case x of Finite a \<Rightarrow> a | _ \<Rightarrow> 0)"

definition request_clip ::
  "int \<Rightarrow> int \<Rightarrow> real \<Rightarrow> pyfloat \<Rightarrow> clip_state \<Rightarrow> (clip_error + clip) \<times> clip_state"
where
  "request_clip chunk_seconds clip_max clock duration s =
     (case require_started s of
        Inl e \<Rightarrow> (Inl e, s)
      | Inr sid \<Rightarrow>
          (let capped = py_min duration (Finite (of_int clip_max)) in
           if float_lt capped (Finite 0) \<or> capped = Finite 0 then (Inl BadDuration, s)
           else map_prod Inr id
             (build_result chunk_seconds clock sid Snap (marker_of (clip_start (ck_media s) capped)) (ck_media s) s)))"

definition request_recording :: "int \<Rightarrow> real \<Rightarrow> clip_state \<Rightarrow> (clip_error + clip) \<times> clip_state" where
  "request_recording chunk_seconds clock s =
     (case require_started s of
        Inl e \<Rightarrow> (Inl e, s)
      | Inr sid \<Rightarrow> map_prod Inr id (build_result chunk_seconds clock sid Recording 0 (ck_media s) s))"

section \<open>Notifications\<close>

definition session_dir :: "clip_state \<Rightarrow> rec_dir option" where
  "session_dir s =
     (case (ck_root s, ck_session s) of
        (Some dirs, Some sid) \<Rightarrow> dict_get dirs sid
      | _ \<Rightarrow> None)"

text \<open>\<open>_fire_ready_clips\<close>: the ready entries, each removed from the list, in request order.\<close>

definition fire_ready_clips :: "rec_dir \<Rightarrow> clip_state \<Rightarrow> clip list \<times> clip_state" where
  "fire_ready_clips d s =
     (let ready = filter (\<lambda>en. boundary_ready d (fst en)) (ck_pending s)
      in (map snd ready, s\<lparr>ck_pending := fold remove1 ready (ck_pending s)\<rparr>))"

text \<open>The loop over closed segments after the last announced one.\<close>

function closed_from :: "rec_dir \<Rightarrow> nat \<Rightarrow> nat list" where
  "closed_from d i = (if boundary_ready d i then i # closed_from d (Suc i) else [])"
  by pat_completeness auto

lemma finite_chunks: "finite {j. has_file d (chunk_name j)}"
proof -
  have "chunk_name ` {j. has_file d (chunk_name j)} \<subseteq> fst ` set (rd_files d)"
    by (auto simp: has_file_def dest: map_of_SomeD intro: rev_image_eqI)
  then have "finite (chunk_name ` {j. has_file d (chunk_name j)})"
    by (rule finite_subset) simp
  then show ?thesis
    by (rule finite_imageD) (auto intro: inj_onI chunk_name_inj)
qed

termination closed_from
proof (relation "measure (\<lambda>(d, i). card {j. i \<le> j \<and> has_file d (chunk_name j)})")
  fix d i
  assume "boundary_ready d i"
  then have "i \<in> {j. i \<le> j \<and> has_file d (chunk_name j)}"
    by (simp add: boundary_ready_def)
  moreover have "i \<notin> {j. Suc i \<le> j \<and> has_file d (chunk_name j)}"
    by simp
  moreover have "{j. Suc i \<le> j \<and> has_file d (chunk_name j)} \<subseteq> {j. i \<le> j \<and> has_file d (chunk_name j)}"
    by auto
  ultimately have "{j. Suc i \<le> j \<and> has_file d (chunk_name j)} \<subset> {j. i \<le> j \<and> has_file d (chunk_name j)}"
    by blast
  moreover have "finite {j. i \<le> j \<and> has_file d (chunk_name j)}"
    by (rule finite_subset [OF _ finite_chunks]) auto
  ultimately show "((d, Suc i), d, i) \<in> measure (\<lambda>(d, i). card {j. i \<le> j \<and> has_file d (chunk_name j)})"
    by (simp add: psubset_card_mono)
qed simp

declare closed_from.simps [simp del]

definition fire_ready_chunks :: "rec_dir \<Rightarrow> clip_state \<Rightarrow> int list \<times> clip_state" where
  "fire_ready_chunks d s =
     (let init = (\<not> ck_announced_init s \<and> init_ready d);
          new = closed_from d (nat (ck_announced s + 1))
      in ((if init then [-1] else []) @ map int new,
          s\<lparr>ck_announced_init := (ck_announced_init s \<or> init),
            ck_announced := ck_announced s + int (length new)\<rparr>))"

section \<open>The HTTP side\<close>

definition hex_char :: "char \<Rightarrow> bool" where
  "hex_char c \<longleftrightarrow> c \<in> set ''0123456789abcdef''"

definition digit_char :: "char \<Rightarrow> bool" where
  "digit_char c \<longleftrightarrow> c \<in> set ''0123456789''"

text \<open>A pattern that ends in \<open>$\<close> also matches before one final newline.\<close>

definition chop_newline :: "string \<Rightarrow> string" where
  "chop_newline s = (if s \<noteq> [] \<and> last s = CHR 0x0A then butlast s else s)"

text \<open>Hexadecimal digits in groups of 8, 4, 4, 4 and 12, with hyphens between them.\<close>

definition uuid_pattern :: "bool list" where
  "uuid_pattern = replicate 8 True @ [False] @ replicate 4 True @ [False] @ replicate 4 True @ [False]
     @ replicate 4 True @ [False] @ replicate 12 True"

definition uuid_shape :: "string \<Rightarrow> bool" where
  "uuid_shape s = list_all2 (\<lambda>hex c. if hex then hex_char c else c = CHR ''-'') uuid_pattern s"

definition session_id_ok :: "string \<Rightarrow> bool" where
  "session_id_ok s = uuid_shape (chop_newline s)"

definition chunk_filename_ok :: "string \<Rightarrow> bool" where
  "chunk_filename_ok s =
     (let f = chop_newline s in
      f = init_filename \<or>
      length f = 15 \<and> take 6 f = ''chunk_'' \<and> list_all digit_char (take 5 (drop 6 f)) \<and> drop 11 f = ''.m4s'')"

text \<open>The served path as its two components below the recordings root.\<close>

definition chunk_path ::
  "(string, rec_dir) dict option \<Rightarrow> string \<Rightarrow> string \<Rightarrow> clip_error + (string \<times> string) option"
where
  "chunk_path dirs sid f =
     (case dirs of
        None \<Rightarrow> Inl SessionGone
      | Some ds \<Rightarrow>
          if \<not> session_id_ok sid then Inl SessionGone
          else case dict_get ds sid of
            None \<Rightarrow> Inl SessionGone
          | Some d \<Rightarrow> if \<not> chunk_filename_ok f then Inr None
                      else Inr (if has_file d f then Some (sid, f) else None))"

datatype manifest_answer = ClipManifest "string list" | Pending nat | Gone

definition manifest_lines :: "int \<Rightarrow> string \<Rightarrow> nat list \<Rightarrow> string list" where
  "manifest_lines cs sid idxs =
     [''#EXTM3U'', ''#EXT-X-VERSION:7'', ''#EXT-X-TARGETDURATION:'' @ decimal (nat cs),
      ''#EXT-X-PLAYLIST-TYPE:VOD'',
      ''#EXT-X-MAP:URI='' @ [CHR 0x22] @ ''/clips/chunks/'' @ sid @ ''/'' @ init_filename @ [CHR 0x22]]
     @ concat (map (\<lambda>i. [''#EXTINF:'' @ decimal (nat cs) @ ''.000,'',
                        ''/clips/chunks/'' @ sid @ ''/'' @ chunk_name i]) idxs)
     @ [''#EXT-X-ENDLIST'']"

definition manifest ::
  "int \<Rightarrow> (string, rec_dir) dict option \<Rightarrow> string \<Rightarrow> pyfloat \<Rightarrow> pyfloat \<Rightarrow> clip_error + manifest_answer"
where
  "manifest cs dirs sid st en =
     (case dirs of
        None \<Rightarrow> Inr Gone
      | Some ds \<Rightarrow>
          if \<not> session_id_ok sid then Inr Gone
          else case (st, en) of
            (Finite a, Finite b) \<Rightarrow>
              if a < 0 then Inl BadRange
              else if b \<le> a then Inl BadRange
              else if cs \<le> 0 then Inr Gone
              else (case dict_get ds sid of
                      None \<Rightarrow> Inr Gone
                    | Some d \<Rightarrow>
                        (let first = nat (max 0 \<lfloor>a / of_int cs\<rfloor>);
                             final = max first (nat (\<lceil>b / of_int cs\<rceil> - 1))
                         in if \<not> boundary_ready d final
                            then Inr (if rd_incomplete d \<noteq> None then Gone else Pending 2)
                            else Inr (ClipManifest (manifest_lines cs sid [first..<Suc final]))))
          | _ \<Rightarrow> Inl BadRange)"

section \<open>Retention\<close>

definition retention_seconds :: real where
  "retention_seconds = 300"

text \<open>One sweep of \<open>_reap_expired\<close> over the directories, \<open>active\<close> being the claimed one.\<close>

definition reap_step ::
  "real \<Rightarrow> string option \<Rightarrow> (string, rec_dir) dict \<Rightarrow> string \<times> rec_dir \<Rightarrow> (string, rec_dir) dict"
where
  "reap_step now active acc nd =
     (if active = Some (fst nd) then acc
      else case ended_at (snd nd) of
        None \<Rightarrow> acc
      | Some t \<Rightarrow> if now - t \<le> retention_seconds then acc else dict_del (fst nd) acc)"

definition reap_expired ::
  "real \<Rightarrow> string option \<Rightarrow> (string, rec_dir) dict \<Rightarrow> (string, rec_dir) dict"
where
  "reap_expired now active ds = foldl (reap_step now active) ds ds"

text \<open>The directory part of \<open>start\<close>: claim the directory and clear its end markers.\<close>

definition claim_dir :: "string \<Rightarrow> (string, rec_dir) dict \<Rightarrow> (string, rec_dir) dict" where
  "claim_dir sid ds =
     (let d = (case dict_get ds sid of
                 Some d \<Rightarrow> d
               | None \<Rightarrow> \<lparr>rd_files = [], rd_complete = None, rd_incomplete = None\<rparr>)
      in dict_set sid (d\<lparr>rd_complete := None, rd_incomplete := None\<rparr>) ds)"

definition start_clips :: "string \<Rightarrow> clip_state \<Rightarrow> clip_state" where
  "start_clips sid s =
     s\<lparr>ck_disabled := False, ck_session := Some sid, ck_media := 0, ck_media_started := False,
       ck_pending := [], ck_announced_init := False, ck_announced := -1,
       ck_root := Some (claim_dir sid (case ck_root s of None \<Rightarrow> [] | Some ds \<Rightarrow> ds))\<rparr>"

text \<open>The marker \<open>stop\<close> writes: complete when the encoder closed its output.\<close>

definition mark_ended :: "real \<Rightarrow> bool \<Rightarrow> rec_dir \<Rightarrow> rec_dir" where
  "mark_ended now sealed d =
     (if sealed then d\<lparr>rd_complete := Some now\<rparr> else d\<lparr>rd_incomplete := Some now\<rparr>)"

definition stop_clips :: "real \<Rightarrow> bool \<Rightarrow> clip_state \<Rightarrow> (int list \<times> clip list) \<times> clip_state" where
  "stop_clips now sealed s =
     (case (ck_root s, ck_session s) of
        (Some ds, Some sid) \<Rightarrow>
          (case dict_get ds sid of
             None \<Rightarrow> (([], []), s\<lparr>ck_disabled := True\<rparr>)
           | Some d \<Rightarrow>
               (let d' = mark_ended now sealed d;
                    s1 = s\<lparr>ck_disabled := True, ck_root := Some (dict_set sid d' ds)\<rparr>;
                    (chunks, s2) = fire_ready_chunks d' s1;
                    (clips, s3) = fire_ready_clips d' s2
                in ((chunks, clips), s3)))
      | _ \<Rightarrow> (([], []), s\<lparr>ck_disabled := True\<rparr>))"

section \<open>Announcements\<close>

lemma closed_from_prefix: "closed_from d i = [i..<i + length (closed_from d i)]"
proof (induction d i rule: closed_from.induct)
  case (1 d i)
  show ?case
  proof (cases "boundary_ready d i")
    case True
    then have "closed_from d i = i # closed_from d (Suc i)"
      by (subst closed_from.simps) simp
    moreover have "closed_from d (Suc i) = [Suc i..<Suc i + length (closed_from d (Suc i))]"
      by (rule 1 [OF True])
    ultimately show ?thesis
      by (metis add_Suc_right add_Suc_shift le_add1 length_Cons less_add_Suc1 upt_conv_Cons)
  qed (subst (1 2) closed_from.simps, simp)
qed

lemma closed_from_ready: "j \<in> set (closed_from d i) \<Longrightarrow> boundary_ready d j"
proof (induction d i rule: closed_from.induct)
  case (1 d i)
  then show ?case
    by (cases "boundary_ready d i") (auto simp: closed_from.simps [of d i])
qed

lemma closed_from_complete:
  "(\<forall>k. i \<le> k \<and> k \<le> j \<longrightarrow> boundary_ready d k) \<Longrightarrow> i \<le> j \<Longrightarrow> j \<in> set (closed_from d i)"
proof (induction d i rule: closed_from.induct)
  case (1 d i)
  then have ready: "boundary_ready d i"
    by blast
  then have eq: "closed_from d i = i # closed_from d (Suc i)"
    by (subst closed_from.simps) simp
  show ?case
  proof (cases "i = j")
    case False
    then have "j \<in> set (closed_from d (Suc i))"
      using 1 ready by auto
    with eq show ?thesis
      by simp
  qed (use eq in auto)
qed

text \<open>The watcher: polls over the directory as it is at each of them, and what they announced.\<close>

definition poll_chunks :: "int list \<times> clip_state \<Rightarrow> rec_dir \<Rightarrow> int list \<times> clip_state" where
  "poll_chunks acc d = (case fire_ready_chunks d (snd acc) of (new, s) \<Rightarrow> (fst acc @ new, s))"

definition announced_ok :: "int list \<times> clip_state \<Rightarrow> bool" where
  "announced_ok acc \<longleftrightarrow>
     -1 \<le> ck_announced (snd acc)
   \<and> filter (\<lambda>i. 0 \<le> i) (fst acc) = map int [0..<nat (ck_announced (snd acc) + 1)]
   \<and> filter (\<lambda>i. i < 0) (fst acc) = (if ck_announced_init (snd acc) then [-1] else [])"

lemma filter_map_int [simp]:
  "filter (\<lambda>i. 0 \<le> i) (map int xs) = map int xs"
  "filter (\<lambda>i. i < 0) (map int xs) = []"
  by (simp_all add: filter_map comp_def)

lemma poll_chunks_eq:
  assumes "nat (ck_announced s + 1) = n"
  shows "poll_chunks (ann, s) d =
    (ann @ (if \<not> ck_announced_init s \<and> init_ready d then [-1] else []) @ map int (closed_from d n),
     s\<lparr>ck_announced_init := (ck_announced_init s \<or> \<not> ck_announced_init s \<and> init_ready d),
       ck_announced := ck_announced s + int (length (closed_from d n))\<rparr>)"
  using assms by (simp add: poll_chunks_def fire_ready_chunks_def Let_def)

interpretation watcher: step_invariant poll_chunks announced_ok
proof
  fix acc d
  assume ok: "announced_ok acc"
  obtain ann s where acc: "acc = (ann, s)"
    by (cases acc)
  define n where "n = nat (ck_announced s + 1)"
  let ?m = "length (closed_from d n)"
  have a: "ck_announced s = int n - 1"
    using ok by (simp add: announced_ok_def n_def acc)
  have "[0..<n] @ closed_from d n = [0..<n + ?m]"
    using closed_from_prefix [of d n] upt_add_eq_append [of 0 n ?m] by simp
  then have "map int [0..<n] @ map int (closed_from d n) = map int [0..<n + ?m]"
    by (metis map_append)
  moreover have "filter (\<lambda>i. 0 \<le> i) ann = map int [0..<n]"
    "filter (\<lambda>i. i < 0) ann = (if ck_announced_init s then [-1] else [])"
    using ok by (simp_all add: announced_ok_def acc n_def)
  moreover have "nat (int n + int ?m) = n + ?m"
    by simp
  ultimately show "announced_ok (poll_chunks acc d)"
    unfolding acc poll_chunks_eq [OF n_def [symmetric]] announced_ok_def by (simp add: a)
qed

text \<open>
  C32. Each segment is announced exactly once and in order. Over any number of polls, and
  however the directory changes between them, the announced media segments are 0, 1, 2
  and so on without a gap or a repetition, the init segment at most once; what a poll
  announces is closed on disk at that moment, and after it no closed run of segments
  starting at zero is left unannounced.
\<close>

theorem chunks_announced_once:
  assumes run: "foldl poll_chunks ([], start_clips sid s0) ds = (ann, s)"
    and poll: "poll_chunks (ann, s) d = (ann', s')"
  shows "filter (\<lambda>i. 0 \<le> i) ann' = map int [0..<nat (ck_announced s' + 1)]
    \<and> length (filter (\<lambda>i. i < 0) ann') \<le> 1
    \<and> (\<forall>i\<in>set (drop (length ann) ann'). 0 \<le> i \<longrightarrow> boundary_ready d (nat i))
    \<and> (\<forall>j. (\<forall>k\<le>j. boundary_ready d k) \<longrightarrow> int j \<le> ck_announced s')"
proof -
  have "announced_ok ([], start_clips sid s0)"
    by (simp add: announced_ok_def start_clips_def)
  then have ok: "announced_ok (ann, s)"
    using watcher.run_keeps run by metis
  then have ok': "announced_ok (ann', s')"
    using watcher.step_keeps poll by metis
  define n where "n = nat (ck_announced s + 1)"
  have a: "ck_announced s = int n - 1"
    using ok by (simp add: announced_ok_def n_def)
  have ann': "ann' = ann @ (if \<not> ck_announced_init s \<and> init_ready d then [-1] else []) @ map int (closed_from d n)"
    and s': "ck_announced s' = ck_announced s + int (length (closed_from d n))"
    using poll unfolding poll_chunks_eq [OF n_def [symmetric]] by auto
  have new: "boundary_ready d (nat i)" if "i \<in> set (drop (length ann) ann')" "0 \<le> i" for i
    using that by (auto simp: ann' closed_from_ready split: if_splits)
  have all: "int j \<le> ck_announced s'" if "\<forall>k\<le>j. boundary_ready d k" for j
  proof (cases "n \<le> j")
    case True
    then have "j \<in> set (closed_from d n)"
      using that by (intro closed_from_complete) auto
    then have "j < n + length (closed_from d n)"
      using closed_from_prefix [of d n] by (metis atLeastLessThan_iff set_upt)
    then show ?thesis
      using s' a by simp
  qed (use s' a in simp)
  show ?thesis
    using ok' new all by (auto simp: announced_ok_def)
qed

definition example_dir :: rec_dir where
  "example_dir = \<lparr>rd_files = [(init_filename, 10), (chunk_name 0, 5), (chunk_name 1, 5)],
     rd_complete = None, rd_incomplete = None\<rparr>"

definition empty_clips :: clip_state where
  "empty_clips = \<lparr>ck_disabled = False, ck_session = None, ck_media = 0, ck_media_started = False, ck_pending = [],
     ck_announced_init = False, ck_announced = -1, ck_root = None\<rparr>"

lemma chunk_name_simps [simp]:
  "chunk_name i = chunk_name j \<longleftrightarrow> i = j"
  "chunk_name i \<noteq> init_filename" "init_filename \<noteq> chunk_name i"
  by (auto simp: chunk_name_inj) (auto simp: chunk_name_def init_filename_def)

lemma example_dir_ready: "boundary_ready example_dir 0" "\<not> boundary_ready example_dir 1" "init_ready example_dir"
  by (simp_all add: boundary_ready_def init_ready_def has_file_def example_dir_def)

theorem chunks_announced_once_witness:
  "\<exists>ann s. foldl poll_chunks ([], start_clips ''r'' empty_clips) [] = (ann, s)
     \<and> (\<exists>ann' s'. poll_chunks (ann, s) example_dir = (ann', s') \<and> 0 \<le> ck_announced s')"
proof -
  let ?s = "start_clips ''r'' empty_clips"
  obtain ann' s' where p: "poll_chunks ([], ?s) example_dir = (ann', s')"
    by fastforce
  have "int 0 \<le> ck_announced s'"
    using chunks_announced_once [of "''r''" empty_clips "[]", OF _ p] example_dir_ready(1) by auto
  with p show ?thesis
    by auto
qed

section \<open>A clip that is announced can be fetched\<close>

lemma remove1_ready:
  "\<forall>z\<in>set zs. \<not> P z \<Longrightarrow> fold remove1 (filter P ys) (zs @ ys) = zs @ filter (\<lambda>y. \<not> P y) ys"
proof (induction ys arbitrary: zs)
  case (Cons y ys)
  show ?case
  proof (cases "P y")
    case True
    then have "y \<notin> set zs"
      using Cons.prems by blast
    then show ?thesis
      using Cons True by (simp add: remove1_append)
  next
    case False
    then show ?thesis
      using Cons.IH [of "zs @ [y]"] Cons.prems by auto
  qed
qed simp

lemma fire_ready_clips_split:
  "fire_ready_clips d s =
     (map snd (filter (\<lambda>en. boundary_ready d (fst en)) (ck_pending s)),
      s\<lparr>ck_pending := filter (\<lambda>en. \<not> boundary_ready d (fst en)) (ck_pending s)\<rparr>)"
  using remove1_ready [of "[]" "\<lambda>en. boundary_ready d (fst en)" "ck_pending s"]
  by (simp add: fire_ready_clips_def Let_def)

definition pending_ok :: "int \<Rightarrow> clip_state \<Rightarrow> bool" where
  "pending_ok cs s \<longleftrightarrow>
     (\<forall>(i, c)\<in>set (ck_pending s). i = boundary_index (cl_end c) cs \<and> 0 \<le> cl_start c
        \<and> cl_url c = (cl_session c, round3 (cl_start c), round3 (cl_end c)))"

lemma build_result_ok:
  "pending_ok cs s \<Longrightarrow> 0 \<le> st \<Longrightarrow> pending_ok cs (snd (build_result cs clock sid kind st en s))"
  by (auto simp: pending_ok_def build_result_def Let_def)

lemma clip_start_nonneg: "0 \<le> marker_of (clip_start now duration)"
  by (cases duration) (auto simp: clip_start_def py_max_def marker_of_def)

text \<open>Requests, polls and stops keep it; a start has nothing pending.\<close>

lemma request_clip_ok: "pending_ok cs s \<Longrightarrow> pending_ok cs (snd (request_clip cs clip_max clock duration s))"
  using build_result_ok clip_start_nonneg
  by (auto simp: request_clip_def Let_def split: sum.splits)

lemma request_recording_ok: "pending_ok cs s \<Longrightarrow> pending_ok cs (snd (request_recording cs clock s))"
  using build_result_ok by (auto simp: request_recording_def split: sum.splits)

lemma fire_ready_clips_ok: "pending_ok cs s \<Longrightarrow> pending_ok cs (snd (fire_ready_clips d s))"
  by (auto simp: pending_ok_def fire_ready_clips_split)

datatype clip_op = RequestClip real pyfloat | RequestRecording real | Poll rec_dir | Media real

definition clip_step :: "int \<Rightarrow> int \<Rightarrow> clip list \<times> clip_state \<Rightarrow> clip_op \<Rightarrow> clip list \<times> clip_state" where
  "clip_step cs clip_max acc op =
     (case op of
        RequestClip clock duration \<Rightarrow> (fst acc, snd (request_clip cs clip_max clock duration (snd acc)))
      | RequestRecording clock \<Rightarrow> (fst acc, snd (request_recording cs clock (snd acc)))
      | Poll d \<Rightarrow> (case fire_ready_clips d (snd acc) of (fired, s) \<Rightarrow> (fst acc @ fired, s))
      | Media m \<Rightarrow> (fst acc, (snd acc)\<lparr>ck_media := m, ck_media_started := True\<rparr>))"

interpretation clips: step_invariant "clip_step cs clip_max" "\<lambda>acc. pending_ok cs (snd acc)" for cs clip_max
proof
  fix acc :: "clip list \<times> clip_state" and op
  assume ok: "pending_ok cs (snd acc)"
  show "pending_ok cs (snd (clip_step cs clip_max acc op))"
  proof (cases op)
    case (Poll d)
    then show ?thesis
      using fire_ready_clips_ok [OF ok, of d] by (simp add: clip_step_def split_beta)
  next
    case (Media m)
    then show ?thesis
      using ok by (simp add: clip_step_def pending_ok_def)
  qed (use ok in \<open>simp_all add: clip_step_def request_clip_ok request_recording_ok\<close>)
qed

text \<open>Rounding a marker to milliseconds never crosses a segment boundary upwards.\<close>

lemma round3_ceiling:
  assumes "0 < cs"
  shows "\<lceil>round3 e / of_int cs\<rceil> \<le> \<lceil>e / of_int cs\<rceil>"
proof -
  define c where "c = \<lceil>e / of_int cs\<rceil>"
  have "e / of_int cs \<le> of_int c"
    by (simp add: c_def)
  then have "e \<le> of_int c * of_int cs"
    using assms by (simp add: divide_le_eq)
  then have "e * 1000 \<le> of_int (c * cs * 1000)"
    by simp
  then have "py_round (e * 1000) \<le> c * cs * 1000"
    by (rule py_round_mono_int)
  then have "real_of_int (py_round (e * 1000)) \<le> real_of_int (c * cs * 1000)"
    by (simp only: of_int_le_iff)
  then have "round3 e \<le> of_int c * of_int cs"
    by (simp add: round3_def)
  then have "round3 e / of_int cs \<le> of_int c"
    using assms by (simp add: divide_le_eq)
  then show ?thesis
    unfolding c_def [symmetric] by (simp add: ceiling_le_iff)
qed

text \<open>The muxer numbers segments from zero without a gap.\<close>

definition contiguous :: "rec_dir \<Rightarrow> bool" where
  "contiguous d \<longleftrightarrow> (\<forall>i. has_file d (chunk_name (Suc i)) \<longrightarrow> has_file d (chunk_name i))"

lemma contiguous_le: "contiguous d \<Longrightarrow> i \<le> j \<Longrightarrow> has_file d (chunk_name j) \<Longrightarrow> has_file d (chunk_name i)"
  by (induction j) (auto simp: contiguous_def le_Suc_eq)

lemma boundary_ready_le:
  assumes "contiguous d" "boundary_ready d j" "i \<le> j"
  shows "boundary_ready d i"
proof (cases "i = j")
  case False
  then have "Suc i \<le> j"
    using assms(3) by simp
  then show ?thesis
    using assms contiguous_le [of d _ j] unfolding boundary_ready_def by (metis Suc_eq_plus1)
qed (use assms in simp)

lemma round3_nonneg: "0 \<le> x \<Longrightarrow> 0 \<le> round3 x"
  by (simp add: round3_def py_round_nonneg)

text \<open>The segments of the media between two markers.\<close>

definition segments_between :: "int \<Rightarrow> real \<Rightarrow> real \<Rightarrow> nat list" where
  "segments_between cs a b = [nat \<lfloor>a / of_int cs\<rfloor>..<nat \<lceil>b / of_int cs\<rceil>]"

lemma manifest_ready:
  assumes d: "dict_get ds sid = Some d" and "session_id_ok sid" and cs: "0 < cs"
    and st: "0 \<le> st" and lt: "round3 st < round3 en"
    and cont: "contiguous d" and ready: "boundary_ready d (boundary_index en cs)"
  defines "segs \<equiv> segments_between cs (round3 st) (round3 en)"
  shows "manifest cs (Some ds) sid (Finite (round3 st)) (Finite (round3 en)) = Inr (ClipManifest (manifest_lines cs sid segs))
    \<and> segs \<noteq> [] \<and> list_all (boundary_ready d) segs"
proof -
  define first where "first = nat (max 0 \<lfloor>round3 st / of_int cs\<rfloor>)"
  define final where "final = max first (nat (\<lceil>round3 en / of_int cs\<rceil> - 1))"
  have nonneg: "0 \<le> round3 st / of_int cs"
    using round3_nonneg [OF st] cs by simp
  have "round3 st / of_int cs < round3 en / of_int cs"
    using lt cs by (simp add: divide_strict_right_mono)
  then have le: "\<lfloor>round3 st / of_int cs\<rfloor> \<le> \<lceil>round3 en / of_int cs\<rceil> - 1" and pos: "0 < \<lceil>round3 en / of_int cs\<rceil>"
    using nonneg by linarith+
  then have fin: "final = nat (\<lceil>round3 en / of_int cs\<rceil> - 1)"
    by (simp add: final_def first_def)
  then have bound: "final \<le> boundary_index en cs"
    using round3_ceiling [OF cs, of en] cs by (simp add: boundary_index_def)
  have fr: "boundary_ready d i" if "i \<le> final" for i
    using boundary_ready_le [OF cont ready] that bound by simp
  have segs: "segs = [first..<Suc final]"
    using nonneg pos by (simp add: segs_def segments_between_def first_def fin Suc_nat_eq_nat_zadd1 del: upt_Suc)
  have "manifest cs (Some ds) sid (Finite (round3 st)) (Finite (round3 en)) = Inr (ClipManifest (manifest_lines cs sid [first..<Suc final]))"
    using d assms(2) cs lt round3_nonneg [OF st] fr [of final] unfolding final_def first_def
    by (simp add: manifest_def Let_def del: upt_Suc)
  moreover have "first \<le> final"
    by (simp add: final_def)
  ultimately show ?thesis
    unfolding segs using fr by (auto simp: list_all_iff simp del: upt_Suc)
qed

text \<open>
  C31. A clip that is announced as ready can be fetched whole. After any sequence of requests and
  polls, when a poll fires a clip, the manifest for the range in the clip's own playlist URL, which
  carries its markers rounded to milliseconds, is served at once from the same directory, lists
  exactly the segments of the media between the two markers, and each of them is closed on disk:
  rounding never asks for a later segment than the one the watcher waited for. This is for a clip
  whose two markers differ after the rounding, a recording named by a session id the clip routes
  take, a positive segment length, and a directory in which the muxer has numbered the segments
  from zero without a gap.
\<close>

theorem ready_clip_fetchable:
  assumes "snd (foldl (clip_step cs clip_max) ([], start_clips sid0 s0) ops) = s"
    and "c \<in> set (fst (fire_ready_clips d s))" and "cl_url c = (sid, a, b)" and "a < b"
    and "dict_get ds sid = Some d" and "session_id_ok sid" and "0 < cs" and "contiguous d"
  shows "manifest cs (Some ds) sid (Finite a) (Finite b) = Inr (ClipManifest (manifest_lines cs sid (segments_between cs a b)))
    \<and> segments_between cs a b \<noteq> [] \<and> list_all (boundary_ready d) (segments_between cs a b)"
proof -
  have "pending_ok cs (snd ([], start_clips sid0 s0))"
    by (simp add: pending_ok_def start_clips_def)
  then have "pending_ok cs s"
    using clips.run_keeps [of cs "([], start_clips sid0 s0)" clip_max ops] assms(1) by simp
  moreover obtain i where "(i, c) \<in> set (ck_pending s)" and ready: "boundary_ready d i"
    using assms(2) by (auto simp: fire_ready_clips_split)
  ultimately have i: "i = boundary_index (cl_end c) cs" and st: "0 \<le> cl_start c"
    and url: "cl_url c = (cl_session c, round3 (cl_start c), round3 (cl_end c))"
    by (auto simp: pending_ok_def)
  then have ab: "a = round3 (cl_start c)" "b = round3 (cl_end c)"
    using assms(3) by auto
  show ?thesis
    using manifest_ready [OF assms(5-7) st _ assms(8)] ready i assms(4) unfolding ab by simp
qed

definition example_id :: string where
  "example_id = ''01234567-89ab-cdef-0123-456789abcdef''"

lemma example_id_ok: "session_id_ok example_id"
  by code_simp

lemma py_round_3000: "py_round 3000 = 3000"
  using py_round_of_int [of 3000] by simp

lemma py_round_0 [simp]: "py_round 0 = 0"
  using py_round_of_int [of 0] by simp

theorem ready_clip_fetchable_witness:
  "manifest 4 (Some [(example_id, example_dir)]) example_id (Finite 0) (Finite 3) =
     Inr (ClipManifest (manifest_lines 4 example_id (segments_between 4 0 3)))"
proof -
  define s where "s = snd (foldl (clip_step 4 300) ([], start_clips example_id empty_clips) [Media 3, RequestRecording 0])"
  define c where "c = fst (build_result 4 0 example_id Recording 0 3 empty_clips)\<lparr>cl_now := 3, cl_ready_at_ms := 1000\<rparr>"
  have "boundary_index 3 4 = 0"
    by (simp add: boundary_index_def)
  moreover have "py_round 1000 = 1000"
    using py_round_of_int [of 1000] by simp
  ultimately have "ck_pending s = [(0, c)]"
    by (simp add: s_def c_def clip_step_def request_recording_def require_started_def start_clips_def
        build_result_def Let_def)
  then have fired: "c \<in> set (fst (fire_ready_clips example_dir s))"
    by (simp add: fire_ready_clips_split example_dir_ready)
  have url: "cl_url c = (example_id, 0, 3)"
    by (simp add: c_def build_result_def Let_def round3_def py_round_3000)
  have cont: "contiguous example_dir"
    by (simp add: contiguous_def has_file_def example_dir_def)
  show ?thesis
    by (rule ready_clip_fetchable [OF s_def [symmetric] fired url _ _ example_id_ok _ cont, THEN conjunct1]) simp_all
qed

text \<open>
  A clip too short for the millisecond rounding has an empty range in its URL, and its own
  manifest request is malformed; a \<open>NaN\<close> duration passes both comparisons and yields the
  whole session whatever the configured maximum; and a session recorded under an id used
  before announces the earlier run's segments before a frame of its own exists.
\<close>

lemma short_clip_range_empty:
  assumes "session_id_ok sid" "0 \<le> a"
  shows "manifest cs (Some ds) sid (Finite a) (Finite a) = Inl BadRange"
  using assms by (simp add: manifest_def)

lemma nan_duration_uncapped:
  assumes "require_started s = Inr sid"
  shows "\<exists>c s'. request_clip cs clip_max clock NaN s = (Inr c, s') \<and> cl_start c = 0 \<and> cl_end c = ck_media s"
  using assms
  by (simp add: request_clip_def py_min_def clip_start_def py_max_def marker_of_def build_result_def Let_def)

definition used_state :: clip_state where
  "used_state = empty_clips\<lparr>ck_root := Some [(example_id, example_dir\<lparr>rd_complete := Some 0\<rparr>)]\<rparr>"

lemma reused_id_announces_stale:
  "session_dir (start_clips example_id used_state) = Some example_dir
   \<and> fst (fire_ready_chunks example_dir (start_clips example_id used_state)) = [-1, 0]"
proof -
  have "closed_from example_dir 0 = [0]"
    using example_dir_ready by (simp add: closed_from.simps)
  then show ?thesis
    using example_dir_ready(3)
    by (simp add: session_dir_def start_clips_def used_state_def claim_dir_def fire_ready_chunks_def example_dir_def)
qed

section \<open>Served paths\<close>

lemma chop_newline_set: "set s \<subseteq> insert (CHR 0x0A) (set (chop_newline s))"
  by (cases s rule: rev_cases) (auto simp: chop_newline_def)

lemma list_all2_snd: "list_all2 P xs ys \<Longrightarrow> y \<in> set ys \<Longrightarrow> \<exists>x. P x y"
  by (induction xs ys rule: list_all2_induct) auto

lemma uuid_chars: "uuid_shape s \<Longrightarrow> c \<in> set s \<Longrightarrow> c = CHR ''-'' \<or> hex_char c"
  unfolding uuid_shape_def by (drule (1) list_all2_snd) (auto split: if_splits)

lemma artifact_chars:
  assumes "chunk_filename_ok f"
  shows "CHR ''/'' \<notin> set f"
proof -
  define g where "g = chop_newline f"
  have "CHR ''/'' \<notin> set g"
  proof (cases "g = init_filename")
    case True
    then show ?thesis
      by (simp add: init_filename_def)
  next
    case False
    then have g: "take 6 g = ''chunk_''" "list_all digit_char (take 5 (drop 6 g))" "drop 11 g = ''.m4s''"
      using assms by (auto simp: chunk_filename_ok_def Let_def g_def)
    have "take 6 g @ take 5 (drop 6 g) @ drop 5 (drop 6 g) = g"
      by (simp only: append_take_drop_id)
    then have parts: "g = ''chunk_'' @ take 5 (drop 6 g) @ ''.m4s''"
      using g(1,3) by simp
    have "CHR ''/'' \<notin> set (take 5 (drop 6 g))"
      using g(2) by (auto simp: list_all_iff digit_char_def)
    then show ?thesis
      by (subst parts) simp
  qed
  then show ?thesis
    using chop_newline_set [of f] by (auto simp: g_def)
qed

lemma session_id_chars:
  assumes "session_id_ok sid"
  shows "CHR ''/'' \<notin> set sid" "CHR ''.'' \<notin> set sid"
proof -
  have plain: "c = CHR 0x0A \<or> c = CHR ''-'' \<or> hex_char c" if "c \<in> set sid" for c
    using that assms chop_newline_set [of sid] uuid_chars [of "chop_newline sid" c]
    unfolding session_id_ok_def by blast
  have "\<not> hex_char CHR ''/''" "\<not> hex_char CHR ''.''"
    by (simp_all add: hex_char_def)
  then show "CHR ''/'' \<notin> set sid" "CHR ''.'' \<notin> set sid"
    using plain [of "CHR ''/''"] plain [of "CHR ''.''"] by auto
qed

lemma parent_not_artifact: "\<not> chunk_filename_ok ''..''"
  by (simp add: chunk_filename_ok_def chop_newline_def init_filename_def Let_def)

lemma chunk_path_served:
  assumes "chunk_path dirs sid f = Inr (Some p)"
  shows "\<exists>ds d. dirs = Some ds \<and> session_id_ok sid \<and> dict_get ds sid = Some d \<and> chunk_filename_ok f
    \<and> has_file d f \<and> p = (sid, f)"
proof (cases dirs)
  case (Some ds)
  then show ?thesis
    using assms
    by (cases "session_id_ok sid"; cases "dict_get ds sid"; cases "chunk_filename_ok f";
        cases "has_file (the (dict_get ds sid)) f") (simp_all add: chunk_path_def)
qed (use assms in \<open>simp add: chunk_path_def\<close>)

text \<open>
  A segment request never leaves the recordings root: a path is served only for a
  directory entry and a file entry that exist, neither of which contains a separator or is
  a parent reference, whatever the URL's two segments were.
\<close>

theorem chunk_path_stays_inside:
  assumes "chunk_path dirs sid f = Inr (Some (a, b))"
  shows "a = sid \<and> b = f \<and> CHR ''/'' \<notin> set a \<and> CHR ''/'' \<notin> set b \<and> CHR ''.'' \<notin> set a
    \<and> b \<noteq> ''..'' \<and> (\<exists>ds d. dirs = Some ds \<and> dict_get ds a = Some d \<and> has_file d b)"
proof -
  obtain ds d where d: "dirs = Some ds" "session_id_ok sid" "dict_get ds sid = Some d" "chunk_filename_ok f"
    "has_file d f" "(a, b) = (sid, f)"
    using chunk_path_served [OF assms] by blast
  have "f \<noteq> ''..''"
    using d(4) parent_not_artifact by blast
  then show ?thesis
    using d session_id_chars [OF d(2)] artifact_chars [OF d(4)] by blast
qed

theorem chunk_path_stays_inside_witness:
  "chunk_path (Some [(example_id, example_dir)]) example_id (chunk_name 1) = Inr (Some (example_id, chunk_name 1))
   \<and> CHR ''/'' \<notin> set (chunk_name 1)"
proof -
  have "chunk_filename_ok (chunk_name 1)"
    by code_simp
  then have p: "chunk_path (Some [(example_id, example_dir)]) example_id (chunk_name 1)
      = Inr (Some (example_id, chunk_name 1))"
    by (simp add: chunk_path_def example_id_ok has_file_def example_dir_def)
  from p chunk_path_stays_inside [OF p] show ?thesis
    by blast
qed

section \<open>Retention\<close>

definition expired :: "real \<Rightarrow> string option \<Rightarrow> string \<times> rec_dir \<Rightarrow> bool" where
  "expired now active nd \<longleftrightarrow>
     active \<noteq> Some (fst nd) \<and> (\<exists>t. ended_at (snd nd) = Some t \<and> retention_seconds < now - t)"

lemma reap_step_get:
  "dict_get (reap_step now active acc nd) n = (if expired now active nd \<and> n = fst nd then None else dict_get acc n)"
  by (auto simp: reap_step_def expired_def dict_simps split: option.splits)

lemma reap_fold:
  assumes "wf_dict ds"
  shows "dict_get (foldl (reap_step now active) acc ds) n
    = (if \<exists>d. (n, d) \<in> set ds \<and> expired now active (n, d) then None else dict_get acc n)"
  using assms
proof (induction ds arbitrary: acc)
  case (Cons nd ds)
  have "dict_get (foldl (reap_step now active) (reap_step now active acc nd) ds) n
      = (if \<exists>d. (n, d) \<in> set ds \<and> expired now active (n, d) then None
         else if expired now active nd \<and> n = fst nd then None else dict_get acc n)"
    using Cons.IH [of "reap_step now active acc nd"] Cons.prems unfolding reap_step_get by auto
  then show ?case
    by (cases nd) auto
qed simp

text \<open>
  A sweep deletes exactly what has aged out: a directory goes when its recording ended,
  completely or not, more than five minutes ago and it is not the one a session has
  claimed; an unfinished recording, the claimed one and everything younger stay untouched.
\<close>

theorem reap_exact:
  assumes "wf_dict ds"
  shows "dict_get (reap_expired now active ds) n =
    (case dict_get ds n of
       None \<Rightarrow> None
     | Some d \<Rightarrow> if expired now active (n, d) then None else Some d)"
proof -
  have "(\<exists>d. (n, d) \<in> set ds \<and> expired now active (n, d)) \<longleftrightarrow>
      (\<exists>d. dict_get ds n = Some d \<and> expired now active (n, d))"
    using assms by (simp add: map_of_eq_Some_iff)
  then show ?thesis
    unfolding reap_expired_def reap_fold [OF assms] by (auto split: option.splits)
qed

theorem reap_exact_witness:
  "wf_dict [(''a'', mark_ended 0 True example_dir), (''b'', example_dir)]
   \<and> dict_get (reap_expired 301 None [(''a'', mark_ended 0 True example_dir), (''b'', example_dir)]) ''a'' = None
   \<and> dict_get (reap_expired 301 None [(''a'', mark_ended 0 True example_dir), (''b'', example_dir)]) ''b'' = Some example_dir"
proof -
  have wf: "wf_dict [(''a'', mark_ended 0 True example_dir), (''b'', example_dir)]"
    by simp
  show ?thesis
    unfolding reap_exact [OF wf]
    by (simp add: expired_def ended_at_def mark_ended_def retention_seconds_def example_dir_def)
qed

end
