(* ===== verification/ModelClient.thy ===== *)
theory ModelClient
  imports Prelude
begin

text \<open>
  The application's connection to its model server (\<^verbatim>\<open>model_server/client.py\<close>) and the
  messages of \<^verbatim>\<open>model_server/protocol.py\<close> it exchanges.

  One call runs at a time (the call lock); the reader thread and a close from another
  thread run beside it. A call takes the list of what happens on those threads while it
  waits; the end of that list is the deadline of a bounded wait, or the present moment of
  an unbounded one. The link is a parameter: every send says whether it went through
  (\<open>Sent\<close>), found the link gone, or failed to encode the message. \<open>mc_sent\<close>, \<open>mc_lost_calls\<close>
  and \<open>mc_link_closes\<close> record what the client did to the outside.
\<close>

section \<open>Messages and errors\<close>

text \<open>An exception: its class, and for a batch failure its cause.\<close>

datatype exn = Exn string | BatchFailedExn exn | ModelServerErrorExn string

text \<open>A failure carries the pickled exception (\<open>None\<close> when it cannot be rebuilt here).\<close>

datatype 'r to_session =
    Welcome nat nat nat
  | Refused string
  | Result nat 'r
  | Failed nat "exn option" string bool
  | ResetDone nat nat

datatype 'q to_server =
    Hello nat nat
  | StepMsg nat "real option" 'q
  | Cancel nat
  | SignalMsg 'q
  | ResetMsg nat "string option"

definition PROTOCOL :: nat where
  "PROTOCOL = 1"

definition error_of :: "exn option \<Rightarrow> string \<Rightarrow> bool \<Rightarrow> exn" where
  "error_of err description is_batch =
     (case err of
        Some x \<Rightarrow> (case x of BatchFailedExn c \<Rightarrow> x | _ \<Rightarrow> if is_batch then BatchFailedExn x else x)
      | None \<Rightarrow> if is_batch then BatchFailedExn (ModelServerErrorExn description)
                else ModelServerErrorExn description)"

datatype link_state = OPEN | LOST | CLOSED

datatype ended_kind = ModelServerLost | ClientClosed

datatype client_error =
    Ended ended_kind
  | ResetRequired
  | StepTimedOut
  | BadTimeout
  | ModelRaised exn
  | NotEncoded
  | NoAnswerKind

section \<open>State\<close>

record ('q, 'r) client =
  mc_state :: link_state
  mc_ended :: "ended_kind option"
  mc_reset_required :: bool
  mc_next_id :: nat
  mc_generation :: nat
  mc_replies :: "(nat, 'r to_session) dict"
  mc_waiting :: "nat option"
  mc_step_timeout :: "real option"
  mc_sent :: "'q to_server list"
  mc_lost_calls :: nat
  mc_link_closes :: nat

text \<open>\<open>__init__\<close>, on the link \<open>connect\<close> has sent the hello over.\<close>

definition new_client :: "nat \<Rightarrow> nat \<Rightarrow> real option \<Rightarrow> ('q, 'r) client" where
  "new_client slot generation step_timeout =
     \<lparr>mc_state = OPEN, mc_ended = None, mc_reset_required = True, mc_next_id = 1,
      mc_generation = generation, mc_replies = [], mc_waiting = None, mc_step_timeout = step_timeout,
      mc_sent = [Hello slot PROTOCOL], mc_lost_calls = 0, mc_link_closes = 0\<rparr>"

text \<open>\<open>_lose\<close>: only an open link is lost; the callback runs once, after the link is closed.\<close>

definition lose :: "('q, 'r) client \<Rightarrow> ('q, 'r) client" where
  "lose c =
     (if mc_state c \<noteq> OPEN then c
      else c\<lparr>mc_state := LOST, mc_ended := Some ModelServerLost,
             mc_link_closes := mc_link_closes c + 1, mc_lost_calls := mc_lost_calls c + 1\<rparr>)"

definition close_client :: "('q, 'r) client \<Rightarrow> ('q, 'r) client" where
  "close_client c =
     (if mc_state c = CLOSED then c
      else c\<lparr>mc_state := CLOSED, mc_ended := Some ClientClosed, mc_link_closes := mc_link_closes c + 1\<rparr>)"

fun reply_id :: "'r to_session \<Rightarrow> nat option" where
  "reply_id (Result i x) = Some i"
| "reply_id (Failed i e d b) = Some i"
| "reply_id (ResetDone i g) = Some i"
| "reply_id m = None"

text \<open>One message taken by the reader: kept only when a call waits for its id.\<close>

definition read_message :: "'r to_session \<Rightarrow> ('q, 'r) client \<Rightarrow> ('q, 'r) client" where
  "read_message m c =
     (case reply_id m of
        None \<Rightarrow> c
      | Some i \<Rightarrow> if mc_waiting c = Some i then c\<lparr>mc_replies := dict_set i m (mc_replies c)\<rparr> else c)"

datatype 'r link_event = Received "'r to_session" | LinkFailed | Closing

fun on_event :: "('q, 'r) client \<Rightarrow> 'r link_event \<Rightarrow> ('q, 'r) client" where
  "on_event c (Received m) = read_message m c"
| "on_event c LinkFailed = lose c"
| "on_event c Closing = close_client c"

section \<open>Calls\<close>

datatype send_outcome = Sent | LinkGone | Unencodable

text \<open>\<open>_send\<close>: a link that is gone loses the client, and the caller sees why it ended.\<close>

definition send_message ::
  "send_outcome \<Rightarrow> 'q to_server \<Rightarrow> ('q, 'r) client \<Rightarrow> client_error option \<times> ('q, 'r) client"
where
  "send_message out m c =
     (case out of
        Sent \<Rightarrow> (None, c\<lparr>mc_sent := mc_sent c @ [m]\<rparr>)
      | Unencodable \<Rightarrow> (Some NotEncoded, c)
      | LinkGone \<Rightarrow> (let c = lose c in (map_option Ended (mc_ended c), c)))"

datatype 'r wait_result = Reply "'r to_session" | Raised client_error | NoAnswer | StillWaiting

text \<open>The waiting loop of \<open>_call\<close> over what the other threads do.\<close>

fun wait_reply ::
  "nat \<Rightarrow> bool \<Rightarrow> 'r link_event list \<Rightarrow> ('q, 'r) client \<Rightarrow> 'r wait_result \<times> ('q, 'r) client"
where
  "wait_reply rid bounded es c =
     (case dict_get (mc_replies c) rid of
        Some m \<Rightarrow> (Reply m, c)
      | None \<Rightarrow>
          (case mc_ended c of
             Some k \<Rightarrow> (Raised (Ended k), c)
           | None \<Rightarrow>
               (case es of
                  [] \<Rightarrow> (if bounded then NoAnswer else StillWaiting, c)
                | e # es' \<Rightarrow> wait_reply rid bounded es' (on_event c e))))"

declare wait_reply.simps [simp del]

definition call ::
  "nat \<Rightarrow> 'q to_server \<Rightarrow> bool \<Rightarrow> send_outcome \<Rightarrow> 'r link_event list \<Rightarrow> ('q, 'r) client
    \<Rightarrow> 'r wait_result \<times> ('q, 'r) client"
where
  "call rid m bounded out es c =
     (case send_message out m (c\<lparr>mc_waiting := Some rid\<rparr>) of
        (Some e, c1) \<Rightarrow> (Raised e, c1\<lparr>mc_waiting := None, mc_replies := []\<rparr>)
      | (None, c1) \<Rightarrow>
          (case wait_reply rid bounded es c1 of
             (StillWaiting, c2) \<Rightarrow> (StillWaiting, c2)
           | (r, c2) \<Rightarrow> (r, c2\<lparr>mc_waiting := None, mc_replies := []\<rparr>)))"

text \<open>\<open>_wait\<close>: \<open>Inr None\<close> waits without a bound.\<close>

definition wait_bound :: "real option \<Rightarrow> ('q, 'r) client \<Rightarrow> client_error + real option" where
  "wait_bound timeout c =
     (case timeout of
        None \<Rightarrow> Inr (mc_step_timeout c)
      | Some t \<Rightarrow> if t < 0 then Inl BadTimeout else Inr (if t = 0 then None else Some t))"

datatype 'v returned = Returned 'v | Error client_error | Blocked

text \<open>
  \<open>step\<close>. \<open>out\<close> is the outcome of sending the request, \<open>out_cancel\<close> that of the cancel a
  timeout sends; a cancel that cannot be encoded is only logged.
\<close>

definition step ::
  "'q \<Rightarrow> real option \<Rightarrow> send_outcome \<Rightarrow> send_outcome \<Rightarrow> 'r link_event list \<Rightarrow> ('q, 'r) client
    \<Rightarrow> 'r returned \<times> ('q, 'r) client"
where
  "step request timeout out out_cancel es c =
     (case wait_bound timeout c of
        Inl e \<Rightarrow> (Error e, c)
      | Inr wait \<Rightarrow>
          (case mc_ended c of
             Some k \<Rightarrow> (Error (Ended k), c)
           | None \<Rightarrow>
               if mc_reset_required c then (Error ResetRequired, c)
               else let rid = mc_next_id c in
                 (case call rid (StepMsg rid wait request) (wait \<noteq> None) out es (c\<lparr>mc_next_id := rid + 1\<rparr>) of
                    (StillWaiting, c1) \<Rightarrow> (Blocked, c1)
                  | (Raised e, c1) \<Rightarrow> (Error e, c1)
                  | (NoAnswer, c1) \<Rightarrow>
                      (case send_message out_cancel (Cancel rid) c1 of
                         (Some (Ended k), c2) \<Rightarrow> (Error (Ended k), c2)
                       | (_, c2) \<Rightarrow> (Error StepTimedOut, c2))
                  | (Reply m, c1) \<Rightarrow>
                      (case m of
                         Result i x \<Rightarrow> (Returned x, c1)
                       | Failed i err d b \<Rightarrow> (Error (ModelRaised (error_of err d b)), c1)
                       | _ \<Rightarrow> (Error NoAnswerKind, c1)))))"

text \<open>\<open>reset\<close>; \<open>live\<close> is the id of the live session, which stands in for an omitted or empty one.\<close>

definition reset ::
  "string option \<Rightarrow> string option \<Rightarrow> real option \<Rightarrow> send_outcome \<Rightarrow> 'r link_event list \<Rightarrow> ('q, 'r) client
    \<Rightarrow> nat returned \<times> ('q, 'r) client"
where
  "reset sid live timeout out es c =
     (case wait_bound timeout c of
        Inl e \<Rightarrow> (Error e, c)
      | Inr wait \<Rightarrow>
          (case mc_ended c of
             Some k \<Rightarrow> (Error (Ended k), c)
           | None \<Rightarrow>
               let rid = mc_next_id c in
                 (case call rid (ResetMsg rid (if sid = None \<or> sid = Some [] then live else sid)) (wait \<noteq> None) out es
                         (c\<lparr>mc_reset_required := True, mc_next_id := rid + 1\<rparr>) of
                    (StillWaiting, c1) \<Rightarrow> (Blocked, c1)
                  | (Raised e, c1) \<Rightarrow> (Error e, c1)
                  | (NoAnswer, c1) \<Rightarrow> (Error StepTimedOut, c1)
                  | (Reply m, c1) \<Rightarrow>
                      (case m of
                         ResetDone i g \<Rightarrow> (Returned g, c1\<lparr>mc_generation := g, mc_reset_required := False\<rparr>)
                       | Failed i err d b \<Rightarrow> (Error (ModelRaised (error_of err d b)), c1)
                       | _ \<Rightarrow> (Error NoAnswerKind, c1)))))"

definition signal :: "'q \<Rightarrow> send_outcome \<Rightarrow> ('q, 'r) client \<Rightarrow> client_error option \<times> ('q, 'r) client" where
  "signal x out c =
     (case mc_ended c of
        Some k \<Rightarrow> (Some (Ended k), c)
      | None \<Rightarrow> send_message out (SignalMsg x) c)"

section \<open>A reply belongs to its request\<close>

lemma on_event_fields [simp]:
  "mc_waiting (on_event c e) = mc_waiting c"
  "mc_next_id (on_event c e) = mc_next_id c"
  "mc_sent (on_event c e) = mc_sent c"
  "mc_reset_required (on_event c e) = mc_reset_required c"
  by (cases e; simp add: read_message_def lose_def close_client_def split: option.split)+

lemma wait_reply_events:
  "wait_reply rid bounded es c = (r, c') \<Longrightarrow> \<exists>k. c' = foldl on_event c (take k es)"
proof (induction rid bounded es c rule: wait_reply.induct)
  case (1 rid bounded es c)
  show ?case
  proof (cases "dict_get (mc_replies c) rid = None \<and> mc_ended c = None \<and> es \<noteq> []")
    case False
    then have "c' = foldl on_event c (take 0 es)"
      using "1.prems" by (subst (asm) wait_reply.simps) (auto split: option.splits list.splits)
    then show ?thesis ..
  next
    case True
    then obtain e es' where es: "es = e # es'"
      by (cases es) auto
    then have "wait_reply rid bounded es' (on_event c e) = (r, c')"
      using "1.prems" True by (subst (asm) wait_reply.simps) simp
    then obtain k where "c' = foldl on_event (on_event c e) (take k es')"
      using "1.IH" True es by blast
    then have "c' = foldl on_event c (take (Suc k) es)"
      by (simp add: es)
    then show ?thesis ..
  qed
qed

definition replies_to :: "nat \<Rightarrow> 'r link_event \<Rightarrow> bool" where
  "replies_to rid e = (case e of Received m \<Rightarrow> reply_id m = Some rid | _ \<Rightarrow> False)"

lemma on_event_no_reply:
  "\<not> replies_to rid e \<Longrightarrow> mc_waiting c = Some rid \<Longrightarrow> mc_replies (on_event c e) = mc_replies c"
  by (cases e) (auto simp: replies_to_def read_message_def lose_def close_client_def split: option.splits)

lemma wait_reply_first:
  "wait_reply rid bounded es c = (Reply m, c') \<Longrightarrow> mc_waiting c = Some rid \<Longrightarrow> mc_replies c = [] \<Longrightarrow>
     \<exists>pre post. es = pre @ Received m # post \<and> reply_id m = Some rid \<and> list_all (\<lambda>e. \<not> replies_to rid e) pre"
proof (induction rid bounded es c rule: wait_reply.induct)
  case (1 rid bounded es c)
  have running: "mc_ended c = None"
    using "1.prems" by (subst (asm) wait_reply.simps) (auto split: option.splits)
  then obtain e es' where es: "es = e # es'"
    using "1.prems" by (subst (asm) wait_reply.simps) (auto split: list.splits if_splits)
  then have rest: "wait_reply rid bounded es' (on_event c e) = (Reply m, c')"
    using "1.prems" running by (subst (asm) wait_reply.simps) simp
  show ?case
  proof (cases "replies_to rid e")
    case False
    then have "mc_replies (on_event c e) = []"
      using on_event_no_reply "1.prems"(2,3) by metis
    then obtain pre post where "es' = pre @ Received m # post" "reply_id m = Some rid"
      "list_all (\<lambda>e. \<not> replies_to rid e) pre"
      using "1.IH" [OF _ running es rest] "1.prems"(2,3) by auto
    then show ?thesis
      using False es by (intro exI [of _ "e # pre"] exI [of _ post]) simp
  next
    case True
    then obtain m' where e: "e = Received m'" "reply_id m' = Some rid"
      by (cases e) (auto simp: replies_to_def)
    then have "dict_get (mc_replies (on_event c e)) rid = Some m'"
      using "1.prems"(2) by (simp add: read_message_def dict_simps)
    then have "m' = m"
      using rest by (subst (asm) wait_reply.simps) simp
    then show ?thesis
      using e es by (intro exI [of _ "[]"] exI [of _ es']) simp
  qed
qed

lemma call_reply:
  assumes "call rid q bounded out es c = (Reply m, c')" and "mc_replies c = []"
  shows "\<exists>pre post. es = pre @ Received m # post \<and> reply_id m = Some rid \<and> list_all (\<lambda>e. \<not> replies_to rid e) pre"
proof -
  obtain c1 where send: "send_message out q (c\<lparr>mc_waiting := Some rid\<rparr>) = (None, c1)"
    and w: "\<exists>c2. wait_reply rid bounded es c1 = (Reply m, c2)"
    using assms(1) by (auto simp: call_def split: prod.splits option.splits wait_result.splits)
  have "mc_waiting c1 = Some rid" "mc_replies c1 = []"
    using send assms(2) by (auto simp: send_message_def lose_def Let_def split: send_outcome.splits if_splits)
  then show ?thesis
    using w wait_reply_first by blast
qed

text \<open>
  C17. A step returns only the answer to its own request: when it returns a value, the reader
  received, during this very call, a result that carries the id the call had just drawn and
  that value, and it is the first reply of any kind with this id; replies to earlier
  requests, abandoned after a timeout, are dropped whenever they arrive.
\<close>

theorem step_returns_own_reply:
  assumes "step request timeout out out_cancel es c = (Returned x, c')" and "mc_replies c = []"
  shows "\<exists>pre post. es = pre @ Received (Result (mc_next_id c) x) # post
    \<and> list_all (\<lambda>e. \<not> replies_to (mc_next_id c) e) pre"
proof -
  obtain q bounded m c1 where
    "call (mc_next_id c) q bounded out es (c\<lparr>mc_next_id := mc_next_id c + 1\<rparr>) = (Reply m, c1)"
    and m: "\<exists>i. m = Result i x"
    using assms(1) unfolding step_def Let_def
    by (force split: sum.splits option.splits if_splits prod.splits wait_result.splits
        to_session.splits client_error.splits)
  from call_reply [OF this(1)] assms(2) obtain pre post where "es = pre @ Received m # post"
    "reply_id m = Some (mc_next_id c)" "list_all (\<lambda>e. \<not> replies_to (mc_next_id c) e) pre"
    by auto
  then show ?thesis
    using m by (intro exI [of _ pre] exI [of _ post]) auto
qed

theorem step_returns_own_reply_witness:
  "list_all (\<lambda>e. \<not> replies_to 1 e) [Received (Result 0 (5::nat))] \<and>
   (\<exists>pre post. [Received (Result 0 5), Received (Result 1 7)] = pre @ Received (Result 1 (7::nat)) # post
     \<and> list_all (\<lambda>e. \<not> replies_to 1 e) pre)"
proof -
  let ?c = "(new_client 0 1 None)\<lparr>mc_reset_required := False\<rparr> :: (nat, nat) client"
  have "fst (step 3 None Sent Sent [Received (Result 0 5), Received (Result 1 7)] ?c) = Returned 7"
    by (simp add: step_def wait_bound_def new_client_def call_def send_message_def wait_reply.simps
        read_message_def dict_simps)
  then obtain c' where "step 3 None Sent Sent [Received (Result 0 5), Received (Result 1 7)] ?c = (Returned 7, c')"
    by (metis prod.collapse)
  from step_returns_own_reply [OF this] show ?thesis
    by (simp add: new_client_def replies_to_def)
qed

section \<open>The life of a client\<close>

text \<open>
  What the application and the reader do to a client: calls, one at a time, signals, and
  what the reader and a close do between calls. A call that has not come back is the last
  operation of a run.
\<close>

datatype ('q, 'r) client_action =
    StepOp 'q "real option" send_outcome send_outcome "'r link_event list"
  | ResetOp "string option" "string option" "real option" send_outcome "'r link_event list"
  | SignalOp 'q send_outcome
  | EventOp "'r link_event"

fun client_op :: "('q, 'r) client_action \<Rightarrow> ('q, 'r) client \<Rightarrow> bool \<times> ('q, 'r) client" where
  "client_op (StepOp q t out oc es) c = (let (r, c1) = step q t out oc es c in (r = Blocked, c1))"
| "client_op (ResetOp s l t out es) c = (let (r, c1) = reset s l t out es c in (r = Blocked, c1))"
| "client_op (SignalOp x out) c = (False, snd (signal x out c))"
| "client_op (EventOp e) c = (False, on_event c e)"

fun client_run :: "('q, 'r) client_action list \<Rightarrow> ('q, 'r) client \<Rightarrow> ('q, 'r) client" where
  "client_run [] c = c"
| "client_run (x # xs) c = (let (blocked, c1) = client_op x c in if blocked then c1 else client_run xs c1)"

text \<open>
  The order in which a session may speak, as an automaton: the hello first and once, ids
  that only grow, no step before a reset was sent, and a cancel only of the last request,
  once, and only when that is a step that carried a bound.
\<close>

datatype phase = Fresh | Talking nat "nat option" bool

fun accepts :: "phase \<Rightarrow> 'q to_server \<Rightarrow> phase option" where
  "accepts Fresh (Hello s p) = (if p = PROTOCOL then Some (Talking 0 None False) else None)"
| "accepts (Talking n k r) (StepMsg i w q) =
     (if n < i \<and> r then Some (Talking i (if w = None then None else Some i) r) else None)"
| "accepts (Talking n k r) (Cancel i) = (if k = Some i then Some (Talking n None r) else None)"
| "accepts (Talking n k r) (SignalMsg x) = Some (Talking n k r)"
| "accepts (Talking n k r) (ResetMsg i s) = (if n < i then Some (Talking i None True) else None)"
| "accepts p m = None"

fun phase_after :: "phase \<Rightarrow> 'q to_server list \<Rightarrow> phase option" where
  "phase_after p [] = Some p"
| "phase_after p (m # ms) = (case accepts p m of None \<Rightarrow> None | Some p' \<Rightarrow> phase_after p' ms)"

lemma phase_after_snoc:
  "phase_after p (ms @ [m]) = (case phase_after p ms of None \<Rightarrow> None | Some p' \<Rightarrow> accepts p' m)"
  by (induction ms arbitrary: p) (auto split: option.splits)

text \<open>The link's own state: which end was reached, told once, with the link released.\<close>

definition link_ok :: "('q, 'r) client \<Rightarrow> bool" where
  "link_ok c =
     (case mc_state c of
        OPEN \<Rightarrow> mc_ended c = None \<and> mc_lost_calls c = 0 \<and> mc_link_closes c = 0
      | LOST \<Rightarrow> mc_ended c = Some ModelServerLost \<and> mc_lost_calls c = 1 \<and> mc_link_closes c = 1
      | CLOSED \<Rightarrow> mc_ended c = Some ClientClosed \<and> mc_lost_calls c \<le> 1
                  \<and> mc_link_closes c = mc_lost_calls c + 1)"

definition talk_ok :: "('q, 'r) client \<Rightarrow> bool" where
  "talk_ok c =
     (case phase_after Fresh (mc_sent c) of
        Some (Talking n k r) \<Rightarrow> n < mc_next_id c \<and> (\<not> mc_reset_required c \<longrightarrow> r)
      | _ \<Rightarrow> False)"

lemma lose_link_ok: "link_ok c \<Longrightarrow> link_ok (lose c)"
  by (auto simp: link_ok_def lose_def split: link_state.splits)

lemma on_event_link_ok: "link_ok c \<Longrightarrow> link_ok (on_event c e)"
  by (cases e) (auto simp: link_ok_def lose_def close_client_def read_message_def
      split: link_state.splits option.splits)

lemma foldl_on_event_link_ok: "link_ok c \<Longrightarrow> link_ok (foldl on_event c es)"
  by (induction es arbitrary: c) (auto simp: on_event_link_ok)

lemma link_ok_upd [simp]:
  "link_ok (c\<lparr>mc_waiting := w\<rparr>) = link_ok c" "link_ok (c\<lparr>mc_replies := rs\<rparr>) = link_ok c"
  "link_ok (c\<lparr>mc_next_id := n\<rparr>) = link_ok c" "link_ok (c\<lparr>mc_sent := ms\<rparr>) = link_ok c"
  "link_ok (c\<lparr>mc_reset_required := b\<rparr>) = link_ok c" "link_ok (c\<lparr>mc_generation := g\<rparr>) = link_ok c"
  by (simp_all add: link_ok_def split: link_state.split)

lemma send_message_link_ok: "send_message out m c = (r, c') \<Longrightarrow> link_ok c \<Longrightarrow> link_ok c'"
  by (auto simp: send_message_def Let_def lose_link_ok split: send_outcome.splits)

lemma call_link_ok:
  assumes "call rid q bounded out es c = (r, c')" and "link_ok c"
  shows "link_ok c'"
proof -
  obtain e c1 where send: "send_message out q (c\<lparr>mc_waiting := Some rid\<rparr>) = (e, c1)"
    by fastforce
  then have c1: "link_ok c1"
    using send_message_link_ok assms(2) by fastforce
  obtain r' c2 where w: "wait_reply rid bounded es c1 = (r', c2)"
    by fastforce
  then have "link_ok c2"
    using wait_reply_events c1 foldl_on_event_link_ok by metis
  then show ?thesis
    using assms(1) send w c1 by (auto simp: call_def split: option.splits wait_result.splits)
qed

lemma link_ok_lost: "link_ok c \<Longrightarrow> mc_ended (lose c) \<noteq> None"
  by (auto simp: link_ok_def lose_def split: link_state.splits)

lemma foldl_on_event_fields [simp]:
  "mc_next_id (foldl on_event c es) = mc_next_id c"
  "mc_sent (foldl on_event c es) = mc_sent c"
  "mc_reset_required (foldl on_event c es) = mc_reset_required c"
  by (induction es arbitrary: c) simp_all

lemma lose_fields [simp]:
  "mc_next_id (lose c) = mc_next_id c" "mc_sent (lose c) = mc_sent c"
  "mc_reset_required (lose c) = mc_reset_required c"
  by (simp_all add: lose_def)

lemma wait_reply_bounded: "wait_reply rid bounded es c = (NoAnswer, c') \<Longrightarrow> bounded"
  by (induction rid bounded es c rule: wait_reply.induct)
    (subst (asm) wait_reply.simps, auto split: option.splits list.splits if_splits)

lemma call_sends:
  assumes "call rid q bounded out es c = (r, c')" and "link_ok c"
  shows "mc_sent c' = (if out = Sent then mc_sent c @ [q] else mc_sent c)
    \<and> mc_next_id c' = mc_next_id c \<and> mc_reset_required c' = mc_reset_required c
    \<and> (r = NoAnswer \<longrightarrow> out = Sent \<and> bounded) \<and> (\<forall>m. r = Reply m \<longrightarrow> out = Sent)"
proof (cases out)
  case Sent
  obtain r' c2 where w: "wait_reply rid bounded es (c\<lparr>mc_waiting := Some rid, mc_sent := mc_sent c @ [q]\<rparr>) = (r', c2)"
    by fastforce
  obtain k where "c2 = foldl on_event (c\<lparr>mc_waiting := Some rid, mc_sent := mc_sent c @ [q]\<rparr>) (take k es)"
    using wait_reply_events [OF w] ..
  then have "mc_sent c2 = mc_sent c @ [q]" "mc_next_id c2 = mc_next_id c"
    "mc_reset_required c2 = mc_reset_required c"
    by simp_all
  then show ?thesis
    using assms(1) Sent w wait_reply_bounded
    by (auto simp: call_def send_message_def split: wait_result.splits)
next
  case LinkGone
  have "mc_ended (lose (c\<lparr>mc_waiting := Some rid\<rparr>)) \<noteq> None"
    using assms(2) by (intro link_ok_lost) simp
  then show ?thesis
    using assms(1) LinkGone by (auto simp: call_def send_message_def Let_def)
next
  case Unencodable
  then show ?thesis
    using assms(1) by (auto simp: call_def send_message_def)
qed

definition client_ok :: "('q, 'r) client \<Rightarrow> bool" where
  "client_ok c = (link_ok c \<and> talk_ok c)"

lemma talk_ok_iff:
  "talk_ok c \<longleftrightarrow> (\<exists>n k r. phase_after Fresh (mc_sent c) = Some (Talking n k r) \<and> n < mc_next_id c
     \<and> (\<not> mc_reset_required c \<longrightarrow> r))"
  by (auto simp: talk_ok_def split: option.splits phase.splits)

lemma send_message_sends:
  "send_message out m c = (r, c') \<Longrightarrow>
     mc_sent c' = (if out = Sent then mc_sent c @ [m] else mc_sent c)
     \<and> mc_next_id c' = mc_next_id c \<and> mc_reset_required c' = mc_reset_required c"
  by (auto simp: send_message_def Let_def split: send_outcome.splits)

lemma send_message_talk:
  assumes "send_message out m c = (r, c')"
    and "phase_after Fresh (mc_sent c) = Some p" and "accepts p m = Some (Talking n k b)"
    and "p = Talking n' k' b'" and "n' < mc_next_id c" "n < mc_next_id c"
    and "\<not> mc_reset_required c \<longrightarrow> b" "\<not> mc_reset_required c \<longrightarrow> b'"
  shows "talk_ok c'"
  using send_message_sends [OF assms(1)] assms(2-)
  by (cases "out = Sent") (simp_all add: talk_ok_iff phase_after_snoc)

lemma step_ok:
  assumes "step q t out oc es c = (r, c')" and ok: "client_ok c"
  shows "client_ok c'"
proof -
  let ?rid = "mc_next_id c"
  have same: "client_ok c' \<or> (\<exists>wait. wait_bound t c = Inr wait \<and> mc_ended c = None \<and> \<not> mc_reset_required c)"
    using assms by (auto simp: step_def split: sum.splits option.splits if_splits)
  moreover
  {
    fix wait
    assume run: "wait_bound t c = Inr wait" "mc_ended c = None" "\<not> mc_reset_required c"
    obtain r1 c1 where call: "call ?rid (StepMsg ?rid wait q) (wait \<noteq> None) out es (c\<lparr>mc_next_id := ?rid + 1\<rparr>) = (r1, c1)"
      by fastforce
    obtain n k where talk: "phase_after Fresh (mc_sent c) = Some (Talking n k True)" "n < ?rid"
      using ok run(3) by (auto simp: client_ok_def talk_ok_iff)
    have l1: "link_ok c1"
      using call_link_ok [OF call] ok by (simp add: client_ok_def)
    note s1 = call_sends [OF call, simplified]
    have t1: "talk_ok c1"
      using s1 talk ok by (auto simp: client_ok_def talk_ok_iff phase_after_snoc)
    have "client_ok c'"
    proof (cases "r1 = NoAnswer")
      case False
      then have "c' = c1"
        using assms(1) run call
        by (auto simp: step_def Let_def split: wait_result.splits to_session.splits)
      then show ?thesis
        using l1 t1 by (simp add: client_ok_def)
    next
      case True
      obtain e c2 where cancel: "send_message oc (Cancel ?rid) c1 = (e, c2)"
        by fastforce
      then have c': "c' = c2"
        using assms(1) run call True
        by (auto simp: step_def Let_def split: option.splits client_error.splits)
      have "out = Sent" "wait \<noteq> None"
        using s1 True ok by (auto simp: client_ok_def)
      then have "phase_after Fresh (mc_sent c1) = Some (Talking ?rid (Some ?rid) True)"
        using s1 talk ok by (auto simp: client_ok_def phase_after_snoc)
      then have "talk_ok c2"
        using send_message_talk [OF cancel] s1 ok by (simp add: client_ok_def)
      then show ?thesis
        using send_message_link_ok [OF cancel l1] c' by (simp add: client_ok_def)
    qed
  }
  ultimately show ?thesis
    by blast
qed

lemma reset_client_ok:
  assumes "reset s l t out es c = (r, c')" and ok: "client_ok c"
  shows "client_ok c'"
proof -
  let ?rid = "mc_next_id c"
  let ?m = "ResetMsg ?rid (if s = None \<or> s = Some [] then l else s)"
  have same: "client_ok c' \<or> (\<exists>wait. wait_bound t c = Inr wait \<and> mc_ended c = None)"
    using assms by (auto simp: reset_def split: sum.splits option.splits if_splits)
  moreover
  {
    fix wait
    assume run: "wait_bound t c = Inr wait" "mc_ended c = None"
    obtain r1 c1 where call: "call ?rid ?m (wait \<noteq> None) out es
        (c\<lparr>mc_reset_required := True, mc_next_id := ?rid + 1\<rparr>) = (r1, c1)"
      by fastforce
    obtain n k b where talk: "phase_after Fresh (mc_sent c) = Some (Talking n k b)" "n < ?rid"
      using ok by (auto simp: client_ok_def talk_ok_iff)
    have l1: "link_ok c1"
      using call_link_ok [OF call] ok by (simp add: client_ok_def)
    have s1: "mc_sent c1 = (if out = Sent then mc_sent c @ [?m] else mc_sent c)"
      "mc_next_id c1 = ?rid + 1" "mc_reset_required c1" "(\<forall>m. r1 = Reply m \<longrightarrow> out = Sent)"
      using call_sends [OF call] ok by (auto simp: client_ok_def)
    have t1: "talk_ok c1"
      using s1 talk by (cases "out = Sent") (auto simp: talk_ok_iff phase_after_snoc)
    have "c' = c1 \<or> (out = Sent \<and> (\<exists>g. c' = c1\<lparr>mc_generation := g, mc_reset_required := False\<rparr>))"
      using assms(1) run call s1(4)
      by (auto simp: reset_def Let_def split: wait_result.splits to_session.splits)
    then have "client_ok c'"
      using l1 t1 s1 talk by (auto simp: client_ok_def talk_ok_iff phase_after_snoc)
  }
  ultimately show ?thesis
    by blast
qed

lemma signal_ok:
  assumes "signal x out c = (r, c')" and ok: "client_ok c"
  shows "client_ok c'"
proof (cases "mc_ended c")
  case None
  obtain n k b where "phase_after Fresh (mc_sent c) = Some (Talking n k b)" "n < mc_next_id c"
    "\<not> mc_reset_required c \<longrightarrow> b"
    using ok by (auto simp: client_ok_def talk_ok_iff)
  then show ?thesis
    using assms None send_message_talk send_message_link_ok
    by (fastforce simp: client_ok_def signal_def)
qed (use assms in \<open>auto simp: signal_def\<close>)

lemma client_op_ok:
  assumes "client_op x c = (b, c')" and "client_ok c"
  shows "client_ok c'"
proof (cases x)
  case (StepOp q t out oc es)
  then show ?thesis
    using assms step_ok by (auto split: prod.splits)
next
  case (ResetOp s l t out es)
  then show ?thesis
    using assms reset_client_ok by (auto split: prod.splits)
next
  case (SignalOp y out)
  then show ?thesis
    using assms signal_ok by (metis Pair_inject client_op.simps(3) prod.collapse)
next
  case (EventOp e)
  then show ?thesis
    using assms on_event_link_ok by (auto simp: client_ok_def talk_ok_iff)
qed

lemma client_run_ok: "client_ok c \<Longrightarrow> client_ok (client_run xs c)"
proof (induction xs c rule: client_run.induct)
  case (2 x xs c)
  then show ?case
    using client_op_ok by (fastforce split: prod.split)
qed simp

lemma new_client_ok: "client_ok (new_client slot generation step_timeout)"
  by (simp add: new_client_def client_ok_def link_ok_def talk_ok_def PROTOCOL_def)

text \<open>
  C16. Everything a client ever sends respects the session's side of the protocol, whatever
  the application calls, whichever sends fail and whatever the model server answers or
  omits: the hello comes first and only once, request ids strictly increase, no step is
  sent before a reset was, and a cancel is sent only for the last request, at most once,
  and only when that is a step that carried a bound.
\<close>

theorem client_speaks_protocol:
  "phase_after Fresh (mc_sent (client_run xs (new_client slot generation step_timeout))) \<noteq> None"
  using client_run_ok [OF new_client_ok, of xs slot generation step_timeout]
  by (auto simp: client_ok_def talk_ok_iff)

lemma ended_call: "mc_ended c = Some k \<Longrightarrow> snd (step q t out oc es c) = c \<and> snd (reset s l t out es c) = c"
  by (simp add: step_def reset_def split: sum.split)

lemma ended_op:
  assumes "mc_ended c = Some k"
  shows "client_op x c = (False, c) \<or> client_op x c = (False, close_client c)
    \<or> (\<exists>m. client_op x c = (False, read_message m c)) \<or> client_op x c = (False, lose c)"
proof (cases x)
  case (EventOp e)
  then show ?thesis
    by (cases e) auto
qed (use assms in \<open>auto simp: step_def reset_def signal_def split: sum.splits\<close>)

definition over :: "('q, 'r) client \<Rightarrow> bool" where
  "over c = (mc_state c \<noteq> OPEN \<and> mc_ended c \<noteq> None)"

lemma over_op:
  assumes "over c"
  shows "\<exists>c'. client_op x c = (False, c') \<and> over c' \<and> mc_sent c' = mc_sent c \<and> mc_lost_calls c' = mc_lost_calls c"
proof -
  obtain k where "mc_ended c = Some k"
    using assms by (auto simp: over_def)
  from ended_op [OF this, of x] show ?thesis
    using assms by (auto simp: over_def close_client_def read_message_def lose_def split: option.splits)
qed

lemma over_run:
  "over c \<Longrightarrow> over (client_run xs c) \<and> mc_sent (client_run xs c) = mc_sent c
     \<and> mc_lost_calls (client_run xs c) = mc_lost_calls c"
proof (induction xs arbitrary: c)
  case (Cons x xs)
  obtain c' where "client_op x c = (False, c')" "over c'" "mc_sent c' = mc_sent c"
    "mc_lost_calls c' = mc_lost_calls c"
    using over_op [OF Cons.prems] by blast
  then show ?case
    using Cons.IH by simp
qed simp

lemma link_ok_over: "link_ok c \<Longrightarrow> mc_state c \<noteq> OPEN \<Longrightarrow> over c"
  by (auto simp: link_ok_def over_def split: link_state.splits)

text \<open>
  A client's end is final and is told once. In every state a client can reach, the loss
  callback has run at most once, and exactly once if the link was lost; and once the link is
  lost or closed, no sequence of calls, signals and late messages sends anything more,
  reopens the link or runs the callback again.
\<close>

theorem client_end_is_final:
  fixes c :: "('q, 'r) client"
  assumes "c = client_run xs (new_client slot generation step_timeout)"
  shows "mc_lost_calls c \<le> 1 \<and> (mc_state c = OPEN \<longrightarrow> mc_lost_calls c = 0) \<and> (mc_state c = LOST \<longrightarrow> mc_lost_calls c = 1)
    \<and> (mc_state c \<noteq> OPEN \<longrightarrow> mc_state (client_run ys c) \<noteq> OPEN
      \<and> mc_sent (client_run ys c) = mc_sent c \<and> mc_lost_calls (client_run ys c) = mc_lost_calls c)"
proof -
  have ok: "link_ok c"
    using client_run_ok [OF new_client_ok, of xs slot generation step_timeout] unfolding assms client_ok_def ..
  then have "mc_lost_calls c \<le> 1 \<and> (mc_state c = OPEN \<longrightarrow> mc_lost_calls c = 0) \<and> (mc_state c = LOST \<longrightarrow> mc_lost_calls c = 1)"
    by (auto simp: link_ok_def split: link_state.splits)
  then show ?thesis
    using over_run link_ok_over [OF ok] over_def by blast
qed

theorem client_end_is_final_witness:
  "mc_state (client_run [EventOp LinkFailed] (new_client 0 1 None :: (nat, nat) client)) = LOST
   \<and> mc_lost_calls (client_run [EventOp LinkFailed] (new_client 0 1 None :: (nat, nat) client)) = 1
   \<and> mc_sent (client_run [EventOp Closing, SignalOp 5 Sent]
        (client_run [EventOp LinkFailed] (new_client 0 1 None :: (nat, nat) client))) = [Hello 0 PROTOCOL]"
proof -
  let ?c = "client_run [EventOp LinkFailed] (new_client 0 1 None) :: (nat, nat) client"
  have "mc_state ?c = LOST" "mc_sent ?c = [Hello 0 PROTOCOL]"
    by (simp_all add: new_client_def lose_def)
  then show ?thesis
    using client_end_is_final [where c = ?c and ys = "[EventOp Closing, SignalOp 5 Sent]", OF refl]
    by (simp del: client_run.simps)
qed

section \<open>Connecting\<close>

text \<open>
  The loop of \<open>connect\<close>. One attempt reads the clock before it dials, dials and says
  hello, reads the clock for the deadline and once more for the length of its sleep.
\<close>

datatype 'r hello_outcome =
    NoListener
  | TransportError
  | HelloTimedOut
  | HelloFailed
  | Answer "'r to_session"

record 'r attempt =
  at_start :: real
  at_outcome :: "'r hello_outcome"
  at_check :: real
  at_wait :: real

datatype connect_result = Connected nat nat | Rejected string | Unreachable | TimedOut | Connecting

definition poll_first :: real where
  "poll_first = 1 / 5"

definition poll_max :: real where
  "poll_max = 2"

definition past :: "real option \<Rightarrow> real \<Rightarrow> bool" where
  "past deadline t = (case deadline of None \<Rightarrow> False | Some d \<Rightarrow> d - t \<le> 0)"

definition poll_wait :: "real option \<Rightarrow> real \<Rightarrow> real \<Rightarrow> real" where
  "poll_wait deadline poll t = (case deadline of None \<Rightarrow> poll | Some d \<Rightarrow> min poll (max (d - t) 0))"

text \<open>The sleeps it makes, and how it ends; \<open>Connecting\<close> is a loop that has not ended yet.\<close>

fun connect :: "real option \<Rightarrow> real \<Rightarrow> 'r attempt list \<Rightarrow> real list \<times> connect_result" where
  "connect deadline poll [] = ([], Connecting)"
| "connect deadline poll (a # rest) =
     (if past deadline (at_start a) then ([], TimedOut)
      else case at_outcome a of
        TransportError \<Rightarrow> ([], Unreachable)
      | Answer (Welcome s g b) \<Rightarrow> ([], Connected s g)
      | Answer (Refused reason) \<Rightarrow> ([], Rejected reason)
      | _ \<Rightarrow>
          if past deadline (at_check a) then ([], TimedOut)
          else let w = poll_wait deadline poll (at_wait a);
                   (ws, r) = connect deadline (min (poll * 2) poll_max) rest
               in (w # ws, r))"

text \<open>The clock moves forward, by at least the length of every sleep.\<close>

fun clocked :: "real option \<Rightarrow> real \<Rightarrow> 'r attempt list \<Rightarrow> bool" where
  "clocked deadline poll [] = True"
| "clocked deadline poll (a # rest) =
     (at_start a \<le> at_check a \<and> at_check a \<le> at_wait a
      \<and> (case rest of [] \<Rightarrow> True | b # _ \<Rightarrow> at_wait a + poll_wait deadline poll (at_wait a) \<le> at_start b)
      \<and> clocked deadline (min (poll * 2) poll_max) rest)"

lemma connect_ends_aux:
  assumes "clocked (Some d) poll (a # rest)" and "poll_first \<le> poll"
    and "d - at_start a \<le> real (length rest) * poll_first"
  shows "snd (connect (Some d) poll (a # rest)) \<noteq> Connecting"
  using assms
proof (induction rest arbitrary: a poll)
  case Nil
  then show ?case
    by (simp add: past_def)
next
  case (Cons b rest)
  have poll: "poll_first \<le> min (poll * 2) poll_max"
    using Cons.prems(2) by (auto simp: poll_first_def poll_max_def)
  let ?w = "poll_wait (Some d) poll (at_wait a)"
  have b: "at_wait a + ?w \<le> at_start b" "at_start a \<le> at_wait a"
    and rest: "clocked (Some d) (min (poll * 2) poll_max) (b # rest)"
    using Cons.prems(1) by auto
  have "snd (connect (Some d) (min (poll * 2) poll_max) (b # rest)) \<noteq> Connecting"
  proof (cases "d \<le> at_start b")
    case True
    then show ?thesis
      by (simp add: past_def)
  next
    case False
    then have "?w = poll"
      using b(1) by (auto simp: poll_wait_def min_def max_def split: if_splits)
    then have "d - at_start b \<le> real (length rest) * poll_first"
      using b Cons.prems(2,3) by (simp add: algebra_simps)
    then show ?thesis
      using Cons.IH [OF rest poll] by blast
  qed
  then show ?case
    by (subst connect.simps)
      (auto simp del: connect.simps simp: Let_def split: hello_outcome.split to_session.split prod.splits)
qed

lemma connect_sleeps_aux:
  assumes "clocked (Some d) poll (a # rest)" and "0 \<le> poll"
  shows "sum_list (fst (connect (Some d) poll (a # rest))) \<le> max (d - at_start a) 0"
  using assms
proof (induction rest arbitrary: a poll)
  case Nil
  then show ?case
    by (auto simp: Let_def poll_wait_def split: hello_outcome.split to_session.split)
next
  case (Cons b rest)
  let ?w = "poll_wait (Some d) poll (at_wait a)"
  let ?r = "connect (Some d) (min (poll * 2) poll_max) (b # rest)"
  have b: "at_wait a + ?w \<le> at_start b" "at_start a \<le> at_check a" "at_check a \<le> at_wait a"
    and rest: "clocked (Some d) (min (poll * 2) poll_max) (b # rest)"
    using Cons.prems(1) by auto
  have "0 \<le> min (poll * 2) poll_max"
    using Cons.prems(2) by (simp add: poll_max_def)
  note IH = Cons.IH [OF rest this]
  show ?case
  proof (cases "fst (connect (Some d) poll (a # b # rest)) = []")
    case False
    then have eq: "connect (Some d) poll (a # b # rest) = (?w # fst ?r, snd ?r)"
      by (subst connect.simps, subst (asm) connect.simps)
        (auto simp del: connect.simps simp: Let_def split: hello_outcome.splits to_session.splits prod.splits if_splits)
    have "?w \<le> max (d - at_wait a) 0"
      by (auto simp: poll_wait_def)
    moreover have "sum_list (fst ?r) \<le> max (d - at_start b) 0"
      using IH .
    ultimately have "?w + sum_list (fst ?r) \<le> max (d - at_start a) 0"
      using b by linarith
    then show ?thesis
      using eq by simp
  qed simp
qed

text \<open>
  C39. With a connect timeout, connecting ends: when the clock advances by at least the
  length of each sleep, the loop has returned (opened, refused, unreachable or timed out)
  after at most timeout / 0.2 + 1 attempts, rounded up, and the sleeps between attempts
  never add up to more than the timeout.
\<close>

theorem connect_ends:
  assumes "clocked (Some d) poll_first (a # rest)"
    and "d - at_start a \<le> real (length rest) * poll_first" and "at_start a \<le> d"
  shows "snd (connect (Some d) poll_first (a # rest)) \<noteq> Connecting
    \<and> sum_list (fst (connect (Some d) poll_first (a # rest))) \<le> d - at_start a"
proof -
  have "0 \<le> poll_first"
    by (simp add: poll_first_def)
  then show ?thesis
    using connect_ends_aux [OF assms(1) order.refl assms(2)] connect_sleeps_aux [OF assms(1)] assms(3)
    by (simp del: connect.simps)
qed

theorem connect_ends_witness:
  "snd (connect (Some (3 / 10)) poll_first
     [\<lparr>at_start = 0, at_outcome = NoListener, at_check = 0, at_wait = 0\<rparr>,
      \<lparr>at_start = 1 / 5, at_outcome = HelloTimedOut, at_check = 1 / 5, at_wait = 1 / 5\<rparr>,
      \<lparr>at_start = 3 / 10, at_outcome = NoListener, at_check = 3 / 10, at_wait = 3 / 10\<rparr> :: nat attempt]) \<noteq> Connecting"
proof -
  let ?a = "\<lparr>at_start = 0, at_outcome = NoListener, at_check = 0, at_wait = 0\<rparr> :: nat attempt"
  let ?rest = "[\<lparr>at_start = 1 / 5, at_outcome = HelloTimedOut, at_check = 1 / 5, at_wait = 1 / 5\<rparr>,
      \<lparr>at_start = 3 / 10, at_outcome = NoListener, at_check = 3 / 10, at_wait = 3 / 10\<rparr>] :: nat attempt list"
  have "clocked (Some (3 / 10)) poll_first (?a # ?rest)"
    by (simp add: poll_first_def poll_max_def poll_wait_def)
  from connect_ends [OF this] show ?thesis
    by (simp add: poll_first_def del: connect.simps)
qed

end
