(* ===== verification/ModelFrames.thy ===== *)
theory ModelFrames
  imports Prelude
begin

text \<open>
  The frames a model server link sends over its socket (\<^verbatim>\<open>model_server/protocol.py\<close>): an
  eight-byte length and the message. The receiving end of a stream socket is the list of
  segments still to be delivered; a read takes from the first of them only, so that a read
  may return less than was asked for, and the end of the list is the peer's close. The clock
  gives the reading before the n-th read.
\<close>

section \<open>The header\<close>

type_synonym byte = nat

fun to_bytes :: "nat \<Rightarrow> nat \<Rightarrow> byte list" where
  "to_bytes 0 n = []"
| "to_bytes (Suc k) n = to_bytes k (n div 256) @ [n mod 256]"

definition from_bytes :: "byte list \<Rightarrow> nat" where
  "from_bytes bs = foldl (\<lambda>n b. n * 256 + b) 0 bs"

lemma to_bytes_numeral:
  "to_bytes (numeral k) n = to_bytes (pred_numeral k) (n div 256) @ [n mod 256]"
  unfolding numeral_eq_Suc [of k] by (rule to_bytes.simps(2))

lemma length_to_bytes [simp]: "length (to_bytes k n) = k"
  by (induction k arbitrary: n) simp_all

lemma from_to_bytes: "n < 256 ^ k \<Longrightarrow> from_bytes (to_bytes k n) = n"
  by (induction k arbitrary: n) (simp_all add: from_bytes_def less_mult_imp_div_less mult.commute)

datatype frame_error = PeerClosed | TooLong | TimedOut | HeaderOverflow

text \<open>\<open>FRAME_HEADER\<close>: a big-endian unsigned integer of eight bytes.\<close>

definition pack_header :: "nat \<Rightarrow> frame_error + byte list" where
  "pack_header n = (if n < 256 ^ 8 then Inr (to_bytes 8 n) else Inl HeaderOverflow)"

section \<open>Sending and receiving\<close>

text \<open>\<open>send_frame\<close>: the bytes that go onto the socket, in two writes.\<close>

definition send_frame :: "byte list \<Rightarrow> frame_error + byte list list" where
  "send_frame data =
     (case pack_header (length data) of Inl e \<Rightarrow> Inl e | Inr h \<Rightarrow> Inr [h, data])"

record sock =
  segments :: "byte list list"
  reads :: nat

text \<open>\<open>recv_into\<close>: at most \<open>n\<close> bytes of what has arrived; none means the peer has closed.\<close>

fun recv_into :: "nat \<Rightarrow> sock \<Rightarrow> byte list \<times> sock" where
  "recv_into n s =
     (case segments s of
        [] \<Rightarrow> ([], s\<lparr>reads := reads s + 1\<rparr>)
      | x # xs \<Rightarrow>
          (take n x, s\<lparr>segments := (if length x \<le> n then xs else drop n x # xs), reads := reads s + 1\<rparr>))"

declare recv_into.simps [simp del]

definition deadline_passed :: "(nat \<Rightarrow> real) \<Rightarrow> real option \<Rightarrow> nat \<Rightarrow> bool" where
  "deadline_passed clock deadline k = (case deadline of None \<Rightarrow> False | Some d \<Rightarrow> d - clock k \<le> 0)"

text \<open>The loop of \<open>_exactly\<close>: \<open>buf\<close> is what was read so far, \<open>n\<close> what is missing.\<close>

function exactly ::
  "(nat \<Rightarrow> real) \<Rightarrow> real option \<Rightarrow> byte list \<Rightarrow> nat \<Rightarrow> sock \<Rightarrow> (frame_error + byte list) \<times> sock"
where
  "exactly clock deadline buf n s =
     (if n = 0 then (Inr buf, s)
      else if deadline_passed clock deadline (reads s) then (Inl TimedOut, s)
      else let (got, s1) = recv_into n s in
        if got = [] then (Inl PeerClosed, s1)
        else exactly clock deadline (buf @ got) (n - length got) s1)"
  by pat_completeness auto
termination
  by (relation "measure (\<lambda>(_, _, _, n, _). n)") auto

declare exactly.simps [simp del]

definition recv_frame ::
  "(nat \<Rightarrow> real) \<Rightarrow> real option \<Rightarrow> nat \<Rightarrow> sock \<Rightarrow> (frame_error + byte list) \<times> sock"
where
  "recv_frame clock deadline limit s =
     (case exactly clock deadline [] 8 s of
        (Inl e, s1) \<Rightarrow> (Inl e, s1)
      | (Inr header, s1) \<Rightarrow>
          let n = from_bytes header in
            if limit < n then (Inl TooLong, s1)
            else if n = 0 then (Inr [], s1) else exactly clock deadline [] n s1)"

section \<open>Reading exactly what was asked for\<close>

definition segmented :: "sock \<Rightarrow> bool" where
  "segmented s = list_all (\<lambda>x. x \<noteq> []) (segments s)"

lemma recv_into_spec:
  assumes "segmented s" and "0 < n" and "recv_into n s = (got, s')"
  shows "concat (segments s) = got @ concat (segments s')" "segmented s'" "length got \<le> n"
    "got = [] \<longleftrightarrow> segments s = []"
  using assms by (auto simp: recv_into.simps segmented_def split: list.splits if_splits)

lemma exactly_bytes:
  assumes "segmented s" and "\<And>k. \<not> deadline_passed clock deadline k"
    and "n \<le> length (concat (segments s))"
  shows "\<exists>s'. exactly clock deadline buf n s = (Inr (buf @ take n (concat (segments s))), s')
    \<and> concat (segments s') = drop n (concat (segments s)) \<and> segmented s'"
  using assms
proof (induction clock deadline buf n s rule: exactly.induct)
  case (1 clock deadline buf n s)
  show ?case
  proof (cases "n = 0")
    case True
    then show ?thesis
      using "1.prems" by (simp add: exactly.simps)
  next
    case False
    obtain got s1 where r: "recv_into n s = (got, s1)"
      by fastforce
    note spec = recv_into_spec [OF "1.prems"(1) _ r]
    have "segments s \<noteq> []"
      using "1.prems"(3) False by auto
    then have got: "got \<noteq> []"
      using spec(4) False by blast
    have live: "\<not> deadline_passed clock deadline (reads s)"
      using "1.prems"(2) .
    have "n - length got \<le> length (concat (segments s1))"
      using "1.prems"(3) spec(1) False by auto
    then obtain s' where s': "exactly clock deadline (buf @ got) (n - length got) s1
        = (Inr ((buf @ got) @ take (n - length got) (concat (segments s1))), s')"
      "concat (segments s') = drop (n - length got) (concat (segments s1))" "segmented s'"
      using "1.IH" [OF False live r [symmetric] refl got] "1.prems"(2) spec(2) False by blast
    have step: "exactly clock deadline buf n s = exactly clock deadline (buf @ got) (n - length got) s1"
      using False live r got by (subst exactly.simps) simp
    show ?thesis
      using s' step spec(1,3) False by simp
  qed
qed

text \<open>
  C38. A frame arrives as it was sent, however the network cuts the stream into segments and
  however many reads that takes: reading a frame within the limit, before the deadline,
  returns the bytes that were sent and leaves the stream at the first byte after them.
\<close>

theorem link_frame_round_trip:
  assumes "send_frame data = Inr ws" and "concat (segments s) = concat ws @ rest" and "segmented s"
    and "length data \<le> limit" and "\<And>k. \<not> deadline_passed clock deadline k"
  shows "\<exists>s'. recv_frame clock deadline limit s = (Inr data, s') \<and> concat (segments s') = rest \<and> segmented s'"
proof -
  have n: "length data < 256 ^ 8" and ws: "ws = [to_bytes 8 (length data), data]"
    using assms(1) by (auto simp: send_frame_def pack_header_def split: if_splits)
  obtain s1 where s1: "exactly clock deadline [] 8 s = (Inr (to_bytes 8 (length data)), s1)"
    "concat (segments s1) = data @ rest" "segmented s1"
    using exactly_bytes [OF assms(3,5), of 8 "[]"] assms(2) ws by auto
  obtain s2 where "exactly clock deadline [] (length data) s1 = (Inr data, s2)"
    "concat (segments s2) = rest" "segmented s2"
    using exactly_bytes [OF s1(3) assms(5), of "length data" "[]"] s1(2) by auto
  then show ?thesis
    using s1 from_to_bytes [OF n] assms(4) by (cases "data = []") (auto simp: recv_frame_def)
qed

theorem link_frame_round_trip_witness:
  "\<exists>s'. recv_frame (\<lambda>_. 0) None 10 \<lparr>segments = [[0, 0, 0], [0, 0, 0, 0, 2, 7], [9, 1]], reads = 0\<rparr>
     = (Inr [7, 9], s') \<and> concat (segments s') = [1] \<and> segmented s'"
proof -
  have "send_frame [7, 9] = Inr [[0, 0, 0, 0, 0, 0, 0, 2], [7, 9]]"
    by (simp add: send_frame_def pack_header_def to_bytes_numeral)
  from link_frame_round_trip [OF this, where s = "\<lparr>segments = [[0, 0, 0], [0, 0, 0, 0, 2, 7], [9, 1]], reads = 0\<rparr>"
      and rest = "[1]" and limit = 10 and clock = "\<lambda>_. 0" and deadline = None]
  show ?thesis
    by (simp add: segmented_def deadline_passed_def)
qed

lemma exactly_short:
  assumes "segmented s" and "\<And>k. \<not> deadline_passed clock deadline k"
    and "length (concat (segments s)) < n"
  shows "fst (exactly clock deadline buf n s) = Inl PeerClosed"
  using assms
proof (induction clock deadline buf n s rule: exactly.induct)
  case (1 clock deadline buf n s)
  obtain got s1 where r: "recv_into n s = (got, s1)"
    by fastforce
  have n: "n \<noteq> 0"
    using "1.prems"(3) by auto
  note spec = recv_into_spec [OF "1.prems"(1) _ r]
  have live: "\<not> deadline_passed clock deadline (reads s)"
    using "1.prems"(2) .
  show ?case
  proof (cases "got = []")
    case True
    then show ?thesis
      using n live r by (subst exactly.simps) simp
  next
    case False
    have "length (concat (segments s1)) < n - length got"
      using "1.prems"(3) spec(1) n by auto
    then have "fst (exactly clock deadline (buf @ got) (n - length got) s1) = Inl PeerClosed"
      using "1.IH" [OF n live r [symmetric] refl False] "1.prems"(2) spec(2) n by blast
    then show ?thesis
      using n live r False by (subst exactly.simps) simp
  qed
qed

text \<open>
  A frame is never taken for a shorter one: when the peer closes inside a frame, at any
  byte of its header or of its body, reading it raises, and a frame whose header declares
  more than the limit raises before any byte of its body is read.
\<close>

theorem broken_frame_refused:
  assumes "send_frame data = Inr ws" and "segmented s" and "\<And>k. \<not> deadline_passed clock deadline k"
  shows "(concat (segments s) = take m (concat ws) \<and> m < length (concat ws) \<and> length data \<le> limit
      \<longrightarrow> fst (recv_frame clock deadline limit s) = Inl PeerClosed)
    \<and> (concat (segments s) = concat ws @ rest \<and> limit < length data
      \<longrightarrow> (\<exists>s'. recv_frame clock deadline limit s = (Inl TooLong, s') \<and> concat (segments s') = data @ rest))"
proof -
  have n: "length data < 256 ^ 8" and ws: "ws = [to_bytes 8 (length data), data]"
    using assms(1) by (auto simp: send_frame_def pack_header_def split: if_splits)
  have header: "\<exists>s1. exactly clock deadline [] 8 s = (Inr (to_bytes 8 (length data)), s1)
      \<and> concat (segments s1) = tail \<and> segmented s1"
    if "concat (segments s) = to_bytes 8 (length data) @ tail" for tail
    using exactly_bytes [OF assms(2,3), of 8 "[]"] that by auto
  have cut: "concat (segments s) = take m (concat ws) \<and> m < length (concat ws) \<and> length data \<le> limit
      \<longrightarrow> fst (recv_frame clock deadline limit s) = Inl PeerClosed"
  proof (intro impI, elim conjE)
    assume m: "concat (segments s) = take m (concat ws)" "m < length (concat ws)" "length data \<le> limit"
    show "fst (recv_frame clock deadline limit s) = Inl PeerClosed"
    proof (cases "m < 8")
      case True
      then have "fst (exactly clock deadline [] 8 s) = Inl PeerClosed"
        using exactly_short [OF assms(2,3), of 8 "[]"] m(1) ws by simp
      then show ?thesis
        by (cases "exactly clock deadline [] 8 s") (simp add: recv_frame_def)
    next
      case False
      then obtain s1 where s1: "exactly clock deadline [] 8 s = (Inr (to_bytes 8 (length data)), s1)"
        "concat (segments s1) = take (m - 8) data" "segmented s1"
        using header m(1) ws by auto
      moreover have "fst (exactly clock deadline [] (length data) s1) = Inl PeerClosed"
        using exactly_short [OF s1(3) assms(3), of "length data" "[]"] s1(2) m(2) ws False by auto
      ultimately show ?thesis
        using from_to_bytes [OF n] m(2,3) ws False by (auto simp: recv_frame_def)
    qed
  qed
  have long: "concat (segments s) = concat ws @ rest \<and> limit < length data
      \<longrightarrow> (\<exists>s'. recv_frame clock deadline limit s = (Inl TooLong, s') \<and> concat (segments s') = data @ rest)"
    using header [of "data @ rest"] ws from_to_bytes [OF n] by (auto simp: recv_frame_def)
  show ?thesis
    using cut long by (rule conjI)
qed

theorem broken_frame_refused_witness:
  "fst (recv_frame (\<lambda>_. 0) None 10 \<lparr>segments = [[0, 0, 0, 0], [0, 0, 0, 2, 7]], reads = 0\<rparr>) = Inl PeerClosed"
proof -
  have sent: "send_frame [7, 9] = Inr [[0, 0, 0, 0, 0, 0, 0, 2], [7, 9]]"
    by (simp add: send_frame_def pack_header_def to_bytes_numeral)
  have live: "\<not> deadline_passed (\<lambda>_. 0) None k" for k
    by (simp add: deadline_passed_def)
  show ?thesis
    using broken_frame_refused [OF sent _ live, where s = "\<lparr>segments = [[0, 0, 0, 0], [0, 0, 0, 2, 7]], reads = 0\<rparr>"
        and m = 9 and limit = 10]
    by (simp add: segmented_def)
qed

end
