(* ===== verification/InputBuffer.thy ===== *)
theory InputBuffer
  imports Prelude
begin

text \<open>
  The ring buffer of one inbound track, \<^verbatim>\<open>interface/internal/input_buffer.py\<close>. Every
  operation runs under the buffer's one lock, so each is one atomic step; \<open>now\<close> is what
  \<^verbatim>\<open>time.perf_counter()\<close> returns inside it. \<open>samples\<close> is the NumPy read
  \<^verbatim>\<open>int(frame.data.shape[-1])\<close>, a parameter. A blocking read is \<open>read_attempt\<close>: the
  value \<open>Blocked\<close> means the wait goes on, and \<open>timed_out\<close> says the wait has run out.
\<close>

datatype read_mode = FIFO | LATEST

datatype read_error = ValueError | TimeoutError | BufferClosed

record 'f entry =
  en_session :: int
  en_frame :: 'f
  en_pushed_at :: real
  en_source :: "conn_id option"

record 'f input_buffer =
  ib_buffer :: "'f entry list"
  ib_maxlen :: nat
  ib_max_samples :: "int option"
  ib_max_frames :: int
  ib_samples :: int
  ib_read_waits :: "(conn_id option \<times> real) list"
  ib_total_received :: int
  ib_closed :: bool

definition init_buffer :: "nat \<Rightarrow> int option \<Rightarrow> int option \<Rightarrow> 'f input_buffer" where
  "init_buffer maxlen max_samples max_frames =
     \<lparr>ib_buffer = [], ib_maxlen = maxlen, ib_max_samples = max_samples,
      ib_max_frames =
        (case max_frames of
           Some n \<Rightarrow> n
         | None \<Rightarrow> (case max_samples of
                      None \<Rightarrow> int maxlen
                    | Some k \<Rightarrow> if k = 0 then int maxlen else k)),
      ib_samples = 0, ib_read_waits = [], ib_total_received = 0, ib_closed = False\<rparr>"

definition samples_in :: "('f \<Rightarrow> int) \<Rightarrow> 'f entry list \<Rightarrow> int" where
  "samples_in samples es = sum_list (map (samples \<circ> en_frame) es)"

definition note_waits :: "real \<Rightarrow> 'f entry list \<Rightarrow> 'f input_buffer \<Rightarrow> 'f input_buffer" where
  "note_waits now taken b =
     b\<lparr>ib_read_waits := last_n (ib_maxlen b)
         (ib_read_waits b @ map (\<lambda>e. (en_source e, (now - en_pushed_at e) * 1000)) taken)\<rparr>"

definition take_latest :: "real \<Rightarrow> int \<Rightarrow> 'f input_buffer \<Rightarrow> 'f input_buffer \<times> 'f list" where
  "take_latest now n b =
     (let taken = last_n (nat n) (ib_buffer b)
      in ((note_waits now taken b)\<lparr>ib_buffer := [], ib_samples := 0\<rparr>, map en_frame taken))"

definition take_fifo ::
  "('f \<Rightarrow> int) \<Rightarrow> real \<Rightarrow> int \<Rightarrow> 'f input_buffer \<Rightarrow> 'f input_buffer \<times> 'f list" where
  "take_fifo samples now n b =
     (let taken = take (nat n) (ib_buffer b);
          b1 = note_waits now taken (b\<lparr>ib_buffer := drop (nat n) (ib_buffer b)\<rparr>)
      in (if ib_max_samples b \<noteq> None
          then b1\<lparr>ib_samples := ib_samples b1 - samples_in samples taken\<rparr> else b1,
          map en_frame taken))"

definition take_frames ::
  "('f \<Rightarrow> int) \<Rightarrow> real \<Rightarrow> read_mode \<Rightarrow> int \<Rightarrow> 'f input_buffer \<Rightarrow> 'f input_buffer \<times> 'f list" where
  "take_frames samples now mode n b =
     (if mode = LATEST then take_latest now n b else take_fifo samples now n b)"

datatype 'f read_outcome = Frames "'f list" | Raised read_error | Blocked

definition frame_bound :: "'f input_buffer \<Rightarrow> int" where
  "frame_bound b = (if ib_max_samples b = None then int (ib_maxlen b) else ib_max_frames b)"

definition read_attempt ::
  "('f \<Rightarrow> int) \<Rightarrow> real \<Rightarrow> bool \<Rightarrow> int \<Rightarrow> read_mode \<Rightarrow> 'f input_buffer
     \<Rightarrow> 'f input_buffer \<times> 'f read_outcome" where
  "read_attempt samples now timed_out n mode b =
     (if n > frame_bound b then (b, Raised ValueError)
      else if \<not> (int (length (ib_buffer b)) \<ge> n \<or> ib_closed b)
      then (b, if timed_out then Raised TimeoutError else Blocked)
      else if ib_closed b \<and> int (length (ib_buffer b)) < n then (b, Raised BufferClosed)
      else let (b', fs) = take_frames samples now mode n b in (b', Frames fs))"

definition take_read_waits :: "'f input_buffer \<Rightarrow> 'f input_buffer \<times> (conn_id option \<times> real) list" where
  "take_read_waits b = (b\<lparr>ib_read_waits := []\<rparr>, ib_read_waits b)"

definition try_read ::
  "('f \<Rightarrow> int) \<Rightarrow> real \<Rightarrow> int \<Rightarrow> read_mode \<Rightarrow> 'f input_buffer
     \<Rightarrow> 'f input_buffer \<times> (read_error + 'f list option)" where
  "try_read samples now n mode b =
     (if ib_closed b then (b, Inl BufferClosed)
      else if int (length (ib_buffer b)) < n then (b, Inr None)
      else let (b', fs) = take_frames samples now mode n b in (b', Inr (Some fs)))"

definition clear_buffer :: "'f input_buffer \<Rightarrow> 'f input_buffer" where
  "clear_buffer b = b\<lparr>ib_buffer := [], ib_samples := 0\<rparr>"

definition close_buffer :: "'f input_buffer \<Rightarrow> 'f input_buffer" where
  "close_buffer b = b\<lparr>ib_closed := True\<rparr>"

definition reset_buffer :: "('f \<Rightarrow> int) \<Rightarrow> int option \<Rightarrow> 'f input_buffer \<Rightarrow> 'f input_buffer" where
  "reset_buffer samples through_session b =
     (let kept = (case through_session of
                    None \<Rightarrow> []
                  | Some s \<Rightarrow> filter (\<lambda>e. en_session e > s) (ib_buffer b))
      in b\<lparr>ib_closed := False, ib_buffer := kept, ib_samples := samples_in samples kept,
           ib_read_waits := [], ib_total_received := int (length kept)\<rparr>)"

definition over_bound :: "'f input_buffer \<Rightarrow> bool" where
  "over_bound b \<longleftrightarrow>
     (case ib_max_samples b of
        Some ms \<Rightarrow> ib_samples b > ms \<or> int (length (ib_buffer b)) > ib_max_frames b
      | None \<Rightarrow> length (ib_buffer b) > ib_maxlen b)"

function evict :: "('f \<Rightarrow> int) \<Rightarrow> int \<Rightarrow> 'f input_buffer \<Rightarrow> int \<Rightarrow> 'f input_buffer \<times> int" where
  "evict samples session b evicted =
     (if length (ib_buffer b) > 1 \<and> over_bound b
      then
        let gone = hd (ib_buffer b);
            b1 = b\<lparr>ib_buffer := tl (ib_buffer b)\<rparr>;
            b2 = (if ib_max_samples b \<noteq> None
                  then b1\<lparr>ib_samples := ib_samples b1 - samples (en_frame gone)\<rparr> else b1)
        in evict samples session b2 (if en_session gone = session then evicted + 1 else evicted)
      else (b, evicted))"
  by pat_completeness auto
termination
  by (relation "measure (\<lambda>(_, _, b, _). length (ib_buffer b))") (auto simp: Let_def)

declare evict.simps [simp del]

definition push ::
  "('f \<Rightarrow> int) \<Rightarrow> real \<Rightarrow> 'f \<Rightarrow> conn_id option \<Rightarrow> int \<Rightarrow> 'f input_buffer \<Rightarrow> 'f input_buffer \<times> int" where
  "push samples now frame source session b =
     (if ib_closed b then (b, 0)
      else
        let b1 = b\<lparr>ib_buffer := ib_buffer b @ [\<lparr>en_session = session, en_frame = frame,
                      en_pushed_at = now, en_source = source\<rparr>]\<rparr>;
            b2 = (if ib_max_samples b \<noteq> None
                  then b1\<lparr>ib_samples := ib_samples b1 + samples frame\<rparr> else b1);
            (b3, evicted) = evict samples session b2 0
        in (b3\<lparr>ib_total_received := ib_total_received b3 + 1\<rparr>, evicted))"

definition holds :: "'f input_buffer \<Rightarrow> int \<Rightarrow> int \<Rightarrow> bool" where
  "holds b frames n_samples =
     (case ib_max_samples b of
        Some ms \<Rightarrow> frames \<le> ib_max_frames b \<and> n_samples \<le> ms
      | None \<Rightarrow> frames \<le> int (ib_maxlen b))"

section \<open>Eviction\<close>

lemma samples_in_simps [simp]:
  "samples_in samples [] = 0"
  "samples_in samples (e # es) = samples (en_frame e) + samples_in samples es"
  "samples_in samples (xs @ ys) = samples_in samples xs + samples_in samples ys"
  by (simp_all add: samples_in_def)

text \<open>The sample count a bounded track keeps is the sum over what it holds.\<close>

definition samples_ok :: "('f \<Rightarrow> int) \<Rightarrow> 'f input_buffer \<Rightarrow> bool" where
  "samples_ok samples b \<longleftrightarrow>
     (ib_max_samples b \<noteq> None \<longrightarrow> ib_samples b = samples_in samples (ib_buffer b))"

definition with_entries :: "('f \<Rightarrow> int) \<Rightarrow> 'f input_buffer \<Rightarrow> 'f entry list \<Rightarrow> 'f input_buffer" where
  "with_entries samples b es =
     (if ib_max_samples b \<noteq> None
      then b\<lparr>ib_buffer := es, ib_samples := samples_in samples es\<rparr> else b\<lparr>ib_buffer := es\<rparr>)"

lemma with_entries_simps [simp]:
  "ib_buffer (with_entries samples b es) = es"
  "ib_max_samples (with_entries samples b es) = ib_max_samples b"
  "ib_max_frames (with_entries samples b es) = ib_max_frames b"
  "ib_maxlen (with_entries samples b es) = ib_maxlen b"
  "ib_closed (with_entries samples b es) = ib_closed b"
  "ib_total_received (with_entries samples b es) = ib_total_received b"
  "samples_ok samples (with_entries samples b es)"
  "with_entries samples (with_entries samples b es) fs = with_entries samples b fs"
  by (simp_all add: with_entries_def samples_ok_def)

text \<open>
  The loop pops a prefix of the entries, counts those of the pushing session, and stops as soon
  as the bound is met or one entry is left.
\<close>

lemma evict_prefix:
  "\<exists>k. k < max 1 (length es) \<and>
     evict samples session (with_entries samples b es) n =
       (with_entries samples b (drop k es),
        n + int (length (filter (\<lambda>e. en_session e = session) (take k es)))) \<and>
     (length (drop k es) \<le> 1 \<or> \<not> over_bound (with_entries samples b (drop k es))) \<and>
     (\<forall>j < k. over_bound (with_entries samples b (drop j es)))"
proof (induction es arbitrary: n)
  case Nil
  then show ?case by (auto simp: evict.simps)
next
  case (Cons e es)
  show ?case
  proof (cases "es \<noteq> [] \<and> over_bound (with_entries samples b (e # es))")
    case True
    define n' where "n' = (if en_session e = session then n + 1 else n)"
    have step: "evict samples session (with_entries samples b (e # es)) n
        = evict samples session (with_entries samples b es) n'"
      using True by (subst evict.simps) (auto simp: with_entries_def Let_def n'_def)
    obtain k where k: "k < max 1 (length es)"
      "evict samples session (with_entries samples b es) n' = (with_entries samples b (drop k es),
         n' + int (length (filter (\<lambda>e. en_session e = session) (take k es))))"
      "length (drop k es) \<le> 1 \<or> \<not> over_bound (with_entries samples b (drop k es))"
      "\<forall>j < k. over_bound (with_entries samples b (drop j es))"
      using Cons.IH by blast
    have "\<forall>j < Suc k. over_bound (with_entries samples b (drop j (e # es)))"
      using k(4) True by (auto simp: less_Suc_eq_0_disj)
    moreover have "Suc k < max 1 (length (e # es))"
      using k(1) True by (cases es) auto
    ultimately show ?thesis
      using k step by (intro exI [of _ "Suc k"]) (auto simp: n'_def)
  next
    case False
    then show ?thesis
      by (intro exI [of _ 0]) (subst evict.simps, auto)
  qed
qed

definition new_entry :: "real \<Rightarrow> 'f \<Rightarrow> conn_id option \<Rightarrow> int \<Rightarrow> 'f entry" where
  "new_entry now f src session =
     \<lparr>en_session = session, en_frame = f, en_pushed_at = now, en_source = src\<rparr>"

lemma push_entries:
  assumes "samples_ok samples b" "\<not> ib_closed b"
  shows "push samples now f src session b =
    (case evict samples session (with_entries samples b (ib_buffer b @ [new_entry now f src session])) 0 of
       (b3, n) \<Rightarrow> (b3\<lparr>ib_total_received := ib_total_received b3 + 1\<rparr>, n))"
  using assms by (auto simp: push_def with_entries_def samples_ok_def new_entry_def Let_def)

lemma push_cases:
  assumes "samples_ok samples b" "\<not> ib_closed b"
  obtains k es where
    "es = ib_buffer b @ [new_entry now f src session]"
    "k < length es"
    "push samples now f src session b =
       ((with_entries samples b (drop k es))\<lparr>ib_total_received := ib_total_received b + 1\<rparr>,
        int (length (filter (\<lambda>e. en_session e = session) (take k es))))"
    "length (drop k es) \<le> 1 \<or> \<not> over_bound (with_entries samples b (drop k es))"
    "\<forall>j < k. over_bound (with_entries samples b (drop j es))"
proof -
  define es where "es = ib_buffer b @ [new_entry now f src session]"
  obtain k where "k < max 1 (length es)" "evict samples session (with_entries samples b es) 0
      = (with_entries samples b (drop k es), 0 + int (length (filter (\<lambda>e. en_session e = session) (take k es))))"
    "length (drop k es) \<le> 1 \<or> \<not> over_bound (with_entries samples b (drop k es))"
    "\<forall>j < k. over_bound (with_entries samples b (drop j es))"
    using evict_prefix [of es samples session b 0] by blast
  moreover have "es \<noteq> []"
    by (simp add: es_def)
  ultimately show thesis
    using push_entries [OF assms, where session = session and f = f and now = now and src = src]
    by (intro that [of es k]) (simp_all add: es_def [symmetric] Suc_le_eq max_def split: if_splits)
qed

section \<open>Runs and the invariant\<close>

datatype 'f buffer_call =
    Push real 'f "conn_id option" int
  | Read real bool int read_mode
  | TryRead real int read_mode
  | TakeReadWaits | Clear | Close | Reset "int option"

fun buffer_step :: "('f \<Rightarrow> int) \<Rightarrow> 'f input_buffer \<Rightarrow> 'f buffer_call \<Rightarrow> 'f input_buffer" where
  "buffer_step samples b (Push now f src session) = fst (push samples now f src session b)"
| "buffer_step samples b (Read now to n mode) = fst (read_attempt samples now to n mode b)"
| "buffer_step samples b (TryRead now n mode) = fst (try_read samples now n mode b)"
| "buffer_step samples b TakeReadWaits = fst (take_read_waits b)"
| "buffer_step samples b Clear = clear_buffer b"
| "buffer_step samples b Close = close_buffer b"
| "buffer_step samples b (Reset through) = reset_buffer samples through b"

definition within_bound :: "'f input_buffer \<Rightarrow> bool" where
  "within_bound b \<longleftrightarrow> length (ib_buffer b) \<le> 1 \<or> \<not> over_bound b"

definition buffer_ok :: "('f \<Rightarrow> int) \<Rightarrow> 'f input_buffer \<Rightarrow> bool" where
  "buffer_ok samples b \<longleftrightarrow> samples_ok samples b \<and> within_bound b \<and>
     length (ib_read_waits b) \<le> ib_maxlen b"

text \<open>Dropping entries keeps a met bound met; a frame never carries a negative number of samples.\<close>

lemma samples_in_nonneg: "(\<And>f. 0 \<le> samples f) \<Longrightarrow> 0 \<le> samples_in samples es"
  by (induction es) simp_all

lemma samples_in_drop: "(\<And>f. 0 \<le> samples f) \<Longrightarrow> samples_in samples (drop k es) \<le> samples_in samples es"
  by (subst (2) append_take_drop_id [of k es, symmetric]) (simp add: samples_in_nonneg del: append_take_drop_id)

lemma samples_in_filter:
  "(\<And>f. 0 \<le> samples f) \<Longrightarrow> samples_in samples (filter P es) \<le> samples_in samples es"
  by (induction es) (simp_all add: add_increasing)

lemma fewer_entries_within:
  assumes "samples_ok samples b" "within_bound b" "length es \<le> length (ib_buffer b)"
    "samples_in samples es \<le> samples_in samples (ib_buffer b)"
    "ib_max_samples b' = ib_max_samples b" "ib_max_frames b' = ib_max_frames b"
    "ib_maxlen b' = ib_maxlen b" "ib_buffer b' = es" "samples_ok samples b'"
  shows "within_bound b'"
  using assms by (auto simp: within_bound_def over_bound_def samples_ok_def split: option.splits)

lemma push_ok:
  assumes "buffer_ok samples b"
  shows "buffer_ok samples (fst (push samples now f src session b))"
proof (cases "ib_closed b")
  case True
  then show ?thesis using assms by (simp add: push_def)
next
  case False
  from assms have "samples_ok samples b" by (simp add: buffer_ok_def)
  then show ?thesis
    by (rule push_cases [OF _ False, where now = now and f = f and src = src and session = session])
       (use assms in \<open>auto simp: buffer_ok_def within_bound_def samples_ok_def over_bound_def
          with_entries_def split: option.splits\<close>)
qed

lemma note_waits_simps [simp]:
  "ib_buffer (note_waits now es b) = ib_buffer b"
  "ib_samples (note_waits now es b) = ib_samples b"
  "ib_max_samples (note_waits now es b) = ib_max_samples b"
  "ib_max_frames (note_waits now es b) = ib_max_frames b"
  "ib_maxlen (note_waits now es b) = ib_maxlen b"
  "ib_closed (note_waits now es b) = ib_closed b"
  "length (ib_read_waits (note_waits now es b)) \<le> ib_maxlen b"
  by (simp_all add: note_waits_def)

lemma take_frames_ok:
  assumes "buffer_ok samples b" "\<And>f. 0 \<le> samples f"
  shows "buffer_ok samples (fst (take_frames samples now mode n b))"
proof (cases mode)
  case LATEST
  then show ?thesis
    by (simp add: take_frames_def take_latest_def Let_def buffer_ok_def samples_ok_def within_bound_def)
next
  case FIFO
  let ?b' = "fst (take_fifo samples now n b)"
  have s: "samples_ok samples b" "within_bound b" using assms by (simp_all add: buffer_ok_def)
  have split: "samples_in samples (ib_buffer b) =
      samples_in samples (take (nat n) (ib_buffer b)) + samples_in samples (drop (nat n) (ib_buffer b))"
    by (subst append_take_drop_id [of "nat n" "ib_buffer b", symmetric]) (simp del: append_take_drop_id)
  have fields: "ib_max_samples ?b' = ib_max_samples b" "ib_max_frames ?b' = ib_max_frames b"
    "ib_maxlen ?b' = ib_maxlen b" "ib_buffer ?b' = drop (nat n) (ib_buffer b)"
    "length (ib_read_waits ?b') \<le> ib_maxlen b"
    by (simp_all add: take_fifo_def Let_def note_waits_def)
  have "samples_ok samples ?b'"
    using s split by (auto simp: take_fifo_def Let_def samples_ok_def)
  moreover from this have "within_bound ?b'"
    using s fields assms(2) by (intro fewer_entries_within [OF s]) (simp_all add: samples_in_drop)
  ultimately show ?thesis
    using FIFO fields by (simp add: take_frames_def buffer_ok_def)
qed

lemma reset_ok:
  assumes "buffer_ok samples b" "\<And>f. 0 \<le> samples f"
  shows "buffer_ok samples (reset_buffer samples through b)"
proof -
  let ?b' = "reset_buffer samples through b"
  let ?kept = "case through of None \<Rightarrow> [] | Some s \<Rightarrow> filter (\<lambda>e. en_session e > s) (ib_buffer b)"
  have s: "samples_ok samples b" "within_bound b" using assms by (simp_all add: buffer_ok_def)
  have "length ?kept \<le> length (ib_buffer b)" "samples_in samples ?kept \<le> samples_in samples (ib_buffer b)"
    using assms(2) by (auto simp: samples_in_nonneg samples_in_filter split: option.split)
  moreover have "samples_ok samples ?b'"
    by (simp add: reset_buffer_def samples_ok_def Let_def)
  ultimately have "within_bound ?b'"
    by (intro fewer_entries_within [OF s, where es = ?kept]) (simp_all add: reset_buffer_def Let_def)
  then show ?thesis
    using \<open>samples_ok samples ?b'\<close> by (simp add: buffer_ok_def reset_buffer_def Let_def)
qed

lemma buffer_step_ok:
  assumes "buffer_ok samples b" "\<And>f. 0 \<le> samples f"
  shows "buffer_ok samples (buffer_step samples b c)"
proof (cases c)
  case (Read now to n mode)
  then show ?thesis
    using take_frames_ok [OF assms] assms(1) by (simp add: read_attempt_def split_beta Let_def)
next
  case (TryRead now n mode)
  then show ?thesis
    using take_frames_ok [OF assms] assms(1) by (simp add: try_read_def split_beta Let_def)
qed (use assms in \<open>simp_all add: push_ok reset_ok\<close>,
     auto simp: take_read_waits_def clear_buffer_def close_buffer_def buffer_ok_def samples_ok_def
       within_bound_def over_bound_def split: option.splits)

text \<open>The sizes of an array's dimensions are natural numbers: \<open>s\<close> reads the last one.\<close>

interpretation buffer: step_invariant
  "buffer_step (\<lambda>f. int (s f))" "buffer_ok (\<lambda>f. int (s f))" for s :: "'f \<Rightarrow> nat"
  by unfold_locales (simp add: buffer_step_ok)

lemma init_buffer_ok: "buffer_ok samples (init_buffer maxlen ms mf)"
  by (simp add: buffer_ok_def samples_ok_def within_bound_def init_buffer_def)

lemma reachable_buffer_ok:
  fixes s :: "'f \<Rightarrow> nat"
  shows "buffer_ok (\<lambda>f. int (s f)) (foldl (buffer_step (\<lambda>f. int (s f))) (init_buffer maxlen ms mf) cs)"
  by (rule buffer.run_keeps [OF init_buffer_ok])

section \<open>Properties\<close>

text \<open>
  Bounded memory: after any run of pushes, reads, clears, closes and resets, the buffer holds
  at most one frame or meets its bound. A frame-bounded track never holds more than \<open>maxlen\<close>
  frames, a sample-bounded one never more than its samples and its frame cap; and the noted waits
  never exceed \<open>maxlen\<close>.
\<close>

theorem buffer_bounded:
  fixes s :: "'f \<Rightarrow> nat"
  shows "let b = foldl (buffer_step (\<lambda>f. int (s f))) (init_buffer maxlen ms mf) cs in
    length (ib_read_waits b) \<le> ib_maxlen b \<and>
    (length (ib_buffer b) \<le> 1 \<or>
     (case ib_max_samples b of
        None \<Rightarrow> length (ib_buffer b) \<le> ib_maxlen b
      | Some k \<Rightarrow> sum_list (map (\<lambda>e. int (s (en_frame e))) (ib_buffer b)) \<le> k \<and>
                  int (length (ib_buffer b)) \<le> ib_max_frames b))"
  using reachable_buffer_ok [of s maxlen ms mf cs]
  by (auto simp: Let_def buffer_ok_def within_bound_def over_bound_def samples_ok_def samples_in_def
      comp_def split: option.splits)

text \<open>
  What a push does: on an open track the newest frame is always kept (as the last entry, even
  one that alone exceeds the bound), only the oldest entries go, and the returned count is exactly
  the number of entries of the pushing session that went; a push on a closed track changes
  nothing and counts nothing.
\<close>

theorem push_evicts_oldest:
  assumes "buffer_ok samples b"
  shows "case push samples now f src session b of (b', n) \<Rightarrow>
    (ib_closed b \<longrightarrow> b' = b \<and> n = 0) \<and>
    (\<not> ib_closed b \<longrightarrow>
      (\<exists>gone kept. gone @ kept = ib_buffer b @ [new_entry now f src session] \<and> ib_buffer b' = kept \<and>
         kept \<noteq> [] \<and> last kept = new_entry now f src session \<and>
         n = int (length (filter (\<lambda>e. en_session e = session) gone)) \<and>
         ib_total_received b' = ib_total_received b + 1))"
proof (cases "ib_closed b")
  case True
  then show ?thesis by (simp add: push_def)
next
  case False
  have "samples_ok samples b" using assms by (simp add: buffer_ok_def)
  then show ?thesis
  proof (rule push_cases [OF _ False, where now = now and f = f and src = src and session = session])
    fix k es
    assume es: "es = ib_buffer b @ [new_entry now f src session]" "k < length es"
      and p: "push samples now f src session b =
       ((with_entries samples b (drop k es))\<lparr>ib_total_received := ib_total_received b + 1\<rparr>,
        int (length (filter (\<lambda>e. en_session e = session) (take k es))))"
    have "drop k es \<noteq> []" "last (drop k es) = new_entry now f src session"
      using es by (simp_all add: last_drop)
    then show ?thesis
      using False p es(1) by (auto intro!: exI [of _ "take k es"])
  qed
qed

theorem push_evicts_oldest_witness:
  "snd (push (\<lambda>f. 1) 0 ''b'' None 3 (fst (push (\<lambda>f. 1) 0 ''a'' None 3 (init_buffer 1 None None)))) = 1"
proof -
  let ?b = "fst (push (\<lambda>f. 1) 0 ''a'' None 3 (init_buffer 1 None None))"
  have ok: "buffer_ok (\<lambda>f. 1) ?b"
    by (intro push_ok init_buffer_ok)
  have b: "ib_buffer ?b = [new_entry 0 ''a'' None 3]" "\<not> ib_closed ?b"
    by (simp_all add: push_def init_buffer_def evict.simps new_entry_def over_bound_def)
  have len: "ib_buffer (fst (push (\<lambda>f. 1) 0 ''b'' None 3 ?b)) = [new_entry 0 ''b'' None 3]"
    by (simp add: push_def init_buffer_def evict.simps new_entry_def over_bound_def)
  show ?thesis
    using push_evicts_oldest [OF ok, of 0 "''b''" None 3] b len
    by (auto simp: split_beta append_eq_Cons_conv new_entry_def)
qed

lemma push_keeps_suffix:
  assumes "samples_ok samples b" "\<not> ib_closed b" "ib_buffer b = xs @ ys"
    and "holds b (int (length ys) + 1) (samples_in samples ys + samples f)"
  shows "\<exists>k. ib_buffer (fst (push samples now f src session b)) = drop k xs @ ys @ [new_entry now f src session]"
proof (rule push_cases [OF assms(1,2), where now = now and f = f and src = src and session = session])
  fix k es
  assume es: "es = ib_buffer b @ [new_entry now f src session]"
    and p: "push samples now f src session b =
       ((with_entries samples b (drop k es))\<lparr>ib_total_received := ib_total_received b + 1\<rparr>,
        int (length (filter (\<lambda>e. en_session e = session) (take k es))))"
    and ov: "\<forall>j < k. over_bound (with_entries samples b (drop j es))"
  have "\<not> over_bound (with_entries samples b (drop (length xs) es))"
    using assms(3,4) es
    by (auto simp: over_bound_def holds_def with_entries_def new_entry_def split: option.splits)
  with ov have "k \<le> length xs"
    by (meson not_le_imp_less)
  then show ?thesis
    using p es assms(3) by auto
qed

lemma push_all_kept:
  fixes s :: "'f \<Rightarrow> nat" and now :: "nat \<Rightarrow> real"
  assumes "buffer_ok (\<lambda>f. int (s f)) b" "\<not> ib_closed b" "map en_frame ys = ps" "ib_buffer b = xs @ ys"
    and "holds b (int (length (ps @ fs))) (int (sum_list (map s (ps @ fs))))"
  shows "\<exists>old. map en_frame (ib_buffer (foldl (\<lambda>b f. fst (push (\<lambda>f. int (s f)) t f src session b)) b fs))
    = old @ ps @ fs"
  using assms
proof (induction fs arbitrary: b xs ys ps)
  case Nil
  then show ?case by auto
next
  case (Cons f fs)
  let ?p = "push (\<lambda>f. int (s f)) t f src session b"
  have so: "samples_ok (\<lambda>f. int (s f)) b" using Cons.prems by (simp add: buffer_ok_def)
  have sy: "samples_in (\<lambda>f. int (s f)) ys = int (sum_list (map s ps))"
    unfolding Cons.prems(3) [symmetric] by (induction ys) simp_all
  have ly: "length ys = length ps" using Cons.prems(3) by auto
  have h: "holds b (int (length ys) + 1) (samples_in (\<lambda>f. int (s f)) ys + int (s f))"
    using Cons.prems(5) by (auto simp: holds_def sy ly split: option.splits)
  obtain k where k: "ib_buffer (fst ?p) = drop k xs @ ys @ [new_entry t f src session]"
    using push_keeps_suffix [OF so Cons.prems(2,4) h] by blast
  have cfg: "ib_max_samples (fst ?p) = ib_max_samples b" "ib_max_frames (fst ?p) = ib_max_frames b"
    "ib_maxlen (fst ?p) = ib_maxlen b" "\<not> ib_closed (fst ?p)"
    by (rule push_cases [OF so Cons.prems(2), where now = t and f = f and src = src and session = session];
        use Cons.prems(2) in simp)+
  have "\<exists>old. map en_frame (ib_buffer (foldl (\<lambda>b f. fst (push (\<lambda>f. int (s f)) t f src session b)) (fst ?p) fs))
      = old @ (ps @ [f]) @ fs"
    using Cons.prems(1,3,5) k cfg
    by (intro Cons.IH [where xs = "drop k xs" and ys = "ys @ [new_entry t f src session]"])
       (simp_all add: push_ok new_entry_def holds_def split: option.splits)
  then show ?case by simp
qed

text \<open>
  Frames that fit are all kept: when \<open>holds\<close> accepts a group of frames, pushing them one
  after another on an open track evicts none of them, whatever the buffer held before; they end
  up last in the buffer, in the order they were pushed.
\<close>

theorem holds_means_kept:
  fixes s :: "'f \<Rightarrow> nat"
  assumes "buffer_ok (\<lambda>f. int (s f)) b" and "\<not> ib_closed b"
    and "holds b (int (length fs)) (int (sum_list (map s fs)))"
  shows "\<exists>old. map en_frame (ib_buffer (foldl (\<lambda>b f. fst (push (\<lambda>f. int (s f)) t f src session b)) b fs))
    = old @ fs"
  using push_all_kept [where ys = "[]" and ps = "[]", OF assms(1,2)] assms(3) by simp

theorem holds_means_kept_witness:
  "\<exists>old. map en_frame (ib_buffer (foldl (\<lambda>b f. fst (push (\<lambda>f. int (length f)) 0 f None 1 b))
      (init_buffer 9 (Some 5) None) [''ab'', ''c''])) = old @ [''ab'', ''c'']"
  by (rule holds_means_kept) (simp_all add: init_buffer_ok, simp_all add: init_buffer_def holds_def)

text \<open>
  Reads: on an open track with enough frames, a \<open>FIFO\<close> read returns the oldest \<open>n\<close> in arrival
  order and leaves the rest, a \<open>LATEST\<close> read returns the newest \<open>n\<close> in arrival order and empties
  the buffer; with too few frames the buffer is left untouched, and a closed track raises.
\<close>

theorem try_read_spec:
  assumes "0 \<le> n"
  shows "case try_read samples now n mode b of (b', res) \<Rightarrow>
    (ib_closed b \<longrightarrow> b' = b \<and> res = Inl BufferClosed) \<and>
    (\<not> ib_closed b \<and> int (length (ib_buffer b)) < n \<longrightarrow> b' = b \<and> res = Inr None) \<and>
    (\<not> ib_closed b \<and> n \<le> int (length (ib_buffer b)) \<longrightarrow>
       (mode = FIFO \<longrightarrow> res = Inr (Some (map en_frame (take (nat n) (ib_buffer b)))) \<and>
          ib_buffer b' = drop (nat n) (ib_buffer b)) \<and>
       (mode = LATEST \<longrightarrow>
          res = Inr (Some (drop (length (ib_buffer b) - nat n) (map en_frame (ib_buffer b)))) \<and>
          ib_buffer b' = []))"
  using assms
  by (cases mode)
    (auto simp: try_read_def take_frames_def take_fifo_def take_latest_def Let_def last_n_def drop_map
      note_waits_def)

theorem try_read_spec_witness:
  "snd (try_read (\<lambda>f. 1) 0 1 FIFO ((init_buffer 4 None None)\<lparr>ib_buffer :=
      [new_entry 0 ''a'' None 1, new_entry 0 ''b'' None 1]\<rparr>)) = Inr (Some [''a''])"
  using try_read_spec [where n = 1 and samples = "\<lambda>f. 1" and now = 0 and mode = FIFO and
      b = "(init_buffer 4 None None)\<lparr>ib_buffer := [new_entry 0 ''a'' None 1, new_entry 0 ''b'' None 1]\<rparr>"]
  by (simp add: split_beta init_buffer_def new_entry_def)

text \<open>
  Sessions do not mix: a reset for an ended session re-opens the track, drops every frame of
  that session and of earlier ones, and keeps exactly the frames already pushed for a later
  session, in order, with their number as the new received count.
\<close>

theorem reset_keeps_later_sessions:
  "ib_buffer (reset_buffer samples (Some ended) b) = filter (\<lambda>e. ended < en_session e) (ib_buffer b) \<and>
   ib_total_received (reset_buffer samples (Some ended) b) =
     int (length (filter (\<lambda>e. ended < en_session e) (ib_buffer b))) \<and>
   \<not> ib_closed (reset_buffer samples (Some ended) b)"
  by (simp add: reset_buffer_def Let_def)

end
