(* ===== verification/AppLoop.thy ===== *)
theory AppLoop
  imports InputBuffer Values
begin

text \<open>
  The model's side of a session: the application base of \<^verbatim>\<open>interface/app/reactor_app.py\<close> on the
  engine of \<^verbatim>\<open>interface/internal/reactor_core.py\<close>. Two tasks run on the model's own event loop,
  the drain of the inbound queue and the step loop \<open>run()\<close>; the runtime posts items and pushes
  frames from its own thread.

  Each task is cut where it awaits: on the step lock, in the author's hooks, on a step's
  end, on the media sink. \<open>ap_inbound\<close> and \<open>ap_loop\<close> say where each task is, and one step of the
  model moves one task to its next await. What the author's code does is an argument of the
  step that runs it: how a handler, a hook, \<open>process_input\<close>, \<open>generate\<close> or \<open>process_output\<close> ends,
  and what it does to \<open>self.state\<close> and to the input buffers. All outbound sinks are bound;
  \<open>ap_out\<close> is what went out through them, together with the calls of the author's code.
\<close>

section \<open>Values\<close>

record 'v command_envelope =
  ce_name :: string
  ce_args :: 'v
  ce_conn :: "conn_id option"
  ce_request :: "string option"
  ce_received :: "real option"
  ce_submitted :: "real option"
  ce_held :: real
  ce_step :: "string option"
  ce_entry :: "string option"

record 'f step_envelope =
  se_media :: "(string \<times> 'f list) list"
  se_conn :: conn_id
  se_request :: string
  se_max_message :: "int option"

datatype 'v reactor_event =
    SessionStarted bool bool "nat option"
  | StartingInputApplied
  | SessionEnded
  | ClientConnected conn_id int bool
  | ClientDisconnected conn_id int
  | FileUploaded 'v "conn_id option"

datatype ('v, 'f) inbound_item =
    CommandItem "'v command_envelope"
  | StepItem "'f step_envelope"
  | EventItem "'v reactor_event"

datatype refusal_kind = REFUSED | NOT_READY | COMMAND_FAILED

record step_refusal =
  sr_conn :: conn_id
  sr_request :: string
  sr_session :: nat
  sr_reason :: string
  sr_kind :: refusal_kind
  sr_code :: "string option"
  sr_entry :: "string option"

record requested_step =
  rq_conn :: conn_id
  rq_request :: string
  rq_index :: nat
  rq_max_message :: "int option"

text \<open>A step's report: \<open>StepCompleted\<close>, and what the runtime receives of it.\<close>

record 'o step_completed =
  sc_output :: "'o option"
  sc_files :: "(string, bytes) dict"
  sc_error :: "string option"
  sc_elapsed :: "real option"

record 'o completed_step =
  co_step :: "'o step_completed"
  co_session :: nat
  co_fps :: real
  co_stages :: "(string, real) dict"
  co_request :: "requested_step option"

record command_times =
  ct_received :: real
  ct_submitted :: "real option"
  ct_held :: real
  ct_taken :: real
  ct_started :: real
  ct_finished :: real

datatype 'v reply = Message 'v | CommandFailure string string | Acknowledged

datatype app_hook = OnSessionStarted | OnSessionEnded | OnConnected | OnDisconnected | OnFileUploaded

datatype app_exn = Exn string string

datatype ('v, 'o) outbound =
    Replied conn_id "'v reply" "string option"
  | StepRefused step_refusal
  | Emitted nat 'o real
  | StepReported "'o completed_step"
  | CommandTimed conn_id nat command_times
  | InputWaited conn_id nat string real
  | HandlerRan string 'v "conn_id option"
  | HookRan app_hook "conn_id option"
  | Generated nat
  | Failed app_exn

section \<open>State\<close>

datatype task = InboundTask | LoopTask

datatype 'v inbound_at =
    Idle
  | CommandLock "'v command_envelope" real
  | CommandRun "'v command_envelope" nat real real
  | StepWait
  | HookLock app_hook "conn_id option"
  | HookRun app_hook "conn_id option"
  | StartLock
  | StartRun
  | EndLock
  | EndRun
  | Stopped

text \<open>
  Where the step loop is. The streaming turn carries the number of gate drops and the
  session it began with; a step carries the session it began in and what it has measured.
\<close>

datatype ('f, 'o) loop_at =
    Turn
  | While nat nat
  | StepLock nat nat
  | StepInput nat nat nat
  | StepOutput nat nat nat real real
  | Emitting nat nat nat "'o step_completed" real "(string, real) dict"
  | Sending nat nat nat "'o step_completed" real "(string, real) dict"
  | Asking nat nat
  | RequestLock "'f step_envelope"
  | RequestInput "'f step_envelope" nat
  | RequestOutput "'f step_envelope" nat nat real
  | Dead

text \<open>
  What an application class fixes: its commands and hooks, each with whether it takes the
  \<open>client\<close> parameter, its state class's initial value, and whether it pins \<open>fps\<close>; with the
  NumPy read of a frame's samples and the bundling of an output, \<open>None\<close> where its metadata
  cannot be encoded and else its number of frames.
\<close>

record ('f, 's, 'o) app_config =
  ac_commands :: "(string, bool) dict"
  ac_hooks :: "(app_hook, bool) dict"
  ac_state :: "'s option"
  ac_fps :: real
  ac_fps_pinned :: bool
  ac_samples :: "'f \<Rightarrow> int"
  ac_bundle :: "'o \<Rightarrow> nat option"

record ('v, 'f, 's, 'o) app =
  ap_inbox :: "('v, 'f) inbound_item list"
  ap_sessions :: nat
  ap_active :: bool
  ap_starting :: bool
  ap_stepped :: bool
  ap_accepted :: nat
  ap_limit :: "nat option"
  ap_connected :: bool
  ap_live :: bool
  ap_drops :: nat
  ap_requested :: bool
  ap_clients :: "(conn_id, real \<times> bool) dict"
  ap_state :: "'s option"
  ap_failed :: "(conn_id \<times> string, step_refusal) dict"
  ap_pending :: "'f step_envelope option"
  ap_lock :: "task option"
  ap_inbound :: "'v inbound_at"
  ap_loop :: "('f, 'o) loop_at"
  ap_buffers :: "(string, 'f input_buffer) dict"
  ap_last_fps :: "real option"
  ap_out :: "('v, 'o) outbound list"
  ap_asked :: "(conn_id \<times> string) list"

text \<open>\<open>_on_loop_ready\<close>, with \<open>run()\<close> at its first turn.\<close>

definition loop_ready :: "(string, 'f input_buffer) dict \<Rightarrow> ('v, 'f, 's, 'o) app" where
  "loop_ready buffers =
     \<lparr>ap_inbox = [], ap_sessions = 0, ap_active = False, ap_starting = False, ap_stepped = False,
      ap_accepted = 0, ap_limit = None, ap_connected = False, ap_live = False, ap_drops = 0,
      ap_requested = True, ap_clients = [], ap_state = None, ap_failed = [], ap_pending = None,
      ap_lock = None, ap_inbound = Idle, ap_loop = Turn, ap_buffers = buffers, ap_last_fps = None,
      ap_out = [], ap_asked = []\<rparr>"

definition out :: "('v, 'o) outbound list \<Rightarrow> ('v, 'f, 's, 'o) app \<Rightarrow> ('v, 'f, 's, 'o) app" where
  "out xs a = a\<lparr>ap_out := ap_out a @ xs\<rparr>"

section \<open>The live gate and the clients\<close>

definition update_live :: "('v, 'f, 's, 'o) app \<Rightarrow> ('v, 'f, 's, 'o) app" where
  "update_live a =
     (if ap_connected a \<and> ap_active a \<and> \<not> ap_starting a \<and> \<not> ap_stepped a then a\<lparr>ap_live := True\<rparr>
      else if ap_live a then a\<lparr>ap_live := False, ap_drops := ap_drops a + 1\<rparr>
      else a)"

definition set_connected :: "int \<Rightarrow> ('v, 'f, 's, 'o) app \<Rightarrow> ('v, 'f, 's, 'o) app" where
  "set_connected n a = update_live (a\<lparr>ap_connected := (n > 0)\<rparr>)"

text \<open>\<open>_reserved\<close> and \<open>_client_for\<close>: a missing entry is filled.\<close>

definition reserve_client :: "bool \<Rightarrow> real \<Rightarrow> conn_id option \<Rightarrow> ('v, 'f, 's, 'o) app \<Rightarrow> ('v, 'f, 's, 'o) app" where
  "reserve_client takes_client now conn a =
     (case conn of
        None \<Rightarrow> a
      | Some c \<Rightarrow>
          if takes_client \<and> dict_get (ap_clients a) c = None
          then a\<lparr>ap_clients := dict_set c (now, False) (ap_clients a)\<rparr> else a)"

section \<open>Step requests\<close>

definition step_closed :: "('v, 'f, 's, 'o) app \<Rightarrow> (string \<times> refusal_kind) option" where
  "step_closed a =
     (if \<not> ap_active a then Some (''no session is running'', NOT_READY)
      else if \<not> ap_stepped a then Some (''the session is not stepped'', REFUSED)
      else case ap_limit a of
        Some n \<Rightarrow>
          if n \<le> ap_accepted a then Some (''the session already took its '' @ decimal n @ '' steps'', REFUSED)
          else None
      | None \<Rightarrow> None)"

definition refuse_step ::
  "'f step_envelope \<Rightarrow> nat \<Rightarrow> string \<Rightarrow> refusal_kind \<Rightarrow> ('v, 'f, 's, 'o) app \<Rightarrow> ('v, 'f, 's, 'o) app"
where
  "refuse_step r session reason kind a =
     out [StepRefused \<lparr>sr_conn = se_conn r, sr_request = se_request r, sr_session = session, sr_reason = reason,
            sr_kind = kind, sr_code = None, sr_entry = None\<rparr>] a"

definition dispatch_step :: "'f step_envelope \<Rightarrow> ('v, 'f, 's, 'o) app \<Rightarrow> ('v, 'f, 's, 'o) app" where
  "dispatch_step r a =
     (let key = (se_conn r, se_request r); a1 = a\<lparr>ap_failed := dict_del key (ap_failed a)\<rparr>
      in case dict_get (ap_failed a) key of
           Some f \<Rightarrow> out [StepRefused (f\<lparr>sr_session := ap_sessions a\<rparr>)] a1
         | None \<Rightarrow>
             (case step_closed a1 of
                Some (reason, kind) \<Rightarrow> refuse_step r (ap_sessions a) reason kind a1
              | None \<Rightarrow> a1\<lparr>ap_pending := Some r, ap_inbound := StepWait\<rparr>))"

section \<open>Commands\<close>

definition dispatch_command ::
  "real \<Rightarrow> 'v command_envelope \<Rightarrow> ('v, 'f, 's, 'o) app \<Rightarrow> ('v, 'f, 's, 'o) app"
where
  "dispatch_command now e a =
     (let skipped = (case (ce_step e, ce_conn e) of
                       (Some r, Some c) \<Rightarrow> dict_get (ap_failed a) (c, r) \<noteq> None \<or> step_closed a \<noteq> None
                     | _ \<Rightarrow> False)
      in if skipped then a else a\<lparr>ap_inbound := CommandLock e now\<rparr>)"

datatype 'v handler_end = Returned "'v option" | CommandErr string string | Unexpected

text \<open>\<open>_fail\<close>: a step request's first failure is kept for its step; the sender is told in any case.\<close>

definition fail ::
  "'v command_envelope \<Rightarrow> string \<Rightarrow> string \<Rightarrow> ('v, 'f, 's, 'o) app \<Rightarrow> ('v, 'f, 's, 'o) app"
where
  "fail e code message a =
     (case ce_conn e of
        None \<Rightarrow> a
      | Some c \<Rightarrow>
          (let a1 = (case ce_step e of
                       None \<Rightarrow> a
                     | Some r \<Rightarrow>
                         if dict_get (ap_failed a) (c, r) \<noteq> None then a
                         else a\<lparr>ap_failed := dict_set (c, r)
                             \<lparr>sr_conn = c, sr_request = r, sr_session = ap_sessions a,
                              sr_reason = ce_name e @ '' failed ('' @ code @ ''): '' @ message,
                              sr_kind = COMMAND_FAILED, sr_code = Some code, sr_entry = ce_entry e\<rparr> (ap_failed a)\<rparr>)
           in out [Replied c (CommandFailure code message) (ce_request e)] a1))"

definition INTERNAL_ERROR :: string where
  "INTERNAL_ERROR = ''internal_error''"

definition answer_command ::
  "'v command_envelope \<Rightarrow> 'v handler_end \<Rightarrow> ('v, 'f, 's, 'o) app \<Rightarrow> ('v, 'f, 's, 'o) app"
where
  "answer_command e h a =
     (case h of
        CommandErr code message \<Rightarrow> fail e code message a
      | Unexpected \<Rightarrow> fail e INTERNAL_ERROR ''The handler raised an unexpected error.'' a
      | Returned v \<Rightarrow>
          (case ce_conn e of
             None \<Rightarrow> a
           | Some c \<Rightarrow>
               (case v of
                  Some m \<Rightarrow> out [Replied c (Message m) (ce_request e)] a
                | None \<Rightarrow>
                    if ce_request e \<noteq> None then out [Replied c Acknowledged (ce_request e)] a else a)))"

text \<open>\<open>_run_command\<close>; \<open>f\<close> is what the handler does to the state, \<open>h\<close> how it ends.\<close>

definition run_command ::
  "('f, 's, 'o) app_config \<Rightarrow> real \<Rightarrow> 'v command_envelope \<Rightarrow> ('s \<Rightarrow> 's) \<Rightarrow> 'v handler_end
    \<Rightarrow> ('v, 'f, 's, 'o) app \<Rightarrow> ('v, 'f, 's, 'o) app"
where
  "run_command cfg now e f h a =
     (case dict_get (ac_commands cfg) (ce_name e) of
        None \<Rightarrow> a
      | Some takes_client \<Rightarrow>
          (let a1 = reserve_client takes_client now (ce_conn e) a;
               a2 = out [HandlerRan (ce_name e) (ce_args e) (ce_conn e)]
                      (a1\<lparr>ap_state := map_option f (ap_state a1)\<rparr>)
           in answer_command e h a2))"

definition report_command_timing ::
  "'v command_envelope \<Rightarrow> nat \<Rightarrow> real \<Rightarrow> real \<Rightarrow> real \<Rightarrow> ('v, 'f, 's, 'o) app \<Rightarrow> ('v, 'f, 's, 'o) app"
where
  "report_command_timing e session taken started finished a =
     (case (ce_conn e, ce_received e) of
        (Some c, Some received) \<Rightarrow>
          out [CommandTimed c session
            \<lparr>ct_received = received, ct_submitted = ce_submitted e, ct_held = ce_held e, ct_taken = taken,
             ct_started = started, ct_finished = finished\<rparr>] a
      | _ \<Rightarrow> a)"

section \<open>Reactor events\<close>

text \<open>\<open>_invoke_hook\<close>: a missing hook takes no lock.\<close>

definition invoke_hook ::
  "('f, 's, 'o) app_config \<Rightarrow> app_hook \<Rightarrow> conn_id option \<Rightarrow> ('v, 'f, 's, 'o) app \<Rightarrow> ('v, 'f, 's, 'o) app"
where
  "invoke_hook cfg h conn a =
     (if dict_get (ac_hooks cfg) h = None then a else a\<lparr>ap_inbound := HookLock h conn\<rparr>)"

text \<open>\<open>_call_hook\<close>: a hook that raises is logged and swallowed.\<close>

definition call_hook ::
  "('f, 's, 'o) app_config \<Rightarrow> real \<Rightarrow> app_hook \<Rightarrow> conn_id option \<Rightarrow> ('s \<Rightarrow> 's)
    \<Rightarrow> ('v, 'f, 's, 'o) app \<Rightarrow> ('v, 'f, 's, 'o) app"
where
  "call_hook cfg now h conn f a =
     (case dict_get (ac_hooks cfg) h of
        None \<Rightarrow> a
      | Some takes_client \<Rightarrow>
          (let a1 = reserve_client takes_client now conn a
           in out [HookRan h conn] (a1\<lparr>ap_state := map_option f (ap_state a1)\<rparr>)))"

text \<open>What follows a hook: a client that left is forgotten only then.\<close>

definition after_hook :: "app_hook \<Rightarrow> conn_id option \<Rightarrow> ('v, 'f, 's, 'o) app \<Rightarrow> ('v, 'f, 's, 'o) app" where
  "after_hook h conn a =
     (case conn of
        Some c \<Rightarrow> if h = OnDisconnected then a\<lparr>ap_clients := dict_del c (ap_clients a)\<rparr> else a
      | None \<Rightarrow> a)"

definition dispatch_event ::
  "('f, 's, 'o) app_config \<Rightarrow> real \<Rightarrow> 'v reactor_event \<Rightarrow> ('v, 'f, 's, 'o) app \<Rightarrow> ('v, 'f, 's, 'o) app"
where
  "dispatch_event cfg now ev a =
     (case ev of
        ClientConnected c n system \<Rightarrow>
          invoke_hook cfg OnConnected (Some c)
            (set_connected n (a\<lparr>ap_clients := dict_set c (now, system) (ap_clients a)\<rparr>))
      | ClientDisconnected c n \<Rightarrow>
          (let a1 = set_connected n a
           in if dict_get (ac_hooks cfg) OnDisconnected = None then after_hook OnDisconnected (Some c) a1
              else invoke_hook cfg OnDisconnected (Some c) a1)
      | SessionStarted starting_input stepped steps \<Rightarrow>
          (update_live (a\<lparr>ap_sessions := ap_sessions a + 1, ap_active := True, ap_starting := starting_input,
             ap_stepped := stepped, ap_accepted := 0, ap_limit := steps\<rparr>))\<lparr>ap_inbound := StartLock\<rparr>
      | StartingInputApplied \<Rightarrow> update_live (a\<lparr>ap_starting := False\<rparr>)
      | SessionEnded \<Rightarrow>
          (set_connected 0 (a\<lparr>ap_active := False, ap_starting := False, ap_failed := []\<rparr>))\<lparr>ap_inbound := EndLock\<rparr>
      | FileUploaded file conn \<Rightarrow> invoke_hook cfg OnFileUploaded conn a)"

definition reset_buffers ::
  "('f, 's, 'o) app_config \<Rightarrow> int option \<Rightarrow> ('v, 'f, 's, 'o) app \<Rightarrow> ('v, 'f, 's, 'o) app"
where
  "reset_buffers cfg through a =
     a\<lparr>ap_buffers := map (\<lambda>(n, b). (n, reset_buffer (ac_samples cfg) through b)) (ap_buffers a)\<rparr>"

definition end_session ::
  "('f, 's, 'o) app_config \<Rightarrow> ('v, 'f, 's, 'o) app \<Rightarrow> ('v, 'f, 's, 'o) app"
where
  "end_session cfg a =
     (let a1 = a\<lparr>ap_clients := [], ap_state := (if ac_state cfg = None then ap_state a else None)\<rparr>
      in (if ap_stepped a then reset_buffers cfg None a1 else a1)\<lparr>ap_stepped := False\<rparr>)"

section \<open>The inbound task\<close>

definition release_lock :: "('v, 'f, 's, 'o) app \<Rightarrow> ('v, 'f, 's, 'o) app" where
  "release_lock a = a\<lparr>ap_lock := None\<rparr>"

definition take_item ::
  "('f, 's, 'o) app_config \<Rightarrow> real \<Rightarrow> ('v, 'f) inbound_item \<Rightarrow> ('v, 'f, 's, 'o) app \<Rightarrow> ('v, 'f, 's, 'o) app"
where
  "take_item cfg now item a =
     (case item of
        CommandItem e \<Rightarrow> dispatch_command now e a
      | StepItem r \<Rightarrow> dispatch_step r a
      | EventItem ev \<Rightarrow> dispatch_event cfg now ev a)"

text \<open>\<open>async with self._step_lock\<close>: a task goes on once the lock is free.\<close>

definition inbound_locks :: "'v inbound_at \<Rightarrow> ('v, 'f, 's, 'o) app \<Rightarrow> ('v, 'f, 's, 'o) app" where
  "inbound_locks pc a = (if ap_lock a = None then a\<lparr>ap_lock := Some InboundTask, ap_inbound := pc\<rparr> else a)"

definition loop_locks :: "('f, 'o) loop_at \<Rightarrow> ('v, 'f, 's, 'o) app \<Rightarrow> ('v, 'f, 's, 'o) app" where
  "loop_locks pc a = (if ap_lock a = None then a\<lparr>ap_lock := Some LoopTask, ap_loop := pc\<rparr> else a)"

text \<open>
  One step of \<open>_inbound_loop\<close>; \<open>f\<close> and \<open>h\<close> are what the handler or hook that ends in this step
  did to the state and how it ended.
\<close>

definition inbound_step ::
  "('f, 's, 'o) app_config \<Rightarrow> real \<Rightarrow> ('s \<Rightarrow> 's) \<Rightarrow> 'v handler_end \<Rightarrow> ('v, 'f, 's, 'o) app \<Rightarrow> ('v, 'f, 's, 'o) app"
where
  "inbound_step cfg now f h a =
     (case ap_inbound a of
        Idle \<Rightarrow> (case ap_inbox a of [] \<Rightarrow> a | item # rest \<Rightarrow> take_item cfg now item (a\<lparr>ap_inbox := rest\<rparr>))
      | CommandLock e taken \<Rightarrow> inbound_locks (CommandRun e (ap_sessions a) taken now) a
      | CommandRun e session taken started \<Rightarrow>
          release_lock (report_command_timing e session taken started now
            (run_command cfg started e f h (a\<lparr>ap_inbound := Idle\<rparr>)))
      | StepWait \<Rightarrow> a
      | HookLock k conn \<Rightarrow> inbound_locks (HookRun k conn) a
      | HookRun k conn \<Rightarrow> after_hook k conn (release_lock (call_hook cfg now k conn f (a\<lparr>ap_inbound := Idle\<rparr>)))
      | StartLock \<Rightarrow>
          if ap_lock a = None
          then a\<lparr>ap_lock := Some InboundTask, ap_inbound := StartRun,
                 ap_state := (if ac_state cfg = None then ap_state a else ac_state cfg)\<rparr>
          else a
      | StartRun \<Rightarrow> release_lock (call_hook cfg now OnSessionStarted None f (a\<lparr>ap_inbound := Idle\<rparr>))
      | EndLock \<Rightarrow> inbound_locks EndRun a
      | EndRun \<Rightarrow>
          release_lock (end_session cfg (call_hook cfg now OnSessionEnded None f (a\<lparr>ap_inbound := Idle\<rparr>)))
      | Stopped \<Rightarrow> a)"

section \<open>The step loop\<close>

datatype input_result = InputOk | InputRefused string string | InputRaised app_exn

datatype 'o output_result = Produced "'o option" | Completed "'o step_completed" | OutputRaised app_exn

text \<open>\<open>_step_report\<close>\<close>

definition step_report :: "'o output_result \<Rightarrow> real \<Rightarrow> 'o step_completed" where
  "step_report r elapsed =
     (case r of
        Completed c \<Rightarrow> if sc_elapsed c = None then c\<lparr>sc_elapsed := Some elapsed\<rparr> else c
      | Produced o' \<Rightarrow> \<lparr>sc_output = o', sc_files = [], sc_error = None, sc_elapsed = Some elapsed\<rparr>
      | OutputRaised x \<Rightarrow> \<lparr>sc_output = None, sc_files = [], sc_error = None, sc_elapsed = Some elapsed\<rparr>)"

definition step_stages :: "real \<Rightarrow> real \<Rightarrow> real \<Rightarrow> (string, real) dict" where
  "step_stages input_ms elapsed output_ms =
     [(''process_input'', input_ms), (''generate'', elapsed * 1000), (''process_output'', output_ms)]"

definition playout_rate :: "('f, 's, 'o) app_config \<Rightarrow> nat \<Rightarrow> real option \<Rightarrow> real" where
  "playout_rate cfg n compute_time =
     (case compute_time of
        Some t \<Rightarrow> if t > 0 then real n / t else ac_fps cfg
      | None \<Rightarrow> ac_fps cfg)"

text \<open>\<open>_report_step\<close>; \<open>None\<close> when the output's metadata cannot be encoded.\<close>

definition report_step ::
  "('f, 's, 'o) app_config \<Rightarrow> 'o step_completed \<Rightarrow> nat \<Rightarrow> real option \<Rightarrow> (string, real) dict
    \<Rightarrow> requested_step option \<Rightarrow> ('v, 'f, 's, 'o) app \<Rightarrow> ('v, 'f, 's, 'o) app option"
where
  "report_step cfg report session fps stages request a =
     (if (case sc_output report of Some x \<Rightarrow> ac_bundle cfg x = None | None \<Rightarrow> False) then None
      else let rate = (case fps of
                         Some r \<Rightarrow> r
                       | None \<Rightarrow> (case ap_last_fps a of Some r \<Rightarrow> r | None \<Rightarrow> ac_fps cfg))
           in Some (out [StepReported \<lparr>co_step = report, co_session = session, co_fps = rate, co_stages = stages,
                                        co_request = request\<rparr>] a))"

text \<open>
  The end of the model: \<open>run()\<close> raised, or was cancelled by \<open>crash()\<close> or a stop. Its \<open>finally\<close>
  blocks run, the background task is cancelled, and a crash is reported.
\<close>

definition served_session :: "('f, 'o) loop_at \<Rightarrow> nat option" where
  "served_session l =
     (case l of
        While d s \<Rightarrow> Some s
      | StepLock d s \<Rightarrow> Some s
      | StepInput d s n \<Rightarrow> Some s
      | StepOutput d s n x y \<Rightarrow> Some s
      | Emitting d s n r x y \<Rightarrow> Some s
      | Sending d s n r x y \<Rightarrow> Some s
      | Asking d s \<Rightarrow> Some s
      | _ \<Rightarrow> None)"

definition die :: "('f, 's, 'o) app_config \<Rightarrow> app_exn option \<Rightarrow> ('v, 'f, 's, 'o) app \<Rightarrow> ('v, 'f, 's, 'o) app" where
  "die cfg x a =
     (let a1 = (case served_session (ap_loop a) of
                  Some s \<Rightarrow> reset_buffers cfg (Some (int s)) a
                | None \<Rightarrow> a);
          a2 = a1\<lparr>ap_loop := Dead, ap_inbound := Stopped, ap_lock := None\<rparr>
      in case x of Some e \<Rightarrow> out [Failed e] a2 | None \<Rightarrow> a2)"

text \<open>\<open>_report_input_waits\<close>\<close>

definition report_input_waits :: "nat \<Rightarrow> bool \<Rightarrow> ('v, 'f, 's, 'o) app \<Rightarrow> ('v, 'f, 's, 'o) app" where
  "report_input_waits session report a =
     (let waits = concat (map (\<lambda>(track, b). map (\<lambda>(src, ms). (src, track, ms)) (snd (take_read_waits b))) (ap_buffers a));
          a1 = a\<lparr>ap_buffers := map (\<lambda>(track, b). (track, fst (take_read_waits b))) (ap_buffers a)\<rparr>
      in if report
         then out (concat (map (\<lambda>(src, track, ms). case src of Some c \<Rightarrow> [InputWaited c session track ms] | None \<Rightarrow> []) waits)) a1
         else a1)"

definition push_frames ::
  "('f, 's, 'o) app_config \<Rightarrow> real \<Rightarrow> 'f step_envelope \<Rightarrow> nat \<Rightarrow> ('v, 'f, 's, 'o) app \<Rightarrow> ('v, 'f, 's, 'o) app"
where
  "push_frames cfg now r session a =
     foldl (\<lambda>a (track, frames).
        case dict_get (ap_buffers a) track of
          None \<Rightarrow> a
        | Some b \<Rightarrow>
            a\<lparr>ap_buffers := dict_set track
                (foldl (\<lambda>b fr. fst (push (ac_samples cfg) now fr (Some (se_conn r)) (int session) b)) b frames)
                (ap_buffers a)\<rparr>) a (se_media r)"

text \<open>The end of a requested step: the inbound task, which waited for it, goes on.\<close>

definition finish_request :: "('v, 'f, 's, 'o) app \<Rightarrow> ('v, 'f, 's, 'o) app" where
  "finish_request a = a\<lparr>ap_loop := Turn, ap_inbound := Idle\<rparr>"

text \<open>
  What the author's code does in one step of the loop: the effect on the state and on the
  buffers, how \<open>process_input\<close> and \<open>process_output\<close> end, and the measured times.
\<close>

record ('f, 's, 'o) author =
  au_state :: "'s \<Rightarrow> 's"
  au_buffers :: "(string, 'f input_buffer) dict \<Rightarrow> (string, 'f input_buffer) dict"
  au_input :: input_result
  au_output :: "'o output_result"
  au_input_ms :: real
  au_elapsed :: real
  au_output_ms :: real

definition author_ran :: "('f, 's, 'o) author \<Rightarrow> ('v, 'f, 's, 'o) app \<Rightarrow> ('v, 'f, 's, 'o) app" where
  "author_ran au a = a\<lparr>ap_state := map_option (au_state au) (ap_state a), ap_buffers := au_buffers au (ap_buffers a)\<rparr>"

text \<open>The wait for a turn: a posted request goes first, else the open gate starts a streaming turn.\<close>

definition next_turn :: "('v, 'f, 's, 'o) app \<Rightarrow> ('v, 'f, 's, 'o) app" where
  "next_turn a =
     (case ap_pending a of
        Some r \<Rightarrow> a\<lparr>ap_pending := None, ap_loop := RequestLock r\<rparr>
      | None \<Rightarrow> if ap_live a then a\<lparr>ap_loop := While (ap_drops a) (ap_sessions a)\<rparr> else a)"

text \<open>\<open>_run_requested_step\<close>, between its awaits.\<close>

definition run_requested_step ::
  "('f, 's, 'o) app_config \<Rightarrow> real \<Rightarrow> ('f, 's, 'o) author \<Rightarrow> ('v, 'f, 's, 'o) app \<Rightarrow> ('v, 'f, 's, 'o) app"
where
  "run_requested_step cfg now au a =
     (case ap_loop a of
        RequestLock r \<Rightarrow>
          if ap_lock a = None
          then push_frames cfg now r (ap_sessions a)
                 (a\<lparr>ap_lock := Some LoopTask, ap_loop := RequestInput r (ap_sessions a)\<rparr>)
          else a
      | RequestInput r n \<Rightarrow>
          (let a1 = author_ran au a in
           case au_input au of
             InputRaised x \<Rightarrow> die cfg (Some x) a1
           | InputRefused kind reason \<Rightarrow>
               finish_request (release_lock (refuse_step r n (if reason = [] then kind else reason) REFUSED a1))
           | InputOk \<Rightarrow>
               out [Generated n] (a1\<lparr>ap_accepted := ap_accepted a + 1,
                 ap_loop := RequestOutput r n (ap_accepted a + 1) (au_elapsed au)\<rparr>))
      | RequestOutput r n i elapsed \<Rightarrow>
          (let a1 = author_ran au a in
           case au_output au of
             OutputRaised x \<Rightarrow> die cfg (Some x) a1
           | res \<Rightarrow>
               (case report_step cfg (step_report res elapsed) n None []
                       (Some \<lparr>rq_conn = se_conn r, rq_request = se_request r, rq_index = i,
                              rq_max_message = se_max_message r\<rparr>)
                       (finish_request (release_lock a1)) of
                  Some a2 \<Rightarrow> a2
                | None \<Rightarrow> die cfg (Some (Exn ''ValueError'' ''metadata'')) (release_lock a1)))
      | _ \<Rightarrow> a)"

definition loop_step ::
  "('f, 's, 'o) app_config \<Rightarrow> real \<Rightarrow> ('f, 's, 'o) author \<Rightarrow> ('v, 'f, 's, 'o) app \<Rightarrow> ('v, 'f, 's, 'o) app"
where
  "loop_step cfg now au a =
     (case ap_loop a of
        Turn \<Rightarrow> next_turn a
      | While d s \<Rightarrow>
          if ap_live a \<and> ap_drops a = d
          then if ap_requested a then a\<lparr>ap_requested := False, ap_loop := StepLock d s\<rparr> else a
          else (reset_buffers cfg (Some (int s)) a)\<lparr>ap_loop := Turn\<rparr>
      | StepLock d s \<Rightarrow> loop_locks (StepInput d s (ap_sessions a)) a
      | StepInput d s n \<Rightarrow>
          (let a1 = author_ran au a in
           case au_input au of
             InputRaised x \<Rightarrow> die cfg (Some x) a1
           | InputRefused kind reason \<Rightarrow> release_lock (report_input_waits n False (a1\<lparr>ap_loop := Asking d s\<rparr>))
           | InputOk \<Rightarrow>
               out [Generated n] (report_input_waits n True
                 (a1\<lparr>ap_loop := StepOutput d s n (au_input_ms au) (au_elapsed au)\<rparr>)))
      | StepOutput d s n input_ms elapsed \<Rightarrow>
          (let a1 = author_ran au a in
           case au_output au of
             OutputRaised x \<Rightarrow> die cfg (Some x) a1
           | r \<Rightarrow>
               (release_lock a1)\<lparr>ap_loop := Emitting d s n (step_report r elapsed) elapsed
                  (step_stages input_ms elapsed (au_output_ms au))\<rparr>)
      | Emitting d s n report elapsed stages \<Rightarrow>
          (case sc_output report of
             None \<Rightarrow>
               (case report_step cfg report n None stages None (a\<lparr>ap_loop := Asking d s\<rparr>) of
                  Some a1 \<Rightarrow> a1 | None \<Rightarrow> a)
           | Some x \<Rightarrow>
               (case ac_bundle cfg x of
                  None \<Rightarrow> die cfg (Some (Exn ''ValueError'' ''metadata'')) a
                | Some frames \<Rightarrow>
                    let rate = playout_rate cfg frames (if ac_fps_pinned cfg then None else Some elapsed)
                    in out [Emitted n x rate]
                         (a\<lparr>ap_last_fps := Some rate, ap_loop := Sending d s n report rate stages\<rparr>)))
      | Sending d s n report rate stages \<Rightarrow>
          (case report_step cfg report n (Some rate) stages None (a\<lparr>ap_loop := Asking d s\<rparr>) of
             Some a1 \<Rightarrow> a1 | None \<Rightarrow> die cfg (Some (Exn ''ValueError'' ''metadata'')) a)
      | Asking d s \<Rightarrow> a\<lparr>ap_requested := True, ap_loop := While d s\<rparr>
      | RequestLock r \<Rightarrow> run_requested_step cfg now au a
      | RequestInput r n \<Rightarrow> run_requested_step cfg now au a
      | RequestOutput r n i elapsed \<Rightarrow> run_requested_step cfg now au a
      | Dead \<Rightarrow> a)"

lemmas loop_defs = loop_step_def next_turn_def run_requested_step_def

section \<open>Runs\<close>

text \<open>
  \<open>Post\<close> and \<open>PushMedia\<close> are the runtime's calls, dropped once the loop is closed; \<open>Cancel\<close> is
  \<open>stop()\<close>, or \<open>crash()\<close> with its error, landing.
\<close>

datatype ('v, 'f, 's, 'o) app_op =
    Post "('v, 'f) inbound_item"
  | PushMedia real string 'f "conn_id option" int
  | InboundStep real "'s \<Rightarrow> 's" "'v handler_end"
  | LoopStep real "('f, 's, 'o) author"
  | Cancel "app_exn option"

definition enqueue :: "('v, 'f) inbound_item \<Rightarrow> ('v, 'f, 's, 'o) app \<Rightarrow> ('v, 'f, 's, 'o) app" where
  "enqueue item a =
     (if ap_loop a = Dead then a
      else a\<lparr>ap_inbox := ap_inbox a @ [item],
             ap_asked := ap_asked a @ (case item of StepItem r \<Rightarrow> [(se_conn r, se_request r)] | _ \<Rightarrow> [])\<rparr>)"

definition push_media ::
  "('f, 's, 'o) app_config \<Rightarrow> real \<Rightarrow> string \<Rightarrow> 'f \<Rightarrow> conn_id option \<Rightarrow> int
    \<Rightarrow> ('v, 'f, 's, 'o) app \<Rightarrow> ('v, 'f, 's, 'o) app"
where
  "push_media cfg now track frame source session a =
     (if ap_loop a = Dead then a
      else case dict_get (ap_buffers a) track of
        None \<Rightarrow> a
      | Some b \<Rightarrow>
          a\<lparr>ap_buffers := dict_set track (fst (push (ac_samples cfg) now frame source session b)) (ap_buffers a)\<rparr>)"

fun app_step ::
  "('f, 's, 'o) app_config \<Rightarrow> ('v, 'f, 's, 'o) app \<Rightarrow> ('v, 'f, 's, 'o) app_op \<Rightarrow> ('v, 'f, 's, 'o) app"
where
  "app_step cfg a (Post item) = enqueue item a"
| "app_step cfg a (PushMedia now track frame source session) = push_media cfg now track frame source session a"
| "app_step cfg a (InboundStep now f h) = inbound_step cfg now f h a"
| "app_step cfg a (LoopStep now au) = loop_step cfg now au a"
| "app_step cfg a (Cancel x) = (if ap_loop a = Dead then a else die cfg x a)"

section \<open>A sample application\<close>

text \<open>
  An application that counts its steps in its state, and a stepped session of it: the session
  starts, a request for a step is posted, and the loop is in the step's \<open>process_input()\<close>.
\<close>

definition sample_config :: "(nat, nat, nat) app_config" where
  "sample_config = \<lparr>ac_commands = [], ac_hooks = [], ac_state = Some 0, ac_fps = 30, ac_fps_pinned = True,
     ac_samples = (\<lambda>_. 0), ac_bundle = Some\<rparr>"

definition sample_author :: "(nat, nat, nat) author" where
  "sample_author = \<lparr>au_state = Suc, au_buffers = id, au_input = InputOk, au_output = Produced (Some 1),
     au_input_ms = 0, au_elapsed = 0, au_output_ms = 0\<rparr>"

definition sample_step :: "nat step_envelope" where
  "sample_step = \<lparr>se_media = [], se_conn = 7, se_request = ''r'', se_max_message = None\<rparr>"

definition sample_dispatch :: "(nat, nat, nat, nat) app_op" where
  "sample_dispatch = InboundStep 0 id (Returned None)"

definition sample_posted :: "(nat, nat, nat, nat) app_op list" where
  "sample_posted =
     [Post (EventItem (SessionStarted False True None)), sample_dispatch, sample_dispatch, sample_dispatch,
      Post (StepItem sample_step), sample_dispatch]"

definition sample_ops :: "(nat, nat, nat, nat) app_op list" where
  "sample_ops = sample_posted @ [LoopStep 0 sample_author, LoopStep 0 sample_author]"

text \<open>A streaming session with a client, in the \<open>process_input()\<close> of its first step.\<close>

definition sample_stream :: "(nat, nat, nat, nat) app_op list" where
  "sample_stream =
     [Post (EventItem (SessionStarted False False None)), sample_dispatch, sample_dispatch, sample_dispatch,
      Post (EventItem (ClientConnected 7 1 False)), sample_dispatch,
      LoopStep 0 sample_author, LoopStep 0 sample_author, LoopStep 0 sample_author]"

lemmas sample_defs = sample_stream_def sample_config_def sample_author_def sample_step_def sample_dispatch_def sample_posted_def sample_ops_def

end
