(* ===== verification/AppTasks.thy ===== *)
theory AppTasks
  imports AppLoop
begin

text \<open>
  What holds of the model's two tasks in every state they can reach: who holds the step lock,
  when the live gate is open, what the inbound task waits for, and when the session's state
  exists.
\<close>

section \<open>What each helper leaves alone\<close>

text \<open>The control part of a state: everything but the clients, the author's state, buffers and outputs.\<close>

definition ctl where
  "ctl a = (ap_inbox a, ap_sessions a, (ap_active a, ap_starting a, ap_stepped a, ap_accepted a, ap_limit a),
     (ap_connected a, ap_live a, ap_drops a, ap_requested a), ap_pending a, ap_lock a, ap_inbound a, ap_loop a, ap_asked a)"

lemma ctl_D:
  "ctl x = ctl a \<Longrightarrow>
     ap_inbox x = ap_inbox a \<and> ap_sessions x = ap_sessions a \<and> ap_active x = ap_active a
     \<and> ap_starting x = ap_starting a \<and> ap_stepped x = ap_stepped a \<and> ap_accepted x = ap_accepted a
     \<and> ap_limit x = ap_limit a \<and> ap_connected x = ap_connected a \<and> ap_live x = ap_live a \<and> ap_drops x = ap_drops a
     \<and> ap_requested x = ap_requested a \<and> ap_pending x = ap_pending a \<and> ap_lock x = ap_lock a
     \<and> ap_inbound x = ap_inbound a \<and> ap_loop x = ap_loop a \<and> ap_asked x = ap_asked a"
  by (simp add: ctl_def)

lemma out_ctl: "ctl (out xs a) = ctl a"
  by (simp add: out_def ctl_def)

lemma reserve_client_ctl: "ctl (reserve_client t now c a) = ctl a"
  by (simp add: reserve_client_def ctl_def split: option.split)

lemma fail_ctl: "ctl (fail e code m a) = ctl a"
  by (simp add: fail_def ctl_def out_def Let_def split: option.split)

lemma answer_command_ctl: "ctl (answer_command e h a) = ctl a"
  by (simp add: answer_command_def fail_ctl out_ctl split: handler_end.split option.split)

lemma run_command_ctl: "ctl (run_command cfg now e f h a) = ctl a"
  by (cases "dict_get (ac_commands cfg) (ce_name e)")
    (simp_all add: run_command_def Let_def answer_command_ctl out_ctl, simp add: ctl_def ctl_D [OF reserve_client_ctl])

lemma report_command_timing_ctl: "ctl (report_command_timing e n t s f a) = ctl a"
  by (simp add: report_command_timing_def out_ctl split: option.split)

lemma call_hook_ctl: "ctl (call_hook cfg now h c f a) = ctl a"
  by (cases "dict_get (ac_hooks cfg) h")
    (simp_all add: call_hook_def Let_def out_ctl, simp add: ctl_def ctl_D [OF reserve_client_ctl])

lemma after_hook_ctl: "ctl (after_hook h c a) = ctl a"
  by (simp add: after_hook_def ctl_def split: option.split)

lemma reset_buffers_ctl: "ctl (reset_buffers cfg th a) = ctl a"
  by (simp add: reset_buffers_def ctl_def)

lemma report_input_waits_ctl: "ctl (report_input_waits n b a) = ctl a"
  by (simp add: report_input_waits_def Let_def out_ctl) (simp add: ctl_def)

lemma push_frames_ctl: "ctl (push_frames cfg now r n a) = ctl a"
proof -
  have "ctl (foldl (\<lambda>a (track, frames).
        case dict_get (ap_buffers a) track of
          None \<Rightarrow> a
        | Some b \<Rightarrow>
            a\<lparr>ap_buffers := dict_set track
                (foldl (\<lambda>b fr. fst (push (ac_samples cfg) now fr (Some (se_conn r)) (int n) b)) b frames)
                (ap_buffers a)\<rparr>) a ms) = ctl a" for ms
    by (induction ms arbitrary: a) (simp_all add: ctl_def split: option.split prod.split)
  then show ?thesis
    by (simp add: push_frames_def)
qed

lemma author_ran_ctl: "ctl (author_ran au a) = ctl a"
  by (simp add: author_ran_def ctl_def)

lemma refuse_step_ctl: "ctl (refuse_step r n reason k a) = ctl a"
  by (simp add: refuse_step_def out_ctl)

lemma push_media_ctl: "ctl (push_media cfg now tr fr src n a) = ctl a"
  by (simp add: push_media_def ctl_def split: option.split)

lemmas helper_fields [simp] =
  out_ctl [THEN ctl_D] reserve_client_ctl [THEN ctl_D] fail_ctl [THEN ctl_D] answer_command_ctl [THEN ctl_D]
  run_command_ctl [THEN ctl_D] report_command_timing_ctl [THEN ctl_D] call_hook_ctl [THEN ctl_D]
  after_hook_ctl [THEN ctl_D] reset_buffers_ctl [THEN ctl_D] report_input_waits_ctl [THEN ctl_D]
  push_frames_ctl [THEN ctl_D] author_ran_ctl [THEN ctl_D] refuse_step_ctl [THEN ctl_D]
  push_media_ctl [THEN ctl_D]

lemma release_fields [simp]:
  "ap_lock (release_lock a) = None" "ap_inbound (release_lock a) = ap_inbound a" "ap_loop (release_lock a) = ap_loop a"
  "ap_pending (release_lock a) = ap_pending a" "ap_live (release_lock a) = ap_live a" "ap_active (release_lock a) = ap_active a"
  "ap_connected (release_lock a) = ap_connected a" "ap_starting (release_lock a) = ap_starting a"
  "ap_stepped (release_lock a) = ap_stepped a" "ap_sessions (release_lock a) = ap_sessions a"
  "ap_accepted (release_lock a) = ap_accepted a" "ap_limit (release_lock a) = ap_limit a" "ap_inbox (release_lock a) = ap_inbox a"
  "ap_asked (release_lock a) = ap_asked a" "ap_out (release_lock a) = ap_out a" "ap_state (release_lock a) = ap_state a"
  "ap_failed (release_lock a) = ap_failed a"
  by (simp_all add: release_lock_def)

lemma end_session_fields [simp]:
  "ap_lock (end_session cfg a) = ap_lock a" "ap_inbound (end_session cfg a) = ap_inbound a"
  "ap_loop (end_session cfg a) = ap_loop a" "ap_pending (end_session cfg a) = ap_pending a"
  "ap_live (end_session cfg a) = ap_live a" "ap_active (end_session cfg a) = ap_active a"
  "ap_connected (end_session cfg a) = ap_connected a" "ap_starting (end_session cfg a) = ap_starting a"
  "\<not> ap_stepped (end_session cfg a)" "ap_sessions (end_session cfg a) = ap_sessions a"
  "ap_accepted (end_session cfg a) = ap_accepted a" "ap_limit (end_session cfg a) = ap_limit a"
  "ap_inbox (end_session cfg a) = ap_inbox a" "ap_asked (end_session cfg a) = ap_asked a"
  "ap_out (end_session cfg a) = ap_out a" "ap_failed (end_session cfg a) = ap_failed a"
  by (simp_all add: end_session_def Let_def) (simp_all add: reset_buffers_def)

lemma update_live_fields [simp]:
  "ap_lock (update_live a) = ap_lock a" "ap_inbound (update_live a) = ap_inbound a" "ap_loop (update_live a) = ap_loop a"
  "ap_pending (update_live a) = ap_pending a" "ap_active (update_live a) = ap_active a"
  "ap_connected (update_live a) = ap_connected a" "ap_starting (update_live a) = ap_starting a"
  "ap_stepped (update_live a) = ap_stepped a" "ap_sessions (update_live a) = ap_sessions a"
  "ap_accepted (update_live a) = ap_accepted a" "ap_limit (update_live a) = ap_limit a"
  "ap_inbox (update_live a) = ap_inbox a" "ap_asked (update_live a) = ap_asked a" "ap_out (update_live a) = ap_out a"
  "ap_state (update_live a) = ap_state a" "ap_failed (update_live a) = ap_failed a"
  by (simp_all add: update_live_def)

lemma set_connected_fields [simp]:
  "ap_lock (set_connected n a) = ap_lock a" "ap_inbound (set_connected n a) = ap_inbound a"
  "ap_loop (set_connected n a) = ap_loop a" "ap_pending (set_connected n a) = ap_pending a"
  "ap_active (set_connected n a) = ap_active a" "ap_connected (set_connected n a) \<longleftrightarrow> 0 < n"
  "ap_starting (set_connected n a) = ap_starting a" "ap_stepped (set_connected n a) = ap_stepped a"
  "ap_sessions (set_connected n a) = ap_sessions a" "ap_accepted (set_connected n a) = ap_accepted a"
  "ap_limit (set_connected n a) = ap_limit a" "ap_inbox (set_connected n a) = ap_inbox a"
  "ap_asked (set_connected n a) = ap_asked a" "ap_out (set_connected n a) = ap_out a"
  "ap_state (set_connected n a) = ap_state a" "ap_failed (set_connected n a) = ap_failed a"
  by (simp_all add: set_connected_def)

lemma die_fields [simp]:
  "ap_loop (die cfg x a) = Dead" "ap_inbound (die cfg x a) = Stopped" "ap_lock (die cfg x a) = None"
  "ap_pending (die cfg x a) = ap_pending a" "ap_asked (die cfg x a) = ap_asked a"
  "ap_live (die cfg x a) = ap_live a" "ap_active (die cfg x a) = ap_active a"
  "ap_connected (die cfg x a) = ap_connected a" "ap_starting (die cfg x a) = ap_starting a"
  "ap_stepped (die cfg x a) = ap_stepped a" "ap_sessions (die cfg x a) = ap_sessions a"
  "ap_accepted (die cfg x a) = ap_accepted a" "ap_limit (die cfg x a) = ap_limit a"
  by (simp_all add: die_def Let_def split: option.split)

lemma report_step_Some:
  "report_step cfg r n fps st q a = Some a' \<Longrightarrow>
     ctl a' = ctl a \<and> ap_state a' = ap_state a \<and> ap_failed a' = ap_failed a
     \<and> (\<exists>rate. ap_out a' = ap_out a @ [StepReported \<lparr>co_step = r, co_session = n, co_fps = rate, co_stages = st, co_request = q\<rparr>])"
  by (auto simp: report_step_def Let_def out_def ctl_def split: if_splits option.splits)

lemmas report_step_ctl = report_step_Some [THEN conjunct1, THEN ctl_D]

section \<open>The lock\<close>

fun inbound_holds :: "'v inbound_at \<Rightarrow> bool" where
  "inbound_holds (CommandRun e n t s) = True"
| "inbound_holds (HookRun h c) = True"
| "inbound_holds StartRun = True"
| "inbound_holds EndRun = True"
| "inbound_holds pc = False"

fun loop_holds :: "('f, 'o) loop_at \<Rightarrow> bool" where
  "loop_holds (StepInput d s n) = True"
| "loop_holds (StepOutput d s n x y) = True"
| "loop_holds (RequestInput r n) = True"
| "loop_holds (RequestOutput r n i y) = True"
| "loop_holds pc = False"

definition lock_ok :: "('v, 'f, 's, 'o) app \<Rightarrow> bool" where
  "lock_ok a \<longleftrightarrow>
     (ap_lock a = Some InboundTask \<longleftrightarrow> inbound_holds (ap_inbound a))
     \<and> (ap_lock a = Some LoopTask \<longleftrightarrow> loop_holds (ap_loop a))"

fun loop_request :: "('f, 'o) loop_at \<Rightarrow> 'f step_envelope option" where
  "loop_request (RequestLock r) = Some r"
| "loop_request (RequestInput r n) = Some r"
| "loop_request (RequestOutput r n i y) = Some r"
| "loop_request pc = None"

definition wait_ok :: "('v, 'f, 's, 'o) app \<Rightarrow> bool" where
  "wait_ok a \<longleftrightarrow>
     (ap_loop a = Dead \<longleftrightarrow> ap_inbound a = Stopped)
     \<and> (ap_inbound a = EndLock \<or> ap_inbound a = EndRun \<longrightarrow> \<not> ap_active a)
     \<and> (ap_pending a \<noteq> None \<longrightarrow> loop_request (ap_loop a) = None)
     \<and> (ap_loop a \<noteq> Dead \<longrightarrow> (ap_inbound a = StepWait \<longleftrightarrow> ap_pending a \<noteq> None \<or> loop_request (ap_loop a) \<noteq> None))"

definition live_ok :: "('v, 'f, 's, 'o) app \<Rightarrow> bool" where
  "live_ok a \<longleftrightarrow> (ap_live a \<longleftrightarrow> ap_connected a \<and> ap_active a \<and> \<not> ap_starting a \<and> \<not> ap_stepped a)"

lemma update_live_gate: "live_ok (update_live a)"
  by (auto simp: live_ok_def update_live_def)

lemma set_connected_gate: "live_ok (set_connected n a)"
  by (simp add: set_connected_def update_live_gate)

definition tasks_ok :: "('v, 'f, 's, 'o) app \<Rightarrow> bool" where
  "tasks_ok a \<longleftrightarrow> lock_ok a \<and> wait_ok a \<and> live_ok a"

lemmas tasks_defs = tasks_ok_def lock_ok_def wait_ok_def live_ok_def

lemma die_tasks_ok: "tasks_ok a \<Longrightarrow> loop_request (ap_loop a) = None \<or> ap_pending a = None \<Longrightarrow> tasks_ok (die cfg x a)"
  by (auto simp: tasks_defs)

lemma enqueue_tasks_ok: "tasks_ok a \<Longrightarrow> tasks_ok (enqueue i a)"
  by (auto simp: tasks_defs enqueue_def)

lemma push_media_tasks_ok: "tasks_ok a \<Longrightarrow> tasks_ok (push_media cfg now tr fr src n a)"
  by (simp add: tasks_defs)

lemma dispatch_step_tasks_ok:
  "tasks_ok a \<Longrightarrow> ap_inbound a = Idle \<Longrightarrow> tasks_ok (dispatch_step r a)"
  by (auto simp: tasks_defs dispatch_step_def Let_def split: option.split prod.split)

lemma dispatch_command_tasks_ok:
  "tasks_ok a \<Longrightarrow> ap_inbound a = Idle \<Longrightarrow> tasks_ok (dispatch_command now e a)"
  by (auto simp: tasks_defs dispatch_command_def Let_def)

lemma invoke_hook_tasks_ok:
  "tasks_ok a \<Longrightarrow> ap_inbound a = Idle \<Longrightarrow> tasks_ok (invoke_hook cfg h c a)"
  by (auto simp: tasks_defs invoke_hook_def)

lemma after_hook_tasks_ok: "tasks_ok a \<Longrightarrow> tasks_ok (after_hook h c a)"
  by (simp add: tasks_defs)

lemma set_connected_tasks_ok: "tasks_ok a \<Longrightarrow> tasks_ok (set_connected n a)"
  using set_connected_gate [of n a] by (simp add: tasks_ok_def lock_ok_def wait_ok_def)

lemma update_live_tasks_ok: "lock_ok a \<Longrightarrow> wait_ok a \<Longrightarrow> tasks_ok (update_live a)"
  using update_live_gate [of a] by (simp add: tasks_ok_def lock_ok_def wait_ok_def)

lemma dispatch_event_tasks_ok:
  assumes "tasks_ok a" and "ap_inbound a = Idle"
  shows "tasks_ok (dispatch_event cfg now ev a)"
proof (cases ev)
  case (ClientConnected c n system)
  have "tasks_ok (a\<lparr>ap_clients := dict_set c (now, system) (ap_clients a)\<rparr>)"
    using assms(1) by (simp add: tasks_defs)
  then show ?thesis
    using ClientConnected assms(2) by (simp add: dispatch_event_def invoke_hook_tasks_ok set_connected_tasks_ok)
next
  case (ClientDisconnected c n)
  then show ?thesis
    using assms
    by (simp add: dispatch_event_def Let_def invoke_hook_tasks_ok after_hook_tasks_ok set_connected_tasks_ok)
next
  case (SessionStarted starting stepped steps)
  have "tasks_ok (update_live (a\<lparr>ap_sessions := ap_sessions a + 1, ap_active := True, ap_starting := starting,
      ap_stepped := stepped, ap_accepted := 0, ap_limit := steps\<rparr>))"
    using assms by (intro update_live_tasks_ok) (simp_all add: tasks_defs)
  then show ?thesis
    using SessionStarted assms by (auto simp: dispatch_event_def tasks_defs)
next
  case StartingInputApplied
  then show ?thesis
    using assms
    by (simp add: dispatch_event_def update_live_gate update_live_tasks_ok tasks_ok_def lock_ok_def wait_ok_def)
next
  case SessionEnded
  have "tasks_ok (set_connected 0 (a\<lparr>ap_active := False, ap_starting := False, ap_failed := []\<rparr>))"
    unfolding set_connected_def
    using assms by (intro update_live_tasks_ok) (simp_all add: tasks_defs)
  then show ?thesis
    using SessionEnded assms by (auto simp: dispatch_event_def tasks_defs)
qed (use assms in \<open>simp add: dispatch_event_def invoke_hook_tasks_ok\<close>)

lemma inbound_step_tasks_ok:
  assumes "tasks_ok a"
  shows "tasks_ok (inbound_step cfg now f h a)"
proof (cases "ap_inbound a")
  case Idle
  have "tasks_ok (a\<lparr>ap_inbox := rest\<rparr>)" for rest
    using assms by (simp add: tasks_defs)
  then show ?thesis
    using Idle assms
    by (simp add: inbound_step_def take_item_def dispatch_command_tasks_ok dispatch_step_tasks_ok
        dispatch_event_tasks_ok split: list.split inbound_item.split)
qed (use assms in \<open>auto simp: inbound_step_def inbound_locks_def tasks_defs split: if_splits\<close>)

lemma report_step_tasks_ok:
  "tasks_ok a \<Longrightarrow> report_step cfg r n fps st q a = Some a' \<Longrightarrow> tasks_ok a'"
  by (drule report_step_ctl) (simp add: tasks_defs)

lemma loop_step_tasks_ok:
  assumes "tasks_ok a"
  shows "tasks_ok (loop_step cfg now au a)"
proof (cases "ap_loop a")
  case Turn
  then show ?thesis
    using assms by (auto simp: loop_defs tasks_defs split: option.split)
next
  case (While d s)
  then show ?thesis
    using assms by (auto simp: loop_defs tasks_defs)
next
  case (StepLock d s)
  then show ?thesis
    using assms by (auto simp: loop_defs loop_locks_def tasks_defs)
next
  case (StepInput d s n)
  then show ?thesis
    using assms by (auto simp: loop_defs tasks_defs Let_def split: input_result.split)
next
  case (StepOutput d s n x y)
  then show ?thesis
    using assms by (auto simp: loop_defs tasks_defs Let_def split: output_result.split)
next
  case (Emitting d s n r x y)
  have "tasks_ok (a\<lparr>ap_loop := Asking d s\<rparr>)"
    using assms Emitting by (auto simp: tasks_defs)
  moreover have "tasks_ok (a\<lparr>ap_last_fps := q, ap_loop := Sending d s n r x' y\<rparr>)" for q x'
    using assms Emitting by (auto simp: tasks_defs)
  then have "tasks_ok (out os (a\<lparr>ap_last_fps := q, ap_loop := Sending d s n r x' y\<rparr>))" for os q x'
    by (simp add: tasks_defs)
  moreover have "tasks_ok (die cfg e a)" for e
    using assms Emitting by (simp add: die_tasks_ok)
  ultimately show ?thesis
    using assms Emitting report_step_tasks_ok
    by (auto simp: loop_defs Let_def split: option.split)
next
  case (Sending d s n r x y)
  have "tasks_ok (a\<lparr>ap_loop := Asking d s\<rparr>)"
    using assms Sending by (auto simp: tasks_defs)
  moreover have "tasks_ok (die cfg e a)" for e
    using assms Sending by (simp add: die_tasks_ok)
  ultimately show ?thesis
    using Sending report_step_tasks_ok by (auto simp: loop_defs split: option.split)
next
  case (Asking d s)
  then show ?thesis
    using assms by (auto simp: loop_defs tasks_defs)
next
  case (RequestLock r)
  then show ?thesis
    using assms by (auto simp: loop_defs tasks_defs)
next
  case (RequestInput r n)
  then show ?thesis
    using assms by (auto simp: loop_defs tasks_defs Let_def finish_request_def split: input_result.split)
next
  case (RequestOutput r n i y)
  have fin: "tasks_ok (finish_request (release_lock (author_ran au a)))"
    using assms RequestOutput by (auto simp: tasks_defs finish_request_def)
  have dead: "tasks_ok (die cfg e (release_lock (author_ran au a)))" "tasks_ok (die cfg e (author_ran au a))" for e
    using assms RequestOutput by (auto simp: tasks_defs)
  show ?thesis
    using RequestOutput fin dead report_step_tasks_ok
    by (auto simp: loop_defs Let_def split: output_result.split option.split)
qed (use assms in \<open>simp add: loop_defs\<close>)

lemma app_step_tasks_ok:
  assumes "tasks_ok a"
  shows "tasks_ok (app_step cfg a x)"
proof (cases x)
  case (Cancel e)
  have "ap_pending a = None \<or> loop_request (ap_loop a) = None"
    using assms by (auto simp: tasks_defs)
  then show ?thesis
    using Cancel assms by (auto intro: die_tasks_ok)
qed (use assms in \<open>simp_all add: enqueue_tasks_ok push_media_tasks_ok inbound_step_tasks_ok loop_step_tasks_ok\<close>)

interpretation tasks: step_invariant "app_step cfg" tasks_ok for cfg
  by unfold_locales (rule app_step_tasks_ok)

lemma loop_ready_tasks_ok: "tasks_ok (loop_ready buffers)"
  by (simp add: loop_ready_def tasks_defs)

abbreviation app_reached ::
  "('f, 's, 'o) app_config \<Rightarrow> (string, 'f input_buffer) dict \<Rightarrow> ('v, 'f, 's, 'o) app_op list \<Rightarrow> ('v, 'f, 's, 'o) app"
where
  "app_reached cfg buffers ops \<equiv> foldl (app_step cfg) (loop_ready buffers) ops"

lemma reached_tasks_ok: "tasks_ok (app_reached cfg buffers ops)"
  by (rule tasks.run_keeps [OF loop_ready_tasks_ok])

text \<open>
  The live gate is open exactly while a session that is not stepped has started, its
  starting input has been applied and a client is connected, in every state the model's
  tasks can reach.
\<close>

theorem gate_exact:
  "let a = app_reached cfg buffers ops
   in ap_live a \<longleftrightarrow> ap_connected a \<and> ap_active a \<and> \<not> ap_starting a \<and> \<not> ap_stepped a"
  using reached_tasks_ok [of cfg buffers ops] by (simp add: Let_def tasks_ok_def live_ok_def)

section \<open>A step is not disturbed\<close>

text \<open>The calls of the author's code, in order.\<close>

fun author_call :: "('v, 'o) outbound \<Rightarrow> bool" where
  "author_call (HandlerRan n v c) = True"
| "author_call (HookRan h c) = True"
| "author_call (Generated n) = True"
| "author_call x = False"

definition author_calls :: "('v, 'f, 's, 'o) app \<Rightarrow> ('v, 'o) outbound list" where
  "author_calls a = filter author_call (ap_out a)"

fun from_outside :: "('v, 'f, 's, 'o) app_op \<Rightarrow> bool" where
  "from_outside (LoopStep now au) = False"
| "from_outside (Cancel x) = False"
| "from_outside x = True"

lemma out_author [simp]:
  "ap_state (out xs a) = ap_state a" "author_calls (out xs a) = author_calls a @ filter author_call xs"
  by (simp_all add: out_def author_calls_def)

lemma refuse_step_author [simp]:
  "ap_state (refuse_step r n reason k a) = ap_state a" "author_calls (refuse_step r n reason k a) = author_calls a"
  by (simp_all add: refuse_step_def)

lemma set_connected_author [simp]: "author_calls (set_connected n a) = author_calls a"
  by (simp add: author_calls_def)

lemma update_live_author [simp]: "author_calls (update_live a) = author_calls a"
  by (simp add: author_calls_def)

lemma after_hook_author [simp]:
  "ap_state (after_hook h c a) = ap_state a" "author_calls (after_hook h c a) = author_calls a"
  "ap_out (after_hook h c a) = ap_out a" "ap_failed (after_hook h c a) = ap_failed a"
  by (simp_all add: after_hook_def author_calls_def split: option.split)

lemma author_calls_upd [simp]:
  "author_calls (a\<lparr>ap_inbox := i\<rparr>) = author_calls a" "author_calls (a\<lparr>ap_inbound := p\<rparr>) = author_calls a"
  "author_calls (a\<lparr>ap_clients := c\<rparr>) = author_calls a" "author_calls (a\<lparr>ap_failed := f\<rparr>) = author_calls a"
  "author_calls (a\<lparr>ap_starting := b\<rparr>) = author_calls a" "author_calls (a\<lparr>ap_active := b\<rparr>) = author_calls a"
  "author_calls (a\<lparr>ap_pending := q\<rparr>) = author_calls a" "author_calls (a\<lparr>ap_lock := l\<rparr>) = author_calls a"
  "author_calls (a\<lparr>ap_sessions := n\<rparr>) = author_calls a" "author_calls (a\<lparr>ap_stepped := b\<rparr>) = author_calls a"
  "author_calls (a\<lparr>ap_accepted := n\<rparr>) = author_calls a" "author_calls (a\<lparr>ap_limit := m\<rparr>) = author_calls a"
  by (simp_all add: author_calls_def)

lemma invoke_hook_author [simp]:
  "ap_state (invoke_hook cfg h c a) = ap_state a" "author_calls (invoke_hook cfg h c a) = author_calls a"
  "ap_loop (invoke_hook cfg h c a) = ap_loop a"
  by (simp_all add: invoke_hook_def)

lemma dispatch_step_author:
  "ap_state (dispatch_step r a) = ap_state a \<and> author_calls (dispatch_step r a) = author_calls a
   \<and> ap_loop (dispatch_step r a) = ap_loop a"
  by (auto simp: dispatch_step_def Let_def split: option.split prod.split)

lemma dispatch_command_author:
  "ap_state (dispatch_command now e a) = ap_state a \<and> author_calls (dispatch_command now e a) = author_calls a
   \<and> ap_loop (dispatch_command now e a) = ap_loop a"
  by (simp add: dispatch_command_def Let_def)

lemma dispatch_event_author:
  "ap_state (dispatch_event cfg now ev a) = ap_state a \<and> author_calls (dispatch_event cfg now ev a) = author_calls a
   \<and> ap_loop (dispatch_event cfg now ev a) = ap_loop a"
  by (cases ev) (simp_all add: dispatch_event_def Let_def)

lemmas dispatch_author = dispatch_step_author dispatch_command_author dispatch_event_author

lemma outside_keeps_step:
  assumes "tasks_ok a" and "loop_holds (ap_loop a)" and "from_outside x"
  shows "ap_state (app_step cfg a x) = ap_state a \<and> author_calls (app_step cfg a x) = author_calls a
    \<and> ap_loop (app_step cfg a x) = ap_loop a"
proof (cases x)
  case (Post item)
  then show ?thesis
    by (simp add: enqueue_def author_calls_def)
next
  case (PushMedia now tr fr src n)
  then show ?thesis
    by (simp add: push_media_def author_calls_def split: option.split)
next
  case (InboundStep now f h)
  have "\<not> inbound_holds (ap_inbound a)" "ap_lock a = Some LoopTask"
    using assms(1,2) by (auto simp: tasks_defs)
  then show ?thesis
    using InboundStep
    by (cases "ap_inbound a")
      (auto simp: dispatch_author inbound_step_def inbound_locks_def take_item_def split: list.split inbound_item.split)
qed (use assms(3) in simp_all)

lemma outside_keeps_run:
  assumes "tasks_ok a" and "loop_holds (ap_loop a)" and "list_all from_outside xs"
  shows "ap_state (foldl (app_step cfg) a xs) = ap_state a \<and> author_calls (foldl (app_step cfg) a xs) = author_calls a
    \<and> ap_loop (foldl (app_step cfg) a xs) = ap_loop a"
  using assms
proof (induction xs arbitrary: a)
  case (Cons x xs)
  have "tasks_ok (app_step cfg a x)"
    using Cons.prems(1) by (rule app_step_tasks_ok)
  with Cons outside_keeps_step [OF Cons.prems(1,2), of x cfg] show ?case
    by simp
qed simp

text \<open>
  C10. Nothing lands inside a step. From any reachable state in which a step is between the
  start of \<open>process_input()\<close> and the return of \<open>process_output()\<close>, whatever is posted, pushed
  and dispatched until the loop's own next move, in any order and any number, the session's
  state is not replaced or changed, no command handler and no lifecycle hook runs, and the
  loop is where it was.
\<close>

theorem step_undisturbed:
  assumes "a = app_reached cfg buffers ops" and "loop_holds (ap_loop a)" and "list_all from_outside xs"
  shows "ap_state (foldl (app_step cfg) a xs) = ap_state a \<and> author_calls (foldl (app_step cfg) a xs) = author_calls a
    \<and> ap_loop (foldl (app_step cfg) a xs) = ap_loop a"
  using outside_keeps_run reached_tasks_ok assms by metis

lemma sample_reached:
  "app_reached sample_config [] sample_ops =
     (loop_ready [])\<lparr>ap_sessions := 1, ap_active := True, ap_stepped := True, ap_state := Some 0,
       ap_lock := Some LoopTask, ap_inbound := StepWait, ap_loop := RequestInput sample_step 1,
       ap_asked := [(7, ''r'')]\<rparr>"
  by (simp add: sample_defs loop_ready_def enqueue_def inbound_step_def take_item_def dispatch_event_def dispatch_step_def
      update_live_def call_hook_def release_lock_def step_closed_def loop_defs push_frames_def Let_def)

lemma sample_streaming:
  "app_reached sample_config [] sample_stream =
     (loop_ready [])\<lparr>ap_sessions := 1, ap_active := True, ap_connected := True, ap_live := True, ap_requested := False,
       ap_clients := [(7, 0, False)], ap_state := Some 0, ap_lock := Some LoopTask, ap_loop := StepInput 0 1 1\<rparr>"
  by (simp add: sample_defs loop_ready_def enqueue_def inbound_step_def take_item_def dispatch_event_def dispatch_step_def
      update_live_def set_connected_def invoke_hook_def call_hook_def release_lock_def loop_defs loop_locks_def)

theorem step_undisturbed_witness:
  "ap_state (foldl (app_step sample_config) (app_reached sample_config [] sample_stream)
     [Post (EventItem SessionEnded), sample_dispatch, sample_dispatch]) = Some 0"
  using step_undisturbed [OF refl, of sample_config "[]" sample_stream
      "[Post (EventItem SessionEnded), sample_dispatch, sample_dispatch]"]
  unfolding sample_streaming by (simp add: sample_dispatch_def)

end
