(* ===== verification/AppRequests.thy ===== *)
theory AppRequests
  imports AppTasks
begin

text \<open>
  Step requests of a stepped session, from the inbound queue to their answers: each is
  answered once and in order, accepted steps are numbered from one within their session and
  never beyond its limit, and a request under way ends.
\<close>

section \<open>The log of answers\<close>

fun step_entry :: "('v, 'o) outbound \<Rightarrow> bool" where
  "step_entry (StepRefused r) = True"
| "step_entry (StepReported c) = (co_request c \<noteq> None)"
| "step_entry x = False"

definition step_log :: "('v, 'f, 's, 'o) app \<Rightarrow> ('v, 'o) outbound list" where
  "step_log a = filter step_entry (ap_out a)"

fun answer_key :: "('v, 'o) outbound \<Rightarrow> conn_id \<times> string" where
  "answer_key (StepRefused r) = (sr_conn r, sr_request r)"
| "answer_key (StepReported c) = (case co_request c of Some q \<Rightarrow> (rq_conn q, rq_request q) | None \<Rightarrow> (0, []))"
| "answer_key x = (0, [])"

definition answers :: "('v, 'f, 's, 'o) app \<Rightarrow> (conn_id \<times> string) list" where
  "answers a = map answer_key (step_log a)"

fun entry_number :: "nat \<Rightarrow> ('v, 'o) outbound \<Rightarrow> nat list" where
  "entry_number k (StepReported c) =
     (if co_session c = k then (case co_request c of Some q \<Rightarrow> [rq_index q] | None \<Rightarrow> []) else [])"
| "entry_number k x = []"

text \<open>The numbers of the accepted steps reported for session \<open>k\<close>, in order.\<close>

definition numbers :: "nat \<Rightarrow> ('v, 'f, 's, 'o) app \<Rightarrow> nat list" where
  "numbers k a = concat (map (entry_number k) (step_log a))"

definition request_key :: "'f step_envelope \<Rightarrow> conn_id \<times> string" where
  "request_key r = (se_conn r, se_request r)"

fun item_keys :: "('v, 'f) inbound_item \<Rightarrow> (conn_id \<times> string) list" where
  "item_keys (StepItem r) = [request_key r]"
| "item_keys x = []"

definition queued_requests :: "('v, 'f, 's, 'o) app \<Rightarrow> (conn_id \<times> string) list" where
  "queued_requests a = concat (map item_keys (ap_inbox a))"

fun opt_key :: "'f step_envelope option \<Rightarrow> (conn_id \<times> string) list" where
  "opt_key None = []"
| "opt_key (Some r) = [request_key r]"

text \<open>The request under way: posted to the loop, or taken by it.\<close>

definition under_way :: "('v, 'f, 's, 'o) app \<Rightarrow> (conn_id \<times> string) list" where
  "under_way a = opt_key (ap_pending a) @ opt_key (loop_request (ap_loop a))"

section \<open>What each helper does to the log\<close>

definition logs where
  "logs a = (step_log a, ap_failed a)"

lemma logs_D: "logs x = logs a \<Longrightarrow> step_log x = step_log a \<and> ap_failed x = ap_failed a"
  by (simp add: logs_def)

lemma step_log_out [simp]:
  "step_log (out xs a) = step_log a @ filter step_entry xs" "ap_failed (out xs a) = ap_failed a"
  by (simp_all add: out_def step_log_def)

lemma step_log_cong: "ap_out a = ap_out b \<Longrightarrow> step_log a = step_log b"
  by (simp add: step_log_def)

lemma reserve_client_logs: "logs (reserve_client t now c a) = logs a"
  by (simp add: reserve_client_def logs_def step_log_def split: option.split)

lemma fail_log [simp]: "step_log (fail e code m a) = step_log a"
  by (simp add: fail_def Let_def step_log_def out_def split: option.split)

lemma answer_command_log [simp]: "step_log (answer_command e h a) = step_log a"
  by (simp add: answer_command_def split: handler_end.split option.split)

lemma run_command_log [simp]: "step_log (run_command cfg now e f h a) = step_log a"
proof (cases "dict_get (ac_commands cfg) (ce_name e)")
  case (Some t)
  have "step_log (reserve_client t now (ce_conn e) a) = step_log a"
    using logs_D [OF reserve_client_logs] by blast
  then show ?thesis
    using Some by (simp add: run_command_def Let_def) (simp add: step_log_def)
qed (simp add: run_command_def)

lemma report_command_timing_logs: "logs (report_command_timing e n t s f a) = logs a"
  by (simp add: report_command_timing_def logs_def split: option.split)

lemma call_hook_logs: "logs (call_hook cfg now h c f a) = logs a"
proof (cases "dict_get (ac_hooks cfg) h")
  case (Some t)
  have "logs (reserve_client t now c a) = logs a"
    by (rule reserve_client_logs)
  then show ?thesis
    using Some by (simp add: call_hook_def Let_def logs_def) (simp add: step_log_def)
qed (simp add: call_hook_def)

lemma reset_buffers_logs: "logs (reset_buffers cfg th a) = logs a"
  by (simp add: reset_buffers_def logs_def step_log_def)

lemma after_hook_logs: "logs (after_hook h c a) = logs a"
  by (simp add: logs_def step_log_def)

lemma waits_no_entry:
  "filter step_entry (concat (map (\<lambda>(src, track, ms). case src of Some c \<Rightarrow> [InputWaited c n track ms] | None \<Rightarrow> []) ws)) = []"
  by (induction ws) (auto split: option.split)

lemma report_input_waits_logs: "logs (report_input_waits n b a) = logs a"
  by (simp add: report_input_waits_def Let_def logs_def waits_no_entry) (simp add: step_log_def)

lemma author_ran_logs: "logs (author_ran au a) = logs a"
  by (simp add: author_ran_def logs_def step_log_def)

lemma push_frames_logs: "logs (push_frames cfg now r n a) = logs a"
proof -
  have "logs (foldl (\<lambda>a (track, frames).
        case dict_get (ap_buffers a) track of
          None \<Rightarrow> a
        | Some b \<Rightarrow>
            a\<lparr>ap_buffers := dict_set track
                (foldl (\<lambda>b fr. fst (push (ac_samples cfg) now fr (Some (se_conn r)) (int n) b)) b frames)
                (ap_buffers a)\<rparr>) a ms) = logs a" for ms
    by (induction ms arbitrary: a) (simp_all add: logs_def step_log_def split: option.split prod.split)
  then show ?thesis
    by (simp add: push_frames_def)
qed

lemma push_media_logs: "logs (push_media cfg now tr fr src n a) = logs a"
  by (simp add: push_media_def logs_def step_log_def split: option.split)

lemma release_logs: "logs (release_lock a) = logs a"
  by (simp add: logs_def step_log_def)

lemma end_session_logs: "logs (end_session cfg a) = logs a"
  by (simp add: logs_def step_log_def)

lemma update_live_logs: "logs (update_live a) = logs a"
  by (simp add: logs_def step_log_def)

lemma set_connected_logs: "logs (set_connected n a) = logs a"
  by (simp add: logs_def step_log_def)

lemma invoke_hook_logs: "logs (invoke_hook cfg h c a) = logs a"
  by (simp add: invoke_hook_def logs_def step_log_def)

lemma die_logs: "logs (die cfg x a) = logs a"
  using reset_buffers_logs [of cfg _ a]
  by (simp add: die_def Let_def logs_def split: option.split) (simp add: step_log_def)

lemmas helper_logs [simp] =
  reserve_client_logs [THEN logs_D] report_command_timing_logs [THEN logs_D] call_hook_logs [THEN logs_D]
  reset_buffers_logs [THEN logs_D] after_hook_logs [THEN logs_D] report_input_waits_logs [THEN logs_D]
  author_ran_logs [THEN logs_D] push_frames_logs [THEN logs_D] push_media_logs [THEN logs_D]
  release_logs [THEN logs_D] end_session_logs [THEN logs_D] update_live_logs [THEN logs_D]
  set_connected_logs [THEN logs_D] invoke_hook_logs [THEN logs_D] die_logs [THEN logs_D]

lemma step_log_upd [simp]:
  "step_log (a\<lparr>ap_inbox := i\<rparr>) = step_log a" "step_log (a\<lparr>ap_inbound := p\<rparr>) = step_log a"
  "step_log (a\<lparr>ap_loop := l\<rparr>) = step_log a" "step_log (a\<lparr>ap_lock := q\<rparr>) = step_log a"
  "step_log (a\<lparr>ap_pending := m\<rparr>) = step_log a" "step_log (a\<lparr>ap_failed := f\<rparr>) = step_log a"
  "step_log (a\<lparr>ap_requested := b\<rparr>) = step_log a" "step_log (a\<lparr>ap_accepted := n\<rparr>) = step_log a"
  "step_log (a\<lparr>ap_last_fps := x\<rparr>) = step_log a" "step_log (a\<lparr>ap_clients := c\<rparr>) = step_log a"
  "step_log (a\<lparr>ap_active := b\<rparr>) = step_log a" "step_log (a\<lparr>ap_starting := b\<rparr>) = step_log a"
  "step_log (a\<lparr>ap_stepped := b\<rparr>) = step_log a" "step_log (a\<lparr>ap_sessions := n\<rparr>) = step_log a"
  "step_log (a\<lparr>ap_limit := y\<rparr>) = step_log a" "step_log (a\<lparr>ap_state := st\<rparr>) = step_log a"
  "step_log (a\<lparr>ap_asked := k\<rparr>) = step_log a"
  by (simp_all add: step_log_def)

lemma report_step_log:
  "report_step cfg r n fps st q a = Some a' \<Longrightarrow>
     \<exists>rate. step_log a' = step_log a @ filter step_entry
       [StepReported \<lparr>co_step = r, co_session = n, co_fps = rate, co_stages = st, co_request = q\<rparr>]"
  using report_step_Some [of cfg r n fps st q a a'] by (fastforce simp: step_log_def)

section \<open>Answered once and in order\<close>

definition failed_ok :: "('v, 'f, 's, 'o) app \<Rightarrow> bool" where
  "failed_ok a \<longleftrightarrow> (\<forall>k f. dict_get (ap_failed a) k = Some f \<longrightarrow> k = (sr_conn f, sr_request f))"

lemma fail_failed_ok: "failed_ok a \<Longrightarrow> failed_ok (fail e code m a)"
  by (auto simp: failed_ok_def fail_def Let_def out_def dict_simps split: option.split)

lemma answer_command_failed_ok: "failed_ok a \<Longrightarrow> failed_ok (answer_command e h a)"
  by (auto simp: answer_command_def fail_failed_ok split: handler_end.split option.split)
    (auto simp: failed_ok_def)

lemma run_command_failed_ok:
  assumes "failed_ok a"
  shows "failed_ok (run_command cfg now e f h a)"
proof (cases "dict_get (ac_commands cfg) (ce_name e)")
  case (Some t)
  have "failed_ok (out xs ((reserve_client t now (ce_conn e) a)\<lparr>ap_state := st\<rparr>))" for xs st
    using assms by (simp add: failed_ok_def)
  then show ?thesis
    using Some by (simp add: run_command_def Let_def answer_command_failed_ok)
qed (use assms in \<open>simp add: run_command_def\<close>)

definition answer_order_ok :: "('v, 'f, 's, 'o) app \<Rightarrow> bool" where
  "answer_order_ok a \<longleftrightarrow>
     (if ap_loop a = Dead then \<exists>rest. ap_asked a = answers a @ rest
      else ap_asked a = answers a @ under_way a @ queued_requests a)"

text \<open>\<open>orders\<close> is what \<open>order_ok\<close> reads; a step that keeps it keeps the order.\<close>

definition orders where
  "orders a = (answers a, ap_pending a, loop_request (ap_loop a), queued_requests a, ap_asked a, ap_loop a = Dead)"

lemma order_ok_cong: "orders a = orders b \<Longrightarrow> answer_order_ok a = answer_order_ok b"
  by (simp add: orders_def answer_order_ok_def under_way_def)

lemma die_order_ok: "answer_order_ok a \<Longrightarrow> answer_order_ok (die cfg x a)"
  by (auto simp: answer_order_ok_def answers_def split: if_splits)

lemma enqueue_failed [simp]: "ap_failed (enqueue i a) = ap_failed a"
  by (simp add: enqueue_def)

lemma enqueue_order_ok: "answer_order_ok a \<Longrightarrow> answer_order_ok (enqueue i a)"
  by (cases i)
    (auto simp: answer_order_ok_def enqueue_def answers_def under_way_def queued_requests_def request_key_def
      split: option.splits)

lemma dispatch_step_order_ok:
  assumes "answer_order_ok (a\<lparr>ap_inbox := StepItem r # rest\<rparr>)" and "ap_inbox a = rest" and "failed_ok a"
    and "ap_loop a \<noteq> Dead" and "ap_pending a = None" "loop_request (ap_loop a) = None"
  shows "answer_order_ok (dispatch_step r a)"
proof -
  have asked: "ap_asked a = answers a @ request_key r # queued_requests a"
    using assms(1,2,4-6) by (simp add: answer_order_ok_def answers_def under_way_def queued_requests_def)
  show ?thesis
  proof (cases "dict_get (ap_failed a) (request_key r)")
    case (Some f)
    then have "answer_key (StepRefused (f\<lparr>sr_session := ap_sessions a\<rparr>)) = request_key r"
      using assms(3) by (simp add: failed_ok_def request_key_def)
    then show ?thesis
      using Some asked assms(4-6)
      by (simp add: dispatch_step_def Let_def request_key_def answer_order_ok_def answers_def under_way_def queued_requests_def)
  next
    case None
    then show ?thesis
      using asked assms(4-6)
      by (auto simp: dispatch_step_def Let_def request_key_def answer_order_ok_def answers_def under_way_def
          queued_requests_def refuse_step_def split: option.split)
  qed
qed

lemma dispatch_command_orders: "orders (dispatch_command now e a) = orders a"
  by (simp add: dispatch_command_def Let_def orders_def answers_def queued_requests_def)

lemma dispatch_event_orders: "orders (dispatch_event cfg now ev a) = orders a"
  by (cases ev) (simp_all add: dispatch_event_def Let_def invoke_hook_def orders_def answers_def queued_requests_def)

definition requests_ok :: "('v, 'f, 's, 'o) app \<Rightarrow> bool" where
  "requests_ok a \<longleftrightarrow> failed_ok a \<and> answer_order_ok a"

lemma failed_ok_cong: "ap_failed a = ap_failed b \<Longrightarrow> failed_ok a = failed_ok b"
  by (simp add: failed_ok_def)

lemma dispatch_event_failed_ok: "failed_ok a \<Longrightarrow> failed_ok (dispatch_event cfg now ev a)"
  by (cases ev) (simp_all add: dispatch_event_def Let_def failed_ok_def invoke_hook_def)

lemma dispatch_step_failed_ok: "failed_ok a \<Longrightarrow> failed_ok (dispatch_step r a)"
  by (auto simp: dispatch_step_def Let_def failed_ok_def refuse_step_def dict_simps split: option.split)

lemma dispatch_command_failed_ok: "failed_ok a \<Longrightarrow> failed_ok (dispatch_command now e a)"
  by (simp add: dispatch_command_def Let_def failed_ok_def)

lemma take_item_requests_ok:
  assumes "requests_ok a" and "tasks_ok a" and "ap_inbound a = Idle" and "ap_inbox a = item # rest"
  shows "requests_ok (take_item cfg now item (a\<lparr>ap_inbox := rest\<rparr>))"
proof -
  let ?b = "a\<lparr>ap_inbox := rest\<rparr>"
  have f: "failed_ok ?b"
    using assms(1) by (simp add: requests_ok_def failed_ok_def)
  have live: "ap_loop a \<noteq> Dead" "ap_pending a = None" "loop_request (ap_loop a) = None"
    using assms(2,3) by (auto simp: tasks_defs)
  have old: "answer_order_ok (a\<lparr>ap_inbox := item # rest\<rparr>)"
    using assms(1,4) order_ok_cong [of "a\<lparr>ap_inbox := item # rest\<rparr>" a]
    by (simp add: requests_ok_def orders_def answers_def queued_requests_def)
  show ?thesis
  proof (cases item)
    case (StepItem r)
    then show ?thesis
      using f live old dispatch_step_order_ok [where a = ?b and r = r and rest = rest] dispatch_step_failed_ok [OF f]
      by (simp add: take_item_def requests_ok_def)
  next
    case (CommandItem e)
    then have "answer_order_ok ?b"
      using old order_ok_cong [of ?b "a\<lparr>ap_inbox := item # rest\<rparr>"] by (simp add: orders_def answers_def queued_requests_def)
    then show ?thesis
      using CommandItem f
      by (simp add: take_item_def requests_ok_def dispatch_command_failed_ok order_ok_cong [OF dispatch_command_orders])
  next
    case (EventItem ev)
    then have "answer_order_ok ?b"
      using old order_ok_cong [of ?b "a\<lparr>ap_inbox := item # rest\<rparr>"] by (simp add: orders_def answers_def queued_requests_def)
    then show ?thesis
      using EventItem f
      by (simp add: take_item_def requests_ok_def dispatch_event_failed_ok order_ok_cong [OF dispatch_event_orders])
  qed
qed

lemma inbound_step_requests_ok:
  assumes "requests_ok a" and "tasks_ok a"
  shows "requests_ok (inbound_step cfg now f h a)"
proof (cases "ap_inbound a")
  case Idle
  then show ?thesis
    using assms take_item_requests_ok by (auto simp: inbound_step_def split: list.split)
next
  case (CommandRun e n t s)
  have "failed_ok (run_command cfg s e f h (a\<lparr>ap_inbound := Idle\<rparr>))"
    using assms(1) by (intro run_command_failed_ok) (simp add: requests_ok_def failed_ok_def)
  moreover have "orders (inbound_step cfg now f h a) = orders a"
    using CommandRun by (simp add: inbound_step_def orders_def answers_def queued_requests_def)
  ultimately show ?thesis
    using assms(1) CommandRun order_ok_cong [of "inbound_step cfg now f h a" a]
    by (simp add: requests_ok_def) (simp add: inbound_step_def failed_ok_def)
qed (use assms in \<open>auto simp: requests_ok_def inbound_step_def inbound_locks_def answer_order_ok_def answers_def
      under_way_def queued_requests_def failed_ok_def\<close>)

lemma report_step_orders:
  assumes "report_step cfg r n fps st None a = Some a'"
  shows "orders a' = orders a \<and> ap_failed a' = ap_failed a"
proof -
  have "step_log a' = step_log a"
    using report_step_log [OF assms] by auto
  then show ?thesis
    using report_step_ctl [OF assms] report_step_Some [OF assms] by (simp add: orders_def answers_def queued_requests_def)
qed

lemma report_step_answer:
  assumes "report_step cfg r n fps st (Some q) a = Some a'"
  shows "answers a' = answers a @ [(rq_conn q, rq_request q)] \<and> ap_failed a' = ap_failed a
    \<and> queued_requests a' = queued_requests a \<and> ap_asked a' = ap_asked a \<and> ap_pending a' = ap_pending a \<and> ap_loop a' = ap_loop a"
proof -
  obtain rate where "step_log a' = step_log a @ filter step_entry
      [StepReported \<lparr>co_step = r, co_session = n, co_fps = rate, co_stages = st, co_request = Some q\<rparr>]"
    using report_step_log [OF assms] by blast
  then show ?thesis
    using report_step_ctl [OF assms] report_step_Some [OF assms] by (simp add: answers_def queued_requests_def)
qed

lemma requests_ok_keeps:
  "orders b = orders a \<and> ap_failed b = ap_failed a \<Longrightarrow> requests_ok a \<Longrightarrow> requests_ok b"
  using order_ok_cong [of b a] failed_ok_cong [of b a] by (simp add: requests_ok_def)

lemma die_requests_ok: "requests_ok a \<Longrightarrow> requests_ok (die cfg x a)"
  by (auto simp: requests_ok_def die_order_ok failed_ok_def)

lemma author_ran_requests_ok: "requests_ok a \<Longrightarrow> requests_ok (author_ran au a)"
  by (erule requests_ok_keeps [rotated]) (simp add: orders_def answers_def queued_requests_def)

lemma release_requests_ok: "requests_ok a \<Longrightarrow> requests_ok (release_lock a)"
  by (erule requests_ok_keeps [rotated]) (simp add: orders_def answers_def queued_requests_def)

lemma loop_step_requests_ok:
  assumes ok: "requests_ok a" and tasks: "tasks_ok a"
  shows "requests_ok (loop_step cfg now au a)"
proof (cases "ap_loop a")
  case Turn
  then show ?thesis
    using ok
    by (auto simp: loop_defs requests_ok_def answer_order_ok_def failed_ok_def answers_def under_way_def queued_requests_def
        split: option.split)
next
  case (While d s)
  then show ?thesis
    by (intro requests_ok_keeps [OF _ ok]) (simp add: loop_defs orders_def answers_def queued_requests_def)
next
  case (StepLock d s)
  then show ?thesis
    by (intro requests_ok_keeps [OF _ ok]) (simp add: loop_defs loop_locks_def orders_def answers_def queued_requests_def)
next
  case (StepInput d s n)
  then have "requests_ok (loop_step cfg now au a)" if "\<forall>x. au_input au \<noteq> InputRaised x"
    using that
    by (intro requests_ok_keeps [OF _ ok])
      (auto simp: loop_defs Let_def orders_def answers_def queued_requests_def split: input_result.split)
  then show ?thesis
    using StepInput ok by (cases "au_input au") (auto simp: loop_defs die_requests_ok author_ran_requests_ok)
next
  case (StepOutput d s n x y)
  then have "requests_ok (loop_step cfg now au a)" if "\<forall>x. au_output au \<noteq> OutputRaised x"
    using that
    by (intro requests_ok_keeps [OF _ ok])
      (auto simp: loop_defs Let_def orders_def answers_def queued_requests_def split: output_result.split)
  then show ?thesis
    using StepOutput ok by (cases "au_output au") (auto simp: loop_defs die_requests_ok author_ran_requests_ok)
next
  case (Emitting d s n r x y)
  have "requests_ok (a\<lparr>ap_loop := Asking d s\<rparr>)"
    using Emitting by (intro requests_ok_keeps [OF _ ok]) (simp add: orders_def answers_def queued_requests_def)
  moreover have "requests_ok (out [Emitted k z q] (a\<lparr>ap_last_fps := p, ap_loop := Sending d s n r x' y\<rparr>))" for k z q p x'
    using Emitting by (intro requests_ok_keeps [OF _ ok]) (simp add: orders_def answers_def queued_requests_def)
  ultimately show ?thesis
    using Emitting ok
    by (auto simp: loop_defs Let_def die_requests_ok requests_ok_keeps [OF report_step_orders] split: option.split)
next
  case (Sending d s n r x y)
  have "requests_ok (a\<lparr>ap_loop := Asking d s\<rparr>)"
    using Sending by (intro requests_ok_keeps [OF _ ok]) (simp add: orders_def answers_def queued_requests_def)
  then show ?thesis
    using Sending ok
    by (auto simp: loop_defs die_requests_ok requests_ok_keeps [OF report_step_orders] split: option.split)
next
  case (Asking d s)
  then show ?thesis
    by (intro requests_ok_keeps [OF _ ok]) (simp add: loop_defs orders_def answers_def queued_requests_def)
next
  case (RequestLock r)
  then show ?thesis
    by (intro requests_ok_keeps [OF _ ok]) (simp add: loop_defs orders_def answers_def queued_requests_def)
next
  case (RequestInput r n)
  have "ap_pending a = None"
    using tasks RequestInput by (auto simp: tasks_defs)
  then have "requests_ok (loop_step cfg now au a)" if "\<forall>x. au_input au \<noteq> InputRaised x"
    using that RequestInput ok
    by (auto simp: loop_defs Let_def requests_ok_def answer_order_ok_def failed_ok_def answers_def under_way_def
        queued_requests_def finish_request_def refuse_step_def request_key_def split: input_result.split)
  then show ?thesis
    using RequestInput ok by (cases "au_input au") (auto simp: loop_defs die_requests_ok author_ran_requests_ok)
next
  case (RequestOutput r n i y)
  let ?q = "\<lparr>rq_conn = se_conn r, rq_request = se_request r, rq_index = i, rq_max_message = se_max_message r\<rparr>"
  have "ap_pending a = None"
    using tasks RequestOutput by (auto simp: tasks_defs)
  then have "requests_ok a'"
    if "report_step cfg rep n None [] (Some ?q) (finish_request (release_lock (author_ran au a))) = Some a'" for rep a'
    using report_step_answer [OF that] RequestOutput ok
    by (simp add: requests_ok_def answer_order_ok_def failed_ok_def answers_def under_way_def queued_requests_def finish_request_def request_key_def)
  then show ?thesis
    using RequestOutput ok
    by (auto simp: loop_defs Let_def die_requests_ok author_ran_requests_ok release_requests_ok
        split: output_result.split option.split)
qed (use ok in \<open>simp add: loop_defs\<close>)

lemma app_step_requests_ok: "requests_ok a \<Longrightarrow> tasks_ok a \<Longrightarrow> requests_ok (app_step cfg a x)"
proof (cases x)
  case (Post i)
  assume "requests_ok a"
  then show ?thesis
    using Post by (simp add: requests_ok_def failed_ok_def enqueue_order_ok)
next
  case (PushMedia now tr fr src n)
  assume "requests_ok a"
  then show ?thesis
    using PushMedia by (auto intro: requests_ok_keeps [rotated] simp: orders_def answers_def queued_requests_def)
qed (simp_all add: inbound_step_requests_ok loop_step_requests_ok die_requests_ok)

interpretation requests: step_invariant "app_step cfg" "\<lambda>a. requests_ok a \<and> tasks_ok a" for cfg
  by unfold_locales (simp add: app_step_requests_ok app_step_tasks_ok)

lemma reached_requests_ok: "requests_ok (app_reached cfg buffers ops)"
proof -
  have "requests_ok (loop_ready buffers) \<and> tasks_ok (loop_ready buffers)"
    by (simp add: loop_ready_tasks_ok) (simp add: loop_ready_def requests_ok_def failed_ok_def answer_order_ok_def answers_def
        step_log_def under_way_def queued_requests_def)
  then show ?thesis
    using requests.run_keeps by blast
qed

text \<open>
  C9. Every step request is answered, once, and in the order the requests were posted. Over
  every interleaving of the two tasks with posts, frames and a crash or stop, and whatever
  the author's code does, the answers that went out (a refusal, or the report of the accepted
  step) are for exactly the first of the posted requests, in order; and while the model
  lives, the others are the one under way and those still in the queue.
\<close>

theorem requests_answered_in_order:
  "\<exists>rest. ap_asked (app_reached cfg buffers ops) = answers (app_reached cfg buffers ops) @ rest
    \<and> (ap_loop (app_reached cfg buffers ops) \<noteq> Dead \<longrightarrow>
        rest = under_way (app_reached cfg buffers ops) @ queued_requests (app_reached cfg buffers ops))"
  using reached_requests_ok [of cfg buffers ops]
  by (cases "ap_loop (app_reached cfg buffers ops) = Dead") (simp_all add: requests_ok_def answer_order_ok_def)

theorem requests_answered_in_order_witness:
  "\<exists>rest. ap_asked (app_reached sample_config [] sample_ops) = answers (app_reached sample_config [] sample_ops) @ rest
    \<and> rest = [(7, ''r'')]"
  using requests_answered_in_order [of sample_config "[]" sample_ops]
  unfolding sample_reached
  by (simp add: loop_ready_def under_way_def queued_requests_def request_key_def sample_step_def answers_def step_log_def)

section \<open>Numbers within a session\<close>

text \<open>The numbers from one up to \<open>m\<close>.\<close>

definition first_numbers :: "nat \<Rightarrow> nat list" where
  "first_numbers m = [1..<Suc m]"

lemma first_numbers_simps [simp]:
  "first_numbers 0 = []" "length (first_numbers m) = m" "first_numbers (Suc m) = first_numbers m @ [Suc m]"
  by (simp_all add: first_numbers_def)

fun number_under_way :: "('f, 'o) loop_at \<Rightarrow> nat list" where
  "number_under_way (RequestOutput r n i y) = [i]"
| "number_under_way pc = []"

text \<open>The requests not yet decided: a step of theirs may still be taken.\<close>

fun undecided :: "('f, 'o) loop_at \<Rightarrow> bool" where
  "undecided (RequestLock r) = True"
| "undecided (RequestInput r n) = True"
| "undecided pc = False"

fun loop_session :: "nat \<Rightarrow> ('f, 'o) loop_at \<Rightarrow> bool" where
  "loop_session k (RequestInput r n) = (n = k)"
| "loop_session k (RequestOutput r n i y) = (n = k)"
| "loop_session k pc = True"

definition counts_ok :: "('v, 'f, 's, 'o) app \<Rightarrow> bool" where
  "counts_ok a \<longleftrightarrow>
     (\<forall>k. \<exists>m. numbers k a = first_numbers m)
   \<and> (\<forall>l. ap_limit a = Some l \<longrightarrow> length (numbers (ap_sessions a) a) \<le> l)
   \<and> (ap_loop a \<noteq> Dead \<longrightarrow>
        (\<forall>k>ap_sessions a. numbers k a = [])
      \<and> numbers (ap_sessions a) a @ number_under_way (ap_loop a) = first_numbers (ap_accepted a)
      \<and> loop_session (ap_sessions a) (ap_loop a)
      \<and> (\<forall>l. ap_limit a = Some l \<longrightarrow> ap_accepted a \<le> l)
      \<and> (ap_pending a \<noteq> None \<or> undecided (ap_loop a) \<longrightarrow> step_closed a = None))"

lemma step_closed_cong:
  "ap_active a = ap_active b \<Longrightarrow> ap_stepped a = ap_stepped b \<Longrightarrow> ap_limit a = ap_limit b
    \<Longrightarrow> ap_accepted a = ap_accepted b \<Longrightarrow> step_closed a = step_closed b"
  by (simp add: step_closed_def split: option.split)

text \<open>What the counts read.\<close>

definition counting where
  "counting a = (step_log a, ap_sessions a, (ap_active a, ap_stepped a, ap_limit a, ap_accepted a), ap_pending a)"

lemma counts_ok_cong:
  assumes "counting b = counting a" and "counts_ok a"
    and "ap_loop a = Dead \<Longrightarrow> ap_loop b = Dead"
    and "ap_loop b \<noteq> Dead \<Longrightarrow> number_under_way (ap_loop b) = number_under_way (ap_loop a)
      \<and> loop_session (ap_sessions a) (ap_loop b) \<and> (undecided (ap_loop b) \<longrightarrow> undecided (ap_loop a))"
  shows "counts_ok b"
proof -
  have same: "numbers k b = numbers k a" "ap_sessions b = ap_sessions a" "ap_limit b = ap_limit a"
    "ap_accepted b = ap_accepted a" "ap_pending b = ap_pending a" for k
    using assms(1) by (simp_all add: counting_def numbers_def)
  have "step_closed b = step_closed a"
    using assms(1) by (intro step_closed_cong) (simp_all add: counting_def)
  then show ?thesis
    using assms(2-4) unfolding counts_ok_def same by auto
qed

lemma numbers_upd [simp]:
  "numbers k (a\<lparr>ap_inbox := i\<rparr>) = numbers k a" "numbers k (a\<lparr>ap_loop := l\<rparr>) = numbers k a"
  "numbers k (out xs a) = numbers k a @ concat (map (entry_number k) (filter step_entry xs))"
  by (simp_all add: numbers_def)

lemma dispatch_step_counts_ok:
  assumes "counts_ok a" and "ap_loop a \<noteq> Dead" and "loop_request (ap_loop a) = None" and "ap_pending a = None"
  shows "counts_ok (dispatch_step r a)"
proof -
  have idle: "\<not> undecided (ap_loop a)" "number_under_way (ap_loop a) = []"
    using assms(3) by (cases "ap_loop a"; simp)+
  have num: "numbers k (dispatch_step r a) = numbers k a" for k
    by (auto simp: dispatch_step_def Let_def refuse_step_def numbers_def split: option.split)
  have keeps: "ap_sessions (dispatch_step r a) = ap_sessions a" "ap_limit (dispatch_step r a) = ap_limit a"
    "ap_accepted (dispatch_step r a) = ap_accepted a" "ap_loop (dispatch_step r a) = ap_loop a"
    "ap_active (dispatch_step r a) = ap_active a" "ap_stepped (dispatch_step r a) = ap_stepped a"
    by (auto simp: dispatch_step_def Let_def split: option.split)
  have closed: "step_closed (dispatch_step r a) = step_closed a"
    by (rule step_closed_cong) (simp_all add: keeps)
  have "step_closed (a\<lparr>ap_failed := f\<rparr>) = step_closed a" for f
    by (rule step_closed_cong) simp_all
  then have "ap_pending (dispatch_step r a) \<noteq> None \<longrightarrow> step_closed a = None"
    using assms(4) by (auto simp: dispatch_step_def Let_def split: option.splits)
  then show ?thesis
    using assms(1) idle unfolding counts_ok_def num keeps closed by auto
qed

lemma idle_loop_session: "loop_request l = None \<Longrightarrow> loop_session k l"
  by (cases l) simp_all

text \<open>A dispatch without a request under way may change the session, not the log.\<close>

lemma dispatch_event_counts_ok:
  assumes "counts_ok a" and "ap_loop a \<noteq> Dead" and "loop_request (ap_loop a) = None" and "ap_pending a = None"
  shows "counts_ok (dispatch_event cfg now ev a)"
proof -
  let ?b = "dispatch_event cfg now ev a"
  have idle: "\<not> undecided (ap_loop a)" "number_under_way (ap_loop a) = []"
    using assms(3) by (cases "ap_loop a"; simp)+
  have log: "step_log ?b = step_log a" "ap_pending ?b = None" "ap_loop ?b = ap_loop a"
    using assms(4) by (cases ev; simp add: dispatch_event_def Let_def invoke_hook_def)+
  have num: "numbers k ?b = numbers k a" for k
    by (simp add: numbers_def log(1))
  have "ap_sessions ?b = ap_sessions a \<and> ap_limit ?b = ap_limit a \<and> ap_accepted ?b = ap_accepted a
      \<or> ap_sessions ?b = Suc (ap_sessions a) \<and> ap_accepted ?b = 0"
    by (cases ev) (simp_all add: dispatch_event_def Let_def invoke_hook_def)
  then show ?thesis
  proof
    assume "ap_sessions ?b = ap_sessions a \<and> ap_limit ?b = ap_limit a \<and> ap_accepted ?b = ap_accepted a"
    then show ?thesis
      using assms(1) idle log(2,3) unfolding counts_ok_def num by simp
  next
    assume "ap_sessions ?b = Suc (ap_sessions a) \<and> ap_accepted ?b = 0"
    then show ?thesis
      using assms(1-3) idle log(2,3) idle_loop_session [OF assms(3)] unfolding counts_ok_def num by simp
  qed
qed

lemma inbound_step_counts_ok:
  assumes ok: "counts_ok a" and tasks: "tasks_ok a"
  shows "counts_ok (inbound_step cfg now f h a)"
proof -
  have session: "loop_session (ap_sessions a) (ap_loop a)"
    using ok by (cases "ap_loop a = Dead") (simp_all add: counts_ok_def)
  show ?thesis
  proof (cases "ap_inbound a")
    case Idle
    have idle: "ap_loop a \<noteq> Dead" "loop_request (ap_loop a) = None" "ap_pending a = None"
      using tasks Idle by (auto simp: tasks_defs)
    have b: "counts_ok (a\<lparr>ap_inbox := rest\<rparr>)" for rest
      using ok idle_loop_session [OF idle(2)]
      by (intro counts_ok_cong [OF _ ok]) (simp_all add: counting_def)
    have "counts_ok (dispatch_command now e (a\<lparr>ap_inbox := rest\<rparr>))" for e rest
      using idle_loop_session [OF idle(2)]
      by (intro counts_ok_cong [OF _ ok]) (simp_all add: dispatch_command_def Let_def counting_def)
    then show ?thesis
      using Idle ok b idle
      by (auto simp: inbound_step_def take_item_def dispatch_step_counts_ok dispatch_event_counts_ok
          split: list.split inbound_item.split)
  next
    case EndRun
    have idle: "loop_request (ap_loop a) = None" "ap_pending a = None"
      using tasks EndRun by (auto simp: tasks_defs)
    then have "\<not> undecided (ap_loop a)"
      by (cases "ap_loop a") simp_all
    then show ?thesis
      using EndRun ok idle unfolding counts_ok_def by (simp add: inbound_step_def numbers_def)
  qed (use session in \<open>auto intro!: counts_ok_cong [OF _ ok] simp: inbound_step_def inbound_locks_def counting_def ok\<close>)
qed

lemma die_counts_ok: "counts_ok a \<Longrightarrow> counts_ok (die cfg x a)"
  by (auto simp: counts_ok_def numbers_def)

lemma loop_step_counts_ok:
  assumes ok: "counts_ok a" and tasks: "tasks_ok a"
  shows "counts_ok (loop_step cfg now au a)"
proof (cases "ap_loop a")
  case Turn
  let ?b = "loop_step cfg now au a"
  have same: "numbers k ?b = numbers k a" "ap_sessions ?b = ap_sessions a" "ap_limit ?b = ap_limit a"
    "ap_accepted ?b = ap_accepted a" for k
    using Turn by (simp_all add: loop_defs numbers_def split: option.split)
  have closed: "step_closed ?b = step_closed a"
    using Turn by (intro step_closed_cong) (simp_all add: loop_defs split: option.split)
  have "ap_loop ?b \<noteq> Dead" "number_under_way (ap_loop ?b) = []" "loop_session (ap_sessions a) (ap_loop ?b)"
    "ap_pending ?b \<noteq> None \<or> undecided (ap_loop ?b) \<longrightarrow> ap_pending a \<noteq> None"
    using Turn by (simp_all add: loop_defs split: option.split)
  then show ?thesis
    using ok Turn unfolding counts_ok_def same closed by simp
next
  case (While d s)
  then show ?thesis
    by (intro counts_ok_cong [OF _ ok]) (auto simp: loop_defs counting_def)
next
  case (StepLock d s)
  then show ?thesis
    by (intro counts_ok_cong [OF _ ok]) (auto simp: loop_defs loop_locks_def counting_def)
next
  case (StepInput d s n)
  then show ?thesis
    by (intro counts_ok_cong [OF _ ok])
      (auto simp: loop_defs Let_def counting_def split: input_result.splits)
next
  case (StepOutput d s n x y)
  then show ?thesis
    by (intro counts_ok_cong [OF _ ok])
      (auto simp: loop_defs Let_def counting_def split: output_result.splits)
next
  case (Emitting d s n r x y)
  have "counting a' = counting a \<and> ap_loop a' = Asking d s"
    if "report_step cfg r n fps st None (a\<lparr>ap_loop := Asking d s\<rparr>) = Some a'" for fps st a'
    using report_step_ctl [OF that] report_step_log [OF that] by (auto simp: counting_def)
  then show ?thesis
    using Emitting
    by (intro counts_ok_cong [OF _ ok])
      (auto simp: loop_defs Let_def counting_def split: option.splits)
next
  case (Sending d s n r x y)
  have "counting a' = counting a \<and> ap_loop a' = Asking d s"
    if "report_step cfg r n fps st None (a\<lparr>ap_loop := Asking d s\<rparr>) = Some a'" for fps st a'
    using report_step_ctl [OF that] report_step_log [OF that] by (auto simp: counting_def)
  then show ?thesis
    using Sending
    by (intro counts_ok_cong [OF _ ok]) (auto simp: loop_defs counting_def split: option.splits)
next
  case (Asking d s)
  then show ?thesis
    by (intro counts_ok_cong [OF _ ok]) (auto simp: loop_defs counting_def)
next
  case (RequestLock r)
  then show ?thesis
    by (intro counts_ok_cong [OF _ ok]) (auto simp: loop_defs counting_def)
next
  case (RequestInput r n)
  have n: "n = ap_sessions a" "step_closed a = None" "numbers (ap_sessions a) a = first_numbers (ap_accepted a)"
    "ap_pending a = None"
    using ok tasks RequestInput by (auto simp: counts_ok_def tasks_defs)
  have "Suc (ap_accepted a) \<le> l" if "ap_limit a = Some l" for l
    using n(2) that by (auto simp: step_closed_def split: if_splits)
  then show ?thesis
    using RequestInput ok n
    by (auto simp: loop_defs Let_def counts_ok_def numbers_def finish_request_def refuse_step_def
        split: input_result.split)
next
  case (RequestOutput r n i y)
  let ?q = "\<lparr>rq_conn = se_conn r, rq_request = se_request r, rq_index = i, rq_max_message = se_max_message r\<rparr>"
  let ?b = "finish_request (release_lock (author_ran au a))"
  have n: "n = ap_sessions a" "numbers n a @ [i] = first_numbers (ap_accepted a)" "ap_pending a = None"
    using ok tasks RequestOutput by (auto simp: counts_ok_def tasks_defs)
  have "counts_ok a'" if rep: "report_step cfg rep n None [] (Some ?q) ?b = Some a'" for rep a'
  proof -
    obtain rate where "step_log a' = step_log ?b @ filter step_entry
        [StepReported \<lparr>co_step = rep, co_session = n, co_fps = rate, co_stages = [], co_request = Some ?q\<rparr>]"
      using report_step_log [OF rep] by blast
    then have num: "numbers k a' = (if k = n then first_numbers (ap_accepted a) else numbers k a)" for k
      using n(2) by (auto simp: numbers_def finish_request_def)
    show ?thesis
      using ok RequestOutput n report_step_ctl [OF rep]
      unfolding counts_ok_def num by (auto simp: finish_request_def)
  qed
  moreover have "counts_ok (die cfg x (author_ran au a))" "counts_ok (die cfg x (release_lock (author_ran au a)))" for x
    using ok by (auto simp: counts_ok_def numbers_def)
  ultimately show ?thesis
    using RequestOutput by (auto simp: loop_defs Let_def split: output_result.split option.split)
qed (use ok in \<open>simp add: loop_defs\<close>)

lemma app_step_counts_ok: "counts_ok a \<Longrightarrow> tasks_ok a \<Longrightarrow> counts_ok (app_step cfg a x)"
proof (cases x)
  case (Post i)
  assume ok: "counts_ok a"
  then have "ap_loop a \<noteq> Dead \<Longrightarrow> loop_session (ap_sessions a) (ap_loop a)"
    by (simp add: counts_ok_def)
  then show ?thesis
    using Post by (auto intro!: counts_ok_cong [OF _ ok] simp: enqueue_def counting_def ok)
next
  case (PushMedia now tr fr src n)
  assume ok: "counts_ok a"
  then have "ap_loop a \<noteq> Dead \<Longrightarrow> loop_session (ap_sessions a) (ap_loop a)"
    by (simp add: counts_ok_def)
  then show ?thesis
    using PushMedia by (auto intro!: counts_ok_cong [OF _ ok] simp: counting_def)
qed (simp_all add: inbound_step_counts_ok loop_step_counts_ok die_counts_ok)

interpretation counts: step_invariant "app_step cfg" "\<lambda>a. counts_ok a \<and> tasks_ok a" for cfg
  by unfold_locales (simp add: app_step_counts_ok app_step_tasks_ok)

lemma reached_counts_ok: "counts_ok (app_reached cfg buffers ops)"
proof -
  have "counts_ok (loop_ready buffers) \<and> tasks_ok (loop_ready buffers)"
    by (simp add: loop_ready_tasks_ok) (auto simp: loop_ready_def counts_ok_def numbers_def step_log_def intro: exI [of _ 0])
  then show ?thesis
    using counts.run_keeps by blast
qed

text \<open>
  C22. The accepted steps of every session are numbered 1, 2, 3 and so on, each number once and
  in order, with nothing of one session counted in another, and a session with a limit never
  reports more steps than its limit, in every state the model's tasks can reach.
\<close>

theorem steps_numbered:
  "(\<exists>m. numbers k (app_reached cfg buffers ops) = first_numbers m)
   \<and> (case ap_limit (app_reached cfg buffers ops) of
        None \<Rightarrow> True
      | Some l \<Rightarrow> length (numbers (ap_sessions (app_reached cfg buffers ops)) (app_reached cfg buffers ops)) \<le> l)"
  using reached_counts_ok [of cfg buffers ops]
  by (auto simp: counts_ok_def split: option.split)

section \<open>A request ends\<close>

fun rank :: "('f, 'o) loop_at \<Rightarrow> nat" where
  "rank (StepLock d s) = 11"
| "rank (StepInput d s n) = 10"
| "rank (StepOutput d s n x y) = 9"
| "rank (Emitting d s n r x y) = 8"
| "rank (Sending d s n r x y) = 7"
| "rank (Asking d s) = 6"
| "rank (While d s) = 5"
| "rank Turn = 4"
| "rank (RequestLock r) = 3"
| "rank (RequestInput r n) = 2"
| "rank (RequestOutput r n i y) = 1"
| "rank Dead = 0"

text \<open>The author's step hooks return, or refuse, rather than raise.\<close>

definition author_returns :: "('f, 's, 'o) author \<Rightarrow> bool" where
  "author_returns au \<longleftrightarrow>
     (case au_input au of InputRaised x \<Rightarrow> False | _ \<Rightarrow> True) \<and> (case au_output au of OutputRaised x \<Rightarrow> False | _ \<Rightarrow> True)"

definition awaiting_step :: "('v, 'f, 's, 'o) app \<Rightarrow> bool" where
  "awaiting_step a \<longleftrightarrow> tasks_ok a \<and> counts_ok a \<and> ap_inbound a = StepWait"

lemma waiting_facts:
  assumes "awaiting_step a"
  shows "ap_loop a \<noteq> Dead" and "ap_lock a = Some LoopTask \<longleftrightarrow> loop_holds (ap_loop a)" and "ap_lock a \<noteq> Some InboundTask"
    and "loop_request (ap_loop a) = None \<Longrightarrow> ap_pending a \<noteq> None"
    and "loop_request (ap_loop a) = None \<Longrightarrow> \<not> ap_live a"
    and "loop_request (ap_loop a) \<noteq> None \<Longrightarrow> ap_pending a = None"
proof -
  show dead: "ap_loop a \<noteq> Dead" and "ap_lock a = Some LoopTask \<longleftrightarrow> loop_holds (ap_loop a)"
    and "ap_lock a \<noteq> Some InboundTask"
    and "loop_request (ap_loop a) \<noteq> None \<Longrightarrow> ap_pending a = None"
    using assms by (auto simp: awaiting_step_def tasks_defs)
  show pending: "loop_request (ap_loop a) = None \<Longrightarrow> ap_pending a \<noteq> None"
    using assms by (auto simp: awaiting_step_def tasks_defs)
  show "\<not> ap_live a" if "loop_request (ap_loop a) = None"
  proof -
    have "step_closed a = None"
      using assms dead pending [OF that] by (simp add: awaiting_step_def counts_ok_def)
    then have "ap_stepped a"
      by (auto simp: step_closed_def split: if_splits)
    then show ?thesis
      using assms by (simp add: awaiting_step_def tasks_defs)
  qed
qed

lemma waiting_free_lock: "awaiting_step a \<Longrightarrow> \<not> loop_holds (ap_loop a) \<Longrightarrow> ap_lock a = None"
  using waiting_facts(2,3) [of a] by (metis (full_types) not_None_eq task.exhaust)

text \<open>The \<open>ValueError\<close> of an output that cannot be bundled ends the model.\<close>

definition BUNDLE_ERROR :: app_exn where
  "BUNDLE_ERROR = Exn ''ValueError'' ''metadata''"

definition died :: "('f, 's, 'o) app_config \<Rightarrow> ('v, 'f, 's, 'o) app \<Rightarrow> ('v, 'f, 's, 'o) app \<Rightarrow> bool" where
  "died cfg a b \<longleftrightarrow> ap_loop b = Dead \<and> answers b = answers a \<and> last (ap_out b) = Failed BUNDLE_ERROR \<and> (\<exists>x. ac_bundle cfg x = None)"

lemma die_out: "ap_out (die cfg (Some e) a) = ap_out a @ [Failed e]"
  by (simp add: die_def Let_def out_def reset_buffers_def split: option.split)

lemma died_by_output:
  "ac_bundle cfg x = None \<Longrightarrow> step_log a1 = step_log a \<Longrightarrow> died cfg a (die cfg (Some (Exn ''ValueError'' ''metadata'')) a1)"
  by (auto simp: died_def BUNDLE_ERROR_def die_out answers_def)

definition progress :: "('f, 's, 'o) app_config \<Rightarrow> ('v, 'f, 's, 'o) app \<Rightarrow> ('v, 'f, 's, 'o) app \<Rightarrow> bool" where
  "progress cfg a b \<longleftrightarrow>
     ap_inbound b = Idle \<and> answers b = answers a @ under_way a
   \<or> ap_inbound b = StepWait \<and> rank (ap_loop b) < rank (ap_loop a) \<and> answers b = answers a \<and> under_way b = under_way a
   \<or> died cfg a b"

lemma report_step_None:
  assumes "report_step cfg r n fps st q a = None"
  shows "\<exists>x. ac_bundle cfg x = None"
  using assms by (auto simp: report_step_def Let_def split: option.splits if_splits)

lemma loop_step_progress:
  assumes w: "awaiting_step a" and au: "author_returns au"
  shows "progress cfg a (loop_step cfg now au a)"
proof (cases "ap_loop a")
  case Turn
  then obtain r where "ap_pending a = Some r"
    using waiting_facts(4) [OF w] by auto
  then show ?thesis
    using Turn w by (simp add: progress_def loop_defs awaiting_step_def answers_def under_way_def)
next
  case (While d s)
  then show ?thesis
    using waiting_facts(5) [OF w] w by (simp add: progress_def loop_defs awaiting_step_def answers_def under_way_def)
next
  case (StepLock d s)
  then show ?thesis
    using waiting_free_lock [OF w] w
    by (simp add: progress_def loop_defs loop_locks_def awaiting_step_def answers_def under_way_def)
next
  case (StepInput d s n)
  then show ?thesis
    using w au
    by (cases "au_input au")
      (auto simp: progress_def loop_defs author_returns_def awaiting_step_def answers_def under_way_def)
next
  case (StepOutput d s n x y)
  then show ?thesis
    using w au
    by (cases "au_output au")
      (auto simp: progress_def loop_defs author_returns_def awaiting_step_def answers_def under_way_def)
next
  case (Emitting d s n r x y)
  have reported: "progress cfg a b" if b: "report_step cfg r n None y None (a\<lparr>ap_loop := Asking d s\<rparr>) = Some b" for b
    using Emitting w report_step_ctl [OF b] report_step_orders [OF b]
    by (simp add: progress_def orders_def awaiting_step_def under_way_def) (simp add: answers_def)
  have "progress cfg a (out [Emitted k z q] (a\<lparr>ap_last_fps := p, ap_loop := Sending d s n r x' y\<rparr>))" for k z q p x'
    using Emitting w by (simp add: progress_def answers_def awaiting_step_def under_way_def)
  moreover have "report_step cfg r n None y None (a\<lparr>ap_loop := Asking d s\<rparr>) \<noteq> None" if "sc_output r = None"
    using that by (simp add: report_step_def Let_def)
  moreover have "progress cfg a (die cfg (Some (Exn ''ValueError'' ''metadata'')) a)" if "ac_bundle cfg z = None" for z
    using died_by_output [OF that refl] by (simp add: progress_def)
  ultimately show ?thesis
    using Emitting reported by (auto simp: loop_defs Let_def split: option.splits)
next
  case (Sending d s n r x y)
  have "progress cfg a b" if b: "report_step cfg r n (Some x) y None (a\<lparr>ap_loop := Asking d s\<rparr>) = Some b" for b
    using Sending w report_step_ctl [OF b] report_step_orders [OF b]
    by (simp add: progress_def orders_def awaiting_step_def under_way_def) (simp add: answers_def)
  moreover have "progress cfg a (die cfg (Some (Exn ''ValueError'' ''metadata'')) a)"
    if "report_step cfg r n (Some x) y None (a\<lparr>ap_loop := Asking d s\<rparr>) = None"
    using report_step_None [OF that] died_by_output [OF _ refl] by (auto simp: progress_def)
  ultimately show ?thesis
    using Sending by (auto simp: loop_defs split: option.split)
next
  case (Asking d s)
  then show ?thesis
    using w by (simp add: progress_def loop_defs awaiting_step_def answers_def under_way_def)
next
  case (RequestLock r)
  then show ?thesis
    using waiting_free_lock [OF w] w
    by (simp add: progress_def loop_defs awaiting_step_def answers_def under_way_def)
next
  case (RequestInput r n)
  then show ?thesis
    using w au waiting_facts(6) [OF w]
    by (cases "au_input au")
      (auto simp: progress_def loop_defs author_returns_def awaiting_step_def answers_def under_way_def
        finish_request_def refuse_step_def request_key_def)
next
  case (RequestOutput r n i y)
  let ?q = "\<lparr>rq_conn = se_conn r, rq_request = se_request r, rq_index = i, rq_max_message = se_max_message r\<rparr>"
  let ?b = "finish_request (release_lock (author_ran au a))"
  let ?report = "report_step cfg (step_report (au_output au) y) n None [] (Some ?q) ?b"
  have "progress cfg a b" if b: "?report = Some b" for b
    using RequestOutput w waiting_facts(6) [OF w] report_step_ctl [OF b] report_step_answer [OF b]
    by (simp add: progress_def under_way_def request_key_def finish_request_def) (simp add: answers_def)
  moreover have "progress cfg a (die cfg (Some (Exn ''ValueError'' ''metadata'')) (release_lock (author_ran au a)))"
    if "?report = None"
    using report_step_None [OF that] died_by_output [of cfg _ "release_lock (author_ran au a)" a] by (auto simp: progress_def)
  ultimately have "progress cfg a (case ?report of Some a2 \<Rightarrow> a2
      | None \<Rightarrow> die cfg (Some (Exn ''ValueError'' ''metadata'')) (release_lock (author_ran au a)))"
    by (auto split: option.split)
  then show ?thesis
    using RequestOutput au
    by (auto simp: loop_defs Let_def author_returns_def split: output_result.splits)
qed (use waiting_facts(1) [OF w] in simp)

definition loop_run ::
  "('f, 's, 'o) app_config \<Rightarrow> (real \<times> ('f, 's, 'o) author) list \<Rightarrow> ('v, 'f, 's, 'o) app \<Rightarrow> ('v, 'f, 's, 'o) app"
where
  "loop_run cfg xs a = foldl (\<lambda>a (now, au). loop_step cfg now au a) a xs"

lemma waiting_ends:
  assumes "awaiting_step a" and "list_all (author_returns \<circ> snd) xs" and "rank (ap_loop a) \<le> length xs"
  shows "\<exists>n\<le>length xs. ap_inbound (loop_run cfg (take n xs) a) = Idle
      \<and> answers (loop_run cfg (take n xs) a) = answers a @ under_way a
    \<or> died cfg a (loop_run cfg (take n xs) a)"
  using assms
proof (induction xs arbitrary: a)
  case Nil
  then have "ap_loop a = Dead"
    by (cases "ap_loop a") simp_all
  then show ?case
    using waiting_facts(1) [OF Nil.prems(1)] by simp
next
  case (Cons x xs)
  obtain now au where x: "x = (now, au)"
    by (cases x)
  let ?b = "loop_step cfg now au a"
  have p: "progress cfg a ?b"
    using Cons.prems(1,2) x by (intro loop_step_progress) simp_all
  show ?case
  proof (cases "ap_inbound ?b = Idle \<and> answers ?b = answers a @ under_way a \<or> died cfg a ?b")
    case True
    then show ?thesis
      using x by (intro exI [of _ "Suc 0"]) (simp add: loop_run_def)
  next
    case False
    then have b: "ap_inbound ?b = StepWait" "rank (ap_loop ?b) < rank (ap_loop a)" "answers ?b = answers a"
      "under_way ?b = under_way a"
      using p by (auto simp: progress_def)
    have "awaiting_step ?b"
      using Cons.prems(1) b(1) loop_step_tasks_ok loop_step_counts_ok by (auto simp: awaiting_step_def)
    moreover have "rank (ap_loop ?b) \<le> length xs"
      using Cons.prems(3) b(2) by simp
    ultimately obtain n where "n \<le> length xs" "ap_inbound (loop_run cfg (take n xs) ?b) = Idle
        \<and> answers (loop_run cfg (take n xs) ?b) = answers ?b @ under_way ?b \<or> died cfg ?b (loop_run cfg (take n xs) ?b)"
      using Cons.IH [of ?b] Cons.prems(2) by auto
    then show ?thesis
      using b x by (intro exI [of _ "Suc n"]) (auto simp: loop_run_def died_def)
  qed
qed

text \<open>
  C23. A request under way is answered, or the model ends: from every reachable state in which the
  inbound task waits for a requested step, wherever the step loop is (an emit of an earlier streamed
  session included), at most eleven moves of the loop in which the author's hooks return or refuse
  rather than raise answer exactly that request and release the inbound queue. The one exception
  is an output that cannot be bundled, because its metadata does not encode: reporting or emitting
  it raises a \<open>ValueError\<close>, which ends the model with that failure reported and nothing more answered.
\<close>

theorem requested_step_ends:
  fixes a :: "('v, 'f, 's, 'o) app"
  assumes "a = app_reached cfg buffers ops" and "ap_inbound a = StepWait"
    and "list_all (author_returns \<circ> snd) xs" and "length xs = 11"
  shows "\<exists>n\<le>11. let b = loop_run cfg (take n xs) a in
      ap_inbound b = Idle \<and> answers b = answers a @ under_way a
    \<or> (\<exists>x. ac_bundle cfg x = None) \<and> ap_loop b = Dead \<and> answers b = answers a \<and> last (ap_out b) = Failed BUNDLE_ERROR"
proof -
  have "awaiting_step a"
    using assms(1,2) by (simp add: awaiting_step_def reached_tasks_ok reached_counts_ok)
  moreover have "rank (ap_loop a) \<le> length xs"
    using assms(4) by (cases "ap_loop a") simp_all
  ultimately obtain n where "n \<le> length xs" "ap_inbound (loop_run cfg (take n xs) a) = Idle
      \<and> answers (loop_run cfg (take n xs) a) = answers a @ under_way a \<or> died cfg a (loop_run cfg (take n xs) a)"
    using waiting_ends [of a xs cfg] assms(3) by blast
  then show ?thesis
    using assms(4) by (intro exI [of _ n]) (auto simp: died_def Let_def)
qed

theorem requested_step_ends_witness:
  "\<exists>n. ap_inbound (loop_run sample_config (take n (replicate 11 (0, sample_author))) (app_reached sample_config [] sample_ops)) = Idle"
proof -
  have "list_all (author_returns \<circ> snd) (replicate 11 (0 :: real, sample_author))"
    by (simp add: list_all_iff author_returns_def sample_author_def)
  then show ?thesis
    using requested_step_ends [OF refl, of sample_config "[]" sample_ops "replicate 11 (0, sample_author)"]
    unfolding sample_reached by (auto simp: sample_config_def Let_def)
qed

section \<open>A request stops at its first failure\<close>

text \<open>How a failing handler's call is answered: the code and the message.\<close>

fun failure_of :: "'v handler_end \<Rightarrow> (string \<times> string) option" where
  "failure_of (CommandErr code message) = Some (code, message)"
| "failure_of Unexpected = Some (INTERNAL_ERROR, ''The handler raised an unexpected error.'')"
| "failure_of (Returned v) = None"

text \<open>Moves of the inbound task, each with what a handler or hook that ended in it did.\<close>

definition inbound_run ::
  "('f, 's, 'o) app_config \<Rightarrow> (real \<times> ('s \<Rightarrow> 's) \<times> 'v handler_end) list \<Rightarrow> ('v, 'f, 's, 'o) app \<Rightarrow> ('v, 'f, 's, 'o) app"
where
  "inbound_run cfg xs a = foldl (\<lambda>a (now, f, h). inbound_step cfg now f h a) a xs"

lemma inbound_run_simps [simp]:
  "inbound_run cfg [] a = a" "inbound_run cfg ((now, f, h) # xs) a = inbound_run cfg xs (inbound_step cfg now f h a)"
  by (simp_all add: inbound_run_def)

lemma skipped_call:
  assumes "dict_get (ap_failed a) (c, r) = Some x" and "ap_inbound a = Idle" and "ap_inbox a = CommandItem e # rest"
    and "ce_conn e = Some c" "ce_step e = Some r"
  shows "inbound_step cfg now f h a = a\<lparr>ap_inbox := rest\<rparr>"
  using assms by (simp add: inbound_step_def take_item_def dispatch_command_def Let_def)

lemma skipped_calls:
  assumes "dict_get (ap_failed a) (c, r) = Some x" and "ap_inbound a = Idle"
    and "ap_inbox a = map CommandItem es @ StepItem s # rest"
    and "list_all (\<lambda>e. ce_conn e = Some c \<and> ce_step e = Some r) es" and "request_key s = (c, r)" and "length xs = Suc (length es)"
  shows "inbound_run cfg xs a = a\<lparr>ap_inbox := rest, ap_failed := dict_del (c, r) (ap_failed a),
      ap_out := ap_out a @ [StepRefused (x\<lparr>sr_session := ap_sessions a\<rparr>)]\<rparr>"
  using assms
proof (induction es arbitrary: a xs)
  case Nil
  then obtain now f h where "xs = [(now, f, h)]"
    by (cases xs) auto
  then show ?case
    using Nil by (simp add: inbound_step_def take_item_def dispatch_step_def request_key_def out_def)
next
  case (Cons e es)
  then obtain now f h ys where xs: "xs = (now, f, h) # ys" "length ys = Suc (length es)"
    by (cases xs) auto
  have "inbound_step cfg now f h a = a\<lparr>ap_inbox := map CommandItem es @ StepItem s # rest\<rparr>"
    using Cons.prems by (intro skipped_call) auto
  then show ?case
    using Cons.IH [of "a\<lparr>ap_inbox := map CommandItem es @ StepItem s # rest\<rparr>" ys] Cons.prems xs by simp
qed

lemma reserve_client_ex: "\<exists>cl. reserve_client t now c a = a\<lparr>ap_clients := cl\<rparr>"
proof (cases c)
  case None
  then show ?thesis
    by (intro exI [of _ "ap_clients a"]) (simp add: reserve_client_def)
next
  case (Some k)
  then show ?thesis
    by (intro exI [of _ "ap_clients (reserve_client t now c a)"]) (simp add: reserve_client_def)
qed

text \<open>The end of a failing handler: its effect on the state, its answer, and the failure kept for the request.\<close>

lemma handler_fails:
  assumes "ap_inbound a = CommandRun e session taken started" and "dict_get (ac_commands cfg) (ce_name e) = Some takes"
    and "ce_conn e = Some c" "ce_step e = Some r" "ce_received e = None" and "dict_get (ap_failed a) (c, r) = None"
    and "failure_of h = Some (code, message)"
  shows "\<exists>cl. inbound_step cfg now f h a =
    a\<lparr>ap_inbound := Idle, ap_lock := None, ap_clients := cl, ap_state := map_option f (ap_state a),
      ap_failed := dict_set (c, r) \<lparr>sr_conn = c, sr_request = r, sr_session = ap_sessions a,
          sr_reason = ce_name e @ '' failed ('' @ code @ ''): '' @ message, sr_kind = COMMAND_FAILED, sr_code = Some code,
          sr_entry = ce_entry e\<rparr> (ap_failed a),
      ap_out := ap_out a @ [HandlerRan (ce_name e) (ce_args e) (Some c), Replied c (CommandFailure code message) (ce_request e)]\<rparr>"
proof -
  obtain cl where cl: "reserve_client takes started (Some c) (a\<lparr>ap_inbound := Idle\<rparr>) = a\<lparr>ap_inbound := Idle, ap_clients := cl\<rparr>"
    using reserve_client_ex [of takes started "Some c" "a\<lparr>ap_inbound := Idle\<rparr>"] by auto
  show ?thesis
    using assms
    by (intro exI [of _ cl], cases h)
      (auto simp: inbound_step_def run_command_def answer_command_def fail_def report_command_timing_def release_lock_def
        out_def cl Let_def)
qed

text \<open>
  C24. A step request stops at its first failing call. When the handler of one of its calls ends by
  raising, with a \<open>CommandError\<close> or anything else, and none of its calls failed before, then,
  whatever the inbound task's next moves would run, the request's remaining calls are skipped
  without running any handler or touching the state, and its step is not run: the sender is told
  of the failure, the request is answered once, with that failure, the entry it came from and the
  current session, nothing of it is kept, and the rest of the queue goes on.
\<close>

theorem failed_request_stops:
  fixes a :: "('v, 'f, 's, 'o) app"
  assumes "ap_inbound a = CommandRun e session taken started" and "dict_get (ac_commands cfg) (ce_name e) \<noteq> None"
    and "ce_conn e = Some c" "ce_step e = Some r" "ce_received e = None" and "dict_get (ap_failed a) (c, r) = None"
    and "failure_of h = Some (code, message)"
    and "ap_inbox a = map CommandItem es @ StepItem s # rest"
    and "list_all (\<lambda>e. ce_conn e = Some c \<and> ce_step e = Some r) es" and "request_key s = (c, r)"
    and "length xs = Suc (length es)" and "b = inbound_run cfg ((now, f, h) # xs) a"
  shows "ap_out b = ap_out a @
      [HandlerRan (ce_name e) (ce_args e) (Some c), Replied c (CommandFailure code message) (ce_request e),
       StepRefused \<lparr>sr_conn = c, sr_request = r, sr_session = ap_sessions a,
         sr_reason = ce_name e @ '' failed ('' @ code @ ''): '' @ message, sr_kind = COMMAND_FAILED, sr_code = Some code,
         sr_entry = ce_entry e\<rparr>]
    \<and> ap_state b = map_option f (ap_state a) \<and> ap_inbox b = rest \<and> ap_inbound b = Idle \<and> ap_lock b = None
    \<and> ap_loop b = ap_loop a \<and> ap_pending b = ap_pending a \<and> ap_accepted b = ap_accepted a
    \<and> dict_get (ap_failed b) (c, r) = None"
proof -
  obtain takes where "dict_get (ac_commands cfg) (ce_name e) = Some takes"
    using assms(2) by auto
  from handler_fails [OF assms(1) this assms(3-7)] obtain cl where fails: "inbound_step cfg now f h a =
    a\<lparr>ap_inbound := Idle, ap_lock := None, ap_clients := cl, ap_state := map_option f (ap_state a),
      ap_failed := dict_set (c, r) \<lparr>sr_conn = c, sr_request = r, sr_session = ap_sessions a,
          sr_reason = ce_name e @ '' failed ('' @ code @ ''): '' @ message, sr_kind = COMMAND_FAILED, sr_code = Some code,
          sr_entry = ce_entry e\<rparr> (ap_failed a),
      ap_out := ap_out a @ [HandlerRan (ce_name e) (ce_args e) (Some c), Replied c (CommandFailure code message) (ce_request e)]\<rparr>"
    by blast
  define a1 where "a1 = inbound_step cfg now f h a"
  have "dict_get (ap_failed a1) (c, r) = Some \<lparr>sr_conn = c, sr_request = r, sr_session = ap_sessions a,
      sr_reason = ce_name e @ '' failed ('' @ code @ ''): '' @ message, sr_kind = COMMAND_FAILED, sr_code = Some code,
      sr_entry = ce_entry e\<rparr>"
    "ap_inbound a1 = Idle" "ap_inbox a1 = map CommandItem es @ StepItem s # rest"
    using assms(8) by (simp_all add: a1_def fails dict_simps)
  note skip = skipped_calls [OF this assms(9-11), of cfg]
  have "b = inbound_run cfg xs a1"
    using assms(12) by (simp add: a1_def)
  then show ?thesis
    unfolding skip by (simp add: a1_def fails dict_simps)
qed

definition failing_call :: "unit command_envelope" where
  "failing_call = \<lparr>ce_name = ''set'', ce_args = (), ce_conn = Some 7, ce_request = None, ce_received = None,
     ce_submitted = None, ce_held = 0, ce_step = Some ''r'', ce_entry = Some ''commands[0]''\<rparr>"

definition failing_app :: "(unit, nat, nat, nat) app" where
  "failing_app = (loop_ready [])\<lparr>ap_inbound := CommandRun failing_call 0 0 0, ap_lock := Some InboundTask,
     ap_inbox := [CommandItem failing_call, StepItem sample_step]\<rparr>"

theorem failed_request_stops_witness:
  "length (ap_out (inbound_run (sample_config\<lparr>ac_commands := [(''set'', False)]\<rparr>)
     [(0, id, CommandErr ''bad'' ''no''), (0, id, Unexpected), (0, id, Unexpected)] failing_app)) = 3"
proof -
  have app: "ap_inbound failing_app = CommandRun failing_call 0 0 0" "ap_out failing_app = []"
    "ap_inbox failing_app = map CommandItem [failing_call] @ StepItem sample_step # []" "ap_failed failing_app = []"
    by (simp_all add: failing_app_def loop_ready_def)
  have call: "ce_name failing_call = ''set''" "ce_conn failing_call = Some 7" "ce_step failing_call = Some ''r''" "ce_received failing_call = None"
    by (simp_all add: failing_call_def)
  show ?thesis
    using failed_request_stops [OF app(1) _ call(2-4) _ _ app(3) _ _ _ refl,
      where cfg = "sample_config\<lparr>ac_commands := [(''set'', False)]\<rparr>" and h = "CommandErr ''bad'' ''no''" and code = "''bad''"
        and message = "''no''" and now = 0 and f = id and xs = "[(0, id, Unexpected), (0, id, Unexpected)]"]
    by (simp add: app(2,4) call request_key_def sample_step_def del: inbound_run_simps)
qed

section \<open>The session's state\<close>

fun at_boundary :: "'v inbound_at \<Rightarrow> bool" where
  "at_boundary StartLock = True"
| "at_boundary EndLock = True"
| "at_boundary EndRun = True"
| "at_boundary Stopped = True"
| "at_boundary pc = False"

definition state_ok :: "('f, 's, 'o) app_config \<Rightarrow> ('v, 'f, 's, 'o) app \<Rightarrow> bool" where
  "state_ok cfg a \<longleftrightarrow>
     (ap_inbound a = StartLock \<or> ap_inbound a = StartRun \<longrightarrow> ap_active a)
   \<and> (\<not> at_boundary (ap_inbound a) \<longrightarrow> (ap_state a = None \<longleftrightarrow> \<not> ap_active a))"

lemma helper_state [simp]:
  "ap_state (reserve_client t now c a) = ap_state a" "ap_state (fail e code m a) = ap_state a"
  "ap_state (report_command_timing e n tk s f a) = ap_state a" "ap_state (reset_buffers cfg th a) = ap_state a"
  "ap_state (report_input_waits k b a) = ap_state a" "ap_state (push_media cfg now tr fr src j a) = ap_state a"
  by (simp_all add: reserve_client_def fail_def report_command_timing_def reset_buffers_def report_input_waits_def
      push_media_def Let_def split: option.split)

lemma answer_command_state [simp]: "ap_state (answer_command e h a) = ap_state a"
  by (simp add: answer_command_def split: handler_end.split option.split)

lemma run_command_state: "ap_state (run_command cfg now e f h a) = None \<longleftrightarrow> ap_state a = None"
  by (simp add: run_command_def Let_def split: option.split)

lemma call_hook_state: "ap_state (call_hook cfg now k c f a) = None \<longleftrightarrow> ap_state a = None"
  by (simp add: call_hook_def Let_def split: option.split)

lemma author_ran_state: "ap_state (author_ran au a) = None \<longleftrightarrow> ap_state a = None"
  by (simp add: author_ran_def)

lemma push_frames_state [simp]: "ap_state (push_frames cfg now r n a) = ap_state a"
proof -
  have "ap_state (foldl (\<lambda>a (track, frames).
        case dict_get (ap_buffers a) track of
          None \<Rightarrow> a
        | Some b \<Rightarrow>
            a\<lparr>ap_buffers := dict_set track
                (foldl (\<lambda>b fr. fst (push (ac_samples cfg) now fr (Some (se_conn r)) (int n) b)) b frames)
                (ap_buffers a)\<rparr>) a ms) = ap_state a" for ms
    by (induction ms arbitrary: a) (simp_all split: option.split prod.split)
  then show ?thesis
    by (simp add: push_frames_def)
qed

lemma end_session_state: "ac_state cfg \<noteq> None \<Longrightarrow> ap_state (end_session cfg a) = None"
  by (auto simp: end_session_def Let_def)

lemma dispatch_event_state_ok:
  assumes "state_ok cfg a" and "ap_inbound a = Idle"
  shows "state_ok cfg (dispatch_event cfg now ev a)"
  using assms by (cases ev) (auto simp: dispatch_event_def Let_def state_ok_def invoke_hook_def)

lemma dispatch_step_state_ok:
  assumes "state_ok cfg a" and "ap_inbound a = Idle"
  shows "state_ok cfg (dispatch_step r a)"
  using assms by (auto simp: dispatch_step_def Let_def state_ok_def split: option.split)

lemma inbound_step_state_ok:
  assumes "state_ok cfg a" and "tasks_ok a" and "ac_state cfg \<noteq> None"
  shows "state_ok cfg (inbound_step cfg now f h a)"
proof (cases "ap_inbound a")
  case Idle
  have b: "state_ok cfg (a\<lparr>ap_inbox := rest\<rparr>)" for rest
    using assms(1) by (simp add: state_ok_def)
  moreover have "state_ok cfg (dispatch_command now e (a\<lparr>ap_inbox := rest\<rparr>))" for e rest
    using assms(1) Idle by (simp add: dispatch_command_def Let_def state_ok_def)
  ultimately show ?thesis
    using Idle assms(1)
    by (auto simp: inbound_step_def take_item_def dispatch_step_state_ok dispatch_event_state_ok
        split: list.split inbound_item.split)
next
  case EndRun
  then have "\<not> ap_active a"
    using assms(2) by (simp add: tasks_defs)
  then show ?thesis
    using EndRun end_session_state [OF assms(3)] by (simp add: inbound_step_def state_ok_def)
next
  case StartLock
  then show ?thesis
    using assms(1,3) by (auto simp: inbound_step_def state_ok_def)
qed (use assms(1) in \<open>auto simp: inbound_step_def inbound_locks_def state_ok_def run_command_state call_hook_state\<close>)

lemma report_step_state: "report_step cfg r n fps st q a = Some a' \<Longrightarrow> ap_state a' = ap_state a"
  using report_step_Some by blast

lemma state_ok_cong:
  "state_ok cfg a \<Longrightarrow> ap_inbound b = ap_inbound a \<Longrightarrow> ap_active b = ap_active a
    \<Longrightarrow> (ap_state b = None \<longleftrightarrow> ap_state a = None) \<Longrightarrow> state_ok cfg b"
  by (simp add: state_ok_def)

lemma die_state_ok: "state_ok cfg (die cfg x a)"
  by (simp add: state_ok_def)

lemma report_step_state_ok:
  "report_step cfg r n fps st q a = Some a' \<Longrightarrow> state_ok cfg a \<Longrightarrow> state_ok cfg a'"
  by (rule state_ok_cong, assumption) (simp_all add: report_step_ctl report_step_state)

lemma finish_request_state_ok:
  "state_ok cfg a \<Longrightarrow> ap_inbound a = StepWait \<Longrightarrow> state_ok cfg (finish_request (release_lock (author_ran au a)))"
  by (simp add: state_ok_def finish_request_def author_ran_state)

lemma loop_step_state_ok:
  assumes ok: "state_ok cfg a" and tasks: "tasks_ok a"
  shows "state_ok cfg (loop_step cfg now au a)"
proof (cases "ap_loop a")
  case Turn
  then show ?thesis
    by (intro state_ok_cong [OF ok]) (simp_all add: loop_defs split: option.split)
next
  case (StepInput d s n)
  then show ?thesis
    by (cases "au_input au")
      (simp_all add: loop_defs Let_def die_state_ok state_ok_cong [OF ok] author_ran_state)
next
  case (StepOutput d s n x y)
  then show ?thesis
    by (cases "au_output au")
      (simp_all add: loop_defs Let_def die_state_ok state_ok_cong [OF ok] author_ran_state)
next
  case (Emitting d s n r x y)
  have "state_ok cfg (a\<lparr>ap_loop := Asking d s\<rparr>)"
    by (rule state_ok_cong [OF ok]) simp_all
  then show ?thesis
    using Emitting ok
    by (simp add: loop_defs Let_def die_state_ok state_ok_cong [OF ok] report_step_state_ok split: option.split)
next
  case (Sending d s n r x y)
  have "state_ok cfg (a\<lparr>ap_loop := Asking d s\<rparr>)"
    by (rule state_ok_cong [OF ok]) simp_all
  then show ?thesis
    using Sending by (simp add: loop_defs die_state_ok report_step_state_ok split: option.split)
next
  case (RequestInput r n)
  then have "ap_inbound a = StepWait"
    using tasks by (auto simp: tasks_defs)
  then show ?thesis
    using ok RequestInput
    by (cases "au_input au")
      (simp_all add: loop_defs Let_def die_state_ok state_ok_def finish_request_def author_ran_state)
next
  case (RequestOutput r n i y)
  then have "ap_inbound a = StepWait"
    using tasks by (auto simp: tasks_defs)
  then show ?thesis
    using RequestOutput finish_request_state_ok [OF ok, of au]
    by (cases "au_output au")
      (simp_all add: loop_defs Let_def die_state_ok report_step_state_ok split: option.split)
qed (simp_all add: loop_defs loop_locks_def ok state_ok_cong [OF ok])

lemma app_step_state_ok:
  "state_ok cfg a \<Longrightarrow> tasks_ok a \<Longrightarrow> ac_state cfg \<noteq> None \<Longrightarrow> state_ok cfg (app_step cfg a x)"
  by (cases x; simp add: inbound_step_state_ok loop_step_state_ok; simp add: state_ok_def enqueue_def)

lemma reached_state_ok:
  assumes "ac_state cfg \<noteq> None"
  shows "state_ok cfg (app_reached cfg buffers ops)"
proof (induction ops rule: rev_induct)
  case (snoc x ops)
  then show ?case
    using app_step_state_ok [OF snoc reached_tasks_ok assms] by simp
qed (simp add: loop_ready_def state_ok_def)

text \<open>
  An application that declares a state has one exactly while its session runs: in every
  reachable state, unless the inbound task is at a session boundary waiting for or holding
  the step lock, \<open>self.state\<close> is set if and only if the session is active, whatever the
  author's code does to its value.
\<close>

theorem state_follows_session:
  assumes "ac_state cfg \<noteq> None" and "\<not> at_boundary (ap_inbound (app_reached cfg buffers ops))"
  shows "ap_state (app_reached cfg buffers ops) \<noteq> None \<longleftrightarrow> ap_active (app_reached cfg buffers ops)"
  using reached_state_ok [OF assms(1), of buffers ops] assms(2) by (auto simp: state_ok_def)

theorem state_follows_session_witness:
  "ap_state (app_reached sample_config [] sample_ops) \<noteq> None \<longleftrightarrow> ap_active (app_reached sample_config [] sample_ops)"
  by (rule state_follows_session) (simp_all only: sample_reached, simp_all add: sample_config_def)

end
