(* ===== verification/AppBridge.thy ===== *)
theory AppBridge
  imports Contract AppRequests
begin

text \<open>
  The boundary between the runner and the model, \<^verbatim>\<open>interface/internal/bridge.py\<close>, for a model that
  does not override \<open>submit_command\<close>: the check of commands and step requests against the
  model's contract and their admission to the inbound queue of \<open>AppLoop\<close>, and the run of an
  admitted request through the two tasks.
\<close>

section \<open>Admission\<close>

record command_outcome =
  oc_accepted :: bool
  oc_field :: "string option"
  oc_reason :: "contract_reason option"

definition accepted_outcome :: command_outcome where
  "accepted_outcome = \<lparr>oc_accepted = True, oc_field = None, oc_reason = None\<rparr>"

definition rejected_outcome :: "string \<Rightarrow> contract_reason \<Rightarrow> command_outcome" where
  "rejected_outcome field reason = \<lparr>oc_accepted = False, oc_field = Some field, oc_reason = Some reason\<rparr>"

type_synonym command_args = "(string, pyval) dict"

type_synonym ('f, 's, 'o) bridged = "(command_args, 'f, 's, 'o) app"

definition submit_command_at ::
  "real \<Rightarrow> string \<times> command_args \<Rightarrow> conn_id option \<Rightarrow> string option \<Rightarrow> real option \<Rightarrow> real
    \<Rightarrow> string option \<Rightarrow> string option \<Rightarrow> ('f, 's, 'o) bridged \<Rightarrow> ('f, 's, 'o) bridged"
where
  "submit_command_at now command conn request received held step entry a =
     enqueue (CommandItem \<lparr>ce_name = fst command, ce_args = snd command, ce_conn = conn, ce_request = request,
        ce_received = received, ce_submitted = Some now, ce_held = held, ce_step = step, ce_entry = entry\<rparr>) a"

definition submit_command ::
  "(string, 'h command_spec) dict \<Rightarrow> real \<Rightarrow> string \<Rightarrow> command_args \<Rightarrow> conn_id option \<Rightarrow> string option
    \<Rightarrow> real option \<Rightarrow> real \<Rightarrow> ('f, 's, 'o) bridged \<Rightarrow> command_outcome \<times> ('f, 's, 'o) bridged"
where
  "submit_command commands now name raw_args conn request received held a =
     (case validate commands name raw_args of
        Inl (field, reason) \<Rightarrow> (rejected_outcome field reason, a)
      | Inr command \<Rightarrow> (accepted_outcome, submit_command_at now command conn request received held None None a))"

definition check_command :: "(string, 'h command_spec) dict \<Rightarrow> string \<Rightarrow> command_args \<Rightarrow> command_outcome" where
  "check_command commands name raw_args =
     (case validate commands name raw_args of
        Inl (field, reason) \<Rightarrow> rejected_outcome field reason
      | Inr command \<Rightarrow> accepted_outcome)"



definition describe_bound :: "'f input_buffer \<Rightarrow> string" where
  "describe_bound b =
     (case ib_max_samples b of
        Some n \<Rightarrow> decimal (nat n) @ '' samples in at most '' @ decimal (nat (ib_max_frames b)) @ '' frames''
      | None \<Rightarrow> decimal (ib_maxlen b) @ '' frames'')"

definition input_overflow :: "string \<Rightarrow> int \<Rightarrow> int \<Rightarrow> ('f, 's, 'o) bridged \<Rightarrow> string option" where
  "input_overflow track frames samples a =
     (case dict_get (ap_buffers a) track of
        None \<Rightarrow> None
      | Some b \<Rightarrow> if holds b frames samples then None else Some (describe_bound b))"

definition dispatch_reactor_event :: "command_args reactor_event \<Rightarrow> ('f, 's, 'o) bridged \<Rightarrow> ('f, 's, 'o) bridged" where
  "dispatch_reactor_event ev a = enqueue (EventItem ev) a"

section \<open>The items of an admitted request\<close>







section \<open>The run of an admitted request\<close>





lemma step_closed_upd [simp]:
  "step_closed (a\<lparr>ap_inbox := i\<rparr>) = step_closed a" "step_closed (a\<lparr>ap_inbound := p\<rparr>) = step_closed a"
  "step_closed (a\<lparr>ap_lock := q\<rparr>) = step_closed a" "step_closed (a\<lparr>ap_clients := cl\<rparr>) = step_closed a"
  "step_closed (a\<lparr>ap_state := st\<rparr>) = step_closed a" "step_closed (a\<lparr>ap_out := xs\<rparr>) = step_closed a"
  "step_closed (a\<lparr>ap_failed := f\<rparr>) = step_closed a" "step_closed (a\<lparr>ap_asked := k\<rparr>) = step_closed a"
  by (simp_all add: step_closed_def cong: option.case_cong)











end
