(* ===== verification/AppEngine.thy ===== *)
theory AppEngine
  imports AppLoop
begin

text \<open>
  The engine below an application, \<^verbatim>\<open>interface/internal/reactor_core.py\<close>: how an output becomes
  the media chunk its consumers split into frames, how the playout settings reach the
  consumers, and how the end of the model's thread is reported.
\<close>

section \<open>Outputs\<close>

text \<open>
  The metadata an author attaches: bytes, taken as they are, or a mapping, encoded by the
  parameter \<open>json\<close> (\<open>None\<close> where it cannot be serialised).
\<close>

datatype 'j meta_value = MetaBytes bytes | MetaJson 'j

datatype 'j meta_arg = NoValue | OneValue "'j meta_value" | PerFrameValues "'j meta_value list"

record ('a, 'j) output_track =
  ot_info :: track_info
  ot_data :: 'a
  ot_metadata :: "'j meta_arg"

type_synonym ('a, 'j) typed_output = "(string, ('a, 'j) output_track) dict"

definition encode_frame_metadata :: "('j \<Rightarrow> bytes option) \<Rightarrow> 'j meta_value \<Rightarrow> values_error + bytes" where
  "encode_frame_metadata json m =
     (case m of
        MetaBytes b \<Rightarrow> Inr b
      | MetaJson j \<Rightarrow> (case json j of None \<Rightarrow> Inl values_error.ValueError | Some b \<Rightarrow> Inr b))"

definition encode_metadata ::
  "'a numpy \<Rightarrow> ('j \<Rightarrow> bytes option) \<Rightarrow> track_info \<Rightarrow> 'a \<Rightarrow> 'j meta_arg \<Rightarrow> values_error + metadata"
where
  "encode_metadata np json info data m =
     (case m of
        NoValue \<Rightarrow> Inr NoMeta
      | _ \<Rightarrow>
          if ti_kind info \<noteq> VIDEO then Inl values_error.ValueError
          else case m of
            OneValue v \<Rightarrow> map_sum id OneMeta (encode_frame_metadata json v)
          | PerFrameValues vs \<Rightarrow>
              if ndim np data \<noteq> 4 then Inl values_error.ValueError
              else if length vs \<noteq> hd (np_shape np data) then Inl values_error.ValueError
              else map_sum id PerFrame (seq_results (map (encode_frame_metadata json) vs))
          | NoValue \<Rightarrow> Inr NoMeta)"

definition to_track ::
  "'a numpy \<Rightarrow> ('j \<Rightarrow> bytes option) \<Rightarrow> string \<times> ('a, 'j) output_track \<Rightarrow> values_error + string \<times> 'a track_data"
where
  "to_track np json nt =
     map_sum id (\<lambda>m. (fst nt, \<lparr>td_info = ot_info (snd nt), td_data = ot_data (snd nt), td_metadata = m\<rparr>))
       (encode_metadata np json (ot_info (snd nt)) (ot_data (snd nt)) (ot_metadata (snd nt)))"

definition to_bundle ::
  "'a numpy \<Rightarrow> ('j \<Rightarrow> bytes option) \<Rightarrow> ('a, 'j) typed_output \<Rightarrow> values_error + 'a media_bundle"
where
  "to_bundle np json x = seq_results (map (to_track np json) x)"

text \<open>The frame count the step loop reads of an output: the parameter \<open>ac_bundle\<close> of \<open>AppLoop\<close>.\<close>

definition bundle_frames ::
  "'a numpy \<Rightarrow> ('j \<Rightarrow> bytes option) \<Rightarrow> ('a, 'j) typed_output \<Rightarrow> nat option"
where
  "bundle_frames np json x =
     (case to_bundle np json x of
        Inl e \<Rightarrow> None
      | Inr b \<Rightarrow> (case frame_count np b of Inl e \<Rightarrow> None | Inr n \<Rightarrow> Some n))"

text \<open>\<open>OutputStream.emit\<close>: the chunk handed to the media sink, tagged with its rate and session.\<close>

definition emit_chunk ::
  "'a numpy \<Rightarrow> ('j \<Rightarrow> bytes option) \<Rightarrow> ('f, 's, 'o) app_config \<Rightarrow> real \<Rightarrow> real option \<Rightarrow> bool \<Rightarrow> int
    \<Rightarrow> ('a, 'j) typed_output \<Rightarrow> values_error + 'a media_chunk"
where
  "emit_chunk np json cfg now compute_time discard session x =
     (case to_bundle np json x of
        Inl e \<Rightarrow> Inl e
      | Inr b \<Rightarrow>
          (case frame_count np b of
             Inl e \<Rightarrow> Inl e
           | Inr n \<Rightarrow> Inr \<lparr>mc_bundle = b, mc_fps = playout_rate cfg n compute_time, mc_n_frames = n,
                          mc_wait = (\<not> discard), mc_session = Some session, mc_emitted_at = Some now\<rparr>))"

lemma seq_results_map_Inr:
  "seq_results (map f xs) = Inr ys \<Longrightarrow> length ys = length xs \<and> (\<forall>i<length xs. f (xs ! i) = Inr (ys ! i))"
proof (induction xs arbitrary: ys)
  case (Cons x xs)
  then obtain y zs where "f x = Inr y" "seq_results (map f xs) = Inr zs" "ys = y # zs"
    by (auto split: sum.splits)
  then show ?case
    using Cons.IH [of zs] by (auto simp: nth_Cons split: nat.split)
qed simp

lemma encode_metadata_covers:
  assumes "encode_metadata np json info data m = Inr md"
  shows "md = NoMeta \<or> ti_kind info = VIDEO" and "\<And>ms. md = PerFrame ms \<Longrightarrow> ndim np data = 4 \<and> length ms = hd (np_shape np data)"
proof -
  show "md = NoMeta \<or> ti_kind info = VIDEO"
    using assms by (auto simp: encode_metadata_def split: meta_arg.splits if_splits)
  show "ndim np data = 4 \<and> length ms = hd (np_shape np data)" if "md = PerFrame ms" for ms
  proof (cases m)
    case (PerFrameValues vs)
    then have "seq_results (map (encode_frame_metadata json) vs) = Inr ms" "ndim np data = 4"
      "length vs = hd (np_shape np data)"
      using assms that by (auto simp: encode_metadata_def map_sum_def split: if_splits sum.splits)
    then show ?thesis
      using seq_results_map_Inr by metis
  qed (use assms that in \<open>auto simp: encode_metadata_def map_sum_def split: if_splits sum.splits\<close>)
qed

lemma to_bundle_tracks:
  assumes "to_bundle np json x = Inr b" and "(k, t) \<in> set b"
  shows "\<exists>o'. (k, o') \<in> set x \<and> td_info t = ot_info o' \<and> td_data t = ot_data o'
    \<and> encode_metadata np json (td_info t) (td_data t) (ot_metadata o') = Inr (td_metadata t)"
proof -
  have len: "length b = length x" and nth: "\<And>i. i < length x \<Longrightarrow> to_track np json (x ! i) = Inr (b ! i)"
    using seq_results_map_Inr [of "to_track np json" x b] assms(1) by (auto simp: to_bundle_def)
  obtain i where i: "i < length x" "b ! i = (k, t)"
    using assms(2) len by (metis in_set_conv_nth)
  have "to_track np json (x ! i) = Inr (k, t)"
    using nth [OF i(1)] i(2) by simp
  then have "fst (x ! i) = k" "td_info t = ot_info (snd (x ! i))" "td_data t = ot_data (snd (x ! i))"
    "encode_metadata np json (ot_info (snd (x ! i))) (ot_data (snd (x ! i))) (ot_metadata (snd (x ! i))) = Inr (td_metadata t)"
    by (auto simp: to_track_def map_sum_def split: sum.splits)
  moreover have "x ! i \<in> set x"
    using i(1) by simp
  ultimately show ?thesis
    by (metis prod.collapse)
qed

lemma to_bundle_keys:
  assumes "to_bundle np json x = Inr b"
  shows "dict_keys b = dict_keys x"
proof -
  have len: "length b = length x" and nth: "\<And>i. i < length x \<Longrightarrow> to_track np json (x ! i) = Inr (b ! i)"
    using seq_results_map_Inr [of "to_track np json" x b] assms by (auto simp: to_bundle_def)
  have "fst (b ! i) = fst (x ! i)" if "i < length x" for i
    using nth [OF that] by (cases "b ! i") (auto simp: to_track_def map_sum_def split: sum.splits)
  then show ?thesis
    using len by (intro nth_equalityI [of "map fst b"]) simp_all
qed

text \<open>An output class keys its tracks by their names.\<close>

definition keyed_output :: "('a, 'j) typed_output \<Rightarrow> bool" where
  "keyed_output x \<longleftrightarrow> wf_dict x \<and> list_all (\<lambda>(k, t). ti_name (ot_info t) = k) x"

lemma to_bundle_well_keyed:
  assumes "keyed_output x" and "to_bundle np json x = Inr b"
  shows "well_keyed b"
proof -
  have "track_name t = k" if "(k, t) \<in> set b" for k t
    using to_bundle_tracks [OF assms(2) that] assms(1) by (fastforce simp: keyed_output_def list_all_iff)
  then show ?thesis
    using assms to_bundle_keys [OF assms(2)] by (auto simp: well_keyed_def keyed_output_def list_all_iff)
qed

lemma to_bundle_covers:
  assumes "to_bundle np json x = Inr b" and "frame_count np b = Inr n" and "batched_sizes np b \<noteq> []"
  shows "list_all (metadata_covers n) (get_tracks b)"
proof -
  have "metadata_covers n t" if kt: "(k, t) \<in> set b" for k t
  proof (cases "td_metadata t")
    case (PerFrame ms)
    obtain o' where "(k, o') \<in> set x" and enc: "encode_metadata np json (td_info t) (td_data t) (ot_metadata o') = Inr (td_metadata t)"
      using to_bundle_tracks [OF assms(1) kt] by blast
    have shape: "ndim np (td_data t) = 4" "length ms = hd (np_shape np (td_data t))" "ti_kind (td_info t) = VIDEO"
      using encode_metadata_covers [OF enc] PerFrame by auto
    then have "length ms \<in> set (batched_sizes np b)"
      using kt by (force simp: batched_sizes_def get_tracks_by_kind_def)
    then show ?thesis
      using frame_count_Inr [OF assms(2)] assms(3) PerFrame by (auto simp: metadata_covers_def)
  qed (simp_all add: metadata_covers_def)
  then show ?thesis
    by (auto simp: get_tracks_def list_all_iff)
qed

lemma squeeze_total:
  assumes "metadata_covers 1 t"
  shows "\<exists>t'. squeeze_track np t = Inr t'"
  using assms by (cases "td_metadata t") (auto simp: squeeze_track_def frame_metadata_def metadata_covers_def)

lemma seq_results_total:
  "(\<And>x. x \<in> set xs \<Longrightarrow> \<exists>y. f x = Inr y) \<Longrightarrow> \<exists>ys. seq_results (map f xs) = Inr ys"
  by (induction xs) (fastforce split: sum.split)+

lemma split_single:
  assumes "frame_count np b = Inr 1" and "batched_sizes np b \<noteq> []" and "list_all (metadata_covers 1) (get_tracks b)"
  shows "\<exists>bs. split_batch np b = Inr bs"
proof -
  have hd: "hd (batched_sizes np b) = 1"
    using frame_count_Inr [OF assms(1)] assms(2) by simp
  have "get_tracks_by_kind b VIDEO \<noteq> []"
    using assms(2) by (auto simp: batched_sizes_def)
  moreover have "\<exists>ys. seq_results (map (\<lambda>(name, t). map_sum id (\<lambda>t'. (name, t')) (squeeze_track np t)) b) = Inr ys"
  proof (rule seq_results_total)
    fix x assume "x \<in> set b"
    then show "\<exists>y. (case x of (name, t) \<Rightarrow> map_sum id (\<lambda>t'. (name, t')) (squeeze_track np t)) = Inr y"
      using squeeze_total assms(3) by (fastforce simp: get_tracks_def list_all_iff split: prod.split)
  qed
  ultimately show ?thesis
    using assms(2,3) hd by (auto simp: split_batch_def Let_def)
qed

text \<open>
  What a model emits can always be played: when the emit of an output whose tracks are keyed
  by their names succeeds, with at least one frame, the chunk splits, at every consumer, into
  exactly the number of frames it is tagged with; metadata that would not line up with the
  frames is refused at the emit. Of NumPy it takes that an array splits into as many parts as
  asked for.
\<close>

theorem emitted_chunk_splits:
  assumes "emit_chunk np json cfg now compute_time discard session x = Inr c" and "keyed_output x"
    and "0 < mc_n_frames c"
    and split_law: "\<And>a. \<exists>ps. np_array_split np a (mc_n_frames c) = Some ps \<and> length ps = mc_n_frames c"
  shows "\<exists>bs. chunk_frames np c = Inr bs \<and> length bs = mc_n_frames c"
proof -
  let ?b = "mc_bundle c" and ?n = "mc_n_frames c"
  have b: "to_bundle np json x = Inr ?b" and n: "frame_count np ?b = Inr ?n"
    using assms(1) by (auto simp: emit_chunk_def split: sum.splits)
  have "\<exists>bs. split_batch np ?b = Inr bs"
  proof (cases "batched_sizes np ?b = []")
    case True
    then show ?thesis
      by (simp add: split_batch_def Let_def)
  next
    case False
    note covers = to_bundle_covers [OF b n False]
    show ?thesis
    proof (cases "?n = 1")
      case True
      then show ?thesis
        using split_single [of np ?b] n False covers by simp
    next
      case many: False
      then show ?thesis
        using split_batch_frames [OF to_bundle_well_keyed [OF assms(2) b] n False many covers split_law] by blast
    qed
  qed
  then show ?thesis
    using split_batch_length [OF n] by (auto simp: chunk_frames_def)
qed

definition sample_output :: "(nat list \<times> int list, string) typed_output" where
  "sample_output =
     [(''v'', \<lparr>ot_info = \<lparr>ti_name = ''v'', ti_kind = VIDEO, ti_rate = 0, ti_direction = OUT, ti_buffer_seconds = None\<rparr>,
        ot_data = ([2, 1, 1, 1], [5, 6]), ot_metadata = PerFrameValues [MetaBytes [1], MetaBytes [2]]\<rparr>)]"

theorem emitted_chunk_splits_witness:
  "\<exists>c bs. emit_chunk \<lparr>np_shape = fst, np_index = (\<lambda>a i. a), np_row = id, np_array_split = (\<lambda>a n. Some (replicate n a))\<rparr>
      (\<lambda>_. None) sample_config 0 None False 1 sample_output = Inr c \<and>
    chunk_frames \<lparr>np_shape = fst, np_index = (\<lambda>a i. a), np_row = id, np_array_split = (\<lambda>a n. Some (replicate n a))\<rparr> c = Inr bs
    \<and> length bs = 2"
proof -
  let ?np = "\<lparr>np_shape = fst, np_index = (\<lambda>a i. a), np_row = id, np_array_split = (\<lambda>a n. Some (replicate n a))\<rparr>
    :: (nat list \<times> int list) numpy"
  obtain c where c: "emit_chunk ?np (\<lambda>_. None) sample_config 0 None False 1 sample_output = Inr c" "mc_n_frames c = 2"
    by (simp add: emit_chunk_def to_bundle_def to_track_def encode_metadata_def encode_frame_metadata_def sample_output_def
        frame_count_def batched_sizes_def get_tracks_by_kind_def)
  then show ?thesis
    using emitted_chunk_splits [OF c(1)] by (auto simp: keyed_output_def sample_output_def)
qed

section \<open>Playout settings\<close>

datatype media_op = SetRate real | SetDepth int | FlushMedia bool

text \<open>
  The engine's playout settings: the rate the class declares and the one assigned through
  the handle, the declared buffer bound, whether the consumers are bound, and the
  operations they received.
\<close>

record playout =
  po_class_fps :: real
  po_fps :: "real option"
  po_buffer_size :: "int option"
  po_bound :: bool
  po_sent :: "media_op list"

definition current_fps :: "playout \<Rightarrow> real" where
  "current_fps p = (case po_fps p of Some r \<Rightarrow> r | None \<Rightarrow> po_class_fps p)"

definition send_op :: "media_op \<Rightarrow> playout \<Rightarrow> playout" where
  "send_op x p = (if po_bound p then p\<lparr>po_sent := po_sent p @ [x]\<rparr> else p)"

text \<open>The setter of \<open>OutputStream.fps\<close>; \<open>None\<close> is its \<open>ValueError\<close>.\<close>

definition set_fps :: "real \<Rightarrow> playout \<Rightarrow> playout option" where
  "set_fps r p = (if r \<le> 0 then None else Some (send_op (SetRate r) (p\<lparr>po_fps := Some r\<rparr>)))"

definition flush_output :: "bool \<Rightarrow> playout \<Rightarrow> playout" where
  "flush_output hold p = send_op (FlushMedia hold) p"

text \<open>\<open>bind_output\<close> pushes what was declared or set before; \<open>None\<close> is its \<open>ValueError\<close>.\<close>

definition bind_output :: "playout \<Rightarrow> playout option" where
  "bind_output p =
     (if (case po_buffer_size p of Some n \<Rightarrow> n \<le> 0 | None \<Rightarrow> False) then None
      else let p1 = p\<lparr>po_bound := True\<rparr>;
               p2 = (case po_buffer_size p of Some n \<Rightarrow> send_op (SetDepth n) p1 | None \<Rightarrow> p1)
           in Some (case po_fps p of Some r \<Rightarrow> send_op (SetRate r) p2 | None \<Rightarrow> p2))"

datatype playout_op = Assign real | Flush bool | Bind

text \<open>A refused operation leaves the settings as they were.\<close>

fun playout_step :: "playout \<Rightarrow> playout_op \<Rightarrow> playout" where
  "playout_step p (Assign r) = (case set_fps r p of Some q \<Rightarrow> q | None \<Rightarrow> p)"
| "playout_step p (Flush h) = flush_output h p"
| "playout_step p Bind = (if po_bound p then p else case bind_output p of Some q \<Rightarrow> q | None \<Rightarrow> p)"

fun rate_of :: "media_op \<Rightarrow> real list" where
  "rate_of (SetRate r) = [r]"
| "rate_of x = []"

definition rates_sent :: "playout \<Rightarrow> real list" where
  "rates_sent p = concat (map rate_of (po_sent p))"

definition playout_ok :: "playout \<Rightarrow> bool" where
  "playout_ok p \<longleftrightarrow>
     (\<forall>r. po_fps p = Some r \<longrightarrow> 0 < r)
   \<and> (\<not> po_bound p \<longrightarrow> po_sent p = [])
   \<and> (po_bound p \<longrightarrow> (case po_fps p of Some r \<Rightarrow> rates_sent p \<noteq> [] \<and> last (rates_sent p) = r | None \<Rightarrow> rates_sent p = []))
   \<and> (\<forall>n. po_bound p \<and> po_buffer_size p = Some n \<longrightarrow> 0 < n \<and> SetDepth n \<in> set (po_sent p))"

lemma playout_step_ok: "playout_ok p \<Longrightarrow> playout_ok (playout_step p x)"
  by (cases x)
    (auto simp: playout_ok_def set_fps_def flush_output_def bind_output_def send_op_def rates_sent_def Let_def
      split: option.splits if_splits)

interpretation playout: step_invariant playout_step playout_ok
  by unfold_locales (rule playout_step_ok)

text \<open>
  The consumers play at the model's rate: over any sequence of assignments to
  \<open>self.output.fps\<close>, flushes and the binding of the consumers, in any order, once they are bound
  the last rate they were sent is the rate last assigned, one assigned during \<open>load()\<close>
  included, a rate is never zero or negative, and a declared buffer bound has reached them.
\<close>

theorem settings_reach_consumers:
  assumes "po_bound p" and "p = foldl playout_step \<lparr>po_class_fps = r0, po_fps = None, po_buffer_size = n0, po_bound = False, po_sent = []\<rparr> xs"
  shows "(case po_fps p of Some r \<Rightarrow> rates_sent p \<noteq> [] \<and> last (rates_sent p) = r \<and> 0 < r | None \<Rightarrow> rates_sent p = [])
    \<and> (\<forall>n. po_buffer_size p = Some n \<longrightarrow> 0 < n \<and> SetDepth n \<in> set (po_sent p))"
proof -
  have "playout_ok p"
    unfolding assms(2) by (rule playout.run_keeps) (simp add: playout_ok_def)
  then show ?thesis
    using assms(1) by (auto simp: playout_ok_def split: option.splits)
qed

theorem settings_reach_consumers_witness:
  "po_sent (foldl playout_step \<lparr>po_class_fps = 30, po_fps = None, po_buffer_size = Some 4, po_bound = False, po_sent = []\<rparr>
      [Assign 24, Bind, Assign 0, Flush True]) = [SetDepth 4, SetRate 24, FlushMedia True]
   \<and> last (rates_sent (foldl playout_step \<lparr>po_class_fps = 30, po_fps = None, po_buffer_size = Some 4, po_bound = False, po_sent = []\<rparr>
      [Assign 24, Bind, Assign 0, Flush True])) = 24"
  using settings_reach_consumers [OF _ refl, of 30 "Some 4" "[Assign 24, Bind, Assign 0, Flush True]"]
  by (simp add: set_fps_def bind_output_def flush_output_def send_op_def)

section \<open>The end of the model's thread\<close>

text \<open>
  \<open>_lifecycle\<close> and \<open>crash\<close>. \<open>run()\<close> returns, is cancelled, raises an \<open>Exception\<close>, or exits with
  another \<open>BaseException\<close> (\<open>SystemExit\<close>, \<open>KeyboardInterrupt\<close>), which the two handlers let through, so
  that the lifecycle is left without its last read (\<open>Gone\<close>). \<open>lf_cancel\<close> says that a cancellation of
  the loop's task is on its way; \<open>Ended\<close> carries what \<open>run()\<close> raised, if it raised.
\<close>

datatype 'e model_end = Returns | Cancelled | Raises 'e | Exits

datatype 'e life_phase = NotStarted | Running | Ended "'e option" | Over | Gone

record 'e lifecycle =
  lf_phase :: "'e life_phase"
  lf_crash :: "'e option"
  lf_closed :: bool
  lf_cancel :: bool
  lf_reported :: "'e list"

definition new_lifecycle :: "'e lifecycle" where
  "new_lifecycle = \<lparr>lf_phase = NotStarted, lf_crash = None, lf_closed = False, lf_cancel = False, lf_reported = []\<rparr>"

definition crash :: "'e \<Rightarrow> 'e lifecycle \<Rightarrow> 'e lifecycle" where
  "crash e l =
     (if lf_crash l \<noteq> None \<or> lf_closed l then l
      else l\<lparr>lf_crash := Some e, lf_cancel := (lf_cancel l \<or> lf_phase l \<noteq> NotStarted)\<rparr>)"

definition stop :: "'e lifecycle \<Rightarrow> 'e lifecycle" where
  "stop l = (if lf_phase l = Running then l\<lparr>lf_cancel := True\<rparr> else l)"

definition begin_run :: "'e lifecycle \<Rightarrow> 'e lifecycle" where
  "begin_run l =
     (if lf_phase l = NotStarted
      then l\<lparr>lf_phase := (if lf_crash l \<noteq> None then Ended None else Running)\<rparr> else l)"

definition run_ends :: "'e model_end \<Rightarrow> 'e lifecycle \<Rightarrow> 'e lifecycle" where
  "run_ends how l =
     (if lf_phase l \<noteq> Running then l
      else l\<lparr>lf_phase :=
        (case how of Returns \<Rightarrow> Ended None | Cancelled \<Rightarrow> Ended None | Raises x \<Rightarrow> Ended (Some x) | Exits \<Rightarrow> Gone)\<rparr>)"

text \<open>The last read of the crash, and the report of how the loop ended.\<close>

definition last_read :: "'e lifecycle \<Rightarrow> 'e lifecycle" where
  "last_read l =
     (case lf_phase l of
        Ended raised \<Rightarrow>
          l\<lparr>lf_closed := True, lf_phase := Over,
            lf_reported := lf_reported l @
              (case lf_crash l of Some e \<Rightarrow> [e] | None \<Rightarrow> (case raised of Some x \<Rightarrow> [x] | None \<Rightarrow> []))\<rparr>
      | _ \<Rightarrow> l)"

datatype 'e life_op = Crash 'e | Stop | BeginRun | RunEnds "'e model_end" | LastRead

fun life_step :: "'e lifecycle \<Rightarrow> 'e life_op \<Rightarrow> 'e lifecycle" where
  "life_step l (Crash e) = crash e l"
| "life_step l Stop = stop l"
| "life_step l BeginRun = begin_run l"
| "life_step l (RunEnds x) = run_ends x l"
| "life_step l LastRead = last_read l"

definition life_ok :: "'e lifecycle \<Rightarrow> bool" where
  "life_ok l \<longleftrightarrow>
     (lf_closed l \<longleftrightarrow> lf_phase l = Over)
   \<and> (lf_phase l \<noteq> Over \<longrightarrow> lf_reported l = [])
   \<and> (lf_phase l = Over \<longrightarrow> (case lf_crash l of Some e \<Rightarrow> lf_reported l = [e] | None \<Rightarrow> length (lf_reported l) \<le> 1))
   \<and> (lf_phase l = Running \<and> lf_crash l \<noteq> None \<longrightarrow> lf_cancel l)"

lemma life_step_ok: "life_ok l \<Longrightarrow> life_ok (life_step l x)"
  by (cases x)
    (auto simp: life_ok_def crash_def stop_def begin_run_def run_ends_def last_read_def
      split: life_phase.splits option.splits if_splits model_end.splits)

interpretation lifecycle: step_invariant life_step life_ok
  by unfold_locales (rule life_step_ok)

lemma crash_kept: "lf_crash l = Some e \<Longrightarrow> lf_crash (foldl life_step l xs) = Some e"
proof (induction xs arbitrary: l)
  case (Cons x xs)
  have "lf_crash (life_step l x) = Some e"
    using Cons.prems
    by (cases x) (auto simp: crash_def stop_def begin_run_def run_ends_def last_read_def split: life_phase.splits option.splits)
  then show ?case
    using Cons.IH by simp
qed simp

lemma crash_phase: "lf_phase (crash e l) = lf_phase l"
  by (simp add: crash_def)

lemma gone_kept: "lf_phase l = Gone \<Longrightarrow> lf_phase (foldl life_step l xs) = Gone \<and> lf_reported (foldl life_step l xs) = lf_reported l"
proof (induction xs arbitrary: l)
  case (Cons x xs)
  have "lf_phase (life_step l x) = Gone \<and> lf_reported (life_step l x) = lf_reported l"
    using Cons.prems by (cases x) (simp_all add: crash_def stop_def begin_run_def run_ends_def last_read_def)
  then show ?case
    using Cons.IH [of "life_step l x"] by simp
qed simp

text \<open>
  C25. The first crash is the one reported, once. A \<open>crash()\<close> that lands before the lifecycle's
  last read, from any thread and in any phase, when no other has, is what the failure sink
  receives, exactly once, when the last read is made: whether \<open>run()\<close> returns, is cancelled or
  raises an \<open>Exception\<close>, and whatever crashes and stops follow; and while \<open>run()\<close> is still going
  its cancellation is on its way. A \<open>run()\<close> that exits with another \<open>BaseException\<close> takes the
  lifecycle with it, and the sink receives nothing.
\<close>

theorem first_crash_reported:
  fixes l :: "'e lifecycle"
  assumes "l = foldl life_step new_lifecycle xs" and "lf_crash l = None" and "lf_phase l \<notin> {Over, Gone}"
    and "l' = foldl life_step l (Crash e # ys)"
  shows "lf_reported l' = (if lf_phase l' = Over then [e] else [])
    \<and> (lf_phase l' = Running \<longrightarrow> lf_cancel l') \<and> (lf_phase l' = Gone \<longrightarrow> RunEnds Exits \<in> set ys)"
proof -
  have start: "life_ok (new_lifecycle :: 'e lifecycle)"
    by (simp add: life_ok_def new_lifecycle_def)
  have ok: "life_ok l"
    unfolding assms(1) by (rule lifecycle.run_keeps [OF start])
  then have ok': "life_ok l'"
    unfolding assms(4) by (rule lifecycle.run_keeps)
  have "lf_crash (life_step l (Crash e)) = Some e"
    using assms(2,3) ok by (simp add: crash_def life_ok_def)
  then have "lf_crash l' = Some e"
    using assms(4) crash_kept by auto
  moreover have "RunEnds Exits \<in> set zs" if "lf_phase k \<noteq> Gone" "lf_phase (foldl life_step k zs) = Gone" for k :: "'e lifecycle" and zs
    using that
  proof (induction zs arbitrary: k)
    case (Cons z zs)
    show ?case
    proof (cases "lf_phase (life_step k z) = Gone")
      case True
      then have "z = RunEnds Exits"
        using Cons.prems(1)
        by (cases z) (auto simp: crash_def stop_def begin_run_def run_ends_def last_read_def
            split: if_splits life_phase.splits model_end.splits)
      then show ?thesis
        by simp
    next
      case False
      then show ?thesis
        using Cons.IH [of "life_step k z"] Cons.prems(2) by simp
    qed
  qed simp
  then have "lf_phase l' = Gone \<longrightarrow> RunEnds Exits \<in> set ys"
    using assms(3,4) by (metis crash_phase foldl_Cons insertCI life_step.simps(1))
  ultimately show ?thesis
    using ok' by (auto simp: life_ok_def split: option.splits)
qed

theorem first_crash_reported_witness:
  "lf_reported (foldl life_step new_lifecycle [BeginRun, Crash ''lost'', RunEnds (Raises ''late''), Crash ''other'', LastRead]) = [''lost'']"
  using first_crash_reported [of "foldl life_step new_lifecycle [BeginRun]" "[BeginRun]" _ "''lost''"
      "[RunEnds (Raises ''late''), Crash ''other'', LastRead]", OF refl _ _ refl]
  by (simp add: new_lifecycle_def begin_run_def crash_def run_ends_def last_read_def)

text \<open>
  The documentation of \<open>_lifecycle\<close> has anything but a cancellation that \<open>run()\<close> raises reported, and
  a recorded crash however \<open>run()\<close> ended. After an exit neither is: from then on nothing ever
  reaches the sink, a crash recorded before it included.
\<close>

theorem exit_reports_nothing:
  assumes "l = foldl life_step new_lifecycle xs" and "lf_phase l = Running"
  shows "lf_reported (foldl life_step l (RunEnds Exits # ys)) = []"
proof -
  have "life_ok l"
    unfolding assms(1) by (rule lifecycle.run_keeps) (simp add: life_ok_def new_lifecycle_def)
  then have "lf_reported l = []"
    using assms(2) by (simp add: life_ok_def)
  then show ?thesis
    using assms(2) gone_kept [of "run_ends Exits l" ys] by (simp add: run_ends_def)
qed

end
