(* ===== verification/BatchPolicy.thy ===== *)
theory BatchPolicy
  imports Prelude
begin

text \<open>
  The batching policy of the model server, \<^verbatim>\<open>model_server/batching.py\<close>. Times are
  real numbers (Python's floats without rounding). Requests compare by identity in the code; the
  requests a turn expires are exactly the waiting ones whose deadline has passed, so removing the
  same objects is filtering by the same condition.
\<close>

record 'p waiting =
  wt_connection :: int
  wt_request_id :: int
  wt_payload :: 'p
  wt_arrived :: real
  wt_deadline :: "real option"
  wt_order :: int

record 'p turn =
  tn_batch :: "'p waiting list"
  tn_expired :: "'p waiting list"
  tn_wake_at :: "real option"

record 'p batch_policy =
  bp_max_batch :: int
  bp_window :: real
  bp_waiting :: "'p waiting list"
  bp_busy :: "int set"
  bp_order :: int

definition init_policy :: "int \<Rightarrow> real \<Rightarrow> 'p batch_policy" where
  "init_policy max_batch batch_window =
     \<lparr>bp_max_batch = max_batch, bp_window = batch_window, bp_waiting = [], bp_busy = {}, bp_order = 0\<rparr>"

definition add :: "'p batch_policy \<Rightarrow> 'p waiting \<Rightarrow> 'p batch_policy \<times> bool" where
  "add p request =
     (if wt_connection request \<in> bp_busy p then (p, False)
      else (p\<lparr>bp_order := bp_order p + 1,
               bp_busy := insert (wt_connection request) (bp_busy p),
               bp_waiting := bp_waiting p @ [request\<lparr>wt_order := bp_order p\<rparr>]\<rparr>, True))"

fun remove_first :: "int \<Rightarrow> int \<Rightarrow> 'p waiting list \<Rightarrow> 'p waiting list option" where
  "remove_first c rid [] = None"
| "remove_first c rid (r # rs) =
     (if wt_connection r = c \<and> wt_request_id r = rid then Some rs
      else map_option (\<lambda>rs'. r # rs') (remove_first c rid rs))"

definition cancel :: "'p batch_policy \<Rightarrow> int \<Rightarrow> int \<Rightarrow> 'p batch_policy \<times> bool" where
  "cancel p connection request_id =
     (case remove_first connection request_id (bp_waiting p) of
        Some rest \<Rightarrow> (p\<lparr>bp_waiting := rest, bp_busy := bp_busy p - {connection}\<rparr>, True)
      | None \<Rightarrow> (p, False))"

definition drop_connection :: "'p batch_policy \<Rightarrow> int \<Rightarrow> 'p batch_policy \<times> 'p waiting list" where
  "drop_connection p connection =
     (p\<lparr>bp_waiting := filter (\<lambda>r. wt_connection r \<noteq> connection) (bp_waiting p),
        bp_busy := bp_busy p - {connection}\<rparr>,
      filter (\<lambda>r. wt_connection r = connection) (bp_waiting p))"

definition finished :: "'p batch_policy \<Rightarrow> int list \<Rightarrow> 'p batch_policy" where
  "finished p connections = p\<lparr>bp_busy := bp_busy p - set connections\<rparr>"

definition waiting_count :: "'p batch_policy \<Rightarrow> nat" where
  "waiting_count p = length (bp_waiting p)"

definition overdue :: "real \<Rightarrow> 'p waiting \<Rightarrow> bool" where
  "overdue now r \<longleftrightarrow> (case wt_deadline r of None \<Rightarrow> False | Some d \<Rightarrow> d \<le> now)"

definition deadlines :: "'p waiting list \<Rightarrow> real list" where
  "deadlines rs = List.map_filter wt_deadline rs"

definition expire_waiting :: "'p batch_policy \<Rightarrow> real \<Rightarrow> 'p batch_policy \<times> 'p waiting list" where
  "expire_waiting p now =
     (let expired = filter (overdue now) (bp_waiting p)
      in (if expired \<noteq> []
          then p\<lparr>bp_waiting := filter (\<lambda>r. \<not> overdue now r) (bp_waiting p),
                 bp_busy := bp_busy p - wt_connection ` set expired\<rparr>
          else p, expired))"

definition batch_full :: "'p batch_policy \<Rightarrow> int \<Rightarrow> bool" where
  "batch_full p open_sessions \<longleftrightarrow>
     (let running = int (card (bp_busy p)) - int (card (wt_connection ` set (bp_waiting p)))
      in int (length (bp_waiting p)) \<ge> min (bp_max_batch p) (max (open_sessions - running) 1))"

definition take_turn :: "'p batch_policy \<Rightarrow> real \<Rightarrow> int \<Rightarrow> 'p batch_policy \<times> 'p turn" where
  "take_turn p now open_sessions =
     (let (p1, expired) = expire_waiting p now
      in case bp_waiting p1 of
           [] \<Rightarrow> (p1, \<lparr>tn_batch = [], tn_expired = expired, tn_wake_at = None\<rparr>)
         | first # _ \<Rightarrow>
             let until = wt_arrived first + bp_window p1
             in if \<not> batch_full p1 open_sessions \<and> now < until
                then (p1, \<lparr>tn_batch = [], tn_expired = expired,
                           tn_wake_at = Some (Min (set (until # deadlines (bp_waiting p1))))\<rparr>)
                else (p1\<lparr>bp_waiting := drop (nat (bp_max_batch p1)) (bp_waiting p1)\<rparr>,
                      \<lparr>tn_batch = take (nat (bp_max_batch p1)) (bp_waiting p1),
                       tn_expired = expired, tn_wake_at = None\<rparr>))"

lemmas policy_defs =
  add_def cancel_def drop_connection_def finished_def take_turn_def expire_waiting_def
  batch_full_def overdue_def deadlines_def

section \<open>Runs and the invariant\<close>

datatype 'p policy_call =
    Add "'p waiting" | Cancel int int | Drop int | Finished "int list" | Take real int

fun policy_step :: "'p batch_policy \<Rightarrow> 'p policy_call \<Rightarrow> 'p batch_policy" where
  "policy_step p (Add r) = fst (add p r)"
| "policy_step p (Cancel c rid) = fst (cancel p c rid)"
| "policy_step p (Drop c) = fst (drop_connection p c)"
| "policy_step p (Finished cs) = finished p cs"
| "policy_step p (Take now n) = fst (take_turn p now n)"

text \<open>
  The server releases a session only when its request ran (a request dropped or reset while it
  ran is detached and never released), so \<open>finished\<close> never names a session that still waits.
\<close>

fun releases_running :: "'p batch_policy \<Rightarrow> 'p policy_call \<Rightarrow> bool" where
  "releases_running p (Finished cs) = (set cs \<inter> wt_connection ` set (bp_waiting p) = {})"
| "releases_running p _ = True"

fun disciplined :: "'p batch_policy \<Rightarrow> 'p policy_call list \<Rightarrow> bool" where
  "disciplined p [] = True"
| "disciplined p (c # cs) = (releases_running p c \<and> disciplined (policy_step p c) cs)"

definition policy_ok :: "'p batch_policy \<Rightarrow> bool" where
  "policy_ok p \<longleftrightarrow>
     distinct (map wt_connection (bp_waiting p)) \<and>
     wt_connection ` set (bp_waiting p) \<subseteq> bp_busy p \<and>
     finite (bp_busy p) \<and>
     sorted_wrt (<) (map wt_order (bp_waiting p)) \<and>
     (\<forall>r \<in> set (bp_waiting p). wt_order r < bp_order p)"

lemma remove_first_Some:
  assumes "remove_first c rid rs = Some rest"
  obtains us r vs where "rs = us @ r # vs" "rest = us @ vs" "wt_connection r = c" "wt_request_id r = rid"
  using assms
proof (induction rs arbitrary: rest thesis)
  case (Cons x xs)
  show ?case
  proof (cases "wt_connection x = c \<and> wt_request_id x = rid")
    case True
    with Cons.prems show ?thesis by (metis append_Nil option.inject remove_first.simps(2))
  next
    case False
    with Cons.prems(2) obtain rest' where "remove_first c rid xs = Some rest'" "rest = x # rest'"
      by auto
    with Cons.IH obtain us r vs where "xs = us @ r # vs" "rest' = us @ vs" "wt_connection r = c"
      "wt_request_id r = rid" by metis
    with \<open>rest = x # rest'\<close> Cons.prems(1) [of "x # us" r vs] show ?thesis by simp
  qed
qed simp

lemma filter_policy_ok:
  assumes "policy_ok p" "B \<subseteq> bp_busy p" "wt_connection ` set (filter P (bp_waiting p)) \<subseteq> B"
  shows "policy_ok (p\<lparr>bp_waiting := filter P (bp_waiting p), bp_busy := B\<rparr>)"
  using assms
  by (auto simp: policy_ok_def sorted_wrt_map distinct_map_filter finite_subset intro: sorted_wrt_filter)

definition live_requests :: "'p batch_policy \<Rightarrow> real \<Rightarrow> 'p waiting list" where
  "live_requests p now = filter (\<lambda>r. \<not> overdue now r) (bp_waiting p)"

lemma expire_waiting_eq:
  "expire_waiting p now =
     (p\<lparr>bp_waiting := live_requests p now,
        bp_busy := bp_busy p - wt_connection ` set (filter (overdue now) (bp_waiting p))\<rparr>,
      filter (overdue now) (bp_waiting p))"
proof (cases "filter (overdue now) (bp_waiting p) = []")
  case True
  then have "live_requests p now = bp_waiting p"
    by (auto simp: live_requests_def filter_empty_conv filter_id_conv)
  with True show ?thesis
    by (simp add: expire_waiting_def)
qed (simp add: expire_waiting_def live_requests_def)

lemma expire_waiting_ok: "policy_ok p \<Longrightarrow> policy_ok (fst (expire_waiting p now))"
proof -
  assume ok: "policy_ok p"
  have "wt_connection x \<noteq> wt_connection y"
    if "x \<in> set (bp_waiting p)" "\<not> overdue now x" "y \<in> set (bp_waiting p)" "overdue now y" for x y
    using ok that by (auto simp: policy_ok_def distinct_map dest: inj_onD)
  then show ?thesis
    using ok unfolding expire_waiting_eq fst_conv live_requests_def
    by (intro filter_policy_ok) (auto simp: policy_ok_def)
qed

lemma drop_policy_ok: "policy_ok p \<Longrightarrow> policy_ok (p\<lparr>bp_waiting := drop k (bp_waiting p)\<rparr>)"
  by (auto simp: policy_ok_def drop_map [symmetric] distinct_drop sorted_wrt_drop dest: in_set_dropD)

lemma take_turn_ok: "policy_ok p \<Longrightarrow> policy_ok (fst (take_turn p now n))"
  using expire_waiting_ok [of p now] drop_policy_ok
  by (auto simp: take_turn_def split_beta Let_def split: list.splits)

lemma add_ok: "policy_ok p \<Longrightarrow> policy_ok (fst (add p r))"
  by (auto simp: policy_ok_def add_def sorted_wrt_append image_subset_iff less_Suc_eq)

lemma cancel_ok: "policy_ok p \<Longrightarrow> policy_ok (fst (cancel p c rid))"
  by (auto simp: policy_ok_def cancel_def sorted_wrt_append image_subset_iff
      elim!: remove_first_Some split: option.splits) (metis imageI)+

lemma drop_connection_ok: "policy_ok p \<Longrightarrow> policy_ok (fst (drop_connection p c))"
  unfolding drop_connection_def fst_conv
  by (rule filter_policy_ok) (auto simp: policy_ok_def)

lemma policy_step_ok: "policy_ok p \<Longrightarrow> releases_running p c \<Longrightarrow> policy_ok (policy_step p c)"
proof (cases c)
  case (Finished cs)
  assume "policy_ok p" "releases_running p c"
  with Finished show ?thesis
    by (auto simp: policy_ok_def finished_def)
qed (simp_all add: add_ok cancel_ok drop_connection_ok take_turn_ok)

lemma policy_run_ok: "policy_ok p \<Longrightarrow> disciplined p cs \<Longrightarrow> policy_ok (foldl policy_step p cs)"
  by (induction cs arbitrary: p) (simp_all add: policy_step_ok)

section \<open>Properties\<close>

text \<open>
  One request per session, in arrival order: over any run of the policy in which only
  running sessions are released, no session ever has two requests waiting, every waiting session
  is busy (so a second \<open>add\<close> for it is refused), and the queue is in arrival order.
\<close>

theorem one_request_per_session:
  assumes "disciplined (init_policy mb w) cs"
  shows "let p = foldl policy_step (init_policy mb w) cs in
    distinct (map wt_connection (bp_waiting p)) \<and>
    (\<forall>r. wt_connection r \<in> wt_connection ` set (bp_waiting p) \<longrightarrow> add p r = (p, False)) \<and>
    sorted_wrt (<) (map wt_order (bp_waiting p))"
  using policy_run_ok [OF _ assms]
  by (auto simp: policy_ok_def init_policy_def add_def Let_def)

text \<open>A request used by the witnesses.\<close>

definition sample_request :: "int \<Rightarrow> real \<Rightarrow> real option \<Rightarrow> unit waiting" where
  "sample_request c t d = \<lparr>wt_connection = c, wt_request_id = 1, wt_payload = (), wt_arrived = t,
     wt_deadline = d, wt_order = 0\<rparr>"

theorem one_request_per_session_witness:
  "distinct (map wt_connection (bp_waiting (foldl policy_step (init_policy 2 1)
      [Add (sample_request 7 0 None), Add (sample_request 7 1 None), Add (sample_request 8 1 None),
       Finished []])))"
  using one_request_per_session [of 2 1 "[Add (sample_request 7 0 None), Add (sample_request 7 1 None),
      Add (sample_request 8 1 None), Finished []]"]
  by (simp add: Let_def)

lemma take_turn_parts:
  "case take_turn p now n of (p', t) \<Rightarrow>
     tn_expired t = filter (overdue now) (bp_waiting p) \<and>
     tn_batch t @ bp_waiting p' = filter (\<lambda>r. \<not> overdue now r) (bp_waiting p) \<and>
     length (tn_batch t) \<le> nat (bp_max_batch p) \<and>
     wt_connection ` set (tn_expired t) \<inter> bp_busy p' = {}"
  by (auto simp: take_turn_def expire_waiting_eq live_requests_def Let_def split: list.splits)

text \<open>
  What a turn does with the queue: the expired requests are exactly the overdue ones, the
  batch is an arrival-order prefix of the rest, of at most \<open>max_batch\<close> requests and with no
  overdue one, and what stays queued is the remainder in order.
\<close>

theorem take_turn_partitions:
  "case take_turn p now n of (p', t) \<Rightarrow>
     tn_expired t = filter (overdue now) (bp_waiting p) \<and>
     tn_batch t @ bp_waiting p' = filter (\<lambda>r. \<not> overdue now r) (bp_waiting p) \<and>
     length (tn_batch t) \<le> nat (bp_max_batch p) \<and>
     wt_connection ` set (tn_expired t) \<inter> bp_busy p' = {}"
  by (rule take_turn_parts)

lemma deadlines_live:
  "d \<in> set (deadlines (live_requests p now)) \<Longrightarrow> now < d"
  by (auto simp: deadlines_def live_requests_def List.map_filter_def overdue_def split: option.splits)

text \<open>
  A batch is never held past its window: when a live request waits, a turn either takes a
  non-empty batch, or the batch is not full, the first request's window is still open, and the
  turn asks to be woken strictly later than now and no later than the end of that window. A full
  batch, or a window that has run out, is always taken.
\<close>

theorem take_turn_progress:
  assumes "1 \<le> bp_max_batch p" and "filter (\<lambda>r. \<not> overdue now r) (bp_waiting p) = first # rest"
  shows "case take_turn p now n of (p', t) \<Rightarrow>
     (tn_batch t \<noteq> [] \<and> tn_wake_at t = None) \<or>
     (tn_batch t = [] \<and> \<not> batch_full (fst (expire_waiting p now)) n \<and>
      (\<exists>w. tn_wake_at t = Some w \<and> now < w \<and> w \<le> wt_arrived first + bp_window p))"
proof -
  have live: "live_requests p now = first # rest"
    using assms(2) by (simp add: live_requests_def)
  let ?ds = "set ((wt_arrived first + bp_window p) # deadlines (first # rest))"
  have "Min ?ds \<le> wt_arrived first + bp_window p"
    by (rule Min_le) simp_all
  moreover have "now < Min ?ds" if "now < wt_arrived first + bp_window p"
    using that deadlines_live [of _ p now] by (subst Min_gr_iff) (auto simp: live)
  moreover have "take (nat (bp_max_batch p)) (first # rest) \<noteq> []"
    using assms(1) by simp
  ultimately show ?thesis
    by (auto simp: take_turn_def expire_waiting_eq live Let_def)
qed

theorem take_turn_progress_witness:
  "case take_turn (foldl policy_step (init_policy 4 10) [Add (sample_request 7 0 None)]) 5 2 of
     (p', t) \<Rightarrow> tn_batch t \<noteq> [] \<or> (\<exists>w. tn_wake_at t = Some w \<and> 5 < w \<and> w \<le> 10)"
  using take_turn_progress
    [of "foldl policy_step (init_policy 4 10) [Add (sample_request 7 0 None)]" 5
        "sample_request 7 0 None" "[]" 2]
  by (auto simp: add_def init_policy_def sample_request_def overdue_def split: prod.splits)

end
