(* ===== verification/Stages.thy ===== *)
theory Stages
  imports Values
begin

text \<open>
  Stage timing: the per-window totals of \<^verbatim>\<open>core/stages.py\<close> and the runner's use of
  them in \<^verbatim>\<open>runner/stages.py\<close>. A total is a real number; a measurement handed to
  \<open>add\<close> is a Python float and may be infinite or not a number.
\<close>

section \<open>Totals over a window\<close>

record 'k stage_totals =
  sg_order :: "(string, nat) dict"
  sg_totals :: "('k \<times> string, real \<times> int) dict"

definition init_totals :: "string list \<Rightarrow> 'k stage_totals" where
  "init_totals order =
     \<lparr>sg_order = dict_of (zip order [0..<length order]), sg_totals = []\<rparr>"

fun no_measurement :: "pyfloat \<Rightarrow> bool" where
  "no_measurement (Finite ms) = (ms < 0)"
| "no_measurement _ = True"

fun float_value :: "pyfloat \<Rightarrow> real" where
  "float_value (Finite ms) = ms"
| "float_value _ = 0"

definition stage_add ::
  "'k stage_totals \<Rightarrow> 'k \<Rightarrow> string \<Rightarrow> pyfloat \<Rightarrow> int \<Rightarrow> 'k stage_totals" where
  "stage_add st key stage ms count =
     (if count < 1 \<or> no_measurement ms then st
      else
        let (tot, counted) = (case dict_get (sg_totals st) (key, stage) of None \<Rightarrow> (0, 0) | Some p \<Rightarrow> p)
        in st\<lparr>sg_totals := dict_set (key, stage) (tot + float_value ms, counted + count) (sg_totals st)\<rparr>)"

definition group_stage ::
  "('k, (string \<times> real \<times> int) list) dict \<Rightarrow> ('k \<times> string) \<times> real \<times> int
     \<Rightarrow> ('k, (string \<times> real \<times> int) list) dict" where
  "group_stage out entry =
     (case entry of ((key, stage), tot, count) \<Rightarrow>
        dict_set key ((case dict_get out key of None \<Rightarrow> [] | Some found \<Rightarrow> found) @ [(stage, tot, count)]) out)"

definition stage_rank :: "(string, nat) dict \<Rightarrow> string \<times> real \<times> int \<Rightarrow> nat" where
  "stage_rank order s = (case dict_get order (fst s) of None \<Rightarrow> length order | Some i \<Rightarrow> i)"

definition stage_take ::
  "'k stage_totals \<Rightarrow> 'k list option \<Rightarrow> 'k stage_totals \<times> ('k, (string \<times> real \<times> int) list) dict" where
  "stage_take st keys =
     (let wanted = (\<lambda>k. case keys of None \<Rightarrow> True | Some ks \<Rightarrow> k \<in> set ks);
          totals = filter (\<lambda>e. wanted (fst (fst e))) (sg_totals st);
          rest = filter (\<lambda>e. \<not> wanted (fst (fst e))) (sg_totals st);
          out = foldl group_stage [] totals
      in (st\<lparr>sg_totals := rest\<rparr>,
          map (\<lambda>(k, found). (k, sort_key (stage_rank (sg_order st)) found)) out))"

definition stage_clear :: "'k stage_totals \<Rightarrow> 'k stage_totals" where
  "stage_clear st = st\<lparr>sg_totals := []\<rparr>"

section \<open>The runner's stages\<close>

definition MESSAGE_STAGES :: "string list" where
  "MESSAGE_STAGES = [''dispatch'', ''start_wait'', ''parse'', ''model_queue'', ''lock_wait'', ''handler'']"

definition MESSAGE_PARTS :: "(string, string) dict" where
  "MESSAGE_PARTS = [(''start_wait'', ''dispatch''), (''parse'', ''dispatch''),
     (''model_queue'', ''dispatch''), (''lock_wait'', ''dispatch'')]"

definition FRAME_STAGES :: "string list" where
  "FRAME_STAGES = [''input_wait'', ''process_input'', ''generate'', ''process_output'']"

record command_times =
  ct_received_at :: real
  ct_submitted_at :: "real option"
  ct_held_ms :: real
  ct_taken :: real
  ct_started :: real
  ct_finished :: real

definition command_stages :: "command_times \<Rightarrow> (string, real) dict" where
  "command_stages t =
     [(''dispatch'', (ct_started t - ct_received_at t) * 1000)] @
     (case ct_submitted_at t of
        None \<Rightarrow> []
      | Some submitted \<Rightarrow>
          [(''start_wait'', ct_held_ms t),
           (''parse'', (submitted - ct_received_at t) * 1000 - ct_held_ms t),
           (''model_queue'', (ct_taken t - submitted) * 1000)]) @
     [(''lock_wait'', (ct_started t - ct_taken t) * 1000),
      (''handler'', (ct_finished t - ct_started t) * 1000)]"

record runner_stages =
  rs_messages :: "conn_id stage_totals"
  rs_frames :: "(conn_id \<times> string) stage_totals"

definition init_runner_stages :: runner_stages where
  "init_runner_stages = \<lparr>rs_messages = init_totals MESSAGE_STAGES, rs_frames = init_totals FRAME_STAGES\<rparr>"

definition add_message :: "runner_stages \<Rightarrow> conn_id \<Rightarrow> string \<Rightarrow> pyfloat \<Rightarrow> runner_stages" where
  "add_message r cid stage ms = r\<lparr>rs_messages := stage_add (rs_messages r) cid stage ms 1\<rparr>"

definition add_command :: "runner_stages \<Rightarrow> conn_id \<Rightarrow> command_times \<Rightarrow> runner_stages" where
  "add_command r cid tms =
     r\<lparr>rs_messages := foldl (\<lambda>st (stage, ms). stage_add st cid stage (Finite ms) 1)
         (rs_messages r) (command_stages tms)\<rparr>"

definition add_frame :: "runner_stages \<Rightarrow> conn_id \<Rightarrow> string \<Rightarrow> string \<Rightarrow> pyfloat \<Rightarrow> runner_stages" where
  "add_frame r cid track stage ms = r\<lparr>rs_frames := stage_add (rs_frames r) (cid, track) stage ms 1\<rparr>"

definition add_step ::
  "runner_stages \<Rightarrow> conn_id list \<Rightarrow> string list \<Rightarrow> (string, pyfloat) dict \<Rightarrow> runner_stages" where
  "add_step r conn_ids tracks stages =
     r\<lparr>rs_frames := foldl (\<lambda>st cid. foldl (\<lambda>st track. foldl (\<lambda>st (stage, ms).
          stage_add st (cid, track) stage ms 1) st stages) st tracks) (rs_frames r) conn_ids\<rparr>"

definition reset_stages :: "runner_stages \<Rightarrow> runner_stages" where
  "reset_stages r =
     r\<lparr>rs_messages := stage_clear (rs_messages r), rs_frames := stage_clear (rs_frames r)\<rparr>"

definition message_entry :: "string \<times> real \<times> int \<Rightarrow> message_stage" where
  "message_entry f = (case f of (name, tot, count) \<Rightarrow>
     \<lparr>ms_name = name, ms_total_ms = tot, ms_messages = count,
      ms_part_of = (case dict_get MESSAGE_PARTS name of None \<Rightarrow> '''' | Some p \<Rightarrow> p)\<rparr>)"

definition frame_entry :: "string \<times> real \<times> int \<Rightarrow> frame_stage" where
  "frame_entry f = (case f of (name, tot, count) \<Rightarrow>
     \<lparr>fs_name = name, fs_total_ms = tot, fs_frames = count, fs_part_of = ''''\<rparr>)"

definition merge_reading ::
  "(conn_id, (string \<times> real \<times> int) list) dict \<Rightarrow> (conn_id \<times> string, (string \<times> real \<times> int) list) dict
     \<Rightarrow> conn_id \<times> transport_reading \<Rightarrow> conn_id \<times> transport_reading" where
  "merge_reading messages frames cr =
     (case cr of (cid, reading) \<Rightarrow>
        let reading1 =
              (case dict_get messages cid of
                 Some (f # fs) \<Rightarrow>
                   reading\<lparr>rd_message_stages := rd_message_stages reading @ map message_entry (f # fs)\<rparr>
               | _ \<Rightarrow> reading);
            reading2 =
              (if \<exists>track \<in> set (rd_tracks reading1). dict_get frames (cid, rt_track_name track) \<noteq> None
               then reading1\<lparr>rd_tracks := map (\<lambda>track. track\<lparr>rt_frame_stages :=
                      rt_frame_stages track @ map frame_entry
                        (case dict_get frames (cid, rt_track_name track) of None \<Rightarrow> [] | Some f \<Rightarrow> f)\<rparr>)
                      (rd_tracks reading1)\<rparr>
               else reading1)
        in (cid, reading2))"

definition merge ::
  "runner_stages \<Rightarrow> (conn_id \<times> transport_reading) list
     \<Rightarrow> runner_stages \<times> (conn_id \<times> transport_reading) list" where
  "merge r readings =
     (let (ms, messages) = stage_take (rs_messages r) (Some (map fst readings));
          (fs, frames) = stage_take (rs_frames r)
            (Some (concat (map (\<lambda>(cid, reading).
               map (\<lambda>track. (cid, rt_track_name track)) (rd_tracks reading)) readings)))
      in (r\<lparr>rs_messages := ms, rs_frames := fs\<rparr>, map (merge_reading messages frames) readings))"

section \<open>Totals: lemmas\<close>

definition totals_ok :: "'k stage_totals \<Rightarrow> bool" where
  "totals_ok st \<longleftrightarrow> wf_dict (sg_totals st) \<and> (\<forall>v \<in> snd ` set (sg_totals st). 0 \<le> fst v \<and> 1 \<le> snd v)"

lemma set_dict_set: "snd ` set (dict_set k p d) \<subseteq> insert p (snd ` set d)"
  by (induction d) auto

lemma stage_add_ok: "totals_ok st \<Longrightarrow> totals_ok (stage_add st k s ms c)"
proof (cases "c < 1 \<or> no_measurement ms")
  case False
  assume ok: "totals_ok st"
  obtain v where v: "ms = Finite v" "0 \<le> v" using False by (cases ms) auto
  define p where "p = (case dict_get (sg_totals st) (k, s) of None \<Rightarrow> (0, 0) | Some p \<Rightarrow> p)"
  have old: "0 \<le> fst q \<and> 1 \<le> snd q" if "dict_get (sg_totals st) (k, s) = Some q" for q
    using ok map_of_SomeD [OF that] by (force simp: totals_ok_def)
  have p: "0 \<le> fst p \<and> 0 \<le> snd p"
    using old by (force simp: p_def split: option.splits)
  have eq: "stage_add st k s ms c =
      st\<lparr>sg_totals := dict_set (k, s) (fst p + v, snd p + c) (sg_totals st)\<rparr>"
    using False v by (simp add: stage_add_def p_def Let_def split_beta)
  show ?thesis
    using ok p False v(2) set_dict_set [of "(k, s)" "(fst p + v, snd p + c)" "sg_totals st"]
    unfolding totals_ok_def eq by (fastforce simp: dict_simps)
qed (simp add: stage_add_def)

text \<open>Grouping collects, for each key, the stages of its entries in order.\<close>

definition stages_of :: "'k \<Rightarrow> (('k \<times> string) \<times> real \<times> int) list \<Rightarrow> (string \<times> real \<times> int) list" where
  "stages_of k es = map (\<lambda>e. (snd (fst e), snd e)) (filter (\<lambda>e. fst (fst e) = k) es)"

lemma group_stages_acc:
  "wf_dict out \<Longrightarrow> wf_dict (foldl group_stage out es) \<and>
   dict_get (foldl group_stage out es) k =
     (if dict_get out k = None \<and> stages_of k es = [] then None
      else Some ((case dict_get out k of None \<Rightarrow> [] | Some f \<Rightarrow> f) @ stages_of k es))"
proof (induction es arbitrary: out)
  case (Cons e es)
  obtain key stage tot cnt where e: "e = ((key, stage), tot, cnt)"
    by (metis prod.exhaust)
  have "wf_dict (group_stage out e)"
    using Cons.prems by (simp add: e group_stage_def dict_simps)
  from Cons.IH [OF this] show ?case
    by (auto simp: e group_stage_def dict_simps stages_of_def split: option.splits)
qed (auto simp: stages_of_def split: option.splits)

lemmas group_stages = group_stages_acc [of "[]", simplified]

lemma dict_get_map_values: "dict_get (map (\<lambda>(k, v). (k, f v)) d) k = map_option f (dict_get d k)"
  by (induction d) auto

abbreviation wanted_key :: "'k list option \<Rightarrow> 'k \<Rightarrow> bool" where
  "wanted_key keys k \<equiv> (case keys of None \<Rightarrow> True | Some ks \<Rightarrow> k \<in> set ks)"

lemma stages_of_filter:
  "stages_of k (filter (\<lambda>e. P (fst (fst e))) es) = (if P k then stages_of k es else [])"
  by (induction es) (auto simp: stages_of_def)

lemma stage_take_get:
  "dict_get (snd (stage_take st keys)) k =
     (if wanted_key keys k \<and> stages_of k (sg_totals st) \<noteq> []
      then Some (sort_key (stage_rank (sg_order st)) (stages_of k (sg_totals st))) else None)"
proof -
  have "stages_of k (filter (\<lambda>e. wanted_key keys (fst (fst e))) (sg_totals st)) =
      (if wanted_key keys k then stages_of k (sg_totals st) else [])"
    by (rule stages_of_filter)
  then show ?thesis
    using group_stages [of "filter (\<lambda>e. wanted_key keys (fst (fst e))) (sg_totals st)" k]
    by (simp add: stage_take_def Let_def dict_get_map_values)
qed

lemma stage_take_rest:
  "sg_totals (fst (stage_take st keys)) = filter (\<lambda>e. \<not> wanted_key keys (fst (fst e))) (sg_totals st)"
  "sg_order (fst (stage_take st keys)) = sg_order st"
  by (simp_all add: stage_take_def Let_def)

lemma dict_get_filter_key:
  "dict_get (filter (\<lambda>e. P (fst e)) d) k = (if P k then dict_get d k else None)"
  by (induction d) auto

lemma stage_take_rest_get:
  "dict_get (sg_totals (fst (stage_take st keys))) (k, s) =
     (if wanted_key keys k then None else dict_get (sg_totals st) (k, s))"
  using dict_get_filter_key [of "\<lambda>ks. \<not> wanted_key keys (fst ks)" "sg_totals st" "(k, s)"]
  by (cases keys) (simp_all add: stage_take_rest)

section \<open>Properties\<close>

text \<open>
  A take reports and restarts: for every wanted key the report holds each of its stages
  with exactly the total and the count recorded since its last take, in the stages' declared
  order, and the stage starts again from nothing; a key that was not asked for is not in the
  report and keeps its totals.
\<close>

theorem stage_take_reports_and_restarts:
  assumes "totals_ok st"
  shows "case stage_take st keys of (st', out) \<Rightarrow>
    (\<forall>k s. if wanted_key keys k
       then dict_get (sg_totals st') (k, s) = None \<and>
            (\<forall>v. (\<exists>found. dict_get out k = Some found \<and> (s, v) \<in> set found)
               \<longleftrightarrow> dict_get (sg_totals st) (k, s) = Some v)
       else dict_get out k = None \<and> dict_get (sg_totals st') (k, s) = dict_get (sg_totals st) (k, s)) \<and>
    (\<forall>k found. dict_get out k = Some found \<longrightarrow> sorted (map (stage_rank (sg_order st)) found)) \<and>
    totals_ok st'"
proof -
  have wf: "wf_dict (sg_totals st)" using assms by (simp add: totals_ok_def)
  have mem: "(s, v) \<in> set (stages_of k (sg_totals st)) \<longleftrightarrow> dict_get (sg_totals st) (k, s) = Some v" for k s v
    using wf by (force simp: stages_of_def)
  have ok: "totals_ok (fst (stage_take st keys))"
    using assms by (auto simp: totals_ok_def stage_take_rest distinct_map_filter)
  have nonempty: "stages_of k (sg_totals st) \<noteq> []" if "dict_get (sg_totals st) (k, s) = Some v" for k s v
    using mem [of s v k] that by auto
  show ?thesis
    using ok mem nonempty
    by (auto simp: split_beta stage_take_get stage_take_rest_get)
qed

text \<open>
  The parts of a command add up: for a command that passed through the model's queue, the
  four stages listed as parts of \<open>dispatch\<close> sum to exactly the \<open>dispatch\<close> stage.
\<close>

theorem command_parts_sum_to_dispatch:
  assumes "ct_submitted_at t = Some submitted"
  shows "(\<Sum>s \<leftarrow> dict_keys MESSAGE_PARTS. the (dict_get (command_stages t) s))
    = the (dict_get (command_stages t) ''dispatch'')"
  using assms by (simp add: MESSAGE_PARTS_def command_stages_def algebra_simps)

theorem command_parts_sum_to_dispatch_witness:
  "(\<Sum>s \<leftarrow> dict_keys MESSAGE_PARTS. the (dict_get (command_stages
     \<lparr>ct_received_at = 1, ct_submitted_at = Some 2, ct_held_ms = 300, ct_taken = 4,
      ct_started = 5, ct_finished = 7\<rparr>) s)) = 4000"
  by (subst command_parts_sum_to_dispatch [where submitted = 2]) (simp_all add: command_stages_def)

theorem stage_take_reports_and_restarts_witness:
  "(let st = stage_add (stage_add (init_totals [''a'', ''b'']) (1::int) ''b'' (Finite 2) 1) 1 ''a'' (Finite 3) 2
    in (\<exists>found. dict_get (snd (stage_take st None)) 1 = Some found \<and> (''b'', 2, 1) \<in> set found) \<and>
       dict_get (sg_totals (fst (stage_take st None))) (1, ''b'') = None)"
proof -
  define st where "st = stage_add (stage_add (init_totals [''a'', ''b'']) (1::int) ''b'' (Finite 2) 1) 1 ''a'' (Finite 3) 2"
  have ok: "totals_ok st"
    unfolding st_def by (intro stage_add_ok) (simp add: totals_ok_def init_totals_def)
  have "dict_get (sg_totals st) (1, ''b'') = Some (2, 1)"
    by (simp add: st_def stage_add_def init_totals_def Let_def)
  then show ?thesis
    using stage_take_reports_and_restarts [OF ok, where keys = None]
    by (simp add: split_beta st_def [symmetric])
qed

lemma merge_reading_nothing:
  "dict_get messages (fst cr) = None \<Longrightarrow> (\<And>t. dict_get frames (fst cr, t) = None) \<Longrightarrow>
   merge_reading messages frames cr = cr"
  by (auto simp: merge_reading_def split: prod.splits)

lemma merge_reading_tracks:
  "fst (merge_reading messages frames cr) = fst cr"
  "map rt_track_name (rd_tracks (snd (merge_reading messages frames cr))) = map rt_track_name (rd_tracks (snd cr))"
  by (auto simp: merge_reading_def Let_def comp_def split: prod.splits option.splits list.splits)

lemma stage_take_again:
  "stage_take (fst (stage_take st keys)) keys = (fst (stage_take st keys), [])"
proof -
  have "filter (\<lambda>e. wanted_key keys (fst (fst e))) (sg_totals (fst (stage_take st keys))) = []"
    by (simp add: stage_take_rest filter_empty_conv)
  moreover have "filter (\<lambda>e. \<not> wanted_key keys (fst (fst e))) (sg_totals (fst (stage_take st keys)))
      = sg_totals (fst (stage_take st keys))"
    by (simp add: stage_take_rest)
  ultimately show ?thesis
    by (simp add: stage_take_def [of "fst (stage_take st keys)"] Let_def)
qed

abbreviation reading_tracks :: "(conn_id \<times> transport_reading) list \<Rightarrow> (conn_id \<times> string) list" where
  "reading_tracks readings \<equiv> concat (map (\<lambda>(cid, reading).
     map (\<lambda>track. (cid, rt_track_name track)) (rd_tracks reading)) readings)"

lemma reading_tracks_merge: "reading_tracks (map (merge_reading ms fs) readings) = reading_tracks readings"
proof -
  have "map (\<lambda>track. (fst (merge_reading ms fs cr), rt_track_name track)) (rd_tracks (snd (merge_reading ms fs cr)))
      = map (\<lambda>track. (fst cr, rt_track_name track)) (rd_tracks (snd cr))" for cr
    using arg_cong [OF merge_reading_tracks(2) [of ms fs cr], of "map (Pair (fst cr))"]
    by (simp add: merge_reading_tracks(1) comp_def)
  then show ?thesis by (simp add: comp_def case_prod_unfold)
qed

text \<open>
  A merge delivers once: after the runner's totals have been merged into a set of
  readings, merging again before anything new was recorded leaves the readings as they are.
\<close>

theorem merge_delivers_once:
  "let (r', readings') = merge r readings in merge r' readings' = (r', readings')"
proof -
  define kM kF where "kM = Some (map fst readings)" and "kF = Some (reading_tracks readings)"
  define ms fs where "ms = stage_take (rs_messages r) kM" and "fs = stage_take (rs_frames r) kF"
  define out where "out = map (merge_reading (snd ms) (snd fs)) readings"
  have first: "merge r readings = (r\<lparr>rs_messages := fst ms, rs_frames := fst fs\<rparr>, out)"
    by (simp add: merge_def ms_def fs_def kM_def kF_def out_def split_beta)
  have "map fst out = map fst readings" "reading_tracks out = reading_tracks readings"
    unfolding out_def by (simp add: comp_def merge_reading_tracks(1)) (rule reading_tracks_merge)
  then have again: "stage_take (fst ms) (Some (map fst out)) = (fst ms, [])"
      "stage_take (fst fs) (Some (reading_tracks out)) = (fst fs, [])"
    unfolding ms_def fs_def kM_def kF_def by (simp_all add: stage_take_again)
  have "map (merge_reading [] []) out = out"
    by (simp add: map_idI merge_reading_nothing)
  with again show ?thesis
    unfolding first by (simp add: merge_def)
qed

end
