(* ===== verification/SharedSlot.thy ===== *)
theory SharedSlot
  imports Prelude
begin

text \<open>
  Shared-memory blocks and the slots built on them, \<^verbatim>\<open>ipc/blocks.py\<close> and
  \<^verbatim>\<open>ipc/slot.py\<close>.

  The memory-backed directory is a state \<open>shm\<close>: its entries by name, and the pages behind
  them. A page store outlives its entry, as a mapping keeps the pages of an unlinked file. A block
  is a mapping of one page store. Whether the system has room for another block is the parameter
  \<open>fits\<close> (the number of the store and its size); everything else of the file calls the code makes
  is written out. A byte is a \<open>nat\<close>.
\<close>

section \<open>Blocks\<close>

datatype dirent = RegularFile nat | Directory | SpecialFile

record shm =
  sh_entries :: "(string, dirent) dict"
  sh_pages :: "(nat, nat list) dict"
  sh_next :: nat

datatype shm_error =
    BadName string
  | BadSize int
  | FileExistsError
  | SharedSlotAllocationFailed
  | FileNotFoundError
  | OpenError
  | NotRegularFile
  | EmptyFile
  | BlockClosed
  | SharedSlotLimitExceeded int int
  | BadInitialBytes
  | NotAttached
  | SpanPastBlock

record block =
  bk_name :: string
  bk_store :: nat
  bk_size :: nat
  bk_open :: bool

definition check_name :: "string \<Rightarrow> bool" where
  "check_name name \<longleftrightarrow>
     name \<noteq> [] \<and> CHR ''/'' \<notin> set name \<and> CHR 0x00 \<notin> set name \<and> name \<noteq> ''.'' \<and> name \<noteq> ''..''"

definition create_block ::
  "(nat \<Rightarrow> nat \<Rightarrow> bool) \<Rightarrow> string \<Rightarrow> int \<Rightarrow> shm \<Rightarrow> shm \<times> (shm_error + block)" where
  "create_block fits name n sh =
     (if \<not> check_name name then (sh, Inl (BadName name))
      else if n < 1 then (sh, Inl (BadSize n))
      else if dict_get (sh_entries sh) name \<noteq> None then (sh, Inl FileExistsError)
      else if \<not> fits (sh_next sh) (nat n) then (sh, Inl SharedSlotAllocationFailed)
      else
        (sh\<lparr>sh_entries := dict_set name (RegularFile (sh_next sh)) (sh_entries sh),
            sh_pages := dict_set (sh_next sh) (replicate (nat n) 0) (sh_pages sh),
            sh_next := sh_next sh + 1\<rparr>,
         Inr \<lparr>bk_name = name, bk_store = sh_next sh, bk_size = nat n, bk_open = True\<rparr>))"

definition attach_block :: "string \<Rightarrow> shm \<Rightarrow> shm_error + block" where
  "attach_block name sh =
     (if \<not> check_name name then Inl (BadName name)
      else case dict_get (sh_entries sh) name of
        None \<Rightarrow> Inl FileNotFoundError
      | Some (RegularFile store) \<Rightarrow>
          (case dict_get (sh_pages sh) store of
             None \<Rightarrow> Inl EmptyFile
           | Some bytes \<Rightarrow>
               if length bytes < 1 then Inl EmptyFile
               else Inr \<lparr>bk_name = name, bk_store = store, bk_size = length bytes, bk_open = True\<rparr>)
      | Some _ \<Rightarrow> Inl NotRegularFile)"

definition block_bytes :: "shm \<Rightarrow> block \<Rightarrow> nat list" where
  "block_bytes sh b = (case dict_get (sh_pages sh) (bk_store b) of None \<Rightarrow> [] | Some bytes \<Rightarrow> bytes)"

text \<open>Slice assignment of equal length into a mapping.\<close>

definition store_bytes :: "block \<Rightarrow> nat \<Rightarrow> nat list \<Rightarrow> shm \<Rightarrow> shm" where
  "store_bytes b off bytes sh =
     sh\<lparr>sh_pages := dict_set (bk_store b)
          (take off (block_bytes sh b) @ bytes @ drop (off + length bytes) (block_bytes sh b)) (sh_pages sh)\<rparr>"

definition close_block :: "block \<Rightarrow> block" where
  "close_block b = b\<lparr>bk_open := False\<rparr>"

definition unlink_block :: "block \<Rightarrow> shm \<Rightarrow> shm" where
  "unlink_block b sh = sh\<lparr>sh_entries := dict_del (bk_name b) (sh_entries sh)\<rparr>"

definition unlink_blocks :: "string \<Rightarrow> shm \<Rightarrow> shm \<times> (shm_error + nat)" where
  "unlink_blocks prefix sh =
     (if \<not> check_name prefix then (sh, Inl (BadName prefix))
      else
        let goes = (\<lambda>(name, d). take (length prefix) name = prefix \<and> d \<noteq> Directory)
        in (sh\<lparr>sh_entries := filter (\<lambda>e. \<not> goes e) (sh_entries sh)\<rparr>,
            Inr (length (filter goes (sh_entries sh)))))"

section \<open>Slots\<close>

record shared_slot =
  shs_prefix :: string
  shs_max_bytes :: "int option"
  shs_generation :: nat
  shs_block :: block
  shs_cursor :: nat

definition INITIAL_BYTES :: int where "INITIAL_BYTES = 1048576"

text \<open>\<^verbatim>\<open>f"{prefix}{generation}"\<close>\<close>

definition block_name :: "string \<Rightarrow> nat \<Rightarrow> string" where
  "block_name prefix generation = prefix @ decimal generation"

definition init_slot ::
  "(nat \<Rightarrow> nat \<Rightarrow> bool) \<Rightarrow> string \<Rightarrow> int \<Rightarrow> int option \<Rightarrow> shm \<Rightarrow> shm \<times> (shm_error + shared_slot)" where
  "init_slot fits prefix initial_bytes max_bytes sh =
     (if (case max_bytes of None \<Rightarrow> False | Some m \<Rightarrow> initial_bytes > m) then (sh, Inl BadInitialBytes)
      else case create_block fits (block_name prefix 0) initial_bytes sh of
        (sh', Inl e) \<Rightarrow> (sh', Inl e)
      | (sh', Inr b) \<Rightarrow>
          (sh', Inr \<lparr>shs_prefix = prefix, shs_max_bytes = max_bytes, shs_generation = 0, shs_block = b, shs_cursor = 0\<rparr>))"

definition slot_name :: "shared_slot \<Rightarrow> string" where
  "slot_name s = bk_name (shs_block s)"

definition capacity :: "shared_slot \<Rightarrow> nat" where
  "capacity s = bk_size (shs_block s)"

definition begin_call :: "shared_slot \<Rightarrow> shared_slot" where
  "begin_call s = s\<lparr>shs_cursor := 0\<rparr>"

definition close_slot :: "shared_slot \<Rightarrow> shm \<Rightarrow> shm \<times> shared_slot" where
  "close_slot s sh = (unlink_block (shs_block s) sh, s\<lparr>shs_block := close_block (shs_block s)\<rparr>)"

definition grow_size :: "shared_slot \<Rightarrow> nat \<Rightarrow> nat" where
  "grow_size s needed =
     (let n = max needed (2 * capacity s)
      in case shs_max_bytes s of None \<Rightarrow> n | Some m \<Rightarrow> min n (nat m))"

text \<open>The replacement block, with the retry at the exact size.\<close>

definition grow_block ::
  "(nat \<Rightarrow> nat \<Rightarrow> bool) \<Rightarrow> string \<Rightarrow> nat \<Rightarrow> nat \<Rightarrow> shm \<Rightarrow> shm \<times> (shm_error + block)" where
  "grow_block fits name n needed sh =
     (case create_block fits name (int n) sh of
        (sh', Inl SharedSlotAllocationFailed) \<Rightarrow>
          if n = needed then (sh', Inl SharedSlotAllocationFailed)
          else create_block fits name (int needed) sh'
      | r \<Rightarrow> r)"

definition grow ::
  "(nat \<Rightarrow> nat \<Rightarrow> bool) \<Rightarrow> shared_slot \<Rightarrow> nat \<Rightarrow> shm \<Rightarrow> shm \<times> shared_slot \<times> shm_error option" where
  "grow fits s needed sh =
     (if (case shs_max_bytes s of None \<Rightarrow> False | Some m \<Rightarrow> int needed > m)
      then (sh, s, Some (SharedSlotLimitExceeded (int needed) (case shs_max_bytes s of None \<Rightarrow> 0 | Some m \<Rightarrow> m)))
      else
        let s1 = s\<lparr>shs_generation := shs_generation s + 1\<rparr>
        in case grow_block fits (block_name (shs_prefix s) (shs_generation s1)) (grow_size s needed) needed sh of
             (sh1, Inl e) \<Rightarrow> (sh1, s1, Some e)
           | (sh1, Inr replacement) \<Rightarrow>
               if \<not> bk_open (shs_block s) then (sh1, s1, Some BlockClosed)
               else
               let sh2 = store_bytes replacement 0 (take (shs_cursor s) (block_bytes sh1 (shs_block s))) sh1;
                   (sh3, _) = close_slot s1 sh2
               in (sh3, s1\<lparr>shs_block := replacement\<rparr>, None))"

definition write_slot ::
  "(nat \<Rightarrow> nat \<Rightarrow> bool) \<Rightarrow> shared_slot \<Rightarrow> nat list \<Rightarrow> shm
     \<Rightarrow> shm \<times> shared_slot \<times> (shm_error + nat \<times> nat)" where
  "write_slot fits s raw sh =
     (let fin = shs_cursor s + length raw;
          (sh1, s1, err) = (if fin > capacity s then grow fits s fin sh else (sh, s, None))
      in case err of
           Some e \<Rightarrow> (sh1, s1, Inl e)
         | None \<Rightarrow>
             if \<not> bk_open (shs_block s1) then (sh1, s1, Inl BlockClosed)
             else (store_bytes (shs_block s1) (shs_cursor s1) raw sh1, s1\<lparr>shs_cursor := fin\<rparr>,
                   Inr (shs_cursor s1, length raw)))"

section \<open>Readers\<close>

type_synonym slot_reader = "block option"

definition attach :: "slot_reader \<Rightarrow> string \<Rightarrow> shm \<Rightarrow> slot_reader \<times> shm_error option" where
  "attach r name sh =
     (if (case r of None \<Rightarrow> False | Some b \<Rightarrow> bk_name b = name) then (r, None)
      else case attach_block name sh of Inl e \<Rightarrow> (None, Some e) | Inr b \<Rightarrow> (Some b, None))"

definition copy_span :: "slot_reader \<Rightarrow> int \<Rightarrow> int \<Rightarrow> shm \<Rightarrow> shm_error + nat list" where
  "copy_span r off len sh =
     (case r of
        None \<Rightarrow> Inl NotAttached
      | Some b \<Rightarrow>
          if off < 0 \<or> len < 0 \<or> off + len > int (bk_size b) then Inl SpanPastBlock
          else Inr (take (nat len) (drop (nat off) (block_bytes sh b))))"

section \<open>Names of generations\<close>

lemma block_name_inj: "block_name p m = block_name p n \<longleftrightarrow> m = n"
  using undecimal_decimal by (metis append_same_eq block_name_def same_append_eq)

section \<open>The slot's invariant\<close>

definition shm_ok :: "shm \<Rightarrow> bool" where
  "shm_ok sh \<longleftrightarrow> (\<forall>i. dict_get (sh_pages sh) i \<noteq> None \<longrightarrow> i < sh_next sh)"

definition slot_ok :: "shm \<Rightarrow> shared_slot \<Rightarrow> bool" where
  "slot_ok sh s \<longleftrightarrow>
     shm_ok sh \<and> bk_open (shs_block s) \<and> check_name (slot_name s) \<and> 1 \<le> capacity s \<and> shs_cursor s \<le> capacity s \<and>
     dict_get (sh_entries sh) (slot_name s) = Some (RegularFile (bk_store (shs_block s))) \<and>
     (\<exists>bytes. dict_get (sh_pages sh) (bk_store (shs_block s)) = Some bytes \<and> length bytes = capacity s) \<and>
     (\<exists>g \<le> shs_generation s. slot_name s = block_name (shs_prefix s) g) \<and>
     (\<forall>g > shs_generation s. dict_get (sh_entries sh) (block_name (shs_prefix s) g) = None) \<and>
     (case shs_max_bytes s of None \<Rightarrow> True | Some m \<Rightarrow> int (capacity s) \<le> m)"

text \<open>The bytes of the call so far.\<close>

definition written :: "shm \<Rightarrow> shared_slot \<Rightarrow> nat list" where
  "written sh s = take (shs_cursor s) (block_bytes sh (shs_block s))"

lemma slot_ok_length: "slot_ok sh s \<Longrightarrow> length (block_bytes sh (shs_block s)) = capacity s"
  by (auto simp: slot_ok_def block_bytes_def)

lemma length_written: "slot_ok sh s \<Longrightarrow> length (written sh s) = shs_cursor s"
  by (simp add: written_def slot_ok_length) (simp add: slot_ok_def)

lemma create_block_cases:
  assumes "create_block fits name n sh = (sh', r)"
  shows "case r of
      Inl e \<Rightarrow> sh' = sh
    | Inr b \<Rightarrow> check_name name \<and> 1 \<le> n \<and> dict_get (sh_entries sh) name = None \<and>
        b = \<lparr>bk_name = name, bk_store = sh_next sh, bk_size = nat n, bk_open = True\<rparr> \<and>
        sh' = sh\<lparr>sh_entries := dict_set name (RegularFile (sh_next sh)) (sh_entries sh),
            sh_pages := dict_set (sh_next sh) (replicate (nat n) 0) (sh_pages sh), sh_next := sh_next sh + 1\<rparr>"
  using assms by (auto simp: create_block_def split: if_splits)

lemma grow_block_cases:
  assumes "grow_block fits name n needed sh = (sh', r)"
  shows "case r of
      Inl e \<Rightarrow> sh' = sh
    | Inr b \<Rightarrow> \<exists>k. k \<in> {n, needed} \<and> create_block fits name (int k) sh = (sh', Inr b)"
proof -
  obtain sh1 r1 where first: "create_block fits name (int n) sh = (sh1, r1)"
    by fastforce
  have same: "sh1 = sh" if "r1 = Inl e" for e
    using create_block_cases [OF first] that by simp
  show ?thesis
  proof (cases "r1 = Inl SharedSlotAllocationFailed \<and> n \<noteq> needed")
    case True
    then have "create_block fits name (int needed) sh = (sh', r)"
      using assms first same by (simp add: grow_block_def)
    then show ?thesis
      using create_block_cases [of fits name "int needed" sh sh' r] by (auto split: sum.splits)
  next
    case False
    then have "r = r1 \<and> sh' = sh1"
      using assms first by (auto simp: grow_block_def split: sum.splits shm_error.splits if_splits)
    then show ?thesis
      using first same by (auto split: sum.splits)
  qed
qed

lemma block_bytes_store:
  "block_bytes (store_bytes b off bytes sh) c =
     (if bk_store c = bk_store b
      then take off (block_bytes sh b) @ bytes @ drop (off + length bytes) (block_bytes sh b)
      else block_bytes sh c)"
  by (simp add: block_bytes_def store_bytes_def dict_simps)

lemma grow_size_enough:
  assumes "capacity s < needed" and "case shs_max_bytes s of None \<Rightarrow> True | Some m \<Rightarrow> int needed \<le> m"
    and "k \<in> {grow_size s needed, needed}"
  shows "needed \<le> k" and "case shs_max_bytes s of None \<Rightarrow> True | Some m \<Rightarrow> int k \<le> m"
  using assms by (auto simp: grow_size_def Let_def split: option.splits)

text \<open>A replacement block, filled with what the call has written so far.\<close>

lemma replaced_ok:
  assumes ok: "slot_ok sh s" and "needed \<le> k" and cap: "capacity s < needed"
    and lim: "case shs_max_bytes s of None \<Rightarrow> True | Some m \<Rightarrow> int k \<le> m"
    and new: "create_block fits (block_name (shs_prefix s) (Suc (shs_generation s))) (int k) sh = (sh1, Inr b)"
  defines "s' \<equiv> s\<lparr>shs_generation := Suc (shs_generation s), shs_block := b\<rparr>"
    and "sh' \<equiv> unlink_block (shs_block s) (store_bytes b 0 (take (shs_cursor s) (block_bytes sh1 (shs_block s))) sh1)"
  shows "slot_ok sh' s'" and "written sh' s' = written sh s" and "needed \<le> capacity s'"
proof -
  define name where "name = block_name (shs_prefix s) (Suc (shs_generation s))"
  obtain bytes where bytes: "dict_get (sh_pages sh) (bk_store (shs_block s)) = Some bytes" "length bytes = capacity s"
    using ok by (auto simp: slot_ok_def)
  note b = create_block_cases [OF new, folded name_def, simplified]
  have older: "bk_store (shs_block s) \<noteq> sh_next sh"
    using ok bytes by (fastforce simp: slot_ok_def shm_ok_def)
  then have copied: "block_bytes sh1 (shs_block s) = bytes" and fresh: "block_bytes sh1 b = replicate k 0"
    using b bytes by (simp_all add: block_bytes_def dict_simps)
  have cur: "shs_cursor s \<le> capacity s" using ok by (simp add: slot_ok_def)
  have pages: "dict_get (sh_pages sh') (sh_next sh) = Some (take (shs_cursor s) bytes @ replicate (k - shs_cursor s) 0)"
    using b copied fresh cur bytes by (simp add: sh'_def unlink_block_def store_bytes_def dict_simps min_absorb2)
  obtain g where g: "g \<le> shs_generation s" "slot_name s = block_name (shs_prefix s) g"
    using ok by (auto simp: slot_ok_def)
  have later: "name \<noteq> block_name (shs_prefix s) h" if "h > Suc (shs_generation s)" for h
    using g that by (auto simp: name_def block_name_inj)
  have neq: "name \<noteq> slot_name s" using g by (auto simp: name_def block_name_inj)
  have entries: "dict_get (sh_entries sh') n = (if n = slot_name s then None else if n = name then Some (RegularFile (sh_next sh))
      else dict_get (sh_entries sh) n)" for n
    using b by (simp add: sh'_def unlink_block_def store_bytes_def dict_simps slot_name_def)
  have shm: "shm_ok sh'"
    using ok b by (auto simp: slot_ok_def shm_ok_def sh'_def unlink_block_def store_bytes_def dict_simps less_Suc_eq)
  have none: "dict_get (sh_entries sh') (block_name (shs_prefix s) h) = None" if "h > Suc (shs_generation s)" for h
    using that ok later [OF that] g by (auto simp: entries slot_ok_def block_name_inj)
  have capk: "capacity s' = k" and fields: "shs_prefix s' = shs_prefix s" "shs_max_bytes s' = shs_max_bytes s"
      "shs_generation s' = Suc (shs_generation s)" "shs_cursor s' = shs_cursor s" "shs_block s' = b" "slot_name s' = name"
    using b by (simp_all add: s'_def capacity_def slot_name_def)
  show "slot_ok sh' s'"
    unfolding slot_ok_def capk fields
    using shm none neq entries pages lim b assms(2) cap cur bytes by (auto simp: name_def)
  show "written sh' s' = written sh s"
    using pages b bytes cur by (simp add: written_def block_bytes_def s'_def)
  show "needed \<le> capacity s'"
    using b assms(2) by (simp add: s'_def capacity_def)
qed

lemma failed_growth_ok:
  "slot_ok sh s \<Longrightarrow> slot_ok sh (s\<lparr>shs_generation := Suc (shs_generation s)\<rparr>)"
  by (auto simp: slot_ok_def slot_name_def capacity_def intro: le_SucI split: option.splits)

lemma grow_cases:
  assumes ok: "slot_ok sh s" and cap: "capacity s < needed" and res: "grow fits s needed sh = (sh', s', err)"
  shows "slot_ok sh' s' \<and> written sh' s' = written sh s \<and> shs_cursor s' = shs_cursor s \<and>
    shs_max_bytes s' = shs_max_bytes s \<and>
    (case err of None \<Rightarrow> needed \<le> capacity s' | Some e \<Rightarrow> shs_block s' = shs_block s \<and> sh' = sh)"
proof (cases "case shs_max_bytes s of None \<Rightarrow> False | Some m \<Rightarrow> int needed > m")
  case True
  then show ?thesis using ok res by (auto simp: grow_def)
next
  case False
  then have lim: "case shs_max_bytes s of None \<Rightarrow> True | Some m \<Rightarrow> int needed \<le> m"
    by (auto split: option.splits)
  obtain sh1 r where gb: "grow_block fits (block_name (shs_prefix s) (Suc (shs_generation s))) (grow_size s needed) needed sh = (sh1, r)"
    by fastforce
  have op: "bk_open (shs_block s)" using ok by (simp add: slot_ok_def)
  show ?thesis
  proof (cases r)
    case (Inl e)
    then show ?thesis
      using grow_block_cases [OF gb] res False gb failed_growth_ok [OF ok]
      by (auto simp: grow_def Let_def written_def)
  next
    case (Inr b)
    then obtain k where k: "k \<in> {grow_size s needed, needed}"
      "create_block fits (block_name (shs_prefix s) (Suc (shs_generation s))) (int k) sh = (sh1, Inr b)"
      using grow_block_cases [OF gb] by auto
    note enough = grow_size_enough [OF cap lim k(1)]
    note replaced = replaced_ok [OF ok enough(1) cap enough(2) k(2)]
    have "sh' = unlink_block (shs_block s) (store_bytes b 0 (take (shs_cursor s) (block_bytes sh1 (shs_block s))) sh1)"
      "s' = s\<lparr>shs_generation := Suc (shs_generation s), shs_block := b\<rparr>" "err = None"
      using res False gb Inr op by (auto simp: grow_def Let_def close_slot_def)
    with replaced show ?thesis by simp
  qed
qed

lemma store_within_ok:
  assumes ok: "slot_ok sh s" and fits: "shs_cursor s + length raw \<le> capacity s"
  defines "sh' \<equiv> store_bytes (shs_block s) (shs_cursor s) raw sh"
    and "s' \<equiv> s\<lparr>shs_cursor := shs_cursor s + length raw\<rparr>"
  shows "slot_ok sh' s'" and "written sh' s' = written sh s @ raw"
proof -
  obtain bytes where bytes: "dict_get (sh_pages sh) (bk_store (shs_block s)) = Some bytes" "length bytes = capacity s"
    using ok by (auto simp: slot_ok_def)
  define bytes' where "bytes' = take (shs_cursor s) bytes @ raw @ drop (shs_cursor s + length raw) bytes"
  have pages: "dict_get (sh_pages sh') i = (if i = bk_store (shs_block s) then Some bytes' else dict_get (sh_pages sh) i)" for i
    using bytes by (simp add: sh'_def store_bytes_def block_bytes_def bytes'_def dict_simps)
  have len: "length bytes' = capacity s"
    using bytes fits by (simp add: bytes'_def)
  have fields: "slot_name s' = slot_name s" "capacity s' = capacity s" "shs_block s' = shs_block s"
      "shs_prefix s' = shs_prefix s" "shs_generation s' = shs_generation s" "shs_max_bytes s' = shs_max_bytes s"
      "shs_cursor s' = shs_cursor s + length raw"
    by (simp_all add: s'_def slot_name_def capacity_def)
  have rest: "sh_entries sh' = sh_entries sh" "shm_ok sh'"
    using ok bytes pages by (simp add: sh'_def store_bytes_def)
      (use ok bytes pages in \<open>auto simp: slot_ok_def shm_ok_def sh'_def store_bytes_def dict_simps\<close>)
  show "slot_ok sh' s'"
    using ok rest len fits unfolding slot_ok_def fields by (simp add: pages)
  show "written sh' s' = written sh s @ raw"
    using bytes fits by (simp add: written_def block_bytes_def fields pages bytes'_def)
qed

lemma write_slot_cases:
  assumes ok: "slot_ok sh s" and res: "write_slot fits s raw sh = (sh', s', r)"
  shows "slot_ok sh' s' \<and> shs_max_bytes s' = shs_max_bytes s \<and>
    (case r of
       Inr sp \<Rightarrow> sp = (length (written sh s), length raw) \<and> written sh' s' = written sh s @ raw
     | Inl e \<Rightarrow> sh' = sh \<and> written sh' s' = written sh s \<and> shs_cursor s' = shs_cursor s \<and> shs_block s' = shs_block s)"
proof -
  define fin where "fin = shs_cursor s + length raw"
  obtain sh1 s1 err where g: "(if fin > capacity s then grow fits s fin sh else (sh, s, None)) = (sh1, s1, err)"
    by (metis prod.exhaust)
  have grown: "slot_ok sh1 s1 \<and> written sh1 s1 = written sh s \<and> shs_cursor s1 = shs_cursor s \<and>
      shs_max_bytes s1 = shs_max_bytes s \<and>
      (case err of None \<Rightarrow> fin \<le> capacity s1 | Some e \<Rightarrow> shs_block s1 = shs_block s \<and> sh1 = sh)"
    using g ok grow_cases [OF ok, of fin fits] by (auto split: if_splits)
  have eq: "write_slot fits s raw sh = (case err of Some e \<Rightarrow> (sh1, s1, Inl e)
     | None \<Rightarrow> (store_bytes (shs_block s1) (shs_cursor s1) raw sh1, s1\<lparr>shs_cursor := fin\<rparr>, Inr (shs_cursor s1, length raw)))"
  proof -
    have "bk_open (shs_block s1)" using grown by (simp add: slot_ok_def)
    then show ?thesis
      unfolding write_slot_def Let_def fin_def [symmetric] g by (simp split: option.splits)
  qed
  show ?thesis
  proof (cases err)
    case None
    then show ?thesis
      using eq res grown store_within_ok [of sh1 s1 raw] length_written [OF ok] by (auto simp: fin_def)
  next
    case (Some e)
    then show ?thesis using eq res grown by auto
  qed
qed

text \<open>A call: \<open>begin\<close>, then one \<open>write\<close> per buffer, collecting the spans; it stops at the first error.\<close>

fun write_all ::
  "(nat \<Rightarrow> nat \<Rightarrow> bool) \<Rightarrow> shared_slot \<Rightarrow> nat list list \<Rightarrow> shm
     \<Rightarrow> shm \<times> shared_slot \<times> (shm_error + (nat \<times> nat) list)" where
  "write_all fits s [] sh = (sh, s, Inr [])"
| "write_all fits s (raw # raws) sh =
     (case write_slot fits s raw sh of
        (sh1, s1, Inl e) \<Rightarrow> (sh1, s1, Inl e)
      | (sh1, s1, Inr sp) \<Rightarrow>
          (case write_all fits s1 raws sh1 of
             (sh2, s2, Inl e) \<Rightarrow> (sh2, s2, Inl e)
           | (sh2, s2, Inr sps) \<Rightarrow> (sh2, s2, Inr (sp # sps))))"

fun spans_from :: "nat \<Rightarrow> nat list list \<Rightarrow> (nat \<times> nat) list" where
  "spans_from off [] = []"
| "spans_from off (raw # raws) = (off, length raw) # spans_from (off + length raw) raws"

lemma write_all_written:
  assumes "slot_ok sh s" and "write_all fits s raws sh = (sh', s', Inr sps)"
  shows "slot_ok sh' s' \<and> written sh' s' = written sh s @ concat raws \<and> sps = spans_from (length (written sh s)) raws"
  using assms
proof (induction raws arbitrary: sh s sps)
  case (Cons raw raws)
  obtain sh1 s1 r1 where w: "write_slot fits s raw sh = (sh1, s1, r1)"
    by (metis prod.exhaust)
  obtain sp where r1: "r1 = Inr sp"
    using Cons.prems(2) w by (cases r1) auto
  obtain rest where rest: "write_all fits s1 raws sh1 = (sh', s', Inr rest)" "sps = sp # rest"
    using Cons.prems(2) w r1 by (auto split: prod.splits sum.splits)
  from write_slot_cases [OF Cons.prems(1) w] r1
  have one: "slot_ok sh1 s1" "sp = (length (written sh s), length raw)" "written sh1 s1 = written sh s @ raw"
    by simp_all
  from Cons.IH [OF one(1) rest(1)] rest(2) one(2,3) show ?case by simp
qed simp

lemma copy_spans:
  "map (\<lambda>(off, len). take len (drop off (pre @ concat raws @ post))) (spans_from (length pre) raws) = raws"
proof (induction raws arbitrary: pre)
  case (Cons raw raws)
  from Cons [of "pre @ raw"] show ?case by simp
qed simp

lemma spans_within: "(off, len) \<in> set (spans_from n raws) \<Longrightarrow> off + len \<le> n + length (concat raws)"
  by (induction n raws rule: spans_from.induct) auto

section \<open>Properties\<close>

text \<open>
  C40. What a writer puts in, a reader copies out: when a whole call is written, growing the block
  as often as it takes, a reader that attaches the block the slot then names can copy every
  returned span and gets exactly the buffers that were written, in order.
\<close>

theorem slot_round_trip:
  assumes "slot_ok sh s" and "write_all fits (begin_call s) raws sh = (sh', s', Inr sps)"
  shows "case attach None (slot_name s') sh' of (r, err) \<Rightarrow>
    err = None \<and> map (\<lambda>(off, len). copy_span r (int off) (int len) sh') sps = map Inr raws"
proof -
  have "slot_ok sh (begin_call s)"
    using assms(1) by (simp add: slot_ok_def begin_call_def slot_name_def capacity_def split: option.splits)
  note all = write_all_written [OF this assms(2)]
  have "written sh (begin_call s) = []" by (simp add: written_def begin_call_def)
  with all have ok: "slot_ok sh' s'" and content: "written sh' s' = concat raws" and sps: "sps = spans_from 0 raws"
    by simp_all
  obtain bytes where bytes: "dict_get (sh_pages sh') (bk_store (shs_block s')) = Some bytes" "length bytes = capacity s'"
    using ok by (auto simp: slot_ok_def)
  define b where "b = \<lparr>bk_name = slot_name s', bk_store = bk_store (shs_block s'), bk_size = capacity s', bk_open = True\<rparr>"
  have att: "attach None (slot_name s') sh' = (Some b, None)"
    using ok bytes by (simp add: attach_def attach_block_def slot_ok_def b_def)
  have cur: "shs_cursor s' \<le> capacity s'" "length (concat raws) = shs_cursor s'"
    using ok length_written [OF ok] content by (simp_all add: slot_ok_def)
  have split: "bytes = concat raws @ drop (shs_cursor s') bytes"
    using content bytes by (metis append_take_drop_id block_bytes_def option.simps(5) written_def)
  have copied: "copy_span (Some b) (int off) (int len) sh' = Inr (take len (drop off bytes))"
    if "(off, len) \<in> set sps" for off len
    using spans_within [of off len 0 raws] that sps cur bytes
    by (simp add: copy_span_def b_def block_bytes_def)
  have "map (\<lambda>(off, len). copy_span (Some b) (int off) (int len) sh') sps
      = map (\<lambda>(off, len). Inr (take len (drop off bytes))) sps"
    using copied by (auto simp: case_prod_unfold)
  also have "\<dots> = map Inr (map (\<lambda>(off, len). take len (drop off bytes)) sps)"
    by (simp add: comp_def case_prod_unfold)
  also have "map (\<lambda>(off, len). take len (drop off bytes)) sps = raws"
    using copy_spans [of "[]" raws "drop (shs_cursor s') bytes"] split sps by simp
  finally show ?thesis by (simp add: att)
qed

text \<open>A fresh slot on a directory that holds no block of its prefix is in order.\<close>

lemma init_slot_ok:
  assumes "shm_ok sh" and "\<forall>g. dict_get (sh_entries sh) (block_name prefix g) = None"
    and "init_slot fits prefix n max_bytes sh = (sh', Inr s)"
  shows "slot_ok sh' s"
proof -
  obtain b where b: "create_block fits (block_name prefix 0) n sh = (sh', Inr b)"
      "s = \<lparr>shs_prefix = prefix, shs_max_bytes = max_bytes, shs_generation = 0, shs_block = b, shs_cursor = 0\<rparr>"
      "case max_bytes of None \<Rightarrow> True | Some m \<Rightarrow> n \<le> m"
    using assms(3) by (auto simp: init_slot_def split: if_splits prod.splits sum.splits option.splits)
  note created = create_block_cases [OF b(1), simplified]
  have "shm_ok sh'" using assms(1) created by (auto simp: shm_ok_def dict_simps less_Suc_eq)
  moreover have "dict_get (sh_entries sh') (block_name prefix g) = None" if "0 < g" for g
    using created assms(2) that by (simp add: dict_simps block_name_inj)
  ultimately show ?thesis
    using created b(3) by (auto simp: slot_ok_def b(2) slot_name_def capacity_def dict_simps split: option.splits)
qed

definition demo_init :: "shm \<times> (shm_error + shared_slot)" where
  "demo_init = init_slot (\<lambda>_ _. True) ''rr_'' 2 (Some 8) \<lparr>sh_entries = [], sh_pages = [], sh_next = 0\<rparr>"

definition demo_slot :: shared_slot where
  "demo_slot = projr (snd demo_init)"

definition demo_written :: "shm \<times> shared_slot \<times> (shm_error + (nat \<times> nat) list)" where
  "demo_written = write_all (\<lambda>_ _. True) (begin_call demo_slot) [[1, 2], [3], [4, 5, 6]] (fst demo_init)"

lemma demo_slot_ok: "slot_ok (fst demo_init) demo_slot"
proof -
  have "\<not> isl (snd demo_init)" by code_simp
  then have "init_slot (\<lambda>_ _. True) ''rr_'' 2 (Some 8) \<lparr>sh_entries = [], sh_pages = [], sh_next = 0\<rparr>
      = (fst demo_init, Inr demo_slot)"
    by (simp add: demo_slot_def flip: demo_init_def)
  then show ?thesis
    by (rule init_slot_ok [rotated 2]) (simp_all add: shm_ok_def)
qed

theorem slot_round_trip_witness:
  "map (\<lambda>(off, len). copy_span (fst (attach None (slot_name (fst (snd demo_written))) (fst demo_written)))
       (int off) (int len) (fst demo_written)) [(0, 2), (2, 1), (3, 3)] = [Inr [1, 2], Inr [3], Inr [4, 5, 6]]"
proof -
  have "snd (snd demo_written) = Inr [(0, 2), (2, 1), (3, 3)]" by code_simp
  then have w: "write_all (\<lambda>_ _. True) (begin_call demo_slot) [[1, 2], [3], [4, 5, 6]] (fst demo_init)
      = (fst demo_written, fst (snd demo_written), Inr [(0, 2), (2, 1), (3, 3)])"
    by (metis demo_written_def prod.collapse)
  from slot_round_trip [OF demo_slot_ok w] show ?thesis
    by (simp add: case_prod_unfold)
qed

lemma decimal_not_Nil: "decimal n \<noteq> []"
  by (subst decimal.simps) simp

lemma digit_plain: "d < 10 \<Longrightarrow> char_of (48 + d :: nat) \<notin> {CHR ''/'', CHR 0x00, CHR ''.''}"
proof
  assume d: "d < 10" and c: "char_of (48 + d) \<in> {CHR ''/'', CHR 0x00, CHR ''.''}"
  have "(of_char (char_of (48 + d)) :: nat) \<in> of_char ` {CHR ''/'', CHR 0x00, CHR ''.''}"
    using c by (rule imageI)
  with d show False by auto
qed

lemma check_name_generation: "check_name (block_name p g) \<Longrightarrow> check_name (block_name p h)"
proof -
  assume p: "check_name (block_name p g)"
  have dig: "CHR ''/'' \<notin> set (decimal h)" "CHR 0x00 \<notin> set (decimal h)" "CHR ''.'' \<notin> set (decimal h)"
    using digits_plain [of _ h] digit_plain by fastforce+
  obtain c cs where last: "decimal h = cs @ [c]" using decimal_not_Nil [of h] by (metis append_butlast_last_id)
  then have "c \<noteq> CHR ''.''" using dig(3) by auto
  then have "block_name p h \<noteq> ''.'' \<and> block_name p h \<noteq> ''..''"
    by (auto simp: block_name_def last dest: arg_cong [of _ _ last])
  with p dig show ?thesis by (simp add: check_name_def block_name_def decimal_not_Nil)
qed

lemma create_block_errors:
  "snd (create_block fits name n sh) \<noteq> Inl (SharedSlotLimitExceeded a b)"
  by (simp add: create_block_def)

lemma grow_block_errors:
  "snd (grow_block fits name n needed sh) \<noteq> Inl (SharedSlotLimitExceeded a b)"
  using create_block_errors [of fits name _ _ a b]
  by (auto simp: grow_block_def split: prod.splits sum.splits shm_error.splits) (metis snd_conv)+

lemma create_block_fits:
  "check_name name \<Longrightarrow> 1 \<le> n \<Longrightarrow> dict_get (sh_entries sh) name = None \<Longrightarrow> \<forall>i k. fits i k \<Longrightarrow>
   \<exists>sh' b. create_block fits name n sh = (sh', Inr b)"
  by (simp add: create_block_def)

lemma grow_outcome:
  assumes ok: "slot_ok sh s" and cap: "capacity s < needed"
  shows "shs_max_bytes s = Some m \<Longrightarrow>
      (snd (snd (grow fits s needed sh)) = Some (SharedSlotLimitExceeded (int needed) m)) = (int needed > m)"
    and "(\<forall>i k. fits i k) \<and> (\<forall>m. shs_max_bytes s = Some m \<longrightarrow> int needed \<le> m) \<Longrightarrow> snd (snd (grow fits s needed sh)) = None"
proof -
  define name where "name = block_name (shs_prefix s) (Suc (shs_generation s))"
  have op: "bk_open (shs_block s)" using ok by (simp add: slot_ok_def)
  show "(snd (snd (grow fits s needed sh)) = Some (SharedSlotLimitExceeded (int needed) m)) = (int needed > m)"
    if "shs_max_bytes s = Some m"
    using that op grow_block_errors [of fits name "grow_size s needed" needed sh "int needed" m]
    by (auto simp: grow_def Let_def name_def split: prod.splits sum.splits)
  show "snd (snd (grow fits s needed sh)) = None"
    if within: "(\<forall>i k. fits i k) \<and> (\<forall>m. shs_max_bytes s = Some m \<longrightarrow> int needed \<le> m)"
  proof -
    obtain g where "slot_name s = block_name (shs_prefix s) g" using ok by (auto simp: slot_ok_def)
    then have nm: "check_name name" "dict_get (sh_entries sh) name = None"
      using ok check_name_generation [of "shs_prefix s" g "Suc (shs_generation s)"] by (simp_all add: slot_ok_def name_def)
    have "needed \<le> grow_size s needed"
      using cap within by (intro grow_size_enough(1)) (auto split: option.splits)
    then have "1 \<le> int (grow_size s needed)" using cap by simp
    then obtain sh' b where "create_block fits name (int (grow_size s needed)) sh = (sh', Inr b)"
      using create_block_fits [OF nm(1) _ nm(2)] within by blast
    then show ?thesis
      using op within by (auto simp: grow_def grow_block_def Let_def close_slot_def name_def split: option.splits)
  qed
qed

text \<open>
  A write is all or nothing: a write that succeeds appends its bytes to what the call holds
  and returns their span; one that fails leaves the shared memory and the call so far exactly as
  they were. A call never holds more than the slot's limit and neither does its block, a write
  past the limit is refused as such, and within the limit it succeeds whenever the system has room.
\<close>

theorem write_all_or_nothing:
  assumes "slot_ok sh s"
  shows "case write_slot fits s raw sh of (sh', s', r) \<Rightarrow>
    (\<forall>m. shs_max_bytes s = Some m \<longrightarrow> int (length (written sh' s')) \<le> int (capacity s') \<and> int (capacity s') \<le> m) \<and>
    (case r of
       Inr sp \<Rightarrow> sp = (length (written sh s), length raw) \<and> written sh' s' = written sh s @ raw
     | Inl e \<Rightarrow> sh' = sh \<and> written sh' s' = written sh s \<and> slot_name s' = slot_name s) \<and>
    (\<forall>m. shs_max_bytes s = Some m \<longrightarrow>
       (r = Inl (SharedSlotLimitExceeded (int (length (written sh s) + length raw)) m)) = (int (length (written sh s) + length raw) > m)) \<and>
    ((\<forall>i n. fits i n) \<and> (\<forall>m. shs_max_bytes s = Some m \<longrightarrow> int (length (written sh s) + length raw) \<le> m) \<longrightarrow>
       r = Inr (length (written sh s), length raw))"
proof -
  define fin where "fin = length (written sh s) + length raw"
  have fin: "fin = shs_cursor s + length raw" using length_written [OF assms] by (simp add: fin_def)
  obtain sh' s' r where res: "write_slot fits s raw sh = (sh', s', r)" by (metis prod.exhaust)
  note cases = write_slot_cases [OF assms res]
  have bound: "length (written sh' s') \<le> capacity s'" "\<And>m. shs_max_bytes s = Some m \<Longrightarrow> int (capacity s') \<le> m"
    using cases length_written [of sh' s'] by (auto simp: slot_ok_def)
  have capm: "\<And>m. shs_max_bytes s = Some m \<Longrightarrow> int (capacity s) \<le> m" and op: "bk_open (shs_block s)"
    using assms by (auto simp: slot_ok_def)
  have outcome: "(\<forall>m. shs_max_bytes s = Some m \<longrightarrow> (r = Inl (SharedSlotLimitExceeded (int fin) m)) = (int fin > m)) \<and>
      ((\<forall>i n. fits i n) \<and> (\<forall>m. shs_max_bytes s = Some m \<longrightarrow> int fin \<le> m) \<longrightarrow> (\<exists>sp. r = Inr sp))"
  proof (cases "capacity s < fin")
    case True
    obtain sh1 s1 err where g: "grow fits s fin sh = (sh1, s1, err)" by (metis prod.exhaust)
    have "bk_open (shs_block s1)" using grow_cases [OF assms True g] by (simp add: slot_ok_def)
    then have "r = (case err of Some e \<Rightarrow> Inl e | None \<Rightarrow> Inr (shs_cursor s1, length raw))"
      using res True g by (auto simp: write_slot_def Let_def fin split: option.splits)
    then show ?thesis
      using grow_outcome [OF assms True, where fits = fits] g by (auto split: option.splits)
  next
    case False
    then have "r = Inr (shs_cursor s, length raw)"
      using res op by (simp add: write_slot_def Let_def fin)
    then show ?thesis using False capm by fastforce
  qed
  show ?thesis
    unfolding res prod.case fin_def [symmetric]
    using cases bound outcome by (auto simp: slot_name_def split: sum.splits)
qed

theorem write_all_or_nothing_witness:
  "snd (snd (write_slot (\<lambda>_ _. True) demo_slot [1, 2, 3] (fst demo_init))) = Inr (0, 3) \<and>
   snd (snd (write_slot (\<lambda>_ _. True) demo_slot (replicate 9 0) (fst demo_init))) = Inl (SharedSlotLimitExceeded 9 8)"
proof -
  have facts: "shs_max_bytes demo_slot = Some 8" "written (fst demo_init) demo_slot = []" by code_simp+
  show ?thesis
    using write_all_or_nothing [OF demo_slot_ok, where fits = "\<lambda>_ _. True" and raw = "[1, 2, 3]"]
      write_all_or_nothing [OF demo_slot_ok, where fits = "\<lambda>_ _. True" and raw = "replicate 9 0"]
    by (simp add: facts case_prod_unfold)
qed

text \<open>
  Reclaiming a dead writer's blocks: every entry that is not a directory and whose name starts
  with the prefix is gone, every other entry is untouched, and the result counts what was removed.
\<close>

theorem unlink_blocks_exact:
  assumes "check_name prefix"
  shows "case unlink_blocks prefix sh of (sh', r) \<Rightarrow>
    set (sh_entries sh') = {e \<in> set (sh_entries sh). snd e = Directory \<or> \<not> (\<exists>rest. fst e = prefix @ rest)} \<and>
    r = Inr (length (sh_entries sh) - length (sh_entries sh')) \<and> sh_pages sh' = sh_pages sh"
proof -
  have pre: "take (length prefix) name = prefix \<longleftrightarrow> (\<exists>rest. name = prefix @ rest)" for name :: string
    by (metis append_eq_conv_conj append_take_drop_id)
  have len: "length (filter P xs) = length xs - length (filter (\<lambda>x. \<not> P x) xs)" for P and xs :: "(string \<times> dirent) list"
    using sum_length_filter_compl [of P xs] by simp
  define goes where "goes = (\<lambda>e :: string \<times> dirent. take (length prefix) (fst e) = prefix \<and> snd e \<noteq> Directory)"
  have "unlink_blocks prefix sh = (sh\<lparr>sh_entries := filter (\<lambda>e. \<not> goes e) (sh_entries sh)\<rparr>, Inr (length (filter goes (sh_entries sh))))"
    using assms by (simp add: unlink_blocks_def goes_def case_prod_unfold)
  moreover have "{e \<in> set (sh_entries sh). \<not> goes e} =
      {e \<in> set (sh_entries sh). snd e = Directory \<or> \<not> (\<exists>rest. fst e = prefix @ rest)}"
    by (auto simp: goes_def pre)
  ultimately show ?thesis by (simp add: len [of goes])
qed

theorem unlink_blocks_exact_witness:
  "case unlink_blocks ''rr_'' (fst demo_init) of (sh', r) \<Rightarrow>
     r = Inr (length (sh_entries (fst demo_init)) - length (sh_entries sh')) \<and> sh_pages sh' = sh_pages (fst demo_init)"
proof -
  have "check_name ''rr_''" by (simp add: check_name_def)
  from unlink_blocks_exact [OF this, where sh = "fst demo_init"] show ?thesis
    by (simp add: case_prod_unfold)
qed

end
