(* ===== verification/Pacer.thy ===== *)
theory Pacer
  imports Values
begin

text \<open>
  The per-connection media pacer, \<^verbatim>\<open>transport/webrtc/pacer.py\<close>.

  Producers and the pacing thread interleave at their critical sections. A \<open>submit\<close> in flight is
  a \<open>submission\<close>: it reads the queue bound for its next frame (\<open>submit_capacity\<close>) and then makes
  one attempt under the lock (\<open>submit_locked\<close>), which enqueues the frame, finds the queue full and
  keeps waiting, or ends the submission. A tick is one step, since it holds the dispatch lock; a
  flush is made between two ticks, as \<open>between_ticks\<close> provides. \<open>stop\<close> is three steps: the
  signal under the lifecycle lock, the close under the room lock, and the drain once the thread is
  joined. Stage timing is left out. The parameter \<open>zeros\<close> is
  \<^verbatim>\<open>np.zeros\<close> of a shape.
\<close>

record 'a pacer =
  pc_video_tracks :: "(string, track_info) dict"
  pc_queue :: "('a media_bundle \<times> real) list"
  pc_depth :: int
  pc_epoch :: nat
  pc_interval :: real
  pc_running :: bool
  pc_stop :: bool
  pc_closed :: bool
  pc_black_pending :: bool
  pc_frame_dims :: "(nat \<times> nat \<times> nat) option"
  pc_last_frame :: "'a media_bundle option"
  pc_dropped_frames :: int

definition DEFAULT_FRAME_DIMENSIONS :: "nat \<times> nat \<times> nat" where
  "DEFAULT_FRAME_DIMENSIONS = (720, 1280, 3)"

definition init_pacer :: "(string, track_info) dict \<Rightarrow> int \<Rightarrow> real \<Rightarrow> 'a pacer" where
  "init_pacer video_tracks queue_depth fps =
     \<lparr>pc_video_tracks = filter (\<lambda>(name, info). ti_kind info = VIDEO) video_tracks,
      pc_queue = [], pc_depth = queue_depth, pc_epoch = 0,
      pc_interval = (if fps > 0 then 1 / fps else 1 / 30),
      pc_running = False, pc_stop = True, pc_closed = False, pc_black_pending = True,
      pc_frame_dims = None, pc_last_frame = None, pc_dropped_frames = 0\<rparr>"

section \<open>Submitting\<close>

record 'a submission =
  sb_frames :: "'a media_bundle list"
  sb_n_frames :: nat
  sb_wait :: bool
  sb_epoch :: nat
  sb_capacity :: "int option"
  sb_waiting :: bool
  sb_enqueued :: nat
  sb_done :: bool

definition submit_begin ::
  "'a numpy \<Rightarrow> 'a pacer \<Rightarrow> 'a media_chunk \<Rightarrow> 'a pacer \<times> (values_error + 'a submission)" where
  "submit_begin np p chunk =
     (let p1 = (if mc_fps chunk > 0 then p\<lparr>pc_interval := 1 / mc_fps chunk\<rparr> else p)
      in (p1, map_sum id (\<lambda>frames. \<lparr>sb_frames = frames, sb_n_frames = mc_n_frames chunk, sb_wait = mc_wait chunk,
            sb_epoch = pc_epoch p1, sb_capacity = None, sb_waiting = False, sb_enqueued = 0, sb_done = False\<rparr>) (chunk_frames np chunk)))"

definition submit_capacity :: "'a pacer \<Rightarrow> 'a submission \<Rightarrow> 'a submission" where
  "submit_capacity p sb =
     (if sb_done sb \<or> sb_frames sb = [] \<or> sb_capacity sb \<noteq> None then sb
      else sb\<lparr>sb_capacity := Some (max (pc_depth p) (int (sb_n_frames sb)))\<rparr>)"

text \<open>The end of the loop and what the caller is told.\<close>

definition submit_end :: "'a pacer \<Rightarrow> 'a submission \<Rightarrow> bool \<Rightarrow> 'a pacer \<times> 'a submission" where
  "submit_end p sb aborted =
     (if sb_enqueued sb < sb_n_frames sb \<and> \<not> sb_wait sb \<and> \<not> aborted
      then p\<lparr>pc_dropped_frames := pc_dropped_frames p + int (sb_n_frames sb - sb_enqueued sb)\<rparr> else p,
      sb\<lparr>sb_done := True\<rparr>)"

definition submit_put :: "real \<Rightarrow> 'a pacer \<Rightarrow> 'a submission \<Rightarrow> 'a pacer \<times> 'a submission" where
  "submit_put now p sb =
     (p\<lparr>pc_queue := pc_queue p @ [(hd (sb_frames sb), now)]\<rparr>,
      sb\<lparr>sb_frames := tl (sb_frames sb), sb_capacity := None, sb_waiting := False, sb_enqueued := sb_enqueued sb + 1\<rparr>)"

text \<open>
  One look at the queue under the lock. A submission that waits for room goes on in its inner loop,
  which looks at the stop signal, the epoch and the queue, and not at the closed flag.
\<close>

definition submit_locked :: "real \<Rightarrow> 'a pacer \<Rightarrow> 'a submission \<Rightarrow> 'a pacer \<times> 'a submission" where
  "submit_locked now p sb =
     (if sb_done sb then (p, sb)
      else if sb_frames sb = [] then submit_end p sb False
      else case sb_capacity sb of
        None \<Rightarrow> (p, sb)
      | Some capacity \<Rightarrow>
          if pc_closed p \<and> \<not> (sb_wait sb \<and> sb_waiting sb) then submit_end p sb True
          else if sb_wait sb then
            (if \<not> pc_stop p \<and> pc_epoch p = sb_epoch sb \<and> int (length (pc_queue p)) \<ge> capacity
             then (p, sb\<lparr>sb_waiting := True\<rparr>)
             else if pc_stop p \<or> pc_epoch p \<noteq> sb_epoch sb then submit_end p sb True
             else submit_put now p sb)
          else
            (if pc_epoch p \<noteq> sb_epoch sb then submit_end p sb True
             else if int (length (pc_queue p)) \<ge> capacity then submit_end p sb False
             else submit_put now p sb))"

section \<open>Control\<close>

definition set_rate :: "'a pacer \<Rightarrow> real \<Rightarrow> 'a pacer" where
  "set_rate p fps = (if fps > 0 then p\<lparr>pc_interval := 1 / fps\<rparr> else p)"

definition set_depth :: "'a pacer \<Rightarrow> int \<Rightarrow> 'a pacer" where
  "set_depth p depth = (if depth \<le> 0 then p else p\<lparr>pc_depth := depth\<rparr>)"

definition flush :: "'a pacer \<Rightarrow> bool \<Rightarrow> 'a pacer" where
  "flush p hold =
     p\<lparr>pc_epoch := pc_epoch p + 1, pc_queue := [], pc_black_pending := \<not> hold, pc_last_frame := None\<rparr>"

definition start_pacer :: "'a pacer \<Rightarrow> 'a pacer" where
  "start_pacer p = (if \<not> pc_stop p \<or> pc_closed p then p else p\<lparr>pc_stop := False, pc_running := True\<rparr>)"

definition stop_signal :: "'a pacer \<Rightarrow> 'a pacer" where
  "stop_signal p = p\<lparr>pc_stop := True, pc_running := False\<rparr>"

definition stop_close :: "'a pacer \<Rightarrow> 'a pacer" where
  "stop_close p = p\<lparr>pc_closed := True\<rparr>"

definition stop_end :: "'a pacer \<Rightarrow> 'a pacer" where
  "stop_end p = p\<lparr>pc_queue := [], pc_last_frame := None\<rparr>"

section \<open>Ticks\<close>

definition video_only :: "'a media_bundle \<Rightarrow> 'a media_bundle" where
  "video_only b = filter (\<lambda>(name, track). ti_kind (td_info track) = VIDEO) b"

definition black_bundle :: "(nat list \<Rightarrow> 'a) \<Rightarrow> 'a pacer \<Rightarrow> 'a media_bundle" where
  "black_bundle zeros p =
     (let (h, w, c) = (case pc_frame_dims p of None \<Rightarrow> DEFAULT_FRAME_DIMENSIONS | Some d \<Rightarrow> d)
      in map (\<lambda>(name, info). (name, \<lparr>td_info = info, td_data = zeros [h, w, c], td_metadata = NoMeta\<rparr>))
           (pc_video_tracks p))"

datatype 'a dispatched = RealFrame "'a media_bundle" | BlackFrame "'a media_bundle" | GapFill "'a media_bundle"

definition note_dims :: "'a numpy \<Rightarrow> 'a pacer \<Rightarrow> 'a media_bundle \<Rightarrow> 'a pacer" where
  "note_dims np p item =
     (case get_tracks_by_kind item VIDEO of
        [] \<Rightarrow> p
      | t # _ \<Rightarrow>
          (case np_shape np (td_data t) of
             [h, w, c] \<Rightarrow> p\<lparr>pc_frame_dims := Some (h, w, c)\<rparr>
           | _ \<Rightarrow> p))"

definition tick :: "'a numpy \<Rightarrow> (nat list \<Rightarrow> 'a) \<Rightarrow> 'a pacer \<Rightarrow> 'a pacer \<times> 'a dispatched option" where
  "tick np zeros p =
     (case pc_queue p of
        (item, queued_at) # rest \<Rightarrow>
          ((note_dims np (p\<lparr>pc_queue := rest\<rparr>) item)\<lparr>pc_black_pending := False, pc_last_frame := Some item\<rparr>,
           Some (RealFrame item))
      | [] \<Rightarrow>
          if pc_black_pending p then (p\<lparr>pc_black_pending := False\<rparr>, Some (BlackFrame (black_bundle zeros p)))
          else
            (case pc_last_frame p of
               None \<Rightarrow> (p, None)
             | Some held \<Rightarrow>
                 if \<exists>t \<in> set (get_tracks (video_only held)). td_metadata t \<noteq> NoMeta
                 then (p, Some (GapFill (video_only held))) else (p, None)))"

text \<open>
  The pacing loop's schedule after a tick that ended at \<open>now\<close>: one interval on, or from now when
  more than an interval behind.
\<close>

definition next_tick_after :: "real \<Rightarrow> real \<Rightarrow> real \<Rightarrow> real" where
  "next_tick_after next_tick interval now =
     (let n = next_tick + interval in if n < now - interval then now + interval else n)"

section \<open>Runs\<close>

record 'a pacing =
  pg_pacer :: "'a pacer"
  pg_subs :: "'a submission list"

datatype 'a pacer_op =
    OpSubmit "'a media_chunk"
  | OpCapacity nat
  | OpLocked nat real
  | OpTick
  | OpFlush bool
  | OpRate real
  | OpDepth int
  | OpStartPacer
  | OpStopSignal
  | OpStopClose
  | OpStopEnd

fun pacer_step ::
  "'a numpy \<Rightarrow> (nat list \<Rightarrow> 'a) \<Rightarrow> 'a pacing \<Rightarrow> 'a pacer_op \<Rightarrow> 'a pacing \<times> 'a dispatched list" where
  "pacer_step np zeros g (OpSubmit chunk) =
     (case submit_begin np (pg_pacer g) chunk of
        (p, Inl _) \<Rightarrow> (g\<lparr>pg_pacer := p\<rparr>, [])
      | (p, Inr sb) \<Rightarrow> (g\<lparr>pg_pacer := p, pg_subs := pg_subs g @ [sb]\<rparr>, []))"
| "pacer_step np zeros g (OpCapacity i) =
     (if i < length (pg_subs g)
      then (g\<lparr>pg_subs := (pg_subs g)[i := submit_capacity (pg_pacer g) (pg_subs g ! i)]\<rparr>, []) else (g, []))"
| "pacer_step np zeros g (OpLocked i now) =
     (if i < length (pg_subs g)
      then let (p, sb) = submit_locked now (pg_pacer g) (pg_subs g ! i)
           in (g\<lparr>pg_pacer := p, pg_subs := (pg_subs g)[i := sb]\<rparr>, [])
      else (g, []))"
| "pacer_step np zeros g OpTick =
     (if pc_stop (pg_pacer g) then (g, [])
      else let (p, out) = tick np zeros (pg_pacer g)
           in (g\<lparr>pg_pacer := p\<rparr>, case out of None \<Rightarrow> [] | Some d \<Rightarrow> [d]))"
| "pacer_step np zeros g (OpFlush hold) = (g\<lparr>pg_pacer := flush (pg_pacer g) hold\<rparr>, [])"
| "pacer_step np zeros g (OpRate fps) = (g\<lparr>pg_pacer := set_rate (pg_pacer g) fps\<rparr>, [])"
| "pacer_step np zeros g (OpDepth d) = (g\<lparr>pg_pacer := set_depth (pg_pacer g) d\<rparr>, [])"
| "pacer_step np zeros g OpStartPacer = (g\<lparr>pg_pacer := start_pacer (pg_pacer g)\<rparr>, [])"
| "pacer_step np zeros g OpStopSignal = (g\<lparr>pg_pacer := stop_signal (pg_pacer g)\<rparr>, [])"
| "pacer_step np zeros g OpStopClose = (g\<lparr>pg_pacer := stop_close (pg_pacer g)\<rparr>, [])"
| "pacer_step np zeros g OpStopEnd = (g\<lparr>pg_pacer := stop_end (pg_pacer g)\<rparr>, [])"

fun pacer_run ::
  "'a numpy \<Rightarrow> (nat list \<Rightarrow> 'a) \<Rightarrow> 'a pacing \<Rightarrow> 'a pacer_op list \<Rightarrow> 'a pacing \<times> 'a dispatched list" where
  "pacer_run np zeros g [] = (g, [])"
| "pacer_run np zeros g (op # ops) =
     (let (g1, out1) = pacer_step np zeros g op; (g2, out2) = pacer_run np zeros g1 ops in (g2, out1 @ out2))"

definition init_pacing :: "(string, track_info) dict \<Rightarrow> int \<Rightarrow> real \<Rightarrow> 'a pacing" where
  "init_pacing video_tracks queue_depth fps = \<lparr>pg_pacer = init_pacer video_tracks queue_depth fps, pg_subs = []\<rparr>"

section \<open>Steps of a submission\<close>

text \<open>What one locked attempt can do: wait, end, or put the next frame within the bound it read.\<close>

lemma submit_locked_cases:
  obtains (wait) waiting where "submit_locked now p sb = (p, sb\<lparr>sb_waiting := waiting\<rparr>)"
  | (fin) aborted where "submit_locked now p sb = submit_end p sb aborted"
  | (put) capacity where "submit_locked now p sb = submit_put now p sb" "sb_frames sb \<noteq> []" "\<not> sb_done sb"
      "sb_capacity sb = Some capacity" "int (length (pc_queue p)) < capacity"
      "pc_epoch p = sb_epoch sb" "\<not> pc_closed p \<or> \<not> pc_stop p"
proof -
  consider "sb_done sb" | "\<not> sb_done sb" "sb_frames sb = []"
    | "\<not> sb_done sb" "sb_frames sb \<noteq> []" "sb_capacity sb = None"
    | c where "\<not> sb_done sb" "sb_frames sb \<noteq> []" "sb_capacity sb = Some c" by (cases "sb_capacity sb") auto
  then show thesis
  proof cases
    case 1
    show thesis by (rule wait [of "sb_waiting sb"]) (simp add: submit_locked_def 1)
  next
    case 2
    show thesis by (rule fin [of False]) (simp add: submit_locked_def 2)
  next
    case 3
    show thesis by (rule wait [of "sb_waiting sb"]) (simp add: submit_locked_def 3)
  next
    case (4 c)
    then have "submit_locked now p sb = (p, sb\<lparr>sb_waiting := True\<rparr>) \<or> (\<exists>a. submit_locked now p sb = submit_end p sb a) \<or>
        submit_locked now p sb = submit_put now p sb \<and> int (length (pc_queue p)) < c \<and> pc_epoch p = sb_epoch sb \<and>
        (\<not> pc_closed p \<or> \<not> pc_stop p)"
      unfolding submit_locked_def by auto
    with 4 wait [of True] fin put [of c] show thesis by blast
  qed
qed

lemma submit_end_fields [simp]:
  "pc_queue (fst (submit_end p sb a)) = pc_queue p" "pc_epoch (fst (submit_end p sb a)) = pc_epoch p"
  "pc_closed (fst (submit_end p sb a)) = pc_closed p" "pc_stop (fst (submit_end p sb a)) = pc_stop p"
  "pc_depth (fst (submit_end p sb a)) = pc_depth p" "pc_black_pending (fst (submit_end p sb a)) = pc_black_pending p"
  "pc_last_frame (fst (submit_end p sb a)) = pc_last_frame p"
  "sb_epoch (snd (submit_end p sb a)) = sb_epoch sb" "sb_capacity (snd (submit_end p sb a)) = sb_capacity sb"
  "sb_n_frames (snd (submit_end p sb a)) = sb_n_frames sb"
  by (simp_all add: submit_end_def)

lemma submit_put_fields [simp]:
  "pc_queue (fst (submit_put now p sb)) = pc_queue p @ [(hd (sb_frames sb), now)]"
  "pc_epoch (fst (submit_put now p sb)) = pc_epoch p" "pc_closed (fst (submit_put now p sb)) = pc_closed p"
  "pc_depth (fst (submit_put now p sb)) = pc_depth p" "sb_epoch (snd (submit_put now p sb)) = sb_epoch sb"
  "sb_capacity (snd (submit_put now p sb)) = None" "sb_n_frames (snd (submit_put now p sb)) = sb_n_frames sb"
  by (simp_all add: submit_put_def)

lemma submit_locked_fields [simp]:
  "pc_epoch (fst (submit_locked now p sb)) = pc_epoch p" "pc_depth (fst (submit_locked now p sb)) = pc_depth p"
  "pc_closed (fst (submit_locked now p sb)) = pc_closed p"
  "sb_epoch (snd (submit_locked now p sb)) = sb_epoch sb" "sb_n_frames (snd (submit_locked now p sb)) = sb_n_frames sb"
  by (rule submit_locked_cases [of now p sb]; simp)+

lemma submit_locked_stale:
  assumes "pc_epoch p \<noteq> sb_epoch sb \<or> pc_closed p \<and> pc_stop p"
  shows "pc_queue (fst (submit_locked now p sb)) = pc_queue p"
    and "pc_black_pending (fst (submit_locked now p sb)) = pc_black_pending p"
    and "pc_last_frame (fst (submit_locked now p sb)) = pc_last_frame p"
    and "pc_stop (fst (submit_locked now p sb)) = pc_stop p"
  using assms by (rule_tac submit_locked_cases [of now p sb]; simp)+

lemma submit_capacity_fields [simp]:
  "sb_epoch (submit_capacity p sb) = sb_epoch sb" "sb_n_frames (submit_capacity p sb) = sb_n_frames sb"
  by (simp_all add: submit_capacity_def)

lemma submit_begin_fields:
  "pc_queue (fst (submit_begin np p c)) = pc_queue p" "pc_epoch (fst (submit_begin np p c)) = pc_epoch p"
  "pc_depth (fst (submit_begin np p c)) = pc_depth p" "pc_closed (fst (submit_begin np p c)) = pc_closed p"
  "snd (submit_begin np p c) = Inr sb \<Longrightarrow>
     sb_epoch sb = pc_epoch p \<and> sb_capacity sb = None \<and> sb_n_frames sb = mc_n_frames c"
  by (auto simp: submit_begin_def Let_def)

section \<open>Flushing\<close>

text \<open>No submission is ahead of the pacer's epoch; after a flush every one is behind it.\<close>

definition epochs_ok :: "'a pacing \<Rightarrow> bool" where
  "epochs_ok g \<longleftrightarrow> (\<forall>sb \<in> set (pg_subs g). sb_epoch sb \<le> pc_epoch (pg_pacer g))"

lemma tick_fields [simp]:
  "pc_epoch (fst (tick np zeros p)) = pc_epoch p" "pc_depth (fst (tick np zeros p)) = pc_depth p"
  "pc_closed (fst (tick np zeros p)) = pc_closed p" "pc_stop (fst (tick np zeros p)) = pc_stop p"
  "pc_queue (fst (tick np zeros p)) = tl (pc_queue p)"
  by (auto simp: tick_def note_dims_def split: list.splits option.splits)

lemma epochs_ok_step: "epochs_ok g \<Longrightarrow> epochs_ok (fst (pacer_step np zeros g op))"
proof (cases op)
  case (OpSubmit chunk)
  assume ok: "epochs_ok g"
  obtain p r where b: "submit_begin np (pg_pacer g) chunk = (p, r)" by fastforce
  with submit_begin_fields [of np "pg_pacer g" chunk] OpSubmit ok show ?thesis
    by (auto simp: epochs_ok_def split: sum.splits)
next
  case (OpCapacity i)
  assume "epochs_ok g"
  with OpCapacity show ?thesis
    by (auto simp: epochs_ok_def dest: set_update_subset_insert [THEN subsetD])
next
  case (OpLocked i now)
  assume "epochs_ok g"
  with OpLocked show ?thesis
    by (auto simp: epochs_ok_def split_beta Let_def dest: set_update_subset_insert [THEN subsetD])
qed (auto simp: epochs_ok_def flush_def set_rate_def set_depth_def start_pacer_def stop_signal_def stop_close_def stop_end_def
    split_beta Let_def intro: le_SucI)

interpretation epochs: step_invariant "\<lambda>g op. fst (pacer_step np zeros g op)" epochs_ok for np zeros
  by unfold_locales (rule epochs_ok_step)

lemma pacer_run_fst: "fst (pacer_run np zeros g ops) = foldl (\<lambda>g op. fst (pacer_step np zeros g op)) g ops"
  by (induction ops arbitrary: g) (simp_all add: split_beta Let_def)

lemma init_epochs_ok: "epochs_ok (init_pacing vt d fps)"
  by (simp add: epochs_ok_def init_pacing_def)

lemma run_epochs_ok: "epochs_ok (fst (pacer_run np zeros (init_pacing vt d fps) ops))"
  unfolding pacer_run_fst by (rule epochs.run_keeps) (rule init_epochs_ok)

text \<open>A pacer that has been cut: nothing to play, and every submission in flight is void.\<close>

definition cut :: "'a pacing \<Rightarrow> bool" where
  "cut g \<longleftrightarrow> pc_queue (pg_pacer g) = [] \<and> pc_last_frame (pg_pacer g) = None \<and>
     (\<forall>sb \<in> set (pg_subs g). sb_epoch sb \<noteq> pc_epoch (pg_pacer g))"

fun brings_media :: "'a pacer_op \<Rightarrow> bool" where
  "brings_media (OpSubmit _) = True"
| "brings_media (OpFlush _) = True"
| "brings_media _ = False"

lemma cut_step:
  assumes "cut g" and "\<not> brings_media op"
  shows "cut (fst (pacer_step np zeros g op)) \<and>
    (snd (pacer_step np zeros g op) = [] \<and>
       pc_black_pending (pg_pacer (fst (pacer_step np zeros g op))) = pc_black_pending (pg_pacer g) \<or>
     pc_black_pending (pg_pacer g) \<and> \<not> pc_black_pending (pg_pacer (fst (pacer_step np zeros g op))) \<and>
       (\<exists>p. snd (pacer_step np zeros g op) = [BlackFrame (black_bundle zeros p)]))"
proof (cases op)
  case (OpCapacity i)
  with assms show ?thesis
    by (auto simp: cut_def dest: set_update_subset_insert [THEN subsetD])
next
  case (OpLocked i now)
  show ?thesis
  proof (cases "i < length (pg_subs g)")
    case True
    then have "pc_epoch (pg_pacer g) \<noteq> sb_epoch (pg_subs g ! i)"
      using assms(1) by (auto simp: cut_def)
    with assms(1) True OpLocked submit_locked_stale [of "pg_pacer g" "pg_subs g ! i" now] show ?thesis
      by (auto simp: cut_def split_beta Let_def dest: set_update_subset_insert [THEN subsetD])
  qed (use assms OpLocked in simp)
next
  case OpTick
  with assms show ?thesis
    by (auto simp: cut_def tick_def split_beta Let_def)
qed (use assms in \<open>auto simp: cut_def set_rate_def set_depth_def start_pacer_def stop_signal_def stop_close_def stop_end_def\<close>)

lemma cut_run:
  "cut g \<Longrightarrow> \<forall>op \<in> set ops. \<not> brings_media op \<Longrightarrow>
   snd (pacer_run np zeros g ops) = [] \<or>
   pc_black_pending (pg_pacer g) \<and> (\<exists>p. snd (pacer_run np zeros g ops) = [BlackFrame (black_bundle zeros p)])"
proof (induction ops arbitrary: g)
  case (Cons op ops)
  have "\<not> brings_media op" using Cons.prems(2) by simp
  note step = cut_step [OF Cons.prems(1) this, of np zeros]
  then have "cut (fst (pacer_step np zeros g op))" by simp
  from Cons.IH [OF this] Cons.prems(2) step show ?case
    by (auto simp: split_beta Let_def)
qed simp

text \<open>
  A flush is one clean cut: whatever was queued, being submitted or last shown, after a flush
  and until new media is submitted (or another flush made), the wire gets nothing of it, only one
  black frame for a plain flush and nothing at all for one that holds the picture, however the
  ticks, the producers still in flight and the other controls interleave.
\<close>

theorem flush_is_clean_cut:
  assumes "\<forall>op \<in> set ops. \<not> brings_media op"
  shows "let g = fst (pacer_run np zeros (init_pacing vt d fps) before);
             out = snd (pacer_run np zeros (fst (pacer_step np zeros g (OpFlush hold))) ops)
         in out = [] \<or> \<not> hold \<and> (\<exists>p. out = [BlackFrame (black_bundle zeros p)])"
proof -
  define g where "g = fst (pacer_run np zeros (init_pacing vt d fps) before)"
  have "epochs_ok g" unfolding g_def by (rule run_epochs_ok)
  then have "cut (fst (pacer_step np zeros g (OpFlush hold)))"
    by (fastforce simp: cut_def epochs_ok_def flush_def)
  from cut_run [OF this assms, of np zeros] show ?thesis
    unfolding g_def [symmetric] by (auto simp: Let_def flush_def)
qed

lemma closed_step:
  assumes "pc_closed (pg_pacer g)" and "pc_stop (pg_pacer g)"
  shows "pc_closed (pg_pacer (fst (pacer_step np zeros g op))) \<and> pc_stop (pg_pacer (fst (pacer_step np zeros g op))) \<and>
    snd (pacer_step np zeros g op) = [] \<and>
    length (pc_queue (pg_pacer (fst (pacer_step np zeros g op)))) \<le> length (pc_queue (pg_pacer g))"
proof (cases op)
  case (OpSubmit chunk)
  obtain p r where b: "submit_begin np (pg_pacer g) chunk = (p, r)" by fastforce
  then have "pc_stop p" using assms(2) by (auto simp: submit_begin_def Let_def split: if_splits)
  with OpSubmit b submit_begin_fields [of np "pg_pacer g" chunk] assms show ?thesis
    by (auto split: sum.splits)
next
  case (OpLocked i now)
  with assms submit_locked_stale [of "pg_pacer g" "pg_subs g ! i" now] show ?thesis
    by (simp add: split_beta Let_def)
qed (use assms in \<open>simp_all add: flush_def set_rate_def set_depth_def start_pacer_def stop_signal_def stop_close_def stop_end_def\<close>)

lemma closed_run:
  "pc_closed (pg_pacer g) \<Longrightarrow> pc_stop (pg_pacer g) \<Longrightarrow>
   pc_stop (pg_pacer (fst (pacer_run np zeros g ops))) \<and> snd (pacer_run np zeros g ops) = [] \<and>
   length (pc_queue (pg_pacer (fst (pacer_run np zeros g ops)))) \<le> length (pc_queue (pg_pacer g))"
proof (induction ops arbitrary: g)
  case (Cons op ops)
  note step = closed_step [OF Cons.prems, of np zeros op]
  from Cons.IH [of "fst (pacer_step np zeros g op)"] step show ?case
    by (auto simp: split_beta Let_def intro: order_trans)
qed simp

text \<open>
  Stopping is final: once a stop has signalled the thread and closed the queue, no submission,
  new or in flight, puts another frame in the queue, and neither a start nor anything else makes
  the pacing thread dispatch again; and when the stop has drained the queue nothing is held.
\<close>

theorem stop_is_final:
  "let g = fst (pacer_run np zeros g0 [OpStopSignal, OpStopClose]); (g', out) = pacer_run np zeros g ops
   in pc_stop (pg_pacer g') \<and> out = [] \<and>
      length (pc_queue (pg_pacer g')) \<le> length (pc_queue (pg_pacer g0)) \<and>
      pc_queue (pg_pacer (fst (pacer_step np zeros g' OpStopEnd))) = [] \<and>
      pc_last_frame (pg_pacer (fst (pacer_step np zeros g' OpStopEnd))) = None"
  using closed_run [of "fst (pacer_run np zeros g0 [OpStopSignal, OpStopClose])" np zeros ops]
  by (simp add: split_beta Let_def stop_signal_def stop_close_def stop_end_def)

definition pacer_within :: "int \<Rightarrow> 'a pacer \<Rightarrow> bool" where
  "pacer_within b p \<longleftrightarrow> pc_depth p \<le> b \<and> int (length (pc_queue p)) \<le> b"

definition sub_within :: "int \<Rightarrow> 'a submission \<Rightarrow> bool" where
  "sub_within b sb \<longleftrightarrow> int (sb_n_frames sb) \<le> b \<and> (case sb_capacity sb of None \<Rightarrow> True | Some c \<Rightarrow> c \<le> b)"

definition bounded :: "int \<Rightarrow> 'a pacing \<Rightarrow> bool" where
  "bounded b g \<longleftrightarrow> pacer_within b (pg_pacer g) \<and> list_all (sub_within b) (pg_subs g)"

fun op_within :: "int \<Rightarrow> 'a pacer_op \<Rightarrow> bool" where
  "op_within b (OpSubmit chunk) = (int (mc_n_frames chunk) \<le> b)"
| "op_within b (OpDepth d) = (d \<le> b)"
| "op_within b _ = True"

lemma list_all_update: "list_all P xs \<Longrightarrow> P x \<Longrightarrow> list_all P (xs[i := x])"
  by (auto simp: list_all_iff dest: set_update_subset_insert [THEN subsetD])

lemma pacer_within_controls:
  assumes "pacer_within b p" and "0 \<le> b"
  shows "pacer_within b (flush p hold)" "pacer_within b (set_rate p fps)" "pacer_within b (start_pacer p)"
    "pacer_within b (stop_signal p)" "pacer_within b (stop_close p)" "pacer_within b (stop_end p)"
    "dep \<le> b \<Longrightarrow> pacer_within b (set_depth p dep)"
  using assms
  by (simp_all add: pacer_within_def flush_def set_rate_def set_depth_def start_pacer_def stop_signal_def
      stop_close_def stop_end_def)

lemma pacer_within_tick: "pacer_within b p \<Longrightarrow> pacer_within b (fst (tick np zeros p))"
  by (cases "pc_queue p") (simp_all add: pacer_within_def)

lemma submit_within:
  assumes "pacer_within b p" and "int (mc_n_frames c) \<le> b"
  shows "pacer_within b (fst (submit_begin np p c))"
    and "snd (submit_begin np p c) = Inr sb \<Longrightarrow> sub_within b sb"
  using assms submit_begin_fields [of np p c] by (auto simp: pacer_within_def sub_within_def)

lemma capacity_within: "pacer_within b p \<Longrightarrow> sub_within b sb \<Longrightarrow> sub_within b (submit_capacity p sb)"
  by (simp add: pacer_within_def sub_within_def submit_capacity_def)

lemma locked_within:
  assumes "pacer_within b p" and "sub_within b sb"
  shows "pacer_within b (fst (submit_locked now p sb))" and "sub_within b (snd (submit_locked now p sb))"
  using assms by (rule_tac submit_locked_cases [of now p sb]; fastforce simp: pacer_within_def sub_within_def)+

lemma bounded_step:
  assumes "bounded b g" and "op_within b op" and "0 \<le> b"
  shows "bounded b (fst (pacer_step np zeros g op))"
proof -
  have p: "pacer_within b (pg_pacer g)" and s: "list_all (sub_within b) (pg_subs g)"
    using assms(1) by (simp_all add: bounded_def)
  have sb: "i < length (pg_subs g) \<Longrightarrow> sub_within b (pg_subs g ! i)" for i
    using s by (simp add: list_all_length)
  show ?thesis
  proof (cases op)
    case (OpSubmit chunk)
    then show ?thesis
      using submit_within [OF p, of chunk np] assms(2) s
      by (cases "submit_begin np (pg_pacer g) chunk") (auto simp: bounded_def split: sum.splits)
  next
    case (OpCapacity i)
    then show ?thesis
      using p s capacity_within [OF p sb, of i] by (simp add: bounded_def list_all_update)
  next
    case (OpLocked i now)
    then show ?thesis
      using p s locked_within [OF p sb, of i now]
      by (simp add: bounded_def list_all_update split_beta Let_def)
  next
    case OpTick
    then show ?thesis using p s pacer_within_tick [OF p] by (simp add: bounded_def split_beta Let_def)
  qed (use assms(2) p s pacer_within_controls [OF p assms(3)] in \<open>simp_all add: bounded_def\<close>)
qed

lemma bounded_run:
  "bounded b g \<Longrightarrow> list_all (op_within b) ops \<Longrightarrow> 0 \<le> b \<Longrightarrow> bounded b (fst (pacer_run np zeros g ops))"
  by (induction ops arbitrary: g) (simp_all add: split_beta Let_def bounded_step)

text \<open>
  The queue is bounded: as long as the depth and every chunk's size stay within a bound, so
  does the queue, whatever the interleaving of producers, ticks and controls.
\<close>

theorem pacer_queue_bounded:
  assumes "0 \<le> b" and "d \<le> b" and "list_all (op_within b) ops"
  shows "int (length (pc_queue (pg_pacer (fst (pacer_run np zeros (init_pacing vt d fps) ops))))) \<le> b"
proof -
  have "bounded b (init_pacing vt d fps)"
    using assms(1,2) by (simp add: bounded_def init_pacing_def init_pacer_def pacer_within_def)
  from bounded_run [OF this assms(3,1), of np zeros] show ?thesis
    by (simp add: bounded_def pacer_within_def)
qed

text \<open>Two frames as the witnesses use them, on arrays that are a shape and their values.\<close>

definition demo_chunk :: "int list \<Rightarrow> bool \<Rightarrow> (nat list \<times> int list) media_chunk" where
  "demo_chunk xs wait =
     \<lparr>mc_bundle = [(''v'', sample_track ''v'' VIDEO [length xs, 1, 1, 1] xs NoMeta)],
      mc_fps = 30, mc_n_frames = length xs, mc_wait = wait, mc_session = None, mc_emitted_at = None\<rparr>"

definition demo_zeros :: "nat list \<Rightarrow> nat list \<times> int list" where
  "demo_zeros sh = (sh, replicate (prod_list sh) 0)"

theorem pacer_queue_bounded_witness:
  "int (length (pc_queue (pg_pacer (fst (pacer_run flat_numpy demo_zeros (init_pacing [] 1 30)
     [OpSubmit (demo_chunk [5, 6] False), OpCapacity 0, OpLocked 0 0, OpDepth 2, OpCapacity 0, OpLocked 0 1]))))) \<le> 2"
  using pacer_queue_bounded [of 2 1 "[OpSubmit (demo_chunk [5, 6] False), OpCapacity 0, OpLocked 0 0, OpDepth 2,
      OpCapacity 0, OpLocked 0 1]" flat_numpy demo_zeros "[]" 30]
  by (simp add: demo_chunk_def)

theorem flush_is_clean_cut_witness:
  "let g = fst (pacer_run flat_numpy demo_zeros (init_pacing [] 1 30)
         [OpSubmit (demo_chunk [5, 6] False), OpCapacity 0, OpLocked 0 0, OpCapacity 0]);
       out = snd (pacer_run flat_numpy demo_zeros (fst (pacer_step flat_numpy demo_zeros g (OpFlush True)))
         [OpLocked 0 1, OpStartPacer, OpTick])
   in out = []"
  using flush_is_clean_cut [of "[OpLocked 0 1, OpStartPacer, OpTick]" flat_numpy demo_zeros "[]" 1 30
      "[OpSubmit (demo_chunk [5, 6] False), OpCapacity 0, OpLocked 0 0, OpCapacity 0]" True]
  by (simp add: Let_def)

section \<open>A channel of tickets\<close>

text \<open>
  What the pacer promises of real media, apart from black frames and repeats, told without frames,
  epochs and times: a line of tickets, each the number of a producer and of a frame of it. A
  producer asks for its next frame with the bound it read; it is turned away for good after a
  flush, once the channel is shut (unless it is inside, waiting for room), and, if it is one that
  waits, while the channel is off; otherwise its next ticket joins the end of the line when the line is below the
  bound, and when it is not the producer waits or gives up its remaining frames.
\<close>

record producer =
  pr_size :: nat
  pr_burst :: nat
  pr_waits :: bool
  pr_void :: bool
  pr_bound :: "int option"
  pr_inside :: bool
  pr_sent :: nat
  pr_over :: bool

record ticket_channel =
  cn_line :: "(nat \<times> nat) list"
  cn_producers :: "producer list"
  cn_depth :: int
  cn_on :: bool
  cn_shut :: bool

definition init_channel :: "int \<Rightarrow> ticket_channel" where
  "init_channel depth = \<lparr>cn_line = [], cn_producers = [], cn_depth = depth, cn_on = False, cn_shut = False\<rparr>"

definition turned_away :: "ticket_channel \<Rightarrow> producer \<Rightarrow> bool" where
  "turned_away c pr \<longleftrightarrow>
     cn_shut c \<and> \<not> (pr_waits pr \<and> pr_inside pr) \<or> pr_void pr \<or> pr_waits pr \<and> \<not> cn_on c"

text \<open>The producer after it asked, and whether its next ticket joined the line.\<close>

definition ask :: "ticket_channel \<Rightarrow> producer \<Rightarrow> producer \<times> bool" where
  "ask c pr =
     (if pr_over pr then (pr, False)
      else if pr_sent pr = pr_size pr then (pr\<lparr>pr_over := True\<rparr>, False)
      else case pr_bound pr of
        None \<Rightarrow> (pr, False)
      | Some bound \<Rightarrow>
          if turned_away c pr then (pr\<lparr>pr_over := True\<rparr>, False)
          else if int (length (cn_line c)) < bound
          then (pr\<lparr>pr_sent := pr_sent pr + 1, pr_bound := None, pr_inside := False\<rparr>, True)
          else if pr_waits pr then (pr\<lparr>pr_inside := True\<rparr>, False)
          else (pr\<lparr>pr_over := True\<rparr>, False))"

definition read_bound :: "ticket_channel \<Rightarrow> producer \<Rightarrow> producer" where
  "read_bound c pr =
     (if pr_over pr \<or> pr_sent pr = pr_size pr \<or> pr_bound pr \<noteq> None then pr
      else pr\<lparr>pr_bound := Some (max (cn_depth c) (int (pr_burst pr)))\<rparr>)"

text \<open>The frames of a chunk a submission takes on; a chunk that does not split is refused.\<close>

fun taken_on :: "'a numpy \<Rightarrow> 'a pacer_op \<Rightarrow> 'a media_bundle list list" where
  "taken_on np (OpSubmit chunk) = (case chunk_frames np chunk of Inl _ \<Rightarrow> [] | Inr frames \<Rightarrow> [frames])"
| "taken_on np _ = []"

fun channel_step :: "'a numpy \<Rightarrow> ticket_channel \<Rightarrow> 'a pacer_op \<Rightarrow> ticket_channel \<times> (nat \<times> nat) list" where
  "channel_step np c (OpSubmit chunk) =
     (c\<lparr>cn_producers := cn_producers c @ map (\<lambda>frames. \<lparr>pr_size = length frames, pr_burst = mc_n_frames chunk,
          pr_waits = mc_wait chunk, pr_void = False, pr_bound = None, pr_inside = False, pr_sent = 0, pr_over = False\<rparr>)
          (taken_on np (OpSubmit chunk))\<rparr>, [])"
| "channel_step np c (OpCapacity i) =
     (if i < length (cn_producers c)
      then c\<lparr>cn_producers := (cn_producers c)[i := read_bound c (cn_producers c ! i)]\<rparr> else c, [])"
| "channel_step np c (OpLocked i now) =
     (if i < length (cn_producers c)
      then let (pr, joined) = ask c (cn_producers c ! i)
           in c\<lparr>cn_producers := (cn_producers c)[i := pr],
                cn_line := cn_line c @ (if joined then [(i, pr_sent (cn_producers c ! i))] else [])\<rparr>
      else c, [])"
| "channel_step np c OpTick = (if cn_on c then (c\<lparr>cn_line := tl (cn_line c)\<rparr>, take 1 (cn_line c)) else (c, []))"
| "channel_step np c (OpFlush hold) =
     (c\<lparr>cn_line := [], cn_producers := map (\<lambda>pr. pr\<lparr>pr_void := True\<rparr>) (cn_producers c)\<rparr>, [])"
| "channel_step np c (OpRate fps) = (c, [])"
| "channel_step np c (OpDepth d) = (if d \<le> 0 then c else c\<lparr>cn_depth := d\<rparr>, [])"
| "channel_step np c OpStartPacer = (if cn_shut c then c else c\<lparr>cn_on := True\<rparr>, [])"
| "channel_step np c OpStopSignal = (c\<lparr>cn_on := False\<rparr>, [])"
| "channel_step np c OpStopClose = (c\<lparr>cn_shut := True\<rparr>, [])"
| "channel_step np c OpStopEnd = (c\<lparr>cn_line := []\<rparr>, [])"

fun channel_run :: "'a numpy \<Rightarrow> ticket_channel \<Rightarrow> 'a pacer_op list \<Rightarrow> ticket_channel \<times> (nat \<times> nat) list" where
  "channel_run np c [] = (c, [])"
| "channel_run np c (op # ops) =
     (let (c1, out1) = channel_step np c op; (c2, out2) = channel_run np c1 ops in (c2, out1 @ out2))"

text \<open>The channel gives every producer's tickets in order and each once.\<close>

abbreviation numbers_of :: "nat \<Rightarrow> (nat \<times> nat) list \<Rightarrow> nat list" where
  "numbers_of i ts \<equiv> map snd (filter (\<lambda>t. fst t = i) ts)"

definition sent_by :: "ticket_channel \<Rightarrow> nat \<Rightarrow> nat" where
  "sent_by c i = (if i < length (cn_producers c) then pr_sent (cn_producers c ! i) else 0)"

fun clears :: "'a pacer_op \<Rightarrow> bool" where
  "clears (OpFlush hold) \<longleftrightarrow> True"
| "clears OpStopEnd \<longleftrightarrow> True"
| "clears _ \<longleftrightarrow> False"

lemma ask_sent: "pr_sent (fst (ask c pr)) = pr_sent pr + (if snd (ask c pr) then 1 else 0)"
  by (simp add: ask_def split: option.split)

text \<open>A step moves tickets from the line to the wire, adds the next one of a producer, or clears the line.\<close>

lemma channel_step_line:
  assumes "channel_step np c op = (c', out)"
  shows "\<exists>new. (clears op \<longrightarrow> out @ cn_line c' = []) \<and> (\<not> clears op \<longrightarrow> out @ cn_line c' = cn_line c @ new) \<and>
    (\<forall>i. numbers_of i new = [sent_by c i..<sent_by c' i]) \<and> fst ` set new \<subseteq> {..<length (cn_producers c)}"
proof (cases "\<exists>i now. op = OpLocked i now \<and> i < length (cn_producers c) \<and> snd (ask c (cn_producers c ! i))")
  case True
  then obtain i now where op: "op = OpLocked i now" "i < length (cn_producers c)" "snd (ask c (cn_producers c ! i))" by auto
  then have "c' = c\<lparr>cn_producers := (cn_producers c)[i := fst (ask c (cn_producers c ! i))],
      cn_line := cn_line c @ [(i, sent_by c i)]\<rparr>" "out = []"
    using assms by (auto simp: split_beta Let_def sent_by_def)
  with op show ?thesis
    by (intro exI [of _ "[(i, sent_by c i)]"]) (auto simp: sent_by_def ask_sent nth_list_update)
next
  case False
  have "sent_by c' i = sent_by c i" for i
    using assms False
    by (cases op) (auto simp: sent_by_def split_beta Let_def ask_sent read_bound_def nth_list_update nth_append
        split: if_splits sum.splits)
  moreover have "clears op \<longrightarrow> out @ cn_line c' = []" "\<not> clears op \<longrightarrow> out @ cn_line c' = cn_line c"
    using assms False by (cases op; cases "cn_line c"; auto simp: split_beta Let_def split: if_splits)+
  ultimately show ?thesis by (intro exI [of _ "[]"]) auto
qed

text \<open>Every producer's tickets so far, on the wire and in the line, and what it has sent.\<close>

definition tickets_ok :: "bool \<Rightarrow> (nat \<times> nat) list \<times> ticket_channel \<Rightarrow> bool" where
  "tickets_ok whole s \<longleftrightarrow>
     (\<forall>i. sorted_wrt (<) (numbers_of i (fst s @ cn_line (snd s))) \<and>
          set (numbers_of i (fst s @ cn_line (snd s))) \<subseteq> {..<sent_by (snd s) i} \<and>
          (whole \<longrightarrow> numbers_of i (fst s @ cn_line (snd s)) = [0..<sent_by (snd s) i]))"

lemma sent_by_grows: "channel_step np c op = (c', out) \<Longrightarrow> sent_by c i \<le> sent_by c' i"
  by (cases op) (auto simp: sent_by_def split_beta Let_def ask_sent read_bound_def nth_list_update nth_append
      split: if_splits sum.splits)

lemma sorted_grows:
  assumes "sorted_wrt (<) ns" and "set ns \<subseteq> {..<m}" and "m \<le> (k :: nat)"
  shows "sorted_wrt (<) (ns @ [m..<k])" and "set (ns @ [m..<k]) \<subseteq> {..<k}"
  using assms by (auto simp: sorted_wrt_append intro: less_le_trans)

lemma tickets_step:
  assumes ok: "tickets_ok whole (h, c)" and step: "channel_step np c op = (c', out)" and keep: "whole \<longrightarrow> \<not> clears op"
  shows "tickets_ok whole (h @ out, c')"
  unfolding tickets_ok_def fst_conv snd_conv
proof (rule allI)
  fix i
  have old: "sorted_wrt (<) (numbers_of i (h @ cn_line c))" "set (numbers_of i (h @ cn_line c)) \<subseteq> {..<sent_by c i}"
    "whole \<longrightarrow> numbers_of i (h @ cn_line c) = [0..<sent_by c i]"
    using ok unfolding tickets_ok_def fst_conv snd_conv by blast+
  note le = sent_by_grows [OF step, of i]
  show "sorted_wrt (<) (numbers_of i ((h @ out) @ cn_line c')) \<and>
      set (numbers_of i ((h @ out) @ cn_line c')) \<subseteq> {..<sent_by c' i} \<and>
      (whole \<longrightarrow> numbers_of i ((h @ out) @ cn_line c') = [0..<sent_by c' i])"
  proof (cases "clears op")
    case True
    from channel_step_line [OF step] True have line: "out @ cn_line c' = []" by blast
    have "sorted_wrt (<) (numbers_of i h)" using old(1) by (simp add: sorted_wrt_append)
    moreover have "set (numbers_of i h) \<subseteq> {..<sent_by c' i}" using old(2) le by (auto intro: less_le_trans)
    ultimately show ?thesis using True keep line by simp
  next
    case False
    from channel_step_line [OF step] False obtain new where new: "out @ cn_line c' = cn_line c @ new"
      "numbers_of i new = [sent_by c i..<sent_by c' i]" by blast
    have all: "numbers_of i ((h @ out) @ cn_line c') = numbers_of i (h @ cn_line c) @ [sent_by c i..<sent_by c' i]"
      unfolding append_assoc new(1) by (simp only: filter_append map_append new(2) append_assoc)
    have "[0..<sent_by c i] @ [sent_by c i..<sent_by c' i] = [0..<sent_by c' i]"
      using upt_add_eq_append [of 0 "sent_by c i" "sent_by c' i - sent_by c i"] le by simp
    with sorted_grows [OF old(1,2) le] old(3) show ?thesis unfolding all by simp
  qed
qed

lemma tickets_run:
  "tickets_ok whole (h, c) \<Longrightarrow> (whole \<longrightarrow> list_all (\<lambda>op. \<not> clears op) ops) \<Longrightarrow>
   tickets_ok whole (h @ snd (channel_run np c ops), fst (channel_run np c ops))"
proof (induction ops arbitrary: h c)
  case (Cons op ops)
  obtain c' out where step: "channel_step np c op = (c', out)" by fastforce
  have "tickets_ok whole (h @ out, c')" by (rule tickets_step [OF Cons.prems(1) step]) (use Cons.prems(2) in simp)
  from Cons.IH [OF this] Cons.prems(2) show ?case by (simp add: step split_beta Let_def)
qed simp

section \<open>The pacer is that channel\<close>

definition pacer_content :: "'a pacing \<Rightarrow> 'a media_bundle list" where
  "pacer_content g = map fst (pc_queue (pg_pacer g))"

definition real_frames :: "'a dispatched list \<Rightarrow> 'a media_bundle list" where
  "real_frames ds = List.map_filter (\<lambda>d. case d of RealFrame b \<Rightarrow> Some b | _ \<Rightarrow> None) ds"

text \<open>The frame a ticket stands for, of the frames the submissions took on.\<close>

definition frame_of :: "'x list list \<Rightarrow> nat \<times> nat \<Rightarrow> 'x" where
  "frame_of fss t = fss ! fst t ! snd t"

lemma frame_of_append: "fst t < length fss \<Longrightarrow> frame_of (fss @ gss) t = frame_of fss t"
  by (simp add: frame_of_def nth_append)

definition same_producer :: "nat \<Rightarrow> 'a media_bundle list \<Rightarrow> producer \<Rightarrow> 'a submission \<Rightarrow> bool" where
  "same_producer epoch frames pr sb \<longleftrightarrow>
     sb_frames sb = drop (pr_sent pr) frames \<and> pr_sent pr \<le> length frames \<and> pr_size pr = length frames \<and>
     sb_n_frames sb = pr_burst pr \<and> sb_wait sb = pr_waits pr \<and> (sb_epoch sb \<noteq> epoch) = pr_void pr \<and> sb_epoch sb \<le> epoch \<and>
     sb_capacity sb = pr_bound pr \<and> sb_waiting sb = pr_inside pr \<and> sb_enqueued sb = pr_sent pr \<and> sb_done sb = pr_over pr"

definition same_pacer :: "'a media_bundle list list \<Rightarrow> ticket_channel \<Rightarrow> 'a pacer \<Rightarrow> bool" where
  "same_pacer fss c p \<longleftrightarrow>
     map fst (pc_queue p) = map (frame_of fss) (cn_line c) \<and> fst ` set (cn_line c) \<subseteq> {..<length fss} \<and>
     pc_depth p = cn_depth c \<and> pc_stop p = (\<not> cn_on c) \<and> pc_closed p = cn_shut c"

definition same_channel :: "'a media_bundle list list \<Rightarrow> ticket_channel \<Rightarrow> 'a pacing \<Rightarrow> bool" where
  "same_channel fss c g \<longleftrightarrow>
     same_pacer fss c (pg_pacer g) \<and> length (cn_producers c) = length fss \<and> length (pg_subs g) = length fss \<and>
     (\<forall>i < length fss. same_producer (pc_epoch (pg_pacer g)) (fss ! i) (cn_producers c ! i) (pg_subs g ! i))"

lemma real_frames_simps [simp]:
  "real_frames [] = []" "real_frames (RealFrame b # ds) = b # real_frames ds"
  "real_frames (BlackFrame b # ds) = real_frames ds" "real_frames (GapFill b # ds) = real_frames ds"
  "real_frames (ds @ es) = real_frames ds @ real_frames es"
  by (simp_all add: real_frames_def List.map_filter_def)

lemma tick_dispatches:
  "real_frames (case snd (tick np zeros p) of None \<Rightarrow> [] | Some d \<Rightarrow> [d]) = take 1 (map fst (pc_queue p))"
  by (cases "pc_queue p") (auto simp: tick_def split: option.splits)

text \<open>One attempt under the lock is one question to the channel.\<close>

lemma submit_locked_asks:
  assumes same: "same_producer (pc_epoch p) frames pr sb"
    and chan: "length (pc_queue p) = length (cn_line c)" "pc_stop p = (\<not> cn_on c)" "pc_closed p = cn_shut c"
  shows "same_producer (pc_epoch p) frames (fst (ask c pr)) (snd (submit_locked now p sb)) \<and>
    map fst (pc_queue (fst (submit_locked now p sb))) =
      map fst (pc_queue p) @ (if snd (ask c pr) then [frames ! pr_sent pr] else []) \<and>
    (snd (ask c pr) \<longrightarrow> pr_sent pr < length frames) \<and>
    pc_stop (fst (submit_locked now p sb)) = pc_stop p"
proof -
  have frames: "sb_frames sb = drop (pr_sent pr) frames" "pr_sent pr \<le> length frames" "pr_size pr = length frames"
    using same by (simp_all add: same_producer_def)
  have rest: "sb_frames sb = [] \<longleftrightarrow> pr_sent pr = pr_size pr" using frames by auto
  have next_frame: "hd (sb_frames sb) = frames ! pr_sent pr" "pr_sent pr < length frames" if "sb_frames sb \<noteq> []"
    using frames(1) that by (simp_all add: hd_drop_conv_nth)
  have tail: "tl (sb_frames sb) = drop (Suc (pr_sent pr)) frames"
    unfolding frames(1) by (simp add: drop_Suc tl_drop)
  show ?thesis
  proof (cases "sb_done sb \<or> sb_frames sb = [] \<or> sb_capacity sb = None")
    case True
    then consider "sb_done sb" | "\<not> sb_done sb" "sb_frames sb = []"
      | "\<not> sb_done sb" "sb_frames sb \<noteq> []" "sb_capacity sb = None" by (cases "sb_done sb"; cases "sb_frames sb = []") auto
    then show ?thesis
    proof cases
      case 1
      then have "submit_locked now p sb = (p, sb)" "ask c pr = (pr, False)"
        using same by (simp_all add: submit_locked_def ask_def same_producer_def)
      with same show ?thesis by simp
    next
      case 2
      then have "submit_locked now p sb = submit_end p sb False" "ask c pr = (pr\<lparr>pr_over := True\<rparr>, False)"
        using same rest by (simp_all add: submit_locked_def ask_def same_producer_def)
      with same show ?thesis by (simp add: same_producer_def submit_end_def)
    next
      case 3
      then have "submit_locked now p sb = (p, sb)" "ask c pr = (pr, False)"
        using same rest by (simp_all add: submit_locked_def ask_def same_producer_def)
      with same show ?thesis by simp
    qed
  next
    case False
    then obtain b where b: "sb_capacity sb = Some b" "\<not> sb_done sb" "sb_frames sb \<noteq> []" by auto
    have sides: "pr_bound pr = Some b" "\<not> pr_over pr" "pr_sent pr \<noteq> pr_size pr" "sb_wait sb = pr_waits pr"
      "sb_waiting sb = pr_inside pr" "pc_epoch p \<noteq> sb_epoch sb \<longleftrightarrow> pr_void pr"
      using same b rest by (auto simp: same_producer_def)
    consider "turned_away c pr" | "\<not> turned_away c pr" "int (length (cn_line c)) < b"
      | "\<not> turned_away c pr" "b \<le> int (length (cn_line c))" by linarith
    then show ?thesis
    proof cases
      case 1
      then have "submit_locked now p sb = submit_end p sb True" "ask c pr = (pr\<lparr>pr_over := True\<rparr>, False)"
        using b sides chan by (auto simp: submit_locked_def ask_def turned_away_def)
      with same show ?thesis by (simp add: same_producer_def submit_end_def)
    next
      case 2
      then have "submit_locked now p sb = submit_put now p sb"
        "ask c pr = (pr\<lparr>pr_sent := pr_sent pr + 1, pr_bound := None, pr_inside := False\<rparr>, True)"
        using b sides chan by (auto simp: submit_locked_def ask_def turned_away_def)
      with same next_frame [OF b(3)] tail show ?thesis by (simp add: same_producer_def submit_put_def)
    next
      case 3
      then have "submit_locked now p sb = (if sb_wait sb then (p, sb\<lparr>sb_waiting := True\<rparr>) else submit_end p sb False)"
        "ask c pr = (if pr_waits pr then pr\<lparr>pr_inside := True\<rparr> else pr\<lparr>pr_over := True\<rparr>, False)"
        using b sides chan by (auto simp: submit_locked_def ask_def turned_away_def)
      with same show ?thesis by (simp add: same_producer_def submit_end_def)
    qed
  qed
qed

lemma submit_capacity_reads:
  assumes "same_producer epoch frames pr sb" and "pc_depth p = cn_depth c"
  shows "same_producer epoch frames (read_bound c pr) (submit_capacity p sb)"
proof -
  have "sb_frames sb = [] \<longleftrightarrow> pr_sent pr = pr_size pr" using assms(1) by (auto simp: same_producer_def)
  with assms show ?thesis by (simp add: same_producer_def read_bound_def submit_capacity_def)
qed

lemma same_pacer_more:
  "same_pacer fss c p \<Longrightarrow> same_pacer (fss @ gss) c p"
  by (force simp: same_pacer_def frame_of_append)

lemma same_channel_step:
  assumes sim: "same_channel fss c g"
  shows "same_channel (fss @ taken_on np op) (fst (channel_step np c op)) (fst (pacer_step np zeros g op)) \<and>
    real_frames (snd (pacer_step np zeros g op)) = map (frame_of fss) (snd (channel_step np c op))"
proof -
  have pacer: "same_pacer fss c (pg_pacer g)" and len: "length (cn_producers c) = length fss" "length (pg_subs g) = length fss"
    and subs: "\<And>i. i < length fss \<Longrightarrow> same_producer (pc_epoch (pg_pacer g)) (fss ! i) (cn_producers c ! i) (pg_subs g ! i)"
    using sim by (simp_all add: same_channel_def)
  have line: "length (pc_queue (pg_pacer g)) = length (cn_line c)"
    using pacer by (metis length_map same_pacer_def)
  show ?thesis
  proof (cases op)
    case (OpSubmit chunk)
    define p1 where "p1 = (if mc_fps chunk > 0 then (pg_pacer g)\<lparr>pc_interval := 1 / mc_fps chunk\<rparr> else pg_pacer g)"
    have p1: "pc_epoch p1 = pc_epoch (pg_pacer g)" "same_pacer fss c p1"
      using pacer by (simp_all add: p1_def same_pacer_def)
    show ?thesis
    proof (cases "chunk_frames np chunk")
      case (Inl e)
      with OpSubmit p1 len subs show ?thesis
        by (simp add: submit_begin_def p1_def [symmetric] Let_def same_channel_def)
    next
      case (Inr frames)
      have "same_pacer (fss @ [frames]) (c\<lparr>cn_producers := prs\<rparr>) p1" for prs
        using same_pacer_more [OF p1(2), of "[frames]"] by (simp add: same_pacer_def)
      with Inr OpSubmit p1 len subs show ?thesis
        by (auto simp: submit_begin_def p1_def [symmetric] Let_def same_channel_def nth_append same_producer_def less_Suc_eq)
    qed
  next
    case (OpCapacity i)
    show ?thesis
    proof (cases "i < length fss")
      case True
      have "pc_depth (pg_pacer g) = cn_depth c" using pacer by (simp add: same_pacer_def)
      note read = submit_capacity_reads [OF subs [OF True] this]
      from OpCapacity True pacer len subs read show ?thesis
        by (simp add: same_channel_def same_pacer_def nth_list_update)
    qed (use OpCapacity sim len in simp)
  next
    case (OpLocked i now)
    show ?thesis
    proof (cases "i < length fss")
      case True
      have flags: "pc_stop (pg_pacer g) = (\<not> cn_on c)" "pc_closed (pg_pacer g) = cn_shut c"
        using pacer by (simp_all add: same_pacer_def)
      note asked = submit_locked_asks [OF subs [OF True] line flags, of now]
      from OpLocked True pacer len subs asked show ?thesis
        by (auto simp: same_channel_def same_pacer_def nth_list_update split_beta Let_def frame_of_def)
    qed (use OpLocked sim len in simp)
  next
    case OpTick
    have "take 1 (map fst (pc_queue (pg_pacer g))) = map (frame_of fss) (take 1 (cn_line c))"
      using pacer by (simp add: same_pacer_def take_map)
    moreover have "same_pacer fss (c\<lparr>cn_line := tl (cn_line c)\<rparr>) (fst (tick np zeros (pg_pacer g)))"
      using pacer by (cases "cn_line c") (auto simp: same_pacer_def map_tl)
    ultimately show ?thesis
      using OpTick sim tick_dispatches [of np zeros "pg_pacer g"]
      by (auto simp: same_channel_def same_pacer_def split_beta Let_def)
  next
    case (OpFlush hold)
    with len subs pacer show ?thesis
      by (fastforce simp: same_channel_def same_pacer_def flush_def same_producer_def)
  qed (use sim in \<open>auto simp: same_channel_def same_pacer_def set_rate_def set_depth_def start_pacer_def stop_signal_def
      stop_close_def stop_end_def\<close>)
qed

lemma channel_out_range:
  "same_channel fss c g \<Longrightarrow> fst ` set (snd (channel_step np c op)) \<subseteq> {..<length fss}"
  by (cases op) (auto simp: same_channel_def same_pacer_def dest: in_set_takeD)

lemma same_channel_run:
  "same_channel fss c g \<Longrightarrow>
   same_channel (fss @ concat (map (taken_on np) ops)) (fst (channel_run np c ops)) (fst (pacer_run np zeros g ops)) \<and>
   real_frames (snd (pacer_run np zeros g ops)) =
     map (frame_of (fss @ concat (map (taken_on np) ops))) (snd (channel_run np c ops))"
proof (induction ops arbitrary: fss c g)
  case (Cons op ops)
  note step = same_channel_step [OF Cons.prems, of np op zeros]
  from Cons.IH [OF conjunct1 [OF step]] step channel_out_range [OF Cons.prems, of np op]
  show ?case by (auto simp: split_beta Let_def frame_of_append)
qed (simp add: same_channel_def)

lemma init_same_channel: "same_channel [] (init_channel d) (init_pacing vt d fps)"
  by (simp add: same_channel_def same_pacer_def init_channel_def init_pacing_def init_pacer_def)

text \<open>
  C6. The pacer is a first-in first-out channel: every run of producers, ticks and controls of a
  new pacer is, step by step, the run of the ticket channel on the same operations. The frames on
  the wire and in the queue are the frames its tickets stand for, and every submission has
  enqueued what its producer has sent. And the channel keeps every producer's frames in order
  and gives none twice; as long as nothing is flushed or drained, the tickets of a
  producer on the wire followed by those in the line are exactly its first frames, none left out, however many
  producers interleave.
\<close>

theorem pacer_refines_fifo:
  fixes np :: "'a numpy" and zeros :: "nat list \<Rightarrow> 'a" and ops :: "'a pacer_op list" and vt :: "(string, track_info) dict"
    and d :: int and fps :: real
  defines "r \<equiv> pacer_run np zeros (init_pacing vt d fps) ops" and "a \<equiv> channel_run np (init_channel d) ops"
    and "frame \<equiv> frame_of (concat (map (taken_on np) ops))"
  shows "real_frames (snd r) = map frame (snd a) \<and> pacer_content (fst r) = map frame (cn_line (fst a)) \<and>
    map sb_enqueued (pg_subs (fst r)) = map pr_sent (cn_producers (fst a)) \<and>
    (\<forall>i < length (cn_producers (fst a)).
       sorted_wrt (<) (numbers_of i (snd a @ cn_line (fst a))) \<and>
       (list_all (\<lambda>op. \<not> clears op) ops \<longrightarrow>
          numbers_of i (snd a @ cn_line (fst a)) = [0..<pr_sent (cn_producers (fst a) ! i)]))"
proof -
  note sim = same_channel_run [OF init_same_channel [of d vt fps], where np = np and ops = ops and zeros = zeros, simplified,
      folded r_def a_def frame_def]
  have "map sb_enqueued (pg_subs (fst r)) = map pr_sent (cn_producers (fst a))"
    using sim by (intro nth_equalityI) (auto simp: same_channel_def same_producer_def)
  moreover have "tickets_ok whole ([], init_channel d)" for whole
    by (simp add: tickets_ok_def init_channel_def sent_by_def)
  from tickets_run [OF this, of _ ops np, folded a_def]
  have "tickets_ok False (snd a, fst a)" "list_all (\<lambda>op. \<not> clears op) ops \<Longrightarrow> tickets_ok True (snd a, fst a)" by auto
  ultimately show ?thesis
    using sim by (auto simp: same_channel_def same_pacer_def pacer_content_def frame_def tickets_ok_def sent_by_def)
qed

definition demo_pacer_ops :: "(nat list \<times> int list) pacer_op list" where
  "demo_pacer_ops = [OpSubmit (demo_chunk [5, 6] True), OpCapacity 0, OpStartPacer, OpLocked 0 0, OpCapacity 0, OpLocked 0 1, OpTick]"

theorem pacer_refines_fifo_witness:
  "real_frames (snd (pacer_run flat_numpy demo_zeros (init_pacing [] 1 30) demo_pacer_ops)) =
     map (frame_of (concat (map (taken_on flat_numpy) demo_pacer_ops)))
       (snd (channel_run flat_numpy (init_channel 1) demo_pacer_ops)) \<and>
   numbers_of 0 (snd (channel_run flat_numpy (init_channel 1) demo_pacer_ops) @
     cn_line (fst (channel_run flat_numpy (init_channel 1) demo_pacer_ops))) = [0, 1]"
proof -
  have "length (cn_producers (fst (channel_run flat_numpy (init_channel 1) demo_pacer_ops))) = 1"
    "pr_sent (cn_producers (fst (channel_run flat_numpy (init_channel 1) demo_pacer_ops)) ! 0) = 2"
    "list_all (\<lambda>op. \<not> clears op) demo_pacer_ops"
    by code_simp+
  with pacer_refines_fifo [where np = flat_numpy and zeros = demo_zeros and ops = demo_pacer_ops and vt = "[]" and
      d = 1 and fps = 30]
  show ?thesis by (simp add: upt_rec)
qed

section \<open>A submission ends\<close>

text \<open>
  One round of a submission's loop against whatever state the pacer is in by then, and when such a
  round leaves it waiting.
\<close>

definition submit_round :: "real \<times> 'a pacer \<Rightarrow> 'a submission \<Rightarrow> 'a submission" where
  "submit_round e sb = snd (submit_locked (fst e) (snd e) (submit_capacity (snd e) sb))"

definition blocked :: "'a pacer \<Rightarrow> 'a submission \<Rightarrow> bool" where
  "blocked p sb \<longleftrightarrow> sb_wait sb \<and> \<not> pc_stop p \<and> (pc_closed p \<longrightarrow> sb_waiting sb) \<and> pc_epoch p = sb_epoch sb \<and>
     (case sb_capacity (submit_capacity p sb) of None \<Rightarrow> False | Some c \<Rightarrow> c \<le> int (length (pc_queue p)))"

fun unblocked_rounds :: "(real \<times> 'a pacer) list \<Rightarrow> 'a submission \<Rightarrow> nat" where
  "unblocked_rounds [] sb = 0"
| "unblocked_rounds (e # es) sb =
     (if blocked (snd e) sb then 0 else 1) + unblocked_rounds es (submit_round e sb)"

lemma submit_round_done [simp]: "sb_done sb \<Longrightarrow> submit_round e sb = sb"
  by (simp add: submit_round_def submit_locked_def submit_capacity_def)

lemma submit_round_progress:
  assumes "\<not> sb_done sb" and "\<not> blocked (snd e) sb"
  shows "sb_done (submit_round e sb) \<or> length (sb_frames sb) = Suc (length (sb_frames (submit_round e sb)))"
proof (cases "sb_frames sb = []")
  case True
  with assms(1) show ?thesis
    by (simp add: submit_round_def submit_capacity_def submit_locked_def submit_end_def)
next
  case False
  then obtain c where "sb_capacity (submit_capacity (snd e) sb) = Some c" "sb_frames (submit_capacity (snd e) sb) = sb_frames sb"
    "sb_done (submit_capacity (snd e) sb) = sb_done sb" "sb_wait (submit_capacity (snd e) sb) = sb_wait sb"
    "sb_waiting (submit_capacity (snd e) sb) = sb_waiting sb"
    using assms(1) by (cases "sb_capacity sb") (auto simp: submit_capacity_def)
  with assms False show ?thesis
    by (auto simp: submit_round_def submit_locked_def submit_end_def submit_put_def blocked_def split: if_splits)
qed

lemma submit_round_blocked: "blocked (snd e) sb \<Longrightarrow> length (sb_frames (submit_round e sb)) \<le> length (sb_frames sb)"
  by (auto simp: submit_round_def submit_locked_def submit_capacity_def blocked_def submit_end_def submit_put_def
      split: option.splits if_splits)

lemma submission_ends:
  "sb_done sb \<or> length (sb_frames sb) < unblocked_rounds es sb \<Longrightarrow> sb_done (foldl (\<lambda>sb e. submit_round e sb) sb es)"
proof (induction es arbitrary: sb)
  case (Cons e es)
  show ?case
  proof (cases "sb_done sb")
    case True
    with Cons.IH [of sb] show ?thesis by simp
  next
    case False
    show ?thesis
    proof (cases "blocked (snd e) sb")
      case True
      with Cons False submit_round_blocked [OF True] show ?thesis by simp
    next
      case not_blocked: False
      from submit_round_progress [OF False this] Cons False not_blocked show ?thesis by auto
    qed
  qed
qed simp

lemma unblocked_no_wait: "\<not> sb_wait sb \<Longrightarrow> unblocked_rounds es sb = length es"
proof (induction es arbitrary: sb)
  case (Cons e es)
  have "sb_wait (submit_round e sb) = sb_wait sb"
    by (auto simp: submit_round_def submit_locked_def submit_capacity_def submit_end_def submit_put_def
        split: option.splits)
  with Cons show ?case by (simp add: blocked_def)
qed simp

text \<open>
  A submission always ends: whatever the pacer's state is at each round, it is over after one
  round more than it has frames, not counting the rounds in which it waits for room; so a
  submission that prefers dropping to waiting never stalls, and one that waits ends as soon as
  the pacer has made room often enough, has been flushed or has stopped.
\<close>

theorem submission_terminates:
  "(length (sb_frames sb) < unblocked_rounds es sb \<longrightarrow> sb_done (foldl (\<lambda>sb e. submit_round e sb) sb es)) \<and>
   (\<not> sb_wait sb \<longrightarrow> length (sb_frames sb) < length es \<longrightarrow> sb_done (foldl (\<lambda>sb e. submit_round e sb) sb es)) \<and>
   (pc_closed p \<and> \<not> sb_waiting sb \<or> pc_stop p \<and> sb_wait sb \<or> pc_epoch p \<noteq> sb_epoch sb \<longrightarrow> \<not> blocked p sb)"
  using submission_ends [of sb es] unblocked_no_wait [of sb es] by (auto simp: blocked_def)

definition demo_waiting :: "(nat list \<times> int list) submission" where
  "demo_waiting = \<lparr>sb_frames = [[], []], sb_n_frames = 2, sb_wait = False, sb_epoch = 0, sb_capacity = None,
     sb_waiting = False, sb_enqueued = 0, sb_done = False\<rparr>"

theorem submission_terminates_witness:
  "sb_done (foldl (\<lambda>sb e. submit_round e sb) demo_waiting
     [(0, init_pacer [] 1 30), (1, init_pacer [] 4 30), (2, flush (init_pacer [] 1 30) True)])"
  using submission_terminates [of demo_waiting
      "[(0, init_pacer [] 1 30), (1, init_pacer [] 4 30), (2, flush (init_pacer [] 1 30) True)]" "init_pacer [] 1 30"]
  by (simp add: demo_waiting_def)

section \<open>Two windows\<close>

text \<open>
  A producer that waits for room keeps the bound it read before the wait: a larger depth set
  meanwhile wakes it, and it goes back to waiting although the queue is within the new bound.
\<close>

theorem blocked_producer_keeps_old_bound:
  assumes "sb_frames sb \<noteq> []" and "\<not> sb_done sb" and "sb_wait sb" and "sb_waiting sb" and "sb_capacity sb = Some c"
    and "c \<le> int (length (pc_queue p))" and "\<not> pc_closed p" and "\<not> pc_stop p" and "pc_epoch p = sb_epoch sb"
    and "int (length (pc_queue p)) < depth"
  shows "submit_locked now (set_depth p depth) sb = (set_depth p depth, sb) \<and>
    int (length (pc_queue (set_depth p depth))) < max (pc_depth (set_depth p depth)) (int (sb_n_frames sb))"
proof -
  have "0 < depth" using assms(10) by linarith
  with assms show ?thesis by (simp add: submit_locked_def set_depth_def)
qed

definition demo_still :: "int \<Rightarrow> (nat list \<times> int list) media_chunk" where
  "demo_still x =
     \<lparr>mc_bundle = [(''v'', sample_track ''v'' VIDEO [1, 1, 1] [x] NoMeta)], mc_fps = 30, mc_n_frames = 1,
      mc_wait = True, mc_session = None, mc_emitted_at = None\<rparr>"

definition demo_blocked :: "(nat list \<times> int list) pacing" where
  "demo_blocked = fst (pacer_run flat_numpy demo_zeros (init_pacing [] 1 30)
     [OpStartPacer, OpSubmit (demo_still 5), OpCapacity 0, OpLocked 0 0,
      OpSubmit (demo_still 6), OpCapacity 1, OpLocked 1 1])"

theorem blocked_producer_keeps_old_bound_witness:
  "submit_locked 2 (set_depth (pg_pacer demo_blocked) 9) (pg_subs demo_blocked ! 1) =
     (set_depth (pg_pacer demo_blocked) 9, pg_subs demo_blocked ! 1)"
  by (rule blocked_producer_keeps_old_bound [where c = 1, THEN conjunct1])
    (code_simp+)

text \<open>
  Stop releases the lifecycle lock before it closes the queue: a start made in between finds
  the pacer stopped but not closed and relaunches the pacing thread, which then goes on
  dispatching on a closed pacer.
\<close>

theorem start_during_stop_revives:
  "\<not> pc_closed (pg_pacer g) \<Longrightarrow>
   (let g' = fst (pacer_run np zeros g [OpStopSignal, OpStartPacer, OpStopClose]) in
    pc_closed (pg_pacer g') \<and> \<not> pc_stop (pg_pacer g') \<and> pc_running (pg_pacer g') \<and>
    (pc_queue (pg_pacer g) \<noteq> [] \<longrightarrow> snd (pacer_step np zeros g' OpTick) = [RealFrame (hd (pacer_content g))]))"
  by (cases "pc_queue (pg_pacer g)")
    (auto simp: Let_def split_beta stop_signal_def start_pacer_def stop_close_def tick_def pacer_content_def)

theorem start_during_stop_revives_witness:
  "pc_running (pg_pacer (fst (pacer_run flat_numpy demo_zeros (init_pacing [] 1 30)
     [OpStopSignal, OpStartPacer, OpStopClose])))"
  using start_during_stop_revives [of "init_pacing [] 1 30" flat_numpy demo_zeros]
  by (simp add: Let_def init_pacing_def init_pacer_def)

end
