(* ===== verification/AnnexB.thy ===== *)
theory AnnexB
  imports Prelude "HOL-Library.Word"
begin

unbundle bit_operations_syntax

text \<open>
  Reading one H.264 frame of a step request, \<^verbatim>\<open>transport/step_frames.py\<close>: the NAL
  units of an Annex B byte stream (\<open>nal_units\<close>, a search loop over \<open>bytes.find\<close>) and the check
  that a frame is one access unit with one picture (\<open>access_unit\<close>). The loop is shown equal to a
  one-pass split of the bytes at the start codes, and to invert the framing of well-formed units.
\<close>

type_synonym byte = "8 word"

abbreviation start_code :: "byte list" where
  "start_code \<equiv> [0, 0, 1]"

section \<open>The search loop\<close>

text \<open>\<open>bytes.find\<close> of the start code from an offset; \<open>-1\<close> is \<open>None\<close>.\<close>

function find_code :: "byte list \<Rightarrow> nat \<Rightarrow> nat option" where
  "find_code data i =
     (if length data < i + 3 then None
      else if take 3 (drop i data) = start_code then Some i
      else find_code data (i + 1))"
  by pat_completeness auto
termination by (relation "measure (\<lambda>(data, i). length data - i)") auto

declare find_code.simps [simp del]

text \<open>\<open>bytes.rstrip\<close> of zero bytes.\<close>

definition rstrip_zeros :: "byte list \<Rightarrow> byte list" where
  "rstrip_zeros xs = rev (dropWhile (\<lambda>b. b = 0) (rev xs))"

lemma find_code_Some:
  "find_code data i = Some j \<Longrightarrow> i \<le> j \<and> j + 3 \<le> length data \<and> take 3 (drop j data) = start_code"
proof (induction data i rule: find_code.induct)
  case (1 data i)
  then show ?case
    by (subst (asm) (2) find_code.simps) (fastforce split: if_splits)
qed

function nal_loop :: "byte list \<Rightarrow> nat option \<Rightarrow> byte list list \<Rightarrow> byte list list" where
  "nal_loop data None units = units"
| "nal_loop data (Some pos) units =
     (let start = pos + 3;
          following = find_code data start;
          unit = rstrip_zeros (take ((case following of None \<Rightarrow> length data | Some f \<Rightarrow> f) - start) (drop start data))
      in nal_loop data following (if unit \<noteq> [] then units @ [unit] else units))"
  by pat_completeness auto
termination
proof (relation "measure (\<lambda>(data, pos, units). case pos of None \<Rightarrow> 0 | Some i \<Rightarrow> Suc (length data - i))")
  fix data :: "byte list" and pos :: nat and units following start unit
  assume "start = pos + 3" and "following = find_code data start"
  then show "((data, following, if unit \<noteq> [] then units @ [unit] else units), data, Some pos, units)
      \<in> measure (\<lambda>(data, pos, units). case pos of None \<Rightarrow> 0 | Some i \<Rightarrow> Suc (length data - i))"
    using find_code_Some [of data start] by (auto split: option.splits)
qed simp

definition nal_units :: "byte list \<Rightarrow> byte list list" where
  "nal_units data = nal_loop data (find_code data 0) []"

section \<open>One access unit\<close>

definition IDR_NAL :: byte where "IDR_NAL = 5"

definition VCL_NALS :: "byte list" where "VCL_NALS = [1, 2, 3, 4, 5]"

definition ACCESS_UNIT_START_NALS :: "byte list" where "ACCESS_UNIT_START_NALS = [6, 7, 8, 9]"

definition nal_kind :: "byte list \<Rightarrow> byte" where
  "nal_kind unit = hd unit AND 0x1F"

definition starts_picture :: "byte list \<Rightarrow> bool" where
  "starts_picture unit \<longleftrightarrow> 1 < length unit \<and> (unit ! 1) AND 0x80 \<noteq> 0"

datatype au_problem = MoreThanOnePicture | MoreThanOneAccessUnit | NoPicture

fun access_loop :: "byte list list \<Rightarrow> byte option \<Rightarrow> au_problem + byte" where
  "access_loop [] first_vcl = (case first_vcl of None \<Rightarrow> Inl NoPicture | Some kind \<Rightarrow> Inr kind)"
| "access_loop (unit # units) first_vcl =
     (let kind = nal_kind unit
      in if kind \<in> set VCL_NALS then
           (if first_vcl \<noteq> None \<and> starts_picture unit then Inl MoreThanOnePicture
            else access_loop units (if first_vcl = None then Some kind else first_vcl))
         else if first_vcl \<noteq> None \<and> kind \<in> set ACCESS_UNIT_START_NALS then Inl MoreThanOneAccessUnit
         else access_loop units first_vcl)"

definition access_unit :: "byte list \<Rightarrow> au_problem + byte" where
  "access_unit data = access_loop (nal_units data) None"

definition slice_count :: "byte list \<Rightarrow> nat" where
  "slice_count data = length (filter (\<lambda>unit. nal_kind unit \<in> set VCL_NALS) (nal_units data))"

section \<open>The loop is a split at the start codes\<close>

text \<open>
  The reference: cut the bytes at every start code in one pass, and keep what follows the first
  one. The first segment is what precedes any start code.
\<close>

fun segments :: "byte list \<Rightarrow> byte list list" where
  "segments [] = [[]]"
| "segments (x # xs) =
     (if take 3 (x # xs) = start_code then [] # segments (drop 2 xs)
      else case segments xs of [] \<Rightarrow> [[x]] | s # ss \<Rightarrow> (x # s) # ss)"

definition units_of :: "byte list list \<Rightarrow> byte list list" where
  "units_of ss = filter (\<lambda>u. u \<noteq> []) (map rstrip_zeros ss)"

lemma segments_nonempty [simp]: "segments xs \<noteq> []"
  by (induction xs rule: segments.induct) (auto split: list.splits)

lemma find_code_step:
  "find_code data i =
     (if length data < i + 3 then None else if take 3 (drop i data) = start_code then Some i
      else find_code data (Suc i))"
  by (subst find_code.simps) simp

lemma segments_short: "length xs < 3 \<Longrightarrow> segments xs = [xs]"
proof (induction xs)
  case (Cons x xs)
  then have "take 3 (x # xs) \<noteq> start_code"
    by (auto dest: arg_cong [where f = length])
  with Cons show ?case by simp
qed simp

text \<open>Where the next start code is decides the first segment and the rest.\<close>

lemma segments_drop:
  "i \<le> length data \<Longrightarrow>
   segments (drop i data) =
     (case find_code data i of
        None \<Rightarrow> [drop i data]
      | Some j \<Rightarrow> take (j - i) (drop i data) # segments (drop (j + 3) data))"
proof (induction data i rule: find_code.induct)
  case (1 data i)
  show ?case
  proof (cases "length data < i + 3")
    case True
    then show ?thesis by (simp add: find_code_step [of data i] segments_short)
  next
    case long: False
    then obtain x xs where d: "drop i data = x # xs"
      by (cases "drop i data") auto
    then have tail: "drop (Suc i) data = xs"
      by (metis drop_Suc tl_drop list.sel(3))
    show ?thesis
    proof (cases "take 3 (drop i data) = start_code")
      case True
      moreover have "drop 2 xs = drop (i + 3) data"
        using tail by (metis add_Suc_right drop_drop add.commute numeral_2_eq_2 numeral_3_eq_3 add_Suc)
      ultimately show ?thesis
        using long by (simp add: find_code_step [of data i] d)
    next
      case False
      with 1(1) [OF long] 1(2) long d have IH: "segments xs = (case find_code data (Suc i) of None \<Rightarrow> [xs]
          | Some j \<Rightarrow> take (j - Suc i) xs # segments (drop (j + 3) data))"
        by (simp add: tail cong: option.case_cong)
      have "Suc i \<le> j" if "find_code data (Suc i) = Some j" for j
        using find_code_Some [OF that] by simp
      with False long d IH show ?thesis
        by (auto simp: find_code_step [of data i] d Suc_diff_le split: option.splits)
          (metis Suc_diff_le Suc_leD diff_Suc_Suc take_Suc_Cons)+
    qed
  qed
qed

lemma nal_loop_segments:
  "pos = Some i \<Longrightarrow> i + 3 \<le> length data \<Longrightarrow>
   nal_loop data pos units = units @ units_of (segments (drop (i + 3) data))"
proof (induction data pos units arbitrary: i rule: nal_loop.induct)
  case (2 data pos units)
  have i: "i = pos" using 2(2) by simp
  let ?f = "find_code data (pos + 3)"
  have seg: "segments (drop (pos + 3) data) =
      (case ?f of None \<Rightarrow> [drop (pos + 3) data]
       | Some j \<Rightarrow> take (j - (pos + 3)) (drop (pos + 3) data) # segments (drop (j + 3) data))"
    by (rule segments_drop) (use 2(3) i in simp)
  show ?case
  proof (cases ?f)
    case None
    with seg show ?thesis by (simp add: i units_of_def Let_def)
  next
    case (Some j)
    with 2(1) [OF refl refl refl, of j] find_code_Some [OF Some] seg show ?thesis
      by (simp add: i units_of_def Let_def)
  qed
qed simp

lemma nal_units_segments: "nal_units data = units_of (tl (segments data))"
proof -
  have "segments data = (case find_code data 0 of None \<Rightarrow> [data]
      | Some j \<Rightarrow> take j data # segments (drop (j + 3) data))"
    using segments_drop [of 0 data] by (simp cong: option.case_cong)
  then show ?thesis
    using find_code_Some [of data 0] nal_loop_segments [OF refl, of _ data "[]"]
    by (auto simp: nal_units_def units_of_def split: option.splits)
qed

text \<open>
  The search loop finds exactly the NAL units of the stream: it always ends, and its result is
  the one-pass split of the bytes at the start codes, without what precedes the first one, each
  unit stripped of trailing zeros and the empty ones left out.
\<close>

theorem nal_units_split: "nal_units data = units_of (tl (segments data))"
  by (rule nal_units_segments)

section \<open>Framing\<close>

definition annexb :: "byte list list \<Rightarrow> byte list" where
  "annexb units = concat (map (\<lambda>u. 0 # start_code @ u) units)"

text \<open>
  What H.264 promises of a NAL unit (emulation prevention and the trailing bits): no start code
  inside, and its last byte is not zero.
\<close>

definition wf_unit :: "byte list \<Rightarrow> bool" where
  "wf_unit u \<longleftrightarrow> u \<noteq> [] \<and> last u \<noteq> 0 \<and> tl (segments u) = []"

lemma tl_segments_Cons:
  "tl (segments (x # xs)) = [] \<longleftrightarrow> take 3 (x # xs) \<noteq> start_code \<and> tl (segments xs) = []"
  by (auto split: list.splits)

lemma segments_single: "tl (segments u) = [] \<Longrightarrow> segments u = [u]"
proof (induction u)
  case (Cons x xs)
  then show ?case unfolding tl_segments_Cons by simp
qed simp

lemma segments_unit:
  "wf_unit u \<Longrightarrow> segments (u @ 0 # start_code @ rest) = (u @ [0]) # segments rest"
proof (induction u)
  case (Cons x xs)
  have no: "take 3 (x # xs) \<noteq> start_code" and tl: "tl (segments xs) = []"
    using Cons.prems unfolding wf_unit_def tl_segments_Cons by simp_all
  have lst: "last (x # xs) \<noteq> 0" using Cons.prems by (simp add: wf_unit_def)
  have "take 3 (x # xs @ 0 # start_code @ rest) \<noteq> start_code"
  proof (cases xs)
    case Nil
    with lst show ?thesis by simp
  next
    case (Cons y ys)
    with lst no show ?thesis by (cases ys) auto
  qed
  moreover have "segments (xs @ 0 # start_code @ rest) = (xs @ [0]) # segments rest"
  proof (cases "xs = []")
    case True
    then show ?thesis by simp
  next
    case False
    with Cons lst tl show ?thesis by (simp add: wf_unit_def)
  qed
  ultimately show ?case by simp
qed (simp add: wf_unit_def)

lemma rstrip_unit [simp]: "wf_unit u \<Longrightarrow> rstrip_zeros u = u" "wf_unit u \<Longrightarrow> rstrip_zeros (u @ [0]) = u"
  by (auto simp: rstrip_zeros_def wf_unit_def last_rev [symmetric] hd_rev intro!: rev_swap [THEN iffD2] dropWhile_eq_self_iff [THEN iffD2])

lemma segments_annexb:
  "wf_unit u \<Longrightarrow> list_all wf_unit us \<Longrightarrow> units_of (segments (u @ annexb us)) = u # us"
proof (induction us arbitrary: u)
  case Nil
  then show ?case
    by (simp add: annexb_def units_of_def segments_single wf_unit_def [of u])
next
  case (Cons v us)
  then have "units_of (segments (u @ annexb (v # us))) = u # units_of (segments (v @ annexb us))"
    using segments_unit [OF Cons.prems(1), of "v @ annexb us"]
    by (simp add: annexb_def units_of_def) (simp add: wf_unit_def)
  with Cons show ?case by simp
qed

text \<open>
  Framing round trip: a frame built by putting a four-byte start code before each well-formed
  NAL unit is read back as exactly those units, in order.
\<close>

theorem nal_units_round_trip:
  assumes "list_all wf_unit units"
  shows "nal_units (annexb units) = units"
proof (cases units)
  case (Cons u us)
  have "tl (segments (annexb (u # us))) = segments (u @ annexb us)"
    by (simp add: annexb_def)
  with Cons assms segments_annexb [of u us] show ?thesis
    by (simp add: nal_units_segments)
qed (simp add: nal_units_segments annexb_def units_of_def)

theorem nal_units_round_trip_witness:
  "nal_units [0, 0, 0, 1, 0x65, 0x80, 0, 0, 0, 1, 0x41, 3] = [[0x65, 0x80], [0x41, 3]]"
  using nal_units_round_trip [of "[[0x65, 0x80], [0x41, 3]]"]
  by (simp add: annexb_def wf_unit_def)

section \<open>What an accepted frame holds\<close>

lemma access_loop_some:
  "access_loop units (Some k) = Inr k' \<longleftrightarrow>
     k' = k \<and> (\<forall>u \<in> set units. if nal_kind u \<in> set VCL_NALS then \<not> starts_picture u
        else nal_kind u \<notin> set ACCESS_UNIT_START_NALS)"
  by (induction units) (auto simp: Let_def)

lemma first_match:
  "(\<exists>us v vs. u # units = us @ v # vs \<and> (\<forall>x \<in> set us. \<not> P x) \<and> P v \<and> Q v vs) \<longleftrightarrow>
   (if P u then Q u units else \<exists>us v vs. units = us @ v # vs \<and> (\<forall>x \<in> set us. \<not> P x) \<and> P v \<and> Q v vs)"
  (is "?L \<longleftrightarrow> ?R")
proof
  assume ?L
  then show ?R by (auto simp: Cons_eq_append_conv) blast
next
  assume ?R
  then show ?L
  proof (cases "P u")
    case True
    with \<open>?R\<close> show ?thesis by (intro exI [of _ "[]"]) auto
  next
    case False
    with \<open>?R\<close> obtain us v vs where "units = us @ v # vs" "\<forall>x \<in> set us. \<not> P x" "P v" "Q v vs" by auto
    with False show ?thesis by (intro exI [of _ "u # us"]) auto
  qed
qed

lemma access_loop_none:
  "access_loop units None = Inr k \<longleftrightarrow>
     (\<exists>us v vs. units = us @ v # vs \<and> (\<forall>u \<in> set us. nal_kind u \<notin> set VCL_NALS) \<and>
        nal_kind v \<in> set VCL_NALS \<and> nal_kind v = k \<and> access_loop vs (Some k) = Inr k)"
proof (induction units)
  case (Cons u units)
  then show ?case
    unfolding first_match [where P = "\<lambda>u. nal_kind u \<in> set VCL_NALS"
        and Q = "\<lambda>v vs. nal_kind v = k \<and> access_loop vs (Some k) = Inr k"]
    by (auto simp: access_loop_some)
qed simp

text \<open>
  A frame is accepted exactly when it is one access unit with one picture: its units are some
  parameter sets and the like, then a first slice, whose type is what is returned, and after it
  no slice that starts another picture and no unit that starts another access unit.
\<close>

theorem access_unit_accepts:
  "access_unit data = Inr k \<longleftrightarrow>
     (\<exists>us v vs. nal_units data = us @ v # vs \<and> list_all (\<lambda>u. nal_kind u \<notin> set VCL_NALS) us \<and>
        nal_kind v \<in> set VCL_NALS \<and> nal_kind v = k \<and>
        list_all (\<lambda>u. if nal_kind u \<in> set VCL_NALS then \<not> starts_picture u
           else nal_kind u \<notin> set ACCESS_UNIT_START_NALS) vs)"
  unfolding access_unit_def access_loop_none access_loop_some list_all_iff by simp

lemma access_unit_slices: "access_unit data = Inr k \<Longrightarrow> 1 \<le> slice_count data"
  by (auto simp: access_unit_def access_loop_none slice_count_def)

end
