(* ===== verification/StepFrames.thy ===== *)
theory StepFrames
  imports AnnexB
begin

text \<open>
  The decode of a client's step request before the runner reads it,
  \<^verbatim>\<open>transport/step_frames.py\<close>: the check of each entry, the track decoders, and the gate
  that keeps a connection's messages in order while a request decodes.

  Protobuf and FFmpeg are parameters: \<open>decode_inbound\<close> parses a payload (\<open>None\<close> where it raises),
  and an \<open>av\<close> record holds what PyAV offers: opening a decoder (\<open>None\<close> where it raises), resetting
  it, feeding it one packet with its timestamp or the final flush, and a picture's size and RGB
  samples. Refusals name the entry and frame at fault, and the reason as a constructor. The gate's
  event loop is a step function: a submit, the drain task running from one await to the next, the
  end of a decode, and a close. A gate is not submitted to after it closes, so the \<open>finally\<close> of a
  cancelled drain, which only clears a marker that close has cleared, is not a step.
\<close>

section \<open>Requests\<close>

record wire_frame =
  wf_encoding :: int
  wf_data :: "byte list"
  wf_shape :: "int list"

record track_frames =
  tf_track :: string
  tf_frames :: "wire_frame list"

definition FRAME_ENCODING_UNSPECIFIED :: int where "FRAME_ENCODING_UNSPECIFIED = 0"
definition FRAME_ENCODING_RAW :: int where "FRAME_ENCODING_RAW = 1"
definition FRAME_ENCODING_H264 :: int where "FRAME_ENCODING_H264 = 2"

definition PASSTHROUGH :: "int list" where
  "PASSTHROUGH = [FRAME_ENCODING_UNSPECIFIED, FRAME_ENCODING_RAW]"

datatype client_message =
    RequestStep string "track_frames list"
  | UnpublishTrack string
  | OtherMessage

datatype payload = Text string | Binary "byte list"

record inbound =
  ib_payload :: payload
  ib_version :: protocol_version
  ib_channel :: channel

type_synonym inbound_parser = "byte list \<Rightarrow> channel \<Rightarrow> client_message option"

definition is_encoded :: "track_frames \<Rightarrow> bool" where
  "is_encoded entry \<longleftrightarrow> list_ex (\<lambda>f. wf_encoding f \<notin> set PASSTHROUGH) (tf_frames entry)"

definition encoded_step :: "inbound_parser \<Rightarrow> inbound \<Rightarrow> (string \<times> track_frames list) option" where
  "encoded_step decode_inbound m =
     (if ib_version m \<noteq> V1 \<or> ib_channel m \<noteq> DATA then None
      else case ib_payload m of
        Text _ \<Rightarrow> None
      | Binary raw \<Rightarrow>
          (case decode_inbound raw DATA of
             Some (RequestStep request_id media_input) \<Rightarrow>
               if list_ex is_encoded media_input then Some (request_id, media_input) else None
           | _ \<Rightarrow> None))"

definition unpublished_track :: "inbound_parser \<Rightarrow> inbound \<Rightarrow> string option" where
  "unpublished_track decode_inbound m =
     (if ib_version m \<noteq> V1 \<or> ib_channel m \<noteq> CONTROL then None
      else case ib_payload m of
        Text _ \<Rightarrow> None
      | Binary raw \<Rightarrow>
          (case decode_inbound raw CONTROL of Some (UnpublishTrack name) \<Rightarrow> Some name | _ \<Rightarrow> None))"

section \<open>Checking an entry\<close>

datatype fault_at = EntryAt nat | FrameAt nat nat

datatype refusal_reason =
    EncodingNotSupported int
  | NotAnInputVideoTrack string
  | NoData
  | NotOneAccessUnit au_problem
  | NotAtKeyframe
  | DoesNotDecode string
  | TooFewPictures nat nat
  | WrongShape "int list" "int list"

record step_frame_refusal =
  rf_entry :: fault_at
  rf_reason :: refusal_reason

record stream =
  st_index :: nat
  st_entry :: track_frames
  st_positions :: "nat list"
  st_sliced :: bool

abbreviation refuse :: "fault_at \<Rightarrow> refusal_reason \<Rightarrow> step_frame_refusal + 'a" where
  "refuse e r \<equiv> Inl \<lparr>rf_entry = e, rf_reason = r\<rparr>"

fun check_frames ::
  "nat \<Rightarrow> wire_frame list \<Rightarrow> nat list \<Rightarrow> bool \<Rightarrow> nat \<Rightarrow> step_frame_refusal + nat" where
  "check_frames index frames [] first slices = Inr slices"
| "check_frames index frames (position # positions) first slices =
     (let data = wf_data (frames ! position)
      in if data = [] then refuse (FrameAt index position) NoData
         else case access_unit data of
           Inl problem \<Rightarrow> refuse (FrameAt index position) (NotOneAccessUnit problem)
         | Inr first_vcl \<Rightarrow>
             if first \<and> first_vcl \<noteq> IDR_NAL then refuse (FrameAt index position) NotAtKeyframe
             else check_frames index frames positions False (if first then slice_count data else slices))"

definition h264_positions :: "wire_frame list \<Rightarrow> nat list" where
  "h264_positions frames = filter (\<lambda>p. wf_encoding (frames ! p) = FRAME_ENCODING_H264) [0..<length frames]"

definition check_entry ::
  "string list \<Rightarrow> nat \<Rightarrow> track_frames \<Rightarrow> step_frame_refusal + stream option" where
  "check_entry video_inputs index entry =
     (let frames = tf_frames entry in
      if \<not> is_encoded entry then Inr None
      else case find (\<lambda>p. wf_encoding (frames ! p) \<notin> set PASSTHROUGH \<and>
                          wf_encoding (frames ! p) \<noteq> FRAME_ENCODING_H264) [0..<length frames] of
        Some position \<Rightarrow>
          refuse (FrameAt index position) (EncodingNotSupported (wf_encoding (frames ! position)))
      | None \<Rightarrow>
          if tf_track entry \<notin> set video_inputs then refuse (EntryAt index) (NotAnInputVideoTrack (tf_track entry))
          else map_sum id (\<lambda>slices. Some \<lparr>st_index = index, st_entry = entry,
                   st_positions = h264_positions frames, st_sliced = 1 < slices\<rparr>)
                 (check_frames index frames (h264_positions frames) True 0))"

section \<open>Decoders\<close>

record ('d, 'pic, 'arr) av =
  av_create :: "bool \<Rightarrow> 'd option"
  av_flush :: "'d \<Rightarrow> 'd"
  av_decode :: "'d \<Rightarrow> (nat \<times> byte list) option \<Rightarrow> 'd \<times> (string + (nat option \<times> 'pic) list)"
  av_height :: "'pic \<Rightarrow> int"
  av_width :: "'pic \<Rightarrow> int"
  av_rgb :: "'pic \<Rightarrow> 'arr"

record 'd track_decoder =
  dc_sliced :: bool
  dc_codec :: 'd

definition new_decoder :: "('d, 'pic, 'arr) av \<Rightarrow> bool \<Rightarrow> 'd track_decoder option" where
  "new_decoder av sliced = map_option (\<lambda>c. \<lparr>dc_sliced = sliced, dc_codec = c\<rparr>) (av_create av sliced)"

definition keep_pictures :: "(nat option \<times> 'pic) list \<Rightarrow> (nat, 'pic) dict \<Rightarrow> (nat, 'pic) dict" where
  "keep_pictures ps decoded =
     foldl (\<lambda>dec p. case fst p of None \<Rightarrow> dec | Some pts \<Rightarrow> dict_set pts (snd p) dec) decoded ps"

fun feed ::
  "('d, 'pic, 'arr) av \<Rightarrow> 'd \<Rightarrow> (nat \<times> byte list) option list \<Rightarrow> (nat, 'pic) dict \<Rightarrow> 'd \<times> (string + (nat, 'pic) dict)" where
  "feed av c [] decoded = (c, Inr decoded)"
| "feed av c (packet # packets) decoded =
     (case av_decode av c packet of
        (c', Inl e) \<Rightarrow> (c', Inl e)
      | (c', Inr ps) \<Rightarrow> feed av c' packets (keep_pictures ps decoded))"

definition decode_packets ::
  "('d, 'pic, 'arr) av \<Rightarrow> 'd track_decoder \<Rightarrow> byte list list \<Rightarrow> 'd track_decoder \<times> (string + (nat, 'pic) dict)" where
  "decode_packets av dec packets =
     (let (c, r) = feed av (av_flush av (dc_codec dec)) (map Some (enumerate 0 packets) @ [None]) []
      in (dec\<lparr>dc_codec := c\<rparr>, r))"

section \<open>Decoding a request\<close>

type_synonym 'd decoders = "(string, 'd track_decoder) dict"

fun check_entries ::
  "string list \<Rightarrow> nat \<Rightarrow> track_frames list \<Rightarrow> stream list \<times> step_frame_refusal option" where
  "check_entries video_inputs index [] = ([], None)"
| "check_entries video_inputs index (entry # entries) =
     (case check_entry video_inputs index entry of
        Inl refusal \<Rightarrow> ([], Some refusal)
      | Inr checked \<Rightarrow>
          let (streams, refusal) = check_entries video_inputs (index + 1) entries
          in (case checked of None \<Rightarrow> streams | Some s \<Rightarrow> s # streams, refusal))"

abbreviation st_track :: "stream \<Rightarrow> string" where
  "st_track s \<equiv> tf_track (st_entry s)"

fun open_decoders :: "('d, 'pic, 'arr) av \<Rightarrow> stream list \<Rightarrow> 'd decoders \<Rightarrow> 'd decoders option" where
  "open_decoders av [] decoders = Some decoders"
| "open_decoders av (s # ss) decoders =
     (if (case dict_get decoders (st_track s) of None \<Rightarrow> True | Some dec \<Rightarrow> dc_sliced dec \<noteq> st_sliced s)
      then case new_decoder av (st_sliced s) of
             None \<Rightarrow> None
           | Some dec \<Rightarrow> open_decoders av ss (dict_set (st_track s) dec decoders)
      else open_decoders av ss decoders)"

definition by_track :: "stream list \<Rightarrow> (string, stream list) dict" where
  "by_track streams =
     foldl (\<lambda>groups s. dict_set (st_track s)
       ((case dict_get groups (st_track s) of None \<Rightarrow> [] | Some g \<Rightarrow> g) @ [s]) groups) [] streams"

definition stream_packets :: "stream \<Rightarrow> byte list list" where
  "stream_packets s = map (\<lambda>p. wf_data (tf_frames (st_entry s) ! p)) (st_positions s)"

definition decode_stream ::
  "('d, 'pic, 'arr) av \<Rightarrow> stream \<Rightarrow> 'd track_decoder \<Rightarrow> 'd track_decoder \<times> (step_frame_refusal + (nat, 'pic) dict)" where
  "decode_stream av s dec =
     (let (dec', r) = decode_packets av dec (stream_packets s)
      in (dec', map_sum (\<lambda>e. \<lparr>rf_entry = EntryAt (st_index s), rf_reason = DoesNotDecode e\<rparr>) id r))"

fun decode_group ::
  "('d, 'pic, 'arr) av \<Rightarrow> 'd track_decoder \<Rightarrow> stream list
     \<Rightarrow> 'd track_decoder \<times> (nat \<times> (step_frame_refusal + (nat, 'pic) dict)) list" where
  "decode_group av dec [] = (dec, [])"
| "decode_group av dec (s # ss) =
     (let (dec1, r) = decode_stream av s dec; (dec2, rs) = decode_group av dec1 ss
      in (dec2, (st_index s, r) # rs))"

text \<open>The groups run at once on the pool; each has its own decoder, so their order does not matter.\<close>

fun decode_groups ::
  "('d, 'pic, 'arr) av \<Rightarrow> (string \<times> stream list) list \<Rightarrow> 'd decoders
     \<Rightarrow> 'd decoders \<times> (nat \<times> (step_frame_refusal + (nat, 'pic) dict)) list" where
  "decode_groups av [] decoders = (decoders, [])"
| "decode_groups av ((track, ss) # groups) decoders =
     (case dict_get decoders track of
        None \<Rightarrow> decode_groups av groups decoders
      | Some dec \<Rightarrow>
          let (dec', rs) = decode_group av dec ss;
              (decoders', rest) = decode_groups av groups (dict_set track dec' decoders)
          in (decoders', rs @ rest))"

fun match_pictures ::
  "('d, 'pic, 'arr) av \<Rightarrow> stream \<Rightarrow> (nat, 'pic) dict \<Rightarrow> (nat \<times> nat) list
     \<Rightarrow> (step_frame_refusal + ((nat \<times> nat) \<times> 'pic) list) option" where
  "match_pictures av s decoded [] = Some (Inr [])"
| "match_pictures av s decoded ((i, position) # rest) =
     (case dict_get decoded i of
        None \<Rightarrow> None
      | Some picture \<Rightarrow>
          let shape = [av_height av picture, av_width av picture, 3];
              declared = wf_shape (tf_frames (st_entry s) ! position)
          in if declared \<noteq> [] \<and> declared \<noteq> shape
             then Some (refuse (FrameAt (st_index s) position) (WrongShape shape declared))
             else map_option (map_sum id (\<lambda>ps. ((st_index s, position), picture) # ps))
                    (match_pictures av s decoded rest))"

definition pictures_of ::
  "('d, 'pic, 'arr) av \<Rightarrow> stream \<Rightarrow> step_frame_refusal + (nat, 'pic) dict
     \<Rightarrow> (step_frame_refusal + ((nat \<times> nat) \<times> 'pic) list) option" where
  "pictures_of av s outcome =
     (case outcome of
        Inl refusal \<Rightarrow> Some (Inl refusal)
      | Inr decoded \<Rightarrow>
          if length decoded < length (st_positions s) then
            (case find (\<lambda>(i, p). dict_get decoded i = None) (enumerate 0 (st_positions s)) of
               None \<Rightarrow> None
             | Some (i, missing) \<Rightarrow>
                 Some (refuse (FrameAt (st_index s) missing) (TooFewPictures (length (st_positions s)) (length decoded))))
          else match_pictures av s decoded (enumerate 0 (st_positions s)))"

fun collect ::
  "('d, 'pic, 'arr) av \<Rightarrow> (nat \<times> (step_frame_refusal + (nat, 'pic) dict)) list \<Rightarrow> stream list
     \<Rightarrow> (step_frame_refusal + ((nat \<times> nat) \<times> 'pic) list) option" where
  "collect av decoded [] = Some (Inr [])"
| "collect av decoded (s # ss) =
     (case dict_get decoded (st_index s) of
        None \<Rightarrow> None
      | Some outcome \<Rightarrow>
          (case pictures_of av s outcome of
             None \<Rightarrow> None
           | Some (Inl refusal) \<Rightarrow> Some (Inl refusal)
           | Some (Inr ps) \<Rightarrow> map_option (map_sum id (\<lambda>qs. ps @ qs)) (collect av decoded ss)))"

definition decode_step_frames ::
  "('d, 'pic, 'arr) av \<Rightarrow> track_frames list \<Rightarrow> 'd decoders \<Rightarrow> string list
     \<Rightarrow> ('d decoders \<times> (step_frame_refusal + (nat \<times> nat, 'arr) dict)) option" where
  "decode_step_frames av media_input decoders video_inputs =
     (let (streams, refusal) = check_entries video_inputs 0 media_input
      in case open_decoders av streams decoders of
           None \<Rightarrow> None
         | Some opened \<Rightarrow>
             let (decoders', decoded) = decode_groups av (by_track streams) opened
             in (case collect av decoded streams of
                   None \<Rightarrow> None
                 | Some (Inl r) \<Rightarrow> Some (decoders', Inl r)
                 | Some (Inr frames) \<Rightarrow>
                     (case refusal of
                        Some r \<Rightarrow> Some (decoders', Inl r)
                      | None \<Rightarrow> Some (decoders', Inr (map (\<lambda>(key, f). (key, av_rgb av f)) frames)))))"

section \<open>The gate\<close>

datatype drain = NotDraining | Scheduled | Decoding inbound string "track_frames list"

record 'd gate =
  gt_video_inputs :: "string list"
  gt_backlog :: "inbound list"
  gt_draining :: drain
  gt_decoders :: "'d decoders"

datatype 'arr gate_output =
    Deliver inbound
  | DeliverStep inbound "(nat \<times> nat, 'arr) dict"
  | Reply inbound string step_frame_refusal

definition init_gate :: "string list \<Rightarrow> 'd gate" where
  "init_gate video_inputs =
     \<lparr>gt_video_inputs = video_inputs, gt_backlog = [], gt_draining = NotDraining, gt_decoders = []\<rparr>"

definition release :: "'d decoders \<Rightarrow> string list \<Rightarrow> 'd decoders" where
  "release decoders names = foldl (\<lambda>ds name. dict_del name ds) decoders names"

definition pass_decoders :: "inbound_parser \<Rightarrow> 'd decoders \<Rightarrow> inbound \<Rightarrow> 'd decoders" where
  "pass_decoders parse decoders m =
     (case unpublished_track parse m of None \<Rightarrow> decoders | Some name \<Rightarrow> release decoders [name])"

definition submit :: "inbound_parser \<Rightarrow> 'd gate \<Rightarrow> inbound \<Rightarrow> 'd gate \<times> 'arr gate_output list" where
  "submit parse g m =
     (if gt_draining g = NotDraining \<and> encoded_step parse m = None
      then (g\<lparr>gt_decoders := pass_decoders parse (gt_decoders g) m\<rparr>, [Deliver m])
      else (g\<lparr>gt_backlog := gt_backlog g @ [m],
              gt_draining := if gt_draining g = NotDraining then Scheduled else gt_draining g\<rparr>, []))"

text \<open>The drain task from a loop head to its next await, or to its end.\<close>

fun drain_loop :: "inbound_parser \<Rightarrow> inbound list \<Rightarrow> 'd gate \<Rightarrow> 'd gate \<times> 'arr gate_output list" where
  "drain_loop parse [] g = (g\<lparr>gt_backlog := [], gt_draining := NotDraining\<rparr>, [])"
| "drain_loop parse (m # ms) g =
     (case encoded_step parse m of
        None \<Rightarrow>
          let (g', out) = drain_loop parse ms (g\<lparr>gt_decoders := pass_decoders parse (gt_decoders g) m\<rparr>)
          in (g', Deliver m # out)
      | Some (request_id, media_input) \<Rightarrow>
          (g\<lparr>gt_backlog := ms, gt_draining := Decoding m request_id media_input\<rparr>, []))"

definition start_drain :: "inbound_parser \<Rightarrow> 'd gate \<Rightarrow> 'd gate \<times> 'arr gate_output list" where
  "start_drain parse g =
     (case gt_draining g of Scheduled \<Rightarrow> drain_loop parse (gt_backlog g) g | _ \<Rightarrow> (g, []))"

definition decode_done ::
  "('d, 'pic, 'arr) av \<Rightarrow> inbound_parser \<Rightarrow> 'd gate \<Rightarrow> 'd gate \<times> 'arr gate_output list" where
  "decode_done av parse g =
     (case gt_draining g of
        Decoding m request_id media_input \<Rightarrow>
          (case decode_step_frames av media_input (gt_decoders g) (gt_video_inputs g) of
             None \<Rightarrow> (g\<lparr>gt_draining := NotDraining\<rparr>, [])
           | Some (decoders, outcome) \<Rightarrow>
               let g1 = g\<lparr>gt_decoders := foldl (\<lambda>ds kd. dict_set (fst kd) (snd kd) ds) (gt_decoders g) decoders\<rparr>;
                   (g2, out) = drain_loop parse (gt_backlog g1) g1
               in (g2, (case outcome of Inl r \<Rightarrow> Reply m request_id r | Inr pictures \<Rightarrow> DeliverStep m pictures) # out))
      | _ \<Rightarrow> (g, []))"

definition close_gate :: "'d gate \<Rightarrow> 'd gate" where
  "close_gate g =
     g\<lparr>gt_backlog := [], gt_decoders := release (gt_decoders g) (dict_keys (gt_decoders g)), gt_draining := NotDraining\<rparr>"

datatype gate_op = Submit inbound | RunDrain | DecodeDone | CloseGate

fun gate_step ::
  "('d, 'pic, 'arr) av \<Rightarrow> inbound_parser \<Rightarrow> 'd gate \<Rightarrow> gate_op \<Rightarrow> 'd gate \<times> 'arr gate_output list" where
  "gate_step av parse g (Submit m) = submit parse g m"
| "gate_step av parse g RunDrain = start_drain parse g"
| "gate_step av parse g DecodeDone = decode_done av parse g"
| "gate_step av parse g CloseGate = (close_gate g, [])"

fun gate_run ::
  "('d, 'pic, 'arr) av \<Rightarrow> inbound_parser \<Rightarrow> 'd gate \<Rightarrow> gate_op list \<Rightarrow> 'd gate \<times> 'arr gate_output list" where
  "gate_run av parse g [] = (g, [])"
| "gate_run av parse g (op # ops) =
     (let (g1, out1) = gate_step av parse g op; (g2, out2) = gate_run av parse g1 ops in (g2, out1 @ out2))"

section \<open>Checked streams\<close>

lemma h264_encoded: "h264_positions (tf_frames e) \<noteq> [] \<Longrightarrow> is_encoded e"
proof -
  assume "h264_positions (tf_frames e) \<noteq> []"
  then obtain p where "p < length (tf_frames e)" "wf_encoding (tf_frames e ! p) = FRAME_ENCODING_H264"
    by (auto simp: h264_positions_def filter_empty_conv)
  then show ?thesis
    by (auto simp: is_encoded_def list_ex_iff PASSTHROUGH_def FRAME_ENCODING_H264_def FRAME_ENCODING_RAW_def
        FRAME_ENCODING_UNSPECIFIED_def intro!: bexI [of _ "tf_frames e ! p"])
qed

lemma check_entry_stream:
  assumes "check_entry vi index entry = Inr checked"
  shows "case checked of
      None \<Rightarrow> h264_positions (tf_frames entry) = []
    | Some s \<Rightarrow> st_index s = index \<and> st_entry s = entry \<and> st_positions s = h264_positions (tf_frames entry) \<and>
        tf_track entry \<in> set vi"
  using assms h264_encoded [of entry]
  by (auto simp: check_entry_def Let_def split: if_splits option.splits)

lemma check_entries_streams:
  assumes "check_entries vi index entries = (streams, refusal)"
  shows "s \<in> set streams \<Longrightarrow> index \<le> st_index s \<and> st_index s < index + length entries \<and> st_track s \<in> set vi"
    and "distinct (map st_index streams)"
  using assms
proof (induction vi index entries arbitrary: streams refusal s rule: check_entries.induct)
  case (2 vi index entry entries)
  obtain ss r where rec: "check_entries vi (index + 1) entries = (ss, r)" by fastforce
  {
    case 1
    with 2 rec check_entry_stream [of vi index entry] show ?case
      by (fastforce split: sum.splits option.splits prod.splits)
  next
    case 2
    with "2.IH"(1,2) rec check_entry_stream [of vi index entry] show ?case
      by (fastforce split: sum.splits option.splits prod.splits)
  }
qed simp_all

section \<open>Decoders of a request\<close>

lemma open_decoders_keys:
  assumes "open_decoders av ss ds = Some ds'"
  shows "set (dict_keys ds') = set (dict_keys ds) \<union> st_track ` set ss" and "wf_dict ds \<Longrightarrow> wf_dict ds'"
  using assms
  by (induction av ss ds rule: open_decoders.induct)
    (auto simp: dict_simps dict_get_key split: if_splits option.splits)

lemma open_decoders_none: "open_decoders av ss ds = None \<Longrightarrow> \<exists>sliced. av_create av sliced = None"
  by (induction av ss ds rule: open_decoders.induct) (auto simp: new_decoder_def split: if_splits option.splits)

lemma by_track_snoc:
  "by_track (ss @ [s]) = dict_set (st_track s)
     ((case dict_get (by_track ss) (st_track s) of None \<Rightarrow> [] | Some g \<Rightarrow> g) @ [s]) (by_track ss)"
  by (simp add: by_track_def)

lemma by_track_get:
  "dict_get (by_track ss) tr =
     (if tr \<in> st_track ` set ss then Some (filter (\<lambda>s. st_track s = tr) ss) else None)"
proof (induction ss rule: rev_induct)
  case (snoc s ss)
  then show ?case
    unfolding by_track_snoc by (auto simp: dict_get_set image_iff) (metis (mono_tags, lifting) filter_False)
qed (simp add: by_track_def)

lemma by_track_wf: "wf_dict (by_track ss)"
  by (induction ss rule: rev_induct) (auto simp: by_track_snoc dict_simps, simp add: by_track_def)

text \<open>
  What the code relies on of PyAV, beside what the \<open>av\<close> record shows: a decoder that was reset
  (\<open>flush_buffers\<close>) decodes packets to what they hold, whatever it decoded before and on whichever
  threads, and a picture carries the timestamp of one of the packets. \<open>pics\<close> is what packets hold:
  the error they do not decode with, or the pictures by packet.
\<close>

definition resets_to :: "('d, 'pic, 'arr) av \<Rightarrow> (byte list list \<Rightarrow> string + (nat, 'pic) dict) \<Rightarrow> bool" where
  "resets_to av pics \<longleftrightarrow>
     (\<forall>c packets. snd (feed av (av_flush av c) (map Some (enumerate 0 packets) @ [None]) []) = pics packets)"

definition stamped :: "(byte list list \<Rightarrow> string + (nat, 'pic) dict) \<Rightarrow> bool" where
  "stamped pics \<longleftrightarrow> (\<forall>packets d. pics packets = Inr d \<longrightarrow> set (dict_keys d) \<subseteq> {..<length packets})"

lemma keep_pictures_wf: "wf_dict d \<Longrightarrow> wf_dict (keep_pictures ps d)"
  by (induction ps arbitrary: d) (auto simp: keep_pictures_def dict_simps split: option.splits)

lemma feed_wf: "wf_dict d \<Longrightarrow> feed av c ps d = (c', Inr d') \<Longrightarrow> wf_dict d'"
  by (induction av c ps d arbitrary: c' d' rule: feed.induct)
    (auto simp: keep_pictures_wf split: prod.splits sum.splits)

lemma pics_wf:
  fixes av :: "('d, 'pic, 'arr) av"
  assumes "resets_to av pics" and "pics packets = Inr d"
  shows "wf_dict d"
proof -
  fix c :: 'd
  let ?f = "feed av (av_flush av c) (map Some (enumerate 0 packets) @ [None]) []"
  have "snd ?f = Inr d" using assms by (simp add: resets_to_def)
  with feed_wf [of "[]" av _ _ "fst ?f" d] show ?thesis by (simp add: prod_eq_iff)
qed

text \<open>The outcome of decoding one stream.\<close>

definition stream_outcome ::
  "(byte list list \<Rightarrow> string + (nat, 'pic) dict) \<Rightarrow> stream \<Rightarrow> step_frame_refusal + (nat, 'pic) dict" where
  "stream_outcome pics s =
     map_sum (\<lambda>e. \<lparr>rf_entry = EntryAt (st_index s), rf_reason = DoesNotDecode e\<rparr>) id (pics (stream_packets s))"

lemma decode_stream_outcome: "resets_to av pics \<Longrightarrow> snd (decode_stream av s dec) = stream_outcome pics s"
  by (simp add: resets_to_def decode_stream_def decode_packets_def stream_outcome_def split_beta Let_def)

lemma decode_group_results:
  "map fst (snd (decode_group av dec ss)) = map st_index ss"
  "resets_to av pics \<Longrightarrow> (i, r) \<in> set (snd (decode_group av dec ss)) \<Longrightarrow> \<exists>s \<in> set ss. i = st_index s \<and> r = stream_outcome pics s"
proof (induction ss arbitrary: dec)
  case (Cons s ss)
  {
    case 1
    then show ?case using Cons.IH(1) by (simp add: split_beta Let_def)
  next
    case 2
    then show ?case
      using Cons.IH(2) decode_stream_outcome [OF 2(1), of s dec] by (auto simp: split_beta Let_def)
  }
qed simp_all

lemma decode_groups_keys:
  "fst ` set (fst (decode_groups av gs ds)) = fst ` set ds" "wf_dict ds \<Longrightarrow> wf_dict (fst (decode_groups av gs ds))"
proof (induction gs arbitrary: ds)
  case (Cons g gs)
  obtain tr ss where g: "g = (tr, ss)" by fastforce
  {
    case 1
    show ?case using Cons.IH(1) by (simp add: g dict_simps dict_get_key split_beta Let_def insert_absorb split: option.split)
  next
    case 2
    then show ?case using Cons.IH(2) by (simp add: g dict_simps split_beta Let_def split: option.split)
  }
qed simp_all

lemma decode_groups_results:
  "(\<And>tr ss. (tr, ss) \<in> set gs \<Longrightarrow> tr \<in> fst ` set ds) \<Longrightarrow>
   map fst (snd (decode_groups av gs ds)) = concat (map (\<lambda>g. map st_index (snd g)) gs)"
  "resets_to av pics \<Longrightarrow> (i, r) \<in> set (snd (decode_groups av gs ds)) \<Longrightarrow>
   \<exists>g \<in> set gs. \<exists>s \<in> set (snd g). i = st_index s \<and> r = stream_outcome pics s"
proof (induction gs arbitrary: ds)
  case (Cons g gs)
  obtain tr ss where g: "g = (tr, ss)" by fastforce
  {
    case 1
    have "tr \<in> fst ` set ds" by (rule 1 [of tr ss]) (simp add: g)
    then obtain dec where dec: "dict_get ds tr = Some dec"
      by (metis map_of_eq_None_iff not_None_eq)
    have "tr' \<in> fst ` set (dict_set tr dec' ds)" if "(tr', ss') \<in> set gs" for tr' ss' dec'
      using 1 [of tr' ss'] that by (simp add: dict_simps)
    from Cons.IH(1) [OF this] dec show ?case
      by (simp add: g split_beta Let_def decode_group_results(1))
  next
    case 2
    then show ?case
      using Cons.IH(2) decode_group_results(2) [OF 2(1)]
      by (fastforce simp: g split_beta Let_def split: option.splits)
  }
qed simp_all

lemma by_track_members: "(tr, ss) \<in> set (by_track streams) \<Longrightarrow> ss = filter (\<lambda>s. st_track s = tr) streams"
  using by_track_get [of streams tr] map_of_is_SomeI [OF by_track_wf] by (fastforce split: if_splits)

lemma by_track_covers: "s \<in> set streams \<Longrightarrow> \<exists>ss. (st_track s, ss) \<in> set (by_track streams) \<and> s \<in> set ss"
  using by_track_get [of streams "st_track s"] by (fastforce dest: map_of_SomeD)

text \<open>Every stream of a request has its outcome, whatever the grouping.\<close>

lemma decoded_outcome:
  assumes "resets_to av pics" and "distinct (map st_index streams)" and "s \<in> set streams"
    and "st_track ` set streams \<subseteq> fst ` set ds"
  shows "dict_get (snd (decode_groups av (by_track streams) ds)) (st_index s) = Some (stream_outcome pics s)"
proof -
  let ?res = "snd (decode_groups av (by_track streams) ds)"
  have "tr \<in> fst ` set ds" if "(tr, ss) \<in> set (by_track streams)" for tr ss
    using that assms(4) by_track_get [of streams tr] map_of_is_SomeI [OF by_track_wf that] by (auto split: if_splits)
  then have keys: "map fst ?res = concat (map (\<lambda>g. map st_index (snd g)) (by_track streams))"
    by (rule decode_groups_results(1))
  from by_track_covers [OF assms(3)] have "st_index s \<in> set (map fst ?res)"
    unfolding keys by force
  then obtain r where r: "dict_get ?res (st_index s) = Some r"
    using map_of_eq_None_iff [of ?res "st_index s"] by auto
  from decode_groups_results(2) [OF assms(1) map_of_SomeD [OF r]]
  obtain g s' where g: "g \<in> set (by_track streams)" "s' \<in> set (snd g)"
    and s': "st_index s = st_index s'" "r = stream_outcome pics s'" by (elim bexE conjE)
  have "snd g = filter (\<lambda>s. st_track s = fst g) streams" by (rule by_track_members) (simp add: g(1))
  with g(2) have member: "s' \<in> set streams" by simp
  have "inj_on st_index (set streams)" using assms(2) by (simp add: distinct_map)
  from inj_onD [OF this s'(1) assms(3) member] have "s' = s" by simp
  with r s'(2) show ?thesis by (simp only:)
qed

section \<open>A request decoded entry by entry\<close>

text \<open>
  The reference: the entries are taken one after another, each checked and then decoded by itself,
  and the first fault of the first entry at fault is the refusal. The first frame of an
  entry's stream has to be a keyframe.
\<close>

definition frame_problem :: "bool \<Rightarrow> wire_frame \<Rightarrow> refusal_reason option" where
  "frame_problem starts f =
     (if wf_data f = [] then Some NoData
      else case access_unit (wf_data f) of
             Inl problem \<Rightarrow> Some (NotOneAccessUnit problem)
           | Inr vcl \<Rightarrow> if starts \<and> vcl \<noteq> IDR_NAL then Some NotAtKeyframe else None)"

definition entry_refusal :: "string list \<Rightarrow> nat \<Rightarrow> track_frames \<Rightarrow> step_frame_refusal option" where
  "entry_refusal video_inputs i e =
     (let frames = tf_frames e; ps = h264_positions frames in
      case find (\<lambda>p. wf_encoding (frames ! p) \<notin> {FRAME_ENCODING_UNSPECIFIED, FRAME_ENCODING_RAW, FRAME_ENCODING_H264})
             [0..<length frames] of
        Some p \<Rightarrow> Some \<lparr>rf_entry = FrameAt i p, rf_reason = EncodingNotSupported (wf_encoding (frames ! p))\<rparr>
      | None \<Rightarrow>
          if ps \<noteq> [] \<and> tf_track e \<notin> set video_inputs
          then Some \<lparr>rf_entry = EntryAt i, rf_reason = NotAnInputVideoTrack (tf_track e)\<rparr>
          else map_option (\<lambda>p. \<lparr>rf_entry = FrameAt i p, rf_reason = the (frame_problem (p = hd ps) (frames ! p))\<rparr>)
                 (find (\<lambda>p. frame_problem (p = hd ps) (frames ! p) \<noteq> None) ps))"

definition declares_wrongly :: "('d, 'pic, 'arr) av \<Rightarrow> wire_frame \<Rightarrow> 'pic \<Rightarrow> bool" where
  "declares_wrongly av f pic \<longleftrightarrow> wf_shape f \<noteq> [] \<and> wf_shape f \<noteq> [av_height av pic, av_width av pic, 3]"

definition entry_pictures ::
  "('d, 'pic, 'arr) av \<Rightarrow> (byte list list \<Rightarrow> string + (nat, 'pic) dict) \<Rightarrow> nat \<Rightarrow> track_frames
     \<Rightarrow> step_frame_refusal + ((nat \<times> nat) \<times> 'arr) list" where
  "entry_pictures av pics i e =
     (let frames = tf_frames e; ps = h264_positions frames; n = length ps in
      if ps = [] then Inr []
      else case pics (map (\<lambda>p. wf_data (frames ! p)) ps) of
        Inl problem \<Rightarrow> refuse (EntryAt i) (DoesNotDecode problem)
      | Inr d \<Rightarrow>
          (case find (\<lambda>k. dict_get d k = None) [0..<n] of
             Some k \<Rightarrow> refuse (FrameAt i (ps ! k)) (TooFewPictures n (length d))
           | None \<Rightarrow>
               (case find (\<lambda>k. declares_wrongly av (frames ! (ps ! k)) (the (dict_get d k))) [0..<n] of
                  Some k \<Rightarrow> refuse (FrameAt i (ps ! k))
                    (WrongShape [av_height av (the (dict_get d k)), av_width av (the (dict_get d k)), 3]
                      (wf_shape (frames ! (ps ! k))))
                | None \<Rightarrow> Inr (map (\<lambda>k. ((i, ps ! k), av_rgb av (the (dict_get d k)))) [0..<n]))))"

fun decode_each ::
  "('d, 'pic, 'arr) av \<Rightarrow> (byte list list \<Rightarrow> string + (nat, 'pic) dict) \<Rightarrow> string list \<Rightarrow> nat \<Rightarrow> track_frames list
     \<Rightarrow> step_frame_refusal + ((nat \<times> nat) \<times> 'arr) list" where
  "decode_each av pics video_inputs i [] = Inr []"
| "decode_each av pics video_inputs i (e # es) =
     (case entry_refusal video_inputs i e of
        Some r \<Rightarrow> Inl r
      | None \<Rightarrow>
          (case entry_pictures av pics i e of
             Inl r \<Rightarrow> Inl r
           | Inr ps \<Rightarrow> map_sum id (append ps) (decode_each av pics video_inputs (i + 1) es)))"

lemma check_frames_rest:
  "check_frames i frames ps False n =
     (case find (\<lambda>p. frame_problem False (frames ! p) \<noteq> None) ps of
        None \<Rightarrow> Inr n | Some p \<Rightarrow> refuse (FrameAt i p) (the (frame_problem False (frames ! p))))"
  by (induction ps) (auto simp: frame_problem_def split: sum.split)

lemma check_frames_all:
  assumes "distinct ps"
  shows "case find (\<lambda>p. frame_problem (p = hd ps) (frames ! p) \<noteq> None) ps of
      None \<Rightarrow> \<exists>m. check_frames i frames ps True n = Inr m
    | Some p \<Rightarrow> check_frames i frames ps True n = refuse (FrameAt i p) (the (frame_problem (p = hd ps) (frames ! p)))"
proof (cases ps)
  case (Cons p qs)
  have rest: "(q = p) = False" if "q \<in> set qs" for q using assms Cons that by auto
  then have "find (\<lambda>q. frame_problem (q = p) (frames ! q) \<noteq> None) qs = find (\<lambda>q. frame_problem False (frames ! q) \<noteq> None) qs"
    by (auto intro: find_cong)
  moreover have "q \<in> set qs" if "find (\<lambda>q. frame_problem False (frames ! q) \<noteq> None) qs = Some q" for q
    using that by (auto simp: find_Some_iff)
  ultimately show ?thesis using Cons rest
    by (auto simp: check_frames_rest frame_problem_def [of True] split: sum.split option.split)
qed simp

lemma h264_distinct: "distinct (h264_positions frames)"
  by (simp add: h264_positions_def)

lemma not_encoded: "\<not> is_encoded e \<longleftrightarrow>
   find (\<lambda>p. wf_encoding (tf_frames e ! p) \<notin> {FRAME_ENCODING_UNSPECIFIED, FRAME_ENCODING_RAW, FRAME_ENCODING_H264})
     [0..<length (tf_frames e)] = None \<and> h264_positions (tf_frames e) = []"
  by (auto simp: is_encoded_def list_ex_iff find_None_iff h264_positions_def filter_empty_conv all_set_conv_all_nth
      in_set_conv_nth PASSTHROUGH_def FRAME_ENCODING_H264_def FRAME_ENCODING_RAW_def FRAME_ENCODING_UNSPECIFIED_def)

lemma check_entry_refusal:
  "case entry_refusal vi i e of
     Some r \<Rightarrow> check_entry vi i e = Inl r
   | None \<Rightarrow> \<exists>sliced. check_entry vi i e = Inr (if h264_positions (tf_frames e) = [] then None
       else Some \<lparr>st_index = i, st_entry = e, st_positions = h264_positions (tf_frames e), st_sliced = sliced\<rparr>)"
proof (cases "is_encoded e")
  case False
  then show ?thesis
    by (simp add: not_encoded check_entry_def entry_refusal_def Let_def)
next
  case True
  have "(\<lambda>p. wf_encoding (tf_frames e ! p) \<notin> {FRAME_ENCODING_UNSPECIFIED, FRAME_ENCODING_RAW, FRAME_ENCODING_H264}) =
      (\<lambda>p. wf_encoding (tf_frames e ! p) \<notin> set PASSTHROUGH \<and> wf_encoding (tf_frames e ! p) \<noteq> FRAME_ENCODING_H264)"
    by (auto simp: PASSTHROUGH_def fun_eq_iff)
  with True not_encoded [of e] check_frames_all [OF h264_distinct [of "tf_frames e"], where frames = "tf_frames e" and n = 0 and i = i] show ?thesis
    by (auto simp: check_entry_def entry_refusal_def Let_def split: option.splits)
qed

lemma append_Nil_map: "map_sum id (append []) x = x"
  by (cases x) simp_all

lemma missing_exists:
  assumes "length d < n"
  shows "\<exists>i < n. dict_get d i = None"
proof (rule ccontr)
  assume "\<not> ?thesis"
  then have "{..<n} \<subseteq> fst ` set d"
    by (auto dest: dict_get_key)
  then have "n \<le> card (fst ` set d)"
    using card_mono [of "fst ` set d" "{..<n}"] by simp
  moreover have "card (fst ` set d) \<le> length d"
    by (metis card_image_le card_length finite_set le_trans)
  ultimately show False using assms by simp
qed

lemma full_dict:
  assumes "wf_dict d" "fst ` set d \<subseteq> {..<n}" "n \<le> length d" "i < n"
  shows "dict_get d i \<noteq> None"
proof -
  have "card (fst ` set d) = length d"
    using assms(1) by (metis distinct_card length_map list.set_map)
  then have "fst ` set d = {..<n}"
    using assms(2,3) card_subset_eq [of "{..<n}" "fst ` set d"] card_mono [of "{..<n}" "fst ` set d"] by simp
  with assms(4) show ?thesis by (simp add: map_of_eq_None_iff)
qed

lemma enumerate_positions: "enumerate 0 ps = map (\<lambda>k. (k, ps ! k)) [0..<length ps]"
  by (rule nth_equalityI) (simp_all add: nth_enumerate_eq)

lemma find_map_pairs: "find P (map f xs) = map_option f (find (\<lambda>x. P (f x)) xs)"
  by (induction xs) simp_all

lemma match_pictures_each:
  assumes "\<forall>k \<in> set ks. dict_get d k \<noteq> None"
  shows "match_pictures av s d (map (\<lambda>k. (k, ps ! k)) ks) = Some
    (case find (\<lambda>k. declares_wrongly av (tf_frames (st_entry s) ! (ps ! k)) (the (dict_get d k))) ks of
       Some k \<Rightarrow> refuse (FrameAt (st_index s) (ps ! k))
         (WrongShape [av_height av (the (dict_get d k)), av_width av (the (dict_get d k)), 3]
            (wf_shape (tf_frames (st_entry s) ! (ps ! k))))
     | None \<Rightarrow> Inr (map (\<lambda>k. ((st_index s, ps ! k), the (dict_get d k))) ks))"
  using assms
  by (induction ks) (auto simp: declares_wrongly_def Let_def split: option.split)

text \<open>The RGB arrays of a request's pictures.\<close>

abbreviation rgb_of :: "('d, 'pic, 'arr) av \<Rightarrow> ((nat \<times> nat) \<times> 'pic) list \<Rightarrow> ((nat \<times> nat) \<times> 'arr) list" where
  "rgb_of av \<equiv> map (\<lambda>(key, f). (key, av_rgb av f))"

lemma pictures_of_each:
  assumes "resets_to av pics" and "stamped pics" and "st_positions s = h264_positions (tf_frames (st_entry s))"
    and "st_positions s \<noteq> []"
  shows "map_option (map_sum id (rgb_of av)) (pictures_of av s (stream_outcome pics s)) =
    Some (entry_pictures av pics (st_index s) (st_entry s))"
proof (cases "pics (stream_packets s)")
  case (Inl problem)
  with assms(3,4) show ?thesis
    by (simp add: stream_outcome_def pictures_of_def entry_pictures_def stream_packets_def Let_def)
next
  case (Inr d)
  let ?ps = "h264_positions (tf_frames (st_entry s))"
  have packets: "pics (map (\<lambda>p. wf_data (tf_frames (st_entry s) ! p)) ?ps) = Inr d"
    using Inr assms(3) by (simp add: stream_packets_def)
  have wf: "wf_dict d" and keys: "fst ` set d \<subseteq> {..<length ?ps}"
    using pics_wf [OF assms(1) packets] assms(2) packets by (fastforce simp: stamped_def)+
  have short: "length d < length ?ps \<longleftrightarrow> find (\<lambda>k. dict_get d k = None) [0..<length ?ps] \<noteq> None"
    using missing_exists [of d "length ?ps"] full_dict [OF wf keys] by (force simp: find_None_iff)
  have outcome: "stream_outcome pics s = Inr d" using Inr by (simp add: stream_outcome_def)
  show ?thesis
  proof (cases "find (\<lambda>k. dict_get d k = None) [0..<length ?ps]")
    case None
    then have "\<forall>k \<in> set [0..<length ?ps]. dict_get d k \<noteq> None" by (simp add: find_None_iff)
    from match_pictures_each [OF this, of av s ?ps] None short packets assms(3,4) show ?thesis
      by (auto simp: outcome pictures_of_def entry_pictures_def enumerate_positions Let_def split: option.split)
  next
    case (Some k)
    with short packets assms(3,4) show ?thesis
      by (simp add: outcome pictures_of_def entry_pictures_def enumerate_positions find_map_pairs Let_def)
  qed
qed

text \<open>What the batch over all checked entries comes to is what the walk over them comes to.\<close>

lemma collect_each:
  assumes "resets_to av pics" and "stamped pics"
  shows "check_entries vi i es = (streams, refusal) \<Longrightarrow>
    (\<And>s. s \<in> set streams \<Longrightarrow> dict_get decoded (st_index s) = Some (stream_outcome pics s)) \<Longrightarrow>
    \<exists>c. collect av decoded streams = Some c \<and>
      (case c of Inl r \<Rightarrow> Inl r | Inr fs \<Rightarrow> (case refusal of Some r \<Rightarrow> Inl r | None \<Rightarrow> Inr (rgb_of av fs))) =
      decode_each av pics vi i es"
proof (induction es arbitrary: i streams refusal)
  case (Cons e es)
  note checked = check_entry_refusal [of vi i e]
  show ?case
  proof (cases "entry_refusal vi i e")
    case (Some r)
    with checked Cons.prems(1) show ?thesis by (auto simp: Some)
  next
    case None
    with checked obtain sliced where entry: "check_entry vi i e = Inr (if h264_positions (tf_frames e) = [] then None
       else Some \<lparr>st_index = i, st_entry = e, st_positions = h264_positions (tf_frames e), st_sliced = sliced\<rparr>)" by auto
    obtain ss r where rec: "check_entries vi (i + 1) es = (ss, r)" by fastforce
    show ?thesis
    proof (cases "h264_positions (tf_frames e) = []")
      case True
      with Cons.prems entry rec have "streams = ss" "refusal = r" by auto
      with Cons.IH [OF rec] Cons.prems(2) True None show ?thesis by (auto simp: entry_pictures_def append_Nil_map)
    next
      case False
      define s where "s = \<lparr>st_index = i, st_entry = e, st_positions = h264_positions (tf_frames e), st_sliced = sliced\<rparr>"
      have streams: "streams = s # ss" "refusal = r" using Cons.prems(1) entry rec False by (simp_all add: s_def)
      obtain o' where o': "pictures_of av s (stream_outcome pics s) = Some o'"
        "map_sum id (rgb_of av) o' = entry_pictures av pics i e"
        using pictures_of_each [OF assms, of s] False by (auto simp: s_def)
      from Cons.IH [OF rec] Cons.prems(2) streams obtain c where c: "collect av decoded ss = Some c"
        "decode_each av pics vi (Suc i) es =
          (case c of Inl r \<Rightarrow> Inl r | Inr fs \<Rightarrow> (case refusal of Some r \<Rightarrow> Inl r | None \<Rightarrow> Inr (rgb_of av fs)))" by auto
      have "dict_get decoded (st_index s) = Some (stream_outcome pics s)" using Cons.prems(2) streams by simp
      with o' c None streams show ?thesis
        by (cases o'; cases c) (auto split: option.split simp flip: o'(2))
    qed
  qed
qed simp

text \<open>
  C18. Decoding a request all tracks at once gives what decoding it entry by entry gives: the
  refusal is the first fault of the first entry at fault, in request order and with its reason,
  whether the entry fails its check, its frames do not decode, decode to too few pictures or to another shape than
  declared; and a request with none has the RGB picture of each of its H.264 frames and no other, by entry
  and position in request order. This holds where a reset decoder decodes packets to what they hold and pictures
  carry their packets' timestamps; and the decode raises only where a decoder does not open.
\<close>

theorem decode_step_frames_outcome:
  assumes "resets_to av pics" and "stamped pics"
  shows "case decode_step_frames av media_input decoders video_inputs of
      None \<Rightarrow> \<exists>sliced. av_create av sliced = None
    | Some (_, outcome) \<Rightarrow> outcome = decode_each av pics video_inputs 0 media_input"
proof -
  obtain streams refusal where ch: "check_entries video_inputs 0 media_input = (streams, refusal)" by fastforce
  show ?thesis
  proof (cases "open_decoders av streams decoders")
    case None
    with ch open_decoders_none [OF None] show ?thesis by (simp add: decode_step_frames_def)
  next
    case (Some opened)
    let ?decoded = "snd (decode_groups av (by_track streams) opened)"
    have "st_track ` set streams \<subseteq> fst ` set opened"
      using open_decoders_keys(1) [OF Some] by simp
    then have "dict_get ?decoded (st_index s) = Some (stream_outcome pics s)" if "s \<in> set streams" for s
      using decoded_outcome [OF assms(1) check_entries_streams(2) [OF ch] that] by blast
    from collect_each [OF assms ch this] obtain c where c: "collect av ?decoded streams = Some c"
      "(case c of Inl r \<Rightarrow> Inl r | Inr fs \<Rightarrow> (case refusal of Some r \<Rightarrow> Inl r | None \<Rightarrow> Inr (rgb_of av fs))) =
        decode_each av pics video_inputs 0 media_input" by blast
    then show ?thesis using ch Some
      by (auto simp: decode_step_frames_def split_beta Let_def split: sum.splits option.splits)
  qed
qed

definition demo_av :: "(unit, byte list, byte list) av" where
  "demo_av = \<lparr>av_create = \<lambda>_. Some (), av_flush = id,
     av_decode = \<lambda>c packet. (c, Inr (case packet of None \<Rightarrow> [] | Some (i, bs) \<Rightarrow> [(Some i, bs)])),
     av_height = \<lambda>_. 4, av_width = \<lambda>_. 4, av_rgb = id\<rparr>"

lemma demo_feed:
  "distinct (map fst (d @ ips)) \<Longrightarrow> feed demo_av c (map Some ips @ [None]) d = (c, Inr (d @ ips))"
proof (induction ips arbitrary: d)
  case (Cons ip ips)
  obtain i bs where ip: "ip = (i, bs)" by fastforce
  with Cons.prems have "dict_set i bs d = d @ [ip]" by (auto simp: dict_set_new)
  with Cons.IH [of "d @ [ip]"] Cons.prems ip show ?case by (simp add: demo_av_def keep_pictures_def)
qed (simp add: demo_av_def keep_pictures_def)

text \<open>What packets hold for the witnesses' decoder: each is its own picture.\<close>

definition demo_pics :: "byte list list \<Rightarrow> string + (nat, byte list) dict" where
  "demo_pics packets = Inr (enumerate 0 packets)"

lemma demo_av_resets: "resets_to demo_av demo_pics"
  using demo_feed [of _ "enumerate 0 packets" for packets] by (simp add: resets_to_def demo_pics_def enumerate_eq_zip)

lemma demo_pics_stamped: "stamped demo_pics"
  by (auto simp: stamped_def demo_pics_def enumerate_eq_zip dest: set_zip_leftD)

definition demo_idr :: "byte list" where "demo_idr = [0, 0, 0, 1, 0x65, 0x88]"

definition demo_entry :: track_frames where
  "demo_entry = \<lparr>tf_track = ''cam'', tf_frames = [\<lparr>wf_encoding = 1, wf_data = [], wf_shape = []\<rparr>,
     \<lparr>wf_encoding = 2, wf_data = demo_idr, wf_shape = []\<rparr>]\<rparr>"

lemma demo_decode:
  "decode_step_frames demo_av [demo_entry] [] [''cam''] =
     Some ([(''cam'', \<lparr>dc_sliced = False, dc_codec = ()\<rparr>)], Inr [((0, 1), demo_idr)])"
  by code_simp

theorem decode_step_frames_outcome_witness:
  "decode_each demo_av demo_pics [''cam''] 0 [demo_entry] = Inr [((0, 1), demo_idr)]"
  using decode_step_frames_outcome [OF demo_av_resets demo_pics_stamped, where media_input = "[demo_entry]" and
      decoders = "[]" and video_inputs = "[''cam'']"]
  unfolding demo_decode by simp

section \<open>The gate keeps the order\<close>

fun handled :: "'arr gate_output \<Rightarrow> inbound" where
  "handled (Deliver m) = m"
| "handled (DeliverStep m pictures) = m"
| "handled (Reply m request_id refusal) = m"

fun inflight :: "drain \<Rightarrow> inbound list" where
  "inflight (Decoding m request_id media_input) = [m]"
| "inflight _ = []"

definition held :: "'d gate \<Rightarrow> inbound list" where
  "held g = inflight (gt_draining g) @ gt_backlog g"

definition gate_ok :: "'d gate \<Rightarrow> bool" where
  "gate_ok g \<longleftrightarrow> gt_draining g = NotDraining \<longrightarrow> gt_backlog g = []"

fun submitted :: "gate_op \<Rightarrow> inbound list" where
  "submitted (Submit m) = [m]"
| "submitted _ = []"

lemma drain_loop_order:
  "map handled (snd (drain_loop parse ms g)) @ held (fst (drain_loop parse ms g)) = ms"
  "gate_ok (fst (drain_loop parse ms g))"
  by (induction parse ms g rule: drain_loop.induct)
    (auto simp: held_def gate_ok_def split_beta Let_def split: option.splits)

lemma drain_loop_frame [simp]: "gt_video_inputs (fst (drain_loop parse ms g)) = gt_video_inputs g"
  by (induction parse ms g rule: drain_loop.induct) (auto simp: split_beta Let_def split: option.splits)

text \<open>No decode of a run raised: each ended in pictures or a refusal.\<close>

fun decode_returns :: "('d, 'pic, 'arr) av \<Rightarrow> 'd gate \<Rightarrow> gate_op \<Rightarrow> bool" where
  "decode_returns av g DecodeDone \<longleftrightarrow>
     (case gt_draining g of
        Decoding m request_id media_input \<Rightarrow> decode_step_frames av media_input (gt_decoders g) (gt_video_inputs g) \<noteq> None
      | _ \<Rightarrow> True)"
| "decode_returns av g _ \<longleftrightarrow> True"

fun decodes_return :: "('d, 'pic, 'arr) av \<Rightarrow> inbound_parser \<Rightarrow> 'd gate \<Rightarrow> gate_op list \<Rightarrow> bool" where
  "decodes_return av parse g [] \<longleftrightarrow> True"
| "decodes_return av parse g (op # ops) \<longleftrightarrow>
     decode_returns av g op \<and> decodes_return av parse (fst (gate_step av parse g op)) ops"

lemma gate_step_order:
  assumes "decode_returns av g op" and "gate_ok g" and "op \<noteq> CloseGate"
  shows "map handled (snd (gate_step av parse g op)) @ held (fst (gate_step av parse g op)) = held g @ submitted op"
    and "gate_ok (fst (gate_step av parse g op))"
proof -
  have "map handled (snd (gate_step av parse g op)) @ held (fst (gate_step av parse g op)) = held g @ submitted op \<and>
      gate_ok (fst (gate_step av parse g op))"
  proof (cases op)
    case (Submit m)
    with assms(2) show ?thesis
      by (auto simp: submit_def held_def gate_ok_def split: drain.splits)
  next
    case RunDrain
    with assms(2) show ?thesis
      using drain_loop_order [of parse "gt_backlog g" g]
      by (auto simp: start_drain_def held_def split: drain.splits)
  next
    case DecodeDone
    show ?thesis
    proof (cases "gt_draining g")
      case (Decoding m request_id mi)
      with assms(1) DecodeDone obtain ds outcome
        where d: "decode_step_frames av mi (gt_decoders g) (gt_video_inputs g) = Some (ds, outcome)" by auto
      let ?g1 = "g\<lparr>gt_decoders := foldl (\<lambda>ds kd. dict_set (fst kd) (snd kd) ds) (gt_decoders g) ds\<rparr>"
      show ?thesis
        using drain_loop_order [of parse "gt_backlog g" ?g1] Decoding d DecodeDone
        by (auto simp: decode_done_def held_def split_beta Let_def split: sum.splits)
    qed (use assms(2) DecodeDone in \<open>simp_all add: decode_done_def\<close>)
  qed (use assms(3) in simp)
  then show "map handled (snd (gate_step av parse g op)) @ held (fst (gate_step av parse g op)) = held g @ submitted op"
    and "gate_ok (fst (gate_step av parse g op))" by simp_all
qed

lemma gate_run_order:
  "decodes_return av parse g ops \<Longrightarrow> gate_ok g \<Longrightarrow> CloseGate \<notin> set ops \<Longrightarrow>
    map handled (snd (gate_run av parse g ops)) @ held (fst (gate_run av parse g ops)) =
      held g @ concat (map submitted ops) \<and> gate_ok (fst (gate_run av parse g ops))"
proof (induction ops arbitrary: g)
  case (Cons op ops)
  then have "decode_returns av g op" by simp
  from gate_step_order [OF this Cons.prems(2), of parse] Cons.IH [of "fst (gate_step av parse g op)"] Cons.prems
  show ?case by (simp add: split_beta Let_def) (metis append.assoc)
qed simp

text \<open>
  C19. Nothing overtakes a decoding request, as long as no decode raises: over any interleaving of
  arrivals, drains and decode ends before the gate closes in which every decode ends in pictures or in a
  refusal, the messages handed on, answered, being decoded and waiting are,
  in this order, exactly the messages submitted; and whenever no drain runs, none is waiting. A decode that raises
  breaks this (\<open>decode_fault_strands_backlog\<close>); with the laws of the previous property, only a decoder that
  does not open makes one raise.
\<close>

theorem gate_in_order:
  assumes "decodes_return av parse (init_gate video_inputs) ops" and "CloseGate \<notin> set ops"
  shows "let r = gate_run av parse (init_gate video_inputs) ops in
    map handled (snd r) @ inflight (gt_draining (fst r)) @ gt_backlog (fst r) = concat (map submitted ops) \<and>
    (gt_draining (fst r) = NotDraining \<longrightarrow> map handled (snd r) = concat (map submitted ops))"
  using gate_run_order [OF assms(1) _ assms(2)]
  by (auto simp: Let_def gate_ok_def held_def init_gate_def)

text \<open>Payloads of the witnesses: a one-byte payload is a plain message, any longer one the sample request.\<close>

definition demo_parse :: inbound_parser where
  "demo_parse raw ch = (if length raw \<le> 1 then Some OtherMessage else Some (RequestStep ''r'' [demo_entry]))"

definition plain :: "byte \<Rightarrow> inbound" where
  "plain b = \<lparr>ib_payload = Binary [b], ib_version = V1, ib_channel = DATA\<rparr>"

definition step_request :: inbound where
  "step_request = \<lparr>ib_payload = Binary [0, 0], ib_version = V1, ib_channel = DATA\<rparr>"

theorem gate_in_order_witness:
  "map handled (snd (gate_run demo_av demo_parse (init_gate [''cam''])
     [Submit step_request, RunDrain, Submit (plain 1), DecodeDone, Submit (plain 2)])) =
   [step_request, plain 1, plain 2]"
proof -
  have "gt_draining (fst (gate_run demo_av demo_parse (init_gate [''cam''])
     [Submit step_request, RunDrain, Submit (plain 1), DecodeDone, Submit (plain 2)])) = NotDraining"
    by code_simp
  moreover have "decodes_return demo_av demo_parse (init_gate [''cam''])
     [Submit step_request, RunDrain, Submit (plain 1), DecodeDone, Submit (plain 2)]"
    by code_simp
  note gate_in_order [OF this]
  ultimately show ?thesis by (simp add: Let_def)
qed

definition failing_av :: "(unit, byte list, byte list) av" where
  "failing_av = demo_av\<lparr>av_create := \<lambda>_. None\<rparr>"

text \<open>
  A decode that raises (a decoder that does not open) ends the drain without emptying its
  queue: the message waiting behind it stays there, and a later message overtakes it.
\<close>

theorem decode_fault_strands_backlog:
  "let (g, out) = gate_run failing_av demo_parse (init_gate [''cam''])
         [Submit step_request, RunDrain, Submit (plain 1), DecodeDone, Submit (plain 2)]
   in out = [Deliver (plain 2)] \<and> gt_backlog g = [plain 1] \<and> gt_draining g = NotDraining"
  by code_simp

section \<open>The gate's decoders are bounded\<close>

definition decoders_ok :: "'d gate \<Rightarrow> bool" where
  "decoders_ok g \<longleftrightarrow> wf_dict (gt_decoders g) \<and> fst ` set (gt_decoders g) \<subseteq> set (gt_video_inputs g)"

lemma decode_step_frames_decoders:
  assumes "decode_step_frames av mi ds vi = Some (ds', outcome)" and "wf_dict ds" and "fst ` set ds \<subseteq> set vi"
  shows "fst ` set ds' \<subseteq> set vi"
proof -
  obtain streams refusal where ch: "check_entries vi 0 mi = (streams, refusal)" by fastforce
  with assms(1) obtain opened where op: "open_decoders av streams ds = Some opened"
    and ds': "ds' = fst (decode_groups av (by_track streams) opened)"
    by (auto simp: decode_step_frames_def split_beta Let_def split: option.splits sum.splits)
  have "st_track ` set streams \<subseteq> set vi"
    using check_entries_streams(1) [OF ch] by blast
  with open_decoders_keys(1) [OF op] assms(3) ds' show ?thesis
    by (simp add: decode_groups_keys(1))
qed

lemma update_all_keys:
  "fst ` set (foldl (\<lambda>ds kd. dict_set (fst kd) (snd kd) ds) ds xs) = fst ` set ds \<union> fst ` set xs"
  "wf_dict ds \<Longrightarrow> wf_dict (foldl (\<lambda>ds kd. dict_set (fst kd) (snd kd) ds) ds xs)"
  by (induction xs arbitrary: ds) (auto simp: dict_simps)

lemma release_keys:
  "fst ` set (release ds names) = fst ` set ds - set names" "wf_dict ds \<Longrightarrow> wf_dict (release ds names)"
  unfolding release_def by (induction names arbitrary: ds) (auto simp: dict_simps)

lemma pass_decoders_keys:
  "fst ` set (pass_decoders parse ds m) \<subseteq> fst ` set ds" "wf_dict ds \<Longrightarrow> wf_dict (pass_decoders parse ds m)"
  by (auto simp: pass_decoders_def release_keys split: option.splits)

lemma drain_loop_decoders: "decoders_ok g \<Longrightarrow> decoders_ok (fst (drain_loop parse ms g))"
proof (induction parse ms g rule: drain_loop.induct)
  case (2 parse m ms g)
  have "decoders_ok (g\<lparr>gt_decoders := pass_decoders parse (gt_decoders g) m\<rparr>)"
    using 2(2) pass_decoders_keys [where parse = parse and m = m and ds = "gt_decoders g"] by (auto simp: decoders_ok_def)
  with 2 show ?case
    by (auto simp: split_beta Let_def decoders_ok_def split: option.splits)
qed (simp add: decoders_ok_def)

lemma decode_done_decoders:
  assumes "decoders_ok g"
  shows "decoders_ok (fst (decode_done av parse g))"
proof (cases "gt_draining g")
  case (Decoding m request_id mi)
  show ?thesis
  proof (cases "decode_step_frames av mi (gt_decoders g) (gt_video_inputs g)")
    case None
    with Decoding assms show ?thesis by (simp add: decode_done_def decoders_ok_def)
  next
    case (Some r)
    obtain ds outcome where r: "r = (ds, outcome)" by fastforce
    let ?g1 = "g\<lparr>gt_decoders := foldl (\<lambda>ds kd. dict_set (fst kd) (snd kd) ds) (gt_decoders g) ds\<rparr>"
    have "decoders_ok ?g1"
      using decode_step_frames_decoders [OF Some [unfolded r]] assms by (simp add: decoders_ok_def update_all_keys)
    from drain_loop_decoders [OF this, of parse "gt_backlog g"] Decoding Some r show ?thesis
      by (simp add: decode_done_def split_beta Let_def)
  qed
qed (use assms in \<open>simp_all add: decode_done_def\<close>)

lemma gate_step_decoders: "decoders_ok g \<Longrightarrow> decoders_ok (fst (gate_step av parse g op))"
proof (cases op)
  case (Submit m)
  assume "decoders_ok g"
  with Submit pass_decoders_keys [where parse = parse and m = m and ds = "gt_decoders g"] show ?thesis
    by (auto simp: submit_def decoders_ok_def)
next
  case RunDrain
  assume "decoders_ok g"
  with RunDrain drain_loop_decoders [of g parse "gt_backlog g"] show ?thesis
    by (auto simp: start_drain_def split: drain.splits)
next
  case CloseGate
  assume "decoders_ok g"
  with CloseGate show ?thesis by (auto simp: close_gate_def decoders_ok_def release_keys)
qed (simp add: decode_done_decoders)

interpretation gate_decoders: step_invariant "\<lambda>g op. fst (gate_step av parse g op)" decoders_ok for av parse
  by unfold_locales (rule gate_step_decoders)

lemma gate_run_fst: "fst (gate_run av parse g ops) = foldl (\<lambda>g op. fst (gate_step av parse g op)) g ops"
  by (induction ops arbitrary: g) (simp_all add: split_beta Let_def)

lemma gate_run_inputs: "gt_video_inputs (fst (gate_run av parse g ops)) = gt_video_inputs g"
proof (induction ops arbitrary: g)
  case (Cons op ops)
  have "gt_video_inputs (fst (gate_step av parse g op)) = gt_video_inputs g"
    by (cases op) (auto simp: submit_def start_drain_def decode_done_def close_gate_def split_beta Let_def
        split: drain.splits option.splits)
  with Cons show ?case by (simp add: split_beta Let_def)
qed simp

text \<open>
  A connection holds at most one decoder for each input video track of the model, whatever it
  sends and however its requests decode; and a closed gate holds none.
\<close>

theorem gate_decoders_bounded:
  "length (gt_decoders (fst (gate_run av parse (init_gate video_inputs) ops))) \<le> card (set video_inputs) \<and>
   gt_decoders (fst (gate_run av parse (init_gate video_inputs) (ops @ [CloseGate]))) = []"
proof -
  let ?g = "fst (gate_run av parse (init_gate video_inputs) ops)"
  have "decoders_ok ?g"
    unfolding gate_run_fst by (rule gate_decoders.run_keeps) (simp add: decoders_ok_def init_gate_def)
  then have "length (gt_decoders ?g) = card (fst ` set (gt_decoders ?g))"
    "fst ` set (gt_decoders ?g) \<subseteq> set video_inputs"
    using gate_run_inputs [of av parse "init_gate video_inputs" ops]
    by (auto simp: decoders_ok_def init_gate_def dest: distinct_card)
  moreover have "gt_decoders (close_gate g) = []" for g :: "'a gate"
    using release_keys(1) [of "gt_decoders g" "dict_keys (gt_decoders g)"] by (simp add: close_gate_def)
  ultimately show ?thesis
    by (simp add: card_mono gate_run_fst)
qed

end
