(* ===== verification/ServerConnection.thy ===== *)
theory ServerConnection
  imports Prelude
begin

text \<open>
  One session's connection on the model server, \<^verbatim>\<open>model_server/connection.py\<close>: its state
  machine, its bounded outbox and the writer thread behind it, with the messages of
  \<^verbatim>\<open>model_server/protocol.py\<close> it carries and the exceptions of
  \<^verbatim>\<open>model_server/errors.py\<close> they report. The link is a parameter: what one \<open>send\<close> of a
  message comes to. \<open>cn_sent\<close> is the history of what the link took, and \<open>cn_move_error\<close> records
  a move the sequence does not allow, which raises in the code.
\<close>

datatype server_exc =
    ModelServerStopping
  | ModelServerRejected string
  | ResetRequired
  | StepStillRunning
  | StepExpired string
  | BatchFailed string
  | ModelError string
  | SendError string

datatype 'o to_session =
    Welcome int int int
  | Refused string
  | Result int 'o
  | Failed int server_exc
  | ResetDone int int

datatype conn_state = Conn_Connecting | Conn_Opening | Conn_Open | Conn_Closing | Conn_Closed

fun MOVES :: "conn_state \<Rightarrow> conn_state list" where
  "MOVES Conn_Connecting = [Conn_Opening, Conn_Closing]"
| "MOVES Conn_Opening = [Conn_Open, Conn_Closing]"
| "MOVES Conn_Open = [Conn_Open, Conn_Closing]"
| "MOVES Conn_Closing = [Conn_Closed]"
| "MOVES Conn_Closed = []"

datatype 'o outbox_item = Item "'o to_session" | FLUSH

record 'o connection =
  cn_number :: int
  cn_slot :: "int option"
  cn_generation :: int
  cn_session_id :: "string option"
  cn_state :: conn_state
  cn_move_error :: bool
  cn_maxsize :: nat
  cn_outbox :: "'o outbox_item list"
  cn_writing :: bool
  cn_link_open :: bool
  cn_sent :: "'o to_session list"

definition DEFAULT_OUTBOX :: nat where "DEFAULT_OUTBOX = 64"

definition init_connection :: "int \<Rightarrow> nat \<Rightarrow> 'o connection" where
  "init_connection number outbox =
     \<lparr>cn_number = number, cn_slot = None, cn_generation = 0, cn_session_id = None, cn_state = Conn_Connecting,
      cn_move_error = False, cn_maxsize = outbox, cn_outbox = [], cn_writing = True, cn_link_open = True, cn_sent = []\<rparr>"

definition move :: "'o connection \<Rightarrow> conn_state \<Rightarrow> 'o connection" where
  "move c st =
     (if st \<notin> set (MOVES (cn_state c)) then c\<lparr>cn_move_error := True\<rparr> else c\<lparr>cn_state := st\<rparr>)"

text \<open>\<open>put_nowait\<close> on the bounded queue.\<close>

definition put_nowait :: "'o connection \<Rightarrow> 'o outbox_item \<Rightarrow> 'o connection option" where
  "put_nowait c item =
     (if length (cn_outbox c) < cn_maxsize c then Some (c\<lparr>cn_outbox := cn_outbox c @ [item]\<rparr>) else None)"

definition close_link :: "'o connection \<Rightarrow> 'o connection" where
  "close_link c = c\<lparr>cn_link_open := False\<rparr>"

definition post :: "'o connection \<Rightarrow> 'o to_session \<Rightarrow> 'o connection \<times> bool" where
  "post c message =
     (if cn_state c = Conn_Closed then (c, True)
      else case put_nowait c (Item message) of None \<Rightarrow> (c, False) | Some c' \<Rightarrow> (c', True))"

definition close_connection :: "'o connection \<Rightarrow> 'o connection" where
  "close_connection c = (case put_nowait c FLUSH of None \<Rightarrow> close_link c | Some c' \<Rightarrow> c')"

datatype send_outcome = Sent | LinkGone | CannotCarry string

text \<open>One \<open>_send\<close>: what went out, or \<open>None\<close> where it raises.\<close>

definition send_message :: "('o to_session \<Rightarrow> send_outcome) \<Rightarrow> 'o to_session \<Rightarrow> 'o to_session option" where
  "send_message link message =
     (case link message of
        Sent \<Rightarrow> Some message
      | LinkGone \<Rightarrow> None
      | CannotCarry e \<Rightarrow>
          (case message of
             Result request_id _ \<Rightarrow>
               (case link (Failed request_id (SendError e)) of
                  Sent \<Rightarrow> Some (Failed request_id (SendError e)) | _ \<Rightarrow> None)
           | _ \<Rightarrow> None))"

text \<open>One iteration of the writer thread; with an empty outbox it waits.\<close>

definition end_writer :: "'o connection \<Rightarrow> 'o connection" where
  "end_writer c = close_link (c\<lparr>cn_writing := False\<rparr>)"

definition write_step :: "('o to_session \<Rightarrow> send_outcome) \<Rightarrow> 'o connection \<Rightarrow> 'o connection" where
  "write_step link c =
     (if \<not> cn_writing c then c
      else case cn_outbox c of
        [] \<Rightarrow> c
      | FLUSH # rest \<Rightarrow> end_writer (c\<lparr>cn_outbox := rest\<rparr>)
      | Item message # rest \<Rightarrow>
          (case send_message link message of
             None \<Rightarrow> end_writer (c\<lparr>cn_outbox := rest\<rparr>)
           | Some m \<Rightarrow> c\<lparr>cn_outbox := rest, cn_sent := cn_sent c @ [m]\<rparr>))"

section \<open>Answers in order\<close>

fun answers_request :: "'o to_session \<Rightarrow> int option" where
  "answers_request (Result request_id _) = Some request_id"
| "answers_request (Failed request_id _) = Some request_id"
| "answers_request (ResetDone request_id _) = Some request_id"
| "answers_request _ = None"

text \<open>A message that went out answers the same request as the one posted.\<close>

lemma send_message_answers: "send_message link m = Some m' \<Longrightarrow> answers_request m' = answers_request m"
  by (auto simp: send_message_def split: send_outcome.splits to_session.splits)

fun queued :: "'o outbox_item list \<Rightarrow> 'o to_session list" where
  "queued [] = []"
| "queued (FLUSH # items) = queued items"
| "queued (Item m # items) = m # queued items"

datatype 'o conn_op = Post "'o to_session" | CloseConn | CloseLink | Write "'o to_session \<Rightarrow> send_outcome" | Move conn_state

fun conn_step :: "'o connection \<Rightarrow> 'o conn_op \<Rightarrow> 'o connection" where
  "conn_step c (Post m) = fst (post c m)"
| "conn_step c CloseConn = close_connection c"
| "conn_step c CloseLink = close_link c"
| "conn_step c (Write link) = write_step link c"
| "conn_step c (Move st) = move c st"

text \<open>The messages a run of operations got into the outbox.\<close>

fun posted :: "'o connection \<Rightarrow> 'o conn_op list \<Rightarrow> 'o to_session list" where
  "posted c [] = []"
| "posted c (Post m # ops) =
     (if cn_state c \<noteq> Conn_Closed \<and> length (cn_outbox c) < cn_maxsize c then [m] else []) @
     posted (fst (post c m)) ops"
| "posted c (op # ops) = posted (conn_step c op) ops"

definition outbox_ok :: "'o connection \<Rightarrow> bool" where
  "outbox_ok c \<longleftrightarrow> length (cn_outbox c) \<le> cn_maxsize c"

lemma outbox_ok_step: "outbox_ok c \<Longrightarrow> outbox_ok (conn_step c op)"
  by (cases op)
    (auto simp: outbox_ok_def post_def close_connection_def put_nowait_def close_link_def write_step_def
      end_writer_def move_def split: option.splits list.splits outbox_item.splits)

interpretation outbox: step_invariant conn_step outbox_ok
  by unfold_locales (rule outbox_ok_step)

lemma queued_append [simp]: "queued (xs @ ys) = queued xs @ queued ys"
  by (induction xs rule: queued.induct) simp_all

text \<open>
  What went out answers the first of the messages posted, in order, and while the writer lives the
  rest of them is what the outbox holds.
\<close>

definition history_ok :: "'o connection \<Rightarrow> 'o to_session list \<Rightarrow> bool" where
  "history_ok c ms \<longleftrightarrow>
     length (cn_sent c) \<le> length ms \<and>
     map answers_request (cn_sent c) = take (length (cn_sent c)) (map answers_request ms) \<and>
     (cn_writing c \<longrightarrow> drop (length (cn_sent c)) ms = queued (cn_outbox c))"

lemma history_put:
  assumes "history_ok c ms"
  shows "put_nowait c item = Some c' \<Longrightarrow> history_ok c' (ms @ queued [item])"
  using assms by (auto simp: history_ok_def put_nowait_def split: if_splits)

lemma history_write:
  assumes "history_ok c ms"
  shows "history_ok (write_step link c) ms"
proof (cases "cn_writing c")
  case True
  have len: "length (cn_sent c) \<le> length ms" and dr: "drop (length (cn_sent c)) ms = queued (cn_outbox c)"
    and pre: "map answers_request (cn_sent c) = take (length (cn_sent c)) (map answers_request ms)"
    using assms True by (simp_all add: history_ok_def)
  show ?thesis
  proof (cases "cn_outbox c")
    case (Cons item rest)
    show ?thesis
    proof (cases item)
      case (Item m)
      with Cons dr have d: "drop (length (cn_sent c)) ms = m # queued rest" by simp
      then have lt: "length (cn_sent c) < length ms" by (metis drop_all list.distinct(1) not_less)
      then have nth: "ms ! length (cn_sent c) = m" using d by (metis Cons_nth_drop_Suc list.inject)
      have dr': "drop (Suc (length (cn_sent c))) ms = queued rest"
        using d lt by (metis Cons_nth_drop_Suc list.inject)
      show ?thesis
      proof (cases "send_message link m")
        case None
        with assms Cons Item show ?thesis
          by (auto simp: write_step_def history_ok_def end_writer_def close_link_def)
      next
        case (Some m')
        with True Cons Item pre lt nth dr' send_message_answers [OF Some] show ?thesis
          by (simp add: write_step_def history_ok_def take_Suc_conv_app_nth)
      qed
    qed (use Cons assms in \<open>auto simp: write_step_def history_ok_def end_writer_def close_link_def\<close>)
  qed (use assms True in \<open>simp add: write_step_def\<close>)
qed (use assms in \<open>simp add: write_step_def\<close>)

lemma history_one:
  assumes "history_ok c ms"
  shows "history_ok (conn_step c op) (ms @ posted c [op])"
proof (cases op)
  case (Post m)
  then show ?thesis using assms history_put [OF assms, of "Item m"] by (auto simp: post_def put_nowait_def)
next
  case CloseConn
  then show ?thesis using assms history_put [OF assms, of FLUSH]
    by (auto simp: close_connection_def close_link_def history_ok_def put_nowait_def)
next
  case CloseLink
  then show ?thesis using assms by (simp add: history_ok_def close_link_def)
next
  case (Write link)
  with history_write [OF assms] show ?thesis by simp
next
  case (Move st)
  then show ?thesis using assms by (simp add: history_ok_def move_def)
qed

lemma posted_Cons: "posted c (op # ops) = posted c [op] @ posted (conn_step c op) ops"
  by (cases op) simp_all

lemma history_step:
  "history_ok c ms \<Longrightarrow> history_ok (foldl conn_step c ops) (ms @ posted c ops)"
proof (induction ops arbitrary: c ms)
  case (Cons op ops)
  from Cons.IH [OF history_one [OF Cons.prems, of op]] show ?case by (simp add: posted_Cons [of c op ops])
qed simp

text \<open>
  A connection's answers reach the session in the order they were posted: over any run of
  posts, closes and writes, what the link took answers the first of the posted messages, one for
  one (a result the link cannot carry is answered by a failure of the same request), while the
  writer lives nothing posted is lost, and the outbox never holds more than its bound.
\<close>

theorem outbox_in_order:
  "let c = foldl conn_step (init_connection number outbox) ops;
       ms = posted (init_connection number outbox) ops
   in map answers_request (cn_sent c) = take (length (cn_sent c)) (map answers_request ms) \<and>
      (cn_writing c \<longrightarrow> ms = take (length (cn_sent c)) ms @ queued (cn_outbox c)) \<and>
      length (cn_outbox c) \<le> cn_maxsize c"
proof -
  let ?c = "foldl conn_step (init_connection number outbox) ops"
  have "history_ok (init_connection number outbox) []"
    by (simp add: history_ok_def init_connection_def)
  from history_step [OF this, of ops] have
    "history_ok ?c (posted (init_connection number outbox) ops)" by simp
  moreover have "outbox_ok ?c"
    by (rule outbox.run_keeps) (simp add: outbox_ok_def init_connection_def)
  ultimately show ?thesis
    unfolding Let_def history_ok_def outbox_ok_def by (metis append_take_drop_id)
qed

definition demo_link :: "int to_session \<Rightarrow> send_outcome" where
  "demo_link m = (case m of Result _ output \<Rightarrow> if output = 0 then CannotCarry ''too large'' else Sent | _ \<Rightarrow> Sent)"

definition demo_conn_ops :: "int conn_op list" where
  "demo_conn_ops = [Post (Result 7 0), Post (Result 8 5), Write demo_link, Post (ResetDone 9 1), Write demo_link]"

theorem outbox_in_order_witness:
  "map answers_request (cn_sent (foldl conn_step (init_connection 1 3) demo_conn_ops)) = [Some 7, Some 8]"
proof -
  have "length (cn_sent (foldl conn_step (init_connection 1 3) demo_conn_ops)) = 2"
    "map answers_request (posted (init_connection 1 3) demo_conn_ops) = [Some 7, Some 8, Some 9]"
    by code_simp+
  with outbox_in_order [of 1 3 demo_conn_ops] show ?thesis by (simp add: Let_def)
qed

end
