(* ===== verification/ServerCore.thy ===== *)
theory ServerCore
  imports BatchPolicy ServerConnection
begin

text \<open>
  The model server's process core, \<^verbatim>\<open>model_server/server_core.py\<close>: sessions in, batches
  stepped, answers out.

  The threads interleave at their critical sections. A session's reader thread accepts, reads its
  hello and dispatches its messages. The step thread takes a turn at its loop head (\<open>take_work\<close>),
  which leaves it a list of work items it then executes one by one; a call into the model whose
  outcome matters (\<open>session_opened()\<close>, \<open>step()\<close>) ends an item, and what follows the call is an item
  of its own, so everything the other threads do during the call comes in between. A future is
  resolved by a step of its own at any later moment, which also stands for the callback of a
  future that \<open>cancel()\<close> cancels. What the model returns or raises is an argument of the step that
  consumes it. \<open>session_closed()\<close>, \<open>signal()\<close> and logging do not change the server's state.

  Connections are named by their number; \<open>sv_conns\<close> holds every connection ever accepted,
  \<open>sv_connections\<close> the numbers the server has registered. \<open>sv_answers\<close> is the history of the
  answers given to sessions through \<open>_answer\<close>.
\<close>

datatype server_state = Serving | Draining | Stopped

fun SERVER_MOVES :: "server_state \<Rightarrow> server_state list" where
  "SERVER_MOVES Serving = [Draining, Stopped]"
| "SERVER_MOVES Draining = [Stopped]"
| "SERVER_MOVES Stopped = []"

datatype lifecycle_event = EvOpen int | EvLeave int | EvReset int int "string option"

record 'p pending =
  pn_ticket :: int
  pn_generation :: int
  pn_waiting :: "'p waiting"
  pn_connection :: int
  pn_since :: real
  pn_future :: bool
  pn_answered :: bool
  pn_detached :: bool

definition awaited :: "'p pending \<Rightarrow> bool" where
  "awaited p \<longleftrightarrow> \<not> pn_answered p \<and> \<not> pn_detached p"

datatype 'p work =
    WOverdue "'p pending"
  | WEvent lifecycle_event
  | WRefuse lifecycle_event
  | WOpened int
  | WResetOpened int int
  | WExpired "'p waiting"
  | WRun "'p waiting list"
  | WStepped "int list"

datatype 'o model_output = Value 'o | Raised string | FutureOutput

datatype 'o step_result = StepRaised string | NotASequence | Outputs "'o model_output list"

record ('p, 'o) server =
  sv_max_sessions :: int
  sv_max_batch :: int
  sv_stuck_after :: real
  sv_drain_timeout :: real
  sv_drain_deadline :: "real option"
  sv_policy :: "'p batch_policy"
  sv_state :: server_state
  sv_events :: "lifecycle_event list"
  sv_conns :: "(int, 'o connection) dict"
  sv_connections :: "int list"
  sv_by_slot :: "(int, int) dict"
  sv_opening :: "int list"
  sv_reset_pending :: "int set"
  sv_generations :: "(int, int) dict"
  sv_numbers :: int
  sv_broken :: "string option"
  sv_pending :: "'p pending list"
  sv_tickets :: int
  sv_step_thread :: bool
  sv_work :: "'p work list"
  sv_answers :: "(int \<times> 'o to_session) list"

definition init_server :: "int \<Rightarrow> real \<Rightarrow> int \<Rightarrow> real \<Rightarrow> real \<Rightarrow> ('p, 'o) server" where
  "init_server max_batch batch_window max_sessions stuck_after drain_timeout =
     \<lparr>sv_max_sessions = max_sessions, sv_max_batch = max_batch, sv_stuck_after = stuck_after,
      sv_drain_timeout = drain_timeout, sv_drain_deadline = None, sv_policy = init_policy max_batch batch_window,
      sv_state = Serving, sv_events = [], sv_conns = [], sv_connections = [], sv_by_slot = [], sv_opening = [],
      sv_reset_pending = {}, sv_generations = [], sv_numbers = 1, sv_broken = None, sv_pending = [],
      sv_tickets = 1, sv_step_thread = True, sv_work = [], sv_answers = []\<rparr>"

section \<open>Connections by number\<close>

definition conn_of :: "('p, 'o) server \<Rightarrow> int \<Rightarrow> 'o connection" where
  "conn_of s n = (case dict_get (sv_conns s) n of Some c \<Rightarrow> c | None \<Rightarrow> init_connection n DEFAULT_OUTBOX)"

definition on_conn :: "('o connection \<Rightarrow> 'o connection) \<Rightarrow> int \<Rightarrow> ('p, 'o) server \<Rightarrow> ('p, 'o) server" where
  "on_conn f n s = s\<lparr>sv_conns := dict_set n (f (conn_of s n)) (sv_conns s)\<rparr>"

definition discard_opening :: "int \<Rightarrow> ('p, 'o) server \<Rightarrow> ('p, 'o) server" where
  "discard_opening n s = s\<lparr>sv_opening := filter (\<lambda>m. m \<noteq> n) (sv_opening s)\<rparr>"

definition answer :: "int \<Rightarrow> 'o to_session \<Rightarrow> ('p, 'o) server \<Rightarrow> ('p, 'o) server" where
  "answer n message s =
     on_conn (\<lambda>c. case post c message of (c', True) \<Rightarrow> c' | (c', False) \<Rightarrow> close_link c') n
       (s\<lparr>sv_answers := sv_answers s @ [(n, message)]\<rparr>)"

section \<open>Accepting and reading\<close>

definition accept :: "('p, 'o) server \<Rightarrow> ('p, 'o) server" where
  "accept s =
     (let n = sv_numbers s;
          s1 = s\<lparr>sv_numbers := n + 1, sv_conns := dict_set n (init_connection n DEFAULT_OUTBOX) (sv_conns s)\<rparr>
      in if sv_state s = Serving \<and> int (length (sv_opening s)) < sv_max_sessions s
         then s1\<lparr>sv_opening := sv_opening s @ [n]\<rparr>
         else on_conn close_connection n s1)"

definition queue_event :: "lifecycle_event \<Rightarrow> ('p, 'o) server \<Rightarrow> ('p, 'o) server" where
  "queue_event e s = s\<lparr>sv_events := sv_events s @ [e]\<rparr>"

definition hello_expired :: "int \<Rightarrow> ('p, 'o) server \<Rightarrow> ('p, 'o) server" where
  "hello_expired n s = (if cn_state (conn_of s n) = Conn_Connecting then on_conn close_link n s else s)"

definition refuse_session :: "int \<Rightarrow> string \<Rightarrow> ('p, 'o) server \<Rightarrow> ('p, 'o) server" where
  "refuse_session n reason s = on_conn (\<lambda>c. fst (post c (Refused reason))) n s"

datatype hello_message = Hello int int | NotAHello

definition PROTOCOL :: int where "PROTOCOL = 1"

text \<open>The first message; a hello that is not taken ends the reader, whose leave is queued.\<close>

definition read_hello :: "int \<Rightarrow> hello_message \<Rightarrow> ('p, 'o) server \<Rightarrow> ('p, 'o) server" where
  "read_hello n hello s =
     (case hello of
        NotAHello \<Rightarrow> queue_event (EvLeave n) s
      | Hello slot protocol \<Rightarrow>
          if protocol \<noteq> PROTOCOL then queue_event (EvLeave n) (refuse_session n ''protocol'' s)
          else if \<not> (0 \<le> slot \<and> slot < sv_max_sessions s)
            then queue_event (EvLeave n) (refuse_session n ''slot is out of range'' s)
          else let s1 = on_conn (\<lambda>c. c\<lparr>cn_slot := Some slot\<rparr>) n s
               in if sv_state s = Serving
                  then queue_event (EvOpen n) (on_conn (\<lambda>c. move c Conn_Opening) n s1)
                  else queue_event (EvLeave n) (on_conn close_connection n s1))"

definition take_step :: "int \<Rightarrow> int \<Rightarrow> real option \<Rightarrow> 'p \<Rightarrow> real \<Rightarrow> ('p, 'o) server \<Rightarrow> ('p, 'o) server" where
  "take_step n request_id timeout payload now s =
     (let waiting = \<lparr>wt_connection = n, wt_request_id = request_id, wt_payload = payload, wt_arrived = now,
            wt_deadline = map_option (\<lambda>t. now + t) timeout, wt_order = 0\<rparr>
      in if sv_state s \<noteq> Serving then answer n (Failed request_id ModelServerStopping) s
         else if cn_state (conn_of s n) \<noteq> Conn_Open
           then answer n (Failed request_id (ModelServerRejected ''the session is not open'')) s
         else if n \<in> sv_reset_pending s then answer n (Failed request_id ResetRequired) s
         else case add (sv_policy s) waiting of
           (p, False) \<Rightarrow> answer n (Failed request_id StepStillRunning) s
         | (p, True) \<Rightarrow> s\<lparr>sv_policy := p\<rparr>)"

definition runs_request :: "int \<Rightarrow> int \<Rightarrow> 'p pending \<Rightarrow> bool" where
  "runs_request n request_id p \<longleftrightarrow>
     pn_connection p = n \<and> wt_request_id (pn_waiting p) = request_id \<and> pn_future p \<and> awaited p"

definition cancel_request :: "int \<Rightarrow> int \<Rightarrow> ('p, 'o) server \<Rightarrow> ('p, 'o) server" where
  "cancel_request n request_id s =
     (case cancel (sv_policy s) n request_id of
        (p, True) \<Rightarrow> s\<lparr>sv_policy := p\<rparr>
      | (p, False) \<Rightarrow> s\<lparr>sv_pending :=
          map (\<lambda>p. if runs_request n request_id p then p\<lparr>pn_answered := True\<rparr> else p) (sv_pending s)\<rparr>)"

definition take_reset :: "int \<Rightarrow> int \<Rightarrow> string option \<Rightarrow> ('p, 'o) server \<Rightarrow> ('p, 'o) server" where
  "take_reset n request_id session_id s =
     (if sv_state s = Serving
      then queue_event (EvReset n request_id session_id) (s\<lparr>sv_reset_pending := insert n (sv_reset_pending s)\<rparr>)
      else answer n (Failed request_id ModelServerStopping) s)"

definition reset_answered :: "int \<Rightarrow> ('p, 'o) server \<Rightarrow> ('p, 'o) server" where
  "reset_answered n s = s\<lparr>sv_reset_pending := sv_reset_pending s - {n}\<rparr>"

datatype 'p session_message =
    StepMsg int "real option" 'p
  | CancelMsg int
  | SignalMsg
  | ResetMsg int "string option"
  | UnknownMsg

fun dispatch :: "int \<Rightarrow> 'p session_message \<Rightarrow> real \<Rightarrow> ('p, 'o) server \<Rightarrow> ('p, 'o) server" where
  "dispatch n (StepMsg request_id timeout payload) now s = take_step n request_id timeout payload now s"
| "dispatch n (CancelMsg request_id) now s = cancel_request n request_id s"
| "dispatch n SignalMsg now s = s"
| "dispatch n (ResetMsg request_id session_id) now s = take_reset n request_id session_id s"
| "dispatch n UnknownMsg now s = queue_event (EvLeave n) s"

section \<open>Finishing requests\<close>

definition outcome :: "int \<Rightarrow> 'o model_output \<Rightarrow> 'o to_session" where
  "outcome request_id out =
     (case out of
        Value v \<Rightarrow> Result request_id v
      | Raised e \<Rightarrow> Failed request_id (ModelError e)
      | FutureOutput \<Rightarrow> Failed request_id (ModelError ''future''))"

definition find_pending :: "('p, 'o) server \<Rightarrow> int \<Rightarrow> 'p pending option" where
  "find_pending s ticket = find (\<lambda>p. pn_ticket p = ticket) (sv_pending s)"

definition complete :: "'p pending \<Rightarrow> 'o to_session \<Rightarrow> ('p, 'o) server \<Rightarrow> ('p, 'o) server" where
  "complete item message s =
     (let n = pn_connection item;
          s1 = s\<lparr>sv_pending := filter (\<lambda>p. pn_ticket p \<noteq> pn_ticket item) (sv_pending s)\<rparr>;
          s2 = (if awaited item \<and> cn_state (conn_of s n) = Conn_Open \<and>
                   cn_generation (conn_of s n) = pn_generation item \<and> n \<in> set (sv_connections s)
                then answer n message s1 else s1)
      in if \<not> pn_detached item then s2\<lparr>sv_policy := finished (sv_policy s2) [n]\<rparr> else s2)"

definition resolve :: "int \<Rightarrow> 'o model_output option \<Rightarrow> ('p, 'o) server \<Rightarrow> ('p, 'o) server" where
  "resolve ticket out s =
     (case find_pending s ticket of
        None \<Rightarrow> s
      | Some item \<Rightarrow>
          if \<not> pn_future item then s
          else complete item
            (case out of
               None \<Rightarrow> Failed (wt_request_id (pn_waiting item)) (StepExpired ''the request was cancelled'')
             | Some o' \<Rightarrow> outcome (wt_request_id (pn_waiting item)) o') s)"

definition detach :: "int \<Rightarrow> 'p pending \<Rightarrow> 'p pending" where
  "detach n p = (if pn_connection p = n \<and> \<not> pn_detached p then p\<lparr>pn_detached := True\<rparr> else p)"

definition drop_pending :: "int \<Rightarrow> ('p, 'o) server \<Rightarrow> ('p, 'o) server \<times> 'p pending list" where
  "drop_pending n s =
     (s\<lparr>sv_pending := map (detach n) (sv_pending s)\<rparr>,
      filter (\<lambda>p. pn_connection p = n \<and> \<not> pn_detached p \<and> pn_future p) (sv_pending s))"

definition forget :: "int \<Rightarrow> ('p, 'o) server \<Rightarrow> ('p, 'o) server" where
  "forget n s =
     (let s1 = on_conn (\<lambda>c. move c Conn_Closing) n s;
          s2 = fst (drop_pending n (s1\<lparr>sv_policy := fst (drop_connection (sv_policy s1) n)\<rparr>));
          s3 = s2\<lparr>sv_reset_pending := sv_reset_pending s2 - {n},
                  sv_connections := filter (\<lambda>m. m \<noteq> n) (sv_connections s2)\<rparr>
      in case cn_slot (conn_of s3 n) of
           None \<Rightarrow> s3
         | Some slot \<Rightarrow>
             if dict_get (sv_by_slot s3) slot = Some n then s3\<lparr>sv_by_slot := dict_del slot (sv_by_slot s3)\<rparr> else s3)"

definition leave :: "int \<Rightarrow> ('p, 'o) server \<Rightarrow> ('p, 'o) server" where
  "leave n s =
     (let s1 = discard_opening n s
      in if cn_state (conn_of s1 n) \<in> {Conn_Closing, Conn_Closed} then on_conn close_connection n s1
         else on_conn close_connection n (on_conn (\<lambda>c. move c Conn_Closed) n (forget n s1)))"

section \<open>Opening and resetting\<close>

definition next_generation :: "int \<Rightarrow> ('p, 'o) server \<Rightarrow> ('p, 'o) server \<times> int" where
  "next_generation slot s =
     (let g = (case dict_get (sv_generations s) slot of None \<Rightarrow> 0 | Some k \<Rightarrow> k) + 1
      in (s\<lparr>sv_generations := dict_set slot g (sv_generations s)\<rparr>, g))"

text \<open>An open up to its \<open>session_opened()\<close>, whose outcome the item \<open>WOpened\<close> takes.\<close>

definition open_begin :: "int \<Rightarrow> ('p, 'o) server \<Rightarrow> ('p, 'o) server" where
  "open_begin n s =
     (case cn_slot (conn_of s n) of
        Some slot \<Rightarrow>
          if cn_state (conn_of s n) \<noteq> Conn_Opening then discard_opening n s
          else
            let s1 = (case dict_get (sv_by_slot s) slot of
                        Some held \<Rightarrow> if held \<noteq> n then leave held s else s
                      | None \<Rightarrow> s);
                (s2, g) = next_generation slot s1;
                s3 = on_conn (\<lambda>c. c\<lparr>cn_generation := g\<rparr>) n s2
            in s3\<lparr>sv_work := WOpened n # sv_work s3\<rparr>
      | None \<Rightarrow> discard_opening n s)"

definition open_end :: "int \<Rightarrow> bool \<Rightarrow> ('p, 'o) server \<Rightarrow> ('p, 'o) server" where
  "open_end n raised s =
     (let s1 = discard_opening n s; serving = (sv_state s = Serving)
      in if raised then
           let s2 = (if serving then refuse_session n ''session_opened() refused it'' s1 else s1)
           in on_conn close_connection n (on_conn (\<lambda>c. move c Conn_Closing) n s2)
         else if serving then
           (case cn_slot (conn_of s1 n) of
              None \<Rightarrow> s1
            | Some slot \<Rightarrow>
                let s2 = (on_conn (\<lambda>c. move c Conn_Open) n s1)
                       \<lparr>sv_connections := filter (\<lambda>m. m \<noteq> n) (sv_connections s1) @ [n],
                        sv_by_slot := dict_set slot n (sv_by_slot s1)\<rparr>
                in answer n (Welcome slot (cn_generation (conn_of s2 n)) (sv_max_batch s)) s2)
         else on_conn close_connection n (on_conn (\<lambda>c. move c Conn_Closing) n s1))"

definition answer_all :: "int \<Rightarrow> server_exc \<Rightarrow> 'p waiting list \<Rightarrow> ('p, 'o) server \<Rightarrow> ('p, 'o) server" where
  "answer_all n e requests s = foldl (\<lambda>s r. answer n (Failed (wt_request_id r) e) s) s requests"

definition reset_begin :: "int \<Rightarrow> int \<Rightarrow> string option \<Rightarrow> ('p, 'o) server \<Rightarrow> ('p, 'o) server" where
  "reset_begin n request_id session_id s =
     (case cn_slot (conn_of s n) of
        Some slot \<Rightarrow>
          if cn_state (conn_of s n) \<noteq> Conn_Open then reset_answered n s
          else
            let (p, queued) = drop_connection (sv_policy s) n;
                (s1, running) = drop_pending n (s\<lparr>sv_policy := p\<rparr>);
                dropped = queued @ map pn_waiting (filter (\<lambda>p. \<not> pn_answered p) running);
                s2 = answer_all n (StepExpired ''the session reset'') dropped s1;
                (s3, g) = next_generation slot s2;
                s4 = on_conn (\<lambda>c. c\<lparr>cn_generation := g, cn_session_id := session_id\<rparr>) n s3
            in s4\<lparr>sv_work := WResetOpened n request_id # sv_work s4\<rparr>
      | None \<Rightarrow> reset_answered n s)"

definition reset_end :: "int \<Rightarrow> int \<Rightarrow> bool \<Rightarrow> ('p, 'o) server \<Rightarrow> ('p, 'o) server" where
  "reset_end n request_id raised s =
     (if raised then
        on_conn close_connection n (on_conn (\<lambda>c. move c Conn_Closed) n (forget n
          (answer n (Failed request_id (ModelServerRejected ''session_opened() refused the reset''))
            (reset_answered n s))))
      else
        let s1 = reset_answered n (on_conn (\<lambda>c. move c Conn_Open) n s)
        in answer n (ResetDone request_id (cn_generation (conn_of s1 n))) s1)"

section \<open>The step thread\<close>

definition expire_running :: "real \<Rightarrow> ('p, 'o) server \<Rightarrow> ('p, 'o) server \<times> 'p pending list" where
  "expire_running now s =
     (let late = (\<lambda>p. pn_future p \<and> awaited p \<and> overdue now (pn_waiting p))
      in (s\<lparr>sv_pending := map (\<lambda>p. if late p then p\<lparr>pn_answered := True\<rparr> else p) (sv_pending s)\<rparr>,
          filter late (sv_pending s)))"

definition next_wake :: "real \<Rightarrow> real \<Rightarrow> ('p, 'o) server \<Rightarrow> real" where
  "next_wake wait now s =
     (let ds = deadlines (map pn_waiting (filter (\<lambda>p. pn_future p \<and> awaited p) (sv_pending s)))
      in if ds = [] then wait else min wait (Min (set ds) - now))"

definition open_sessions :: "('p, 'o) server \<Rightarrow> int" where
  "open_sessions s = int (length (filter (\<lambda>n. cn_state (conn_of s n) = Conn_Open) (sv_connections s)))"

text \<open>The critical section at the loop head: what the thread does until it is back there.\<close>

definition take_work :: "real \<Rightarrow> ('p, 'o) server \<Rightarrow> ('p, 'o) server" where
  "take_work now s =
     (if \<not> sv_step_thread s \<or> sv_work s \<noteq> [] then s
      else if sv_state s = Stopped then s\<lparr>sv_step_thread := False\<rparr>
      else if sv_state s = Draining \<and>
          ((case sv_drain_deadline s of None \<Rightarrow> True | Some d \<Rightarrow> d \<le> now) \<or> \<not> list_ex awaited (sv_pending s))
        then s\<lparr>sv_step_thread := False\<rparr>
      else
        let (s1, late) = expire_running now s; events = sv_events s1; s2 = s1\<lparr>sv_events := []\<rparr>
        in if sv_state s = Draining then s2\<lparr>sv_work := map WOverdue late @ map WRefuse events\<rparr>
           else if events \<noteq> [] then s2\<lparr>sv_work := map WOverdue late @ map WEvent events\<rparr>
           else
             let (p, t) = take_turn (sv_policy s2) now (open_sessions s2)
             in s2\<lparr>sv_policy := p,
                   sv_work := map WOverdue late @ map WExpired (tn_expired t) @
                     (if tn_batch t = [] then [] else [WRun (tn_batch t)])\<rparr>)"

definition post_to :: "int \<Rightarrow> 'o to_session \<Rightarrow> ('p, 'o) server \<Rightarrow> ('p, 'o) server" where
  "post_to n message s = (if n \<in> set (sv_connections s) then answer n message s else s)"

definition new_pending :: "('p, 'o) server \<Rightarrow> real \<Rightarrow> int \<times> 'p waiting \<Rightarrow> 'p pending" where
  "new_pending s now tr =
     \<lparr>pn_ticket = fst tr, pn_generation = cn_generation (conn_of s (wt_connection (snd tr))), pn_waiting = snd tr,
      pn_connection = wt_connection (snd tr), pn_since = now, pn_future = False, pn_answered = False,
      pn_detached = False\<rparr>"

definition run_begin :: "'p waiting list \<Rightarrow> real \<Rightarrow> ('p, 'o) server \<Rightarrow> ('p, 'o) server" where
  "run_begin batch now s =
     (let live = filter (\<lambda>r. wt_connection r \<in> set (sv_connections s)) batch
      in if live = [] then s\<lparr>sv_policy := finished (sv_policy s) (map wt_connection batch)\<rparr>
         else
           let tickets = map (\<lambda>i. sv_tickets s + int i) [0..<length live];
               pending = map (new_pending s now) (zip tickets live)
           in s\<lparr>sv_tickets := sv_tickets s + int (length live), sv_pending := sv_pending s @ pending,
                sv_work := WStepped tickets # sv_work s\<rparr>)"

definition finish_one :: "('p pending \<Rightarrow> 'o to_session) \<Rightarrow> int \<Rightarrow> ('p, 'o) server \<Rightarrow> ('p, 'o) server" where
  "finish_one message ticket s =
     (case find_pending s ticket of None \<Rightarrow> s | Some item \<Rightarrow> complete item (message item) s)"

definition start_future :: "real \<Rightarrow> int \<Rightarrow> ('p, 'o) server \<Rightarrow> ('p, 'o) server" where
  "start_future now ticket s =
     s\<lparr>sv_pending := map (\<lambda>p. if pn_ticket p = ticket then p\<lparr>pn_future := True, pn_since := now\<rparr> else p) (sv_pending s)\<rparr>"

definition finish_output :: "real \<Rightarrow> ('p, 'o) server \<Rightarrow> int \<times> 'o model_output \<Rightarrow> ('p, 'o) server" where
  "finish_output now s tout =
     (case snd tout of
        FutureOutput \<Rightarrow> start_future now (fst tout) s
      | out \<Rightarrow> finish_one (\<lambda>item. outcome (wt_request_id (pn_waiting item)) out) (fst tout) s)"

definition run_end :: "int list \<Rightarrow> 'o step_result \<Rightarrow> real \<Rightarrow> ('p, 'o) server \<Rightarrow> ('p, 'o) server" where
  "run_end tickets result now s =
     (let failed = (\<lambda>e. foldl (\<lambda>s ticket.
            finish_one (\<lambda>item. Failed (wt_request_id (pn_waiting item)) (BatchFailed e)) ticket s) s tickets)
      in case result of
           StepRaised e \<Rightarrow> failed e
         | NotASequence \<Rightarrow> failed ''wrong number of outputs''
         | Outputs outs \<Rightarrow>
             if length outs \<noteq> length tickets then failed ''wrong number of outputs''
             else foldl (finish_output now) s (zip tickets outs))"

definition refuse_while_stopping :: "lifecycle_event \<Rightarrow> ('p, 'o) server \<Rightarrow> ('p, 'o) server" where
  "refuse_while_stopping e s =
     (case e of
        EvOpen n \<Rightarrow> s
      | EvLeave n \<Rightarrow> leave n s
      | EvReset n request_id session_id \<Rightarrow> answer n (Failed request_id ModelServerStopping) (reset_answered n s))"

definition apply_event :: "lifecycle_event \<Rightarrow> ('p, 'o) server \<Rightarrow> ('p, 'o) server" where
  "apply_event e s =
     (case e of
        EvOpen n \<Rightarrow> open_begin n s
      | EvLeave n \<Rightarrow> leave n s
      | EvReset n request_id session_id \<Rightarrow> reset_begin n request_id session_id s)"

record 'o model_outcome =
  mo_raised :: bool
  mo_result :: "'o step_result"

fun do_work :: "'p work \<Rightarrow> 'o model_outcome \<Rightarrow> real \<Rightarrow> ('p, 'o) server \<Rightarrow> ('p, 'o) server" where
  "do_work (WOverdue p) mo now s =
     answer (pn_connection p) (Failed (wt_request_id (pn_waiting p)) (StepExpired ''the timeout passed while it ran'')) s"
| "do_work (WEvent e) mo now s = apply_event e s"
| "do_work (WRefuse e) mo now s = refuse_while_stopping e s"
| "do_work (WOpened n) mo now s = open_end n (mo_raised mo) s"
| "do_work (WResetOpened n request_id) mo now s = reset_end n request_id (mo_raised mo) s"
| "do_work (WExpired r) mo now s =
     post_to (wt_connection r) (Failed (wt_request_id r) (StepExpired ''the timeout passed in the queue'')) s"
| "do_work (WRun batch) mo now s = run_begin batch now s"
| "do_work (WStepped tickets) mo now s = run_end tickets (mo_result mo) now s"

definition next_work :: "'o model_outcome \<Rightarrow> real \<Rightarrow> ('p, 'o) server \<Rightarrow> ('p, 'o) server" where
  "next_work mo now s = (case sv_work s of [] \<Rightarrow> s | w # ws \<Rightarrow> do_work w mo now (s\<lparr>sv_work := ws\<rparr>))"

section \<open>Draining and stopping\<close>

definition server_move :: "server_state \<Rightarrow> ('p, 'o) server \<Rightarrow> ('p, 'o) server" where
  "server_move st s = (if st \<in> set (SERVER_MOVES (sv_state s)) then s\<lparr>sv_state := st\<rparr> else s)"

definition begin_drain :: "real \<Rightarrow> ('p, 'o) server \<Rightarrow> ('p, 'o) server" where
  "begin_drain now s =
     (if sv_state s = Serving
      then (server_move Draining s)\<lparr>sv_drain_deadline := Some (now + sv_drain_timeout s)\<rparr> else s)"

definition begin_stop :: "('p, 'o) server \<Rightarrow> ('p, 'o) server" where
  "begin_stop s = (if sv_state s \<noteq> Stopped then server_move Stopped s else s)"

definition close_opening :: "int \<Rightarrow> ('p, 'o) server \<Rightarrow> ('p, 'o) server" where
  "close_opening n s =
     (if cn_state (conn_of s n) \<in> {Conn_Connecting, Conn_Opening}
      then on_conn close_connection n (on_conn (\<lambda>c. move c Conn_Closing) n s) else s)"

text \<open>Once the step thread has ended, everything that still waits, runs or opens is answered.\<close>

fun drop_all :: "'p batch_policy \<Rightarrow> int list \<Rightarrow> 'p batch_policy \<times> (int \<times> 'p waiting list) list" where
  "drop_all p [] = (p, [])"
| "drop_all p (n # ns) =
     (let (p1, requests) = drop_connection p n; (p2, rest) = drop_all p1 ns in (p2, (n, requests) # rest))"

definition answer_in_flight :: "('p, 'o) server \<Rightarrow> ('p, 'o) server" where
  "answer_in_flight s =
     (let events = sv_events s;
          (policy, dropped) = drop_all (sv_policy s) (sv_connections s);
          pending = sv_pending s;
          opening = sv_opening s;
          s2 = s\<lparr>sv_events := [], sv_pending := [], sv_opening := [],
                  sv_policy := finished policy (map pn_connection (filter (\<lambda>p. \<not> pn_detached p) pending))\<rparr>;
          s3 = foldl (\<lambda>s p. if awaited p
                 then answer (pn_connection p) (Failed (wt_request_id (pn_waiting p)) ModelServerStopping) s else s) s2 pending;
          s4 = foldl (\<lambda>s e. refuse_while_stopping e s) s3 events;
          s5 = foldl (\<lambda>s nr. answer_all (fst nr) ModelServerStopping (snd nr) s) s4 dropped
      in foldl (\<lambda>s n. close_opening n s) s5 opening)"

text \<open>A fault that escapes the step thread: it stops taking work and answers what is there.\<close>

definition step_loop_fault :: "string \<Rightarrow> ('p, 'o) server \<Rightarrow> ('p, 'o) server" where
  "step_loop_fault reason s =
     (let s1 = s\<lparr>sv_broken := Some reason, sv_step_thread := False, sv_work := []\<rparr>
      in answer_in_flight (if sv_state s = Serving then server_move Draining s1 else s1))"

text \<open>\<open>call\<close> is what \<open>_Timed\<close> keeps of the call into the model that runs, if one does: what it is and since when.\<close>

definition server_health :: "(string \<times> real) option \<Rightarrow> real \<Rightarrow> bool \<Rightarrow> ('p, 'o) server \<Rightarrow> bool" where
  "server_health call now model_healthy s \<longleftrightarrow>
     sv_broken s = None \<and>
     (case call of None \<Rightarrow> True | Some (what, since) \<Rightarrow> now - since \<le> sv_stuck_after s) \<and>
     list_all (\<lambda>p. \<not> pn_future p \<or> now - pn_since p \<le> sv_stuck_after s) (sv_pending s) \<and>
     model_healthy"

datatype ('p, 'o) server_op =
    Accept
  | ReadHello int hello_message
  | Read int "'p session_message" real
  | ReaderEnds int
  | HelloExpired int
  | TakeWork real
  | DoWork "'o model_outcome" real
  | Resolve int "'o model_output option"
  | WriteOut int "'o to_session \<Rightarrow> send_outcome"
  | BeginDrain real
  | BeginStop
  | AnswerInFlight
  | StopLeave int
  | StepLoopFault string

definition accepted :: "('p, 'o) server \<Rightarrow> int \<Rightarrow> bool" where
  "accepted s n \<longleftrightarrow> 1 \<le> n \<and> n < sv_numbers s"

text \<open>
  A reader reads its hello first and dispatches only after a hello was taken; \<open>_answer_in_flight\<close>
  and the leaves of a stop run once the step thread has ended.
\<close>

fun server_step :: "('p, 'o) server \<Rightarrow> ('p, 'o) server_op \<Rightarrow> ('p, 'o) server" where
  "server_step s Accept = accept s"
| "server_step s (ReadHello n hello) =
     (if accepted s n \<and> cn_state (conn_of s n) = Conn_Connecting \<and> cn_slot (conn_of s n) = None
      then read_hello n hello s else s)"
| "server_step s (Read n message now) =
     (if accepted s n \<and> cn_state (conn_of s n) \<noteq> Conn_Connecting
      then dispatch n message now s else s)"
| "server_step s (ReaderEnds n) = (if accepted s n then queue_event (EvLeave n) s else s)"
| "server_step s (HelloExpired n) = (if accepted s n then hello_expired n s else s)"
| "server_step s (TakeWork now) = take_work now s"
| "server_step s (DoWork mo now) = next_work mo now s"
| "server_step s (Resolve ticket out) = resolve ticket out s"
| "server_step s (WriteOut n link) =
     (if accepted s n then on_conn (write_step link) n s else s)"
| "server_step s (BeginDrain now) = begin_drain now s"
| "server_step s BeginStop = begin_stop s"
| "server_step s AnswerInFlight = (if sv_step_thread s then s else answer_in_flight s)"
| "server_step s (StopLeave n) =
     (if sv_step_thread s \<or> sv_state s \<noteq> Stopped \<or> n \<notin> set (sv_connections s) then s else leave n s)"
| "server_step s (StepLoopFault reason) = (if sv_step_thread s then step_loop_fault reason s else s)"

end
