(* ===== verification/ServerAccounting.thy ===== *)
theory ServerAccounting
  imports ServerCore
begin

text \<open>
  The model server's books: for each connection and request id, the answers given, the requests
  that wait, run or are being handled, and the requests the session made. Every step keeps the
  books from gaining an answer nobody asked for.
\<close>

section \<open>What each helper leaves alone\<close>

lemma conn_of_update [simp]:
  "conn_of (s\<lparr>sv_policy := p\<rparr>) n = conn_of s n" "conn_of (s\<lparr>sv_events := es\<rparr>) n = conn_of s n"
  "conn_of (s\<lparr>sv_connections := ns\<rparr>) n = conn_of s n" "conn_of (s\<lparr>sv_by_slot := d\<rparr>) n = conn_of s n"
  "conn_of (s\<lparr>sv_opening := ns\<rparr>) n = conn_of s n" "conn_of (s\<lparr>sv_reset_pending := r\<rparr>) n = conn_of s n"
  "conn_of (s\<lparr>sv_generations := g\<rparr>) n = conn_of s n" "conn_of (s\<lparr>sv_pending := ps\<rparr>) n = conn_of s n"
  "conn_of (s\<lparr>sv_work := w\<rparr>) n = conn_of s n" "conn_of (s\<lparr>sv_answers := a\<rparr>) n = conn_of s n"
  "conn_of (s\<lparr>sv_tickets := k\<rparr>) n = conn_of s n" "conn_of (s\<lparr>sv_state := st\<rparr>) n = conn_of s n"
  "conn_of (s\<lparr>sv_step_thread := b\<rparr>) n = conn_of s n" "conn_of (s\<lparr>sv_broken := br\<rparr>) n = conn_of s n"
  "conn_of (s\<lparr>sv_drain_deadline := dl\<rparr>) n = conn_of s n" "conn_of (s\<lparr>sv_numbers := k\<rparr>) n = conn_of s n"
  by (simp_all add: conn_of_def)

lemma conn_of_on_conn [simp]: "conn_of (on_conn f n s) m = (if m = n then f (conn_of s n) else conn_of s m)"
  by (simp add: conn_of_def on_conn_def dict_get_set)

lemma on_conn_fields [simp]:
  "sv_policy (on_conn f n s) = sv_policy s" "sv_pending (on_conn f n s) = sv_pending s"
  "sv_events (on_conn f n s) = sv_events s" "sv_work (on_conn f n s) = sv_work s"
  "sv_state (on_conn f n s) = sv_state s" "sv_step_thread (on_conn f n s) = sv_step_thread s"
  "sv_tickets (on_conn f n s) = sv_tickets s" "sv_answers (on_conn f n s) = sv_answers s"
  "sv_connections (on_conn f n s) = sv_connections s" "sv_by_slot (on_conn f n s) = sv_by_slot s"
  "sv_opening (on_conn f n s) = sv_opening s" "sv_reset_pending (on_conn f n s) = sv_reset_pending s"
  "sv_numbers (on_conn f n s) = sv_numbers s" "sv_max_sessions (on_conn f n s) = sv_max_sessions s"
  "sv_generations (on_conn f n s) = sv_generations s" "sv_max_batch (on_conn f n s) = sv_max_batch s"
  by (simp_all add: on_conn_def)

lemma answer_fields [simp]:
  "sv_policy (answer n m s) = sv_policy s" "sv_pending (answer n m s) = sv_pending s"
  "sv_events (answer n m s) = sv_events s" "sv_work (answer n m s) = sv_work s"
  "sv_state (answer n m s) = sv_state s" "sv_step_thread (answer n m s) = sv_step_thread s"
  "sv_tickets (answer n m s) = sv_tickets s" "sv_answers (answer n m s) = sv_answers s @ [(n, m)]"
  "sv_connections (answer n m s) = sv_connections s" "sv_by_slot (answer n m s) = sv_by_slot s"
  "sv_opening (answer n m s) = sv_opening s" "sv_reset_pending (answer n m s) = sv_reset_pending s"
  "sv_numbers (answer n m s) = sv_numbers s" "sv_max_sessions (answer n m s) = sv_max_sessions s"
  "sv_generations (answer n m s) = sv_generations s" "sv_max_batch (answer n m s) = sv_max_batch s"
  by (simp_all add: answer_def)

lemma small_fields [simp]:
  "sv_policy (discard_opening n s) = sv_policy s" "sv_pending (discard_opening n s) = sv_pending s"
  "sv_events (discard_opening n s) = sv_events s" "sv_work (discard_opening n s) = sv_work s"
  "sv_state (discard_opening n s) = sv_state s" "sv_step_thread (discard_opening n s) = sv_step_thread s"
  "sv_answers (discard_opening n s) = sv_answers s" "sv_connections (discard_opening n s) = sv_connections s"
  "sv_by_slot (discard_opening n s) = sv_by_slot s" "sv_tickets (discard_opening n s) = sv_tickets s"
  "sv_numbers (discard_opening n s) = sv_numbers s" "sv_generations (discard_opening n s) = sv_generations s"
  "sv_conns (discard_opening n s) = sv_conns s" "conn_of (discard_opening n s) k = conn_of s k"
  "sv_policy (reset_answered n s) = sv_policy s" "sv_pending (reset_answered n s) = sv_pending s"
  "sv_events (reset_answered n s) = sv_events s" "sv_work (reset_answered n s) = sv_work s"
  "sv_state (reset_answered n s) = sv_state s" "sv_step_thread (reset_answered n s) = sv_step_thread s"
  "sv_answers (reset_answered n s) = sv_answers s" "sv_connections (reset_answered n s) = sv_connections s"
  "sv_by_slot (reset_answered n s) = sv_by_slot s" "sv_tickets (reset_answered n s) = sv_tickets s"
  "sv_numbers (reset_answered n s) = sv_numbers s" "sv_generations (reset_answered n s) = sv_generations s"
  "sv_conns (reset_answered n s) = sv_conns s" "conn_of (reset_answered n s) k = conn_of s k"
  "sv_policy (queue_event e s) = sv_policy s" "sv_pending (queue_event e s) = sv_pending s"
  "sv_events (queue_event e s) = sv_events s @ [e]" "sv_work (queue_event e s) = sv_work s"
  "sv_state (queue_event e s) = sv_state s" "sv_step_thread (queue_event e s) = sv_step_thread s"
  "sv_answers (queue_event e s) = sv_answers s" "sv_connections (queue_event e s) = sv_connections s"
  "sv_by_slot (queue_event e s) = sv_by_slot s" "sv_tickets (queue_event e s) = sv_tickets s"
  "sv_numbers (queue_event e s) = sv_numbers s" "sv_generations (queue_event e s) = sv_generations s"
  "sv_conns (queue_event e s) = sv_conns s" "conn_of (queue_event e s) k = conn_of s k"
  by (simp_all add: discard_opening_def reset_answered_def queue_event_def conn_of_def)

lemma refuse_fields [simp]:
  "sv_policy (refuse_session n x s) = sv_policy s" "sv_pending (refuse_session n x s) = sv_pending s"
  "sv_events (refuse_session n x s) = sv_events s" "sv_work (refuse_session n x s) = sv_work s"
  "sv_state (refuse_session n x s) = sv_state s" "sv_step_thread (refuse_session n x s) = sv_step_thread s"
  "sv_answers (refuse_session n x s) = sv_answers s" "sv_connections (refuse_session n x s) = sv_connections s"
  "sv_by_slot (refuse_session n x s) = sv_by_slot s" "sv_tickets (refuse_session n x s) = sv_tickets s"
  "sv_numbers (refuse_session n x s) = sv_numbers s"
  by (simp_all add: refuse_session_def)

lemma next_generation_fields [simp]:
  "sv_policy (fst (next_generation k s)) = sv_policy s" "sv_pending (fst (next_generation k s)) = sv_pending s"
  "sv_events (fst (next_generation k s)) = sv_events s" "sv_work (fst (next_generation k s)) = sv_work s"
  "sv_state (fst (next_generation k s)) = sv_state s" "sv_step_thread (fst (next_generation k s)) = sv_step_thread s"
  "sv_answers (fst (next_generation k s)) = sv_answers s" "sv_connections (fst (next_generation k s)) = sv_connections s"
  "sv_by_slot (fst (next_generation k s)) = sv_by_slot s" "sv_tickets (fst (next_generation k s)) = sv_tickets s"
  "sv_numbers (fst (next_generation k s)) = sv_numbers s" "sv_conns (fst (next_generation k s)) = sv_conns s"
  "conn_of (fst (next_generation k s)) n = conn_of s n"
  by (simp_all add: next_generation_def Let_def conn_of_def)

section \<open>The books\<close>

definition w_answers :: "int \<Rightarrow> int \<Rightarrow> (int \<times> 'o to_session) list \<Rightarrow> nat" where
  "w_answers c rid as = length (filter (\<lambda>(n, m). n = c \<and> answers_request m = Some rid) as)"

definition w_waiting :: "int \<Rightarrow> int \<Rightarrow> 'p waiting list \<Rightarrow> nat" where
  "w_waiting c rid ws = length (filter (\<lambda>w. wt_connection w = c \<and> wt_request_id w = rid) ws)"

definition is_request :: "int \<Rightarrow> int \<Rightarrow> 'p pending \<Rightarrow> bool" where
  "is_request c rid p \<longleftrightarrow> pn_connection p = c \<and> wt_request_id (pn_waiting p) = rid"

definition w_pending :: "int \<Rightarrow> int \<Rightarrow> 'p pending list \<Rightarrow> nat" where
  "w_pending c rid ps = length (filter (\<lambda>p. is_request c rid p \<and> awaited p) ps)"

definition hit :: "int \<Rightarrow> int \<Rightarrow> int \<Rightarrow> int \<Rightarrow> nat" where
  "hit c rid n r = (if n = c \<and> r = rid then 1 else 0)"

fun w_event :: "int \<Rightarrow> int \<Rightarrow> lifecycle_event \<Rightarrow> nat" where
  "w_event c rid (EvReset n r _) = hit c rid n r"
| "w_event c rid _ = 0"

fun w_item :: "int \<Rightarrow> int \<Rightarrow> 'p work \<Rightarrow> nat" where
  "w_item c rid (WOverdue p) = (if is_request c rid p then 1 else 0)"
| "w_item c rid (WEvent e) = w_event c rid e"
| "w_item c rid (WRefuse e) = w_event c rid e"
| "w_item c rid (WOpened n) = 0"
| "w_item c rid (WResetOpened n r) = hit c rid n r"
| "w_item c rid (WExpired w) = w_waiting c rid [w]"
| "w_item c rid (WRun batch) = w_waiting c rid batch"
| "w_item c rid (WStepped ts) = 0"

definition w_work :: "int \<Rightarrow> int \<Rightarrow> 'p work list \<Rightarrow> nat" where
  "w_work c rid ws = sum_list (map (w_item c rid) ws)"

definition w_events :: "int \<Rightarrow> int \<Rightarrow> lifecycle_event list \<Rightarrow> nat" where
  "w_events c rid es = sum_list (map (w_event c rid) es)"

definition outstanding :: "int \<Rightarrow> int \<Rightarrow> ('p, 'o) server \<Rightarrow> nat" where
  "outstanding c rid s = w_waiting c rid (bp_waiting (sv_policy s)) + w_pending c rid (sv_pending s) +
     w_work c rid (sv_work s) + w_events c rid (sv_events s)"

definition answered :: "int \<Rightarrow> int \<Rightarrow> ('p, 'o) server \<Rightarrow> nat" where
  "answered c rid s = w_answers c rid (sv_answers s)"

definition books :: "int \<Rightarrow> int \<Rightarrow> ('p, 'o) server \<Rightarrow> nat" where
  "books c rid s = answered c rid s + outstanding c rid s"

fun asks :: "int \<Rightarrow> int \<Rightarrow> ('p, 'o) server_op \<Rightarrow> nat" where
  "asks c rid (Read n (StepMsg r _ _) _) = hit c rid n r"
| "asks c rid (Read n (ResetMsg r _) _) = hit c rid n r"
| "asks c rid _ = 0"

lemmas books_defs = books_def answered_def outstanding_def

lemma weights_simps [simp]:
  "w_answers c rid [] = 0" "w_answers c rid (as @ bs) = w_answers c rid as + w_answers c rid bs"
  "w_waiting c rid [] = 0" "w_waiting c rid (xs @ ys) = w_waiting c rid xs + w_waiting c rid ys"
  "w_pending c rid [] = 0" "w_pending c rid (ps @ qs) = w_pending c rid ps + w_pending c rid qs"
  "w_work c rid [] = 0" "w_work c rid (us @ vs) = w_work c rid us + w_work c rid vs"
  "w_work c rid (u # us) = w_item c rid u + w_work c rid us"
  "w_events c rid [] = 0" "w_events c rid (es @ fs) = w_events c rid es + w_events c rid fs"
  by (simp_all add: w_answers_def w_waiting_def w_pending_def w_work_def w_events_def)

lemma w_Cons:
  "w_answers c rid ((n, m) # as) = (if n = c \<and> answers_request m = Some rid then 1 else 0) + w_answers c rid as"
  "w_waiting c rid (w # ws) = (if wt_connection w = c \<and> wt_request_id w = rid then 1 else 0) + w_waiting c rid ws"
  "w_pending c rid (p # ps) = (if is_request c rid p \<and> awaited p then 1 else 0) + w_pending c rid ps"
  "w_events c rid (e # es) = w_event c rid e + w_events c rid es"
  by (simp_all add: w_answers_def w_waiting_def w_pending_def w_events_def)

lemma w_waiting_compl: "w_waiting c rid (filter (\<lambda>w. \<not> P w) ws) + w_waiting c rid (filter P ws) = w_waiting c rid ws"
  by (induction ws) (auto simp: w_Cons)

lemma w_waiting_filter: "w_waiting c rid (filter P ws) \<le> w_waiting c rid ws"
  by (induction ws) (auto simp: w_Cons)

lemma w_pending_filter: "w_pending c rid (filter P ps) \<le> w_pending c rid ps"
  by (induction ps) (auto simp: w_Cons)

lemma w_pending_detach: "w_pending c rid (map (detach n) ps) \<le> w_pending c rid ps"
  by (induction ps) (auto simp: w_Cons detach_def is_request_def awaited_def)

lemma books_answer:
  "books c rid (answer n m s) = books c rid s + (if n = c \<and> answers_request m = Some rid then 1 else 0)"
  by (simp add: books_defs w_Cons)

lemma books_answers [simp]:
  "books c rid (answer n (Failed r e) s) = books c rid s + hit c rid n r"
  "books c rid (answer n (ResetDone r g) s) = books c rid s + hit c rid n r"
  "books c rid (answer n (Welcome k g b) s) = books c rid s"
  by (simp_all add: books_answer hit_def)

lemma w_work_maps [simp]:
  "w_work c rid (map WEvent es) = w_events c rid es" "w_work c rid (map WRefuse es) = w_events c rid es"
  "w_work c rid (map WExpired ws) = w_waiting c rid ws"
  by (induction es) (simp_all add: w_Cons, induction ws, simp_all add: w_Cons)

section \<open>No answer without a request\<close>

lemma remove_first_waiting: "remove_first n r ws = Some vs \<Longrightarrow> w_waiting c rid vs \<le> w_waiting c rid ws"
  by (induction ws arbitrary: vs) (auto simp: w_Cons split: if_splits)

lemma forget_fields [simp]:
  "sv_policy (forget n s) = fst (drop_connection (sv_policy s) n)"
  "sv_pending (forget n s) = map (detach n) (sv_pending s)" "sv_events (forget n s) = sv_events s"
  "sv_work (forget n s) = sv_work s" "sv_state (forget n s) = sv_state s" "sv_answers (forget n s) = sv_answers s"
  "sv_step_thread (forget n s) = sv_step_thread s" "sv_tickets (forget n s) = sv_tickets s"
  "sv_numbers (forget n s) = sv_numbers s"
  "sv_connections (forget n s) = filter (\<lambda>m. m \<noteq> n) (sv_connections s)"
  "conn_of (forget n s) k = (if k = n then move (conn_of s n) Conn_Closing else conn_of s k)"
  by (simp_all add: forget_def drop_pending_def Let_def split: option.split)

lemma leave_fields [simp]:
  "sv_events (leave n s) = sv_events s" "sv_work (leave n s) = sv_work s" "sv_state (leave n s) = sv_state s"
  "sv_answers (leave n s) = sv_answers s" "sv_step_thread (leave n s) = sv_step_thread s"
  "sv_tickets (leave n s) = sv_tickets s" "sv_numbers (leave n s) = sv_numbers s"
  by (simp_all add: leave_def Let_def)

lemma books_leave: "books c rid (leave n s) \<le> books c rid s"
proof -
  have "w_waiting c rid (bp_waiting (sv_policy (leave n s))) \<le> w_waiting c rid (bp_waiting (sv_policy s))"
    by (simp add: leave_def Let_def drop_connection_def w_waiting_filter)
  moreover have "w_pending c rid (sv_pending (leave n s)) \<le> w_pending c rid (sv_pending s)"
    by (simp add: leave_def Let_def w_pending_detach)
  ultimately show ?thesis by (simp add: books_defs)
qed

lemma w_pending_remove:
  "item \<in> set ps \<Longrightarrow>
   w_pending c rid (filter (\<lambda>p. pn_ticket p \<noteq> pn_ticket item) ps) + (if is_request c rid item \<and> awaited item then 1 else 0)
     \<le> w_pending c rid ps"
proof (induction ps)
  case (Cons p ps)
  then show ?case
    using w_pending_filter [of c rid "\<lambda>p. pn_ticket p \<noteq> pn_ticket item" ps] by (auto simp: w_Cons)
qed simp

lemma complete_fields [simp]:
  "sv_pending (complete item m s) = filter (\<lambda>p. pn_ticket p \<noteq> pn_ticket item) (sv_pending s)"
  "bp_waiting (sv_policy (complete item m s)) = bp_waiting (sv_policy s)"
  "sv_events (complete item m s) = sv_events s" "sv_work (complete item m s) = sv_work s"
  "sv_state (complete item m s) = sv_state s" "sv_step_thread (complete item m s) = sv_step_thread s"
  "sv_connections (complete item m s) = sv_connections s" "sv_by_slot (complete item m s) = sv_by_slot s"
  "sv_tickets (complete item m s) = sv_tickets s" "sv_numbers (complete item m s) = sv_numbers s"
  by (simp_all add: complete_def Let_def finished_def)

lemma complete_answers:
  "sv_answers (complete item m s) = sv_answers s @
     (if awaited item \<and> cn_state (conn_of s (pn_connection item)) = Conn_Open \<and>
         cn_generation (conn_of s (pn_connection item)) = pn_generation item \<and>
         pn_connection item \<in> set (sv_connections s) then [(pn_connection item, m)] else [])"
  by (simp add: complete_def Let_def)

lemma books_complete:
  assumes "item \<in> set (sv_pending s)" and "answers_request m = Some (wt_request_id (pn_waiting item))"
  shows "books c rid (complete item m s) \<le> books c rid s"
  using w_pending_remove [OF assms(1), of c rid] assms(2)
  by (auto simp: books_defs complete_answers w_Cons is_request_def)

lemma find_pending_Some: "find_pending s k = Some p \<Longrightarrow> p \<in> set (sv_pending s) \<and> pn_ticket p = k"
  by (auto simp: find_pending_def find_Some_iff)

lemma outcome_answers [simp]: "answers_request (outcome r out) = Some r"
  by (simp add: outcome_def split: model_output.split)

lemma books_finish_one:
  "(\<And>item. answers_request (message item) = Some (wt_request_id (pn_waiting item))) \<Longrightarrow>
   books c rid (finish_one message k s) \<le> books c rid s"
  by (auto simp: finish_one_def split: option.split dest!: find_pending_Some intro: books_complete)

lemma books_resolve: "books c rid (resolve k out s) \<le> books c rid s"
  by (auto simp: resolve_def split: option.split dest!: find_pending_Some intro!: books_complete)

lemma books_start_future: "books c rid (start_future now k s) = books c rid s"
proof -
  have "w_pending c rid (map (\<lambda>p. if pn_ticket p = k then p\<lparr>pn_future := True, pn_since := now\<rparr> else p) ps) =
      w_pending c rid ps" for ps :: "'a pending list"
    by (induction ps) (auto simp: w_Cons is_request_def awaited_def)
  then show ?thesis by (simp add: books_defs start_future_def)
qed

lemma books_finish_output: "books c rid (finish_output now s tout) \<le> books c rid s"
  by (auto simp: finish_output_def books_start_future split: model_output.split intro: books_finish_one)

lemma books_foldl:
  "(\<And>s x. books c rid (f s x) \<le> books c rid s) \<Longrightarrow> books c rid (foldl f s xs) \<le> books c rid s"
  by (induction xs arbitrary: s) (auto intro: order_trans)

lemma books_run_end: "books c rid (run_end ts res now s) \<le> books c rid s"
  by (auto simp: run_end_def Let_def split: step_result.split
      intro!: books_foldl books_finish_output books_finish_one)

lemma w_pending_new:
  "length ts = length live \<Longrightarrow> w_pending c rid (map (new_pending s now) (zip ts live)) = w_waiting c rid live"
  by (induction ts live rule: list_induct2) (simp_all add: w_Cons new_pending_def is_request_def awaited_def)

lemma books_run_begin:
  "books c rid (run_begin batch now s) \<le> books c rid s + w_waiting c rid batch"
  using w_waiting_filter [of c rid "\<lambda>r. wt_connection r \<in> set (sv_connections s)" batch]
  by (simp add: run_begin_def Let_def books_defs w_pending_new finished_def)

definition rid_count :: "int \<Rightarrow> 'p waiting list \<Rightarrow> nat" where
  "rid_count rid rs = length (filter (\<lambda>r. wt_request_id r = rid) rs)"

lemma rid_count_append: "rid_count rid (xs @ ys) = rid_count rid xs + rid_count rid ys"
  by (simp add: rid_count_def)

definition w_dropped :: "int \<Rightarrow> int \<Rightarrow> (int \<times> 'p waiting list) list \<Rightarrow> nat" where
  "w_dropped c rid drs = sum_list (map (\<lambda>nr. if fst nr = c then rid_count rid (snd nr) else 0) drs)"

lemma w_dropped_simps [simp]:
  "w_dropped c rid [] = 0"
  "w_dropped c rid (nr # drs) = (if fst nr = c then rid_count rid (snd nr) else 0) + w_dropped c rid drs"
  by (simp_all add: w_dropped_def)

lemma books_answer_all:
  "books c rid (answer_all n e rs s) = books c rid s + (if n = c then rid_count rid rs else 0)"
  unfolding answer_all_def by (induction rs arbitrary: s) (simp_all add: hit_def rid_count_def)

lemma answer_all_fields [simp]:
  "sv_policy (answer_all n e rs s) = sv_policy s" "sv_pending (answer_all n e rs s) = sv_pending s"
  "sv_events (answer_all n e rs s) = sv_events s" "sv_work (answer_all n e rs s) = sv_work s"
  "sv_state (answer_all n e rs s) = sv_state s" "sv_step_thread (answer_all n e rs s) = sv_step_thread s"
  "sv_connections (answer_all n e rs s) = sv_connections s" "sv_by_slot (answer_all n e rs s) = sv_by_slot s"
  "sv_tickets (answer_all n e rs s) = sv_tickets s" "sv_numbers (answer_all n e rs s) = sv_numbers s"
  unfolding answer_all_def by (induction rs arbitrary: s) simp_all

lemma dropped_waiting:
  "rid_count rid (filter (\<lambda>w. wt_connection w = c) ws) = w_waiting c rid ws"
  "w_waiting c rid (filter (\<lambda>w. wt_connection w \<noteq> n) ws) = (if n = c then 0 else w_waiting c rid ws)"
  by (induction ws) (auto simp: w_Cons rid_count_def)

lemma dropped_running:
  "w_pending c rid (map (detach n) ps) = (if n = c then 0 else w_pending c rid ps)"
  "rid_count rid (map pn_waiting (filter (\<lambda>p. \<not> pn_answered p)
     (filter (\<lambda>p. pn_connection p = c \<and> \<not> pn_detached p \<and> pn_future p) ps))) \<le> w_pending c rid ps"
  by (induction ps) (auto simp: w_Cons detach_def is_request_def awaited_def rid_count_def)

lemma books_frame [simp]:
  "books c rid (on_conn f n s) = books c rid s" "books c rid (discard_opening n s) = books c rid s"
  "books c rid (reset_answered n s) = books c rid s" "books c rid (refuse_session n x s) = books c rid s"
  "books c rid (fst (next_generation k s)) = books c rid s"
  "books c rid (queue_event e s) = books c rid s + w_event c rid e"
  by (simp_all add: books_defs w_Cons)

lemma books_work: "sv_work s = w # ws \<Longrightarrow> books c rid s = books c rid (s\<lparr>sv_work := ws\<rparr>) + w_item c rid w"
  "sv_work s = ws \<Longrightarrow> books c rid (s\<lparr>sv_work := w # ws\<rparr>) = books c rid s + w_item c rid w"
  by (simp_all add: books_defs)

lemma books_open_begin: "books c rid (open_begin n s) \<le> books c rid s"
  using books_leave [of c rid _ s]
  by (simp add: open_begin_def Let_def split_beta books_work(2) split: option.split)

lemma books_open_end: "books c rid (open_end n raised s) = books c rid s"
  by (simp add: open_end_def Let_def books_answer split: option.split) (simp add: books_defs)

lemma books_reset_begin: "books c rid (reset_begin n r sid s) \<le> books c rid s + hit c rid n r"
proof -
  have "books c rid (answer_all n e (filter (\<lambda>w. wt_connection w = n) (bp_waiting (sv_policy s)) @
        map pn_waiting (filter (\<lambda>p. \<not> pn_answered p)
          (filter (\<lambda>p. pn_connection p = n \<and> \<not> pn_detached p \<and> pn_future p) (sv_pending s))))
      (s\<lparr>sv_policy := fst (drop_connection (sv_policy s) n), sv_pending := map (detach n) (sv_pending s)\<rparr>)) \<le> books c rid s" for e
    unfolding books_answer_all using dropped_running(2) [of rid c "sv_pending s"]
    by (auto simp: books_defs drop_connection_def dropped_waiting dropped_running(1) rid_count_append simp del: filter_filter)
  then show ?thesis
    by (simp add: reset_begin_def Let_def split_beta drop_pending_def drop_connection_def books_work(2) split: option.split)
qed

lemma books_forget: "books c rid (forget n s) \<le> books c rid s"
  by (simp add: books_defs drop_connection_def dropped_waiting dropped_running(1))

lemma books_reset_end: "books c rid (reset_end n r raised s) \<le> books c rid s + hit c rid n r"
proof -
  have "books c rid (forget n (answer n (Failed r e) (reset_answered n s))) \<le> books c rid s + hit c rid n r" for e
    using books_forget [of c rid n "answer n (Failed r e) (reset_answered n s)"] by simp
  then show ?thesis by (simp add: reset_end_def Let_def)
qed

lemma books_refuse: "books c rid (refuse_while_stopping e s) \<le> books c rid s + w_event c rid e"
  by (cases e) (simp_all add: refuse_while_stopping_def books_leave)

lemma books_apply: "books c rid (apply_event e s) \<le> books c rid s + w_event c rid e"
  by (cases e) (simp_all add: apply_event_def books_open_begin books_leave books_reset_begin)

lemma books_do_work: "books c rid (do_work w mo now s) \<le> books c rid s + w_item c rid w"
proof (cases w)
  case (WRun batch)
  then show ?thesis by (simp add: books_run_begin)
next
  case (WStepped ts)
  then show ?thesis by (simp add: books_run_end)
next
  case (WResetOpened n r)
  then show ?thesis by (simp add: books_reset_end)
qed (simp_all add: books_apply books_refuse books_open_end is_request_def post_to_def w_Cons hit_def)

lemma books_next_work: "books c rid (next_work mo now s) \<le> books c rid s"
proof (cases "sv_work s")
  case (Cons w ws)
  with books_do_work [of c rid w mo now "s\<lparr>sv_work := ws\<rparr>"] books_work(1) [OF Cons, of c rid] show ?thesis
    by (simp add: next_work_def)
qed (simp add: next_work_def)

lemma w_pending_expire:
  "w_pending c rid (map (\<lambda>p. if late p \<and> awaited p then p\<lparr>pn_answered := True\<rparr> else p) ps) +
   w_work c rid (map WOverdue (filter (\<lambda>p. late p \<and> awaited p) ps)) = w_pending c rid ps"
  by (induction ps) (auto simp: w_Cons awaited_def is_request_def)

lemma expire_running_books:
  "w_pending c rid (sv_pending (fst (expire_running now s))) + w_work c rid (map WOverdue (snd (expire_running now s))) =
     w_pending c rid (sv_pending s)"
  using w_pending_expire [of c rid "\<lambda>p. pn_future p \<and> overdue now (pn_waiting p)" "sv_pending s"]
  by (simp add: expire_running_def Let_def conj_ac)

lemma expire_running_fields [simp]:
  "sv_policy (fst (expire_running now s)) = sv_policy s" "sv_events (fst (expire_running now s)) = sv_events s"
  "sv_answers (fst (expire_running now s)) = sv_answers s" "sv_work (fst (expire_running now s)) = sv_work s"
  "sv_state (fst (expire_running now s)) = sv_state s" "sv_connections (fst (expire_running now s)) = sv_connections s"
  "sv_by_slot (fst (expire_running now s)) = sv_by_slot s" "sv_tickets (fst (expire_running now s)) = sv_tickets s"
  "sv_numbers (fst (expire_running now s)) = sv_numbers s" "sv_conns (fst (expire_running now s)) = sv_conns s"
  "sv_step_thread (fst (expire_running now s)) = sv_step_thread s"
  "conn_of (fst (expire_running now s)) n = conn_of s n"
  by (simp_all add: expire_running_def Let_def)

lemma take_turn_books:
  "w_waiting c rid (bp_waiting (fst (take_turn p now k))) + w_waiting c rid (tn_expired (snd (take_turn p now k))) +
   w_waiting c rid (tn_batch (snd (take_turn p now k))) = w_waiting c rid (bp_waiting p)"
proof -
  obtain p' t where tt: "take_turn p now k = (p', t)" by fastforce
  have "w_waiting c rid (tn_batch t @ bp_waiting p') + w_waiting c rid (tn_expired t) =
      w_waiting c rid (filter (\<lambda>r. \<not> overdue now r) (bp_waiting p)) + w_waiting c rid (filter (overdue now) (bp_waiting p))"
    using take_turn_parts [where p = p and now = now and n = k] tt by simp
  also have "\<dots> = w_waiting c rid (bp_waiting p)"
    by (rule w_waiting_compl)
  finally show ?thesis using tt by simp
qed

lemma books_take_work: "books c rid (take_work now s) = books c rid s"
proof (cases "\<not> sv_step_thread s \<or> sv_work s \<noteq> [] \<or> sv_state s = Stopped \<or> sv_state s = Draining \<and>
    ((case sv_drain_deadline s of None \<Rightarrow> True | Some d \<Rightarrow> d \<le> now) \<or> \<not> list_ex awaited (sv_pending s))")
  case True
  then show ?thesis by (auto simp: take_work_def books_defs)
next
  case False
  obtain p t where tt: "take_turn (sv_policy s) now (open_sessions s) = (p, t)" by fastforce
  have os: "open_sessions ((fst (expire_running now s))\<lparr>sv_events := []\<rparr>) = open_sessions s"
    by (simp add: open_sessions_def)
  from False expire_running_books [of c rid now s] take_turn_books [of c rid "sv_policy s" now "open_sessions s"] tt os
  show ?thesis
    by (auto simp: take_work_def split_beta Let_def books_defs)
qed

lemma drop_all_books:
  "w_waiting c rid (bp_waiting (fst (drop_all p ns))) +
   w_dropped c rid (snd (drop_all p ns)) =
     w_waiting c rid (bp_waiting p)"
proof (induction ns arbitrary: p)
  case (Cons n ns)
  from Cons.IH [of "fst (drop_connection p n)"] show ?case
    by (simp add: split_beta Let_def drop_connection_def dropped_waiting split: if_splits)
qed simp

lemma books_answer_pending:
  "books c rid (foldl (\<lambda>s p. if awaited p
      then answer (pn_connection p) (Failed (wt_request_id (pn_waiting p)) e) s else s) s ps) =
   books c rid s + w_pending c rid ps"
  by (induction ps arbitrary: s) (simp_all add: w_Cons hit_def is_request_def)

lemma books_refuse_all:
  "books c rid (foldl (\<lambda>s e. refuse_while_stopping e s) s es) \<le> books c rid s + w_events c rid es"
proof (induction es arbitrary: s)
  case (Cons e es)
  from Cons.IH [of "refuse_while_stopping e s"] books_refuse [of c rid e s] show ?case by (simp add: w_Cons)
qed simp

lemma books_answer_dropped:
  "books c rid (foldl (\<lambda>s nr. answer_all (fst nr) e (snd nr) s) s drs) = books c rid s +
     w_dropped c rid drs"
  by (induction drs arbitrary: s) (simp_all add: books_answer_all)

lemma books_close_opening: "books c rid (foldl (\<lambda>s n. close_opening n s) s ns) = books c rid s"
  by (induction ns arbitrary: s) (simp_all add: close_opening_def)

lemma books_answer_in_flight: "books c rid (answer_in_flight s) \<le> books c rid s"
proof -
  obtain policy dropped where d: "drop_all (sv_policy s) (sv_connections s) = (policy, dropped)" by fastforce
  let ?s2 = "s\<lparr>sv_events := [], sv_pending := [], sv_opening := [],
      sv_policy := finished policy (map pn_connection (filter (\<lambda>p. \<not> pn_detached p) (sv_pending s)))\<rparr>"
  let ?s3 = "foldl (\<lambda>s p. if awaited p
      then answer (pn_connection p) (Failed (wt_request_id (pn_waiting p)) ModelServerStopping) s else s) ?s2 (sv_pending s)"
  have "books c rid ?s2 + w_pending c rid (sv_pending s) + w_events c rid (sv_events s) +
      w_dropped c rid dropped =
      books c rid s"
    using drop_all_books [of c rid "sv_policy s" "sv_connections s"] d by (simp add: books_defs finished_def)
  then show ?thesis
    using books_refuse_all [of c rid ?s3 "sv_events s"] d
    by (simp add: answer_in_flight_def Let_def books_close_opening books_answer_dropped books_answer_pending)
qed

lemma books_dispatch:
  fixes s :: "('p, 'o) server"
  shows "books c rid (dispatch n m now s) \<le> books c rid s + asks c rid (Read n m now :: ('p, 'o) server_op)"
proof (cases m)
  case (StepMsg r timeout payload)
  then show ?thesis
    by (auto simp: take_step_def Let_def add_def split: prod.splits bool.splits)
      (auto simp: books_defs w_Cons hit_def)
next
  case (CancelMsg r)
  have "w_pending c rid (map (\<lambda>p. if runs_request n r p then p\<lparr>pn_answered := True\<rparr> else p) ps) \<le> w_pending c rid ps"
    for ps :: "'p pending list"
    by (induction ps) (auto simp: w_Cons awaited_def is_request_def)
  with CancelMsg show ?thesis
    by (auto simp: cancel_request_def cancel_def books_defs split: option.splits dest: remove_first_waiting [of _ _ _ _ c rid])
next
  case (ResetMsg r sid)
  then show ?thesis by (auto simp: take_reset_def) (auto simp: books_defs w_Cons)
qed (simp_all)

lemma books_read_hello: "books c rid (read_hello n h s) = books c rid s"
  by (simp add: read_hello_def Let_def split: hello_message.split)

lemma books_step: "books c rid (server_step s op) \<le> books c rid s + asks c rid op"
proof (cases op)
  case (Read n m now)
  then show ?thesis using books_dispatch [of c rid n m now s] by (simp del: asks.simps)
next
  case (StepLoopFault reason)
  have "books c rid (step_loop_fault reason s) \<le> books c rid s"
    unfolding step_loop_fault_def Let_def
    by (rule order_trans [OF books_answer_in_flight]) (simp add: server_move_def books_defs)
  with StepLoopFault show ?thesis by simp
next
  case Accept
  then show ?thesis by (simp add: accept_def Let_def) (simp add: books_defs)
qed (auto simp: books_next_work books_take_work books_resolve books_read_hello books_leave books_answer_in_flight
    hello_expired_def begin_drain_def begin_stop_def server_move_def, auto simp: books_defs)

text \<open>
  C3. No request is ever answered twice, and no answer comes without a request: for any session
  and request id, over any interleaving of readers, the step thread, resolved futures, drains and
  faults, the answers given for that id never outnumber the steps and resets the session sent
  with it, the ones still waiting or running included.
\<close>

theorem never_answered_twice:
  "answered c rid (foldl server_step (init_server mb w ms sa dt) ops) +
   outstanding c rid (foldl server_step (init_server mb w ms sa dt) ops) \<le> sum_list (map (asks c rid) ops)"
proof -
  have "books c rid (foldl server_step s ops) \<le> books c rid s + sum_list (map (asks c rid) ops)" for s
  proof (induction ops arbitrary: s)
    case (Cons op ops)
    from Cons.IH [of "server_step s op"] books_step [of c rid s op] show ?case by simp
  qed simp
  from this [of "init_server mb w ms sa dt"] show ?thesis
    by (simp add: books_defs init_server_def init_policy_def)
qed

end
