(* ===== verification/ServerLoad.thy ===== *)
theory ServerLoad
  imports ServerAccounting
begin

text \<open>
  One request per session, from the queue to the end of its run: the requests of a session that
  wait, are taken in a batch, or run without being detached are at most one, and none when the
  policy does not hold the session busy. This is the discipline the batching policy relies on.
\<close>

definition n_wait :: "int \<Rightarrow> 'p waiting list \<Rightarrow> nat" where
  "n_wait c ws = length (filter (\<lambda>w. wt_connection w = c) ws)"

definition n_pend :: "int \<Rightarrow> 'p pending list \<Rightarrow> nat" where
  "n_pend c ps = length (filter (\<lambda>p. pn_connection p = c \<and> \<not> pn_detached p) ps)"

fun n_item :: "int \<Rightarrow> 'p work \<Rightarrow> nat" where
  "n_item c (WRun b) = n_wait c b"
| "n_item c _ = 0"

definition n_work :: "int \<Rightarrow> 'p work list \<Rightarrow> nat" where
  "n_work c ws = sum_list (map (n_item c) ws)"

definition load :: "int \<Rightarrow> ('p, 'o) server \<Rightarrow> nat" where
  "load c s = n_wait c (bp_waiting (sv_policy s)) + n_work c (sv_work s) + n_pend c (sv_pending s)"

definition load_ok :: "('p, 'o) server \<Rightarrow> bool" where
  "load_ok s \<longleftrightarrow> (\<forall>c. load c s \<le> (if c \<in> bp_busy (sv_policy s) then 1 else 0))"

text \<open>The step thread's work list: a batch comes last, behind answers only.\<close>

fun quiet :: "'p work \<Rightarrow> bool" where
  "quiet (WOverdue p) = True"
| "quiet (WExpired w) = True"
| "quiet _ = False"

fun is_run :: "'p work \<Rightarrow> bool" where
  "is_run (WRun b) = True"
| "is_run _ = False"

definition work_shape :: "'p work list \<Rightarrow> bool" where
  "work_shape ws \<longleftrightarrow> \<not> list_ex is_run ws \<or> ws \<noteq> [] \<and> list_all quiet (butlast ws) \<and> is_run (last ws)"

definition shape_ok :: "('p, 'o) server \<Rightarrow> bool" where
  "shape_ok s \<longleftrightarrow> work_shape (sv_work s) \<and> (\<not> sv_step_thread s \<longrightarrow> sv_work s = [])"

lemma n_simps [simp]:
  "n_wait c [] = 0" "n_wait c (xs @ ys) = n_wait c xs + n_wait c ys"
  "n_wait c (w # ws) = (if wt_connection w = c then 1 else 0) + n_wait c ws"
  "n_pend c [] = 0" "n_pend c (ps @ qs) = n_pend c ps + n_pend c qs"
  "n_pend c (p # ps) = (if pn_connection p = c \<and> \<not> pn_detached p then 1 else 0) + n_pend c ps"
  "n_work c [] = 0" "n_work c (u # us) = n_item c u + n_work c us" "n_work c (us @ vs) = n_work c us + n_work c vs"
  by (simp_all add: n_wait_def n_pend_def n_work_def)

lemma n_maps [simp]:
  "n_work c (map WOverdue ps) = 0" "n_work c (map WEvent es) = 0" "n_work c (map WRefuse es) = 0"
  "n_work c (map WExpired ws) = 0"
  by (simp_all add: n_work_def comp_def)

lemma n_work_no_run: "\<not> list_ex is_run ws \<Longrightarrow> n_work c ws = 0"
proof (induction ws)
  case (Cons w ws)
  then show ?case by (cases w) simp_all
qed simp

lemma work_shape_tl: "work_shape (w # ws) \<Longrightarrow> work_shape ws"
  by (cases ws) (auto simp: work_shape_def)

lemma work_shape_event: "work_shape (w # ws) \<Longrightarrow> \<not> quiet w \<Longrightarrow> \<not> list_ex is_run ws"
  by (cases ws) (auto simp: work_shape_def split: if_splits)

lemma load_okD: "load_ok s \<Longrightarrow> load c s \<le> 1" "load_ok s \<Longrightarrow> c \<notin> bp_busy (sv_policy s) \<Longrightarrow> load c s = 0"
proof -
  assume "load_ok s"
  then have "load c s \<le> (if c \<in> bp_busy (sv_policy s) then 1 else 0)" by (simp add: load_ok_def)
  then show "load c s \<le> 1" and "c \<notin> bp_busy (sv_policy s) \<Longrightarrow> load c s = 0" by (simp_all split: if_splits)
qed

lemma load_okI:
  "(\<And>c. load c s \<le> 1) \<Longrightarrow> (\<And>c. c \<notin> bp_busy (sv_policy s) \<Longrightarrow> load c s = 0) \<Longrightarrow> load_ok s"
  by (simp add: load_ok_def)

text \<open>Steps that only move fields the load does not read.\<close>

lemma load_frame [simp]:
  "load c (on_conn f n s) = load c s" "load c (answer n m s) = load c s" "load c (discard_opening n s) = load c s"
  "load c (reset_answered n s) = load c s" "load c (refuse_session n x s) = load c s"
  "load c (fst (next_generation k s)) = load c s" "load c (queue_event e s) = load c s"
  by (simp_all add: load_def)

lemma load_ok_frame [simp]:
  "load_ok (on_conn f n s) = load_ok s" "load_ok (answer n m s) = load_ok s" "load_ok (discard_opening n s) = load_ok s"
  "load_ok (reset_answered n s) = load_ok s" "load_ok (refuse_session n x s) = load_ok s"
  "load_ok (fst (next_generation k s)) = load_ok s" "load_ok (queue_event e s) = load_ok s"
  by (simp_all add: load_ok_def)

lemma load_ok_update [simp]:
  "load_ok (s\<lparr>sv_step_thread := b\<rparr>) = load_ok s" "load_ok (s\<lparr>sv_events := es\<rparr>) = load_ok s"
  "load_ok (s\<lparr>sv_state := st\<rparr>) = load_ok s" "load_ok (s\<lparr>sv_broken := br\<rparr>) = load_ok s"
  "load_ok (s\<lparr>sv_drain_deadline := dl\<rparr>) = load_ok s" "load_ok (s\<lparr>sv_opening := ns\<rparr>) = load_ok s"
  "load_ok (s\<lparr>sv_connections := ns\<rparr>) = load_ok s" "load_ok (s\<lparr>sv_by_slot := d\<rparr>) = load_ok s"
  "load_ok (s\<lparr>sv_conns := cs\<rparr>) = load_ok s" "load_ok (s\<lparr>sv_numbers := k\<rparr>) = load_ok s"
  "load_ok (s\<lparr>sv_reset_pending := r\<rparr>) = load_ok s"
  by (simp_all add: load_ok_def load_def)

lemma load_ok_work:
  "load_ok s \<Longrightarrow> \<not> is_run w \<Longrightarrow> sv_work s = ws \<Longrightarrow> load_ok (s\<lparr>sv_work := w # ws\<rparr>)"
  by (cases w) (simp_all add: load_ok_def load_def)

lemma n_drop:
  "n_wait c (filter (\<lambda>w. wt_connection w \<noteq> n) ws) = (if c = n then 0 else n_wait c ws)"
  "n_pend c (map (detach n) ps) = (if c = n then 0 else n_pend c ps)"
proof -
  show "n_wait c (filter (\<lambda>w. wt_connection w \<noteq> n) ws) = (if c = n then 0 else n_wait c ws)"
    by (induction ws) auto
  show "n_pend c (map (detach n) ps) = (if c = n then 0 else n_pend c ps)"
    by (induction ps) (auto simp: detach_def)
qed

text \<open>A session that leaves or resets holds nothing any more.\<close>

lemma load_ok_drop:
  assumes "load_ok s" and "\<not> list_ex is_run (sv_work s)" and "sv_policy s' = fst (drop_connection (sv_policy s) n)"
    and "sv_pending s' = map (detach n) (sv_pending s)" and "sv_work s' = sv_work s"
  shows "load_ok s'"
proof (rule load_okI)
  fix c
  have eq: "load c s' = (if c = n then 0 else load c s)"
    using assms by (simp add: load_def drop_connection_def n_drop n_work_no_run)
  show "load c s' \<le> 1" using eq load_okD(1) [OF assms(1), of c] by simp
  show "c \<notin> bp_busy (sv_policy s') \<Longrightarrow> load c s' = 0"
    using eq load_okD(2) [OF assms(1), of c] assms(3) by (auto simp: drop_connection_def)
qed

lemma load_ok_leave:
  assumes "load_ok s" and "\<not> list_ex is_run (sv_work s)"
  shows "load_ok (leave n s)"
  using assms load_ok_drop [of "discard_opening n s" "forget n (discard_opening n s)" n] by (simp add: leave_def Let_def)

lemma n_pend_remove:
  "item \<in> set ps \<Longrightarrow> n_pend c (filter (\<lambda>p. pn_ticket p \<noteq> pn_ticket item) ps) +
     (if pn_connection item = c \<and> \<not> pn_detached item then 1 else 0) \<le> n_pend c ps"
proof (induction ps)
  case (Cons p ps)
  have "n_pend c (filter (\<lambda>p. pn_ticket p \<noteq> pn_ticket item) ps) \<le> n_pend c ps"
    by (induction ps) simp_all
  with Cons show ?case by auto
qed simp

lemma complete_policy: "sv_policy (complete item m s) =
    (if pn_detached item then sv_policy s else finished (sv_policy s) [pn_connection item])"
  by (simp add: complete_def Let_def)

lemma load_ok_complete:
  assumes "load_ok s" and "item \<in> set (sv_pending s)"
  shows "load_ok (complete item m s)"
  unfolding load_ok_def
proof
  fix c
  have le: "load c (complete item m s) + (if pn_connection item = c \<and> \<not> pn_detached item then 1 else 0) \<le> load c s"
    using n_pend_remove [OF assms(2), of c] by (simp add: load_def)
  show "load c (complete item m s) \<le> (if c \<in> bp_busy (sv_policy (complete item m s)) then 1 else 0)"
    using le load_okD [OF assms(1), of c] by (auto simp: complete_policy finished_def split: if_splits)
qed

lemma load_ok_finish_one: "load_ok s \<Longrightarrow> load_ok (finish_one message k s)"
  by (auto simp: finish_one_def split: option.split dest!: find_pending_Some intro: load_ok_complete)

lemma load_ok_start_future: "load_ok s \<Longrightarrow> load_ok (start_future now k s)"
proof -
  have "n_pend c (map (\<lambda>p. if pn_ticket p = k then p\<lparr>pn_future := True, pn_since := now\<rparr> else p) ps) = n_pend c ps"
    for c and ps :: "'a pending list"
    by (induction ps) simp_all
  then show "load_ok s \<Longrightarrow> load_ok (start_future now k s)"
    by (simp add: load_ok_def load_def start_future_def)
qed

lemma foldl_keeps: "(\<And>s x. P s \<Longrightarrow> P (f s x)) \<Longrightarrow> P s \<Longrightarrow> P (foldl f s xs)"
  by (induction xs arbitrary: s) simp_all

lemma load_ok_run_end: "load_ok s \<Longrightarrow> load_ok (run_end ts res now s)"
  unfolding run_end_def Let_def
  by (auto split: step_result.split model_output.split simp: finish_output_def
      intro!: foldl_keeps [where P = load_ok] load_ok_finish_one load_ok_start_future)

lemma n_pend_new:
  "length ts = length live \<Longrightarrow> n_pend c (map (new_pending s now) (zip ts live)) = n_wait c live"
  by (induction ts live rule: list_induct2) (simp_all add: new_pending_def)

lemma n_wait_filter: "n_wait c (filter P ws) \<le> n_wait c ws"
  by (induction ws) simp_all

lemma n_wait_pos: "c \<in> wt_connection ` set ws \<longleftrightarrow> 0 < n_wait c ws"
  by (induction ws) auto

lemma load_ok_run_begin:
  assumes "load_ok s" and "sv_work s = WRun batch # ws"
  shows "load_ok (run_begin batch now (s\<lparr>sv_work := ws\<rparr>))"
proof (rule load_okI)
  fix c
  let ?s' = "run_begin batch now (s\<lparr>sv_work := ws\<rparr>)" and ?live = "filter (\<lambda>r. wt_connection r \<in> set (sv_connections s)) batch"
  have eq: "load c ?s' + n_wait c batch = load c s + n_wait c ?live"
    using assms(2) by (simp add: run_begin_def Let_def load_def n_pend_new finished_def)
  have le: "n_wait c ?live \<le> n_wait c batch" "n_wait c batch \<le> load c s"
    using assms(2) by (simp_all add: n_wait_filter load_def)
  show "load c ?s' \<le> 1" using eq le load_okD(1) [OF assms(1), of c] by linarith
  show "load c ?s' = 0" if "c \<notin> bp_busy (sv_policy ?s')"
  proof (cases "c \<in> bp_busy (sv_policy s)")
    case True
    with that have "?live = []" and "0 < n_wait c batch"
      by (auto simp: run_begin_def Let_def finished_def n_wait_pos [symmetric] split: if_splits)
    with eq load_okD(1) [OF assms(1), of c] show ?thesis by simp
  next
    case False
    with eq le load_okD(2) [OF assms(1), of c] show ?thesis by simp
  qed
qed

section \<open>Every step keeps the load\<close>

lemma load_ok_expire: "load_ok s \<Longrightarrow> load_ok (fst (expire_running now s))"
proof -
  have "n_pend c (map (\<lambda>p. if late p then p\<lparr>pn_answered := True\<rparr> else p) ps) = n_pend c ps"
    for c late and ps :: "'a pending list"
    by (induction ps) simp_all
  then show "load_ok s \<Longrightarrow> load_ok (fst (expire_running now s))"
    by (simp add: load_ok_def load_def expire_running_def Let_def)
qed

lemma n_take_turn:
  assumes "take_turn p now k = (p', t)"
  shows "n_wait c (bp_waiting p') + n_wait c (tn_batch t) + n_wait c (tn_expired t) = n_wait c (bp_waiting p)"
    and "c \<in> bp_busy p \<Longrightarrow> c \<notin> bp_busy p' \<Longrightarrow> 0 < n_wait c (tn_expired t)"
    and "c \<notin> bp_busy p \<Longrightarrow> c \<notin> bp_busy p'"
proof -
  have parts: "tn_batch t @ bp_waiting p' = filter (\<lambda>r. \<not> overdue now r) (bp_waiting p)"
    "tn_expired t = filter (overdue now) (bp_waiting p)"
    using take_turn_parts [where p = p and now = now and n = k] assms by simp_all
  have "n_wait c (filter (\<lambda>r. \<not> overdue now r) ws) + n_wait c (filter (overdue now) ws) = n_wait c ws" for ws :: "'a waiting list"
    by (induction ws) auto
  from this [of "bp_waiting p", folded parts]
  show "n_wait c (bp_waiting p') + n_wait c (tn_batch t) + n_wait c (tn_expired t) = n_wait c (bp_waiting p)" by simp
  have busy: "bp_busy p' = bp_busy p - wt_connection ` set (tn_expired t)"
    using assms unfolding parts(2)
    by (auto simp: take_turn_def expire_waiting_eq Let_def split: list.splits if_splits)
  show "c \<in> bp_busy p \<Longrightarrow> c \<notin> bp_busy p' \<Longrightarrow> 0 < n_wait c (tn_expired t)"
    and "c \<notin> bp_busy p \<Longrightarrow> c \<notin> bp_busy p'"
    by (auto simp: busy n_wait_pos [symmetric])
qed

lemma load_ok_turn:
  assumes "load_ok s" and "sv_work s = []" and tt: "take_turn (sv_policy s) now k = (p, t)"
    and ws: "\<And>c. n_work c ws = n_wait c (tn_batch t)"
  shows "load_ok (s\<lparr>sv_policy := p, sv_work := ws\<rparr>)"
proof (rule load_okI)
  fix c
  have eq: "load c (s\<lparr>sv_policy := p, sv_work := ws\<rparr>) + n_wait c (tn_expired t) = load c s"
    using n_take_turn(1) [OF tt, of c] assms(2) ws [of c] by (simp add: load_def)
  show "load c (s\<lparr>sv_policy := p, sv_work := ws\<rparr>) \<le> 1"
    using eq load_okD(1) [OF assms(1), of c] by linarith
  show "load c (s\<lparr>sv_policy := p, sv_work := ws\<rparr>) = 0" if "c \<notin> bp_busy (sv_policy (s\<lparr>sv_policy := p, sv_work := ws\<rparr>))"
    using eq that n_take_turn(2) [OF tt, of c] load_okD [OF assms(1), of c] by (cases "c \<in> bp_busy (sv_policy s)") auto
qed

lemma finish_fields [simp]:
  "sv_work (finish_one message k s) = sv_work s" "sv_step_thread (finish_one message k s) = sv_step_thread s"
  "sv_work (finish_output now s tout) = sv_work s" "sv_step_thread (finish_output now s tout) = sv_step_thread s"
  by (auto simp: finish_one_def finish_output_def start_future_def split: option.split model_output.split)

lemma foldl_field: "(\<And>s x. f (g s x) = f s) \<Longrightarrow> f (foldl g s xs) = f s"
  by (induction xs arbitrary: s) simp_all

lemma run_end_fields [simp]:
  "sv_work (run_end ts res now s) = sv_work s" "sv_step_thread (run_end ts res now s) = sv_step_thread s"
  by (auto simp: run_end_def Let_def foldl_field [where f = sv_work] foldl_field [where f = sv_step_thread]
      split: step_result.split)

lemma do_work_thread [simp]: "sv_step_thread (do_work w mo now s) = sv_step_thread s"
  by (cases w) (auto simp: apply_event_def refuse_while_stopping_def open_begin_def open_end_def reset_begin_def reset_end_def
      drop_pending_def post_to_def run_begin_def Let_def split_beta split: lifecycle_event.split option.split)

lemma do_work_list:
  "sv_work (do_work w mo now s) = sv_work s \<or>
   \<not> quiet w \<and> (\<exists>x. \<not> is_run x \<and> sv_work (do_work w mo now s) = x # sv_work s)"
  by (cases w) (auto simp: apply_event_def refuse_while_stopping_def open_begin_def open_end_def reset_begin_def reset_end_def
      drop_pending_def post_to_def run_begin_def Let_def split_beta split: lifecycle_event.split option.split)

lemma shape_ok_next_work: "shape_ok s \<Longrightarrow> shape_ok (next_work mo now s)"
proof (cases "sv_work s")
  case (Cons w ws)
  assume ok: "shape_ok s"
  with Cons have sh: "work_shape (w # ws)" and th: "sv_step_thread s"
    by (auto simp: shape_ok_def)
  from do_work_list [of w mo now "s\<lparr>sv_work := ws\<rparr>"] work_shape_tl [OF sh] work_shape_event [OF sh]
  have "work_shape (sv_work (do_work w mo now (s\<lparr>sv_work := ws\<rparr>)))"
    by (auto simp: work_shape_def)
  with Cons th show ?thesis by (simp add: next_work_def shape_ok_def)
qed (simp add: next_work_def)

lemma load_ok_pop: "load_ok s \<Longrightarrow> sv_work s = w # ws \<Longrightarrow> load_ok (s\<lparr>sv_work := ws\<rparr>)"
proof (rule load_okI)
  fix c
  assume ok: "load_ok s" and w: "sv_work s = w # ws"
  have le: "load c (s\<lparr>sv_work := ws\<rparr>) \<le> load c s" using w by (simp add: load_def)
  show "load c (s\<lparr>sv_work := ws\<rparr>) \<le> 1" using le load_okD(1) [OF ok, of c] by linarith
  show "c \<notin> bp_busy (sv_policy (s\<lparr>sv_work := ws\<rparr>)) \<Longrightarrow> load c (s\<lparr>sv_work := ws\<rparr>) = 0"
    using le load_okD(2) [OF ok, of c] by simp
qed

lemma load_ok_idle: "load_ok s \<Longrightarrow> load_ok (s\<lparr>sv_work := []\<rparr>)"
proof (rule load_okI)
  fix c
  assume ok: "load_ok s"
  have le: "load c (s\<lparr>sv_work := []\<rparr>) \<le> load c s" by (simp add: load_def)
  show "load c (s\<lparr>sv_work := []\<rparr>) \<le> 1" using le load_okD(1) [OF ok, of c] by linarith
  show "c \<notin> bp_busy (sv_policy (s\<lparr>sv_work := []\<rparr>)) \<Longrightarrow> load c (s\<lparr>sv_work := []\<rparr>) = 0"
    using le load_okD(2) [OF ok, of c] by simp
qed

lemma load_ok_open_begin: "load_ok s \<Longrightarrow> \<not> list_ex is_run (sv_work s) \<Longrightarrow> load_ok (open_begin n s)"
  by (auto simp: open_begin_def Let_def split_beta load_ok_leave intro!: load_ok_work split: option.split)

lemma load_ok_answer_all [simp]: "load_ok (answer_all n e rs s) = load_ok s"
  unfolding answer_all_def by (induction rs arbitrary: s) simp_all

lemma load_ok_open_end: "load_ok s \<Longrightarrow> load_ok (open_end n raised s)"
  by (simp add: open_end_def Let_def split: option.split)

lemma load_ok_reset_begin: "load_ok s \<Longrightarrow> \<not> list_ex is_run (sv_work s) \<Longrightarrow> load_ok (reset_begin n r sid s)"
proof -
  assume ok: "load_ok s" and no: "\<not> list_ex is_run (sv_work s)"
  have "load_ok (s\<lparr>sv_policy := fst (drop_connection (sv_policy s) n), sv_pending := map (detach n) (sv_pending s)\<rparr>)"
    by (rule load_ok_drop [OF ok no, where n = n]) simp_all
  with ok show ?thesis
    by (auto simp: reset_begin_def Let_def split_beta drop_pending_def intro!: load_ok_work split: option.split)
qed

lemma load_ok_reset_end: "load_ok s \<Longrightarrow> \<not> list_ex is_run (sv_work s) \<Longrightarrow> load_ok (reset_end n r raised s)"
  using load_ok_drop [of "answer n (Failed r (ModelServerRejected ''session_opened() refused the reset'')) (reset_answered n s)"
      "forget n (answer n (Failed r (ModelServerRejected ''session_opened() refused the reset'')) (reset_answered n s))" n]
  by (simp add: reset_end_def Let_def)

lemma load_ok_refuse: "load_ok s \<Longrightarrow> \<not> list_ex is_run (sv_work s) \<Longrightarrow> load_ok (refuse_while_stopping e s)"
  by (cases e) (simp_all add: refuse_while_stopping_def load_ok_leave)

lemma load_ok_next_work: "load_ok s \<Longrightarrow> shape_ok s \<Longrightarrow> load_ok (next_work mo now s)"
proof (cases "sv_work s")
  case (Cons w ws)
  assume ok: "load_ok s" and sh: "shape_ok s"
  note pop = load_ok_pop [OF ok Cons]
  have no: "\<not> list_ex is_run ws" if "\<not> quiet w"
    using work_shape_event [of w ws] that sh Cons by (simp add: shape_ok_def)
  have "load_ok (do_work w mo now (s\<lparr>sv_work := ws\<rparr>))"
  proof (cases w)
    case (WRun batch)
    with load_ok_run_begin [OF ok] Cons show ?thesis by simp
  next
    case (WEvent e)
    with pop no show ?thesis
      by (cases e) (simp_all add: apply_event_def load_ok_open_begin load_ok_leave load_ok_reset_begin)
  qed (use pop no in \<open>simp_all add: load_ok_refuse load_ok_open_end load_ok_reset_end load_ok_run_end post_to_def\<close>)
  with Cons show ?thesis by (simp add: next_work_def)
qed (simp add: next_work_def)

lemma take_work_ok:
  assumes "load_ok s" and "shape_ok s"
  shows "load_ok (take_work now s)" and "shape_ok (take_work now s)"
proof -
  have "load_ok (take_work now s) \<and> shape_ok (take_work now s)"
  proof (cases "\<not> sv_step_thread s \<or> sv_work s \<noteq> [] \<or> sv_state s = Stopped \<or> sv_state s = Draining \<and>
      ((case sv_drain_deadline s of None \<Rightarrow> True | Some d \<Rightarrow> d \<le> now) \<or> \<not> list_ex awaited (sv_pending s))")
    case True
    with assms show ?thesis by (auto simp: take_work_def shape_ok_def)
  next
    case False
    define s2 where "s2 = (fst (expire_running now s))\<lparr>sv_events := []\<rparr>"
    have s2: "load_ok s2" "sv_work s2 = []" "sv_step_thread s2" "sv_policy s2 = sv_policy s"
      using load_ok_expire [OF assms(1), of now] False unfolding s2_def by (simp_all add: load_ok_def load_def)
    obtain p t where tt: "take_turn (sv_policy s2) now (open_sessions s2) = (p, t)" by fastforce
    let ?late = "map WOverdue (snd (expire_running now s))"
    let ?turn = "?late @ map WExpired (tn_expired t) @ (if tn_batch t = [] then [] else [WRun (tn_batch t)])"
    have "load_ok (s2\<lparr>sv_policy := p, sv_work := ?turn\<rparr>)"
      by (rule load_ok_turn [OF s2(1,2) tt]) simp
    moreover have "load_ok (s2\<lparr>sv_work := ?late @ map WRefuse es\<rparr>)" "load_ok (s2\<lparr>sv_work := ?late @ map WEvent es\<rparr>)" for es
      using s2(1,2) by (simp_all add: load_ok_def load_def)
    moreover have "work_shape ?turn" "work_shape (?late @ map WRefuse es)" "work_shape (?late @ map WEvent es)" for es
      by (auto simp: work_shape_def list_ex_iff list_all_iff butlast_append)
    ultimately show ?thesis
      using False s2 tt by (auto simp: take_work_def split_beta Let_def s2_def [symmetric] shape_ok_def)
  qed
  then show "load_ok (take_work now s)" and "shape_ok (take_work now s)" by simp_all
qed

lemma drop_all_load:
  "n_wait c (bp_waiting (fst (drop_all p ns))) = (if c \<in> set ns then 0 else n_wait c (bp_waiting p))"
  "bp_busy (fst (drop_all p ns)) = bp_busy p - set ns"
  by (induction ns arbitrary: p) (auto simp: split_beta Let_def drop_connection_def n_drop)

lemma n_pend_pos: "c \<in> pn_connection ` set (filter (\<lambda>p. \<not> pn_detached p) ps) \<longleftrightarrow> 0 < n_pend c ps"
  by (induction ps) auto

lemma refuse_fields2 [simp]:
  "sv_work (refuse_while_stopping e s) = sv_work s" "sv_step_thread (refuse_while_stopping e s) = sv_step_thread s"
  by (cases e; simp add: refuse_while_stopping_def)+

lemma close_opening_keeps [simp]:
  "load_ok (close_opening n s) = load_ok s" "sv_work (close_opening n s) = sv_work s"
  "sv_step_thread (close_opening n s) = sv_step_thread s"
  by (simp_all add: close_opening_def)

lemma answer_in_flight_ok:
  assumes "load_ok s" and "sv_work s = []"
  shows "load_ok (answer_in_flight s)" and "sv_work (answer_in_flight s) = []"
    and "sv_step_thread (answer_in_flight s) = sv_step_thread s"
proof -
  obtain policy dropped where d: "drop_all (sv_policy s) (sv_connections s) = (policy, dropped)" by fastforce
  define s2 where "s2 = s\<lparr>sv_events := [], sv_pending := [], sv_opening := [],
      sv_policy := finished policy (map pn_connection (filter (\<lambda>p. \<not> pn_detached p) (sv_pending s)))\<rparr>"
  have s2: "load_ok s2"
  proof (rule load_okI)
    fix c
    have eq: "load c s2 = (if c \<in> set (sv_connections s) then 0 else n_wait c (bp_waiting (sv_policy s)))"
      using drop_all_load(1) [of c "sv_policy s" "sv_connections s"] d assms(2)
      by (simp add: s2_def load_def finished_def)
    have le: "n_wait c (bp_waiting (sv_policy s)) + n_pend c (sv_pending s) = load c s"
      using assms(2) by (simp add: load_def)
    show "load c s2 \<le> 1" using eq le load_okD(1) [OF assms(1), of c] by auto
    show "load c s2 = 0" if "c \<notin> bp_busy (sv_policy s2)"
    proof -
      from that d have "c \<notin> bp_busy (sv_policy s) \<or> c \<in> set (sv_connections s) \<or> 0 < n_pend c (sv_pending s)"
        using drop_all_load(2) [of "sv_policy s" "sv_connections s"]
        by (auto simp: s2_def finished_def n_pend_pos [symmetric])
      with eq le load_okD [OF assms(1), of c] show ?thesis by auto
    qed
  qed
  define ok where "ok u \<longleftrightarrow> load_ok u \<and> sv_work u = [] \<and> sv_step_thread u = sv_step_thread s" for u :: "('a, 'b) server"
  have ok2: "ok s2" using s2 assms(2) by (simp add: ok_def) (simp add: s2_def)
  have "ok (foldl (\<lambda>s p. if awaited p
      then answer (pn_connection p) (Failed (wt_request_id (pn_waiting p)) ModelServerStopping) s else s) s2 (sv_pending s))"
    by (rule foldl_keeps [where P = ok, OF _ ok2]) (simp add: ok_def)
  then have "ok (foldl (\<lambda>s e. refuse_while_stopping e s) (foldl (\<lambda>s p. if awaited p
      then answer (pn_connection p) (Failed (wt_request_id (pn_waiting p)) ModelServerStopping) s else s) s2 (sv_pending s))
      (sv_events s))" (is "ok ?s4")
    by (rule foldl_keeps [where P = ok, rotated]) (simp add: ok_def load_ok_refuse)
  then have "ok (foldl (\<lambda>s nr. answer_all (fst nr) ModelServerStopping (snd nr) s) ?s4 dropped)" (is "ok ?s5")
    by (rule foldl_keeps [where P = ok, rotated]) (simp add: ok_def)
  then have "ok (foldl (\<lambda>s n. close_opening n s) ?s5 (sv_opening s))"
    by (rule foldl_keeps [where P = ok, rotated]) (simp add: ok_def)
  then have "ok (answer_in_flight s)"
    using d by (simp add: answer_in_flight_def Let_def s2_def)
  then show "load_ok (answer_in_flight s)" and "sv_work (answer_in_flight s) = []"
    and "sv_step_thread (answer_in_flight s) = sv_step_thread s"
    by (simp_all add: ok_def)
qed

lemma n_wait_remove:
  assumes "remove_first c rid ws = Some vs"
  shows "n_wait k vs + (if k = c then 1 else 0) = n_wait k ws"
  using assms by (induction ws arbitrary: vs) (auto split: if_splits)

lemma load_ok_dispatch: "load_ok s \<Longrightarrow> load_ok (dispatch n m now s)"
proof (cases m)
  case (StepMsg r timeout payload)
  assume ok: "load_ok s"
  have "load_ok (s\<lparr>sv_policy := fst (add (sv_policy s) w)\<rparr>)" if "wt_connection w \<notin> bp_busy (sv_policy s)" for w
  proof (rule load_okI)
    fix c
    show "load c (s\<lparr>sv_policy := fst (add (sv_policy s) w)\<rparr>) \<le> 1"
      using that load_okD [OF ok, of c] by (auto simp: load_def add_def)
    show "c \<notin> bp_busy (sv_policy (s\<lparr>sv_policy := fst (add (sv_policy s) w)\<rparr>)) \<Longrightarrow>
        load c (s\<lparr>sv_policy := fst (add (sv_policy s) w)\<rparr>) = 0"
      using that load_okD(2) [OF ok, of c] by (auto simp: load_def add_def)
  qed
  from this [of "\<lparr>wt_connection = n, wt_request_id = r, wt_payload = payload, wt_arrived = now,
      wt_deadline = map_option (\<lambda>t. now + t) timeout, wt_order = 0\<rparr>"] StepMsg ok show ?thesis
    by (auto simp: take_step_def Let_def add_def)
next
  case (CancelMsg r)
  assume ok: "load_ok s"
  have pend: "n_pend c (map (\<lambda>p. if runs_request n r p then p\<lparr>pn_answered := True\<rparr> else p) ps) = n_pend c ps"
    for c and ps :: "'a pending list"
    by (induction ps) simp_all
  show ?thesis
  proof (cases "remove_first n r (bp_waiting (sv_policy s))")
    case None
    with CancelMsg ok pend show ?thesis by (simp add: cancel_request_def cancel_def load_ok_def load_def)
  next
    case (Some vs)
    let ?s' = "s\<lparr>sv_policy := (sv_policy s)\<lparr>bp_waiting := vs, bp_busy := bp_busy (sv_policy s) - {n}\<rparr>\<rparr>"
    have "load_ok ?s'"
    proof (rule load_okI)
      fix c
      have eq: "load c ?s' + (if c = n then 1 else 0) = load c s"
        using n_wait_remove [OF Some, of c] by (simp add: load_def)
      show "load c ?s' \<le> 1" using eq load_okD(1) [OF ok, of c] by linarith
      show "c \<notin> bp_busy (sv_policy ?s') \<Longrightarrow> load c ?s' = 0"
        using eq load_okD [OF ok, of c] by (auto split: if_splits)
    qed
    with CancelMsg Some show ?thesis by (simp add: cancel_request_def cancel_def)
  qed
qed (simp_all add: take_reset_def)

definition load_inv :: "('p, 'o) server \<Rightarrow> bool" where
  "load_inv s \<longleftrightarrow> load_ok s \<and> shape_ok s"

lemma shape_ok_same: "sv_work s' = sv_work s \<Longrightarrow> sv_step_thread s' = sv_step_thread s \<Longrightarrow> shape_ok s' = shape_ok s"
  by (simp add: shape_ok_def)

lemma dispatch_fields [simp]:
  "sv_work (dispatch n m now s) = sv_work s" "sv_step_thread (dispatch n m now s) = sv_step_thread s"
  by (cases m; simp add: take_step_def cancel_request_def take_reset_def Let_def split: prod.split bool.split)+

lemma load_inv_step: "load_inv s \<Longrightarrow> load_inv (server_step s op)"
proof (cases op)
  case Accept
  assume "load_inv s"
  with Accept show ?thesis by (simp add: load_inv_def accept_def Let_def shape_ok_def)
next
  case (ReadHello n h)
  assume "load_inv s"
  with ReadHello show ?thesis
    by (simp add: load_inv_def read_hello_def Let_def shape_ok_def split: hello_message.split)
next
  case (Read n m now)
  assume "load_inv s"
  with Read show ?thesis by (simp add: load_inv_def load_ok_dispatch shape_ok_same [of "dispatch n m now s" s])
next
  case (Resolve k out)
  assume inv: "load_inv s"
  have "load_ok (resolve k out s) \<and> sv_work (resolve k out s) = sv_work s \<and> sv_step_thread (resolve k out s) = sv_step_thread s"
    using inv by (auto simp: load_inv_def resolve_def split: option.split dest!: find_pending_Some intro: load_ok_complete)
  with inv Resolve show ?thesis by (simp add: load_inv_def shape_ok_def)
next
  case AnswerInFlight
  assume "load_inv s"
  with AnswerInFlight answer_in_flight_ok [of s] show ?thesis
    by (auto simp: load_inv_def shape_ok_def)
next
  case (StopLeave n)
  assume "load_inv s"
  with StopLeave load_ok_leave [of s n] show ?thesis
    by (auto simp: load_inv_def shape_ok_def)
next
  case (StepLoopFault reason)
  assume "load_inv s"
  then have base: "load_ok (s\<lparr>sv_broken := Some reason, sv_step_thread := False, sv_work := []\<rparr>)"
    by (auto simp: load_inv_def intro: load_ok_idle)
  then have "load_ok (s\<lparr>sv_broken := Some reason, sv_step_thread := False, sv_work := [], sv_state := Draining\<rparr>)"
    by simp
  with base StepLoopFault \<open>load_inv s\<close> show ?thesis
    by (auto simp: load_inv_def shape_ok_def step_loop_fault_def server_move_def Let_def answer_in_flight_ok work_shape_def)
next
  case (TakeWork now)
  assume "load_inv s"
  with TakeWork show ?thesis by (simp add: load_inv_def take_work_ok)
next
  case (DoWork mo now)
  assume "load_inv s"
  with DoWork show ?thesis by (simp add: load_inv_def load_ok_next_work shape_ok_next_work)
qed (auto simp: load_inv_def hello_expired_def begin_drain_def begin_stop_def server_move_def shape_ok_def)

interpretation server_load: step_invariant server_step load_inv
  by unfold_locales (rule load_inv_step)

lemma init_load_inv: "load_inv (init_server mb w ms sa dt)"
  by (simp add: load_inv_def load_ok_def load_def shape_ok_def work_shape_def init_server_def init_policy_def)

text \<open>
  C29. One request per session at a time, end to end: over any interleaving, a session has at most
  one request that waits in the queue, sits in a batch being handed to the model, or runs without
  having been reset away; and when the policy does not hold it busy, it has none, so the next one
  it sends is taken.
\<close>

theorem one_request_in_flight:
  "let s = foldl server_step (init_server mb w ms sa dt) ops in
   load c s \<le> 1 \<and> (if c \<in> bp_busy (sv_policy s) then True else load c s = 0)"
proof -
  have "load_ok (foldl server_step (init_server mb w ms sa dt) ops)"
    by (rule server_load.run_keeps [OF init_load_inv, unfolded load_inv_def, THEN conjunct1])
  from load_okD [OF this, of c] show ?thesis by (simp add: Let_def)
qed

end
