(* ===== verification/ServerSessions.thy ===== *)
theory ServerSessions
  imports ServerLoad
begin

text \<open>
  The model server's sessions: the registered connections are the open ones, a slot has at most
  one, no connection is ever asked to move where its sequence does not allow, and the requests
  that run belong to the generation their session is in. With these, no request of a session
  that stays open is lost.
\<close>

abbreviation st :: "('p, 'o) server \<Rightarrow> int \<Rightarrow> conn_state" where
  "st s n \<equiv> cn_state (conn_of s n)"

abbreviation slot_of :: "('p, 'o) server \<Rightarrow> int \<Rightarrow> int option" where
  "slot_of s n \<equiv> cn_slot (conn_of s n)"

abbreviation gen :: "('p, 'o) server \<Rightarrow> int \<Rightarrow> int" where
  "gen s n \<equiv> cn_generation (conn_of s n)"

text \<open>What the invariant reads of a connection.\<close>

definition view :: "('p, 'o) server \<Rightarrow> int \<Rightarrow> conn_state \<times> int option \<times> int \<times> bool" where
  "view s n = (st s n, slot_of s n, gen s n, cn_move_error (conn_of s n))"

definition conns_ok :: "('p, 'o) server \<Rightarrow> bool" where
  "conns_ok s \<longleftrightarrow>
     (\<forall>n. n \<in> set (sv_connections s) \<longleftrightarrow> st s n = Conn_Open) \<and>
     (\<forall>n. st s n \<in> {Conn_Opening, Conn_Open} \<longrightarrow> slot_of s n \<noteq> None) \<and>
     (\<forall>n. \<not> cn_move_error (conn_of s n)) \<and>
     (\<forall>k n. dict_get (sv_by_slot s) k = Some n \<longleftrightarrow> st s n = Conn_Open \<and> slot_of s n = Some k)"

definition keys_ok :: "('p, 'o) server \<Rightarrow> bool" where
  "keys_ok s \<longleftrightarrow> (\<forall>n \<ge> sv_numbers s. st s n \<notin> {Conn_Opening, Conn_Open})"

definition pend_ok :: "('p, 'o) server \<Rightarrow> bool" where
  "pend_ok s \<longleftrightarrow>
     distinct (map pn_ticket (sv_pending s)) \<and>
     (\<forall>p \<in> set (sv_pending s). pn_ticket p < sv_tickets s \<and>
        (\<not> pn_detached p \<longrightarrow> st s (pn_connection p) = Conn_Open \<and> gen s (pn_connection p) = pn_generation p))"

fun running_tickets :: "'p work list \<Rightarrow> int set" where
  "running_tickets (WStepped ts # ws) = set ts"
| "running_tickets _ = {}"

definition future_ok :: "('p, 'o) server \<Rightarrow> bool" where
  "future_ok s \<longleftrightarrow> (\<forall>p \<in> set (sv_pending s). \<not> pn_future p \<longrightarrow> pn_ticket p \<in> running_tickets (sv_work s))"

fun plain_item :: "'p work \<Rightarrow> bool" where
  "plain_item (WOpened n) = False"
| "plain_item (WResetOpened n r) = False"
| "plain_item (WStepped ts) = False"
| "plain_item _ = True"

fun head_ok :: "('p, 'o) server \<Rightarrow> 'p work \<Rightarrow> bool" where
  "head_ok s (WOpened n) \<longleftrightarrow> st s n = Conn_Opening \<and> (\<forall>m. st s m = Conn_Open \<longrightarrow> slot_of s m \<noteq> slot_of s n)"
| "head_ok s (WResetOpened n r) \<longleftrightarrow> st s n = Conn_Open"
| "head_ok s _ \<longleftrightarrow> True"

definition head_work_ok :: "('p, 'o) server \<Rightarrow> bool" where
  "head_work_ok s \<longleftrightarrow> list_all plain_item (tl (sv_work s)) \<and> (case sv_work s of [] \<Rightarrow> True | w # ws \<Rightarrow> head_ok s w)"

definition base_ok :: "('p, 'o) server \<Rightarrow> bool" where
  "base_ok s \<longleftrightarrow> conns_ok s \<and> keys_ok s \<and> pend_ok s"

definition sess_ok :: "('p, 'o) server \<Rightarrow> bool" where
  "sess_ok s \<longleftrightarrow> base_ok s \<and> future_ok s \<and> head_work_ok s \<and> (\<not> sv_step_thread s \<longrightarrow> sv_work s = [])"

lemmas sess_defs = conns_ok_def pend_ok_def future_ok_def head_work_ok_def

text \<open>A step that changes neither the views nor the registers keeps everything.\<close>

lemma view_fields:
  assumes "view s' = view s"
  shows "st s' n = st s n" "slot_of s' n = slot_of s n" "gen s' n = gen s n"
    "cn_move_error (conn_of s' n) = cn_move_error (conn_of s n)"
  using fun_cong [OF assms, of n] by (simp_all add: view_def)

lemma conns_ok_same:
  assumes "view s' = view s" and "sv_connections s' = sv_connections s" and "sv_by_slot s' = sv_by_slot s"
  shows "conns_ok s' = conns_ok s"
  using assms(2,3) by (simp add: conns_ok_def view_fields [OF assms(1)])

lemma head_ok_same: "view s' = view s \<Longrightarrow> head_ok s' w = head_ok s w"
  using view_fields [of s' s] by (cases w) simp_all

lemma head_work_ok_same: "view s' = view s \<Longrightarrow> sv_work s' = sv_work s \<Longrightarrow> head_work_ok s' = head_work_ok s"
  using head_ok_same [of s' s] by (simp add: head_work_ok_def split: list.split)

lemma pend_ok_same:
  assumes "view s' = view s" and "sv_pending s' = sv_pending s" and "sv_tickets s' = sv_tickets s"
  shows "pend_ok s' = pend_ok s"
  using assms(2,3) by (simp add: pend_ok_def view_fields [OF assms(1)])

lemma post_view [simp]:
  "cn_state (fst (post c m)) = cn_state c" "cn_slot (fst (post c m)) = cn_slot c"
  "cn_generation (fst (post c m)) = cn_generation c" "cn_move_error (fst (post c m)) = cn_move_error c"
  by (simp_all add: post_def put_nowait_def)

lemma close_view [simp]:
  "cn_state (close_connection c) = cn_state c" "cn_slot (close_connection c) = cn_slot c"
  "cn_generation (close_connection c) = cn_generation c" "cn_move_error (close_connection c) = cn_move_error c"
  "cn_state (close_link c) = cn_state c" "cn_slot (close_link c) = cn_slot c"
  "cn_generation (close_link c) = cn_generation c" "cn_move_error (close_link c) = cn_move_error c"
  by (simp_all add: close_connection_def close_link_def put_nowait_def)

lemma write_view [simp]:
  "cn_state (write_step link c) = cn_state c" "cn_slot (write_step link c) = cn_slot c"
  "cn_generation (write_step link c) = cn_generation c" "cn_move_error (write_step link c) = cn_move_error c"
  by (auto simp: write_step_def end_writer_def split: list.split outbox_item.split option.split)

lemma view_on_conn:
  "view (on_conn f n s) m = (if m = n then (cn_state (f (conn_of s n)), cn_slot (f (conn_of s n)),
     cn_generation (f (conn_of s n)), cn_move_error (f (conn_of s n))) else view s m)"
  by (simp add: view_def)

lemma answer_conn:
  "conn_of (answer n m s) k = (if k = n then (case post (conn_of s n) m of (c', True) \<Rightarrow> c' | (c', False) \<Rightarrow> close_link c')
     else conn_of s k)"
  by (simp add: answer_def)

lemma answered_view [simp]:
  "cn_state (case post c m of (c', True) \<Rightarrow> c' | (c', False) \<Rightarrow> close_link c') = cn_state c"
  "cn_slot (case post c m of (c', True) \<Rightarrow> c' | (c', False) \<Rightarrow> close_link c') = cn_slot c"
  "cn_generation (case post c m of (c', True) \<Rightarrow> c' | (c', False) \<Rightarrow> close_link c') = cn_generation c"
  "cn_move_error (case post c m of (c', True) \<Rightarrow> c' | (c', False) \<Rightarrow> close_link c') = cn_move_error c"
  using post_view [of c m] by (auto split: prod.split bool.split simp del: post_view)

lemma view_simps [simp]:
  "view (answer n m s) = view s" "view (on_conn close_connection n s) = view s" "view (on_conn close_link n s) = view s"
  "view (on_conn (write_step link) n s) = view s" "view (refuse_session n x s) = view s"
  "view (discard_opening n s) = view s" "view (reset_answered n s) = view s" "view (queue_event e s) = view s"
  "view (fst (next_generation k s)) = view s"
  by (auto simp: fun_eq_iff view_def answer_conn refuse_session_def)

lemma view_updates [simp]:
  "view (s\<lparr>sv_policy := p\<rparr>) = view s" "view (s\<lparr>sv_events := es\<rparr>) = view s"
  "view (s\<lparr>sv_connections := ns\<rparr>) = view s" "view (s\<lparr>sv_by_slot := d\<rparr>) = view s"
  "view (s\<lparr>sv_opening := ns\<rparr>) = view s" "view (s\<lparr>sv_reset_pending := r\<rparr>) = view s"
  "view (s\<lparr>sv_pending := ps\<rparr>) = view s" "view (s\<lparr>sv_work := w\<rparr>) = view s" "view (s\<lparr>sv_tickets := k\<rparr>) = view s"
  "view (s\<lparr>sv_state := x\<rparr>) = view s" "view (s\<lparr>sv_step_thread := b\<rparr>) = view s" "view (s\<lparr>sv_broken := br\<rparr>) = view s"
  "view (s\<lparr>sv_drain_deadline := dl\<rparr>) = view s" "view (s\<lparr>sv_numbers := j\<rparr>) = view s"
  by (simp_all add: fun_eq_iff view_def)

lemma answer_view_at [simp]:
  "st (answer n m s) k = st s k" "slot_of (answer n m s) k = slot_of s k" "gen (answer n m s) k = gen s k"
  using view_fields [OF view_simps(1) [of n m s]] by simp_all

lemma base_ok_same:
  assumes "view s' = view s" and "sv_connections s' = sv_connections s" and "sv_by_slot s' = sv_by_slot s"
    and "sv_pending s' = sv_pending s" and "sv_tickets s' = sv_tickets s" and "sv_numbers s' = sv_numbers s"
  shows "base_ok s' = base_ok s"
  using assms(6) conns_ok_same [OF assms(1-3)] pend_ok_same [OF assms(1,4,5)]
  by (simp add: base_ok_def keys_ok_def view_fields [OF assms(1)])

lemma base_ok_frame [simp]:
  "base_ok (answer n m s) = base_ok s" "base_ok (on_conn close_connection n s) = base_ok s"
  "base_ok (discard_opening n s) = base_ok s" "base_ok (reset_answered n s) = base_ok s"
  "base_ok (refuse_session n x s) = base_ok s" "base_ok (queue_event e s) = base_ok s"
  "base_ok (fst (next_generation k s)) = base_ok s" "base_ok (s\<lparr>sv_work := ws\<rparr>) = base_ok s"
  "base_ok (s\<lparr>sv_policy := p\<rparr>) = base_ok s" "base_ok (s\<lparr>sv_events := es\<rparr>) = base_ok s"
  "base_ok (s\<lparr>sv_opening := ns\<rparr>) = base_ok s" "base_ok (s\<lparr>sv_reset_pending := r\<rparr>) = base_ok s"
  "base_ok (s\<lparr>sv_step_thread := b\<rparr>) = base_ok s" "base_ok (s\<lparr>sv_state := y\<rparr>) = base_ok s"
  "base_ok (s\<lparr>sv_broken := br\<rparr>) = base_ok s" "base_ok (s\<lparr>sv_drain_deadline := dl\<rparr>) = base_ok s"
  by (rule base_ok_same; simp)+

lemma head_work_ok_plain: "list_all plain_item (sv_work s) \<Longrightarrow> head_work_ok s"
proof (cases "sv_work s")
  case (Cons w ws)
  assume "list_all plain_item (sv_work s)"
  with Cons show ?thesis by (cases w) (simp_all add: head_work_ok_def)
qed (simp add: head_work_ok_def)

section \<open>Leaving\<close>

lemma conn_of_leave:
  "conn_of (leave n s) k =
     (if k = n then close_connection (if st s n \<in> {Conn_Closing, Conn_Closed} then conn_of s n
        else move (move (conn_of s n) Conn_Closing) Conn_Closed)
      else conn_of s k)"
  by (simp add: leave_def Let_def)

lemma leave_view:
  "st (leave n s) k = (if k = n \<and> st s n \<noteq> Conn_Closing then Conn_Closed else st s k)"
  "slot_of (leave n s) k = slot_of s k" "gen (leave n s) k = gen s k"
  "cn_move_error (conn_of (leave n s) k) = cn_move_error (conn_of s k)"
  by (cases "st s n"; auto simp: conn_of_leave move_def)+

lemma move_slot [simp]: "cn_slot (move c x) = cn_slot c" "cn_generation (move c x) = cn_generation c"
  by (simp_all add: move_def)

lemma forget_by_slot:
  "dict_get (sv_by_slot (forget n s)) k =
     (if slot_of s n = Some k \<and> dict_get (sv_by_slot s) k = Some n then None else dict_get (sv_by_slot s) k)"
  by (auto simp: forget_def drop_pending_def Let_def dict_get_del split: option.split)

lemma leave_registers:
  "sv_connections (leave n s) =
     (if st s n \<in> {Conn_Closing, Conn_Closed} then sv_connections s else filter (\<lambda>m. m \<noteq> n) (sv_connections s))"
  "sv_pending (leave n s) = (if st s n \<in> {Conn_Closing, Conn_Closed} then sv_pending s else map (detach n) (sv_pending s))"
  "dict_get (sv_by_slot (leave n s)) k =
     (if st s n \<notin> {Conn_Closing, Conn_Closed} \<and> slot_of s n = Some k \<and> dict_get (sv_by_slot s) k = Some n then None
      else dict_get (sv_by_slot s) k)"
  "sv_numbers (leave n s) = sv_numbers s"
  by (auto simp: leave_def Let_def forget_by_slot)

lemma conns_ok_leave: "conns_ok s \<Longrightarrow> conns_ok (leave n s)"
  unfolding conns_ok_def leave_view leave_registers
  by (auto simp: leave_registers) (metis conn_state.distinct(20) option.inject)+

lemma detach_fields [simp]:
  "pn_ticket (detach n p) = pn_ticket p" "pn_connection (detach n p) = pn_connection p"
  "pn_generation (detach n p) = pn_generation p" "pn_future (detach n p) = pn_future p"
  "pn_detached (detach n p) \<longleftrightarrow> pn_detached p \<or> pn_connection p = n"
  by (auto simp: detach_def)

lemma detached_all: "list_all (\<lambda>p. pn_connection p = n \<longrightarrow> pn_detached p) (map (detach n) ps)"
  by (induction ps) simp_all

lemma base_ok_leave: "base_ok s \<Longrightarrow> base_ok (leave n s)"
proof -
  assume ok: "base_ok s"
  then have "pend_ok (leave n s)"
    by (auto simp: base_ok_def pend_ok_def leave_registers leave_view comp_def)
  moreover have "keys_ok (leave n s)"
    using ok by (auto simp: base_ok_def keys_ok_def leave_view leave_registers)
  ultimately show ?thesis using ok conns_ok_leave [of s n] by (simp add: base_ok_def)
qed

text \<open>Removing, detaching or marking running requests keeps what is known of the rest.\<close>

lemma base_ok_pending:
  assumes "base_ok s" and "distinct (map pn_ticket ps)"
    and "\<And>p. p \<in> set ps \<Longrightarrow> \<exists>q \<in> set (sv_pending s). pn_ticket p = pn_ticket q \<and> pn_connection p = pn_connection q \<and>
      pn_generation p = pn_generation q \<and> (pn_detached q \<longrightarrow> pn_detached p)"
  shows "base_ok (s\<lparr>sv_pending := ps\<rparr>)"
proof -
  have "conns_ok (s\<lparr>sv_pending := ps\<rparr>)" "keys_ok (s\<lparr>sv_pending := ps\<rparr>)"
    using assms(1) by (simp_all add: base_ok_def conns_ok_def keys_ok_def)
  moreover have "pend_ok (s\<lparr>sv_pending := ps\<rparr>)"
    unfolding pend_ok_def
  proof (intro conjI ballI)
    show "distinct (map pn_ticket (sv_pending (s\<lparr>sv_pending := ps\<rparr>)))" using assms(2) by simp
    fix p
    assume "p \<in> set (sv_pending (s\<lparr>sv_pending := ps\<rparr>))"
    then obtain q where "q \<in> set (sv_pending s)" "pn_ticket p = pn_ticket q" "pn_connection p = pn_connection q"
      "pn_generation p = pn_generation q" "pn_detached q \<longrightarrow> pn_detached p"
      using assms(3) [of p] by auto
    with assms(1) show "pn_ticket p < sv_tickets (s\<lparr>sv_pending := ps\<rparr>)"
      "\<not> pn_detached p \<longrightarrow> st (s\<lparr>sv_pending := ps\<rparr>) (pn_connection p) = Conn_Open \<and>
         gen (s\<lparr>sv_pending := ps\<rparr>) (pn_connection p) = pn_generation p"
      by (auto simp: base_ok_def pend_ok_def)
  qed
  ultimately show ?thesis by (simp add: base_ok_def)
qed

lemma base_ok_filter: "base_ok s \<Longrightarrow> base_ok (s\<lparr>sv_pending := filter P (sv_pending s)\<rparr>)"
  by (rule base_ok_pending) (auto simp: base_ok_def pend_ok_def distinct_map_filter)

lemma base_ok_map:
  assumes "base_ok s" and "\<And>p. pn_ticket (f p) = pn_ticket p \<and> pn_connection (f p) = pn_connection p \<and>
    pn_generation (f p) = pn_generation p \<and> (pn_detached p \<longrightarrow> pn_detached (f p))"
  shows "base_ok (s\<lparr>sv_pending := map f (sv_pending s)\<rparr>)"
proof -
  have "pn_ticket \<circ> f = pn_ticket"
    using assms(2) by (simp add: fun_eq_iff)
  with assms show ?thesis
    by (intro base_ok_pending) (auto simp: base_ok_def pend_ok_def)
qed

lemma view_complete: "view (complete item m s) = view s"
  by (simp add: complete_def Let_def)

lemma base_ok_complete: "base_ok s \<Longrightarrow> base_ok (complete item m s)"
  using base_ok_filter [of s "\<lambda>p. pn_ticket p \<noteq> pn_ticket item"]
    base_ok_same [of "complete item m s" "s\<lparr>sv_pending := filter (\<lambda>p. pn_ticket p \<noteq> pn_ticket item) (sv_pending s)\<rparr>"]
  by (simp add: view_complete)

lemma base_ok_finish_one: "base_ok s \<Longrightarrow> base_ok (finish_one message k s)"
  by (auto simp: finish_one_def base_ok_complete split: option.split)

lemma base_ok_finish_output: "base_ok s \<Longrightarrow> base_ok (finish_output now s tout)"
  by (auto simp: finish_output_def start_future_def base_ok_finish_one split: model_output.split intro!: base_ok_map)

lemma base_ok_run_end: "base_ok s \<Longrightarrow> base_ok (run_end ts res now s)"
  unfolding run_end_def Let_def
  by (auto split: step_result.split
      intro!: foldl_keeps [where P = base_ok] base_ok_finish_one base_ok_finish_output)

text \<open>After a step has returned, each of its requests is gone or has a future.\<close>

definition settled :: "int set \<Rightarrow> ('p, 'o) server \<Rightarrow> bool" where
  "settled ts s \<longleftrightarrow> (\<forall>p \<in> set (sv_pending s). \<not> pn_future p \<longrightarrow> pn_ticket p \<in> ts)"

lemma settled_finish_one: "settled (insert k ts) s \<Longrightarrow> settled ts (finish_one message k s)"
proof (cases "find_pending s k")
  case None
  assume "settled (insert k ts) s"
  moreover have "\<forall>p \<in> set (sv_pending s). pn_ticket p \<noteq> k"
    using None by (auto simp: find_pending_def find_None_iff)
  ultimately show ?thesis using None by (auto simp: settled_def finish_one_def)
next
  case (Some item)
  assume "settled (insert k ts) s"
  with Some find_pending_Some [OF Some] show ?thesis by (auto simp: settled_def finish_one_def)
qed

lemma settled_finish_output: "settled (insert (fst tout) ts) s \<Longrightarrow> settled ts (finish_output now s tout)"
  using settled_finish_one [of "fst tout" ts s]
  by (auto simp: finish_output_def split: model_output.split) (auto simp: settled_def start_future_def)

lemma settled_foldl:
  assumes "\<And>ts s x. settled (insert (key x) ts) s \<Longrightarrow> settled ts (f s x)"
  shows "settled (key ` set xs) s \<Longrightarrow> settled {} (foldl f s xs)"
proof (induction xs arbitrary: s)
  case (Cons x xs)
  then have "settled (insert (key x) (key ` set xs)) s" by simp
  from assms [OF this] Cons.IH show ?case by simp
qed simp

lemma settled_run_end: "settled (set ts) s \<Longrightarrow> settled {} (run_end ts res now s)"
proof -
  assume s: "settled (set ts) s"
  have failed: "settled {} (foldl (\<lambda>s k. finish_one message k s) s ts)" for message :: "'a pending \<Rightarrow> 'b to_session"
    by (rule settled_foldl [where key = "\<lambda>k. k"]) (simp_all add: settled_finish_one s)
  have "settled {} (foldl (finish_output now) s (zip ts outs))" if "length outs = length ts" for outs
  proof (rule settled_foldl [where key = fst])
    show "settled (fst ` set (zip ts outs)) s"
      using s that by (metis list.set_map map_fst_zip)
  qed (rule settled_finish_output)
  with failed show ?thesis by (auto simp: run_end_def Let_def split: step_result.split)
qed

section \<open>The step thread's items\<close>

lemma base_ok_open_begin:
  assumes ok: "base_ok s" and plain: "list_all plain_item (sv_work s)"
  shows "base_ok (open_begin n s)" and "head_work_ok (open_begin n s)"
proof -
  have "base_ok (open_begin n s) \<and> head_work_ok (open_begin n s)"
  proof (cases "slot_of s n = None \<or> st s n \<noteq> Conn_Opening")
    case True
    with ok plain show ?thesis
      by (auto simp: open_begin_def intro!: head_work_ok_plain split: option.split)
  next
    case False
    then obtain k where k: "slot_of s n = Some k" "st s n = Conn_Opening" by auto
    define s1 where "s1 = (case dict_get (sv_by_slot s) k of Some held \<Rightarrow> if held \<noteq> n then leave held s else s | None \<Rightarrow> s)"
    have slots: "dict_get (sv_by_slot s) k = Some m \<longleftrightarrow> st s m = Conn_Open \<and> slot_of s m = Some k" for m
      using ok by (auto simp: base_ok_def conns_ok_def)
    have s1: "base_ok s1" "sv_work s1 = sv_work s" "st s1 n = Conn_Opening" "slot_of s1 n = Some k"
      using ok k slots by (auto simp: s1_def base_ok_leave leave_view split: option.split)
    have free: "slot_of s1 m \<noteq> Some k" if "st s1 m = Conn_Open" for m
      using that slots [of m] k by (auto simp: s1_def leave_view split: option.splits if_splits)
    define s3 where "s3 = on_conn (\<lambda>c. c\<lparr>cn_generation := snd (next_generation k s1)\<rparr>) n (fst (next_generation k s1))"
    have v: "st s3 m = st s1 m" "slot_of s3 m = slot_of s1 m" "cn_move_error (conn_of s3 m) = cn_move_error (conn_of s1 m)"
      "st s1 m = Conn_Open \<Longrightarrow> gen s3 m = gen s1 m" for m
      using s1(3) by (auto simp: s3_def)
    have regs: "sv_connections s3 = sv_connections s1" "sv_by_slot s3 = sv_by_slot s1" "sv_pending s3 = sv_pending s1"
      "sv_tickets s3 = sv_tickets s1" "sv_numbers s3 = sv_numbers s1" "sv_work s3 = sv_work s1"
      by (simp_all add: s3_def)
    have "base_ok s3"
      using s1(1,3) by (auto simp: base_ok_def conns_ok_def keys_ok_def pend_ok_def v regs)
    moreover have "head_work_ok (s3\<lparr>sv_work := WOpened n # sv_work s3\<rparr>)"
      using plain s1 free by (simp add: head_work_ok_def v regs)
    moreover have "open_begin n s = s3\<lparr>sv_work := WOpened n # sv_work s3\<rparr>"
      using k by (simp add: open_begin_def Let_def split_beta s3_def s1_def)
    ultimately show ?thesis by simp
  qed
  then show "base_ok (open_begin n s)" and "head_work_ok (open_begin n s)" by simp_all
qed

lemma moved_base_ok:
  assumes "base_ok s" and "st s n \<in> {Conn_Connecting, Conn_Opening}"
  shows "base_ok (on_conn (\<lambda>c. move c Conn_Closing) n s)"
proof -
  define s' where "s' = on_conn (\<lambda>c. move c Conn_Closing) n s"
  have v: "st s' m = (if m = n then Conn_Closing else st s m)" "slot_of s' m = slot_of s m" "gen s' m = gen s m"
    "cn_move_error (conn_of s' m) = cn_move_error (conn_of s m)" for m
    using assms(2) by (auto simp: s'_def move_def)
  have regs: "sv_connections s' = sv_connections s" "sv_by_slot s' = sv_by_slot s" "sv_pending s' = sv_pending s"
    "sv_tickets s' = sv_tickets s" "sv_numbers s' = sv_numbers s"
    by (simp_all add: s'_def)
  have "base_ok s'"
    using assms by (auto simp: base_ok_def conns_ok_def keys_ok_def pend_ok_def v regs)
  then show ?thesis by (simp add: s'_def)
qed

lemma base_ok_open_end:
  assumes ok: "base_ok s" and op: "st s n = Conn_Opening"
    and free: "\<And>m. st s m = Conn_Open \<Longrightarrow> slot_of s m \<noteq> slot_of s n"
  shows "base_ok (open_end n raised s)"
proof -
  obtain k where k: "slot_of s n = Some k"
    using ok op by (auto simp: base_ok_def conns_ok_def)
  define s2 where "s2 = (on_conn (\<lambda>c. move c Conn_Open) n (discard_opening n s))
      \<lparr>sv_connections := filter (\<lambda>m. m \<noteq> n) (sv_connections s) @ [n], sv_by_slot := dict_set k n (sv_by_slot s)\<rparr>"
  have v: "st s2 m = (if m = n then Conn_Open else st s m)" "slot_of s2 m = slot_of s m" "gen s2 m = gen s m"
    "cn_move_error (conn_of s2 m) = cn_move_error (conn_of s m)" for m
    using op by (auto simp: s2_def move_def)
  have regs: "set (sv_connections s2) = insert n (set (sv_connections s))" "sv_pending s2 = sv_pending s"
    "sv_tickets s2 = sv_tickets s" "sv_numbers s2 = sv_numbers s"
    "dict_get (sv_by_slot s2) j = (if j = k then Some n else dict_get (sv_by_slot s) j)" for j
    by (auto simp: s2_def dict_get_set)
  have "conns_ok s2"
    using ok op k free by (auto simp: base_ok_def conns_ok_def v regs)
  moreover have "n < sv_numbers s"
    using ok op by (auto simp: base_ok_def keys_ok_def not_le [symmetric])
  then have "keys_ok s2" using ok by (auto simp: base_ok_def keys_ok_def v regs)
  moreover have "pend_ok s2"
    using ok op by (auto simp: base_ok_def pend_ok_def v regs)
  ultimately have "base_ok s2" by (simp add: base_ok_def)
  moreover have "base_ok (on_conn (\<lambda>c. move c Conn_Closing) n (discard_opening n s))"
    "base_ok (on_conn (\<lambda>c. move c Conn_Closing) n (refuse_session n x (discard_opening n s)))" for x
    using ok op view_fields(1) [OF view_simps(5) [of n x "discard_opening n s"], of n]
    by (auto intro!: moved_base_ok)
  ultimately show ?thesis
    using k by (simp add: open_end_def Let_def s2_def)
qed

lemma base_ok_regenerate:
  assumes ok: "base_ok s" and "\<And>p. p \<in> set (sv_pending s) \<Longrightarrow> pn_connection p = n \<Longrightarrow> pn_detached p"
  shows "base_ok (on_conn (\<lambda>c. c\<lparr>cn_generation := g, cn_session_id := x\<rparr>) n s)"
proof -
  define s' where "s' = on_conn (\<lambda>c. c\<lparr>cn_generation := g, cn_session_id := x\<rparr>) n s"
  have v: "st s' m = st s m" "slot_of s' m = slot_of s m" "m \<noteq> n \<Longrightarrow> gen s' m = gen s m"
    "cn_move_error (conn_of s' m) = cn_move_error (conn_of s m)" for m
    by (simp_all add: s'_def)
  have regs: "sv_connections s' = sv_connections s" "sv_by_slot s' = sv_by_slot s" "sv_pending s' = sv_pending s"
    "sv_tickets s' = sv_tickets s" "sv_numbers s' = sv_numbers s"
    by (simp_all add: s'_def)
  have "gen s' (pn_connection p) = gen s (pn_connection p)" if "p \<in> set (sv_pending s)" "\<not> pn_detached p" for p
    using assms(2) [OF that(1)] that(2) v(3) by blast
  with ok have "base_ok s'"
    by (simp add: base_ok_def conns_ok_def keys_ok_def pend_ok_def v(1,2,4) regs)
  then show ?thesis by (simp add: s'_def)
qed

lemma view_answer_all [simp]: "view (answer_all n e rs s) = view s" "base_ok (answer_all n e rs s) = base_ok s"
  unfolding answer_all_def by (induction rs arbitrary: s) simp_all

lemma reset_begin_ok:
  assumes ok: "base_ok s" and plain: "list_all plain_item (sv_work s)"
  shows "base_ok (reset_begin n r sid s)" and "head_work_ok (reset_begin n r sid s)"
proof -
  have "base_ok (reset_begin n r sid s) \<and> head_work_ok (reset_begin n r sid s)"
  proof (cases "slot_of s n = None \<or> st s n \<noteq> Conn_Open")
    case True
    with ok plain show ?thesis
      by (auto simp: reset_begin_def intro!: head_work_ok_plain split: option.split)
  next
    case False
    then obtain k where k: "slot_of s n = Some k" "st s n = Conn_Open" by auto
    define dropped where "dropped = snd (drop_connection (sv_policy s) n) @ map pn_waiting (filter (\<lambda>p. \<not> pn_answered p)
        (filter (\<lambda>p. pn_connection p = n \<and> \<not> pn_detached p \<and> pn_future p) (sv_pending s)))"
    define s1 where "s1 = s\<lparr>sv_policy := fst (drop_connection (sv_policy s) n), sv_pending := map (detach n) (sv_pending s)\<rparr>"
    define s2 where "s2 = answer_all n (StepExpired ''the session reset'') dropped s1"
    define s4 where "s4 = on_conn (\<lambda>c. c\<lparr>cn_generation := snd (next_generation k s2), cn_session_id := sid\<rparr>) n
        (fst (next_generation k s2))"
    have "base_ok (s\<lparr>sv_pending := map (detach n) (sv_pending s)\<rparr>)"
      by (rule base_ok_map [OF ok]) simp
    then have "base_ok s1"
      unfolding s1_def by (rule base_ok_same [THEN iffD1, rotated -1]) simp_all
    then have "base_ok s2" by (simp add: s2_def)
    moreover have pend: "sv_pending s2 = map (detach n) (sv_pending s)" by (simp add: s2_def s1_def)
    moreover have "pn_detached p" if "p \<in> set (sv_pending s2)" "pn_connection p = n" for p
      using detached_all [of n "sv_pending s"] that unfolding pend list_all_iff by blast
    ultimately have "base_ok s4"
      unfolding s4_def by (intro base_ok_regenerate) simp_all
    moreover have "view s2 = view s" by (simp add: s2_def s1_def)
    then have "st s4 n = Conn_Open" using k(2) view_fields(1) [of s2 s n] by (simp add: s4_def)
    then have "head_work_ok (s4\<lparr>sv_work := WResetOpened n r # sv_work s4\<rparr>)"
      using plain by (simp add: head_work_ok_def s4_def s2_def s1_def)
    moreover have "reset_begin n r sid s = s4\<lparr>sv_work := WResetOpened n r # sv_work s4\<rparr>"
      using k by (simp add: reset_begin_def Let_def split_beta drop_pending_def s4_def s2_def s1_def dropped_def)
    ultimately show ?thesis by simp
  qed
  then show "base_ok (reset_begin n r sid s)" and "head_work_ok (reset_begin n r sid s)" by simp_all
qed

lemma reset_end_ok:
  assumes ok: "base_ok s" and op: "st s n = Conn_Open"
  shows "base_ok (reset_end n r raised s)"
proof (cases raised)
  case True
  define u where "u = answer n (Failed r (ModelServerRejected ''session_opened() refused the reset'')) (reset_answered n s)"
  have u: "base_ok u" "st u n = Conn_Open" using ok op by (simp_all add: u_def)
  have slots: "sv_by_slot (forget n (discard_opening n u)) = sv_by_slot (forget n u)"
    by (simp add: forget_def drop_pending_def Let_def split: option.split)
  have "base_ok (on_conn close_connection n (on_conn (\<lambda>c. move c Conn_Closed) n (forget n u))) = base_ok (leave n u)"
    using u(2) slots by (intro base_ok_same) (auto simp: fun_eq_iff view_def conn_of_leave leave_def Let_def)
  with True base_ok_leave [OF u(1)] show ?thesis
    by (simp add: reset_end_def u_def)
next
  case False
  have "view (on_conn (\<lambda>c. move c Conn_Open) n s) = view s"
    using op by (auto simp: fun_eq_iff view_def move_def)
  then have "base_ok (on_conn (\<lambda>c. move c Conn_Open) n s) = base_ok s"
    by (intro base_ok_same) simp_all
  with False ok show ?thesis by (simp add: reset_end_def Let_def)
qed

lemma run_begin_ok:
  assumes ok: "base_ok s" and fut: "settled {} s" and plain: "list_all plain_item (sv_work s)"
  shows "base_ok (run_begin batch now s)" and "future_ok (run_begin batch now s)" and "head_work_ok (run_begin batch now s)"
proof -
  define live where "live = filter (\<lambda>r. wt_connection r \<in> set (sv_connections s)) batch"
  define ts where "ts = map (\<lambda>i. sv_tickets s + int i) [0..<length live]"
  define new where "new = map (new_pending s now) (zip ts live)"
  have tick: "map pn_ticket new = ts"
    by (simp add: new_def ts_def new_pending_def comp_def)
  have ts: "distinct ts" "\<And>x. x \<in> set ts \<Longrightarrow> sv_tickets s \<le> x \<and> x < sv_tickets s + int (length live)"
    by (auto simp: ts_def distinct_map inj_on_def)
  have new: "pn_ticket p \<in> set ts" "st s (pn_connection p) = Conn_Open" "gen s (pn_connection p) = pn_generation p"
    if "p \<in> set new" for p
    using that ok tick by (auto simp: new_def new_pending_def live_def base_ok_def conns_ok_def dest: set_zip_leftD set_zip_rightD)
  have old: "pn_ticket p \<notin> set ts" if "p \<in> set (sv_pending s)" for p
    using that ok ts(2) by (fastforce simp: base_ok_def pend_ok_def)
  define s' where "s' = s\<lparr>sv_tickets := sv_tickets s + int (length live), sv_pending := sv_pending s @ new,
      sv_work := WStepped ts # sv_work s\<rparr>"
  have "conns_ok s'" "keys_ok s'"
    using ok by (simp_all add: base_ok_def s'_def conns_ok_def keys_ok_def)
  moreover have "pend_ok s'"
    using ok ts old new by (fastforce simp: base_ok_def pend_ok_def s'_def tick distinct_append)
  ultimately have "base_ok s'" by (simp add: base_ok_def)
  moreover have "future_ok s'"
    using fut new(1) by (auto simp: future_ok_def settled_def s'_def)
  moreover have "head_work_ok s'" using plain by (simp add: head_work_ok_def s'_def)
  moreover have "future_ok s" using fut by (simp add: future_ok_def settled_def)
  ultimately show "base_ok (run_begin batch now s)" and "future_ok (run_begin batch now s)"
    and "head_work_ok (run_begin batch now s)"
    using ok plain head_work_ok_plain [of s]
    by (auto simp: run_begin_def Let_def live_def [symmetric] ts_def [symmetric] new_def [symmetric] s'_def [symmetric]
        future_ok_def head_work_ok_plain)
qed

lemma refuse_ok: "base_ok s \<Longrightarrow> base_ok (refuse_while_stopping e s)"
  by (cases e) (simp_all add: refuse_while_stopping_def base_ok_leave)

lemma pending_kept:
  "settled {} s \<Longrightarrow> settled {} (leave n s)" "settled {} s \<Longrightarrow> settled {} (open_begin n s)"
  "settled {} s \<Longrightarrow> settled {} (open_end n raised s)" "settled {} s \<Longrightarrow> settled {} (reset_begin n r sid s)"
  "settled {} s \<Longrightarrow> settled {} (reset_end n r raised s)" "settled {} s \<Longrightarrow> settled {} (refuse_while_stopping e s)"
proof -
  show leave: "settled {} s \<Longrightarrow> settled {} (leave n s)" for n and s :: "('a, 'b) server"
    by (auto simp: settled_def leave_registers)
  show "settled {} s \<Longrightarrow> settled {} (open_begin n s)"
    using leave [of s] by (auto simp: open_begin_def Let_def split_beta settled_def split: option.split)
  show "settled {} s \<Longrightarrow> settled {} (open_end n raised s)"
    by (auto simp: open_end_def Let_def settled_def split: option.split)
  show "settled {} s \<Longrightarrow> settled {} (reset_begin n r sid s)"
    by (auto simp: reset_begin_def Let_def split_beta drop_pending_def settled_def split: option.split)
  show "settled {} s \<Longrightarrow> settled {} (reset_end n r raised s)"
    by (auto simp: reset_end_def Let_def settled_def)
  show "settled {} s \<Longrightarrow> settled {} (refuse_while_stopping e s)"
    using leave [of s] by (cases e) (auto simp: refuse_while_stopping_def settled_def)
qed

lemma future_ok_settled: "settled {} s \<Longrightarrow> future_ok s" "future_ok s \<Longrightarrow> running_tickets (sv_work s) = {} \<Longrightarrow> settled {} s"
  by (auto simp: settled_def future_ok_def)

lemma reset_end_work [simp]: "sv_work (reset_end n r raised s) = sv_work s"
  by (simp add: reset_end_def Let_def)

lemma open_end_work [simp]: "sv_work (open_end n raised s) = sv_work s"
  by (auto simp: open_end_def Let_def split: option.split)

lemma do_work_ok:
  assumes ok: "base_ok s" and fut: "settled (running_tickets (w # ws)) s" and plain: "list_all plain_item (sv_work s)"
    and head: "head_ok s w"
  shows "base_ok (do_work w mo now s) \<and> future_ok (do_work w mo now s) \<and> head_work_ok (do_work w mo now s)"
proof (cases w)
  case (WEvent e)
  with assms show ?thesis
    by (cases e) (auto simp: apply_event_def base_ok_open_begin reset_begin_ok base_ok_leave pending_kept
        intro!: future_ok_settled(1) head_work_ok_plain)
next
  case (WStepped ts)
  with assms have "settled {} (run_end ts (mo_result mo) now s)" by (simp add: settled_run_end)
  with WStepped assms show ?thesis
    by (simp add: base_ok_run_end future_ok_settled head_work_ok_plain)
next
  case (WRun batch)
  with assms show ?thesis by (simp add: run_begin_ok)
next
  case (WOpened n)
  with assms show ?thesis
    by (simp add: base_ok_open_end pending_kept future_ok_settled head_work_ok_plain)
next
  case (WResetOpened n r)
  with assms show ?thesis
    by (simp add: reset_end_ok pending_kept future_ok_settled head_work_ok_plain)
next
  case (WRefuse e)
  with assms show ?thesis
    by (simp add: refuse_ok pending_kept future_ok_settled head_work_ok_plain)
qed (use assms in \<open>auto simp: post_to_def settled_def intro!: future_ok_settled(1) head_work_ok_plain\<close>)

lemma sess_ok_next_work: "sess_ok s \<Longrightarrow> sess_ok (next_work mo now s)"
proof (cases "sv_work s")
  case (Cons w ws)
  assume ok: "sess_ok s"
  let ?s0 = "s\<lparr>sv_work := ws\<rparr>"
  have "base_ok ?s0" "list_all plain_item (sv_work ?s0)" "sv_step_thread s"
    using ok Cons by (auto simp: sess_ok_def head_work_ok_def)
  moreover have "settled (running_tickets (w # ws)) ?s0"
    using ok Cons by (simp add: sess_ok_def future_ok_def settled_def)
  moreover have "head_ok ?s0 w"
    using ok Cons head_ok_same [of ?s0 s w] by (simp add: sess_ok_def head_work_ok_def)
  ultimately have "base_ok (do_work w mo now ?s0) \<and> future_ok (do_work w mo now ?s0) \<and> head_work_ok (do_work w mo now ?s0)"
    using do_work_ok [of ?s0 w ws mo now] by blast
  with Cons \<open>sv_step_thread s\<close> show ?thesis by (simp add: next_work_def sess_ok_def)
qed (simp add: next_work_def)

section \<open>Every step keeps the sessions\<close>

lemma take_work_sess: "sess_ok s \<Longrightarrow> sess_ok (take_work now s)"
proof (cases "\<not> sv_step_thread s \<or> sv_work s \<noteq> [] \<or> sv_state s = Stopped \<or> sv_state s = Draining \<and>
    ((case sv_drain_deadline s of None \<Rightarrow> True | Some d \<Rightarrow> d \<le> now) \<or> \<not> list_ex awaited (sv_pending s))")
  case True
  assume "sess_ok s"
  with True show ?thesis
    by (auto simp: take_work_def sess_ok_def future_ok_def head_work_ok_def)
next
  case False
  assume ok: "sess_ok s"
  define s2 where "s2 = (fst (expire_running now s))\<lparr>sv_events := []\<rparr>"
  have "base_ok (fst (expire_running now s))"
    using ok unfolding expire_running_def Let_def fst_conv sess_ok_def by (auto intro!: base_ok_map)
  then have s2: "base_ok s2" by (simp add: s2_def)
  have "settled {} s" using ok False by (auto simp: sess_ok_def intro: future_ok_settled(2))
  then have "settled {} s2" by (auto simp: settled_def s2_def expire_running_def Let_def)
  then have fut: "future_ok (s2\<lparr>sv_policy := p, sv_work := ws\<rparr>)" "future_ok (s2\<lparr>sv_work := ws\<rparr>)" for p ws
    by (auto simp: future_ok_def settled_def)
  have plain: "list_all plain_item (map WOverdue (snd (expire_running now s)) @ map WRefuse es)"
    "list_all plain_item (map WOverdue (snd (expire_running now s)) @ map WEvent es)"
    "list_all plain_item (map WOverdue (snd (expire_running now s)) @ map WExpired xs @ (if b = [] then [] else [WRun b]))"
    for es xs b
    by (auto simp: list_all_iff)
  have th: "sv_step_thread s2" using False by (simp add: s2_def)
  show ?thesis
    using False s2 fut plain th
    by (auto simp: take_work_def split_beta Let_def s2_def [symmetric] sess_ok_def intro!: head_work_ok_plain)
qed

lemma close_opening_ok: "base_ok s \<Longrightarrow> base_ok (close_opening n s)"
  by (auto simp: close_opening_def intro!: moved_base_ok)

lemma answer_in_flight_sess:
  assumes "base_ok s" and "sv_work s = []"
  shows "base_ok (answer_in_flight s)" and "settled {} (answer_in_flight s)"
proof -
  obtain policy dropped where d: "drop_all (sv_policy s) (sv_connections s) = (policy, dropped)" by fastforce
  define s2 where "s2 = s\<lparr>sv_events := [], sv_pending := [], sv_opening := [],
      sv_policy := finished policy (map pn_connection (filter (\<lambda>p. \<not> pn_detached p) (sv_pending s)))\<rparr>"
  have "base_ok (s\<lparr>sv_pending := []\<rparr>)" by (rule base_ok_pending [OF assms(1)]) simp_all
  then have "base_ok s2"
    unfolding s2_def by (rule base_ok_same [THEN iffD1, rotated -1]) simp_all
  define ok where "ok u \<longleftrightarrow> base_ok u \<and> settled {} u" for u :: "('a, 'b) server"
  have ok2: "ok s2" using \<open>base_ok s2\<close> by (simp add: ok_def) (simp add: s2_def settled_def)
  have ans: "settled {} (answer n m u) = settled {} u" "settled {} (answer_all n e rs u) = settled {} u"
    "settled {} (close_opening n u) = settled {} u" for n m e rs and u :: "('a, 'b) server"
    by (simp_all add: settled_def close_opening_def)
  have "ok (foldl (\<lambda>s p. if awaited p
      then answer (pn_connection p) (Failed (wt_request_id (pn_waiting p)) ModelServerStopping) s else s) s2 (sv_pending s))"
    by (rule foldl_keeps [where P = ok, OF _ ok2]) (simp add: ok_def ans)
  then have "ok (foldl (\<lambda>s e. refuse_while_stopping e s) (foldl (\<lambda>s p. if awaited p
      then answer (pn_connection p) (Failed (wt_request_id (pn_waiting p)) ModelServerStopping) s else s) s2 (sv_pending s))
      (sv_events s))" (is "ok ?s4")
    by (rule foldl_keeps [where P = ok, rotated]) (simp add: ok_def refuse_ok pending_kept)
  then have "ok (foldl (\<lambda>s nr. answer_all (fst nr) ModelServerStopping (snd nr) s) ?s4 dropped)" (is "ok ?s5")
    by (rule foldl_keeps [where P = ok, rotated]) (simp add: ok_def ans)
  then have "ok (foldl (\<lambda>s n. close_opening n s) ?s5 (sv_opening s))"
    by (rule foldl_keeps [where P = ok, rotated]) (simp add: ok_def ans close_opening_ok)
  then have "ok (answer_in_flight s)"
    using d by (simp add: answer_in_flight_def Let_def s2_def)
  then show "base_ok (answer_in_flight s)" and "settled {} (answer_in_flight s)" by (simp_all add: ok_def)
qed

lemma answer_in_flight_work:
  "sv_work (answer_in_flight s) = sv_work s"
proof -
  have fold: "sv_work (foldl (\<lambda>s p. if awaited p
      then answer (pn_connection p) (Failed (wt_request_id (pn_waiting p)) ModelServerStopping) s else s) u ps) = sv_work u"
    "sv_work (foldl (\<lambda>s e. refuse_while_stopping e s) u es) = sv_work u"
    "sv_work (foldl (\<lambda>s nr. answer_all (fst nr) ModelServerStopping (snd nr) s) u ds) = sv_work u"
    "sv_work (foldl (\<lambda>s n. close_opening n s) u ns) = sv_work u"
    for u :: "('a, 'b) server" and ps es ds ns
    by (rule foldl_field; simp)+
  then show ?thesis by (simp add: answer_in_flight_def Let_def split_beta fold)
qed

lemma sess_ok_idle:
  "base_ok s \<Longrightarrow> settled {} s \<Longrightarrow> sv_work s = [] \<Longrightarrow> sess_ok s"
  by (simp add: sess_ok_def future_ok_settled head_work_ok_plain)

lemma sess_ok_same:
  assumes "view s' = view s" and "sv_connections s' = sv_connections s" and "sv_by_slot s' = sv_by_slot s"
    and "sv_pending s' = sv_pending s" and "sv_tickets s' = sv_tickets s" and "sv_numbers s' = sv_numbers s"
    and "sv_work s' = sv_work s" and "sv_step_thread s' = sv_step_thread s"
  shows "sess_ok s' = sess_ok s"
  using assms(4,7,8) base_ok_same [OF assms(1-6)] head_work_ok_same [OF assms(1,7)]
  by (simp add: sess_ok_def future_ok_def)

lemma read_hello_sess:
  assumes ok: "sess_ok s" and "accepted s n" and conn: "st s n = Conn_Connecting"
  shows "sess_ok (read_hello n h s)"
proof -
  have known: "n < sv_numbers s" using assms(2) by (simp add: accepted_def)
  have slot: "sess_ok (on_conn (\<lambda>c. c\<lparr>cn_slot := Some k\<rparr>) n s)"
    and opened: "sess_ok (on_conn (\<lambda>c. move c Conn_Opening) n (on_conn (\<lambda>c. c\<lparr>cn_slot := Some k\<rparr>) n s))" for k
  proof -
    define s1 where "s1 = on_conn (\<lambda>c. c\<lparr>cn_slot := Some k\<rparr>) n s"
    define s' where "s' = on_conn (\<lambda>c. move c Conn_Opening) n s1"
    have v1: "st s1 m = st s m" "m \<noteq> n \<Longrightarrow> slot_of s1 m = slot_of s m" "gen s1 m = gen s m"
      "cn_move_error (conn_of s1 m) = cn_move_error (conn_of s m)" for m
      by (simp_all add: s1_def)
    have v2: "st s' m = (if m = n then Conn_Opening else st s m)" "m \<noteq> n \<Longrightarrow> slot_of s' m = slot_of s m"
      "slot_of s' n = Some k" "gen s' m = gen s m" "cn_move_error (conn_of s' m) = cn_move_error (conn_of s m)" for m
      using conn by (auto simp: s'_def s1_def move_def)
    have regs: "sv_connections s1 = sv_connections s" "sv_by_slot s1 = sv_by_slot s" "sv_pending s1 = sv_pending s"
      "sv_tickets s1 = sv_tickets s" "sv_numbers s1 = sv_numbers s" "sv_work s1 = sv_work s" "sv_step_thread s1 = sv_step_thread s"
      "sv_connections s' = sv_connections s" "sv_by_slot s' = sv_by_slot s" "sv_pending s' = sv_pending s"
      "sv_tickets s' = sv_tickets s" "sv_numbers s' = sv_numbers s" "sv_work s' = sv_work s" "sv_step_thread s' = sv_step_thread s"
      by (simp_all add: s'_def s1_def)
    have conns: "conns_ok s" and keys: "keys_ok s" and pend: "pend_ok s" and fut: "future_ok s" and hd: "head_work_ok s"
      using ok by (auto simp: sess_ok_def base_ok_def)
    have open_slot: "st s m = Conn_Open \<Longrightarrow> slot_of s1 m = slot_of s m \<and> slot_of s' m = slot_of s m"
      "st s m = Conn_Opening \<Longrightarrow> slot_of s1 m = slot_of s m \<and> slot_of s' m = slot_of s m" for m
      using conn v1(2) v2(2) by (cases "m = n"; simp)+
    have "conns_ok s1" "conns_ok s'"
      using conns conn open_slot by (auto simp: conns_ok_def v1(1,4) v2(1,3,5) regs)
    moreover have "keys_ok s1" "keys_ok s'"
      using keys known by (auto simp: keys_ok_def v1(1) v2(1) regs)
    moreover have "pend_ok s1" "pend_ok s'"
      using pend conn by (auto simp: pend_ok_def v1(1,3) v2(1,4) regs)
    moreover have "head_ok s1 w" "head_ok s' w" if "head_ok s w" for w
      using that conn open_slot by (cases w; auto simp: v1(1) v2(1,3))+
    then have "head_work_ok s1" "head_work_ok s'"
      using hd by (auto simp: head_work_ok_def regs split: list.split)
    ultimately show "sess_ok (on_conn (\<lambda>c. c\<lparr>cn_slot := Some k\<rparr>) n s)"
      "sess_ok (on_conn (\<lambda>c. move c Conn_Opening) n (on_conn (\<lambda>c. c\<lparr>cn_slot := Some k\<rparr>) n s))"
      using ok fut by (simp_all add: sess_ok_def base_ok_def future_ok_def regs s1_def [symmetric] s'_def [symmetric])
  qed
  have frame: "sess_ok (queue_event e u) = sess_ok u" "sess_ok (refuse_session n x u) = sess_ok u"
    "sess_ok (on_conn close_connection n u) = sess_ok u" for e x and u :: "('a, 'b) server"
    by (rule sess_ok_same; simp)+
  show ?thesis
    using ok slot opened by (auto simp: read_hello_def Let_def frame split: hello_message.split)
qed

lemma accept_sess: "sess_ok s \<Longrightarrow> sess_ok (accept s)"
proof -
  assume ok: "sess_ok s"
  define n where "n = sv_numbers s"
  define s1 where "s1 = s\<lparr>sv_numbers := n + 1, sv_conns := dict_set n (init_connection n DEFAULT_OUTBOX) (sv_conns s)\<rparr>"
  have conn: "conn_of s1 m = (if m = n then init_connection n DEFAULT_OUTBOX else conn_of s m)" for m
    by (simp add: conn_of_def s1_def dict_get_set)
  have was: "st s n \<noteq> Conn_Open" "st s n \<noteq> Conn_Opening"
    using ok by (auto simp: sess_ok_def base_ok_def keys_ok_def n_def)
  have v: "st s1 m = (if m = n then Conn_Connecting else st s m)" "m \<noteq> n \<Longrightarrow> slot_of s1 m = slot_of s m"
    "m \<noteq> n \<Longrightarrow> gen s1 m = gen s m" "cn_move_error (conn_of s1 m) = (if m = n then False else cn_move_error (conn_of s m))" for m
    by (simp_all add: conn init_connection_def)
  have regs: "sv_connections s1 = sv_connections s" "sv_by_slot s1 = sv_by_slot s" "sv_pending s1 = sv_pending s"
    "sv_tickets s1 = sv_tickets s" "sv_numbers s1 = n + 1" "sv_work s1 = sv_work s" "sv_step_thread s1 = sv_step_thread s"
    by (simp_all add: s1_def)
  have same: "st s m = Conn_Open \<Longrightarrow> slot_of s1 m = slot_of s m \<and> gen s1 m = gen s m"
    "st s m = Conn_Opening \<Longrightarrow> slot_of s1 m = slot_of s m" for m
    using was v(2,3) by (cases "m = n"; simp)+
  have conns: "conns_ok s" and keys: "keys_ok s" and pend: "pend_ok s" and fut: "future_ok s" and hd: "head_work_ok s"
    using ok by (auto simp: sess_ok_def base_ok_def)
  have "conns_ok s1" using conns was same by (auto simp: conns_ok_def v(1,4) regs)
  moreover have "keys_ok s1" using keys by (auto simp: keys_ok_def v(1) regs n_def)
  moreover have "pend_ok s1" using pend was same by (auto simp: pend_ok_def v(1) regs)
  moreover have "head_ok s1 w" if "head_ok s w" for w
    using that was same by (cases w) (auto simp: v(1))
  then have "head_work_ok s1" using hd by (auto simp: head_work_ok_def regs split: list.split)
  ultimately have s1: "sess_ok s1" using ok fut by (simp add: sess_ok_def base_ok_def future_ok_def regs)
  have "sess_ok (s1\<lparr>sv_opening := ns\<rparr>) = sess_ok s1" "sess_ok (on_conn close_connection n s1) = sess_ok s1" for ns
    by (rule sess_ok_same; simp)+
  with s1 show ?thesis by (simp add: accept_def Let_def n_def [symmetric] s1_def [symmetric])
qed

lemma dispatch_sess: "sess_ok s \<Longrightarrow> sess_ok (dispatch n m now s)"
proof (cases m)
  case (StepMsg r timeout payload)
  assume "sess_ok s"
  moreover have "sess_ok (answer n x s) = sess_ok s" "sess_ok (s\<lparr>sv_policy := p\<rparr>) = sess_ok s" for x p
    by (rule sess_ok_same; simp)+
  ultimately show ?thesis using StepMsg by (auto simp: take_step_def Let_def split: prod.split bool.split)
next
  case (CancelMsg r)
  assume ok: "sess_ok s"
  let ?s' = "s\<lparr>sv_pending := map (\<lambda>p. if runs_request n r p then p\<lparr>pn_answered := True\<rparr> else p) (sv_pending s)\<rparr>"
  have "base_ok ?s'" using ok by (auto simp: sess_ok_def intro!: base_ok_map)
  moreover have "future_ok ?s'" using ok by (auto simp: sess_ok_def future_ok_def)
  moreover have "head_work_ok ?s'" using ok head_work_ok_same [of ?s' s] by (simp add: sess_ok_def)
  ultimately have "sess_ok ?s'" using ok by (simp add: sess_ok_def)
  moreover have "sess_ok (s\<lparr>sv_policy := p\<rparr>) = sess_ok s" for p by (rule sess_ok_same) simp_all
  ultimately show ?thesis using CancelMsg ok by (auto simp: cancel_request_def split: prod.split bool.split)
next
  case (ResetMsg r sid)
  assume "sess_ok s"
  moreover have "sess_ok (answer n x s) = sess_ok s" "sess_ok (queue_event e (s\<lparr>sv_reset_pending := y\<rparr>)) = sess_ok s" for x e y
    by (rule sess_ok_same; simp)+
  ultimately show ?thesis using ResetMsg by (simp add: take_reset_def)
next
  case UnknownMsg
  assume "sess_ok s"
  moreover have "sess_ok (queue_event e s) = sess_ok s" for e by (rule sess_ok_same) simp_all
  ultimately show ?thesis using UnknownMsg by simp
qed simp

lemma resolve_sess: "sess_ok s \<Longrightarrow> sess_ok (resolve k out s)"
proof -
  assume ok: "sess_ok s"
  have "sess_ok (complete item m s)" for item m
    using ok base_ok_complete [of s item m] head_work_ok_same [OF view_complete, of item m s]
    by (simp add: sess_ok_def future_ok_def)
  with ok show ?thesis by (auto simp: resolve_def split: option.split)
qed

lemma sess_ok_step: "sess_ok s \<Longrightarrow> sess_ok (server_step s op)"
proof -
  assume ok: "sess_ok s"
  have frame: "sess_ok (queue_event e s)" "sess_ok (on_conn close_link n s)" "sess_ok (on_conn (write_step link) n s)"
    "sess_ok (s\<lparr>sv_state := x\<rparr>)" "sess_ok (s\<lparr>sv_state := x, sv_drain_deadline := d\<rparr>)" for e n link x d
    by (rule sess_ok_same [THEN iffD2]; (rule ok | simp))+
  show ?thesis
  proof (cases op)
    case (StopLeave n)
    have "sess_ok (leave n s)" if "sv_work s = []"
      using ok that base_ok_leave [of s n] pending_kept(1) [of s n] future_ok_settled(2) [of s]
      by (intro sess_ok_idle) (simp_all add: sess_ok_def)
    with StopLeave ok show ?thesis by (simp add: sess_ok_def)
  next
    case AnswerInFlight
    have "sess_ok (answer_in_flight s)" if "sv_work s = []"
      using ok that answer_in_flight_sess [of s] by (intro sess_ok_idle) (simp_all add: sess_ok_def answer_in_flight_work)
    with AnswerInFlight ok show ?thesis by (simp add: sess_ok_def)
  next
    case (StepLoopFault reason)
    define u where "u = s\<lparr>sv_broken := Some reason, sv_step_thread := False, sv_work := []\<rparr>"
    have "base_ok u" "sv_work u = []" "base_ok (u\<lparr>sv_state := x\<rparr>)" for x using ok by (simp_all add: u_def sess_ok_def)
    then have "sess_ok (answer_in_flight u)" "sess_ok (answer_in_flight (u\<lparr>sv_state := x\<rparr>))" for x
      using answer_in_flight_work [of u] answer_in_flight_work [of "u\<lparr>sv_state := x\<rparr>"]
      by (auto intro!: sess_ok_idle answer_in_flight_sess)
    with StepLoopFault ok show ?thesis by (auto simp: step_loop_fault_def server_move_def Let_def u_def)
  qed (auto simp: ok frame accept_sess read_hello_sess dispatch_sess resolve_sess take_work_sess sess_ok_next_work
      hello_expired_def begin_drain_def begin_stop_def server_move_def)
qed

interpretation server_sessions: step_invariant server_step sess_ok
  by unfold_locales (rule sess_ok_step)

lemma init_sess_ok: "sess_ok (init_server mb w ms sa dt)"
  by (auto simp: sess_ok_def base_ok_def conns_ok_def keys_ok_def pend_ok_def future_ok_def head_work_ok_def init_server_def
      conn_of_def init_connection_def)

lemma run_sess_ok: "sess_ok (foldl server_step (init_server mb w ms sa dt) ops)"
  by (rule server_sessions.run_keeps) (rule init_sess_ok)

text \<open>
  C30. Slots and states: over any interleaving the slot table holds exactly the open connections,
  each under the slot it has and under no other, so every open connection has a slot, no two of
  them share one and nothing of a connection that left stays behind; the registered connections
  are the same ones; and no connection is ever asked for a move its sequence of states does not
  allow, so \<open>ConnectionMoveError\<close> is never raised.
\<close>

theorem one_session_per_slot:
  "let s = foldl server_step (init_server mb w ms sa dt) ops in
   (\<forall>k n. dict_get (sv_by_slot s) k = Some n \<longleftrightarrow> cn_state (conn_of s n) = Conn_Open \<and> cn_slot (conn_of s n) = Some k) \<and>
   {n. cn_state (conn_of s n) = Conn_Open \<and> cn_slot (conn_of s n) = None} = {} \<and>
   set (sv_connections s) = {n. cn_state (conn_of s n) = Conn_Open} \<and>
   {n. cn_move_error (conn_of s n)} = {}"
proof -
  define s where "s = foldl server_step (init_server mb w ms sa dt) ops"
  have ok: "conns_ok s" using run_sess_ok [of mb w ms sa dt ops] by (simp add: s_def sess_ok_def base_ok_def)
  have "{n. st s n = Conn_Open \<and> slot_of s n = None} = {}"
    using ok unfolding conns_ok_def by fastforce
  then show ?thesis
    using ok unfolding conns_ok_def Let_def s_def [symmetric] by blast
qed

section \<open>No request of an open session is lost\<close>

lemma books_leave_other: "n \<noteq> c \<Longrightarrow> books c rid (leave n s) = books c rid s"
  by (simp add: books_defs leave_registers leave_def Let_def drop_connection_def dropped_waiting dropped_running(1))

lemma left_not_open: "st (leave n s) c = Conn_Open \<Longrightarrow> n \<noteq> c \<and> st s c = Conn_Open"
  by (auto simp: leave_view split: if_splits)

lemma w_pending_remove_eq:
  "distinct (map pn_ticket ps) \<Longrightarrow> item \<in> set ps \<Longrightarrow>
   w_pending c rid (filter (\<lambda>p. pn_ticket p \<noteq> pn_ticket item) ps) + (if is_request c rid item \<and> awaited item then 1 else 0) =
     w_pending c rid ps"
proof (induction ps)
  case (Cons p ps)
  show ?case
  proof (cases "p = item")
    case True
    then have "filter (\<lambda>p. pn_ticket p \<noteq> pn_ticket item) ps = ps"
      using Cons.prems(1) by (auto simp: filter_id_conv) (metis imageI)
    with True show ?thesis by (simp add: w_Cons)
  next
    case False
    with Cons.prems have "item \<in> set ps" "pn_ticket p \<noteq> pn_ticket item" by auto
    with Cons show ?thesis by (simp add: w_Cons)
  qed
qed simp

lemma complete_eq:
  assumes ok: "base_ok s" and "item \<in> set (sv_pending s)" and m: "answers_request m = Some (wt_request_id (pn_waiting item))"
  shows "books c rid (complete item m s) = books c rid s"
proof -
  have "distinct (map pn_ticket (sv_pending s))" using ok by (simp add: base_ok_def pend_ok_def)
  note rem = w_pending_remove_eq [OF this assms(2), of c rid]
  have "st s (pn_connection item) = Conn_Open \<and> gen s (pn_connection item) = pn_generation item \<and>
      pn_connection item \<in> set (sv_connections s)" if "awaited item"
    using ok assms(2) that by (auto simp: base_ok_def pend_ok_def conns_ok_def awaited_def)
  then show ?thesis
    using rem m by (cases "awaited item") (auto simp: books_defs complete_answers w_Cons is_request_def)
qed

lemma finish_one_eq:
  assumes "base_ok s" and "\<And>item. answers_request (message item) = Some (wt_request_id (pn_waiting item))"
  shows "books c rid (finish_one message k s) = books c rid s"
  using complete_eq [OF assms(1)] assms(2) by (auto simp: finish_one_def split: option.split dest!: find_pending_Some)

lemma finish_output_eq: "base_ok s \<Longrightarrow> books c rid (finish_output now s tout) = books c rid s"
  by (auto simp: finish_output_def books_start_future finish_one_eq split: model_output.split)

lemma foldl_eq:
  assumes "\<And>s x. base_ok s \<Longrightarrow> base_ok (f s x)" and "\<And>s x. base_ok s \<Longrightarrow> books c rid (f s x) = books c rid s"
  shows "base_ok s \<Longrightarrow> books c rid (foldl f s xs) = books c rid s"
  by (induction xs arbitrary: s) (simp_all add: assms)

lemma run_end_eq: "base_ok s \<Longrightarrow> books c rid (run_end ts res now s) = books c rid s"
  by (auto simp: run_end_def Let_def split: step_result.split
      intro!: foldl_eq base_ok_finish_one finish_one_eq base_ok_finish_output finish_output_eq)

lemma w_waiting_keeps:
  "(\<And>w. w \<in> set ws \<Longrightarrow> wt_connection w = c \<Longrightarrow> P w) \<Longrightarrow> w_waiting c rid (filter P ws) = w_waiting c rid ws"
  by (induction ws) (auto simp: w_Cons)

lemma run_begin_eq:
  "c \<in> set (sv_connections s) \<Longrightarrow> books c rid (run_begin batch now s) = books c rid s + w_waiting c rid batch"
  using w_waiting_keeps [of batch c "\<lambda>r. wt_connection r \<in> set (sv_connections s)" rid]
  by (auto simp: run_begin_def Let_def books_defs w_pending_new finished_def)

lemma dropped_running_eq:
  "(\<And>p. p \<in> set ps \<Longrightarrow> pn_future p) \<Longrightarrow>
   rid_count rid (map pn_waiting (filter (\<lambda>p. \<not> pn_answered p)
     (filter (\<lambda>p. pn_connection p = c \<and> \<not> pn_detached p \<and> pn_future p) ps))) = w_pending c rid ps"
  by (induction ps) (auto simp: w_Cons is_request_def awaited_def rid_count_def)

lemma reset_begin_eq:
  assumes ok: "base_ok s" and fut: "settled {} s" and op: "st s c = Conn_Open"
  shows "books c rid (reset_begin n r sid s) = books c rid s + hit c rid n r"
proof (cases "slot_of s n = None \<or> st s n \<noteq> Conn_Open")
  case True
  have "slot_of s c \<noteq> None" using ok op by (auto simp: base_ok_def conns_ok_def)
  with True op have "n \<noteq> c" by auto
  with True show ?thesis by (auto simp: reset_begin_def hit_def split: option.split)
next
  case False
  have "books c rid (answer_all n e (filter (\<lambda>w. wt_connection w = n) (bp_waiting (sv_policy s)) @
        map pn_waiting (filter (\<lambda>p. \<not> pn_answered p)
          (filter (\<lambda>p. pn_connection p = n \<and> \<not> pn_detached p \<and> pn_future p) (sv_pending s))))
      (s\<lparr>sv_policy := fst (drop_connection (sv_policy s) n), sv_pending := map (detach n) (sv_pending s)\<rparr>)) = books c rid s" for e
    unfolding books_answer_all using dropped_running_eq [of "sv_pending s" rid c] fut
    by (auto simp: books_defs drop_connection_def dropped_waiting dropped_running(1) rid_count_append settled_def
        simp del: filter_filter)
  with False show ?thesis
    by (auto simp: reset_begin_def Let_def split_beta drop_pending_def drop_connection_def books_work(2) simp del: filter_filter)
qed

lemma reset_end_eq:
  assumes "st (reset_end n r raised s) c = Conn_Open"
  shows "books c rid (reset_end n r raised s) = books c rid s + hit c rid n r"
proof (cases "raised \<and> n = c")
  case True
  with assms have False by (auto simp: reset_end_def move_def split: if_splits)
  then show ?thesis ..
next
  case False
  then show ?thesis
    by (auto simp: reset_end_def Let_def)
      (simp add: books_defs drop_connection_def dropped_waiting dropped_running(1) w_Cons hit_def)
qed

lemma refuse_eq:
  assumes "st (refuse_while_stopping e s) c = Conn_Open"
  shows "books c rid (refuse_while_stopping e s) = books c rid s + w_event c rid e" and "st s c = Conn_Open"
  using assms left_not_open [of _ s c] by (cases e; auto simp: refuse_while_stopping_def books_leave_other)+

lemma open_begin_eq:
  assumes "st (open_begin n s) c = Conn_Open"
  shows "books c rid (open_begin n s) = books c rid s"
proof (cases "slot_of s n = None \<or> st s n \<noteq> Conn_Opening")
  case True
  then show ?thesis by (auto simp: open_begin_def split: option.split)
next
  case False
  then obtain k where k: "slot_of s n = Some k" "st s n = Conn_Opening" by auto
  define s1 where "s1 = (case dict_get (sv_by_slot s) k of Some held \<Rightarrow> if held \<noteq> n then leave held s else s | None \<Rightarrow> s)"
  have "st s1 c = Conn_Open"
    using assms k by (auto simp: open_begin_def Let_def split_beta s1_def split: if_splits)
  then have "books c rid s1 = books c rid s"
    using left_not_open [of _ s c] by (auto simp: s1_def books_leave_other split: option.splits if_splits)
  with k show ?thesis
    by (simp add: open_begin_def Let_def split_beta s1_def [symmetric] books_work(2))
qed

lemma do_work_eq:
  assumes ok: "base_ok s" and fut: "settled (running_tickets (w # ws)) s" and op: "st s c = Conn_Open"
    and op': "st (do_work w mo now s) c = Conn_Open"
  shows "books c rid (do_work w mo now s) = books c rid s + w_item c rid w"
proof -
  have reg: "c \<in> set (sv_connections s)" using ok op by (auto simp: base_ok_def conns_ok_def)
  show ?thesis
  proof (cases w)
    case (WEvent e)
    with op' ok fut op show ?thesis
      using left_not_open [of _ s c]
      by (cases e) (auto simp: apply_event_def open_begin_eq books_leave_other reset_begin_eq)
  next
    case (WRefuse e)
    with op' refuse_eq [of e s c] show ?thesis by simp
  next
    case (WResetOpened n r)
    with op' reset_end_eq [of n r "mo_raised mo" s c] show ?thesis by simp
  next
    case (WRun batch)
    with reg run_begin_eq show ?thesis by simp
  next
    case (WStepped ts)
    with ok run_end_eq show ?thesis by simp
  next
    case (WExpired x)
    with reg show ?thesis by (auto simp: post_to_def w_Cons hit_def)
  qed (simp_all add: books_open_end is_request_def hit_def)
qed

lemma next_work_eq:
  assumes ok: "sess_ok s" and op: "st s c = Conn_Open" and op': "st (next_work mo now s) c = Conn_Open"
  shows "books c rid (next_work mo now s) = books c rid s"
proof (cases "sv_work s")
  case (Cons w ws)
  let ?s0 = "s\<lparr>sv_work := ws\<rparr>"
  have "base_ok ?s0" using ok by (simp add: sess_ok_def)
  moreover have "settled (running_tickets (w # ws)) ?s0"
    using ok Cons by (simp add: sess_ok_def future_ok_def settled_def)
  ultimately have "books c rid (do_work w mo now ?s0) = books c rid ?s0 + w_item c rid w"
    using op op' Cons by (intro do_work_eq) (simp_all add: next_work_def)
  with Cons books_work(1) [OF Cons, of c rid] show ?thesis by (simp add: next_work_def)
qed (simp add: next_work_def)

lemma refuse_all_eq:
  "st (foldl (\<lambda>s e. refuse_while_stopping e s) s es) c = Conn_Open \<Longrightarrow>
   books c rid (foldl (\<lambda>s e. refuse_while_stopping e s) s es) = books c rid s + w_events c rid es"
proof (induction es rule: rev_induct)
  case (snoc e es)
  let ?u = "foldl (\<lambda>s e. refuse_while_stopping e s) s es"
  have "st (refuse_while_stopping e ?u) c = Conn_Open" using snoc.prems by simp
  from refuse_eq [OF this] snoc.IH show ?case by (simp add: w_Cons)
qed simp

lemma later_views:
  "st (foldl (\<lambda>s nr. answer_all (fst nr) e (snd nr) s) s drs) c = st s c"
  "st (foldl (\<lambda>s n. close_opening n s) s ns) c = Conn_Open \<Longrightarrow> st s c = Conn_Open"
proof -
  show "st (foldl (\<lambda>s nr. answer_all (fst nr) e (snd nr) s) s drs) c = st s c"
  proof (induction drs arbitrary: s)
    case (Cons nr drs)
    then show ?case using view_fields(1) [OF view_answer_all(1) [of "fst nr" e "snd nr" s], of c] by simp
  qed simp
  show "st (foldl (\<lambda>s n. close_opening n s) s ns) c = Conn_Open \<Longrightarrow> st s c = Conn_Open"
  proof (induction ns arbitrary: s)
    case (Cons n ns)
    then have "st (close_opening n s) c = Conn_Open" by simp
    then show ?case by (auto simp: close_opening_def move_def split: if_splits)
  qed simp
qed

lemma answer_in_flight_eq:
  assumes "st (answer_in_flight s) c = Conn_Open"
  shows "books c rid (answer_in_flight s) = books c rid s"
proof -
  obtain policy dropped where d: "drop_all (sv_policy s) (sv_connections s) = (policy, dropped)" by fastforce
  define s2 where "s2 = s\<lparr>sv_events := [], sv_pending := [], sv_opening := [],
      sv_policy := finished policy (map pn_connection (filter (\<lambda>p. \<not> pn_detached p) (sv_pending s)))\<rparr>"
  define s3 where "s3 = foldl (\<lambda>s p. if awaited p
      then answer (pn_connection p) (Failed (wt_request_id (pn_waiting p)) ModelServerStopping) s else s) s2 (sv_pending s)"
  define s4 where "s4 = foldl (\<lambda>s e. refuse_while_stopping e s) s3 (sv_events s)"
  have whole: "answer_in_flight s = foldl (\<lambda>s n. close_opening n s)
      (foldl (\<lambda>s nr. answer_all (fst nr) ModelServerStopping (snd nr) s) s4 dropped) (sv_opening s)"
    using d by (simp add: answer_in_flight_def Let_def s2_def s3_def s4_def)
  have "st s4 c = Conn_Open"
    using assms later_views(2) [of "foldl (\<lambda>s nr. answer_all (fst nr) ModelServerStopping (snd nr) s) s4 dropped" "sv_opening s" c]
    by (simp add: whole later_views(1))
  then have "books c rid s4 = books c rid s3 + w_events c rid (sv_events s)"
    unfolding s4_def by (rule refuse_all_eq)
  moreover have "books c rid s2 + w_pending c rid (sv_pending s) + w_events c rid (sv_events s) + w_dropped c rid dropped =
      books c rid s"
    using drop_all_books [of c rid "sv_policy s" "sv_connections s"] d by (simp add: books_defs finished_def s2_def)
  ultimately show ?thesis
    by (simp add: whole books_close_opening books_answer_dropped s3_def books_answer_pending)
qed

lemma remove_first_other:
  "remove_first n r ws = Some vs \<Longrightarrow> n \<noteq> c \<or> r \<noteq> rid \<Longrightarrow> w_waiting c rid vs = w_waiting c rid ws"
  by (induction ws arbitrary: vs) (auto simp: w_Cons split: if_splits)

lemma known_open:
  assumes "sess_ok s" and "st s c = Conn_Open" and "1 \<le> c"
  shows "accepted s c"
  using assms by (auto simp: accepted_def sess_ok_def base_ok_def keys_ok_def not_le [symmetric])

lemma dispatch_eq:
  fixes s :: "('p, 'o) server"
  assumes "\<And>r. m = CancelMsg r \<Longrightarrow> n \<noteq> c \<or> r \<noteq> rid"
  shows "books c rid (dispatch n m now s) = books c rid s + asks c rid (Read n m now :: ('p, 'o) server_op)"
proof (cases m)
  case (StepMsg r timeout payload)
  then show ?thesis
    by (auto simp: take_step_def Let_def add_def split: prod.splits bool.splits)
      (auto simp: books_defs w_Cons hit_def)
next
  case (CancelMsg r)
  have "n \<noteq> c \<or> r \<noteq> rid" using assms CancelMsg by simp
  moreover from this have "w_pending c rid (map (\<lambda>p. if runs_request n r p then p\<lparr>pn_answered := True\<rparr> else p) ps) = w_pending c rid ps"
    for ps :: "'p pending list"
    by (induction ps) (auto simp: w_Cons awaited_def is_request_def runs_request_def)
  ultimately show ?thesis
    using CancelMsg remove_first_other [of n r "bp_waiting (sv_policy s)" _ c rid]
    by (auto simp: cancel_request_def cancel_def books_defs split: option.splits)
next
  case (ResetMsg r sid)
  then show ?thesis by (auto simp: take_reset_def) (auto simp: books_defs w_Cons)
qed simp_all

fun withdraws :: "int \<Rightarrow> int \<Rightarrow> ('p, 'o) server_op \<Rightarrow> bool" where
  "withdraws c rid (Read n (CancelMsg r) now) \<longleftrightarrow> n = c \<and> r = rid"
| "withdraws c rid (StepLoopFault reason) \<longleftrightarrow> True"
| "withdraws c rid _ \<longleftrightarrow> False"

lemma resolve_eq: "base_ok s \<Longrightarrow> books c rid (resolve k out s) = books c rid s"
  by (auto simp: resolve_def split: option.split dest!: find_pending_Some intro!: complete_eq)

lemma step_eq:
  assumes ok: "sess_ok s" and op: "st s c = Conn_Open" and op': "st (server_step s x) c = Conn_Open"
    and "\<not> withdraws c rid x" and "1 \<le> c"
  shows "books c rid (server_step s x) = books c rid s + asks c rid x"
proof (cases x)
  case (Read n m now)
  then have "\<And>r. m = CancelMsg r \<Longrightarrow> n \<noteq> c \<or> r \<noteq> rid" using assms(4) by auto
  from dispatch_eq [OF this, where now = now and s = s] show ?thesis
  proof (cases "accepted s n \<and> st s n \<noteq> Conn_Connecting")
    case False
    have "n \<noteq> c" if "\<not> accepted s n \<or> st s n = Conn_Connecting"
      using that op known_open [OF ok op \<open>1 \<le> c\<close>] by auto
    with False Read show ?thesis by (cases m) (auto simp: hit_def)
  qed (simp add: Read)
next
  case (DoWork mo now)
  with next_work_eq [OF ok op, of mo now] op' show ?thesis by simp
next
  case (StopLeave n)
  with op' left_not_open [of n s c] show ?thesis by (auto simp: books_leave_other)
next
  case AnswerInFlight
  with op' answer_in_flight_eq [of s c] show ?thesis by (auto split: if_splits)
next
  case Accept
  then show ?thesis by (simp add: accept_def Let_def) (simp add: books_defs)
qed (use ok assms(4) in \<open>auto simp: resolve_eq sess_ok_def books_take_work books_read_hello hello_expired_def begin_drain_def
    begin_stop_def server_move_def, auto simp: books_defs\<close>)

fun open_throughout :: "int \<Rightarrow> ('p, 'o) server \<Rightarrow> ('p, 'o) server_op list \<Rightarrow> bool" where
  "open_throughout c s [] \<longleftrightarrow> cn_state (conn_of s c) = Conn_Open"
| "open_throughout c s (op # ops) \<longleftrightarrow> cn_state (conn_of s c) = Conn_Open \<and> open_throughout c (server_step s op) ops"

lemma open_throughout_hd: "open_throughout c s ops \<Longrightarrow> st s c = Conn_Open"
  by (cases ops) simp_all

lemma books_throughout:
  "1 \<le> c \<Longrightarrow> sess_ok s \<Longrightarrow> open_throughout c s ops \<Longrightarrow> list_all (\<lambda>op. \<not> withdraws c rid op) ops \<Longrightarrow>
   books c rid (foldl server_step s ops) = books c rid s + sum_list (map (asks c rid) ops)"
proof (induction ops arbitrary: s)
  case (Cons op ops)
  then have "st (server_step s op) c = Conn_Open" using open_throughout_hd [of c "server_step s op" ops] by simp
  with step_eq [OF Cons.prems(2), of c op rid] Cons sess_ok_step [OF Cons.prems(2), of op] show ?case by simp
qed simp

text \<open>
  C4. Every request of a session that stays open is accounted for exactly: over any part of a run
  in which the session stays open and does not withdraw the request, and in which the step thread
  does not fault, the answers for the request and the copies of it still waiting or running grow
  by exactly the steps and resets the session sends with its id. With nothing answered twice,
  each gets one answer and none is lost, through batches, futures, timeouts, resets and drains.
\<close>

theorem open_session_loses_nothing:
  assumes "1 \<le> c" and "open_throughout c (foldl server_step (init_server mb w ms sa dt) before) ops"
    and "list_all (\<lambda>op. \<not> withdraws c rid op) ops"
  shows "let s = foldl server_step (init_server mb w ms sa dt) before; s' = foldl server_step s ops in
    answered c rid s' + outstanding c rid s' = answered c rid s + outstanding c rid s + sum_list (map (asks c rid) ops)"
  using books_throughout [OF assms(1) run_sess_ok assms(2,3)] by (simp add: Let_def books_def)

definition demo_outcome :: "int step_result \<Rightarrow> int model_outcome" where
  "demo_outcome res = \<lparr>mo_raised = False, mo_result = res\<rparr>"

definition demo_open :: "(unit, int) server_op list" where
  "demo_open = [Accept, ReadHello 1 (Hello 0 1), TakeWork 0, DoWork (demo_outcome NotASequence) 0,
     DoWork (demo_outcome NotASequence) 0]"

definition demo_serve :: "(unit, int) server_op list" where
  "demo_serve = [Read 1 (StepMsg 7 None ()) 1, TakeWork 1, DoWork (demo_outcome NotASequence) 1,
     DoWork (demo_outcome (Outputs [Value 42])) 1]"

definition demo_server :: "(unit, int) server" where
  "demo_server = foldl server_step (init_server 4 0 2 120 10) demo_open"

lemma demo_server_open: "open_throughout 1 demo_server demo_serve"
  by code_simp

lemma demo_server_books:
  "outstanding 1 7 demo_server = 0" "answered 1 7 demo_server = 0" "sum_list (map (asks 1 7) demo_serve) = 1"
  "outstanding 1 7 (foldl server_step demo_server demo_serve) = 0"
  by code_simp+

theorem open_session_loses_nothing_witness:
  "answered 1 7 (foldl server_step demo_server demo_serve) = 1"
proof -
  have "list_all (\<lambda>op. \<not> withdraws 1 7 op) demo_serve" by code_simp
  from open_session_loses_nothing [OF _ demo_server_open [unfolded demo_server_def] this] show ?thesis
    using demo_server_books unfolding demo_server_def [symmetric] by (simp add: Let_def)
qed

lemma drop_all_waiting: "c \<in> set ns \<Longrightarrow> w_waiting c rid (bp_waiting (fst (drop_all p ns))) = 0"
proof (induction ns arbitrary: p)
  case (Cons n ns)
  have "w_waiting c rid (bp_waiting (fst (drop_all q ms))) \<le> w_waiting c rid (bp_waiting q)" for q :: "'a batch_policy" and ms
    using drop_all_books [of c rid q ms] by linarith
  from this [of "fst (drop_connection p c)" ns] Cons show ?case
    by (auto simp: split_beta Let_def drop_connection_def dropped_waiting)
qed simp

lemma outstanding_answer [simp]: "outstanding c rid (answer n m s) = outstanding c rid s"
  by (simp add: outstanding_def)

lemma outstanding_refuse: "outstanding c rid (refuse_while_stopping e s) \<le> outstanding c rid s"
proof (cases e)
  case (EvLeave n)
  with books_leave [of c rid n s] show ?thesis by (simp add: refuse_while_stopping_def books_def answered_def)
qed (simp_all add: refuse_while_stopping_def, simp_all add: outstanding_def)

lemma outstanding_foldl:
  "(\<And>s x. outstanding c rid (f s x) \<le> outstanding c rid s) \<Longrightarrow> outstanding c rid (foldl f s xs) \<le> outstanding c rid s"
  by (induction xs arbitrary: s) (auto intro: order_trans)

lemma outstanding_tail:
  "outstanding c rid (answer_all n e rs s) \<le> outstanding c rid s"
  "outstanding c rid (close_opening n s) = outstanding c rid s"
  by (auto simp: answer_all_def intro!: outstanding_foldl) (simp_all add: close_opening_def outstanding_def)

lemma answer_in_flight_clears:
  assumes "sv_work s = []" and "c \<in> set (sv_connections s)"
  shows "outstanding c rid (answer_in_flight s) = 0"
proof -
  obtain policy dropped where d: "drop_all (sv_policy s) (sv_connections s) = (policy, dropped)" by fastforce
  define s2 where "s2 = s\<lparr>sv_events := [], sv_pending := [], sv_opening := [],
      sv_policy := finished policy (map pn_connection (filter (\<lambda>p. \<not> pn_detached p) (sv_pending s)))\<rparr>"
  have "outstanding c rid s2 = 0"
    using assms drop_all_waiting [OF assms(2), of rid "sv_policy s"] d
    by (simp add: s2_def outstanding_def finished_def)
  moreover have "outstanding c rid (answer_in_flight s) \<le> outstanding c rid s2"
    using d by (auto simp: answer_in_flight_def Let_def s2_def [symmetric] outstanding_tail outstanding_refuse
        intro!: order_trans [OF outstanding_foldl [where c = c and rid = rid]])
  ultimately show ?thesis by simp
qed

text \<open>
  C20. Stopping leaves no request behind: once the step thread has ended, answering what is in
  flight leaves nothing of any open session waiting, running or queued, and a session that is
  still open afterwards has received exactly one answer for each request it had outstanding.
\<close>

theorem drain_answers_everything:
  assumes "\<not> sv_step_thread (foldl server_step (init_server mb w ms sa dt) ops)"
    and "c \<in> set (sv_connections (foldl server_step (init_server mb w ms sa dt) ops))"
  shows "let s = foldl server_step (init_server mb w ms sa dt) ops; s' = server_step s AnswerInFlight in
    outstanding c rid s' = 0 \<and>
    (cn_state (conn_of s' c) = Conn_Open \<longrightarrow> answered c rid s' = answered c rid s + outstanding c rid s)"
proof -
  let ?s = "foldl server_step (init_server mb w ms sa dt) ops"
  have "sv_work ?s = []" using run_sess_ok [where ops = ops] assms(1) unfolding sess_ok_def by blast
  note clears = answer_in_flight_clears [OF this assms(2), of rid]
  with answer_in_flight_eq [of ?s c rid] assms(1) show ?thesis by (simp add: Let_def books_def)
qed

definition demo_drain :: "(unit, int) server_op list" where
  "demo_drain = demo_open @ [Read 1 (StepMsg 7 None ()) 1, BeginDrain 1, TakeWork 1]"

lemma demo_drain_state:
  "\<not> sv_step_thread (foldl server_step (init_server 4 0 2 120 10) demo_drain)"
  "1 \<in> set (sv_connections (foldl server_step (init_server 4 0 2 120 10) demo_drain))"
  "outstanding 1 7 (foldl server_step (init_server 4 0 2 120 10) demo_drain) = 1"
  "answered 1 7 (foldl server_step (init_server 4 0 2 120 10) demo_drain) = 0"
  "cn_state (conn_of (server_step (foldl server_step (init_server 4 0 2 120 10) demo_drain) AnswerInFlight) 1) = Conn_Open"
  by code_simp+

theorem drain_answers_everything_witness:
  "answered 1 7 (server_step (foldl server_step (init_server 4 0 2 120 10) demo_drain) AnswerInFlight) = 1"
  using drain_answers_everything [OF demo_drain_state(1,2), of 7] demo_drain_state(3-5) by (simp add: Let_def)

definition demo_cancel :: "(unit, int) server_op list" where
  "demo_cancel = [Read 1 (StepMsg 7 None ()) 1, TakeWork 1, DoWork (demo_outcome NotASequence) 1,
     Read 1 (CancelMsg 7) 1, DoWork (demo_outcome (Outputs [Value 42])) 1]"

text \<open>
  A cancel that arrives while \<open>step()\<close> runs has no effect: the request has left the policy and
  has no future yet, so neither branch of \<open>_cancel_request\<close> finds it, and once the call returns the
  session still receives the result, after a run in which it sent one step and its cancel.
\<close>

theorem cancel_during_step_is_answered:
  "sv_answers (foldl server_step demo_server demo_cancel) = sv_answers demo_server @ [(1, Result 7 42)]"
  by code_simp

end
