(* ===== verification/StepFolder.thy ===== *)
theory StepFolder
  imports Values
begin

text \<open>
  What one saved step's folder holds, \<^verbatim>\<open>StepStore._save\<close> of \<^verbatim>\<open>step_results/store.py\<close>
  with \<^verbatim>\<open>step_results/mp4.py\<close>, \<^verbatim>\<open>step_results/usage.py\<close> and the check of a step's extra
  file names in \<^verbatim>\<open>interface/app/step_completed.py\<close>.

  A folder is the files in it, by name, and its \<open>result.json\<close>. PyAV is a parameter: the rate a
  stream plays at and the bytes the muxer writes for the streams, or the error it raises. So is
  which file writes fail, the media type guessed from a name, and the time measured.
\<close>

section \<open>Names\<close>

definition RESULT_FILE :: string where "RESULT_FILE = ''result.json''"
definition OUTPUT_FILE :: string where "OUTPUT_FILE = ''output.mp4''"

definition RESERVED_FILE_NAMES :: "string list" where
  "RESERVED_FILE_NAMES = [''result.json'', ''output.mp4'']"

definition check_file_name :: "string \<Rightarrow> bool" where
  "check_file_name name \<longleftrightarrow>
     name \<noteq> [] \<and> name \<notin> {''.'', ''..''} \<and> CHR ''/'' \<notin> set name \<and> CHR 0x5C \<notin> set name \<and>
     name \<notin> set RESERVED_FILE_NAMES"

text \<open>\<open>$\<close> also matches before a newline that ends the string.\<close>

definition is_uuid :: "string \<Rightarrow> bool" where
  "is_uuid s \<longleftrightarrow> length s = 36 \<and>
     list_all (\<lambda>(i, c). if i \<in> {8, 13, 18, 23} then c = CHR ''-'' else c \<in> set ''0123456789abcdef'')
       (zip [0..<36::nat] s)"

definition session_id_matches :: "string \<Rightarrow> bool" where
  "session_id_matches s \<longleftrightarrow> is_uuid s \<or> s \<noteq> [] \<and> last s = CHR 0x0A \<and> is_uuid (butlast s)"

section \<open>A step and its output file\<close>

record 'a completed_step =
  cs_bundle :: "'a media_bundle option"
  cs_files :: "(string, bytes) dict"
  cs_error :: "string option"
  cs_elapsed :: "real option"
  cs_fps :: real

record video_usage =
  vu_track :: string
  vu_file :: string
  vu_duration_s :: real
  vu_frames :: nat
  vu_fps :: real
  vu_width :: nat
  vu_height :: nat

record 'a pyav =
  mx_rate :: "real \<Rightarrow> real"
  mx_write :: "real \<Rightarrow> ('a track_data \<times> nat list) list \<Rightarrow> 'a track_data list \<Rightarrow> string + bytes"

text \<open>A video payload as the shape of a batch of frames.\<close>

definition video_frames :: "'a numpy \<Rightarrow> 'a track_data \<Rightarrow> string + nat list" where
  "video_frames np t =
     (let shape = np_shape np (td_data t);
          frames = (if length shape = 3 then 1 # shape else shape)
      in case frames of
           [n, h, w, c] \<Rightarrow> if c \<noteq> 3 \<or> n = 0 then Inl ''ValueError'' else Inr [n, h, w, c]
         | _ \<Rightarrow> Inl ''ValueError'')"

fun usage_of :: "string \<Rightarrow> real \<Rightarrow> 'a track_data \<times> nat list \<Rightarrow> video_usage" where
  "usage_of path rate (t, shape) =
     \<lparr>vu_track = ti_name (td_info t), vu_file = path, vu_duration_s = real (shape ! 0) / rate, vu_frames = shape ! 0,
      vu_fps = rate, vu_width = shape ! 2 + shape ! 2 mod 2, vu_height = shape ! 1 + shape ! 1 mod 2\<rparr>"

definition write_mp4 ::
  "'a numpy \<Rightarrow> 'a pyav \<Rightarrow> string \<Rightarrow> 'a media_bundle \<Rightarrow> real \<Rightarrow> string + (bytes \<times> video_usage list)" where
  "write_mp4 np av path b fps =
     (if fps \<le> 0 then Inl ''ValueError''
      else if b = [] then Inl ''ValueError''
      else
        case seq_results (map (\<lambda>t. map_sum id (Pair t) (video_frames np t)) (get_tracks_by_kind b VIDEO)) of
          Inl e \<Rightarrow> Inl e
        | Inr videos \<Rightarrow>
            (let rate = mx_rate av fps
             in map_sum id (\<lambda>data. (data, map (usage_of path rate) videos))
                  (mx_write av rate videos (get_tracks_by_kind b AUDIO))))"

section \<open>Writing a folder\<close>

record file_entry =
  fe_name :: string
  fe_content_type :: string
  fe_size :: nat

definition content_type_of :: "(string \<Rightarrow> string option) \<Rightarrow> string \<Rightarrow> string" where
  "content_type_of guess_type name = (case guess_type name of None \<Rightarrow> ''application/octet-stream'' | Some t \<Rightarrow> t)"

record 'm step_result =
  sr_step :: int
  sr_session :: string
  sr_files :: "file_entry list"
  sr_usage :: "video_usage list"
  sr_messages :: "'m list"
  sr_error :: "string option"
  sr_save_error :: "string option"
  sr_generate_s :: "real option"
  sr_encode_s :: real

record 'm folder =
  fd_files :: "(string, bytes) dict"
  fd_result :: "'m step_result"
  fd_written_at :: real

record 'a save_env =
  se_numpy :: "'a numpy"
  se_av :: "'a pyav"
  se_guess_type :: "string \<Rightarrow> string option"
  se_write_fails :: "string \<Rightarrow> string option"
  se_encode_s :: real
  se_now :: real

definition file_entry_of :: "'a save_env \<Rightarrow> string \<Rightarrow> bytes \<Rightarrow> file_entry" where
  "file_entry_of env name data =
     \<lparr>fe_name = name, fe_content_type = content_type_of (se_guess_type env) name, fe_size = length data\<rparr>"

type_synonym written = "(string, bytes) dict \<times> file_entry list"

definition write_output ::
  "'a save_env \<Rightarrow> 'a completed_step \<Rightarrow> string + (written \<times> video_usage list)" where
  "write_output env completed =
     (case (cs_error completed, cs_bundle completed) of
        (None, Some (tr # trs)) \<Rightarrow>
          map_sum id (\<lambda>(data, usage). (([(OUTPUT_FILE, data)], [file_entry_of env OUTPUT_FILE data]), usage))
            (write_mp4 (se_numpy env) (se_av env) OUTPUT_FILE (tr # trs) (cs_fps completed))
      | _ \<Rightarrow> Inr (([], []), []))"

fun write_extra :: "'a save_env \<Rightarrow> (string \<times> bytes) list \<Rightarrow> written \<Rightarrow> string + written" where
  "write_extra env [] w = Inr w"
| "write_extra env ((name, data) # rest) (files, entries) =
     (case se_write_fails env name of
        Some e \<Rightarrow> Inl e
      | None \<Rightarrow> write_extra env rest (dict_set name data files, entries @ [file_entry_of env name data]))"

text \<open>
  The attempt to write everything; where it raises, every file of it is unlinked again. A step that
  failed writes none.
\<close>

definition write_all_files ::
  "'a save_env \<Rightarrow> 'a completed_step \<Rightarrow> (written \<times> video_usage list) \<times> string option" where
  "write_all_files env completed =
     (case write_output env completed of
        Inl e \<Rightarrow> ((([], []), []), Some e)
      | Inr (w, usage) \<Rightarrow>
          (case write_extra env (if cs_error completed = None then cs_files completed else []) w of
             Inl e \<Rightarrow> ((([], []), []), Some e)
           | Inr w' \<Rightarrow> ((w', usage), None)))"

text \<open>\<open>_write_atomically\<close>: a temporary file beside the result, renamed over it.\<close>

definition TEMPORARY_RESULT :: string where "TEMPORARY_RESULT = ''.'' @ RESULT_FILE @ ''.tmp''"

definition save_folder ::
  "'a save_env \<Rightarrow> string \<Rightarrow> int \<Rightarrow> 'a completed_step \<Rightarrow> 'm list \<Rightarrow> 'm folder" where
  "save_folder env session_id step completed messages =
     (let (((files, entries), usage), save_error) = write_all_files env completed
      in \<lparr>fd_files = dict_del RESULT_FILE (dict_del TEMPORARY_RESULT files),
          fd_result = \<lparr>sr_step = step, sr_session = session_id, sr_files = entries, sr_usage = usage,
             sr_messages = messages, sr_error = cs_error completed, sr_save_error = save_error,
             sr_generate_s = cs_elapsed completed, sr_encode_s = se_encode_s env\<rparr>,
          fd_written_at = se_now env\<rparr>)"

section \<open>What a folder lists\<close>

definition lists_exactly :: "file_entry list \<Rightarrow> (string, bytes) dict \<Rightarrow> bool" where
  "lists_exactly entries files \<longleftrightarrow> map (\<lambda>e. (fe_name e, fe_size e)) entries = map (\<lambda>(n, d). (n, length d)) files"

lemma write_extra_lists:
  assumes "write_extra env fs (files, entries) = Inr (files', entries')"
    and "lists_exactly entries files" and "distinct (dict_keys (files @ fs))"
  shows "files' = files @ fs \<and> lists_exactly entries' files'"
  using assms
proof (induction fs arbitrary: files entries)
  case (Cons f fs)
  obtain name data where f: "f = (name, data)" by fastforce
  with Cons.prems(3) have set: "dict_set name data files = files @ [f]" by (intro dict_set_new [of name files data, folded f]) auto
  have "lists_exactly (entries @ [file_entry_of env name data]) (files @ [f])"
    using Cons.prems(2) f by (simp add: lists_exactly_def file_entry_of_def)
  with Cons.IH [of "files @ [f]" "entries @ [file_entry_of env name data]"] Cons.prems f set show ?case
    by (auto split: option.splits)
qed simp

lemma write_output_lists:
  assumes "write_output env completed = Inr ((files, entries), usage)"
  shows "lists_exactly entries files" and "set (dict_keys files) \<subseteq> {OUTPUT_FILE}" and "distinct (dict_keys files)"
    and "usage \<noteq> [] \<Longrightarrow> dict_keys files = [OUTPUT_FILE]"
  using assms by (auto simp: write_output_def lists_exactly_def file_entry_of_def split: option.splits list.splits)

lemma no_del: "k \<notin> set (dict_keys d) \<Longrightarrow> dict_del k d = d"
  by (induction d) auto

definition plain_names :: "(string, bytes) dict \<Rightarrow> bool" where
  "plain_names files \<longleftrightarrow> distinct (dict_keys files) \<and>
     list_all (\<lambda>n. check_file_name n \<and> n \<noteq> TEMPORARY_RESULT) (dict_keys files)"

lemma plain_names_fresh:
  assumes "plain_names files"
  shows "OUTPUT_FILE \<notin> set (dict_keys files)" "RESULT_FILE \<notin> set (dict_keys files)" "TEMPORARY_RESULT \<notin> set (dict_keys files)"
  using assms by (auto simp: plain_names_def list_all_iff check_file_name_def RESERVED_FILE_NAMES_def OUTPUT_FILE_def RESULT_FILE_def)

lemma file_names_differ: "OUTPUT_FILE \<noteq> RESULT_FILE" "OUTPUT_FILE \<noteq> TEMPORARY_RESULT"
  by (simp_all add: OUTPUT_FILE_def RESULT_FILE_def TEMPORARY_RESULT_def)

lemma write_all_lists:
  assumes "plain_names (cs_files completed)" and "write_all_files env completed = (((files, entries), usage), save_error)"
  shows "lists_exactly entries files \<and> RESULT_FILE \<notin> set (dict_keys files) \<and> TEMPORARY_RESULT \<notin> set (dict_keys files) \<and>
    (usage \<noteq> [] \<longrightarrow> OUTPUT_FILE \<in> set (dict_keys files)) \<and>
    (save_error \<noteq> None \<longrightarrow> files = []) \<and>
    (save_error = None \<and> cs_error completed = None \<longrightarrow> set (cs_files completed) \<subseteq> set files) \<and>
    (cs_error completed \<noteq> None \<longrightarrow> files = [])"
proof (cases "write_output env completed")
  case (Inr r)
  obtain f0 e0 u0 where r: "r = ((f0, e0), u0)" by (metis prod.exhaust)
  note out = write_output_lists [OF Inr [unfolded r]]
  define fs where "fs = (if cs_error completed = None then cs_files completed else [])"
  have fresh: "OUTPUT_FILE \<notin> set (dict_keys fs)" "RESULT_FILE \<notin> set (dict_keys fs)" "TEMPORARY_RESULT \<notin> set (dict_keys fs)"
    and "distinct (dict_keys fs)"
    using plain_names_fresh [OF assms(1)] assms(1) by (auto simp: fs_def plain_names_def)
  moreover have "set (dict_keys f0) \<inter> set (dict_keys fs) = {}" using out(2) fresh(1) by blast
  ultimately have dist: "distinct (dict_keys (f0 @ fs))" using out(3) by simp
  have err: "cs_error completed \<noteq> None \<Longrightarrow> f0 = []"
    using Inr r by (auto simp: write_output_def)
  show ?thesis
  proof (cases "write_extra env fs (f0, e0)")
    case (Inl e)
    with assms(2) Inr r show ?thesis by (auto simp: write_all_files_def fs_def [symmetric] lists_exactly_def)
  next
    case (Inr w)
    with assms(2) \<open>write_output env completed = Inr r\<close> r
    have w: "w = (files, entries)" "usage = u0" "save_error = None" by (simp_all add: write_all_files_def fs_def [symmetric])
    note ex = write_extra_lists [OF Inr [unfolded w(1)] out(1) dist]
    show ?thesis
    proof (intro conjI)
      show "RESULT_FILE \<notin> set (dict_keys files)" "TEMPORARY_RESULT \<notin> set (dict_keys files)"
        using ex fresh out(2) file_names_differ by auto
      show "usage \<noteq> [] \<longrightarrow> OUTPUT_FILE \<in> set (dict_keys files)" using ex out(4) w by auto
    qed (use ex w err in \<open>auto simp: fs_def\<close>)
  qed
qed (use assms(2) in \<open>auto simp: write_all_files_def lists_exactly_def\<close>)

text \<open>
  A saved folder is what its \<open>result.json\<close> says: for a step whose extra files have names the
  interface accepts (and none is the name of the temporary result), the entries list exactly the
  files in the folder, in order and with their sizes; every extra file of a step that worked and
  was saved is among them with its bytes, a video the usage measures is in the folder, and a step
  that failed or could not be saved holds no file and says why.
\<close>

theorem folder_lists_its_files:
  assumes "plain_names (cs_files completed)"
  shows "let fd = save_folder env sid step completed ms; r = fd_result fd in
    map (\<lambda>e. (fe_name e, fe_size e)) (sr_files r) = map (\<lambda>(n, d). (n, length d)) (fd_files fd) \<and>
    (if cs_error completed = None \<and> sr_save_error r = None then set (cs_files completed) \<subseteq> set (fd_files fd) else fd_files fd = []) \<and>
    (sr_usage r \<noteq> [] \<longrightarrow> OUTPUT_FILE \<in> set (dict_keys (fd_files fd))) \<and>
    sr_error r = cs_error completed"
proof -
  obtain files entries usage err where w: "write_all_files env completed = (((files, entries), usage), err)" by (metis prod.exhaust)
  note all = write_all_lists [OF assms w]
  then have "dict_del RESULT_FILE (dict_del TEMPORARY_RESULT files) = files" by (simp add: no_del)
  with all show ?thesis by (auto simp: save_folder_def w Let_def lists_exactly_def)
qed

text \<open>An environment and a step for concrete runs: one video frame of two by two pixels and one extra file.\<close>

definition demo_env :: "(nat list \<times> int list) save_env" where
  "demo_env = \<lparr>se_numpy = flat_numpy, se_av = \<lparr>mx_rate = id, mx_write = (\<lambda>_ _ _. Inr [7, 7])\<rparr>,
     se_guess_type = (\<lambda>_. None), se_write_fails = (\<lambda>_. None), se_encode_s = 0, se_now = 100\<rparr>"

definition demo_step :: "string \<Rightarrow> (nat list \<times> int list) completed_step" where
  "demo_step name = \<lparr>cs_bundle = Some [(''v'', sample_track ''v'' VIDEO [2, 2, 3] (replicate 12 0) NoMeta)],
     cs_files = [(name, [1, 2, 3])], cs_error = None, cs_elapsed = None, cs_fps = 30\<rparr>"

theorem folder_lists_its_files_witness:
  "sr_save_error (fd_result (save_folder demo_env ''s'' 1 (demo_step ''a.txt'') ([] :: unit list))) = None \<and>
   (''a.txt'', [1, 2, 3]) \<in> set (fd_files (save_folder demo_env ''s'' 1 (demo_step ''a.txt'') ([] :: unit list)))"
proof -
  have "plain_names (cs_files (demo_step ''a.txt''))" by code_simp
  note f = folder_lists_its_files [OF this, where env = demo_env and sid = "''s''" and step = 1 and ms = "[] :: unit list"]
  have "sr_save_error (fd_result (save_folder demo_env ''s'' 1 (demo_step ''a.txt'') ([] :: unit list))) = None"
    "cs_error (demo_step ''a.txt'') = None" "cs_files (demo_step ''a.txt'') = [(''a.txt'', [1, 2, 3])]"
    by code_simp+
  with f show ?thesis by (simp add: Let_def)
qed

text \<open>
  A name the interface accepts can still be lost: an extra file called
  \<open>.result.json.tmp\<close> is overwritten by the temporary result and renamed away, so the folder's
  \<open>result.json\<close> lists a file, with its size, that the folder does not hold.
\<close>

theorem temporary_name_is_lost:
  "check_file_name TEMPORARY_RESULT \<and>
   (let fd = save_folder demo_env ''s'' 1 (demo_step TEMPORARY_RESULT) ([] :: unit list) in
     (TEMPORARY_RESULT, 3) \<in> set (map (\<lambda>e. (fe_name e, fe_size e)) (sr_files (fd_result fd))) \<and>
     dict_get (fd_files fd) TEMPORARY_RESULT = None)"
  by code_simp

end
