(* ===== verification/StepStore.thy ===== *)
theory StepStore
  imports StepFolder "HOL-Library.Sublist"
begin

text \<open>
  Saving finished steps, the \<^verbatim>\<open>StepStore\<close> of \<^verbatim>\<open>step_results/store.py\<close>: admission,
  the worker thread, publication of a folder, the readers and the retention reaper.

  The threads interleave at the points where they read what another thread writes. The worker is a
  phase: between its look at the failed ranges, its wait on the queue, its look at the closing
  flag, the creation of a hidden folder and its publication, any admission, close or sweep may
  come. A sweep judges a folder by its time stamp and removes it by its name in two steps. The
  root is the session folders by name, each with its published step folders and the names of the
  hidden ones. \<open>ss_ended\<close> is the history of saves that have ended, and \<open>ss_announced\<close> of the
  \<open>on_saved\<close> calls. Which directory operations fail is an argument of the worker's step.
\<close>

section \<open>State\<close>

definition RETENTION_SECONDS :: real where "RETENTION_SECONDS = 300"

record ('a, 'm) pending_save =
  pv_session :: string
  pv_step :: int
  pv_completed :: "'a completed_step"
  pv_messages :: "'m list"
  pv_last :: int

definition steps_of :: "('a, 'm) pending_save \<Rightarrow> ('a, 'm) pending_save list" where
  "steps_of p =
     (if pv_last p \<le> pv_step p then [p]
      else map (\<lambda>k. p\<lparr>pv_step := k, pv_messages := (if k = pv_step p then pv_messages p else []), pv_last := 0\<rparr>)
        [pv_step p..pv_last p])"

datatype ('a, 'm) worker_next =
    BackToTop
  | BackToDrain nat "('a, 'm) pending_save"
  | BackToSteps "('a, 'm) pending_save list"

datatype ('a, 'm) worker_phase =
    NotStarted
  | AtTop
  | AtQueue
  | AtEmpty
  | AtRange "('a, 'm) pending_save"
  | AtDrain nat "('a, 'm) pending_save"
  | AtSteps "('a, 'm) pending_save list"
  | AtTaken "('a, 'm) pending_save" "('a, 'm) worker_next"
  | AtPublish "('a, 'm) pending_save" nat "('a, 'm) worker_next"
  | Ended

record 'm session_dir =
  sd_steps :: "(int, 'm folder) dict"
  sd_hidden :: "nat list"

record ('a, 'm) step_store =
  ss_maxsize :: int
  ss_root :: "(string, 'm session_dir) dict option"
  ss_queue :: "('a, 'm) pending_save list"
  ss_failed :: "('a, 'm) pending_save list"
  ss_phase :: "('a, 'm) worker_phase"
  ss_closed :: bool
  ss_abandon :: bool
  ss_dropped :: int
  ss_names :: nat
  ss_doomed :: "(string \<times> int) option"
  ss_ended :: "('a, 'm) pending_save list"
  ss_announced :: "(string \<times> int) list"

definition init_step_store :: "int \<Rightarrow> ('a, 'm) step_store" where
  "init_step_store maxsize =
     \<lparr>ss_maxsize = maxsize, ss_root = None, ss_queue = [], ss_failed = [], ss_phase = NotStarted, ss_closed = False,
      ss_abandon = False, ss_dropped = 0, ss_names = 0, ss_doomed = None, ss_ended = [], ss_announced = []\<rparr>"

section \<open>Admission and close\<close>

definition ensure_started :: "('a, 'm) step_store \<Rightarrow> ('a, 'm) step_store" where
  "ensure_started s =
     (if ss_phase s \<noteq> NotStarted then s
      else s\<lparr>ss_root := Some (case ss_root s of None \<Rightarrow> [] | Some r \<Rightarrow> r), ss_phase := AtTop\<rparr>)"

definition note_dropped :: "('a, 'm) step_store \<Rightarrow> ('a, 'm) step_store" where
  "note_dropped s = s\<lparr>ss_dropped := ss_dropped s + 1\<rparr>"

definition admit ::
  "string \<Rightarrow> int \<Rightarrow> 'a completed_step \<Rightarrow> 'm list \<Rightarrow> ('a, 'm) step_store \<Rightarrow> ('a, 'm) step_store \<times> bool" where
  "admit session_id step completed messages s =
     (if \<not> session_id_matches session_id then (s, False)
      else if ss_closed s then (s, False)
      else
        let s1 = ensure_started s
        in if 0 < ss_maxsize s1 \<and> ss_maxsize s1 \<le> int (length (ss_queue s1)) then (note_dropped s1, False)
           else (s1\<lparr>ss_queue := ss_queue s1 @ [\<lparr>pv_session = session_id, pv_step = step, pv_completed = completed,
                   pv_messages = messages, pv_last = 0\<rparr>]\<rparr>, True))"

definition failed_step :: "string \<Rightarrow> 'a completed_step" where
  "failed_step e = \<lparr>cs_bundle = None, cs_files = [], cs_error = Some e, cs_elapsed = None, cs_fps = 30\<rparr>"

definition admit_failed ::
  "string \<Rightarrow> int \<Rightarrow> int \<Rightarrow> string \<Rightarrow> 'm list \<Rightarrow> ('a, 'm) step_store \<Rightarrow> ('a, 'm) step_store \<times> bool" where
  "admit_failed session_id first last_step error messages s =
     (if last_step < first then (s, False)
      else if \<not> session_id_matches session_id then (s, False)
      else if ss_closed s then (s, False)
      else
        let s1 = ensure_started s
        in (s1\<lparr>ss_failed := ss_failed s1 @ [\<lparr>pv_session = session_id, pv_step = first, pv_completed = failed_step error,
                pv_messages = messages, pv_last = last_step\<rparr>]\<rparr>, True))"

definition close_store :: "('a, 'm) step_store \<Rightarrow> ('a, 'm) step_store" where
  "close_store s = s\<lparr>ss_closed := True\<rparr>"

text \<open>The join in \<open>close\<close> timed out with the worker alive.\<close>

definition abandon :: "('a, 'm) step_store \<Rightarrow> ('a, 'm) step_store" where
  "abandon s = (if ss_closed s \<and> ss_phase s \<notin> {NotStarted, Ended} then s\<lparr>ss_abandon := True\<rparr> else s)"

section \<open>The worker\<close>

fun resume :: "('a, 'm) worker_next \<Rightarrow> ('a, 'm) worker_phase" where
  "resume BackToTop = AtTop"
| "resume (BackToDrain n f) = AtDrain n f"
| "resume (BackToSteps ps) = AtSteps ps"

definition the_root :: "('a, 'm) step_store \<Rightarrow> (string, 'm session_dir) dict" where
  "the_root s = (case ss_root s of None \<Rightarrow> [] | Some r \<Rightarrow> r)"

definition dir_of :: "('a, 'm) step_store \<Rightarrow> string \<Rightarrow> 'm session_dir" where
  "dir_of s sid = (case dict_get (the_root s) sid of None \<Rightarrow> \<lparr>sd_steps = [], sd_hidden = []\<rparr> | Some d \<Rightarrow> d)"

definition set_dir :: "string \<Rightarrow> 'm session_dir \<Rightarrow> ('a, 'm) step_store \<Rightarrow> ('a, 'm) step_store" where
  "set_dir sid d s = s\<lparr>ss_root := Some (dict_set sid d (the_root s))\<rparr>"

text \<open>A save that raised is logged and forgotten.\<close>

definition save_ends :: "('a, 'm) pending_save \<Rightarrow> ('a, 'm) worker_next \<Rightarrow> ('a, 'm) step_store \<Rightarrow> ('a, 'm) step_store" where
  "save_ends p nxt s = s\<lparr>ss_phase := resume nxt, ss_ended := ss_ended s @ [p]\<rparr>"

text \<open>The session folder and a hidden step folder in it are made under the layout lock.\<close>

definition save_begin ::
  "bool \<Rightarrow> ('a, 'm) pending_save \<Rightarrow> ('a, 'm) worker_next \<Rightarrow> ('a, 'm) step_store \<Rightarrow> ('a, 'm) step_store" where
  "save_begin made p nxt s =
     (if \<not> made then save_ends p nxt s
      else
        let d = dir_of s (pv_session p); name = ss_names s
        in (set_dir (pv_session p) (d\<lparr>sd_hidden := name # sd_hidden d\<rparr>) s)
             \<lparr>ss_names := name + 1, ss_phase := AtPublish p name nxt\<rparr>)"

text \<open>
  The folder is written and renamed to the step's number, replacing one already there. The rename
  raises when the session folder is gone, and \<open>put\<close> is whether writing the result and renaming succeed.
\<close>

definition publish ::
  "'a save_env \<Rightarrow> bool \<Rightarrow> ('a, 'm) pending_save \<Rightarrow> nat \<Rightarrow> ('a, 'm) worker_next \<Rightarrow> ('a, 'm) step_store \<Rightarrow> ('a, 'm) step_store" where
  "publish env put p name nxt s =
     (case dict_get (the_root s) (pv_session p) of
        Some d \<Rightarrow>
          if \<not> put \<or> name \<notin> set (sd_hidden d) then save_ends p nxt s
          else
            let fd = save_folder env (pv_session p) (pv_step p) (pv_completed p) (pv_messages p);
                s1 = set_dir (pv_session p)
                  \<lparr>sd_steps = dict_set (pv_step p) fd (sd_steps d), sd_hidden = removeAll name (sd_hidden d)\<rparr> s
            in (save_ends p nxt s1)\<lparr>ss_announced := ss_announced s @ [(pv_session p, pv_step p)]\<rparr>
      | None \<Rightarrow> save_ends p nxt s)"

definition worker_step :: "'a save_env \<Rightarrow> bool \<Rightarrow> bool \<Rightarrow> ('a, 'm) step_store \<Rightarrow> ('a, 'm) step_store" where
  "worker_step env made put s =
     (case ss_phase s of
        NotStarted \<Rightarrow> s
      | AtTop \<Rightarrow>
          if ss_abandon s then s\<lparr>ss_phase := Ended\<rparr>
          else (case ss_failed s of
                  f # fs \<Rightarrow> s\<lparr>ss_failed := fs, ss_phase := AtRange f\<rparr>
                | [] \<Rightarrow> s\<lparr>ss_phase := AtQueue\<rparr>)
      | AtQueue \<Rightarrow>
          (case ss_queue s of
             p # ps \<Rightarrow> s\<lparr>ss_queue := ps, ss_phase := AtTaken p BackToTop\<rparr>
           | [] \<Rightarrow> s\<lparr>ss_phase := AtEmpty\<rparr>)
      | AtEmpty \<Rightarrow> if ss_closed s \<and> ss_failed s = [] then s\<lparr>ss_phase := Ended\<rparr> else s\<lparr>ss_phase := AtTop\<rparr>
      | AtRange f \<Rightarrow> s\<lparr>ss_phase := AtDrain (length (ss_queue s)) f\<rparr>
      | AtDrain n f \<Rightarrow>
          (case (n, ss_queue s) of
             (Suc k, p # ps) \<Rightarrow> s\<lparr>ss_queue := ps, ss_phase := AtTaken p (BackToDrain k f)\<rparr>
           | _ \<Rightarrow> s\<lparr>ss_phase := AtSteps (steps_of f)\<rparr>)
      | AtSteps ps \<Rightarrow>
          (case ps of p # rest \<Rightarrow> s\<lparr>ss_phase := AtTaken p (BackToSteps rest)\<rparr> | [] \<Rightarrow> s\<lparr>ss_phase := AtTop\<rparr>)
      | AtTaken p nxt \<Rightarrow> if ss_abandon s then s\<lparr>ss_phase := Ended\<rparr> else save_begin made p nxt s
      | AtPublish p name nxt \<Rightarrow> publish env put p name nxt s
      | Ended \<Rightarrow> s)"

section \<open>Readers and the reaper\<close>

definition session_dir_of :: "('a, 'm) step_store \<Rightarrow> string \<Rightarrow> 'm session_dir option" where
  "session_dir_of s sid =
     (case ss_root s of None \<Rightarrow> None | Some r \<Rightarrow> if session_id_matches sid then dict_get r sid else None)"

definition ready_steps :: "('a, 'm) step_store \<Rightarrow> string \<Rightarrow> int list option" where
  "ready_steps s sid = map_option (\<lambda>d. sort (filter (\<lambda>k. 0 \<le> k) (dict_keys (sd_steps d)))) (session_dir_of s sid)"

definition result_path :: "('a, 'm) step_store \<Rightarrow> string \<Rightarrow> int \<Rightarrow> 'm folder option" where
  "result_path s sid step =
     (case session_dir_of s sid of
        None \<Rightarrow> None
      | Some d \<Rightarrow> if step < 1 then None else dict_get (sd_steps d) step)"

definition file_path :: "('a, 'm) step_store \<Rightarrow> string \<Rightarrow> int \<Rightarrow> string \<Rightarrow> (bytes \<times> string) option" where
  "file_path s sid step name =
     (case result_path s sid step of
        None \<Rightarrow> None
      | Some fd \<Rightarrow>
          (case find (\<lambda>e. fe_name e = name) (sr_files (fd_result fd)) of
             None \<Rightarrow> None
           | Some e \<Rightarrow> map_option (\<lambda>data. (data, fe_content_type e)) (dict_get (fd_files fd) name)))"

definition reap_judge :: "real \<Rightarrow> string \<Rightarrow> int \<Rightarrow> ('a, 'm) step_store \<Rightarrow> ('a, 'm) step_store" where
  "reap_judge now sid step s =
     (if ss_doomed s \<noteq> None then s
      else case dict_get (sd_steps (dir_of s sid)) step of
             None \<Rightarrow> s
           | Some fd \<Rightarrow> if now - fd_written_at fd > RETENTION_SECONDS then s\<lparr>ss_doomed := Some (sid, step)\<rparr> else s)"

definition reap_remove :: "('a, 'm) step_store \<Rightarrow> ('a, 'm) step_store" where
  "reap_remove s =
     (case ss_doomed s of
        None \<Rightarrow> s
      | Some (sid, step) \<Rightarrow>
          (case dict_get (the_root s) sid of
             None \<Rightarrow> s
           | Some d \<Rightarrow> set_dir sid (d\<lparr>sd_steps := dict_del step (sd_steps d)\<rparr>) s)\<lparr>ss_doomed := None\<rparr>)"

text \<open>\<open>rmdir\<close> removes only an empty session folder.\<close>

definition reap_session :: "string \<Rightarrow> ('a, 'm) step_store \<Rightarrow> ('a, 'm) step_store" where
  "reap_session sid s =
     (case dict_get (the_root s) sid of
        Some d \<Rightarrow>
          if sd_steps d = [] \<and> sd_hidden d = [] then s\<lparr>ss_root := Some (dict_del sid (the_root s))\<rparr> else s
      | None \<Rightarrow> s)"

section \<open>Runs\<close>

datatype ('a, 'm) store_op =
    Admit string int "'a completed_step" "'m list"
  | AdmitFailed string int int string "'m list"
  | CloseStore
  | Abandon
  | Work "'a save_env" bool bool
  | ReapJudge real string int
  | ReapRemove
  | ReapSession string

fun store_step :: "('a, 'm) step_store \<Rightarrow> ('a, 'm) store_op \<Rightarrow> ('a, 'm) step_store" where
  "store_step s (Admit sid step completed messages) = fst (admit sid step completed messages s)"
| "store_step s (AdmitFailed sid first last_step e messages) = fst (admit_failed sid first last_step e messages s)"
| "store_step s CloseStore = close_store s"
| "store_step s Abandon = abandon s"
| "store_step s (Work env made put) = worker_step env made put s"
| "store_step s (ReapJudge now sid step) = reap_judge now sid step s"
| "store_step s ReapRemove = reap_remove s"
| "store_step s (ReapSession sid) = reap_session sid s"

text \<open>The steps an operation's admission promises to save.\<close>

type_synonym save_key = "string \<times> int"

definition key_of :: "('a, 'm) pending_save \<Rightarrow> save_key" where
  "key_of p = (pv_session p, pv_step p)"

fun promised :: "('a, 'm) step_store \<Rightarrow> ('a, 'm) store_op \<Rightarrow> save_key list" where
  "promised s (Admit sid step completed messages) = (if snd (admit sid step completed messages s) then [(sid, step)] else [])"
| "promised s (AdmitFailed sid first last_step e messages) =
     (if snd (admit_failed sid first last_step e messages s) then map (Pair sid) [first..last_step] else [])"
| "promised s _ = []"

fun promises :: "('a, 'm) step_store \<Rightarrow> ('a, 'm) store_op list \<Rightarrow> save_key list" where
  "promises s [] = []"
| "promises s (op # ops) = promised s op @ promises (store_step s op) ops"

section \<open>Order\<close>

text \<open>What the worker still has to save, in the order it will get to it.\<close>

fun next_ranges :: "('a, 'm) worker_next \<Rightarrow> ('a, 'm) pending_save list" where
  "next_ranges BackToTop = []"
| "next_ranges (BackToDrain n f) = steps_of f"
| "next_ranges (BackToSteps ps) = ps"

fun next_drain :: "('a, 'm) worker_next \<Rightarrow> nat" where
  "next_drain (BackToDrain n f) = n"
| "next_drain _ = 0"

fun in_hand :: "('a, 'm) worker_phase \<Rightarrow> ('a, 'm) pending_save list" where
  "in_hand (AtTaken p nxt) = [p]"
| "in_hand (AtPublish p name nxt) = [p]"
| "in_hand _ = []"

fun ranges :: "('a, 'm) worker_phase \<Rightarrow> ('a, 'm) pending_save list" where
  "ranges (AtRange f) = steps_of f"
| "ranges (AtDrain n f) = steps_of f"
| "ranges (AtSteps ps) = ps"
| "ranges (AtTaken p nxt) = next_ranges nxt"
| "ranges (AtPublish p name nxt) = next_ranges nxt"
| "ranges _ = []"

fun drain_count :: "('a, 'm) worker_phase \<Rightarrow> nat \<Rightarrow> nat" where
  "drain_count (AtRange f) q = q"
| "drain_count (AtDrain n f) q = n"
| "drain_count (AtTaken p nxt) q = next_drain nxt"
| "drain_count (AtPublish p name nxt) q = next_drain nxt"
| "drain_count _ q = 0"

definition todo :: "('a, 'm) step_store \<Rightarrow> ('a, 'm) pending_save list" where
  "todo s =
     (let n = drain_count (ss_phase s) (length (ss_queue s))
      in in_hand (ss_phase s) @ take n (ss_queue s) @ ranges (ss_phase s) @ drop n (ss_queue s) @
         concat (map steps_of (ss_failed s)))"

definition of_session :: "string \<Rightarrow> save_key list \<Rightarrow> save_key list" where
  "of_session sid ks = filter (\<lambda>k. fst k = sid) ks"

lemma of_session_simps [simp]:
  "of_session sid [] = []" "of_session sid (ks @ ls) = of_session sid ks @ of_session sid ls"
  "of_session sid (k # ks) = (if fst k = sid then [k] else []) @ of_session sid ks"
  by (simp_all add: of_session_def)

definition range_sessions :: "('a, 'm) step_store \<Rightarrow> string set" where
  "range_sessions s = pv_session ` set (ranges (ss_phase s) @ ss_failed s)"

text \<open>A session admits nothing while a failed range of it waits.\<close>

fun orderly :: "('a, 'm) step_store \<Rightarrow> ('a, 'm) store_op \<Rightarrow> bool" where
  "orderly s (Admit sid _ _ _) \<longleftrightarrow> sid \<notin> range_sessions s"
| "orderly s _ \<longleftrightarrow> True"

fun orderly_run :: "('a, 'm) step_store \<Rightarrow> ('a, 'm) store_op list \<Rightarrow> bool" where
  "orderly_run s [] \<longleftrightarrow> True"
| "orderly_run s (op # ops) \<longleftrightarrow> orderly s op \<and> orderly_run (store_step s op) ops"

lemma steps_of_session: "pv_session ` set (steps_of f) \<subseteq> {pv_session f}"
  by (auto simp: steps_of_def)

lemma steps_of_keys:
  "pv_step f \<le> pv_last f \<Longrightarrow> map key_of (steps_of f) = map (Pair (pv_session f)) [pv_step f..pv_last f]"
  "pv_last f \<le> 0 \<Longrightarrow> 0 < pv_step f \<Longrightarrow> steps_of f = [f]"
  by (auto simp: steps_of_def key_of_def)

lemma of_session_none: "sid \<notin> pv_session ` set ps \<Longrightarrow> of_session sid (map key_of ps) = []"
  by (induction ps) (auto simp: key_of_def)

lemma of_session_concat_none:
  "sid \<notin> pv_session ` set fs \<Longrightarrow> of_session sid (map key_of (concat (map steps_of fs))) = []"
proof (induction fs)
  case (Cons f fs)
  then have "sid \<notin> pv_session ` set (steps_of f)" using steps_of_session [of f] by auto
  from of_session_none [OF this] Cons show ?case by simp
qed simp

definition drain_ok :: "('a, 'm) step_store \<Rightarrow> bool" where
  "drain_ok s \<longleftrightarrow> drain_count (ss_phase s) (length (ss_queue s)) \<le> length (ss_queue s)"

text \<open>
  Every save that has ended or will is one that was promised, session by session in the same order;
  once the worker has abandoned its work, the ended ones are still the first.
\<close>

definition order_ok :: "save_key list \<Rightarrow> ('a, 'm) step_store \<Rightarrow> bool" where
  "order_ok ks s \<longleftrightarrow> drain_ok s \<and> (ss_abandon s \<or> ss_phase s = Ended \<longrightarrow> ss_closed s) \<and>
     (ss_phase s = Ended \<and> \<not> ss_abandon s \<longrightarrow> ss_failed s = []) \<and>
     (\<forall>sid. \<exists>rest. of_session sid ks = of_session sid (map key_of (ss_ended s)) @ rest \<and>
       (ss_phase s = Ended \<and> ss_abandon s \<or> rest = of_session sid (map key_of (todo s))))"

lemma order_ok_same:
  assumes "ss_phase s' = ss_phase s" "ss_queue s' = ss_queue s" "ss_failed s' = ss_failed s"
    "ss_ended s' = ss_ended s" "ss_abandon s' = ss_abandon s" "ss_closed s \<longrightarrow> ss_closed s'"
  shows "order_ok ks s \<Longrightarrow> order_ok ks s'"
  using assms by (auto simp: order_ok_def drain_ok_def todo_def)

text \<open>A step of the worker that saves nothing keeps what is left to do.\<close>

lemma order_ok_move:
  assumes "order_ok ks s" and "todo s' = todo s" and "drain_ok s'" and "ss_ended s' = ss_ended s"
    and "ss_abandon s' = ss_abandon s" and "ss_closed s' = ss_closed s" and "ss_phase s \<noteq> Ended"
    and "ss_phase s' = Ended \<longrightarrow> ss_closed s \<and> ss_failed s' = []"
  shows "order_ok ks s'"
  using assms by (auto simp: order_ok_def)

lemma order_ok_give_up:
  assumes "order_ok ks s" and "ss_abandon s"
  shows "order_ok ks (s\<lparr>ss_phase := Ended\<rparr>)"
  using assms by (auto simp: order_ok_def drain_ok_def)

lemma todo_resume:
  assumes "ss_phase s' = resume nxt" "ss_queue s' = ss_queue s" "ss_failed s' = ss_failed s"
    "in_hand (ss_phase s) = [p]" "ranges (ss_phase s) = next_ranges nxt"
    "\<And>q. drain_count (ss_phase s) q = next_drain nxt"
  shows "todo s = p # todo s'" and "drain_ok s \<Longrightarrow> drain_ok s'"
  using assms by (cases nxt; simp add: todo_def drain_ok_def)+

lemma order_ok_saved:
  assumes "order_ok ks s" and "ss_phase s = AtTaken p nxt \<or> ss_phase s = AtPublish p name nxt"
    and "ss_phase s' = resume nxt" "ss_queue s' = ss_queue s" "ss_failed s' = ss_failed s"
    "ss_ended s' = ss_ended s @ [p]" "ss_abandon s' = ss_abandon s" "ss_closed s' = ss_closed s"
  shows "order_ok ks s'"
proof -
  have "in_hand (ss_phase s) = [p]" "ranges (ss_phase s) = next_ranges nxt" "\<And>q. drain_count (ss_phase s) q = next_drain nxt"
    using assms(2) by auto
  note todo = todo_resume [OF assms(3-5) this]
  moreover have "ss_phase s \<noteq> Ended" using assms(2) by auto
  moreover have "resume nxt \<noteq> Ended" by (cases nxt) simp_all
  ultimately show ?thesis using assms(1,3-8) by (auto simp: order_ok_def)
qed

lemma set_dir_fields [simp]:
  "ss_phase (set_dir sid d s) = ss_phase s" "ss_queue (set_dir sid d s) = ss_queue s" "ss_failed (set_dir sid d s) = ss_failed s"
  "ss_ended (set_dir sid d s) = ss_ended s" "ss_abandon (set_dir sid d s) = ss_abandon s" "ss_closed (set_dir sid d s) = ss_closed s"
  "ss_names (set_dir sid d s) = ss_names s" "ss_announced (set_dir sid d s) = ss_announced s"
  "the_root (set_dir sid d s) = dict_set sid d (the_root s)"
  by (simp_all add: set_dir_def the_root_def)

lemma save_ends_fields [simp]:
  "ss_phase (save_ends p nxt s) = resume nxt" "ss_queue (save_ends p nxt s) = ss_queue s"
  "ss_failed (save_ends p nxt s) = ss_failed s" "ss_ended (save_ends p nxt s) = ss_ended s @ [p]"
  "ss_abandon (save_ends p nxt s) = ss_abandon s" "ss_closed (save_ends p nxt s) = ss_closed s"
  "the_root (save_ends p nxt s) = the_root s" "ss_announced (save_ends p nxt s) = ss_announced s"
  by (simp_all add: save_ends_def the_root_def)

lemma publish_fields:
  "ss_phase (publish env put p name nxt s) = resume nxt" "ss_queue (publish env put p name nxt s) = ss_queue s"
  "ss_failed (publish env put p name nxt s) = ss_failed s" "ss_ended (publish env put p name nxt s) = ss_ended s @ [p]"
  "ss_abandon (publish env put p name nxt s) = ss_abandon s" "ss_closed (publish env put p name nxt s) = ss_closed s"
  by (auto simp: publish_def Let_def split: option.split)

lemma worker_order_ok:
  assumes ok: "order_ok ks s"
  shows "order_ok ks (worker_step env made put s)"
proof (cases "ss_phase s")
  case AtTop
  then show ?thesis using ok order_ok_give_up [OF ok]
    by (auto simp: worker_step_def todo_def drain_ok_def intro!: order_ok_move [OF ok] split: list.split)
next
  case AtQueue
  then show ?thesis using ok
    by (auto simp: worker_step_def todo_def drain_ok_def intro!: order_ok_move [OF ok] split: list.split)
next
  case AtEmpty
  then show ?thesis using ok
    by (auto simp: worker_step_def todo_def drain_ok_def intro!: order_ok_move [OF ok])
next
  case (AtRange f)
  then show ?thesis using ok
    by (auto simp: worker_step_def todo_def drain_ok_def intro!: order_ok_move [OF ok])
next
  case (AtDrain n f)
  have "drain_ok s" using ok by (simp add: order_ok_def)
  with AtDrain show ?thesis
    by (cases n) (auto simp: worker_step_def todo_def drain_ok_def intro!: order_ok_move [OF ok] split: list.split)
next
  case (AtSteps ps)
  then show ?thesis using ok
    by (auto simp: worker_step_def todo_def drain_ok_def intro!: order_ok_move [OF ok] split: list.split)
next
  case (AtTaken p nxt)
  show ?thesis
  proof (cases "ss_abandon s")
    case True
    with AtTaken order_ok_give_up [OF ok] show ?thesis by (simp add: worker_step_def)
  next
    case False
    show ?thesis
    proof (cases made)
      case True
      with False AtTaken ok show ?thesis
        by (auto simp: worker_step_def save_begin_def Let_def todo_def drain_ok_def order_ok_def)
    next
      case no: False
      show ?thesis
        by (rule order_ok_saved [OF ok disjI1 [OF AtTaken]]) (simp_all add: worker_step_def AtTaken False no save_begin_def)
    qed
  qed
next
  case (AtPublish p name nxt)
  show ?thesis
    by (rule order_ok_saved [OF ok disjI2 [OF AtPublish]]) (simp_all add: worker_step_def AtPublish publish_fields)
qed (use ok in \<open>simp_all add: worker_step_def\<close>)

lemma ensure_started_fields [simp]:
  "ss_queue (ensure_started s) = ss_queue s" "ss_failed (ensure_started s) = ss_failed s" "ss_ended (ensure_started s) = ss_ended s"
  "ss_closed (ensure_started s) = ss_closed s" "ss_abandon (ensure_started s) = ss_abandon s"
  "ss_maxsize (ensure_started s) = ss_maxsize s" "the_root (ensure_started s) = the_root s"
  "ss_phase (ensure_started s) = (if ss_phase s = NotStarted then AtTop else ss_phase s)"
  "ss_announced (ensure_started s) = ss_announced s" "todo (ensure_started s) = todo s"
  by (simp_all add: ensure_started_def the_root_def todo_def)

lemma ensure_started_ok: "order_ok ks s \<Longrightarrow> order_ok ks (ensure_started s)"
  by (cases "ss_phase s = NotStarted") (auto simp: order_ok_def drain_ok_def)

lemma drain_count_grows: "drain_count ph (Suc q) = (if \<exists>f. ph = AtRange f then Suc (drain_count ph q) else drain_count ph q)"
  by (cases ph) auto

lemma order_ok_queue:
  assumes ok: "order_ok ks s" and "\<not> ss_closed s" and "pv_session p \<notin> range_sessions s"
  shows "order_ok (ks @ [key_of p]) (s\<lparr>ss_queue := ss_queue s @ [p]\<rparr>)"
proof -
  let ?s = "s\<lparr>ss_queue := ss_queue s @ [p]\<rparr>"
  have drain: "drain_ok s" using ok by (simp add: order_ok_def)
  then have drain': "drain_ok ?s" by (auto simp: drain_ok_def drain_count_grows)
  have "of_session sid (map key_of (todo ?s)) = of_session sid (map key_of (todo s) @ [key_of p])" for sid
  proof (cases "sid = pv_session p")
    case True
    with assms(3) have "of_session sid (map key_of (ranges (ss_phase s))) = []"
      "of_session sid (map key_of (concat (map steps_of (ss_failed s)))) = []"
      by (auto intro!: of_session_none of_session_concat_none simp: range_sessions_def)
    with drain show ?thesis
      by (cases "\<exists>f. ss_phase s = AtRange f") (auto simp: todo_def drain_ok_def drain_count_grows Let_def)
  next
    case False
    with drain show ?thesis
      by (cases "\<exists>f. ss_phase s = AtRange f") (auto simp: todo_def drain_ok_def drain_count_grows Let_def key_of_def)
  qed
  with ok assms(2) drain' show ?thesis by (auto simp: order_ok_def)
qed

lemma order_ok_range:
  assumes ok: "order_ok ks s" and "\<not> ss_closed s"
  shows "order_ok (ks @ map key_of (steps_of f)) (s\<lparr>ss_failed := ss_failed s @ [f]\<rparr>)"
  using assms by (auto simp: order_ok_def drain_ok_def todo_def Let_def)

lemma store_order_ok:
  assumes ok: "order_ok ks s" and "orderly s op"
  shows "order_ok (ks @ promised s op) (store_step s op)"
proof (cases op)
  case (Admit sid step completed messages)
  define p where "p = \<lparr>pv_session = sid, pv_step = step, pv_completed = completed, pv_messages = messages, pv_last = 0\<rparr>"
  have "sid \<notin> range_sessions (ensure_started s)" using assms(2) Admit by (auto simp: range_sessions_def)
  then have "order_ok (ks @ [(sid, step)]) ((ensure_started s)\<lparr>ss_queue := ss_queue s @ [p]\<rparr>)" if "\<not> ss_closed s"
    using order_ok_queue [OF ensure_started_ok [OF ok], of p] that by (simp add: p_def key_of_def)
  moreover have "order_ok ks (note_dropped (ensure_started s))"
    by (rule order_ok_same [OF _ _ _ _ _ _ ensure_started_ok [OF ok]]) (simp_all add: note_dropped_def)
  ultimately show ?thesis using ok Admit by (auto simp: admit_def Let_def p_def)
next
  case (AdmitFailed sid first last_step e messages)
  define f where "f = \<lparr>pv_session = sid, pv_step = first, pv_completed = failed_step e :: 'a completed_step,
    pv_messages = messages, pv_last = last_step\<rparr>"
  have "order_ok (ks @ map (Pair sid) [first..last_step]) ((ensure_started s)\<lparr>ss_failed := ss_failed s @ [f]\<rparr>)"
    if "\<not> ss_closed s" "first \<le> last_step"
    using order_ok_range [OF ensure_started_ok [OF ok], of f] that steps_of_keys(1) [of f] by (simp add: f_def)
  then show ?thesis using ok AdmitFailed by (auto simp: admit_failed_def Let_def f_def)
next
  case (Work env made put)
  with worker_order_ok [OF ok] show ?thesis by simp
next
  case Abandon
  with ok show ?thesis by (auto simp: abandon_def order_ok_def drain_ok_def todo_def)
next
  case (ReapJudge now sid step)
  then show ?thesis by (auto simp: reap_judge_def intro: order_ok_same [OF _ _ _ _ _ _ ok] ok split: option.split)
next
  case ReapRemove
  then show ?thesis by (auto simp: reap_remove_def intro: order_ok_same [OF _ _ _ _ _ _ ok] ok split: option.split)
next
  case (ReapSession sid)
  then show ?thesis by (auto simp: reap_session_def intro: order_ok_same [OF _ _ _ _ _ _ ok] ok split: option.split)
qed (auto simp: close_store_def intro: order_ok_same [OF _ _ _ _ _ _ ok])

lemma run_order_ok:
  "order_ok ks s \<Longrightarrow> orderly_run s ops \<Longrightarrow> order_ok (ks @ promises s ops) (foldl store_step s ops)"
proof (induction ops arbitrary: ks s)
  case (Cons op ops)
  then show ?case using store_order_ok [of ks s op] Cons.IH [of "ks @ promised s op" "store_step s op"] by simp
qed simp

lemma init_order_ok: "order_ok [] (init_step_store m)"
  by (simp add: order_ok_def drain_ok_def init_step_store_def todo_def)

definition demo_id :: string where "demo_id = ''01234567-89ab-cdef-0123-456789abcdef''"

abbreviation demo_work :: "((nat list \<times> int list), unit) store_op" where
  "demo_work \<equiv> Work demo_env True True"

definition demo_lost :: "((nat list \<times> int list), unit) store_op list" where
  "demo_lost = [Admit demo_id 1 (demo_step ''a.txt'') []] @ replicate 6 demo_work @
     [Admit demo_id 2 (demo_step ''a.txt'') [], CloseStore] @ replicate 10 demo_work"

text \<open>
  A step can be admitted and never saved: the worker finds the queue empty, the step is
  admitted (\<open>admit\<close> answers that a folder follows), the store closes, and the worker, which now
  looks only at the closing flag and the failed ranges, ends. No timeout abandoned it.
\<close>

theorem close_loses_an_admitted_step:
  "let s = foldl store_step (init_step_store 4) demo_lost in
   promises (init_step_store 4) demo_lost = map (Pair demo_id) [1, 2] \<and>
   ss_phase s = Ended \<and> \<not> ss_abandon s \<and> ss_announced s = [(demo_id, 1)] \<and> result_path s demo_id 2 = None"
  by code_simp

section \<open>The worker drains\<close>

text \<open>How far the worker is from its end.\<close>

fun next_work_left :: "('a, 'm) worker_next \<Rightarrow> nat" where
  "next_work_left BackToTop = 0"
| "next_work_left (BackToDrain n f) = 10 * length (steps_of f) + 9"
| "next_work_left (BackToSteps ps) = 10 * length ps + 4"

fun phase_left :: "('a, 'm) worker_phase \<Rightarrow> bool \<Rightarrow> nat" where
  "phase_left NotStarted wait = 0"
| "phase_left AtTop wait = 3"
| "phase_left AtQueue wait = (if wait then 5 else 2)"
| "phase_left AtEmpty wait = (if wait then 4 else 1)"
| "phase_left (AtRange f) wait = 10 + 10 * length (steps_of f)"
| "phase_left (AtDrain n f) wait = 9 + 10 * length (steps_of f)"
| "phase_left (AtSteps ps) wait = 4 + 10 * length ps"
| "phase_left (AtTaken p nxt) wait = 7 + next_work_left nxt"
| "phase_left (AtPublish p name nxt) wait = 6 + next_work_left nxt"
| "phase_left Ended wait = 0"

definition work_left :: "('a, 'm) step_store \<Rightarrow> nat" where
  "work_left s = 10 * length (ss_queue s) + phase_left (ss_phase s) (ss_failed s \<noteq> []) +
     sum_list (map (\<lambda>f. 10 * length (steps_of f) + 20) (ss_failed s))"

lemma resume_left: "phase_left (resume nxt) wait < 6 + next_work_left nxt"
  by (cases nxt) simp_all

lemma work_left_decreases:
  assumes "ss_closed s" and "ss_phase s \<notin> {NotStarted, Ended}"
  shows "work_left (worker_step env made put s) < work_left s"
proof (cases "ss_phase s")
  case (AtDrain n f)
  then show ?thesis by (cases n) (auto simp: worker_step_def work_left_def split: list.split)
next
  case (AtTaken p nxt)
  then show ?thesis using resume_left [of nxt "ss_failed s \<noteq> []"]
    by (auto simp: worker_step_def work_left_def save_begin_def Let_def)
next
  case (AtPublish p name nxt)
  then show ?thesis using resume_left [of nxt "ss_failed s \<noteq> []"]
    by (simp add: worker_step_def work_left_def publish_fields)
qed (use assms in \<open>auto simp: worker_step_def work_left_def split: list.split\<close>)

text \<open>Once closed, only a worker that had already found the queue empty leaves something in it.\<close>

definition settled :: "('a, 'm) step_store \<Rightarrow> bool" where
  "settled s \<longleftrightarrow> ss_closed s \<and> \<not> ss_abandon s \<and> ss_phase s \<noteq> NotStarted \<and>
     (ss_phase s \<in> {AtEmpty, Ended} \<longrightarrow> ss_queue s = []) \<and> (ss_phase s = Ended \<longrightarrow> ss_failed s = [])"

lemma resume_not: "resume nxt \<noteq> NotStarted" "resume nxt \<noteq> AtEmpty" "resume nxt \<noteq> Ended"
  by (cases nxt; simp)+

lemma settled_step: "settled s \<Longrightarrow> settled (worker_step env made put s)"
  using resume_not by (cases "ss_phase s")
    (auto simp: settled_def worker_step_def save_begin_def Let_def publish_fields split: list.splits nat.splits)

definition working :: "'a save_env \<times> bool \<times> bool \<Rightarrow> ('a, 'm) store_op" where
  "working w = Work (fst w) (fst (snd w)) (snd (snd w))"

lemma working_ends:
  "settled s \<Longrightarrow> work_left s \<le> length ws \<Longrightarrow> ss_phase (foldl store_step s (map working ws)) = Ended"
proof (induction ws arbitrary: s)
  case Nil
  then have "phase_left (ss_phase s) False = 0" by (auto simp: work_left_def)
  with Nil show ?case by (cases "ss_phase s") (auto simp: settled_def)
next
  case (Cons w ws)
  let ?s = "worker_step (fst w) (fst (snd w)) (snd (snd w)) s"
  have "settled ?s" by (rule settled_step [OF Cons.prems(1)])
  moreover have "work_left ?s \<le> length ws"
  proof (cases "ss_phase s = Ended")
    case True
    with Cons.prems(1) show ?thesis
      by (cases "ss_failed s") (use Cons.prems in \<open>auto simp: worker_step_def work_left_def settled_def\<close>)
  next
    case False
    with work_left_decreases [of s "fst w" "fst (snd w)" "snd (snd w)"] Cons.prems show ?thesis by (simp add: settled_def)
  qed
  ultimately show ?case using Cons.IH [of ?s] by (simp add: working_def)
qed

lemma settled_run: "settled s \<Longrightarrow> settled (foldl store_step s (map working ws))"
  by (induction ws arbitrary: s) (simp_all add: settled_step working_def)

lemma orderly_working: "orderly_run s (map working ws)" and promises_working: "promises s (map working ws) = []"
  by (induction ws arbitrary: s) (simp_all add: working_def)

lemma orderly_append: "orderly_run s (xs @ ys) \<longleftrightarrow> orderly_run s xs \<and> orderly_run (foldl store_step s xs) ys"
  by (induction xs arbitrary: s) simp_all

lemma promises_append: "promises s (xs @ ys) = promises s xs @ promises (foldl store_step s xs) ys"
  by (induction xs arbitrary: s) simp_all

section \<open>Folders\<close>

text \<open>
  What is waiting or being saved belongs to sessions whose id can name a folder, a save under way has
  its hidden folder in its session folder, and a published folder is the one its result names.
\<close>

definition ids_ok :: "('a, 'm) step_store \<Rightarrow> bool" where
  "ids_ok s \<longleftrightarrow> pv_session ` set (ss_queue s @ ss_failed s @ in_hand (ss_phase s) @ ranges (ss_phase s)) \<subseteq>
     {sid. session_id_matches sid}"

definition hidden_ok :: "('a, 'm) step_store \<Rightarrow> bool" where
  "hidden_ok s \<longleftrightarrow> (\<forall>p name nxt. ss_phase s = AtPublish p name nxt \<longrightarrow>
     (\<exists>d. dict_get (the_root s) (pv_session p) = Some d \<and> name \<in> set (sd_hidden d)))"

definition labelled :: "string \<Rightarrow> 'm session_dir \<Rightarrow> bool" where
  "labelled sid d \<longleftrightarrow> (\<forall>step fd. dict_get (sd_steps d) step = Some fd \<longrightarrow>
     sr_session (fd_result fd) = sid \<and> sr_step (fd_result fd) = step)"

definition labels_ok :: "('a, 'm) step_store \<Rightarrow> bool" where
  "labels_ok s \<longleftrightarrow> (\<forall>sid d. dict_get (the_root s) sid = Some d \<longrightarrow> labelled sid d)"

definition folders_ok :: "('a, 'm) step_store \<Rightarrow> bool" where
  "folders_ok s \<longleftrightarrow> ids_ok s \<and> hidden_ok s \<and> labels_ok s"

lemma steps_of_ids: "pv_session f \<in> A \<Longrightarrow> pv_session ` set (steps_of f) \<subseteq> A"
  using steps_of_session [of f] by auto

lemma ids_ok_worker:
  assumes "ids_ok s"
  shows "ids_ok (worker_step env made put s)"
proof (cases "ss_phase s")
  case AtTop
  with assms steps_of_ids [of "hd (ss_failed s)" "{sid. session_id_matches sid}"] show ?thesis
    by (auto simp: worker_step_def ids_ok_def image_subset_iff split: list.splits)
next
  case (AtDrain n f)
  with assms show ?thesis by (cases n) (auto simp: worker_step_def ids_ok_def image_subset_iff split: list.splits)
next
  case (AtTaken p nxt)
  with assms show ?thesis by (cases nxt) (auto simp: worker_step_def ids_ok_def image_subset_iff save_begin_def Let_def)
next
  case (AtPublish p name nxt)
  with assms show ?thesis by (cases nxt) (auto simp: worker_step_def ids_ok_def image_subset_iff publish_fields)
qed (use assms in \<open>auto simp: worker_step_def ids_ok_def image_subset_iff split: list.splits\<close>)

lemma save_folder_label [simp]:
  "sr_session (fd_result (save_folder env sid step c ms)) = sid" "sr_step (fd_result (save_folder env sid step c ms)) = step"
  by (simp_all add: save_folder_def split_beta Let_def)

lemma dir_of_labelled: "labels_ok s \<Longrightarrow> labelled sid (dir_of s sid)"
  by (auto simp: labels_ok_def dir_of_def labelled_def split: option.split)

lemma labels_ok_set_dir:
  "labels_ok s \<Longrightarrow> labelled sid d \<Longrightarrow> the_root s' = dict_set sid d (the_root s) \<Longrightarrow> labels_ok s'"
  by (auto simp: labels_ok_def dict_simps)

lemma labels_ok_same: "the_root s' = the_root s \<Longrightarrow> labels_ok s' = labels_ok s"
  by (simp add: labels_ok_def)

lemma labelled_more:
  "labelled sid d \<Longrightarrow> sd_steps d' = sd_steps d \<Longrightarrow> labelled sid d'"
  "labelled sid d \<Longrightarrow> sd_steps d' = dict_del step (sd_steps d) \<Longrightarrow> labelled sid d'"
  "labelled sid d \<Longrightarrow> sr_session (fd_result fd) = sid \<Longrightarrow> sr_step (fd_result fd) = step \<Longrightarrow>
    sd_steps d' = dict_set step fd (sd_steps d) \<Longrightarrow> labelled sid d'"
  by (auto simp: labelled_def dict_simps)

lemma root_fields [simp]:
  "the_root (s\<lparr>ss_phase := ph\<rparr>) = the_root s" "the_root (s\<lparr>ss_queue := q\<rparr>) = the_root s"
  "the_root (s\<lparr>ss_failed := f\<rparr>) = the_root s" "the_root (s\<lparr>ss_names := k\<rparr>) = the_root s"
  "the_root (s\<lparr>ss_announced := an\<rparr>) = the_root s" "the_root (s\<lparr>ss_doomed := dm\<rparr>) = the_root s"
  "the_root (s\<lparr>ss_closed := b\<rparr>) = the_root s" "the_root (s\<lparr>ss_abandon := b\<rparr>) = the_root s"
  "the_root (s\<lparr>ss_dropped := k'\<rparr>) = the_root s" "the_root (s\<lparr>ss_root := Some r\<rparr>) = r"
  by (simp_all add: the_root_def)

text \<open>The root after a publication, whose session folder is there.\<close>

lemma publish_root:
  assumes "dict_get (the_root s) (pv_session p) = Some d" and "name \<in> set (sd_hidden d)"
  shows "the_root (publish env True p name nxt s) =
      dict_set (pv_session p) \<lparr>sd_steps = dict_set (pv_step p) (save_folder env (pv_session p) (pv_step p) (pv_completed p) (pv_messages p))
        (sd_steps d), sd_hidden = removeAll name (sd_hidden d)\<rparr> (the_root s)"
    and "ss_announced (publish env True p name nxt s) = ss_announced s @ [(pv_session p, pv_step p)]"
  using assms by (simp_all add: publish_def Let_def)

lemma labels_ok_publish: "labels_ok s \<Longrightarrow> labels_ok (publish env put p name nxt s)"
proof (cases "put \<and> (\<exists>d. dict_get (the_root s) (pv_session p) = Some d \<and> name \<in> set (sd_hidden d))")
  case True
  assume ok: "labels_ok s"
  from True obtain d where d: "dict_get (the_root s) (pv_session p) = Some d" "name \<in> set (sd_hidden d)" "put" by auto
  have "labelled (pv_session p) d" using ok d(1) by (simp add: labels_ok_def)
  note lab = labelled_more(3) [OF this save_folder_label]
  have "labelled (pv_session p) \<lparr>sd_steps = dict_set (pv_step p) (save_folder env (pv_session p) (pv_step p) (pv_completed p)
      (pv_messages p)) (sd_steps d), sd_hidden = h\<rparr>" for h by (rule lab) simp
  from labels_ok_set_dir [OF ok this publish_root(1) [OF d(1,2)]] d(3) show ?thesis by simp
next
  case False
  assume "labels_ok s"
  moreover have "the_root (publish env put p name nxt s) = the_root s"
    using False by (auto simp: publish_def split: option.split)
  ultimately show ?thesis by (simp add: labels_ok_def)
qed

lemma worker_root:
  "(\<And>p nxt. ss_phase s \<noteq> AtTaken p nxt) \<Longrightarrow> (\<And>p name nxt. ss_phase s \<noteq> AtPublish p name nxt) \<Longrightarrow>
   the_root (worker_step env made put s) = the_root s"
  by (cases "ss_phase s") (auto simp: worker_step_def split: list.split nat.split)

lemma save_begin_root:
  "the_root (save_begin made p nxt s) = (if made then dict_set (pv_session p)
     (dir_of s (pv_session p)\<lparr>sd_hidden := ss_names s # sd_hidden (dir_of s (pv_session p))\<rparr>) (the_root s) else the_root s)"
  by (simp add: save_begin_def Let_def)

lemma labels_ok_worker: "labels_ok s \<Longrightarrow> labels_ok (worker_step env made put s)"
proof (cases "ss_phase s")
  case (AtTaken p nxt)
  assume ok: "labels_ok s"
  have "labelled (pv_session p) (dir_of s (pv_session p)\<lparr>sd_hidden := h\<rparr>)" for h
    by (rule labelled_more(1) [OF dir_of_labelled [OF ok]]) simp
  from labels_ok_set_dir [OF ok this save_begin_root [of True, simplified]]
  have "labels_ok (save_begin made p nxt s)"
    using ok save_begin_root [of False p nxt s] by (cases made) (simp_all add: labels_ok_def)
  moreover have "labels_ok (s\<lparr>ss_phase := Ended\<rparr>)" using ok by (simp add: labels_ok_def)
  ultimately show ?thesis using AtTaken by (simp add: worker_step_def)
next
  case (AtPublish p name nxt)
  assume "labels_ok s"
  with AtPublish labels_ok_publish show ?thesis by (simp add: worker_step_def)
qed (use worker_root [of s env made put] in \<open>simp_all add: labels_ok_def\<close>)

lemma hidden_resume: "ss_phase s = resume nxt \<Longrightarrow> hidden_ok s"
  by (cases nxt) (simp_all add: hidden_ok_def)

lemma hidden_ok_worker: "hidden_ok s \<Longrightarrow> hidden_ok (worker_step env made put s)"
proof (cases "ss_phase s")
  case (AtTaken p nxt)
  show ?thesis
  proof (cases "ss_abandon s \<or> made")
    case True
    with AtTaken show ?thesis by (auto simp: worker_step_def hidden_ok_def save_begin_def Let_def dict_simps)
  next
    case False
    with AtTaken show ?thesis by (auto simp: worker_step_def save_begin_def intro: hidden_resume)
  qed
next
  case (AtPublish p name nxt)
  with publish_fields(1) [of env put p name nxt s] show ?thesis by (auto simp: worker_step_def intro: hidden_resume)
next
  case (AtDrain n f)
  then show ?thesis by (auto simp: worker_step_def hidden_ok_def split: list.split nat.split)
qed (auto simp: worker_step_def hidden_ok_def split: list.split)

lemma folders_ok_same:
  assumes "ss_phase s' = ss_phase s" "ss_queue s' = ss_queue s" "ss_failed s' = ss_failed s" "the_root s' = the_root s"
  shows "folders_ok s \<Longrightarrow> folders_ok s'"
  using assms by (simp add: folders_ok_def ids_ok_def hidden_ok_def labels_ok_def)

lemma ensure_started_folders: "folders_ok s \<Longrightarrow> folders_ok (ensure_started s)"
  by (auto simp: folders_ok_def ids_ok_def hidden_ok_def labels_ok_def)

lemma folders_ok_dirs:
  assumes ok: "folders_ok s" and "ss_phase s' = ss_phase s" "ss_queue s' = ss_queue s" "ss_failed s' = ss_failed s"
    and kept: "\<And>sid d. dict_get (the_root s) sid = Some d \<Longrightarrow> sd_hidden d \<noteq> [] \<Longrightarrow>
      \<exists>d'. dict_get (the_root s') sid = Some d' \<and> sd_hidden d' = sd_hidden d"
    and labels: "labels_ok s'"
  shows "folders_ok s'"
proof -
  have "hidden_ok s'"
  proof (cases "ss_phase s")
    case (AtPublish p name nxt)
    with ok obtain d where "dict_get (the_root s) (pv_session p) = Some d" "name \<in> set (sd_hidden d)"
      by (auto simp: folders_ok_def hidden_ok_def split: option.splits)
    moreover from this obtain d' where "dict_get (the_root s') (pv_session p) = Some d'" "sd_hidden d' = sd_hidden d"
      using kept by (metis empty_iff empty_set)
    ultimately show ?thesis using AtPublish assms(2) by (simp add: hidden_ok_def)
  qed (simp_all add: hidden_ok_def assms(2))
  with ok assms(2-4) labels show ?thesis by (simp add: folders_ok_def ids_ok_def)
qed

lemma reap_remove_folders: "folders_ok s \<Longrightarrow> folders_ok (reap_remove s)"
proof (cases "\<exists>sid step d. ss_doomed s = Some (sid, step) \<and> dict_get (the_root s) sid = Some d")
  case True
  assume ok: "folders_ok s"
  from True obtain sid step d where d: "ss_doomed s = Some (sid, step)" "dict_get (the_root s) sid = Some d" by auto
  have root: "the_root (reap_remove s) = dict_set sid (d\<lparr>sd_steps := dict_del step (sd_steps d)\<rparr>) (the_root s)"
    using d by (simp add: reap_remove_def)
  have "labelled sid d" using ok d(2) by (simp add: folders_ok_def labels_ok_def)
  note lab = labelled_more(2) [OF this]
  have "labelled sid (d\<lparr>sd_steps := dict_del step (sd_steps d)\<rparr>)" by (rule lab) simp
  from labels_ok_set_dir [OF _ this root] ok have "labels_ok (reap_remove s)" by (simp add: folders_ok_def)
  with d show ?thesis
    by (intro folders_ok_dirs [OF ok]) (auto simp: root dict_simps reap_remove_def)
next
  case False
  assume "folders_ok s"
  with False show ?thesis
    by (auto simp: reap_remove_def split: option.split intro: folders_ok_same [of _ s])
qed

lemma reap_session_folders: "folders_ok s \<Longrightarrow> folders_ok (reap_session sid s)"
proof (cases "\<exists>d. dict_get (the_root s) sid = Some d \<and> sd_steps d = [] \<and> sd_hidden d = []")
  case True
  assume ok: "folders_ok s"
  have s': "reap_session sid s = s\<lparr>ss_root := Some (dict_del sid (the_root s))\<rparr>" using True by (auto simp: reap_session_def)
  have "labels_ok (reap_session sid s)" using ok by (simp add: s' folders_ok_def labels_ok_def dict_simps)
  with True show ?thesis by (intro folders_ok_dirs [OF ok]) (auto simp: s' dict_simps)
next
  case False
  then have "reap_session sid s = s" by (auto simp: reap_session_def split: option.split)
  then show "folders_ok s \<Longrightarrow> ?thesis" by simp
qed

lemma store_folders_ok:
  assumes ok: "folders_ok s"
  shows "folders_ok (store_step s op)"
proof (cases op)
  case (Admit sid step completed messages)
  with ok ensure_started_folders [OF ok] show ?thesis
    by (auto simp: admit_def Let_def note_dropped_def folders_ok_def ids_ok_def hidden_ok_def labels_ok_def)
next
  case (AdmitFailed sid first last_step e messages)
  with ok ensure_started_folders [OF ok] show ?thesis
    by (auto simp: admit_failed_def Let_def folders_ok_def ids_ok_def hidden_ok_def labels_ok_def)
next
  case (Work env made put)
  with ok show ?thesis by (simp add: folders_ok_def ids_ok_worker hidden_ok_worker labels_ok_worker)
next
  case (ReapJudge now sid step)
  with ok show ?thesis by (auto simp: reap_judge_def split: option.split intro: folders_ok_same [of _ s])
qed (use ok reap_remove_folders [OF ok] reap_session_folders [OF ok] in
    \<open>auto simp: close_store_def abandon_def intro: folders_ok_same [of _ s]\<close>)

interpretation store_folders: step_invariant store_step folders_ok
  by unfold_locales (rule store_folders_ok)

lemma init_folders_ok: "folders_ok (init_step_store m)"
  by (simp add: folders_ok_def ids_ok_def hidden_ok_def labels_ok_def init_step_store_def the_root_def)

section \<open>What was saved\<close>

text \<open>
  \<open>ss_announced\<close> records the publications that succeeded. Every one of them is a save that ended, and
  when no directory operation or write failed, every save that ended is one of them: a save about to
  publish has its session folder and its hidden folder (\<open>hidden_ok\<close>).
\<close>

fun writes_succeed :: "('a, 'm) store_op \<Rightarrow> bool" where
  "writes_succeed (Work env made put) \<longleftrightarrow> made \<and> put"
| "writes_succeed _ \<longleftrightarrow> True"

definition saves_ended :: "('a, 'm) step_store \<Rightarrow> bool" where
  "saves_ended s \<longleftrightarrow> subseq (ss_announced s) (map key_of (ss_ended s))"

lemma reap_announced:
  "ss_announced (reap_judge now sid step s) = ss_announced s" "ss_ended (reap_judge now sid step s) = ss_ended s"
  "ss_announced (reap_remove s) = ss_announced s" "ss_ended (reap_remove s) = ss_ended s"
  "ss_announced (reap_session sid s) = ss_announced s" "ss_ended (reap_session sid s) = ss_ended s"
  by (auto simp: reap_judge_def reap_remove_def reap_session_def set_dir_def split: option.split)

lemma admit_announced:
  "ss_announced (fst (admit sid step c ms s)) = ss_announced s" "ss_ended (fst (admit sid step c ms s)) = ss_ended s"
  "ss_announced (fst (admit_failed sid first l e ms s)) = ss_announced s"
  "ss_ended (fst (admit_failed sid first l e ms s)) = ss_ended s"
  by (auto simp: admit_def admit_failed_def note_dropped_def Let_def)

lemma publish_announced:
  "ss_announced (publish env put p name nxt s) = ss_announced s @
     (if put \<and> (\<exists>d. dict_get (the_root s) (pv_session p) = Some d \<and> name \<in> set (sd_hidden d)) then [key_of p] else [])"
  by (auto simp: publish_def Let_def key_of_def save_ends_def set_dir_def split: option.split)

text \<open>The one step of a run that ends saves.\<close>

lemma worker_announced:
  obtains "ss_announced (worker_step env made put s) = ss_announced s" "ss_ended (worker_step env made put s) = ss_ended s"
  | p nxt where "ss_phase s = AtTaken p nxt" "\<not> made" "ss_announced (worker_step env made put s) = ss_announced s"
      "ss_ended (worker_step env made put s) = ss_ended s @ [p]"
  | p name nxt where "ss_phase s = AtPublish p name nxt" "worker_step env made put s = publish env put p name nxt s"
proof (cases "ss_phase s")
  case (AtTaken p nxt)
  then show ?thesis using that(1,2)
    by (cases "ss_abandon s"; cases made) (auto simp: worker_step_def save_begin_def save_ends_def set_dir_def Let_def)
next
  case (AtPublish p name nxt)
  then show ?thesis using that(3) by (simp add: worker_step_def)
qed (use that(1) in \<open>auto simp: worker_step_def split: list.split nat.split\<close>)

lemma store_saves_ended:
  assumes "saves_ended s"
  shows "saves_ended (store_step s op)"
proof (cases op)
  case (Work env made put)
  show ?thesis
  proof (cases rule: worker_announced [of env made put s])
    case 1
    with assms Work show ?thesis by (simp add: saves_ended_def)
  next
    case (2 p nxt)
    with assms Work show ?thesis by (simp add: saves_ended_def subseq_rev_drop_many)
  next
    case (3 p name nxt)
    have "subseq (ss_announced s @ (if b then [key_of p] else [])) (map key_of (ss_ended s) @ [key_of p])" for b
      using assms by (auto simp: saves_ended_def intro: list_emb_append_mono subseq_rev_drop_many)
    with 3 Work show ?thesis by (simp only: saves_ended_def publish_announced publish_fields store_step.simps map_append list.map)
  qed
qed (use assms in \<open>simp_all add: saves_ended_def reap_announced admit_announced close_store_def abandon_def\<close>)

interpretation store_saves: step_invariant store_step saves_ended
  by unfold_locales (rule store_saves_ended)

lemma run_saves_ended: "saves_ended (foldl store_step (init_step_store m) ops)"
  by (rule store_saves.run_keeps) (simp add: saves_ended_def init_step_store_def)

lemma store_saves_all:
  assumes all: "ss_announced s = map key_of (ss_ended s)" and "folders_ok s" and "writes_succeed op"
  shows "ss_announced (store_step s op) = map key_of (ss_ended (store_step s op))"
proof (cases op)
  case (Work env made put)
  with assms(3) have ok: made put by simp_all
  show ?thesis
  proof (cases rule: worker_announced [of env made put s])
    case (3 p name nxt)
    with assms(2) have "\<exists>d. dict_get (the_root s) (pv_session p) = Some d \<and> name \<in> set (sd_hidden d)"
      by (simp add: folders_ok_def hidden_ok_def)
    with 3 Work ok all show ?thesis by (simp add: publish_announced publish_fields)
  qed (use Work ok all in simp_all)
qed (use all in \<open>simp_all add: reap_announced admit_announced close_store_def abandon_def\<close>)

lemma run_saves_all:
  assumes "list_all writes_succeed ops"
  shows "ss_announced (foldl store_step (init_step_store m) ops) = map key_of (ss_ended (foldl store_step (init_step_store m) ops))"
  using assms
proof (induction ops rule: rev_induct)
  case Nil
  then show ?case by (simp add: init_step_store_def)
next
  case (snoc op ops)
  have "folders_ok (foldl store_step (init_step_store m) ops)"
    by (rule store_folders.run_keeps) (rule init_folders_ok)
  from store_saves_all [OF _ this] snoc show ?case by simp
qed

lemma of_session_subseq: "subseq ks ls \<Longrightarrow> subseq (of_session sid ks) (of_session sid ls)"
  unfolding of_session_def by (rule subseq_filter)

text \<open>What a run of the store promised, tried and saved.\<close>

lemma run_order:
  assumes "orderly_run (init_step_store m) ops"
  obtains rest where
    "of_session sid (promises (init_step_store m) ops) =
       of_session sid (map key_of (ss_ended (foldl store_step (init_step_store m) ops))) @ rest"
    "\<not> ss_abandon (foldl store_step (init_step_store m) ops) \<Longrightarrow>
       rest = of_session sid (map key_of (todo (foldl store_step (init_step_store m) ops)))"
    "\<not> ss_abandon (foldl store_step (init_step_store m) ops) \<Longrightarrow>
       ss_phase (foldl store_step (init_step_store m) ops) = Ended \<Longrightarrow>
       rest = of_session sid (map key_of (ss_queue (foldl store_step (init_step_store m) ops)))"
proof -
  let ?s = "foldl store_step (init_step_store m) ops"
  have all: "order_ok (promises (init_step_store m) ops) ?s"
    using run_order_ok [OF init_order_ok assms] by simp
  then have "\<forall>sid. \<exists>rest. of_session sid (promises (init_step_store m) ops) = of_session sid (map key_of (ss_ended ?s)) @ rest \<and>
       (ss_phase ?s = Ended \<and> ss_abandon ?s \<or> rest = of_session sid (map key_of (todo ?s)))"
    by (simp add: order_ok_def)
  then obtain rest where "of_session sid (promises (init_step_store m) ops) = of_session sid (map key_of (ss_ended ?s)) @ rest"
    "ss_phase ?s = Ended \<and> ss_abandon ?s \<or> rest = of_session sid (map key_of (todo ?s))" by metis
  moreover have "ss_phase ?s = Ended \<and> \<not> ss_abandon ?s \<longrightarrow> todo ?s = ss_queue ?s"
    using all by (auto simp: order_ok_def todo_def)
  ultimately show ?thesis using that [of rest] by auto
qed

text \<open>
  C5. Steps are saved in order: over any interleaving of admissions, the worker, a close and sweeps
  in which no session admits a step while a failed range of it waits, the steps announced as saved
  are, session by session, among the steps promised to it and in the order of their promises,
  whatever writes failed; and when no directory operation or write failed, they are the first of
  the promises with none left out, and unless the worker was abandoned the other promises are exactly
  what is still to be done, so that a worker that ended has saved every failed range and leaves at
  most what the queue holds.
\<close>

theorem steps_saved_in_order:
  assumes "orderly_run (init_step_store m) ops"
  shows "let s = foldl store_step (init_step_store m) ops;
             kept = of_session sid (promises (init_step_store m) ops);
             saved = of_session sid (ss_announced s)
    in subseq saved kept \<and>
       (list_all writes_succeed ops \<longrightarrow>
          prefix saved kept \<and>
          (\<not> ss_abandon s \<longrightarrow> kept = saved @ of_session sid (map key_of (todo s))) \<and>
          (\<not> ss_abandon s \<and> ss_phase s = Ended \<longrightarrow> kept = saved @ of_session sid (map key_of (ss_queue s))))"
proof -
  from run_order [OF assms, of sid] obtain rest where rest:
    "of_session sid (promises (init_step_store m) ops) =
       of_session sid (map key_of (ss_ended (foldl store_step (init_step_store m) ops))) @ rest"
    "\<not> ss_abandon (foldl store_step (init_step_store m) ops) \<Longrightarrow>
       rest = of_session sid (map key_of (todo (foldl store_step (init_step_store m) ops)))"
    "\<not> ss_abandon (foldl store_step (init_step_store m) ops) \<Longrightarrow>
       ss_phase (foldl store_step (init_step_store m) ops) = Ended \<Longrightarrow>
       rest = of_session sid (map key_of (ss_queue (foldl store_step (init_step_store m) ops)))" by blast
  have "subseq (of_session sid (ss_announced (foldl store_step (init_step_store m) ops))) (of_session sid (promises (init_step_store m) ops))"
    unfolding rest(1) using of_session_subseq [OF run_saves_ended [unfolded saves_ended_def]] by (rule subseq_rev_drop_many)
  with rest run_saves_all [of ops m] show ?thesis by (auto simp: Let_def)
qed

definition demo_saves :: "((nat list \<times> int list), unit) store_op list" where
  "demo_saves = [Admit demo_id 1 (demo_step ''a.txt'') [], AdmitFailed demo_id 2 4 ''boom'' []] @ replicate 17 demo_work"

lemma demo_saves_orderly:
  "orderly_run (init_step_store 4) demo_saves"
  "promises (init_step_store 4) demo_saves = map (Pair demo_id) [1, 2, 3, 4]"
  "ss_abandon (foldl store_step (init_step_store 4) demo_saves) = False"
  "todo (foldl store_step (init_step_store 4) demo_saves) = []"
  "list_all writes_succeed demo_saves"
  by code_simp+

theorem steps_saved_in_order_witness:
  "of_session demo_id (ss_announced (foldl store_step (init_step_store 4) demo_saves)) = map (Pair demo_id) [1, 2, 3, 4]"
  using steps_saved_in_order [OF demo_saves_orderly(1), of demo_id] demo_saves_orderly(2-5) by (simp add: Let_def)

text \<open>
  C21. A closed store saves everything it promised: once it is closed (after a run in which no
  session admits a step while a failed range of it waits), with the worker started, not abandoned and not
  past its look at the empty queue with a step behind it, the worker ends after at most \<open>work_left\<close>
  steps of its own, having tried to save exactly the promised steps, session by session in order,
  whatever directory operations and writes fail on the way; what it announces as saved is among
  them in that order, and is all of them when none failed.
\<close>

theorem closed_store_saves_everything:
  assumes "orderly_run (init_step_store m) ops"
    and "settled (foldl store_step (init_step_store m) ops)"
    and "work_left (foldl store_step (init_step_store m) ops) \<le> length ws"
  shows "let s = foldl store_step (init_step_store m) (ops @ map working ws);
             kept = of_session sid (promises (init_step_store m) ops)
    in ss_phase s = Ended \<and>
       of_session sid (map key_of (ss_ended s)) = kept \<and>
       subseq (of_session sid (ss_announced s)) kept \<and>
       (list_all writes_succeed (ops @ map working ws) \<longrightarrow> of_session sid (ss_announced s) = kept)"
proof -
  let ?all = "ops @ map working ws"
  let ?e = "foldl store_step (init_step_store m) ?all"
  have orderly: "orderly_run (init_step_store m) ?all" using assms(1) by (simp add: orderly_append orderly_working)
  have same: "promises (init_step_store m) ?all = promises (init_step_store m) ops"
    by (simp add: promises_append promises_working)
  have e: "ss_phase ?e = Ended" "ss_queue ?e = []" "\<not> ss_abandon ?e"
    using working_ends [OF assms(2,3)] settled_run [OF assms(2), of ws] by (auto simp: settled_def)
  from run_order [OF orderly, of sid] e
  have tried: "of_session sid (map key_of (ss_ended ?e)) = of_session sid (promises (init_step_store m) ops)"
    unfolding same by (metis append_Nil2 list.map(1) of_session_simps(1))
  with e run_saves_all [of ?all m] of_session_subseq [OF run_saves_ended [unfolded saves_ended_def], of sid m ?all]
  show ?thesis unfolding Let_def by (metis (no_types, lifting))
qed

definition demo_close :: "((nat list \<times> int list), unit) store_op list" where
  "demo_close = [Admit demo_id 1 (demo_step ''a.txt'') [], AdmitFailed demo_id 2 4 ''boom'' [], CloseStore]"

lemma demo_close_settled:
  "orderly_run (init_step_store 4) demo_close" "settled (foldl store_step (init_step_store 4) demo_close)"
  "work_left (foldl store_step (init_step_store 4) demo_close) \<le> 63"
  "promises (init_step_store 4) demo_close = map (Pair demo_id) [1, 2, 3, 4]"
  "list_all writes_succeed (demo_close @ map working (replicate 63 (demo_env, True, True)))"
  by code_simp+

theorem closed_store_saves_everything_witness:
  "ss_phase (foldl store_step (init_step_store 4) (demo_close @ map working (replicate 63 (demo_env, True, True)))) = Ended \<and>
   of_session demo_id (ss_announced (foldl store_step (init_step_store 4)
     (demo_close @ map working (replicate 63 (demo_env, True, True))))) = map (Pair demo_id) [1, 2, 3, 4]"
proof -
  have "of_session demo_id (map (Pair demo_id) [1, 2, 3, 4]) = map (Pair demo_id) [1, 2, 3, 4]" by simp
  with closed_store_saves_everything [OF demo_close_settled(1,2), of "replicate 63 (demo_env, True, True)" demo_id]
    demo_close_settled(3-5) show ?thesis unfolding Let_def by (metis length_replicate)
qed

text \<open>
  A finished save is there to be read: in every reachable state a save about to publish has
  its session folder, however the sweeps ran, so unless writing the result or renaming fails, the
  publication puts exactly the written folder under the step's number, replaces an older one,
  lists it among the ready steps, announces it once, and serves from it only files its result lists.
\<close>

theorem published_step_is_readable:
  fixes ops :: "('a, 'm) store_op list" and m :: int
  defines "s \<equiv> foldl store_step (init_step_store m) ops"
  assumes "ss_phase s = AtPublish p name nxt" and "1 \<le> pv_step p"
  shows "let s' = store_step s (Work env made True); fd = save_folder env (pv_session p) (pv_step p) (pv_completed p) (pv_messages p)
    in result_path s' (pv_session p) (pv_step p) = Some fd \<and>
       pv_step p \<in> set (the (ready_steps s' (pv_session p))) \<and>
       ss_announced s' = ss_announced s @ [(pv_session p, pv_step p)] \<and>
       file_path s' (pv_session p) (pv_step p) file =
         (case find (\<lambda>e. fe_name e = file) (sr_files (fd_result fd)) of
            None \<Rightarrow> None | Some e \<Rightarrow> map_option (\<lambda>data. (data, fe_content_type e)) (dict_get (fd_files fd) file))"
proof -
  let ?fd = "save_folder env (pv_session p) (pv_step p) (pv_completed p) (pv_messages p)"
  have ok: "folders_ok s" unfolding s_def by (rule store_folders.run_keeps) (rule init_folders_ok)
  then have id: "session_id_matches (pv_session p)" using assms(2) by (simp add: folders_ok_def ids_ok_def)
  from ok assms(2) obtain d where d: "dict_get (the_root s) (pv_session p) = Some d" "name \<in> set (sd_hidden d)"
    by (auto simp: folders_ok_def hidden_ok_def split: option.splits)
  define s' where "s' = store_step s (Work env made True)"
  have s': "s' = publish env True p name nxt s" using assms(2) by (simp add: s'_def worker_step_def)
  note pub = publish_root [OF d, of env nxt, folded s']
  have "the_root s' \<noteq> []" using pub(1) d(1) by (cases "the_root s") auto
  then have "ss_root s' = Some (the_root s')" by (simp add: the_root_def split: option.splits)
  with pub(1) id have dir: "session_dir_of s' (pv_session p) =
      Some \<lparr>sd_steps = dict_set (pv_step p) ?fd (sd_steps d), sd_hidden = removeAll name (sd_hidden d)\<rparr>"
    by (simp add: session_dir_of_def dict_simps)
  then have res: "result_path s' (pv_session p) (pv_step p) = Some ?fd"
    using assms(3) by (simp add: result_path_def dict_simps)
  moreover have "pv_step p \<in> set (the (ready_steps s' (pv_session p)))"
    using dir assms(3) by (simp add: ready_steps_def image_keys_dict_set)
  ultimately show ?thesis unfolding Let_def s'_def [symmetric] file_path_def using pub(2) by simp
qed

definition demo_begun :: "((nat list \<times> int list), unit) store_op list" where
  "demo_begun = [Admit demo_id 1 (demo_step ''a.txt'') [], demo_work, demo_work, demo_work]"

definition demo_pending :: "((nat list \<times> int list), unit) pending_save" where
  "demo_pending = \<lparr>pv_session = demo_id, pv_step = 1, pv_completed = demo_step ''a.txt'', pv_messages = [], pv_last = 0\<rparr>"

lemma demo_begun_phase: "ss_phase (foldl store_step (init_step_store 4) demo_begun) = AtPublish demo_pending 0 BackToTop"
  by code_simp

theorem published_step_is_readable_witness:
  "result_path (store_step (foldl store_step (init_step_store 4) demo_begun) demo_work) demo_id 1 \<noteq> None \<and>
   file_path (store_step (foldl store_step (init_step_store 4) demo_begun) demo_work) demo_id 1 ''b.txt'' = None"
proof -
  have "find (\<lambda>e. fe_name e = ''b.txt'') (sr_files (fd_result (save_folder demo_env (pv_session demo_pending) (pv_step demo_pending)
      (pv_completed demo_pending) (pv_messages demo_pending)))) = None" by code_simp
  with published_step_is_readable [OF demo_begun_phase, of demo_env True "''b.txt''"] show ?thesis
    by (simp add: Let_def demo_pending_def)
qed

definition demo_resave :: "((nat list \<times> int list), unit) store_op list" where
  "demo_resave = demo_begun @ [demo_work, ReapJudge 500 demo_id 1, Admit demo_id 1 (demo_step ''b.txt'') []] @
     replicate 4 (Work (demo_env\<lparr>se_now := 500\<rparr>) True True)"

text \<open>
  A sweep can remove a folder that was just saved: it judges an aged folder, a session with a
  reused id then publishes the same step anew, and the sweep removes by name what is there now,
  long before its retention has passed.
\<close>

theorem sweep_removes_fresh_folder:
  "let s = foldl store_step (init_step_store 4) demo_resave in
   map_option fd_written_at (result_path s demo_id 1) = Some 500 \<and>
   result_path (store_step s ReapRemove) demo_id 1 = None"
  by code_simp

end
