(* ===== verification/WireFrames.thy ===== *)
theory WireFrames
  imports Values "HOL-Library.Word"
begin

unbundle bit_operations_syntax

text \<open>
  Media frames on the wire, \<^verbatim>\<open>protocol/frames.py\<close>: the raw codec (check, decode, encode),
  the codec registry, and a step's media as frames of its output tracks.

  A decoded array is its shape and its samples in row-major order. The arrays a model emits are
  NumPy's: a parameter \<open>'a wire_np\<close> holds their shape, their items along the first axis, whether
  their dtype is floating, and the three conversions the code asks for (\<open>astype(uint8)\<close>, the scaled
  and clipped float samples, the rounded integer ones), \<open>None\<close> where the conversion raises. The
  protobuf \<open>Frame\<close> is a record of its fields.
\<close>

section \<open>Frames\<close>

record frame =
  fr_encoding :: int
  fr_dtype :: string
  fr_shape :: "nat list"
  fr_data :: "8 word list"
  fr_metadata :: "bytes option"
  fr_capture_time_us :: "int option"

datatype frame_error =
    WrongDtype
  | WrongRank
  | NotRGB
  | WrongLength nat nat
  | UnsupportedEncoding int
  | CannotBeCarried
  | CannotBeShaped
  | MetadataCount nat nat

record ndarray =
  nd_shape :: "nat list"
  nd_samples :: "int list"

record 'a wire_np =
  wn_shape :: "'a \<Rightarrow> nat list"
  wn_index :: "'a \<Rightarrow> nat \<Rightarrow> 'a"
  wn_floating :: "'a \<Rightarrow> bool"
  wn_uint8 :: "'a \<Rightarrow> 8 word list option"
  wn_scaled :: "'a \<Rightarrow> 16 word list option"
  wn_rint :: "'a \<Rightarrow> 16 word list option"

fun RAW_LAYOUT :: "track_kind \<Rightarrow> string \<times> nat" where
  "RAW_LAYOUT VIDEO = (''uint8'', 3)"
| "RAW_LAYOUT AUDIO = (''int16'', 2)"

fun itemsize :: "track_kind \<Rightarrow> nat" where
  "itemsize VIDEO = 1"
| "itemsize AUDIO = 2"

definition RAW :: int where "RAW = 1"

section \<open>The raw codec\<close>

definition raw_check :: "frame \<Rightarrow> track_kind \<Rightarrow> frame_error + nat list" where
  "raw_check fr kind =
     (let (dtype, rank) = RAW_LAYOUT kind; shape = fr_shape fr; expected = prodl shape * itemsize kind
      in if fr_dtype fr \<noteq> dtype then Inl WrongDtype
         else if length shape \<noteq> rank \<or> 0 \<in> set shape then Inl WrongRank
         else if kind = VIDEO \<and> shape ! 2 \<noteq> 3 then Inl NotRGB
         else if length (fr_data fr) \<noteq> expected then Inl (WrongLength expected (length (fr_data fr)))
         else Inr (if kind = AUDIO then [1, shape ! 1] else shape))"

definition le_bytes :: "16 word \<Rightarrow> 8 word list" where
  "le_bytes w = [ucast w, ucast (drop_bit 8 w)]"

fun le_words :: "8 word list \<Rightarrow> 16 word list" where
  "le_words (a # b # rest) = (ucast a OR push_bit 8 (ucast b)) # le_words rest"
| "le_words _ = []"

text \<open>Rounding half to even of a fraction, as \<open>np.round\<close> does on the mean of a few samples.\<close>

definition round_fraction :: "int \<Rightarrow> int \<Rightarrow> int" where
  "round_fraction s n =
     (let q = s div n; r = s mod n
      in if 2 * r < n then q else if n < 2 * r then q + 1 else if even q then q else q + 1)"

definition mix_mono :: "nat \<Rightarrow> nat \<Rightarrow> int list \<Rightarrow> int list" where
  "mix_mono channels count samples =
     map (\<lambda>j. sint (word_of_int (round_fraction (\<Sum>i\<leftarrow>[0..<channels]. samples ! (i * count + j)) (int channels)) :: 16 word))
       [0..<count]"

definition raw_decode :: "frame \<Rightarrow> track_kind \<Rightarrow> frame_error + ndarray" where
  "raw_decode fr kind =
     (case raw_check fr kind of
        Inl e \<Rightarrow> Inl e
      | Inr _ \<Rightarrow>
          (let shape = fr_shape fr in
           case kind of
             VIDEO \<Rightarrow> Inr \<lparr>nd_shape = shape, nd_samples = map uint (fr_data fr)\<rparr>
           | AUDIO \<Rightarrow>
               let samples = map sint (le_words (fr_data fr)) in
               if 1 < shape ! 0
               then Inr \<lparr>nd_shape = [1, shape ! 1], nd_samples = mix_mono (shape ! 0) (shape ! 1) samples\<rparr>
               else Inr \<lparr>nd_shape = shape, nd_samples = samples\<rparr>))"

definition int16_audio :: "'a wire_np \<Rightarrow> 'a \<Rightarrow> (nat list \<times> 16 word list) option" where
  "int16_audio np data =
     (let shape = (if length (wn_shape np data) = 1 then [1, wn_shape np data ! 0] else wn_shape np data)
      in map_option (Pair shape) (if wn_floating np data then wn_scaled np data else wn_rint np data))"

definition raw_samples :: "'a wire_np \<Rightarrow> 'a \<Rightarrow> track_kind \<Rightarrow> (nat list \<times> 8 word list) option" where
  "raw_samples np data kind =
     (case kind of
        AUDIO \<Rightarrow> map_option (map_prod id (\<lambda>ws. concat (map le_bytes ws))) (int16_audio np data)
      | VIDEO \<Rightarrow> map_option (Pair (wn_shape np data)) (wn_uint8 np data))"

definition raw_encode :: "'a wire_np \<Rightarrow> 'a \<Rightarrow> track_kind \<Rightarrow> frame_error + frame" where
  "raw_encode np data kind =
     (case raw_samples np data kind of
        None \<Rightarrow> Inl CannotBeCarried
      | Some (shape, raw) \<Rightarrow>
          if length shape \<noteq> snd (RAW_LAYOUT kind) \<or> 0 \<in> set shape \<or> kind = VIDEO \<and> shape ! 2 \<noteq> 3
          then Inl CannotBeShaped
          else Inr \<lparr>fr_encoding = RAW, fr_dtype = fst (RAW_LAYOUT kind), fr_shape = shape, fr_data = raw,
                 fr_metadata = None, fr_capture_time_us = None\<rparr>)"

section \<open>The registry\<close>

definition frame_codec :: "frame \<Rightarrow> (frame_error + 'c) \<Rightarrow> frame_error + 'c" where
  "frame_codec fr r = (if fr_encoding fr = RAW then r else Inl (UnsupportedEncoding (fr_encoding fr)))"

definition check_frame :: "frame \<Rightarrow> track_kind \<Rightarrow> frame_error + nat list" where
  "check_frame fr kind = frame_codec fr (raw_check fr kind)"

definition decoded_frame :: "frame \<Rightarrow> ndarray \<Rightarrow> ndarray input_frame" where
  "decoded_frame fr data =
     \<lparr>if_data = data, if_pts = None, if_metadata = fr_metadata fr, if_capture_time_us = fr_capture_time_us fr\<rparr>"

definition decode_frame :: "frame \<Rightarrow> track_kind \<Rightarrow> frame_error + ndarray input_frame" where
  "decode_frame fr kind = map_sum id (decoded_frame fr) (frame_codec fr (raw_decode fr kind))"

definition encode_frame :: "'a wire_np \<Rightarrow> 'a \<Rightarrow> track_kind \<Rightarrow> bytes option \<Rightarrow> int \<Rightarrow> frame_error + frame" where
  "encode_frame np data kind metadata encoding =
     (if encoding \<noteq> RAW then Inl (UnsupportedEncoding encoding)
      else map_sum id (\<lambda>fr. if metadata = None then fr else fr\<lparr>fr_metadata := metadata\<rparr>) (raw_encode np data kind))"

section \<open>A step's media\<close>

definition has_no_samples :: "nat list \<Rightarrow> bool" where
  "has_no_samples shape \<longleftrightarrow> shape = [0] \<or> length shape = 2 \<and> 0 < shape ! 0 \<and> shape ! 1 = 0"

fun one_metadata :: "metadata \<Rightarrow> bytes option" where
  "one_metadata (OneMeta m) = Some m"
| "one_metadata _ = None"

definition frames_of :: "'a wire_np \<Rightarrow> 'a track_data \<Rightarrow> frame_error + ('a \<times> bytes option) list" where
  "frames_of np t =
     (let data = td_data t; shape = wn_shape np data; kind = ti_kind (td_info t) in
      if kind = AUDIO \<and> has_no_samples shape then Inr []
      else if kind = VIDEO \<and> length shape = 4 then
        let count = shape ! 0 in
        case td_metadata t of
          PerFrame ms \<Rightarrow>
            if length ms \<noteq> count then Inl (MetadataCount (length ms) count)
            else Inr (map (\<lambda>i. (wn_index np data i, Some (ms ! i))) [0..<count])
        | m \<Rightarrow> Inr (map (\<lambda>i. (wn_index np data i, one_metadata m)) [0..<count])
      else case td_metadata t of
        PerFrame ms \<Rightarrow> Inl (MetadataCount (length ms) 1)
      | m \<Rightarrow> Inr [(data, one_metadata m)])"

record wire_track =
  wk_track :: string
  wk_kind :: track_kind
  wk_frames :: "frame list"
  wk_rate :: real

definition encode_track :: "'a wire_np \<Rightarrow> real option \<Rightarrow> string \<times> 'a track_data \<Rightarrow> frame_error + wire_track" where
  "encode_track np video_fps nt =
     (let (name, t) = nt; kind = ti_kind (td_info t) in
      case frames_of np t of
        Inl e \<Rightarrow> Inl e
      | Inr fs \<Rightarrow>
          map_sum id (\<lambda>frames. \<lparr>wk_track = name, wk_kind = kind, wk_frames = frames,
             wk_rate = (if kind = VIDEO \<and> video_fps \<noteq> None \<and> video_fps \<noteq> Some 0 then the video_fps else ti_rate (td_info t))\<rparr>)
           (seq_results (map (\<lambda>(data, m). encode_frame np data kind m RAW) fs)))"

definition track_frames :: "'a wire_np \<Rightarrow> 'a media_bundle option \<Rightarrow> real option \<Rightarrow> frame_error + wire_track list" where
  "track_frames np bundle video_fps =
     (case bundle of None \<Rightarrow> Inr [] | Some b \<Rightarrow> seq_results (map (encode_track np video_fps) b))"

definition media_size :: "'a wire_np \<Rightarrow> 'a media_bundle option \<Rightarrow> nat" where
  "media_size np bundle =
     (case bundle of
        None \<Rightarrow> 0
      | Some b \<Rightarrow> sum_list (map (\<lambda>(name, t). prodl (wn_shape np (td_data t)) * itemsize (ti_kind (td_info t))) b))"

section \<open>Bytes and words\<close>

lemma le_round_trip: "le_words (concat (map le_bytes ws)) = ws"
proof (induction ws)
  case (Cons w ws)
  have "ucast (ucast w :: 8 word) OR push_bit 8 (ucast (ucast (drop_bit 8 w) :: 8 word)) = w"
    by (rule bit_word_eqI) (auto simp: bit_simps)
  with Cons show ?case by (simp add: le_bytes_def)
qed simp

lemma length_le_words: "length (le_words bs) = length bs div 2"
  by (induction bs rule: le_words.induct) auto

lemma length_le_bytes: "length (concat (map le_bytes ws)) = 2 * length ws"
  by (induction ws) (simp_all add: le_bytes_def)

lemma prodl_simps: "prodl [] = 1" "prodl (n # ns) = n * prodl ns"
  by (simp_all add: prodl_def)

section \<open>Checking and decoding\<close>

lemma raw_check_ok:
  assumes "raw_check fr kind = Inr sh"
  shows "length (fr_shape fr) = snd (RAW_LAYOUT kind)" "0 \<notin> set (fr_shape fr)"
    "length (fr_data fr) = prodl (fr_shape fr) * itemsize kind"
    "sh = (if kind = AUDIO then [1, fr_shape fr ! 1] else fr_shape fr)"
  using assms by (auto simp: raw_check_def Let_def split_beta split: if_splits)

lemma raw_check_metadata [simp]: "raw_check (fr\<lparr>fr_metadata := md\<rparr>) kind = raw_check fr kind"
  by (cases kind) (simp_all add: raw_check_def Let_def)

lemma raw_decode_metadata [simp]: "raw_decode (fr\<lparr>fr_metadata := md\<rparr>) kind = raw_decode fr kind"
  by (cases kind) (simp_all add: raw_decode_def Let_def split: sum.split)

lemma two_dims: "length xs = 2 \<Longrightarrow> \<exists>c m. xs = [c, m]"
  by (cases xs; cases "tl xs") auto

lemma raw_decode_shape:
  "map_sum id nd_shape (raw_decode fr kind) = raw_check fr kind"
  "raw_decode fr kind = Inr a \<Longrightarrow> length (nd_samples a) = prodl (nd_shape a)"
proof -
  have "map_sum id nd_shape (raw_decode fr kind) = raw_check fr kind \<and>
    (\<forall>a. raw_decode fr kind = Inr a \<longrightarrow> length (nd_samples a) = prodl (nd_shape a))"
  proof (cases "raw_check fr kind")
    case (Inr sh)
    note ok = raw_check_ok [OF Inr]
    show ?thesis
    proof (cases kind)
      case VIDEO
      with Inr ok show ?thesis by (simp add: raw_decode_def Let_def)
    next
      case AUDIO
      with ok(1) obtain c m where sh: "fr_shape fr = [c, m]" using two_dims by force
      with ok(2) have "c \<noteq> 0" by simp
      with Inr ok AUDIO sh show ?thesis
        by (auto simp: raw_decode_def Let_def prodl_simps length_le_words mix_mono_def)
    qed
  qed (simp add: raw_decode_def)
  then show "map_sum id nd_shape (raw_decode fr kind) = raw_check fr kind"
    "raw_decode fr kind = Inr a \<Longrightarrow> length (nd_samples a) = prodl (nd_shape a)" by auto
qed

text \<open>
  A frame that passes the check decodes, and one that does not fails to decode with the same
  error: the check answers exactly the shape of the array the decode returns, for every frame and
  kind, and the array holds as many samples as its shape says.
\<close>

theorem check_decides_decode:
  "check_frame fr kind = map_sum id (\<lambda>f. nd_shape (if_data f)) (decode_frame fr kind) \<and>
   (case decode_frame fr kind of
      Inl e \<Rightarrow> True
    | Inr f \<Rightarrow> length (nd_samples (if_data f)) = prodl (nd_shape (if_data f)) \<and>
        if_metadata f = fr_metadata fr \<and> if_capture_time_us f = fr_capture_time_us fr)"
proof (cases "raw_decode fr kind")
  case (Inl e)
  with raw_decode_shape(1) [of fr kind] show ?thesis
    by (auto simp: check_frame_def decode_frame_def frame_codec_def)
next
  case (Inr a)
  with raw_decode_shape [of fr kind] show ?thesis
    by (auto simp: check_frame_def decode_frame_def frame_codec_def decoded_frame_def)
qed

text \<open>The laws of NumPy the codec relies on: a conversion keeps the elements, an item drops the first axis.\<close>

definition wn_sound :: "'a wire_np \<Rightarrow> bool" where
  "wn_sound np \<longleftrightarrow>
     (\<forall>a xs. wn_uint8 np a = Some xs \<longrightarrow> length xs = prodl (wn_shape np a)) \<and>
     (\<forall>a ws. wn_scaled np a = Some ws \<longrightarrow> length ws = prodl (wn_shape np a)) \<and>
     (\<forall>a ws. wn_rint np a = Some ws \<longrightarrow> length ws = prodl (wn_shape np a)) \<and>
     (\<forall>a i. i < hd (wn_shape np a) \<longrightarrow> wn_shape np (wn_index np a i) = tl (wn_shape np a))"

lemma int16_audio_count:
  assumes "wn_sound np" and "int16_audio np data = Some (shape, ws)"
  shows "length ws = prodl shape" and "prodl shape = prodl (wn_shape np data)"
proof -
  have "prodl shape = prodl (wn_shape np data)"
    using assms(2) by (cases "wn_shape np data") (auto simp: int16_audio_def Let_def prodl_simps split: if_splits)
  with assms show "length ws = prodl shape" "prodl shape = prodl (wn_shape np data)"
    by (auto simp: int16_audio_def Let_def wn_sound_def split: if_splits)
qed

lemma raw_encode_length:
  assumes "wn_sound np" and "raw_encode np data kind = Inr fr"
  shows "length (fr_data fr) = prodl (wn_shape np data) * itemsize kind" and "fr_metadata fr = None"
    and "fr_encoding fr = RAW" and "fr_capture_time_us fr = None"
  using assms int16_audio_count [OF assms(1)]
  by (auto simp: raw_encode_def raw_samples_def length_le_bytes wn_sound_def split: option.splits if_splits track_kind.splits)

lemma raw_round_trip:
  assumes "wn_sound np" and "raw_encode np data kind = Inr fr"
  shows "kind = VIDEO \<Longrightarrow> \<exists>xs. wn_uint8 np data = Some xs \<and>
      raw_decode fr kind = Inr \<lparr>nd_shape = wn_shape np data, nd_samples = map uint xs\<rparr>"
    and "kind = AUDIO \<Longrightarrow> \<exists>c m ws. int16_audio np data = Some ([c, m], ws) \<and>
      raw_decode fr kind = Inr \<lparr>nd_shape = [1, m], nd_samples = (if c = 1 then map sint ws else mix_mono c m (map sint ws))\<rparr>"
proof -
  assume V: "kind = VIDEO"
  with assms(2) obtain xs where "wn_uint8 np data = Some xs" by (auto simp: raw_encode_def raw_samples_def split: option.splits)
  moreover from this assms V show "\<exists>xs. wn_uint8 np data = Some xs \<and>
      raw_decode fr kind = Inr \<lparr>nd_shape = wn_shape np data, nd_samples = map uint xs\<rparr>"
    by (auto simp: raw_encode_def raw_samples_def raw_decode_def raw_check_def Let_def wn_sound_def split: if_splits)
next
  assume A: "kind = AUDIO"
  with assms(2) obtain shape ws where au: "int16_audio np data = Some (shape, ws)"
    by (auto simp: raw_encode_def raw_samples_def split: option.splits)
  with assms(2) A have "length shape = 2" "0 \<notin> set shape" by (auto simp: raw_encode_def raw_samples_def split: if_splits)
  moreover from this obtain c m where "shape = [c, m]" using two_dims by blast
  ultimately show "\<exists>c m ws. int16_audio np data = Some ([c, m], ws) \<and>
      raw_decode fr kind = Inr \<lparr>nd_shape = [1, m], nd_samples = (if c = 1 then map sint ws else mix_mono c m (map sint ws))\<rparr>"
    using assms(2) A au int16_audio_count(1) [OF assms(1) au]
    by (auto simp: raw_encode_def raw_samples_def raw_decode_def raw_check_def Let_def length_le_bytes le_round_trip prodl_simps)
qed

text \<open>
  What a model emits is what a client's frame would decode to: encoding an array as a raw frame
  and decoding it gives the array's shape and exactly its converted samples, video unchanged, mono
  audio unchanged and audio of several channels mixed down to one row, with the metadata carried.
\<close>

theorem frame_round_trip:
  assumes "wn_sound np" and "encode_frame np data kind metadata RAW = Inr fr"
  shows "case kind of
      VIDEO \<Rightarrow> \<exists>xs. wn_uint8 np data = Some xs \<and> decode_frame fr kind =
        Inr \<lparr>if_data = \<lparr>nd_shape = wn_shape np data, nd_samples = map uint xs\<rparr>, if_pts = None,
             if_metadata = metadata, if_capture_time_us = None\<rparr>
    | AUDIO \<Rightarrow> \<exists>c m ws. int16_audio np data = Some ([c, m], ws) \<and> decode_frame fr kind =
        Inr \<lparr>if_data = \<lparr>nd_shape = [1, m], nd_samples = (if c = 1 then map sint ws else mix_mono c m (map sint ws))\<rparr>,
             if_pts = None, if_metadata = metadata, if_capture_time_us = None\<rparr>"
proof -
  from assms(2) obtain fr0 where fr0: "raw_encode np data kind = Inr fr0"
    and fr: "fr = (if metadata = None then fr0 else fr0\<lparr>fr_metadata := metadata\<rparr>)"
    by (auto simp: encode_frame_def)
  note len = raw_encode_length [OF assms(1) fr0]
  have same: "raw_decode fr kind = raw_decode fr0 kind" by (simp add: fr)
  have "fr_encoding fr = RAW" "fr_metadata fr = metadata" "fr_capture_time_us fr = None" using len by (auto simp: fr)
  then have dec: "decode_frame fr kind = map_sum id (\<lambda>a. \<lparr>if_data = a, if_pts = None, if_metadata = metadata,
      if_capture_time_us = None\<rparr>) (raw_decode fr0 kind)"
    by (cases "raw_decode fr0 kind") (simp_all add: decode_frame_def frame_codec_def same decoded_frame_def)
  show ?thesis
  proof (cases kind)
    case VIDEO
    from raw_round_trip(1) [OF assms(1) fr0 this] dec VIDEO show ?thesis by auto
  next
    case AUDIO
    from raw_round_trip(2) [OF assms(1) fr0 this] dec AUDIO show ?thesis by auto
  qed
qed

section \<open>Mixing down\<close>

lemma round_fraction_near:
  assumes "0 < n"
  shows "\<bar>2 * n * round_fraction s n - 2 * s\<bar> \<le> n"
proof -
  define q r where "q = s div n" and "r = s mod n"
  have s: "s = n * q + r" and r: "0 \<le> r" "r < n" using assms by (simp_all add: q_def r_def)
  have "2 * n * q - 2 * s = - 2 * r" "2 * n * (q + 1) - 2 * s = 2 * n - 2 * r" by (simp_all add: s algebra_simps)
  with r show ?thesis by (auto simp: round_fraction_def Let_def q_def [symmetric] r_def [symmetric])
qed

text \<open>A rounded mean stays between any integer bounds of the samples.\<close>

lemma round_fraction_between:
  assumes "0 < n" and "n * lo \<le> s" and "s \<le> n * hi"
  shows "lo \<le> round_fraction s n" and "round_fraction s n \<le> hi"
proof -
  let ?r = "round_fraction s n"
  note near = round_fraction_near [OF assms(1), of s]
  show "lo \<le> ?r"
  proof (rule ccontr)
    assume "\<not> lo \<le> ?r"
    then have "n * ?r \<le> n * (lo - 1)" using assms(1) by simp
    with near assms show False by (simp add: algebra_simps)
  qed
  show "?r \<le> hi"
  proof (rule ccontr)
    assume "\<not> ?r \<le> hi"
    then have "n * (hi + 1) \<le> n * ?r" using assms(1) by simp
    with near assms show False by (simp add: algebra_simps)
  qed
qed

lemma sum_list_between:
  fixes f :: "nat \<Rightarrow> int"
  assumes "\<And>i. i \<in> set ks \<Longrightarrow> lo \<le> f i \<and> f i \<le> hi"
  shows "int (length ks) * lo \<le> sum_list (map f ks) \<and> sum_list (map f ks) \<le> int (length ks) * hi"
  using assms
proof (induction ks)
  case (Cons k ks)
  from Cons.prems [of k] have "lo \<le> f k" "f k \<le> hi" by simp_all
  moreover from Cons have "int (length ks) * lo \<le> sum_list (map f ks)" "sum_list (map f ks) \<le> int (length ks) * hi" by simp_all
  ultimately show ?case by (simp add: algebra_simps)
qed simp

lemma sint16_id: "- 32768 \<le> v \<Longrightarrow> v \<le> 32767 \<Longrightarrow> sint (word_of_int v :: 16 word) = v"
  by (simp add: sint_sbintrunc' signed_take_bit_int_eq_self)

text \<open>
  Mixing down never overflows: for 16-bit samples, each mixed sample is the mean of its column
  to within a half, lies between the column's least and greatest sample, and is the value before
  the conversion to \<open>int16\<close>, which therefore never wraps.
\<close>

theorem mix_mono_in_range:
  assumes "0 < channels" and "j < count"
    and "list_all (\<lambda>i. lo \<le> samples ! (i * count + j) \<and> samples ! (i * count + j) \<le> hi) [0..<channels]"
    and "- 32768 \<le> lo" and "hi \<le> 32767"
  shows "let s = (\<Sum>i\<leftarrow>[0..<channels]. samples ! (i * count + j)); v = mix_mono channels count samples ! j in
    v = round_fraction s (int channels) \<and> lo \<le> v \<and> v \<le> hi \<and> \<bar>2 * int channels * v - 2 * s\<bar> \<le> int channels"
proof -
  define s where "s = (\<Sum>i\<leftarrow>[0..<channels]. samples ! (i * count + j))"
  have "int channels * lo \<le> s" "s \<le> int channels * hi"
    using sum_list_between [of "[0..<channels]" lo "\<lambda>i. samples ! (i * count + j)" hi] assms(3)
    by (auto simp: s_def list_all_iff)
  note between = round_fraction_between [OF _ this]
  have "mix_mono channels count samples ! j = sint (word_of_int (round_fraction s (int channels)) :: 16 word)"
    using assms(2) by (simp add: mix_mono_def s_def)
  also have "\<dots> = round_fraction s (int channels)" using between assms by (intro sint16_id) auto
  finally show ?thesis
    using between round_fraction_near [of "int channels" s] assms(1) by (simp add: Let_def s_def [symmetric])
qed

theorem mix_mono_in_range_witness:
  "mix_mono 2 1 [32767, 32766] ! 0 = 32766"
proof -
  have "round_fraction 65533 2 = 32766" by (simp add: round_fraction_def)
  with mix_mono_in_range [of 2 0 1 32766 "[32767, 32766]" 32767] show ?thesis
    by (simp add: Let_def list_all_iff upt_rec)
qed

section \<open>The size of a step's media\<close>

lemma encode_frame_length:
  "wn_sound np \<Longrightarrow> encode_frame np data kind m RAW = Inr fr \<Longrightarrow> length (fr_data fr) = prodl (wn_shape np data) * itemsize kind"
  using raw_encode_length(1) [of np data kind] by (auto simp: encode_frame_def)

definition frame_bytes :: "frame list \<Rightarrow> nat" where
  "frame_bytes frames = sum_list (map (\<lambda>fr. length (fr_data fr)) frames)"

lemma seq_results_Cons:
  "seq_results (x # xs) = Inr ys \<longleftrightarrow> (\<exists>a as. x = Inr a \<and> seq_results xs = Inr as \<and> ys = a # as)"
  by (auto split: sum.splits)

lemma frames_bytes:
  assumes "wn_sound np"
  shows "seq_results (map (\<lambda>(data, m). encode_frame np data kind m RAW) fs) = Inr frames \<Longrightarrow>
    frame_bytes frames = sum_list (map (\<lambda>(data, m). prodl (wn_shape np data)) fs) * itemsize kind"
proof (induction fs arbitrary: frames)
  case (Cons f fs)
  from Cons.prems obtain fr frs where
    fr: "encode_frame np (fst f) kind (snd f) RAW = Inr fr" "frames = fr # frs"
    and rest: "seq_results (map (\<lambda>(data, m). encode_frame np data kind m RAW) fs) = Inr frs"
    unfolding list.map seq_results_Cons by (auto simp: split_beta)
  from Cons.IH [OF rest] encode_frame_length [OF assms fr(1)] fr(2) show ?case
    by (simp add: frame_bytes_def split_beta algebra_simps)
qed (simp add: frame_bytes_def)

lemma batch_items:
  assumes "wn_sound np" and "length (wn_shape np data) = 4"
  shows "sum_list (map (\<lambda>i. prodl (wn_shape np (wn_index np data i))) [0..<wn_shape np data ! 0]) = prodl (wn_shape np data)"
proof -
  obtain n sh where sh: "wn_shape np data = n # sh" using assms(2) by (cases "wn_shape np data") auto
  have "map (\<lambda>i. prodl (wn_shape np (wn_index np data i))) [0..<n] = map (\<lambda>i. prodl sh) [0..<n]"
    using assms(1) sh by (intro map_cong) (auto simp: wn_sound_def)
  then have "sum_list (map (\<lambda>i. prodl (wn_shape np (wn_index np data i))) [0..<n]) = sum_list (map (\<lambda>i. prodl sh) [0..<n])"
    by (rule arg_cong)
  then show ?thesis by (simp add: sh prodl_simps sum_list_triv)
qed

lemma frames_of_items:
  assumes "wn_sound np" and "frames_of np t = Inr fs"
  shows "sum_list (map (\<lambda>(data, m). prodl (wn_shape np data)) fs) = prodl (wn_shape np (td_data t))"
proof (cases "ti_kind (td_info t) = AUDIO \<and> has_no_samples (wn_shape np (td_data t))")
  case True
  then have "prodl (wn_shape np (td_data t)) = 0"
    using two_dims [of "wn_shape np (td_data t)"] by (auto simp: has_no_samples_def prodl_simps)
  with True assms(2) show ?thesis by (simp add: frames_of_def Let_def)
next
  case False
  with assms batch_items [OF assms(1), of "td_data t"] show ?thesis
    by (auto simp: frames_of_def Let_def comp_def split: if_splits metadata.splits)
qed

text \<open>
  The size of a step's media is known before it is encoded: when every track of a step can be
  carried, the frames hold together exactly \<open>media_size\<close> bytes of data, for batched and single
  video, audio of any channels and tracks with no samples.
\<close>

theorem media_size_is_exact:
  assumes "wn_sound np" and "track_frames np bundle video_fps = Inr tracks"
  shows "sum_list (map (\<lambda>w. frame_bytes (wk_frames w)) tracks) = media_size np bundle"
proof (cases "bundle")
  case (Some b)
  have "seq_results (map (encode_track np video_fps) b) = Inr tracks" using assms(2) Some by (simp add: track_frames_def)
  then have "sum_list (map (\<lambda>w. frame_bytes (wk_frames w)) tracks) = media_size np (Some b)"
  proof (induction b arbitrary: tracks)
    case (Cons nt b)
    obtain name t where nt: "nt = (name, t)" by fastforce
    from Cons.prems obtain w ws where w: "encode_track np video_fps nt = Inr w" "tracks = w # ws"
      and rest: "seq_results (map (encode_track np video_fps) b) = Inr ws"
      unfolding list.map seq_results_Cons by auto
    from w(1) nt obtain fs where fs: "frames_of np t = Inr fs"
      and frames: "seq_results (map (\<lambda>(data, m). encode_frame np data (ti_kind (td_info t)) m RAW) fs) = Inr (wk_frames w)"
      by (auto simp: encode_track_def Let_def split: sum.splits)
    from frames_bytes [OF assms(1) frames] frames_of_items [OF assms(1) fs] Cons.IH [OF rest] w(2) nt show ?case
      by (simp add: media_size_def)
  qed (simp add: media_size_def)
  with Some show ?thesis by simp
qed (use assms(2) in \<open>simp add: track_frames_def media_size_def\<close>)

section \<open>Concrete arrays\<close>

text \<open>Integer arrays as a shape and their values; a conversion refuses an array whose values do not fill its shape.\<close>

definition fill :: "(int \<Rightarrow> 'b) \<Rightarrow> nat list \<times> int list \<Rightarrow> 'b list option" where
  "fill f a = (if length (snd a) = prodl (fst a) then Some (map f (snd a)) else None)"

definition int_np :: "(nat list \<times> int list) wire_np" where
  "int_np = \<lparr>wn_shape = fst,
     wn_index = (\<lambda>a i. (tl (fst a), take (prodl (tl (fst a))) (drop (i * prodl (tl (fst a))) (snd a)))),
     wn_floating = (\<lambda>_. False), wn_uint8 = fill word_of_int, wn_scaled = fill word_of_int, wn_rint = fill word_of_int\<rparr>"

lemma int_np_sound: "wn_sound int_np"
  by (auto simp: wn_sound_def int_np_def fill_def split: if_splits)

definition stereo :: "nat list \<times> int list" where "stereo = ([2, 2], [3, - 4, 6, - 5])"

definition stereo_frame :: frame where
  "stereo_frame = \<lparr>fr_encoding = RAW, fr_dtype = ''int16'', fr_shape = [2, 2],
     fr_data = [3, 0, 0xFC, 0xFF, 6, 0, 0xFB, 0xFF], fr_metadata = Some [1], fr_capture_time_us = None\<rparr>"

lemma stereo_encoded: "encode_frame int_np stereo AUDIO (Some [1]) RAW = Inr stereo_frame"
  by code_simp

theorem frame_round_trip_witness:
  "\<exists>c m ws. int16_audio int_np stereo = Some ([c, m], ws) \<and> decode_frame stereo_frame AUDIO =
     Inr \<lparr>if_data = \<lparr>nd_shape = [1, m], nd_samples = (if c = 1 then map sint ws else mix_mono c m (map sint ws))\<rparr>,
          if_pts = None, if_metadata = Some [1], if_capture_time_us = None\<rparr>"
  using frame_round_trip [OF int_np_sound stereo_encoded] by simp

definition stereo_bundle :: "(nat list \<times> int list) media_bundle" where
  "stereo_bundle =
     [(''a'', \<lparr>td_info = \<lparr>ti_name = ''a'', ti_kind = AUDIO, ti_rate = 48000, ti_direction = OUT, ti_buffer_seconds = None\<rparr>,
               td_data = stereo, td_metadata = OneMeta [1]\<rparr>)]"

lemma stereo_tracks:
  "track_frames int_np (Some stereo_bundle) None =
   Inr [\<lparr>wk_track = ''a'', wk_kind = AUDIO, wk_frames = [stereo_frame], wk_rate = 48000\<rparr>]"
  by code_simp

theorem media_size_is_exact_witness: "frame_bytes [stereo_frame] = media_size int_np (Some stereo_bundle)"
  using media_size_is_exact [OF int_np_sound stereo_tracks] by simp

end
