(* ===== verification/SessionMachine.thy ===== *)
theory SessionMachine
  imports Prelude
begin

text \<open>
  The session lifecycle: the vocabulary of \<^verbatim>\<open>core/session.py\<close> and the
  synchronous machine of \<^verbatim>\<open>runner/state_machine.py\<close>.

  A listener is a name; a call of \<open>send\<close> returns the new machine, the calls it made
  (each listener with the transition it was given, in call order) and its boolean result.
  The type variable \<open>'d\<close> is the \<open>detail\<close> mapping of a transition, which the machine
  passes on without reading it, and \<open>now\<close> is what \<^verbatim>\<open>time.time_ns()\<close> returns when
  the transition is recorded.
\<close>

section \<open>Vocabulary\<close>

datatype session_state =
  CREATED | READY | WAITING | STREAMING | ORPHANED | CLOSING | TERMINATED

datatype session_event =
    INITIALIZATION_SUCCESS | INITIALIZATION_FAIL | INITIALIZING
  | START_SESSION | STOP_SESSION | TIMEOUT
  | CONNECTION_OPENED | CONNECTION_CLOSED | CONNECTION_ANSWERED
  | CLEANUP_COMPLETE | EVICTION
  | CHUNK_READY | CLIP_READY | COMMAND | ERROR | METRIC | STEP_COMPLETED | STEP_RESULT_READY

definition JOURNAL_EVENTS :: "session_event set" where
  "JOURNAL_EVENTS =
     {CHUNK_READY, CLIP_READY, COMMAND, ERROR, METRIC, STEP_COMPLETED, STEP_RESULT_READY}"

definition now_ms :: "int \<Rightarrow> int" where
  "now_ms time_ns = time_ns div 1000000"

record 'd transition =
  tr_event :: session_event
  from_state :: session_state
  to_state :: session_state
  tr_detail :: 'd
  ts_ms :: int

definition is_session_start :: "'d transition \<Rightarrow> bool" where
  "is_session_start t \<longleftrightarrow> from_state t = READY \<and> to_state t = WAITING"

definition is_session_end :: "'d transition \<Rightarrow> bool" where
  "is_session_end t \<longleftrightarrow> from_state t = CLOSING \<and> to_state t = READY"

section \<open>The machine\<close>

text \<open>The static table: the target of an event from a state, or \<open>None\<close> where no entry is.\<close>

fun TRANSITIONS :: "session_event \<Rightarrow> session_state \<Rightarrow> session_state option" where
  "TRANSITIONS INITIALIZATION_SUCCESS s = (if s = CREATED then Some READY else None)"
| "TRANSITIONS INITIALIZATION_FAIL s = (if s = CREATED then Some TERMINATED else None)"
| "TRANSITIONS INITIALIZING s = (if s = CREATED then Some CREATED else None)"
| "TRANSITIONS START_SESSION s = (if s = READY then Some WAITING else None)"
| "TRANSITIONS STOP_SESSION s =
     (if s \<in> {STREAMING, WAITING, ORPHANED} then Some CLOSING else None)"
| "TRANSITIONS TIMEOUT s = (if s \<in> {WAITING, ORPHANED} then Some CLOSING else None)"
| "TRANSITIONS CLEANUP_COMPLETE s = (if s = CLOSING then Some READY else None)"
| "TRANSITIONS EVICTION s = (if s \<noteq> TERMINATED then Some TERMINATED else None)"
| "TRANSITIONS CONNECTION_ANSWERED s = Some s"
| "TRANSITIONS CONNECTION_OPENED s = None"
| "TRANSITIONS CONNECTION_CLOSED s = None"
| "TRANSITIONS e s = Some s"

definition CONNECTABLE :: "session_state set" where
  "CONNECTABLE = {WAITING, ORPHANED, STREAMING}"

definition CONNECTION_EVENTS :: "session_event set" where
  "CONNECTION_EVENTS = {CONNECTION_OPENED, CONNECTION_CLOSED}"

record 'l session_machine =
  sm_state :: session_state
  sm_live :: int
  sm_listeners :: "'l list"

definition init_machine :: "session_state \<Rightarrow> 'l session_machine" where
  "init_machine initial_state = \<lparr>sm_state = initial_state, sm_live = 0, sm_listeners = []\<rparr>"

definition current_state :: "'l session_machine \<Rightarrow> session_state" where
  "current_state m = sm_state m"

definition on_transition :: "'l session_machine \<Rightarrow> 'l \<Rightarrow> 'l session_machine" where
  "on_transition m callback = m\<lparr>sm_listeners := sm_listeners m @ [callback]\<rparr>"

definition resolve :: "'l session_machine \<Rightarrow> session_event \<Rightarrow> session_state option" where
  "resolve m event =
     (if event = CONNECTION_OPENED then
        (if sm_state m \<in> CONNECTABLE then Some STREAMING else None)
      else if event = CONNECTION_CLOSED then
        (if sm_state m \<noteq> STREAMING then None
         else if sm_live m \<le> 1 then Some ORPHANED else Some STREAMING)
      else TRANSITIONS event (sm_state m))"

definition update_count :: "'l session_machine \<Rightarrow> session_event \<Rightarrow> 'l session_machine" where
  "update_count m event =
     (if event = CONNECTION_OPENED then m\<lparr>sm_live := sm_live m + 1\<rparr>
      else if event = CONNECTION_CLOSED then m\<lparr>sm_live := max 0 (sm_live m - 1)\<rparr>
      else if event = CONNECTION_ANSWERED \<or> event \<in> JOURNAL_EVENTS then m
      else m\<lparr>sm_live := 0\<rparr>)"

definition apply_move ::
  "int \<Rightarrow> 'l session_machine \<Rightarrow> session_event \<Rightarrow> session_state \<Rightarrow> 'd
     \<Rightarrow> 'l session_machine \<times> ('l \<times> 'd transition) list" where
  "apply_move now m event target detail =
     (let t = \<lparr>tr_event = event, from_state = sm_state m, to_state = target,
               tr_detail = detail, ts_ms = now_ms now\<rparr>
      in (m\<lparr>sm_state := target\<rparr>, map (\<lambda>listener. (listener, t)) (sm_listeners m)))"

definition send ::
  "int \<Rightarrow> 'l session_machine \<Rightarrow> session_event \<Rightarrow> 'd
     \<Rightarrow> 'l session_machine \<times> ('l \<times> 'd transition) list \<times> bool" where
  "send now m event detail =
     (case resolve m event of
        None \<Rightarrow> (m, [], False)
      | Some target \<Rightarrow>
          (let (m', calls) = apply_move now (update_count m event) event target detail
           in (m', calls, True)))"

datatype machine_error = ValueError

definition send_without_occupancy ::
  "int \<Rightarrow> 'l session_machine \<Rightarrow> session_event \<Rightarrow> 'd
     \<Rightarrow> machine_error + ('l session_machine \<times> ('l \<times> 'd transition) list \<times> bool)" where
  "send_without_occupancy now m event detail =
     (if event \<notin> CONNECTION_EVENTS then Inl ValueError
      else if sm_state m \<notin> CONNECTABLE then Inr (m, [], False)
      else let (m', calls) = apply_move now m event (sm_state m) detail in Inr (m', calls, True))"

lemmas machine_defs =
  send_def send_without_occupancy_def resolve_def update_count_def apply_move_def
  JOURNAL_EVENTS_def CONNECTABLE_def CONNECTION_EVENTS_def

section \<open>Runs\<close>

text \<open>
  A run is any interleaving of the two mutators; a call that raises leaves the machine as it was.
  The journal of a run is what a listener registered before it is called with.
\<close>

datatype 'd machine_call = Send int session_event 'd | SendWithoutOccupancy int session_event 'd

fun machine_step ::
  "'l session_machine \<Rightarrow> 'd machine_call \<Rightarrow> 'l session_machine \<times> ('l \<times> 'd transition) list" where
  "machine_step m (Send now e d) = (let (m', calls, _) = send now m e d in (m', calls))"
| "machine_step m (SendWithoutOccupancy now e d) =
     (case send_without_occupancy now m e d of
        Inl _ \<Rightarrow> (m, [])
      | Inr (m', calls, _) \<Rightarrow> (m', calls))"

definition machine_next :: "'l session_machine \<Rightarrow> 'd machine_call \<Rightarrow> 'l session_machine" where
  "machine_next m c = fst (machine_step m c)"

fun machine_journal :: "'l session_machine \<Rightarrow> 'd machine_call list \<Rightarrow> ('l \<times> 'd transition) list" where
  "machine_journal m [] = []"
| "machine_journal m (c # cs) = snd (machine_step m c) @ machine_journal (machine_next m c) cs"

section \<open>Single moves\<close>

lemma TRANSITIONS_journal: "e \<in> JOURNAL_EVENTS \<Longrightarrow> TRANSITIONS e s = Some s"
  by (auto simp: JOURNAL_EVENTS_def)

lemma TRANSITIONS_not_streaming:
  "TRANSITIONS e s = Some t \<Longrightarrow> t = STREAMING \<Longrightarrow> s = STREAMING \<and> (e = CONNECTION_ANSWERED \<or> e \<in> JOURNAL_EVENTS)"
  by (cases e) (auto simp: JOURNAL_EVENTS_def split: if_splits)

lemma send_listeners [simp]: "sm_listeners (fst (send now m e d)) = sm_listeners m"
  by (auto simp: machine_defs Let_def split: option.splits if_splits)

lemma send_without_occupancy_machine:
  "send_without_occupancy now m e d = Inr (m', calls, ok) \<Longrightarrow> m' = m"
  by (auto simp: machine_defs Let_def split: if_splits)

lemma machine_next_Send: "machine_next m (Send now e d) = fst (send now m e d)"
  by (simp add: machine_next_def split_beta)

lemma machine_next_SendWithoutOccupancy [simp]: "machine_next m (SendWithoutOccupancy now e d) = m"
  by (auto simp: machine_next_def dest: send_without_occupancy_machine split: sum.splits)

lemma machine_next_listeners [simp]: "sm_listeners (machine_next m c) = sm_listeners m"
  by (cases c) (simp_all add: machine_next_Send)

text \<open>The occupancy invariant: the machine streams exactly while it counts a live connection.\<close>

definition occupancy_ok :: "'l session_machine \<Rightarrow> bool" where
  "occupancy_ok m \<longleftrightarrow> 0 \<le> sm_live m \<and> (sm_state m = STREAMING \<longleftrightarrow> 0 < sm_live m)"

lemma send_occupancy_ok:
  assumes "occupancy_ok m"
  shows "occupancy_ok (fst (send now m e d))"
proof (cases "resolve m e")
  case None
  then show ?thesis using assms by (simp add: send_def)
next
  case (Some t)
  note res = this
  consider "e = CONNECTION_OPENED" | "e = CONNECTION_CLOSED"
    | "e \<notin> CONNECTION_EVENTS" by (auto simp: CONNECTION_EVENTS_def)
  then show ?thesis
  proof cases
    case 1
    then show ?thesis using res assms
      by (auto simp: machine_defs occupancy_ok_def split: if_splits)
  next
    case 2
    then show ?thesis using res assms
      by (auto simp: machine_defs occupancy_ok_def split: if_splits)
  next
    case 3
    then have tab: "TRANSITIONS e (sm_state m) = Some t"
      using res by (auto simp: resolve_def CONNECTION_EVENTS_def split: if_splits)
    show ?thesis
    proof (cases "e = CONNECTION_ANSWERED \<or> e \<in> JOURNAL_EVENTS")
      case True
      then have "t = sm_state m" using tab by (auto simp: TRANSITIONS_journal)
      with True 3 res assms show ?thesis
        by (simp add: send_def apply_move_def update_count_def occupancy_ok_def CONNECTION_EVENTS_def)
    next
      case False
      then have "t \<noteq> STREAMING" using TRANSITIONS_not_streaming [OF tab] by blast
      with False 3 res show ?thesis
        by (simp add: send_def apply_move_def update_count_def occupancy_ok_def CONNECTION_EVENTS_def)
    qed
  qed
qed

lemma machine_next_occupancy_ok: "occupancy_ok m \<Longrightarrow> occupancy_ok (machine_next m c)"
  by (cases c) (simp_all add: machine_next_Send send_occupancy_ok)

interpretation occupancy: step_invariant machine_next occupancy_ok
  by unfold_locales (rule machine_next_occupancy_ok)

lemma init_occupancy_ok: "occupancy_ok (init_machine CREATED)"
  by (simp add: occupancy_ok_def init_machine_def)

section \<open>Properties\<close>

text \<open>
  C8. Occupancy is derived correctly: after any sequence of \<open>send\<close> and
  \<open>send_without_occupancy\<close> calls on a fresh machine, the live-connection count is never
  negative and the session is \<open>STREAMING\<close> exactly when at least one counted connection is live.
\<close>

theorem occupancy_streaming_iff_live:
  "let m = foldl machine_next (init_machine CREATED) cs
   in 0 \<le> sm_live m \<and> (sm_state m = STREAMING \<longleftrightarrow> 0 < sm_live m)"
  using occupancy.run_keeps [OF init_occupancy_ok, of cs] by (simp add: occupancy_ok_def Let_def)

text \<open>
  One call of \<open>send\<close>: an event with no legal edge is rejected with the machine unchanged
  and no listener called; a legal one flips the state to its target and calls every listener
  exactly once, in registration order, each with the same record of the move, stamped with the
  time in milliseconds.
\<close>

theorem send_notifies_in_order:
  "case send now m e d of (m', calls, ok) \<Rightarrow>
     (ok \<longleftrightarrow> resolve m e \<noteq> None) \<and>
     (\<not> ok \<longrightarrow> m' = m \<and> calls = []) \<and>
     (ok \<longrightarrow> sm_listeners m' = sm_listeners m \<and> resolve m e = Some (sm_state m') \<and>
        calls = map (\<lambda>l. (l, \<lparr>tr_event = e, from_state = sm_state m, to_state = sm_state m',
                                tr_detail = d, ts_ms = now div 1000000\<rparr>)) (sm_listeners m))"
  by (auto simp: send_def apply_move_def update_count_def now_ms_def split: option.splits)

theorem send_notifies_in_order_witness:
  "case send 5000000 (init_machine CREATED\<lparr>sm_listeners := [1, 2 :: nat]\<rparr>) INITIALIZATION_SUCCESS ()
   of (m', calls, ok) \<Rightarrow> ok \<and> sm_state m' = READY \<and> map fst calls = [1, 2] \<and>
     map (ts_ms \<circ> snd) calls = [5, 5]"
  using send_notifies_in_order
    [where now = 5000000 and m = "init_machine CREATED\<lparr>sm_listeners := [1, 2 :: nat]\<rparr>"
       and e = INITIALIZATION_SUCCESS and d = "()"]
  by (auto simp: resolve_def init_machine_def split: prod.splits)

lemma machine_step_terminated:
  assumes "sm_state m = TERMINATED"
  shows "sm_state (machine_next m c) = TERMINATED"
    and "x \<in> set (snd (machine_step m c)) \<Longrightarrow>
      tr_event (snd x) \<in> insert CONNECTION_ANSWERED JOURNAL_EVENTS"
proof -
  show "sm_state (machine_next m c) = TERMINATED"
  proof (cases c)
    case (Send now e d)
    then show ?thesis using assms
      by (cases e) (simp_all add: machine_next_def machine_defs)
  qed (simp add: assms)
  assume x: "x \<in> set (snd (machine_step m c))"
  show "tr_event (snd x) \<in> insert CONNECTION_ANSWERED JOURNAL_EVENTS"
  proof (cases c)
    case (Send now e d)
    then show ?thesis using x assms
      by (cases e) (auto simp: machine_defs)
  next
    case (SendWithoutOccupancy now e d)
    then show ?thesis using x assms
      by (auto simp: machine_defs split: if_splits)
  qed
qed

text \<open>
  A terminated process never serves again: from \<open>TERMINATED\<close> every run of calls stays in
  \<open>TERMINATED\<close>, and all it can still journal are negotiation answers and journal-only facts.
\<close>

theorem terminated_absorbing:
  assumes "sm_state m = TERMINATED"
  shows "sm_state (foldl machine_next m cs) = TERMINATED \<and>
    tr_event ` snd ` set (machine_journal m cs) \<subseteq> insert CONNECTION_ANSWERED JOURNAL_EVENTS"
  using assms
proof (induction cs arbitrary: m)
  case (Cons c cs)
  have "sm_state (machine_next m c) = TERMINATED"
    using Cons.prems by (rule machine_step_terminated(1))
  from Cons.IH [OF this] machine_step_terminated(2) [OF Cons.prems, of _ c]
  show ?case by (simp add: image_Un image_subset_iff)
qed simp

theorem terminated_absorbing_witness:
  "sm_state (foldl machine_next (init_machine TERMINATED\<lparr>sm_listeners := [()]\<rparr>)
      [Send 0 START_SESSION (), Send 1 CONNECTION_OPENED (), Send 2 ERROR ()]) = TERMINATED"
proof -
  have "sm_state (init_machine TERMINATED\<lparr>sm_listeners := [()]\<rparr>) = TERMINATED"
    by (simp add: init_machine_def)
  then show ?thesis
    using terminated_absorbing by blast
qed

text \<open>
  Journal facts are never dropped: a journal-only event or a negotiation answer is
  accepted in every state, changes neither the state nor the live count, and reaches every
  listener.
\<close>

theorem journal_facts_never_rejected:
  assumes "e \<in> insert CONNECTION_ANSWERED JOURNAL_EVENTS"
  shows "case send now m e d of (m', calls, ok) \<Rightarrow> ok \<and> m' = m \<and> map fst calls = sm_listeners m"
proof -
  have "resolve m e = Some (sm_state m)"
    using assms by (auto simp: resolve_def JOURNAL_EVENTS_def)
  moreover have "update_count m e = m"
    using assms by (auto simp: update_count_def JOURNAL_EVENTS_def)
  ultimately show ?thesis
    by (simp add: send_def apply_move_def comp_def)
qed

theorem journal_facts_never_rejected_witness:
  "case send 0 (init_machine CLOSING :: nat session_machine) CONNECTION_ANSWERED () of
     (m', calls, ok) \<Rightarrow> ok \<and> sm_state m' = CLOSING"
  using journal_facts_never_rejected
    [where e = CONNECTION_ANSWERED and now = 0 and m = "init_machine CLOSING :: nat session_machine"
       and d = "()"]
  by (auto simp: init_machine_def)

section \<open>Session boundaries\<close>

definition session_open :: "session_state \<Rightarrow> bool" where
  "session_open s \<longleftrightarrow> s \<in> {WAITING, STREAMING, ORPHANED, CLOSING}"

text \<open>A move that cuts a session off instead of ending it.\<close>

definition is_session_abort :: "'d transition \<Rightarrow> bool" where
  "is_session_abort t \<longleftrightarrow> session_open (from_state t) \<and> to_state t = TERMINATED"

abbreviation count_if :: "('a \<Rightarrow> bool) \<Rightarrow> 'a list \<Rightarrow> nat" where
  "count_if P xs \<equiv> length (filter P xs)"

lemma resolve_boundaries:
  "resolve m e = Some t \<Longrightarrow>
   of_bool (sm_state m = READY \<and> t = WAITING) + of_bool (session_open (sm_state m)) =
   of_bool (sm_state m = CLOSING \<and> t = READY) + of_bool (session_open (sm_state m) \<and> t = TERMINATED)
     + (of_bool (session_open t) :: nat)"
  by (cases e; cases "sm_state m")
    (auto simp: resolve_def CONNECTABLE_def session_open_def split: if_splits)

lemma machine_step_boundaries:
  fixes m :: "'l session_machine" and c :: "'d machine_call"
  assumes "sm_listeners m = [l]"
  defines "js \<equiv> map snd (snd (machine_step m c))"
  shows "count_if is_session_start js + of_bool (session_open (sm_state m)) =
    count_if is_session_end js + count_if is_session_abort js
      + of_bool (session_open (sm_state (machine_next m c)))"
proof (cases c)
  case (Send now e d)
  show ?thesis
  proof (cases "resolve m e")
    case None
    with Send show ?thesis by (simp add: js_def machine_next_def send_def)
  next
    case (Some t)
    have "sm_listeners (update_count m e) = [l]" "sm_state (update_count m e) = sm_state m"
      using assms(1) by (simp_all add: update_count_def)
    with Send Some resolve_boundaries [OF Some] show ?thesis
      by (auto simp: js_def machine_next_def send_def apply_move_def is_session_start_def
          is_session_end_def is_session_abort_def of_bool_def split: if_splits)
  qed
next
  case (SendWithoutOccupancy now e d)
  then show ?thesis using assms(1) unfolding js_def
    by (auto simp: send_without_occupancy_def apply_move_def CONNECTABLE_def session_open_def
        is_session_start_def is_session_end_def is_session_abort_def)
qed

lemma machine_journal_boundaries:
  "sm_listeners m = [l] \<Longrightarrow>
   count_if is_session_start (map snd (machine_journal m cs)) + of_bool (session_open (sm_state m)) =
   count_if is_session_end (map snd (machine_journal m cs))
     + count_if is_session_abort (map snd (machine_journal m cs))
     + of_bool (session_open (sm_state (foldl machine_next m cs)))"
proof (induction cs arbitrary: m)
  case (Cons c cs)
  have "sm_listeners (machine_next m c) = [l]"
    using Cons.prems by simp
  from Cons.IH [OF this] machine_step_boundaries [OF Cons.prems, of c] show ?case
    by simp
qed simp

text \<open>
  Session boundaries balance: over any run from a fresh machine, every session start the
  listener is told about is matched by exactly one session end, one eviction out of the open
  session, or the session still being open.
\<close>

theorem session_boundaries_balance:
  "let m = on_transition (init_machine CREATED) l;
       js = map snd (machine_journal m cs)
   in count_if is_session_start js =
      count_if is_session_end js + count_if is_session_abort js
        + (if session_open (sm_state (foldl machine_next m cs)) then 1 else 0)"
  using machine_journal_boundaries [of "on_transition (init_machine CREATED) l" l cs]
  by (simp add: Let_def on_transition_def init_machine_def session_open_def)

end
