(* ===== verification/SessionStart.thy ===== *)
theory SessionStart
  imports Prelude "HOL-Library.Char_ord" "HOL-Library.List_Lexorder"
begin

text \<open>
  The parameters of a session, \<^verbatim>\<open>runner/session_start.py\<close>: a decoded JSON body read into
  the session's starting input, step count and way of generating. The body is a \<open>json\<close> value as
  \<^verbatim>\<open>json.loads\<close> gives it, an object being a dict in insertion order. An
  \<open>InvalidSessionStartError\<close> keeps the place it names and what was wrong there.
\<close>

datatype json =
    JNull
  | JBool bool
  | JInt int
  | JFloat pyfloat
  | JStr string
  | JList "json list"
  | JObj "(string \<times> json) list"

definition MAX_STEPS :: int where "MAX_STEPS = 10000"

datatype start_place = StartingInputPlace | StatePlace | CommandsPlace | CommandPlace nat | CommandNamePlace nat | CommandDataPlace nat

datatype start_error =
    MustBeObject start_place
  | MustBeList start_place
  | MustBeNonEmptyString start_place
  | UnknownKeys start_place "string list"
  | StepsNotPositive
  | StepsTooMany
  | UnknownGeneration json

datatype generation = STREAMED | STEPPED

record starting_command =
  sc_command :: string
  sc_data :: "(string, json) dict"

record starting_input =
  si_state :: "(string, json) dict"
  si_commands :: "starting_command list"

definition as_commands :: "starting_input \<Rightarrow> starting_command list" where
  "as_commands si =
     map (\<lambda>(key, v). \<lparr>sc_command = ''set_'' @ key, sc_data = [(key, v)]\<rparr>) (si_state si) @ si_commands si"

record session_start =
  ss_starting_input :: "starting_input option"
  ss_steps :: "int option"
  ss_generation :: generation

text \<open>\<^verbatim>\<open>raw.get(key)\<close>: a missing key and a \<open>null\<close> both read as \<open>None\<close> afterwards.\<close>

definition json_get :: "(string, json) dict \<Rightarrow> string \<Rightarrow> json" where
  "json_get d key = (case dict_get d key of None \<Rightarrow> JNull | Some v \<Rightarrow> v)"

definition unknown_keys :: "(string, json) dict \<Rightarrow> string list \<Rightarrow> string list" where
  "unknown_keys raw expected = sort (filter (\<lambda>k. k \<notin> set expected) (remdups (dict_keys raw)))"

fun parse_state :: "json \<Rightarrow> start_error + (string, json) dict" where
  "parse_state JNull = Inr []"
| "parse_state (JObj raw) = Inr raw"
| "parse_state _ = Inl (MustBeObject StatePlace)"

definition parse_command :: "nat \<Rightarrow> json \<Rightarrow> start_error + starting_command" where
  "parse_command index raw =
     (case raw of
        JObj d \<Rightarrow>
          let unknown = unknown_keys d [''command'', ''data'']
          in if unknown \<noteq> [] then Inl (UnknownKeys (CommandPlace index) unknown)
             else
               (case json_get d ''command'' of
                  JStr name \<Rightarrow>
                    if name = [] then Inl (MustBeNonEmptyString (CommandNamePlace index))
                    else
                      (case json_get d ''data'' of
                         JNull \<Rightarrow> Inr \<lparr>sc_command = name, sc_data = []\<rparr>
                       | JObj dat \<Rightarrow> Inr \<lparr>sc_command = name, sc_data = dat\<rparr>
                       | _ \<Rightarrow> Inl (MustBeObject (CommandDataPlace index)))
                | _ \<Rightarrow> Inl (MustBeNonEmptyString (CommandNamePlace index)))
      | _ \<Rightarrow> Inl (MustBeObject (CommandPlace index)))"

fun parse_commands :: "json \<Rightarrow> start_error + starting_command list" where
  "parse_commands JNull = Inr []"
| "parse_commands (JList items) = seq_results (map (\<lambda>(i, item). parse_command i item) (enumerate 0 items))"
| "parse_commands _ = Inl (MustBeList CommandsPlace)"

fun parse_starting_input :: "json \<Rightarrow> start_error + starting_input option" where
  "parse_starting_input JNull = Inr None"
| "parse_starting_input (JObj raw) =
     (let unknown = unknown_keys raw [''state'', ''commands'']
      in if unknown \<noteq> [] then Inl (UnknownKeys StartingInputPlace unknown)
         else
           (case parse_state (json_get raw ''state'') of
              Inl e \<Rightarrow> Inl e
            | Inr st \<Rightarrow>
                (case parse_commands (json_get raw ''commands'') of
                   Inl e \<Rightarrow> Inl e
                 | Inr cs \<Rightarrow> Inr (Some \<lparr>si_state = st, si_commands = cs\<rparr>))))"
| "parse_starting_input _ = Inl (MustBeObject StartingInputPlace)"

fun parse_steps :: "json \<Rightarrow> start_error + int option" where
  "parse_steps JNull = Inr None"
| "parse_steps (JInt n) =
     (if n < 1 then Inl StepsNotPositive else if n > MAX_STEPS then Inl StepsTooMany else Inr (Some n))"
| "parse_steps _ = Inl StepsNotPositive"

fun parse_generation :: "json \<Rightarrow> start_error + generation" where
  "parse_generation JNull = Inr STREAMED"
| "parse_generation (JStr s) =
     (if s = ''streamed'' then Inr STREAMED
      else if s = ''stepped'' then Inr STEPPED
      else Inl (UnknownGeneration (JStr s)))"
| "parse_generation raw = Inl (UnknownGeneration raw)"

definition parse_session_start :: "(string, json) dict \<Rightarrow> start_error + session_start" where
  "parse_session_start params =
     (case parse_starting_input (json_get params ''starting_input'') of
        Inl e \<Rightarrow> Inl e
      | Inr si \<Rightarrow>
          (case parse_steps (json_get params ''steps'') of
             Inl e \<Rightarrow> Inl e
           | Inr steps \<Rightarrow>
               (case parse_generation (json_get params ''generation'') of
                  Inl e \<Rightarrow> Inl e
                | Inr g \<Rightarrow> Inr \<lparr>ss_starting_input = si, ss_steps = steps, ss_generation = g\<rparr>)))"

section \<open>The body that starts a given session\<close>

definition print_command :: "starting_command \<Rightarrow> json" where
  "print_command c = JObj [(''command'', JStr (sc_command c)), (''data'', JObj (sc_data c))]"

fun print_starting_input :: "starting_input option \<Rightarrow> json" where
  "print_starting_input None = JNull"
| "print_starting_input (Some si) =
     JObj [(''state'', JObj (si_state si)), (''commands'', JList (map print_command (si_commands si)))]"

fun print_generation :: "generation \<Rightarrow> json" where
  "print_generation STREAMED = JStr ''streamed''"
| "print_generation STEPPED = JStr ''stepped''"

definition print_session_start :: "session_start \<Rightarrow> (string, json) dict" where
  "print_session_start s =
     [(''starting_input'', print_starting_input (ss_starting_input s)),
      (''steps'', case ss_steps s of None \<Rightarrow> JNull | Some n \<Rightarrow> JInt n),
      (''generation'', print_generation (ss_generation s))]"

definition start_ok :: "session_start \<Rightarrow> bool" where
  "start_ok s \<longleftrightarrow>
     (case ss_steps s of None \<Rightarrow> True | Some n \<Rightarrow> 1 \<le> n \<and> n \<le> MAX_STEPS) \<and>
     (case ss_starting_input s of None \<Rightarrow> True | Some si \<Rightarrow> \<forall>c \<in> set (si_commands si). sc_command c \<noteq> [])"

lemma unknown_keys_eq_Nil: "unknown_keys d ks = [] \<longleftrightarrow> set (dict_keys d) \<subseteq> set ks"
proof -
  have "sort xs = [] \<longleftrightarrow> xs = []" for xs :: "string list"
    by (metis length_sort length_0_conv)
  then show ?thesis by (auto simp: unknown_keys_def filter_empty_conv)
qed

lemma parse_print_command:
  "sc_command c \<noteq> [] \<Longrightarrow> parse_command i (print_command c) = Inr c"
  by (simp add: parse_command_def print_command_def unknown_keys_eq_Nil json_get_def Let_def)

lemma parse_print_commands:
  assumes "\<forall>c \<in> set cs. sc_command c \<noteq> []"
  shows "parse_commands (JList (map print_command cs)) = Inr cs"
proof -
  have "seq_results (map (\<lambda>(i, item). parse_command i item) (enumerate n (map print_command cs))) = Inr cs" for n
    using assms by (induction cs arbitrary: n) (simp_all add: parse_print_command)
  then show ?thesis by simp
qed

lemma parse_print_starting_input:
  "(case si of None \<Rightarrow> True | Some s \<Rightarrow> \<forall>c \<in> set (si_commands s). sc_command c \<noteq> []) \<Longrightarrow>
   parse_starting_input (print_starting_input si) = Inr si"
  by (cases si) (simp_all add: unknown_keys_eq_Nil json_get_def Let_def parse_print_commands del: parse_commands.simps)

lemma parse_command_name: "parse_command i raw = Inr c \<Longrightarrow> sc_command c \<noteq> []"
  by (auto simp: parse_command_def Let_def split: json.splits if_splits)

lemma seq_results_all:
  "seq_results xs = Inr ys \<Longrightarrow> (\<And>x y. x \<in> set xs \<Longrightarrow> x = Inr y \<Longrightarrow> P y) \<Longrightarrow> \<forall>y \<in> set ys. P y"
  by (induction xs arbitrary: ys) (auto split: sum.splits)

lemma parse_commands_names: "parse_commands raw = Inr cs \<Longrightarrow> \<forall>c \<in> set cs. sc_command c \<noteq> []"
proof (cases raw)
  case (JList items)
  assume "parse_commands raw = Inr cs"
  with JList have "seq_results (map (\<lambda>(i, item). parse_command i item) (enumerate 0 items)) = Inr cs"
    by simp
  then show ?thesis
    by (rule seq_results_all) (auto dest: parse_command_name [OF sym])
qed simp_all

lemma parse_starting_input_names:
  "parse_starting_input raw = Inr (Some si) \<Longrightarrow> \<forall>c \<in> set (si_commands si). sc_command c \<noteq> []"
  by (cases raw) (auto simp: Let_def dest: parse_commands_names split: if_splits sum.splits)

lemma parse_steps_bounds: "parse_steps raw = Inr (Some n) \<Longrightarrow> 1 \<le> n \<and> n \<le> MAX_STEPS"
  by (cases raw) (auto split: if_splits)

section \<open>Properties\<close>

text \<open>
  Reading a body inverts writing one: the body written for any well-formed session shape is
  read back as exactly that shape.
\<close>

theorem session_start_round_trip:
  assumes "start_ok s"
  shows "parse_session_start (print_session_start s) = Inr s"
proof -
  have "parse_starting_input (print_starting_input (ss_starting_input s)) = Inr (ss_starting_input s)"
    using assms by (intro parse_print_starting_input) (simp add: start_ok_def)
  moreover have "parse_steps (case ss_steps s of None \<Rightarrow> JNull | Some n \<Rightarrow> JInt n) = Inr (ss_steps s)"
    using assms by (auto simp: start_ok_def split: option.splits)
  moreover have "parse_generation (print_generation (ss_generation s)) = Inr (ss_generation s)"
    by (cases "ss_generation s") simp_all
  ultimately show ?thesis
    by (simp add: parse_session_start_def print_session_start_def json_get_def)
qed

theorem session_start_round_trip_witness:
  "parse_session_start (print_session_start
     \<lparr>ss_starting_input = Some \<lparr>si_state = [(''seed'', JInt 4)], si_commands = [\<lparr>sc_command = ''go'', sc_data = []\<rparr>]\<rparr>,
      ss_steps = Some 3, ss_generation = STEPPED\<rparr>) =
   Inr \<lparr>ss_starting_input = Some \<lparr>si_state = [(''seed'', JInt 4)], si_commands = [\<lparr>sc_command = ''go'', sc_data = []\<rparr>]\<rparr>,
      ss_steps = Some 3, ss_generation = STEPPED\<rparr>"
  by (rule session_start_round_trip) (simp add: start_ok_def MAX_STEPS_def)

text \<open>
  What a parsed body guarantees: an accepted body has a step count from 1 to 10,000 or none,
  only non-empty command names, and is read the same whatever other keys it carries; its starting
  commands run the state setters first, one per field, and then the listed commands in order.
\<close>

theorem parsed_start_well_formed:
  assumes "parse_session_start params = Inr s"
  shows "(\<forall>n. ss_steps s = Some n \<longrightarrow> 1 \<le> n \<and> n \<le> 10000) \<and>
    (\<forall>si. ss_starting_input s = Some si \<longrightarrow>
       (\<forall>c \<in> set (as_commands si). sc_command c \<noteq> []) \<and>
       take (length (si_state si)) (as_commands si) =
         map (\<lambda>(key, v). \<lparr>sc_command = ''set_'' @ key, sc_data = [(key, v)]\<rparr>) (si_state si) \<and>
       drop (length (si_state si)) (as_commands si) = si_commands si) \<and>
    (\<forall>key v. key \<notin> {''starting_input'', ''steps'', ''generation''} \<longrightarrow>
       parse_session_start (dict_set key v params) = Inr s)"
proof -
  have names: "\<forall>c \<in> set (si_commands si). sc_command c \<noteq> []" if "ss_starting_input s = Some si" for si
  proof -
    have "parse_starting_input (json_get params ''starting_input'') = Inr (Some si)"
      using assms that by (auto simp: parse_session_start_def split: sum.splits)
    then show ?thesis by (rule parse_starting_input_names)
  qed
  have steps: "1 \<le> n \<and> n \<le> MAX_STEPS" if "ss_steps s = Some n" for n
    using assms that by (auto simp: parse_session_start_def dest: parse_steps_bounds split: sum.splits)
  have extra: "parse_session_start (dict_set key v params) = Inr s"
    if "key \<notin> {''starting_input'', ''steps'', ''generation''}" for key v
  proof -
    have "json_get (dict_set key v params) k = json_get params k"
      if "k \<in> {''starting_input'', ''steps'', ''generation''}" for k
      using that \<open>key \<notin> _\<close> by (auto simp: json_get_def dict_simps)
    then have "parse_session_start (dict_set key v params) = parse_session_start params"
      by (simp add: parse_session_start_def cong: sum.case_cong)
    with assms show ?thesis by simp
  qed
  show ?thesis
    using steps names extra by (auto simp: as_commands_def MAX_STEPS_def case_prod_unfold)
qed

theorem parsed_start_well_formed_witness:
  "parse_session_start (dict_set ''session_id'' (JStr ''abc'') [(''steps'', JInt 3)]) =
     Inr \<lparr>ss_starting_input = None, ss_steps = Some 3, ss_generation = STREAMED\<rparr>"
proof -
  have "parse_session_start [(''steps'', JInt 3)] =
      Inr \<lparr>ss_starting_input = None, ss_steps = Some 3, ss_generation = STREAMED\<rparr>"
    by (simp add: parse_session_start_def json_get_def MAX_STEPS_def)
  from parsed_start_well_formed [OF this, THEN conjunct2, THEN conjunct2, rule_format, of "''session_id''"]
  show ?thesis by simp
qed

end
