(* ===== verification/ConnectionManager.thy ===== *)
theory ConnectionManager
  imports SessionMachine SessionStart Values
begin

text \<open>
  The live-connection registry of \<^verbatim>\<open>runner/connection_manager.py\<close>.

  A connection is what the manager reads of the neutral shape: its id, its capabilities, its
  negotiated codec, its origin, and which optional protocols it satisfies
  (\<open>None\<close> or \<open>False\<close> where an \<^verbatim>\<open>isinstance\<close> test fails). The wire behind it is
  another component: a call on it is a value of \<open>wire_call\<close>, an operation returns the calls it
  makes in order, and whether a call raises is the parameter \<open>raises\<close>. The operations that
  drive the session machine take and return it, with the listener calls it made.
\<close>

section \<open>Connections and wire calls\<close>

record connection_origin =
  og_transport :: string
  og_identity :: "string option"
  og_system :: bool

record connection =
  cn_id :: conn_id
  carries_video :: bool
  carries_audio :: bool
  cn_version :: protocol_version
  cn_max_message_size :: int
  cn_message_chunking :: bool
  cn_origin :: "connection_origin option"
  cn_observer :: bool
  cn_watcher :: bool
  cn_takes_hold :: bool
  cn_latest_reading :: "transport_reading option"
  cn_times_frames :: bool
  cn_times_messages :: bool

datatype ('f, 'c) wire_call =
    Send_Message "'f list"
  | Send_Control "'f list"
  | Send_Step_Result "'f list"
  | Send_Media 'c
  | Flush_Media "bool option"
  | Set_Media_Rate real
  | Set_Media_Depth int
  | Resume_Track string
  | Pause_Track string
  | Input_Track_Freed string
  | Observe
  | Close

type_synonym ('f, 'c) wire_calls = "(conn_id \<times> ('f, 'c) wire_call) list"

datatype end_reason = STOPPED | TIMED_OUT | EVICTED | MODERATED | REASON_ERROR | START_REFUSED

text \<open>The value types that occur in a transition's detail.\<close>

datatype detail_value =
    DId conn_id
  | DFlag bool
  | DText string
  | DNum int
  | DReason end_reason
  | DParams "(string, json) dict"
  | DAnswer "(string, string) dict"

type_synonym detail = "(string, detail_value) dict"

definition connection_detail :: "connection \<Rightarrow> bool \<Rightarrow> detail" where
  "connection_detail conn sys =
     [(''conn_id'', DId (cn_id conn))] @
     (if sys \<or> (case cn_origin conn of None \<Rightarrow> False | Some og \<Rightarrow> og_system og)
      then [(''system'', DFlag True)] else []) @
     (case cn_origin conn of
        None \<Rightarrow> []
      | Some og \<Rightarrow> [(''transport'', DText (og_transport og))] @
          (case og_identity og of None \<Rightarrow> [] | Some i \<Rightarrow> [(''identity'', DText i)]))"

section \<open>The registry\<close>

definition SYSTEM_CONN_ID :: conn_id where "SYSTEM_CONN_ID = 0"

definition MIN_CONN_ID :: conn_id where "MIN_CONN_ID = 5000"

definition MAX_CONN_ID :: conn_id where "MAX_CONN_ID = 9999"

definition RESERVED_IDS :: "conn_id set" where "RESERVED_IDS = {SYSTEM_CONN_ID}"

definition MAX_MINT_ATTEMPTS :: nat where "MAX_MINT_ATTEMPTS = 100"

datatype manager_error = ConnectionsExhaustedError | ConnectionIdClaimedError conn_id

record connection_manager =
  cm_by_id :: "(conn_id, connection) dict"
  cm_publishers :: "(string, conn_id) dict"
  cm_claims :: "(conn_id, string) dict"
  cm_unoccupying :: "conn_id set"
  cm_details :: "(conn_id, detail) dict"

definition init_manager :: connection_manager where
  "init_manager =
     \<lparr>cm_by_id = [], cm_publishers = [], cm_claims = [], cm_unoccupying = {}, cm_details = []\<rparr>"

definition conn_count :: "connection_manager \<Rightarrow> nat" where
  "conn_count cm = length (cm_by_id cm)"

definition transport_readings :: "connection_manager \<Rightarrow> (conn_id \<times> transport_reading) list" where
  "transport_readings cm =
     concat (map (\<lambda>(cid, conn). case cn_latest_reading conn of None \<Rightarrow> [] | Some r \<Rightarrow> [(cid, r)])
       (cm_by_id cm))"

text \<open>
  Taking a connection's stage times changes the connection, which is the transport's: the two
  parameters are its \<open>take_frame_stages\<close> and \<open>take_message_stages\<close> on the wires' state \<open>'w\<close>.
\<close>

definition take_reading ::
  "('w \<Rightarrow> conn_id \<Rightarrow> string list \<Rightarrow> 'w \<times> (string, frame_stage list) dict) \<Rightarrow>
   ('w \<Rightarrow> conn_id \<Rightarrow> 'w \<times> message_stage list) \<Rightarrow>
   connection_manager \<Rightarrow> 'w \<Rightarrow> conn_id \<times> transport_reading \<Rightarrow> 'w \<times> conn_id \<times> transport_reading" where
  "take_reading take_frames take_messages cm w cr =
     (case cr of (cid, reading) \<Rightarrow>
        case dict_get (cm_by_id cm) cid of
          None \<Rightarrow> (w, cid, reading)
        | Some conn \<Rightarrow>
            let (w1, reading1) =
                  (if cn_times_frames conn \<and> rd_tracks reading \<noteq> []
                   then let (w1, stages) = take_frames w cid (map rt_track_name (rd_tracks reading))
                        in (w1, if stages = [] then reading
                                else reading\<lparr>rd_tracks := map (\<lambda>track. track\<lparr>rt_frame_stages :=
                                  (case dict_get stages (rt_track_name track) of None \<Rightarrow> [] | Some s \<Rightarrow> s)\<rparr>)
                                  (rd_tracks reading)\<rparr>)
                   else (w, reading));
                (w2, reading2) =
                  (if cn_times_messages conn
                   then let (w2, stages) = take_messages w1 cid
                        in (w2, if stages = [] then reading1
                                else reading1\<lparr>rd_message_stages := stages\<rparr>)
                   else (w1, reading1))
            in (w2, cid, reading2))"

fun take_readings ::
  "('w \<Rightarrow> conn_id \<Rightarrow> string list \<Rightarrow> 'w \<times> (string, frame_stage list) dict) \<Rightarrow>
   ('w \<Rightarrow> conn_id \<Rightarrow> 'w \<times> message_stage list) \<Rightarrow>
   connection_manager \<Rightarrow> 'w \<Rightarrow> (conn_id \<times> transport_reading) list \<Rightarrow> 'w \<times> (conn_id \<times> transport_reading) list" where
  "take_readings tf tm cm w [] = (w, [])"
| "take_readings tf tm cm w (r # rs) =
     (let (w1, r1) = take_reading tf tm cm w r; (w2, rs2) = take_readings tf tm cm w1 rs in (w2, r1 # rs2))"

definition take_stages ::
  "('w \<Rightarrow> conn_id \<Rightarrow> string list \<Rightarrow> 'w \<times> (string, frame_stage list) dict) \<Rightarrow>
   ('w \<Rightarrow> conn_id \<Rightarrow> 'w \<times> message_stage list) \<Rightarrow>
   connection_manager \<Rightarrow> 'w \<Rightarrow> 'w \<times> (conn_id \<times> transport_reading) list" where
  "take_stages tf tm cm w = take_readings tf tm cm w (transport_readings cm)"

subsection \<open>Ids\<close>

text \<open>The draws are the successive results of \<^verbatim>\<open>random.randint\<close>; the loop reads at most one hundred.\<close>

fun mint_loop ::
  "nat \<Rightarrow> connection_manager \<Rightarrow> string \<Rightarrow> conn_id list \<Rightarrow> connection_manager \<times> (manager_error + conn_id)" where
  "mint_loop 0 cm transport draws = (cm, Inl ConnectionsExhaustedError)"
| "mint_loop (Suc n) cm transport [] = (cm, Inl ConnectionsExhaustedError)"
| "mint_loop (Suc n) cm transport (conn_id # draws) =
     (if conn_id \<notin> set (dict_keys (cm_claims cm)) \<and> conn_id \<notin> RESERVED_IDS
      then (cm\<lparr>cm_claims := dict_set conn_id transport (cm_claims cm)\<rparr>, Inr conn_id)
      else mint_loop n cm transport draws)"

definition new_conn_id ::
  "connection_manager \<Rightarrow> string \<Rightarrow> conn_id list \<Rightarrow> connection_manager \<times> (manager_error + conn_id)" where
  "new_conn_id cm transport draws = mint_loop MAX_MINT_ATTEMPTS cm transport draws"

definition claim_conn_id ::
  "connection_manager \<Rightarrow> conn_id \<Rightarrow> string \<Rightarrow> connection_manager \<times> (manager_error + bool)" where
  "claim_conn_id cm conn_id transport =
     (if conn_id \<in> RESERVED_IDS then (cm, Inl (ConnectionIdClaimedError conn_id))
      else case dict_get (cm_claims cm) conn_id of
        None \<Rightarrow> (cm\<lparr>cm_claims := dict_set conn_id transport (cm_claims cm)\<rparr>, Inr True)
      | Some holder \<Rightarrow>
          if holder \<noteq> transport then (cm, Inl (ConnectionIdClaimedError conn_id)) else (cm, Inr False))"

definition claim_holder :: "connection_manager \<Rightarrow> conn_id \<Rightarrow> string option" where
  "claim_holder cm conn_id = dict_get (cm_claims cm) conn_id"

definition release_conn_id :: "connection_manager \<Rightarrow> conn_id \<Rightarrow> string \<Rightarrow> connection_manager" where
  "release_conn_id cm conn_id transport =
     (if conn_id \<notin> RESERVED_IDS \<and> dict_get (cm_claims cm) conn_id = Some transport
      then cm\<lparr>cm_claims := dict_del conn_id (cm_claims cm)\<rparr> else cm)"

subsection \<open>Registration\<close>

definition announce_input_freed :: "connection_manager \<Rightarrow> string \<Rightarrow> ('f, 'c) wire_calls" where
  "announce_input_freed cm name =
     map (\<lambda>(cid, conn). (cn_id conn, Input_Track_Freed name)) (filter (\<lambda>(cid, conn). cn_watcher conn) (cm_by_id cm))"

definition register ::
  "int \<Rightarrow> 'l session_machine \<Rightarrow> connection_manager \<Rightarrow> connection \<Rightarrow> bool \<Rightarrow> bool
     \<Rightarrow> 'l session_machine \<times> connection_manager \<times> ('l \<times> detail transition) list" where
  "register now sm cm conn sys occupies =
     (let known = cn_id conn \<in> set (dict_keys (cm_by_id cm));
          cm1 = cm\<lparr>cm_by_id := dict_set (cn_id conn) conn (cm_by_id cm)\<rparr>
      in if known then (sm, cm1, [])
         else
           let d = connection_detail conn sys;
               cm2 = cm1\<lparr>cm_details := dict_set (cn_id conn) d (cm_details cm1)\<rparr>
           in if occupies
              then (let (sm', calls) = machine_step sm (Send now CONNECTION_OPENED d) in (sm', cm2, calls))
              else
                let cm3 = cm2\<lparr>cm_unoccupying := insert (cn_id conn) (cm_unoccupying cm2)\<rparr>;
                    (sm', calls) = machine_step sm (SendWithoutOccupancy now CONNECTION_OPENED d)
                in (sm', cm3, calls))"

definition manager_drop ::
  "int \<Rightarrow> 'l session_machine \<Rightarrow> connection_manager \<Rightarrow> conn_id
     \<Rightarrow> 'l session_machine \<times> connection_manager \<times> ('l \<times> detail transition) list \<times> ('f, 'c) wire_calls" where
  "manager_drop now sm cm cid =
     (if cid \<notin> set (dict_keys (cm_by_id cm)) then (sm, cm, [], [])
      else
        let d = (case dict_get (cm_details cm) cid of None \<Rightarrow> [] | Some d \<Rightarrow> d);
            cm1 = cm\<lparr>cm_by_id := filter (\<lambda>(other, conn). other \<noteq> cid) (cm_by_id cm),
                     cm_details := dict_del cid (cm_details cm)\<rparr>;
            (sm', cm2, calls) =
              (if cid \<in> cm_unoccupying cm1
               then let (sm', calls) = machine_step sm (SendWithoutOccupancy now CONNECTION_CLOSED d)
                    in (sm', cm1\<lparr>cm_unoccupying := cm_unoccupying cm1 - {cid}\<rparr>, calls)
               else let (sm', calls) = machine_step sm (Send now CONNECTION_CLOSED d) in (sm', cm1, calls));
            held = map fst (filter (\<lambda>(name, owner). owner = cid) (cm_publishers cm2));
            cm3 = cm2\<lparr>cm_publishers := foldl (\<lambda>d name. dict_del name d) (cm_publishers cm2) held\<rparr>
        in (sm', cm3, calls, concat (map (announce_input_freed cm3) held)))"

definition close_all :: "connection_manager \<Rightarrow> connection_manager \<times> ('f, 'c) wire_calls" where
  "close_all cm =
     (cm\<lparr>cm_by_id := [], cm_publishers := [], cm_claims := [], cm_unoccupying := {}, cm_details := []\<rparr>,
      map (\<lambda>(cid, conn). (cn_id conn, Close)) (cm_by_id cm))"

subsection \<open>Tracks\<close>

definition publish_track ::
  "connection_manager \<Rightarrow> conn_id \<Rightarrow> string \<Rightarrow> connection_manager \<times> ('f, 'c) wire_calls \<times> bool" where
  "publish_track cm cid name =
     (case dict_get (cm_by_id cm) cid of
        None \<Rightarrow> (cm, [], False)
      | Some conn \<Rightarrow>
          if name \<in> set (dict_keys (cm_publishers cm)) then (cm, [], False)
          else (cm\<lparr>cm_publishers := dict_set name cid (cm_publishers cm)\<rparr>, [(cn_id conn, Resume_Track name)], True))"

definition unpublish_track ::
  "connection_manager \<Rightarrow> conn_id \<Rightarrow> string \<Rightarrow> connection_manager \<times> ('f, 'c) wire_calls" where
  "unpublish_track cm cid name =
     (if dict_get (cm_publishers cm) name \<noteq> Some cid then (cm, [])
      else
        let cm' = cm\<lparr>cm_publishers := dict_del name (cm_publishers cm)\<rparr>
        in (cm', (case dict_get (cm_by_id cm') cid of None \<Rightarrow> [] | Some conn \<Rightarrow> [(cn_id conn, Pause_Track name)])
              @ announce_input_freed cm' name))"

definition resume_track :: "connection_manager \<Rightarrow> conn_id \<Rightarrow> string \<Rightarrow> ('f, 'c) wire_calls" where
  "resume_track cm cid name =
     (case dict_get (cm_by_id cm) cid of None \<Rightarrow> [] | Some conn \<Rightarrow> [(cn_id conn, Resume_Track name)])"

definition pause_track :: "connection_manager \<Rightarrow> conn_id \<Rightarrow> string \<Rightarrow> ('f, 'c) wire_calls" where
  "pause_track cm cid name =
     (case dict_get (cm_by_id cm) cid of None \<Rightarrow> [] | Some conn \<Rightarrow> [(cn_id conn, Pause_Track name)])"

section \<open>Sends\<close>

text \<open>
  An encoder gives the frame for a codec or raises; \<open>raises\<close> says which wire calls raise. A send
  returns the calls it made and how it ended; a fan-out absorbs what a wire raises but not what
  the encoder raises.
\<close>

datatype 'e send_error = EncodeError 'e | WireError

type_synonym ('f, 'c) wires = "conn_id \<Rightarrow> ('f, 'c) wire_call \<Rightarrow> bool"

definition deliver ::
  "('f, 'c) wires \<Rightarrow> connection \<Rightarrow> ('f, 'c) wire_call \<Rightarrow> ('f, 'c) wire_calls \<times> bool" where
  "deliver raises conn act = ([(cn_id conn, act)], \<not> raises (cn_id conn) act)"

definition call_wire ::
  "('f, 'c) wires \<Rightarrow> connection \<Rightarrow> ('f, 'c) wire_call \<Rightarrow> ('f, 'c) wire_calls \<times> ('e send_error + unit)" where
  "call_wire raises conn act =
     ([(cn_id conn, act)], if raises (cn_id conn) act then Inl WireError else Inr ())"

definition flush_holding :: "connection \<Rightarrow> ('f, 'c) wire_call" where
  "flush_holding conn = (if cn_takes_hold conn then Flush_Media (Some True) else Flush_Media None)"

definition observing :: "bool \<Rightarrow> connection \<Rightarrow> ('f, 'c) wire_calls" where
  "observing observe conn = (if observe \<and> cn_observer conn then [(cn_id conn, Observe)] else [])"

fun broadcast_loop ::
  "('f, 'c) wires \<Rightarrow> (protocol_version \<Rightarrow> 'e + 'f list) \<Rightarrow> bool \<Rightarrow> connection list
     \<Rightarrow> ('f, 'c) wire_calls \<times> ('e send_error + unit)" where
  "broadcast_loop raises encode observe [] = ([], Inr ())"
| "broadcast_loop raises encode observe (conn # conns) =
     (case encode (cn_version conn) of
        Inl e \<Rightarrow> (observing observe conn, Inl (EncodeError e))
      | Inr frame \<Rightarrow>
          let (sent, _) = deliver raises conn (Send_Message frame);
              (later, r) = broadcast_loop raises encode observe conns
          in (observing observe conn @ sent @ later, r))"

definition broadcast ::
  "('f, 'c) wires \<Rightarrow> connection_manager \<Rightarrow> (protocol_version \<Rightarrow> 'e + 'f list) \<Rightarrow> bool
     \<Rightarrow> ('f, 'c) wire_calls \<times> ('e send_error + unit)" where
  "broadcast raises cm encode observe = broadcast_loop raises encode observe (map snd (cm_by_id cm))"

definition encode_and_call ::
  "('f, 'c) wires \<Rightarrow> connection \<Rightarrow> 'e + ('f, 'c) wire_call \<Rightarrow> ('f, 'c) wire_calls \<times> ('e send_error + unit)" where
  "encode_and_call raises conn encoded =
     (case encoded of Inl e \<Rightarrow> ([], Inl (EncodeError e)) | Inr act \<Rightarrow> call_wire raises conn act)"

definition send_to ::
  "('f, 'c) wires \<Rightarrow> connection_manager \<Rightarrow> conn_id \<Rightarrow> (protocol_version \<Rightarrow> 'e + 'f list) \<Rightarrow> bool
     \<Rightarrow> ('f, 'c) wire_calls \<times> ('e send_error + unit)" where
  "send_to raises cm cid encode observe =
     (case dict_get (cm_by_id cm) cid of
        None \<Rightarrow> ([], Inr ())
      | Some conn \<Rightarrow>
          let (sent, r) = encode_and_call raises conn (map_sum id Send_Message (encode (cn_version conn)))
          in (observing observe conn @ sent, r))"

definition send_command_ack ::
  "('f, 'c) wires \<Rightarrow> connection_manager \<Rightarrow> conn_id \<Rightarrow> (protocol_version \<Rightarrow> 'e + 'f list) \<Rightarrow> bool
     \<Rightarrow> ('f, 'c) wire_calls \<times> ('e send_error + unit)" where
  "send_command_ack raises cm cid encode observe =
     (case dict_get (cm_by_id cm) cid of
        None \<Rightarrow> ([], Inr ())
      | Some conn \<Rightarrow>
          if cn_version conn = V0 then (observing observe conn, Inr ())
          else
            let (sent, r) = encode_and_call raises conn (map_sum id Send_Message (encode (cn_version conn)))
            in (observing observe conn @ sent, r))"

definition observe_one :: "connection_manager \<Rightarrow> conn_id \<Rightarrow> ('f, 'c) wire_calls" where
  "observe_one cm cid = (case dict_get (cm_by_id cm) cid of None \<Rightarrow> [] | Some conn \<Rightarrow> observing True conn)"

definition send_step_reply ::
  "('f, 'c) wires \<Rightarrow> connection_manager \<Rightarrow> conn_id \<Rightarrow> (protocol_version \<Rightarrow> 'e + channel \<times> 'f list)
     \<Rightarrow> ('f, 'c) wire_calls \<times> ('e send_error + unit)" where
  "send_step_reply raises cm cid encode =
     (case dict_get (cm_by_id cm) cid of
        None \<Rightarrow> ([], Inr ())
      | Some conn \<Rightarrow>
          if cn_version conn = V0 then ([], Inr ())
          else encode_and_call raises conn (map_sum id (\<lambda>(_, frame). Send_Message frame) (encode (cn_version conn))))"

text \<open>\<open>takes\<close> is what the connection's \<open>send_step_result\<close> returns for a frame.\<close>

definition send_step_result ::
  "(conn_id \<Rightarrow> 'f list \<Rightarrow> bool) \<Rightarrow> connection_manager \<Rightarrow> conn_id \<Rightarrow> 'f list \<Rightarrow> (nat \<Rightarrow> 'f list)
     \<Rightarrow> ('f, 'c) wire_calls" where
  "send_step_result takes cm cid frame too_large =
     (case dict_get (cm_by_id cm) cid of
        None \<Rightarrow> []
      | Some conn \<Rightarrow>
          if cn_version conn = V0 then []
          else
            let small = [(cn_id conn, Send_Step_Result (too_large (length frame)))]
            in if int (length frame) \<le> cn_max_message_size conn
               then (cn_id conn, Send_Step_Result frame) # (if takes (cn_id conn) frame then [] else small)
               else small)"

definition max_message_size :: "connection_manager \<Rightarrow> conn_id \<Rightarrow> int option" where
  "max_message_size cm cid = map_option cn_max_message_size (dict_get (cm_by_id cm) cid)"

definition message_chunking :: "connection_manager \<Rightarrow> conn_id \<Rightarrow> bool" where
  "message_chunking cm cid =
     (case dict_get (cm_by_id cm) cid of None \<Rightarrow> False | Some conn \<Rightarrow> cn_message_chunking conn)"

definition send_control ::
  "('f, 'c) wires \<Rightarrow> connection_manager \<Rightarrow> conn_id \<Rightarrow> (protocol_version \<Rightarrow> 'e + 'f list)
     \<Rightarrow> ('f, 'c) wire_calls \<times> ('e send_error + unit)" where
  "send_control raises cm cid encode =
     (case dict_get (cm_by_id cm) cid of
        None \<Rightarrow> ([], Inr ())
      | Some conn \<Rightarrow> encode_and_call raises conn (map_sum id Send_Control (encode (cn_version conn))))"

fun on_channel :: "channel \<times> 'f list \<Rightarrow> ('f, 'c) wire_call" where
  "on_channel (CONTROL, frame) = Send_Control frame"
| "on_channel (DATA, frame) = Send_Message frame"

definition send_response ::
  "('f, 'c) wires \<Rightarrow> connection_manager \<Rightarrow> conn_id \<Rightarrow> (protocol_version \<Rightarrow> 'e + channel \<times> 'f list)
     \<Rightarrow> ('f, 'c) wire_calls \<times> ('e send_error + unit)" where
  "send_response raises cm cid encode =
     (case dict_get (cm_by_id cm) cid of
        None \<Rightarrow> ([], Inr ())
      | Some conn \<Rightarrow> encode_and_call raises conn (map_sum id on_channel (encode (cn_version conn))))"

fun broadcast_response_loop ::
  "('f, 'c) wires \<Rightarrow> (protocol_version \<Rightarrow> 'e + channel \<times> 'f list) \<Rightarrow> connection list
     \<Rightarrow> ('f, 'c) wire_calls \<times> ('e send_error + unit)" where
  "broadcast_response_loop raises encode [] = ([], Inr ())"
| "broadcast_response_loop raises encode (conn # conns) =
     (case encode (cn_version conn) of
        Inl e \<Rightarrow> ([], Inl (EncodeError e))
      | Inr cf \<Rightarrow>
          let (sent, _) = deliver raises conn (on_channel cf);
              (later, r) = broadcast_response_loop raises encode conns
          in (sent @ later, r))"

definition broadcast_response ::
  "('f, 'c) wires \<Rightarrow> connection_manager \<Rightarrow> (protocol_version \<Rightarrow> 'e + channel \<times> 'f list)
     \<Rightarrow> ('f, 'c) wire_calls \<times> ('e send_error + unit)" where
  "broadcast_response raises cm encode = broadcast_response_loop raises encode (map snd (cm_by_id cm))"

text \<open>The fan-out of media: \<open>abort\<close> is the result of the abort check before each connection.\<close>

fun broadcast_media_loop ::
  "('f, 'c) wires \<Rightarrow> 'c \<Rightarrow> (conn_id \<Rightarrow> bool) \<Rightarrow> (conn_id \<times> connection) list
     \<Rightarrow> ('f, 'c) wire_calls \<times> conn_id list" where
  "broadcast_media_loop raises chunk abort [] = ([], [])"
| "broadcast_media_loop raises chunk abort ((cid, conn) # conns) =
     (if abort cid then ([], [])
      else if carries_video conn \<or> carries_audio conn
      then let (sent, took) = deliver raises conn (Send_Media chunk);
               (later, video) = broadcast_media_loop raises chunk abort conns
           in (sent @ later, (if took \<and> carries_video conn then [cid] else []) @ video)
      else broadcast_media_loop raises chunk abort conns)"

definition broadcast_media ::
  "('f, 'c) wires \<Rightarrow> connection_manager \<Rightarrow> 'c \<Rightarrow> (conn_id \<Rightarrow> bool) \<Rightarrow> ('f, 'c) wire_calls \<times> conn_id list" where
  "broadcast_media raises cm chunk abort = broadcast_media_loop raises chunk abort (cm_by_id cm)"

definition deliver_all ::
  "('f, 'c) wires \<Rightarrow> connection_manager \<Rightarrow> (connection \<Rightarrow> ('f, 'c) wire_call) \<Rightarrow> ('f, 'c) wire_calls" where
  "deliver_all raises cm act = concat (map (\<lambda>(cid, conn). fst (deliver raises conn (act conn))) (cm_by_id cm))"

definition flush_media :: "('f, 'c) wires \<Rightarrow> connection_manager \<Rightarrow> bool \<Rightarrow> ('f, 'c) wire_calls" where
  "flush_media raises cm hold =
     deliver_all raises cm (if hold then flush_holding else (\<lambda>_. Flush_Media None))"

definition set_media_rate :: "('f, 'c) wires \<Rightarrow> connection_manager \<Rightarrow> real \<Rightarrow> ('f, 'c) wire_calls" where
  "set_media_rate raises cm fps = deliver_all raises cm (\<lambda>_. Set_Media_Rate fps)"

definition set_media_depth :: "('f, 'c) wires \<Rightarrow> connection_manager \<Rightarrow> int \<Rightarrow> ('f, 'c) wire_calls" where
  "set_media_depth raises cm depth = deliver_all raises cm (\<lambda>_. Set_Media_Depth depth)"

section \<open>The registry's invariant\<close>

text \<open>
  Every entry is filed under its connection's id and has a recorded detail, only registered
  connections are marked as not occupying, a track's owner is registered, and no transport holds
  the runtime's own id.
\<close>

definition manager_ok :: "connection_manager \<Rightarrow> bool" where
  "manager_ok cm \<longleftrightarrow>
     wf_dict (cm_by_id cm) \<and> wf_dict (cm_publishers cm) \<and> wf_dict (cm_claims cm) \<and> wf_dict (cm_details cm) \<and>
     (\<forall>(cid, conn) \<in> set (cm_by_id cm). cn_id conn = cid) \<and>
     set (dict_keys (cm_details cm)) = set (dict_keys (cm_by_id cm)) \<and>
     cm_unoccupying cm \<subseteq> set (dict_keys (cm_by_id cm)) \<and>
     snd ` set (cm_publishers cm) \<subseteq> set (dict_keys (cm_by_id cm)) \<and>
     set (dict_keys (cm_claims cm)) \<inter> RESERVED_IDS = {}"

definition occupying :: "connection_manager \<Rightarrow> conn_id set" where
  "occupying cm = set (dict_keys (cm_by_id cm)) - cm_unoccupying cm"

lemma init_manager_ok: "manager_ok init_manager"
  by (simp add: manager_ok_def init_manager_def)

lemma close_all_ok: "manager_ok (fst (close_all cm))"
  by (simp add: close_all_def manager_ok_def)

lemma set_dict_set_subset: "set (dict_set k v d) \<subseteq> insert (k, v) (set d)"
  by (induction d) auto

lemma foldl_dict_del:
  "foldl (\<lambda>d name. dict_del name d) d names = filter (\<lambda>e. fst e \<notin> set names) d"
  by (induction names arbitrary: d) (auto simp: AList.delete_eq split_beta intro: filter_cong)

lemma register_manager:
  "fst (snd (register now sm cm conn sys occ)) =
     (let cm1 = cm\<lparr>cm_by_id := dict_set (cn_id conn) conn (cm_by_id cm)\<rparr>
      in if cn_id conn \<in> set (dict_keys (cm_by_id cm)) then cm1
         else cm1\<lparr>cm_details := dict_set (cn_id conn) (connection_detail conn sys) (cm_details cm),
                  cm_unoccupying := (if occ then cm_unoccupying cm else insert (cn_id conn) (cm_unoccupying cm))\<rparr>)"
  by (auto simp: register_def Let_def split_beta)

lemma register_ok:
  assumes "manager_ok cm"
  shows "manager_ok (fst (snd (register now sm cm conn sys occ)))"
  using assms set_dict_set_subset [of "cn_id conn" conn "cm_by_id cm"]
  unfolding register_manager
  by (auto simp: manager_ok_def Let_def dict_simps dom_update image_iff)

definition after_drop :: "connection_manager \<Rightarrow> conn_id \<Rightarrow> connection_manager" where
  "after_drop cm cid =
     cm\<lparr>cm_by_id := filter (\<lambda>e. fst e \<noteq> cid) (cm_by_id cm), cm_details := dict_del cid (cm_details cm),
        cm_unoccupying := cm_unoccupying cm - {cid},
        cm_publishers := filter (\<lambda>e. snd e \<noteq> cid) (cm_publishers cm)\<rparr>"

lemma manager_drop_eq:
  assumes "manager_ok cm" and "cid \<in> set (dict_keys (cm_by_id cm))"
  shows "manager_drop now sm cm cid =
    (let (sm', calls) = machine_step sm ((if cid \<in> cm_unoccupying cm then SendWithoutOccupancy else Send)
           now CONNECTION_CLOSED (the (dict_get (cm_details cm) cid)))
     in (sm', after_drop cm cid, calls,
         concat (map (announce_input_freed (after_drop cm cid))
           (map fst (filter (\<lambda>(name, owner). owner = cid) (cm_publishers cm))))))"
proof -
  have pubs: "filter (\<lambda>e. fst e \<notin> fst ` {x \<in> set (cm_publishers cm). snd x = cid}) (cm_publishers cm)
      = filter (\<lambda>e. snd e \<noteq> cid) (cm_publishers cm)"
    using assms(1) by (intro filter_cong) (auto simp: manager_ok_def image_iff dest: eq_key_imp_eq_value)
  have "cid \<in> set (dict_keys (cm_details cm))"
    using assms by (simp add: manager_ok_def)
  then have "dict_get (cm_details cm) cid \<noteq> None"
    by (simp add: map_of_eq_None_iff)
  then obtain d where d: "dict_get (cm_details cm) cid = Some d"
    by blast
  show ?thesis
    using assms(2)
    by (simp add: manager_drop_def after_drop_def Let_def case_prod_unfold foldl_dict_del pubs d)
qed

lemma manager_drop_manager:
  assumes "manager_ok cm" and "cid \<in> set (dict_keys (cm_by_id cm))"
  shows "fst (snd (manager_drop now sm cm cid)) = after_drop cm cid"
  by (simp add: manager_drop_eq [OF assms] case_prod_unfold Let_def)

lemma manager_drop_ok:
  assumes "manager_ok cm"
  shows "manager_ok (fst (snd (manager_drop now sm cm cid)))"
proof (cases "cid \<in> set (dict_keys (cm_by_id cm))")
  case True
  have keys: "set (dict_keys (filter (\<lambda>e. fst e \<noteq> cid) (cm_by_id cm))) = set (dict_keys (cm_by_id cm)) - {cid}"
    by auto
  show ?thesis
    using assms unfolding manager_drop_manager [OF assms True]
    by (auto simp: after_drop_def manager_ok_def dict_simps distinct_map_filter keys [simplified])
qed (use assms in \<open>simp add: manager_drop_def\<close>)

lemma mint_loop_cases:
  "mint_loop n cm transport draws = (cm', r) \<Longrightarrow>
     (case r of
        Inl e \<Rightarrow> cm' = cm \<and> e = ConnectionsExhaustedError \<and>
          set (take n draws) \<subseteq> set (dict_keys (cm_claims cm)) \<union> RESERVED_IDS
      | Inr i \<Rightarrow> i \<in> set (take n draws) \<and> i \<notin> set (dict_keys (cm_claims cm)) \<and> i \<notin> RESERVED_IDS \<and>
          cm' = cm\<lparr>cm_claims := dict_set i transport (cm_claims cm)\<rparr>)"
  by (induction n cm transport draws rule: mint_loop.induct) (auto split: sum.splits if_splits)

lemma new_conn_id_claims:
  "fst (new_conn_id cm transport draws) = cm \<or>
   (\<exists>i. i \<notin> set (dict_keys (cm_claims cm)) \<and> i \<notin> RESERVED_IDS \<and>
      fst (new_conn_id cm transport draws) = cm\<lparr>cm_claims := dict_set i transport (cm_claims cm)\<rparr>)"
  using mint_loop_cases [of MAX_MINT_ATTEMPTS cm transport draws]
  by (cases "new_conn_id cm transport draws") (auto simp: new_conn_id_def split: sum.splits)

lemma claim_conn_id_claims:
  "fst (claim_conn_id cm i transport) = cm \<or>
   (i \<notin> set (dict_keys (cm_claims cm)) \<and> i \<notin> RESERVED_IDS \<and>
      fst (claim_conn_id cm i transport) = cm\<lparr>cm_claims := dict_set i transport (cm_claims cm)\<rparr>)"
  by (auto simp: claim_conn_id_def map_of_eq_None_iff split: option.splits)

lemma add_claim_ok:
  "manager_ok cm \<Longrightarrow> i \<notin> RESERVED_IDS \<Longrightarrow> manager_ok (cm\<lparr>cm_claims := dict_set i transport (cm_claims cm)\<rparr>)"
  by (auto simp: manager_ok_def dict_simps dom_update)

lemma publish_track_ok: "manager_ok cm \<Longrightarrow> manager_ok (fst (publish_track cm cid name))"
  using set_dict_set_subset [of name cid "cm_publishers cm"]
  by (auto simp: manager_ok_def publish_track_def dict_simps image_iff split: option.splits dest!: map_of_SomeD) force+

lemma unpublish_track_ok:
  assumes "manager_ok cm"
  shows "manager_ok (fst (unpublish_track cm cid name))"
proof -
  have "snd ` set (cm_publishers cm) \<subseteq> set (dict_keys (cm_by_id cm))"
    using assms by (simp add: manager_ok_def)
  then have "snd ` set (dict_del name (cm_publishers cm)) \<subseteq> set (dict_keys (cm_by_id cm))"
    using image_mono [OF set_dict_del [of name "cm_publishers cm"], of snd] by (rule order_trans [rotated])
  then show ?thesis
    using assms by (simp add: manager_ok_def unpublish_track_def Let_def wf_dict_del)
qed

section \<open>Runs of the registry\<close>

datatype manager_op =
    Register int connection bool bool
  | Drop int conn_id
  | CloseAll
  | Publish conn_id string
  | Unpublish conn_id string
  | Mint string "conn_id list"
  | Claim conn_id string
  | Release conn_id string

fun manager_step ::
  "'l session_machine \<times> connection_manager \<Rightarrow> manager_op \<Rightarrow> 'l session_machine \<times> connection_manager" where
  "manager_step (sm, cm) (Register now conn sys occ) =
     (let (sm', cm', _) = register now sm cm conn sys occ in (sm', cm'))"
| "manager_step (sm, cm) (Drop now cid) = 
     (let (sm', cm', _, _ :: (unit, unit) wire_calls) = manager_drop now sm cm cid in (sm', cm'))"
| "manager_step (sm, cm) CloseAll = (sm, fst (close_all cm :: _ \<times> (unit, unit) wire_calls))"
| "manager_step (sm, cm) (Publish cid name) = 
     (sm, fst (publish_track cm cid name :: _ \<times> (unit, unit) wire_calls \<times> _))"
| "manager_step (sm, cm) (Unpublish cid name) = 
     (sm, fst (unpublish_track cm cid name :: _ \<times> (unit, unit) wire_calls))"
| "manager_step (sm, cm) (Mint transport draws) = (sm, fst (new_conn_id cm transport draws))"
| "manager_step (sm, cm) (Claim cid transport) = (sm, fst (claim_conn_id cm cid transport))"
| "manager_step (sm, cm) (Release cid transport) = (sm, release_conn_id cm cid transport)"

lemma manager_step_ok:
  assumes "manager_ok (snd s)"
  shows "manager_ok (snd (manager_step s op))"
proof (cases s)
  case (Pair sm cm)
  with assms have ok: "manager_ok cm" by simp
  show ?thesis
  proof (cases op)
    case (Register now conn sys occ)
    with Pair register_ok [OF ok, of now sm conn sys occ] show ?thesis by (simp add: split_beta)
  next
    case (Drop now cid)
    with Pair manager_drop_ok [OF ok] show ?thesis by (simp add: split_beta)
  next
    case (Mint transport draws)
    with Pair new_conn_id_claims [of cm transport draws] ok add_claim_ok [OF ok] show ?thesis by auto
  next
    case (Claim cid transport)
    with Pair claim_conn_id_claims [of cm cid transport] ok add_claim_ok [OF ok] show ?thesis by auto
  next
    case (Release cid transport)
    with Pair ok show ?thesis
      by (auto simp: release_conn_id_def manager_ok_def dict_simps)
  qed (use Pair ok in \<open>simp_all add: publish_track_ok unpublish_track_ok close_all_ok\<close>)
qed

interpretation registry: step_invariant manager_step "\<lambda>s. manager_ok (snd s)"
  by unfold_locales (rule manager_step_ok)

section \<open>Properties\<close>

text \<open>
  The registry stays consistent: after any sequence of registrations, drops, teardowns,
  track claims and releases, mints, id claims and releases, each connection is filed once, under
  its own id; every registered connection, and no other, has an opening detail to close with;
  every published track is held by a connection that is still registered; and the runtime's own
  id is claimed by no transport.
\<close>

theorem registry_consistent:
  "let cm = snd (foldl manager_step (sm, init_manager) ops)
   in distinct (dict_keys (cm_by_id cm)) \<and> (\<forall>(cid, conn) \<in> set (cm_by_id cm). cn_id conn = cid) \<and>
      set (dict_keys (cm_details cm)) = set (dict_keys (cm_by_id cm)) \<and>
      cm_unoccupying cm \<subseteq> set (dict_keys (cm_by_id cm)) \<and>
      (\<forall>name cid. dict_get (cm_publishers cm) name = Some cid \<longrightarrow> cid \<in> set (dict_keys (cm_by_id cm))) \<and>
      dict_get (cm_claims cm) SYSTEM_CONN_ID = None"
proof -
  define cm where "cm = snd (foldl manager_step (sm, init_manager) ops)"
  have ok: "manager_ok cm"
    unfolding cm_def using registry.run_keeps [of "(sm, init_manager)" ops] init_manager_ok by simp
  have "cid \<in> set (dict_keys (cm_by_id cm))" if "dict_get (cm_publishers cm) name = Some cid" for name cid
  proof -
    have "snd ` set (cm_publishers cm) \<subseteq> set (dict_keys (cm_by_id cm))"
      using ok by (simp add: manager_ok_def)
    with imageI [OF map_of_SomeD [OF that], of snd] show ?thesis by auto
  qed
  moreover have "dict_get (cm_claims cm) SYSTEM_CONN_ID = None"
    using ok by (simp add: manager_ok_def RESERVED_IDS_def map_of_eq_None_iff)
  ultimately show ?thesis
    using ok unfolding cm_def [symmetric] Let_def manager_ok_def by simp
qed

text \<open>A registered client that publishes a track, for the witnesses below.\<close>

definition client :: "conn_id \<Rightarrow> connection" where
  "client cid =
     \<lparr>cn_id = cid, carries_video = True, carries_audio = False, cn_version = V1, cn_max_message_size = 1000,
      cn_message_chunking = True, cn_origin = None, cn_observer = False, cn_watcher = True,
      cn_takes_hold = True, cn_latest_reading = None, cn_times_frames = False, cn_times_messages = False\<rparr>"

theorem registry_consistent_witness:
  "let cm = snd (foldl manager_step (init_machine WAITING :: unit session_machine, init_manager)
       [Register 0 (client 7) False True, Publish 7 ''cam'', Register 1 (client 8) False True, Drop 2 7])
   in dict_keys (cm_by_id cm) = [8] \<and> dict_get (cm_publishers cm) ''cam'' = None \<and>
      dict_get (cm_claims cm) SYSTEM_CONN_ID = None"
proof -
  define cm where "cm = snd (foldl manager_step (init_machine WAITING :: unit session_machine, init_manager)
       [Register 0 (client 7) False True, Publish 7 ''cam'', Register 1 (client 8) False True, Drop 2 7])"
  have keys: "dict_keys (cm_by_id cm) = [8]" and pub: "dict_get (cm_publishers cm) ''cam'' = None"
    unfolding cm_def by (simp_all add: register_def manager_drop_def publish_track_def init_manager_def
        client_def init_machine_def Let_def split_beta machine_defs)
  have "dict_get (cm_claims cm) SYSTEM_CONN_ID = None"
    using registry_consistent [where sm = "init_machine WAITING :: unit session_machine" and
        ops = "[Register 0 (client 7) False True, Publish 7 ''cam'', Register 1 (client 8) False True, Drop 2 7]"]
    unfolding cm_def [symmetric] Let_def by blast
  with keys pub show ?thesis
    unfolding cm_def [symmetric] Let_def by blast
qed

lemma manager_step_owner:
  assumes "manager_ok (snd s)" and "dict_get (cm_publishers (snd s)) name = Some cid"
    and "op \<noteq> CloseAll" and "op \<noteq> Unpublish cid name" and "\<forall>now. op \<noteq> Drop now cid"
  shows "dict_get (cm_publishers (snd (manager_step s op))) name = Some cid"
proof (cases s)
  case (Pair sm cm)
  note s = this
  show ?thesis
  proof (cases op)
    case (Register now conn sys occ)
    with s assms show ?thesis
      by (simp add: split_beta register_manager Let_def)
  next
    case (Drop now other)
    show ?thesis
    proof (cases "other \<in> set (dict_keys (cm_by_id cm))")
      case True
      have "dict_get (filter (\<lambda>e. snd e \<noteq> other) (cm_publishers cm)) name = Some cid"
        using assms s Drop by (auto simp: manager_ok_def distinct_map_filter)
      with s Drop assms True show ?thesis
        by (simp add: split_beta manager_drop_manager after_drop_def)
    qed (use s Drop assms in \<open>simp add: manager_drop_def\<close>)
  next
    case (Publish other track)
    with s assms show ?thesis
      by (auto simp: publish_track_def dict_simps split: option.splits)
  next
    case (Unpublish other track)
    with s assms show ?thesis
      by (auto simp: unpublish_track_def Let_def dict_simps)
  next
    case (Mint transport draws)
    with s assms new_conn_id_claims [of cm transport draws] show ?thesis by auto
  next
    case (Claim other transport)
    with s assms claim_conn_id_claims [of cm other transport] show ?thesis by auto
  next
    case (Release other transport)
    with s assms show ?thesis by (auto simp: release_conn_id_def)
  qed (use assms in simp)
qed

text \<open>
  First publisher wins: once a track is held, it stays with its holder over any sequence
  of operations in which the holder neither releases it nor drops and the session is not torn
  down, whatever other connections claim, release or do; and every further claim is refused.
\<close>

theorem first_publisher_wins:
  assumes "manager_ok (snd s)" and "dict_get (cm_publishers (snd s)) name = Some cid"
    and "\<forall>op \<in> set ops. op \<noteq> CloseAll \<and> op \<noteq> Unpublish cid name \<and> (\<forall>now. op \<noteq> Drop now cid)"
  shows "dict_get (cm_publishers (snd (foldl manager_step s ops))) name = Some cid \<and>
    publish_track (snd (foldl manager_step s ops)) other name = (snd (foldl manager_step s ops), [], False)"
  using assms
proof (induction ops arbitrary: s)
  case Nil
  then have "name \<in> set (dict_keys (cm_publishers (snd s)))"
    by (force dest: map_of_SomeD)
  with Nil show ?case by (simp add: publish_track_def split: option.splits)
next
  case (Cons op ops)
  have "manager_ok (snd (manager_step s op))"
    using Cons.prems(1) by (rule manager_step_ok)
  moreover have "dict_get (cm_publishers (snd (manager_step s op))) name = Some cid"
    using Cons.prems by (intro manager_step_owner) auto
  ultimately show ?case
    using Cons.IH [of "manager_step s op"] Cons.prems(3) by simp
qed

definition published :: "unit session_machine \<times> connection_manager" where
  "published = foldl manager_step (init_machine WAITING, init_manager)
     [Claim 7 ''webrtc'', Register 0 (client 7) False True, Register 1 (client 8) False True, Publish 7 ''cam'']"

lemma published_eval [simp]:
  "cm_publishers (snd published) = [(''cam'', 7)]" "cm_claims (snd published) = [(7, ''webrtc'')]"
  "manager_ok (snd published)"
proof -
  show "cm_publishers (snd published) = [(''cam'', 7)]" "cm_claims (snd published) = [(7, ''webrtc'')]"
    by (simp_all add: published_def register_def publish_track_def claim_conn_id_def init_manager_def
        client_def init_machine_def Let_def split_beta machine_defs RESERVED_IDS_def SYSTEM_CONN_ID_def)
  show "manager_ok (snd published)"
    unfolding published_def by (rule registry.run_keeps) (simp add: init_manager_ok)
qed

lemma published_registry: "cm_by_id (snd published) = [(7, client 7), (8, client 8)]"
  by (simp add: published_def register_def publish_track_def claim_conn_id_def init_manager_def
      client_def init_machine_def Let_def split_beta machine_defs RESERVED_IDS_def SYSTEM_CONN_ID_def)

theorem first_publisher_wins_witness:
  "dict_get (cm_publishers (snd (foldl manager_step published [Publish 8 ''cam'', Unpublish 8 ''cam'', Drop 3 8]))) ''cam''
     = Some 7"
  by (rule first_publisher_wins [where other = 8, THEN conjunct1]) simp_all

lemma manager_step_claim:
  assumes "dict_get (cm_claims (snd s)) cid = Some transport"
    and "op \<noteq> CloseAll" and "op \<noteq> Release cid transport"
  shows "dict_get (cm_claims (snd (manager_step s op))) cid = Some transport"
proof (cases s)
  case (Pair sm cm)
  with assms(1) have claimed: "dict_get (cm_claims cm) cid = Some transport" and key: "cid \<in> set (dict_keys (cm_claims cm))"
    by (simp, force dest: map_of_SomeD)
  show ?thesis
  proof (cases op)
    case (Register now conn sys occ)
    with Pair claimed show ?thesis by (simp add: split_beta register_manager Let_def)
  next
    case (Drop now other)
    with Pair claimed show ?thesis by (auto simp: manager_drop_def Let_def split_beta)
  next
    case (Publish other track)
    with Pair claimed show ?thesis by (simp add: publish_track_def split: option.splits)
  next
    case (Unpublish other track)
    with Pair claimed show ?thesis by (simp add: unpublish_track_def Let_def)
  next
    case (Mint t draws)
    with Pair claimed key new_conn_id_claims [of cm t draws] show ?thesis by (auto simp: dict_simps)
  next
    case (Claim other t)
    with Pair claimed key claim_conn_id_claims [of cm other t] show ?thesis by (auto simp: dict_simps)
  next
    case (Release other t)
    with Pair claimed assms show ?thesis by (auto simp: release_conn_id_def dict_simps)
  qed (use assms in simp)
qed

text \<open>
  One transport never takes another's id: a claim stays with its transport over any sequence
  of operations short of a teardown and of that transport releasing it, so an attempt of another
  transport to claim the id is refused and a mint never returns it.
\<close>

theorem claim_never_taken_over:
  assumes "dict_get (cm_claims (snd s)) cid = Some transport" and "cid \<notin> RESERVED_IDS"
    and "\<forall>op \<in> set ops. op \<noteq> CloseAll \<and> op \<noteq> Release cid transport"
  shows "let cm = snd (foldl manager_step s ops)
    in claim_holder cm cid = Some transport \<and>
       (\<forall>other. other \<noteq> transport \<longrightarrow> claim_conn_id cm cid other = (cm, Inl (ConnectionIdClaimedError cid))) \<and>
       (\<forall>other draws. snd (new_conn_id cm other draws) \<noteq> Inr cid)"
  using assms
proof (induction ops arbitrary: s)
  case Nil
  then have key: "cid \<in> set (dict_keys (cm_claims (snd s)))"
    by (force dest: map_of_SomeD)
  have "snd (new_conn_id (snd s) other draws) \<noteq> Inr cid" for other draws
    using mint_loop_cases [of MAX_MINT_ATTEMPTS "snd s" other draws] key unfolding new_conn_id_def
    by (cases "mint_loop MAX_MINT_ATTEMPTS (snd s) other draws") (force split: sum.splits)
  with Nil show ?case
    by (simp add: claim_holder_def claim_conn_id_def Let_def)
next
  case (Cons op ops)
  have "dict_get (cm_claims (snd (manager_step s op))) cid = Some transport"
    using Cons.prems by (intro manager_step_claim) auto
  then show ?case
    using Cons.IH [of "manager_step s op"] Cons.prems by simp
qed

theorem claim_never_taken_over_witness:
  "claim_holder (snd (foldl manager_step published [Claim 7 ''moq'', Release 7 ''moq'', Drop 3 7])) 7 = Some ''webrtc''"
  using claim_never_taken_over [where s = published and cid = 7 and transport = "''webrtc''"
      and ops = "[Claim 7 ''moq'', Release 7 ''moq'', Drop 3 7]"]
  by (simp add: RESERVED_IDS_def SYSTEM_CONN_ID_def Let_def del: foldl.simps)

text \<open>
  Minting: with draws from the runtime's own range, a minted id lies in that range (above
  every id a caller mints, and never the system client's), was unclaimed, and is now claimed by
  the transport; a mint that fails changes nothing, and fails only when a hundred draws in a row
  hit claimed ids.
\<close>

theorem minted_id_fresh:
  assumes "MAX_MINT_ATTEMPTS \<le> length draws" and "\<forall>i \<in> set draws. MIN_CONN_ID \<le> i \<and> i \<le> MAX_CONN_ID"
  shows "case new_conn_id cm transport draws of
     (cm', Inr i) \<Rightarrow> 5000 \<le> i \<and> i \<le> 9999 \<and> claim_holder cm i = None \<and> claim_holder cm' i = Some transport \<and>
        (\<forall>j. j \<noteq> i \<longrightarrow> claim_holder cm' j = claim_holder cm j) \<and> cm_by_id cm' = cm_by_id cm
   | (cm', Inl e) \<Rightarrow> cm' = cm \<and> e = ConnectionsExhaustedError \<and>
        (\<forall>i \<in> set (take 100 draws). claim_holder cm i \<noteq> None)"
proof -
  obtain cm' r where res: "new_conn_id cm transport draws = (cm', r)"
    by fastforce
  note loop = mint_loop_cases [OF res [unfolded new_conn_id_def]]
  show ?thesis
  proof (cases r)
    case (Inl e)
    have "i \<in> set (dict_keys (cm_claims cm))" if i: "i \<in> set (take 100 draws)" for i
    proof -
      have "i \<in> set draws" using i by (rule in_set_takeD)
      then have "5000 \<le> i" using assms(2) by (simp add: MIN_CONN_ID_def)
      then have "i \<notin> RESERVED_IDS" by (simp add: RESERVED_IDS_def SYSTEM_CONN_ID_def)
      moreover have "i \<in> set (dict_keys (cm_claims cm)) \<union> RESERVED_IDS"
        using loop Inl i by (auto simp: MAX_MINT_ATTEMPTS_def)
      ultimately show ?thesis by blast
    qed
    then show ?thesis
      using loop Inl res by (auto simp: claim_holder_def map_of_eq_None_iff)
  next
    case (Inr i)
    have "i \<in> set draws" using loop Inr in_set_takeD by fastforce
    then have "5000 \<le> i \<and> i \<le> 9999" using assms(2) by (simp add: MIN_CONN_ID_def MAX_CONN_ID_def)
    then show ?thesis
      using loop Inr res by (simp add: claim_holder_def map_of_eq_None_iff dict_get_set)
  qed
qed

theorem minted_id_fresh_witness:
  "snd (new_conn_id init_manager ''webrtc'' (replicate 100 6000)) = Inr 6000 \<and>
   claim_holder (fst (new_conn_id init_manager ''webrtc'' (replicate 100 6000))) 6000 = Some ''webrtc''"
proof -
  have first: "snd (new_conn_id init_manager ''webrtc'' (replicate 100 6000)) = Inr 6000"
    by (simp add: new_conn_id_def MAX_MINT_ATTEMPTS_def init_manager_def RESERVED_IDS_def SYSTEM_CONN_ID_def
        numeral_eq_Suc)
  with minted_id_fresh [where draws = "replicate 100 6000" and cm = init_manager and transport = "''webrtc''"]
  show ?thesis
    by (cases "new_conn_id init_manager ''webrtc'' (replicate 100 6000)")
      (simp add: MAX_MINT_ATTEMPTS_def MIN_CONN_ID_def MAX_CONN_ID_def)
qed

text \<open>
  A drop releases and announces: dropping a registered connection removes it, frees exactly
  the tracks it held and no other, and tells every remaining watcher about each of them once,
  after the session machine has been driven by exactly one \<open>CONNECTION_CLOSED\<close> that carries the
  detail the connection opened with.
\<close>

theorem drop_releases_and_announces:
  assumes "manager_ok cm" and "cid \<in> set (dict_keys (cm_by_id cm))"
  shows "case manager_drop now sm cm cid of (sm', cm', calls, wire :: ('f, 'c) wire_calls) \<Rightarrow>
     let held = map fst (filter (\<lambda>(name, owner). owner = cid) (cm_publishers cm));
         watchers = map fst (filter (\<lambda>(other, conn). other \<noteq> cid \<and> cn_watcher conn) (cm_by_id cm))
     in dict_keys (cm_by_id cm') = filter (\<lambda>other. other \<noteq> cid) (dict_keys (cm_by_id cm)) \<and>
        cm_publishers cm' = filter (\<lambda>(name, owner). owner \<noteq> cid) (cm_publishers cm) \<and>
        wire = concat (map (\<lambda>name. map (\<lambda>w. (w, Input_Track_Freed name)) watchers) held) \<and>
        (sm', calls) = machine_step sm ((if cid \<in> cm_unoccupying cm then SendWithoutOccupancy else Send)
           now CONNECTION_CLOSED (the (dict_get (cm_details cm) cid)))"
proof -
  have ids: "cn_id (snd e) = fst e" if "e \<in> set (cm_by_id cm)" for e
    using assms(1) that by (auto simp: manager_ok_def)
  have watch: "announce_input_freed (after_drop cm cid) = (\<lambda>name. map (\<lambda>w. (w, Input_Track_Freed name))
      (map fst (filter (\<lambda>(other, conn). other \<noteq> cid \<and> cn_watcher conn) (cm_by_id cm))))"
    using ids by (intro ext) (simp add: announce_input_freed_def after_drop_def case_prod_unfold conj_commute)
  have keys: "dict_keys (cm_by_id (after_drop cm cid)) = filter (\<lambda>other. other \<noteq> cid) (dict_keys (cm_by_id cm))"
    by (simp add: after_drop_def filter_map comp_def)
  have pubs: "cm_publishers (after_drop cm cid) = filter (\<lambda>(name, owner). owner \<noteq> cid) (cm_publishers cm)"
    by (simp add: after_drop_def case_prod_unfold)
  show ?thesis
    by (simp only: manager_drop_eq [OF assms] watch keys pubs Let_def case_prod_unfold fst_conv snd_conv
        prod.collapse simp_thms)
qed

theorem drop_releases_and_announces_witness:
  "snd (snd (snd (manager_drop 5 (fst published) (snd published) 7))) = [(8, Input_Track_Freed ''cam'' :: (unit, unit) wire_call)]"
proof -
  note reg = published_registry
  have "7 \<in> set (dict_keys (cm_by_id (snd published)))"
    by (simp add: reg)
  from drop_releases_and_announces [OF published_eval(3) this, where now = 5 and sm = "fst published" and 'f = unit and 'c = unit] reg
  show ?thesis
    by (simp add: case_prod_unfold Let_def client_def)
qed

abbreviation data_sends :: "('f, 'c) wire_calls \<Rightarrow> ('f, 'c) wire_calls" where
  "data_sends calls \<equiv> filter (\<lambda>c. snd c \<noteq> Observe) calls"

lemma broadcast_loop_all:
  "\<forall>conn \<in> set conns. encode (cn_version conn) = Inr (render (cn_version conn)) \<Longrightarrow>
   snd (broadcast_loop raises encode observe conns) = Inr () \<and>
   data_sends (fst (broadcast_loop raises encode observe conns)) =
     map (\<lambda>conn. (cn_id conn, Send_Message (render (cn_version conn)))) conns"
  by (induction conns) (auto simp: deliver_def observing_def split_beta Let_def)

lemma broadcast_loop_fails:
  "conn \<in> set conns \<Longrightarrow> encode (cn_version conn) = Inl e \<Longrightarrow>
   \<exists>e'. snd (broadcast_loop raises encode observe conns) = Inl (EncodeError e')"
  by (induction conns) (auto simp: split_beta Let_def split: sum.splits)

text \<open>
  A broadcast reaches everyone: when the frame encodes for every codec, each registered
  connection is sent it exactly once, in registration order and in its own codec, whichever wires
  raise; when the encoder fails for a connection's codec, the error reaches the caller.
\<close>

theorem broadcast_reaches_all:
  fixes raises :: "('f, 'c) wires"
  assumes "manager_ok cm"
  shows "((\<forall>conn \<in> snd ` set (cm_by_id cm). encode (cn_version conn) = Inr (render (cn_version conn))) \<longrightarrow>
      snd (broadcast raises cm encode observe) = Inr () \<and>
      data_sends (fst (broadcast raises cm encode observe)) =
        map (\<lambda>(cid, conn). (cid, Send_Message (render (cn_version conn)))) (cm_by_id cm)) \<and>
    ((\<exists>conn \<in> snd ` set (cm_by_id cm). \<exists>e. encode (cn_version conn) = Inl e) \<longrightarrow>
      (\<exists>e. snd (broadcast raises cm encode observe) = Inl (EncodeError e)))"
proof -
  have ids: "map (\<lambda>conn. (cn_id conn, act conn)) (map snd (cm_by_id cm)) = map (\<lambda>(cid, conn). (cid, act conn)) (cm_by_id cm)"
    for act :: "connection \<Rightarrow> ('f, 'c) wire_call"
    using assms by (auto simp: manager_ok_def)
  show ?thesis
    unfolding broadcast_def using broadcast_loop_all [of "map snd (cm_by_id cm)" encode render raises observe]
      broadcast_loop_fails [of _ "map snd (cm_by_id cm)" encode _ raises observe]
    by (force simp only: ids set_map)
qed

theorem broadcast_reaches_all_witness:
  "data_sends (fst (broadcast (\<lambda>cid _. cid = 7 :: bool) (snd published)
      (\<lambda>v. Inr (if v = V0 then [1 :: nat] else [2]) :: unit + nat list) False))
     = [(7, Send_Message [2] :: (nat, unit) wire_call), (8, Send_Message [2])]"
  using broadcast_reaches_all [where cm = "snd published" and raises = "\<lambda>cid _ :: (nat, unit) wire_call. cid = 7" and
      encode = "\<lambda>v. Inr (if v = V0 then [1 :: nat] else [2]) :: unit + nat list" and observe = False
      and render = "\<lambda>v. if v = V0 then [1 :: nat] else [2]", OF published_eval(3)]
  by (simp add: published_registry client_def)

lemma broadcast_media_loop_spec:
  "broadcast_media_loop raises chunk abort conns =
    (let reached = filter (\<lambda>(cid, conn). carries_video conn \<or> carries_audio conn) (takeWhile (\<lambda>(cid, conn). \<not> abort cid) conns)
     in (map (\<lambda>(cid, conn). (cn_id conn, Send_Media chunk)) reached,
         map fst (filter (\<lambda>(cid, conn). carries_video conn \<and> \<not> raises (cn_id conn) (Send_Media chunk)) reached)))"
  by (induction raises chunk abort conns rule: broadcast_media_loop.induct)
    (auto simp: deliver_def split_beta Let_def)

text \<open>
  The media fan-out: without an abort, the chunk goes exactly once to each connection whose
  wire carries video or audio, in registration order, and the result names exactly the
  video-carrying connections whose wire took it. An abort before some connection leaves every
  connection before it served and every one from it on untouched.
\<close>

theorem broadcast_media_reach:
  assumes "manager_ok cm"
  shows "broadcast_media raises cm chunk abort =
    (let reached = filter (\<lambda>(cid, conn). carries_video conn \<or> carries_audio conn)
           (takeWhile (\<lambda>(cid, conn). \<not> abort cid) (cm_by_id cm))
     in (map (\<lambda>(cid, conn). (cid, Send_Media chunk)) reached,
         map fst (filter (\<lambda>(cid, conn). carries_video conn \<and> \<not> raises cid (Send_Media chunk)) reached)))"
proof -
  define reached where "reached = filter (\<lambda>(cid, conn). carries_video conn \<or> carries_audio conn)
     (takeWhile (\<lambda>(cid, conn). \<not> abort cid) (cm_by_id cm))"
  have "cn_id (snd e) = fst e" if "e \<in> set reached" for e
    using that assms set_takeWhileD by (fastforce simp: reached_def manager_ok_def)
  then show ?thesis
    unfolding broadcast_media_def broadcast_media_loop_spec reached_def [symmetric] Let_def
    by (auto simp: case_prod_unfold cong: map_cong filter_cong)
qed

theorem broadcast_media_reach_witness:
  "broadcast_media (\<lambda>cid (_ :: (unit, nat) wire_call). cid = 7) (snd published) 3 (\<lambda>_. False)
     = ([(7, Send_Media 3), (8, Send_Media 3)], [8])"
  by (simp add: broadcast_media_reach published_registry client_def)

end
