(* ===== verification/EventStream.thy ===== *)
theory EventStream
  imports SessionMachine
begin

text \<open>
  The egress journal, \<^verbatim>\<open>event_stream.py\<close>. A subscription is one entry of
  \<open>es_streams\<close>: the asyncio queue it registered and the generator that drains it (the captured
  backlog, whether the generator has been entered, whether the queue is still registered). A
  generator that is closed before its first iteration never enters its \<open>try\<close>, so its
  \<open>finally\<close> does not run and the queue stays registered, as in Python.
\<close>

type_synonym 'd item = "int \<times> 'd transition"

record 'd stream =
  st_registered :: bool
  st_started :: bool
  st_backlog :: "'d item list"
  st_queue :: "'d item list"

record 'd event_stream =
  es_seq :: int
  es_history :: "'d item list"
  es_history_limit :: nat
  es_subscriber_limit :: nat
  es_streams :: "'d stream list"
  es_state :: "session_state option"
  es_connections :: int

record session_snapshot =
  ss_state :: "session_state option"
  ss_connections :: int
  ss_last_seq :: int

datatype stream_error = LimitError string int

definition init_stream :: "int \<Rightarrow> int \<Rightarrow> stream_error + 'd event_stream" where
  "init_stream history_limit subscriber_limit =
     (if history_limit < 1 then Inl (LimitError ''history_limit'' history_limit)
      else if subscriber_limit < 1 then Inl (LimitError ''subscriber_limit'' subscriber_limit)
      else Inr \<lparr>es_seq = 0, es_history = [], es_history_limit = nat history_limit,
                es_subscriber_limit = nat subscriber_limit, es_streams = [],
                es_state = None, es_connections = 0\<rparr>)"

text \<open>\<^verbatim>\<open>deque(maxlen=n).append\<close> drops from the left when the deque is full.\<close>

definition deque_append :: "nat \<Rightarrow> 'a list \<Rightarrow> 'a \<Rightarrow> 'a list" where
  "deque_append maxlen xs x =
     (if length xs < maxlen then xs @ [x] else drop (length xs + 1 - maxlen) (xs @ [x]))"

text \<open>\<^verbatim>\<open>put_nowait\<close> raises QueueFull (\<open>None\<close>) on a queue that holds its maximum.\<close>

definition put_nowait :: "nat \<Rightarrow> 'a list \<Rightarrow> 'a \<Rightarrow> 'a list option" where
  "put_nowait maxsize q x = (if length q \<ge> maxsize then None else Some (q @ [x]))"

definition offer :: "nat \<Rightarrow> 'a list \<Rightarrow> 'a \<Rightarrow> 'a list" where
  "offer limit q item =
     (case put_nowait limit q item of
        Some q' \<Rightarrow> q'
      | None \<Rightarrow> (case put_nowait limit (tl q) item of Some q' \<Rightarrow> q' | None \<Rightarrow> tl q))"

definition fold_event :: "'d event_stream \<Rightarrow> 'd transition \<Rightarrow> 'd event_stream" where
  "fold_event s t =
     s\<lparr>es_state := Some (to_state t),
       es_connections :=
         (if tr_event t = CONNECTION_OPENED then es_connections s + 1
          else if tr_event t = CONNECTION_CLOSED then max 0 (es_connections s - 1)
          else es_connections s)\<rparr>"

definition emit :: "'d event_stream \<Rightarrow> 'd transition \<Rightarrow> 'd event_stream" where
  "emit s event =
     (let s1 = s\<lparr>es_seq := es_seq s + 1\<rparr>;
          item = (es_seq s1, event);
          s2 = s1\<lparr>es_history := deque_append (es_history_limit s1) (es_history s1) item\<rparr>;
          s3 = fold_event s2 event
      in s3\<lparr>es_streams :=
           map (\<lambda>st. if st_registered st
                     then st\<lparr>st_queue := offer (es_subscriber_limit s3) (st_queue st) item\<rparr>
                     else st) (es_streams s3)\<rparr>)"

definition subscribe :: "'d event_stream \<Rightarrow> int option \<Rightarrow> 'd event_stream \<times> nat" where
  "subscribe s since =
     (let start = (case since of None \<Rightarrow> es_seq s | Some n \<Rightarrow> n);
          backlog = filter (\<lambda>item. fst item > start) (es_history s)
      in (s\<lparr>es_streams := es_streams s @
              [\<lparr>st_registered = True, st_started = False, st_backlog = backlog, st_queue = []\<rparr>]\<rparr>,
          length (es_streams s)))"

text \<open>One \<^verbatim>\<open>anext\<close> of the generator: \<open>None\<close> when it suspends on an empty queue.\<close>

definition stream_next ::
  "'d event_stream \<Rightarrow> nat \<Rightarrow> 'd event_stream \<times> 'd item option" where
  "stream_next s i =
     (let st = (es_streams s ! i)\<lparr>st_started := True\<rparr>
      in case st_backlog st of
           x # rest \<Rightarrow> (s\<lparr>es_streams := (es_streams s)[i := st\<lparr>st_backlog := rest\<rparr>]\<rparr>, Some x)
         | [] \<Rightarrow>
             (case st_queue st of
                x # rest \<Rightarrow> (s\<lparr>es_streams := (es_streams s)[i := st\<lparr>st_queue := rest\<rparr>]\<rparr>, Some x)
              | [] \<Rightarrow> (s\<lparr>es_streams := (es_streams s)[i := st]\<rparr>, None)))"

definition stream_close :: "'d event_stream \<Rightarrow> nat \<Rightarrow> 'd event_stream" where
  "stream_close s i =
     (let st = es_streams s ! i
      in if st_started st
         then s\<lparr>es_streams := (es_streams s)[i := st\<lparr>st_registered := False\<rparr>]\<rparr>
         else s)"

definition snapshot :: "'d event_stream \<Rightarrow> session_snapshot" where
  "snapshot s = \<lparr>ss_state = es_state s, ss_connections = es_connections s, ss_last_seq = es_seq s\<rparr>"

section \<open>Bounded memory\<close>

text \<open>Both bounds shed the oldest element: the history deque and a subscriber's queue.\<close>

lemma deque_append_last_n: "1 \<le> n \<Longrightarrow> deque_append n xs x = last_n n (xs @ [x])"
  by (simp add: deque_append_def last_n_def)

lemma offer_last_n:
  "1 \<le> n \<Longrightarrow> length q \<le> n \<Longrightarrow> offer n q x = last_n n (q @ [x])"
  by (cases q) (auto simp: offer_def put_nowait_def last_n_def Suc_diff_le)

interpretation history_deque: drop_oldest
  "deque_append n" id n "\<lambda>q. 1 \<le> n \<and> length q \<le> n" for n
  by unfold_locales (auto simp: deque_append_last_n)

interpretation subscriber_queue: drop_oldest
  "offer n" id n "\<lambda>q. 1 \<le> n \<and> length q \<le> n" for n
  by unfold_locales (auto simp: offer_last_n)

lemmas deque_run = history_deque.items_run [simplified]
lemmas offer_run = subscriber_queue.items_run [simplified]

section \<open>Runs of emits\<close>

text \<open>The items a run of emits appends, numbered from the journal's sequence.\<close>

fun numbered :: "int \<Rightarrow> 'd transition list \<Rightarrow> 'd item list" where
  "numbered n [] = []"
| "numbered n (t # ts) = (n + 1, t) # numbered (n + 1) ts"

lemma length_numbered [simp]: "length (numbered n ts) = length ts"
  by (induction n ts rule: numbered.induct) simp_all

lemma numbered_append: "numbered n (ts @ us) = numbered n ts @ numbered (n + int (length ts)) us"
  by (induction n ts rule: numbered.induct) (simp_all add: algebra_simps)

lemma numbered_seqs: "map fst (numbered n ts) = map (\<lambda>k. n + 1 + int k) [0..<length ts]"
proof (induction n ts rule: numbered.induct)
  case (2 n t ts)
  have "map (\<lambda>k. n + 1 + int k) [0..<length (t # ts)]
      = (n + 1) # map (\<lambda>k. n + 1 + 1 + int k) [0..<length ts]"
    by (simp add: upt_conv_Cons map_Suc_upt [symmetric] algebra_simps del: upt_Suc)
  with "2" show ?case by simp
qed simp

lemma numbered_bounds: "x \<in> set (numbered n ts) \<Longrightarrow> n < fst x \<and> fst x \<le> n + int (length ts)"
  by (induction n ts rule: numbered.induct) fastforce+

lemma sorted_numbered: "sorted_wrt (<) (map fst (numbered n ts))"
  by (simp add: numbered_seqs sorted_wrt_map)

lemma emit_simps [simp]:
  "es_seq (emit s t) = es_seq s + 1"
  "es_history (emit s t) = deque_append (es_history_limit s) (es_history s) (es_seq s + 1, t)"
  "es_history_limit (emit s t) = es_history_limit s"
  "es_subscriber_limit (emit s t) = es_subscriber_limit s"
  "length (es_streams (emit s t)) = length (es_streams s)"
  "es_state (emit s t) = Some (to_state t)"
  by (simp_all add: emit_def fold_event_def Let_def)

lemma emit_stream:
  "i < length (es_streams s) \<Longrightarrow> st_registered (es_streams s ! i) \<Longrightarrow>
   es_streams (emit s t) ! i = (es_streams s ! i)\<lparr>st_queue :=
     offer (es_subscriber_limit s) (st_queue (es_streams s ! i)) (es_seq s + 1, t)\<rparr>"
  by (simp add: emit_def fold_event_def Let_def)

interpretation emit_seq: step_monotone emit es_seq
  by unfold_locales simp

lemma emit_run_seq: "es_seq (foldl emit s ts) = es_seq s + int (length ts)"
  by (induction ts arbitrary: s) simp_all

lemma emit_run_limits [simp]:
  "es_history_limit (foldl emit s ts) = es_history_limit s"
  "es_subscriber_limit (foldl emit s ts) = es_subscriber_limit s"
  by (induction ts arbitrary: s) simp_all

lemma emit_run_history:
  "es_history (foldl emit s ts) = foldl (deque_append (es_history_limit s)) (es_history s) (numbered (es_seq s) ts)"
  by (induction ts arbitrary: s) simp_all

lemma emit_run_queue:
  assumes "i < length (es_streams s)" "st_registered (es_streams s ! i)"
  shows "es_streams (foldl emit s ts) ! i = (es_streams s ! i)\<lparr>st_queue :=
     foldl (offer (es_subscriber_limit s)) (st_queue (es_streams s ! i)) (numbered (es_seq s) ts)\<rparr>"
  using assms by (induction ts arbitrary: s) (simp_all add: emit_stream)

lemma init_streamD:
  assumes "init_stream hl sl = Inr s"
  shows "1 \<le> nat hl" "1 \<le> nat sl" "es_history s = []" "es_history_limit s = nat hl"
    "es_subscriber_limit s = nat sl" "es_seq s = 0" "es_state s = None" "es_connections s = 0"
  using assms by (auto simp: init_stream_def split: if_splits)

lemma recent_history:
  "init_stream hl sl = Inr s \<Longrightarrow> es_history (foldl emit s ts) = last_n (nat hl) (numbered 0 ts)"
  using init_streamD [of hl sl s] by (simp add: emit_run_history deque_run)

section \<open>Properties\<close>

text \<open>
  Bounded replay history: after any run of emits on a fresh journal the history holds
  exactly the most recent \<open>history_limit\<close> events, each with its own sequence number, and never
  more than \<open>history_limit\<close> of them.
\<close>

theorem history_is_recent_suffix:
  assumes "init_stream hl sl = Inr s"
  shows "es_history (foldl emit s ts) = last_n (nat hl) (numbered 0 ts) \<and>
    int (length (es_history (foldl emit s ts))) \<le> hl \<and>
    es_seq (foldl emit s ts) = int (length ts)"
  using init_streamD [OF assms] recent_history [OF assms, of ts] by (simp add: emit_run_seq)

theorem history_is_recent_suffix_witness:
  "\<exists>s. init_stream 2 5 = Inr s \<and>
     map fst (es_history (foldl emit s (replicate 3
       \<lparr>tr_event = METRIC, from_state = READY, to_state = READY, tr_detail = (), ts_ms = 0\<rparr>))) = [2, 3]"
proof -
  obtain s :: "unit event_stream" where s: "init_stream 2 5 = Inr s"
    by (simp add: init_stream_def)
  show ?thesis
    using history_is_recent_suffix [OF s, of "replicate 3
       \<lparr>tr_event = METRIC, from_state = READY, to_state = READY, tr_detail = (), ts_ms = 0\<rparr>"] s
    by (auto simp: last_n_def numeral_eq_Suc)
qed

text \<open>What a subscriber has still to receive: its backlog, then its queue.\<close>

definition pending :: "'d event_stream \<Rightarrow> nat \<Rightarrow> 'd item list" where
  "pending s i = st_backlog (es_streams s ! i) @ st_queue (es_streams s ! i)"

lemma subscribe_pending:
  assumes "1 \<le> es_subscriber_limit s" and "subscribe s since = (s1, i)"
  shows "pending (foldl emit s1 ts) i =
    filter (\<lambda>x. fst x > (case since of None \<Rightarrow> es_seq s | Some n \<Rightarrow> n)) (es_history s)
      @ last_n (es_subscriber_limit s) (numbered (es_seq s) ts)"
proof -
  define st where "st = \<lparr>st_registered = True, st_started = False,
     st_backlog = filter (\<lambda>x. fst x > (case since of None \<Rightarrow> es_seq s | Some n \<Rightarrow> n)) (es_history s),
     st_queue = []\<rparr>"
  have "s1 = s\<lparr>es_streams := es_streams s @ [st]\<rparr>" "i = length (es_streams s)"
    using assms(2) by (simp_all add: subscribe_def Let_def st_def)
  then show ?thesis
    using assms(1) by (simp add: pending_def emit_run_queue offer_run st_def)
qed

lemma filter_numbered_ge:
  "filter (\<lambda>x. fst x > n + int k) (numbered n ts) = drop k (numbered n ts)"
proof (induction n ts arbitrary: k rule: numbered.induct)
  case (2 n t ts)
  show ?case
  proof (cases k)
    case 0
    then have "filter (\<lambda>x. fst x > n + int k) (numbered (n + 1) ts) = numbered (n + 1) ts"
      by (auto simp: filter_id_conv dest: numbered_bounds)
    with 0 show ?thesis by simp
  next
    case (Suc j)
    with "2" [of j] show ?thesis by (simp add: algebra_simps)
  qed
qed simp

text \<open>
  The journal at work: events, subscriptions, reads and closes of any subscriber, in any order.
  \<open>delivered\<close> is what subscriber \<open>i\<close> was handed by its reads. A subscriber keeps up while it is not
  closed and no event finds its queue full.
\<close>

datatype 'd journal_op = Emit "'d transition" | Subscribe "int option" | Next nat | Close nat

fun journal_step :: "'d event_stream \<Rightarrow> 'd journal_op \<Rightarrow> 'd event_stream \<times> 'd item option" where
  "journal_step s (Emit t) = (emit s t, None)"
| "journal_step s (Subscribe since) = (fst (subscribe s since), None)"
| "journal_step s (Next j) = stream_next s j"
| "journal_step s (Close j) = (stream_close s j, None)"

abbreviation journal_run :: "'d event_stream \<Rightarrow> 'd journal_op list \<Rightarrow> 'd event_stream" where
  "journal_run \<equiv> foldl (\<lambda>s op. fst (journal_step s op))"

fun handed :: "nat \<Rightarrow> 'd journal_op \<Rightarrow> 'd item option \<Rightarrow> 'd item list" where
  "handed i (Next j) (Some x) = (if j = i then [x] else [])"
| "handed i op out = []"

fun delivered :: "nat \<Rightarrow> 'd event_stream \<Rightarrow> 'd journal_op list \<Rightarrow> 'd item list" where
  "delivered i s [] = []"
| "delivered i s (op # ops) = handed i op (snd (journal_step s op)) @ delivered i (fst (journal_step s op)) ops"

fun emitted :: "'d journal_op \<Rightarrow> 'd transition list" where
  "emitted (Emit t) = [t]"
| "emitted op = []"

fun keeps_up :: "nat \<Rightarrow> 'd event_stream \<Rightarrow> 'd journal_op list \<Rightarrow> bool" where
  "keeps_up i s [] = True"
| "keeps_up i s (op # ops) =
     ((case op of
         Emit t \<Rightarrow> length (st_queue (es_streams s ! i)) < es_subscriber_limit s
       | Close j \<Rightarrow> j \<noteq> i
       | _ \<Rightarrow> True)
      \<and> keeps_up i (fst (journal_step s op)) ops)"

lemma stream_next_pending:
  assumes "i < length (es_streams s)"
  shows "case stream_next s i of (s', out) \<Rightarrow>
    pending s i = (case out of None \<Rightarrow> [] | Some x \<Rightarrow> x # pending s' i) \<and>
    (out = None \<longrightarrow> pending s' i = [])"
  using assms by (simp add: stream_next_def pending_def Let_def split: list.splits)

lemma stream_next_other:
  "j \<noteq> i \<Longrightarrow> es_streams (fst (stream_next s j)) ! i = es_streams s ! i"
  "length (es_streams (fst (stream_next s j))) = length (es_streams s)" "es_seq (fst (stream_next s j)) = es_seq s"
  "i < length (es_streams s) \<Longrightarrow> st_registered (es_streams (fst (stream_next s i)) ! i) = st_registered (es_streams s ! i)"
  by (simp_all add: stream_next_def Let_def split: list.split)

lemma stream_close_other:
  "j \<noteq> i \<Longrightarrow> es_streams (stream_close s j) ! i = es_streams s ! i"
  "length (es_streams (stream_close s j)) = length (es_streams s)" "es_seq (stream_close s j) = es_seq s"
  by (simp_all add: stream_close_def Let_def)

text \<open>One step of a subscriber that keeps up: what it was handed and has pending grows by what was emitted.\<close>

lemma journal_step_pending:
  assumes "i < length (es_streams s)" and "st_registered (es_streams s ! i)" and "keeps_up i s [op]"
    and "s' = fst (journal_step s op)"
  shows "handed i op (snd (journal_step s op)) @ pending s' i = pending s i @ numbered (es_seq s) (emitted op)
    \<and> i < length (es_streams s') \<and> st_registered (es_streams s' ! i) \<and> es_seq s' = es_seq s + int (length (emitted op))"
proof (cases op)
  case (Emit t)
  then have "offer (es_subscriber_limit s) (st_queue (es_streams s ! i)) (es_seq s + 1, t) =
      st_queue (es_streams s ! i) @ [(es_seq s + 1, t)]"
    using assms(3) by (simp add: offer_def put_nowait_def)
  then show ?thesis
    using Emit assms by (simp add: pending_def emit_stream)
next
  case (Subscribe since)
  then show ?thesis
    using assms by (simp add: subscribe_def Let_def pending_def nth_append)
next
  case (Next j)
  then show ?thesis
    using assms stream_next_other(1) [of j i s] stream_next_other(4) [OF assms(1)]
      stream_next_pending [OF assms(1)]
    by (cases "j = i"; cases "snd (stream_next s j)") (auto simp: split_beta pending_def stream_next_other(2,3))
next
  case (Close j)
  then show ?thesis
    using assms by (simp add: pending_def stream_close_other)
qed

lemma journal_run_pending:
  assumes "i < length (es_streams s)" and "st_registered (es_streams s ! i)" and "keeps_up i s ops"
  shows "delivered i s ops @ pending (journal_run s ops) i = pending s i @ numbered (es_seq s) (concat (map emitted ops))
    \<and> i < length (es_streams (journal_run s ops))"
  using assms
proof (induction ops arbitrary: s)
  case (Cons op ops)
  define s' where "s' = fst (journal_step s op)"
  have "keeps_up i s [op]" and rest: "keeps_up i s' ops"
    using Cons.prems(3) by (simp_all add: s'_def)
  note step = journal_step_pending [OF Cons.prems(1,2) this(1) s'_def]
  show ?case
    using Cons.IH [of s'] step rest by (simp add: s'_def [symmetric] numbered_append)
qed simp

lemma resumed_backlog:
  assumes "init_stream hl sl = Inr s0" and "subscribe (foldl emit s0 ts) (Some since) = (s1, i)"
    and "0 \<le> since" "since \<le> int (length ts)" "int (length ts) - hl \<le> since"
  shows "pending s1 i = drop (nat since) (numbered 0 ts)" and "i < length (es_streams s1)"
    and "st_registered (es_streams s1 ! i)" and "es_seq s1 = int (length ts)"
proof -
  note init = init_streamD [OF assms(1)] recent_history [OF assms(1)]
  have "since = 0 + int (nat since)"
    using assms(3) by simp
  then have "filter (\<lambda>x. fst x > since) (last_n (nat hl) (numbered 0 ts)) = drop (nat since) (numbered 0 ts)"
    using assms(5) filter_numbered_ge [of 0 "nat since" ts] by (intro filter_last_n_drop) auto
  then show "pending s1 i = drop (nat since) (numbered 0 ts)"
    using init subscribe_pending [OF _ assms(2), of "[]"] by (simp add: emit_run_seq last_n_def)
  show "i < length (es_streams s1)" "st_registered (es_streams s1 ! i)" "es_seq s1 = int (length ts)"
    using assms(2) init by (auto simp: subscribe_def Let_def emit_run_seq)
qed

lemma drop_numbered_seqs:
  assumes "0 \<le> since"
  shows "map fst (drop (nat since) (numbered 0 ts)) = [since + 1 .. int (length ts)]"
proof (rule nth_equalityI)
  show "length (map fst (drop (nat since) (numbered 0 ts))) = length [since + 1 .. int (length ts)]"
    using assms by simp
  fix k assume "k < length (map fst (drop (nat since) (numbered 0 ts)))"
  then show "map fst (drop (nat since) (numbered 0 ts)) ! k = [since + 1 .. int (length ts)] ! k"
    using assms by (simp add: drop_map [symmetric] numbered_seqs nth_upto)
qed

text \<open>
  C26. Exact resumption. A consumer that subscribes from a sequence number the history still
  covers, at most the last one emitted, and that from then on keeps up, so that no event finds its
  queue full and it is not closed, is handed by its reads every later event exactly once, in order
  and with no gap, whatever events, other subscribers, reads and closes interleave: what it was
  handed followed by what is pending is the journal from \<open>since + 1\<close> to the last event emitted, and
  its next read returns the first pending event, or waits when there is none.
\<close>

theorem resume_exactly_once:
  assumes "init_stream hl sl = Inr s0" and "subscribe (foldl emit s0 ts) (Some since) = (s1, i)"
    and "0 \<le> since" "since \<le> int (length ts)" "int (length ts) - hl \<le> since"
    and "keeps_up i s1 ops" and "s = journal_run s1 ops" and "journal = numbered 0 (ts @ concat (map emitted ops))"
  shows "delivered i s1 ops @ pending s i = drop (nat since) journal
    \<and> map fst (drop (nat since) journal) = [since + 1 .. int (length journal)]
    \<and> snd (stream_next s i) = (case pending s i of [] \<Rightarrow> None | x # _ \<Rightarrow> Some x)"
proof -
  note start = resumed_backlog [OF assms(1-5)]
  note run = journal_run_pending [OF start(2,3) assms(6)]
  have "delivered i s1 ops @ pending s i = drop (nat since) journal"
    using run start assms(3,4) by (simp add: assms(7,8) numbered_append)
  moreover have "map fst (drop (nat since) journal) = [since + 1 .. int (length journal)]"
    using drop_numbered_seqs [OF assms(3), of "ts @ concat (map emitted ops)"] by (simp only: assms(8) length_numbered)
  moreover have "i < length (es_streams s)"
    using run by (simp add: assms(7))
  then have "snd (stream_next s i) = (case pending s i of [] \<Rightarrow> None | x # _ \<Rightarrow> Some x)"
    using stream_next_pending [of i s] by (cases "stream_next s i") (auto split: option.splits list.splits)
  ultimately show ?thesis
    by simp
qed

definition demo_stream :: "unit event_stream" where
  "demo_stream = \<lparr>es_seq = 0, es_history = [], es_history_limit = 3, es_subscriber_limit = 4, es_streams = [],
     es_state = None, es_connections = 0\<rparr>"

definition demo_move :: "session_event \<Rightarrow> unit transition" where
  "demo_move e = \<lparr>tr_event = e, from_state = READY, to_state = READY, tr_detail = (), ts_ms = 0\<rparr>"

definition demo_reader :: "unit event_stream" where
  "demo_reader = fst (subscribe (foldl emit demo_stream (replicate 4 (demo_move METRIC))) (Some 2))"

definition demo_reads :: "unit journal_op list" where
  "demo_reads = [Next 0, Emit (demo_move ERROR), Next 0, Next 0]"

theorem resume_exactly_once_witness:
  "map fst (delivered 0 demo_reader demo_reads @ pending (journal_run demo_reader demo_reads) 0) = [3, 4, 5]
   \<and> pending (journal_run demo_reader demo_reads) 0 = []"
proof -
  have "init_stream 3 4 = Inr demo_stream"
    by (simp add: init_stream_def demo_stream_def)
  moreover have "subscribe (foldl emit demo_stream (replicate 4 (demo_move METRIC))) (Some 2) = (demo_reader, 0)"
    by code_simp
  moreover have "keeps_up 0 demo_reader demo_reads" "pending (journal_run demo_reader demo_reads) 0 = []"
    "concat (map emitted demo_reads) = [demo_move ERROR]"
    by code_simp+
  ultimately show ?thesis
    using resume_exactly_once [OF _ _ _ _ _ _ refl refl, of 3 4 demo_stream "replicate 4 (demo_move METRIC)" 2 demo_reader 0 demo_reads]
    by (simp add: upto.simps)
qed

text \<open>
  Loss is visible: what a subscriber has yet to receive always carries strictly increasing
  sequence numbers, and holds at most the history bound plus the queue bound; so an event shed by
  either bound shows to the consumer as a jump, and no event is ever delivered twice.
\<close>

theorem pending_strictly_increasing:
  assumes "init_stream hl sl = Inr s0"
    and "subscribe (foldl emit s0 ts) since = (s1, i)"
  shows "sorted_wrt (<) (map fst (pending (foldl emit s1 us) i)) \<and>
    int (length (pending (foldl emit s1 us) i)) \<le> hl + sl"
proof -
  note init = init_streamD [OF assms(1)] recent_history [OF assms(1)]
  define bl where "bl = filter (\<lambda>x. fst x > (case since of None \<Rightarrow> es_seq (foldl emit s0 ts) | Some n \<Rightarrow> n))
    (last_n (nat hl) (numbered 0 ts))"
  define live where "live = last_n (nat sl) (numbered (int (length ts)) us)"
  have p: "pending (foldl emit s1 us) i = bl @ live"
    using init subscribe_pending [OF _ assms(2), of us] by (simp add: emit_run_seq bl_def live_def)
  have "sorted_wrt (<) (map fst bl)" "sorted_wrt (<) (map fst live)"
    using sorted_numbered by (auto simp: bl_def live_def sorted_wrt_map
        intro!: sorted_wrt_filter sorted_wrt_last_n)
  moreover have "fst x < fst y" if "x \<in> set bl" "y \<in> set live" for x y
  proof -
    have "x \<in> set (numbered 0 ts)" "y \<in> set (numbered (int (length ts)) us)"
      using that set_last_n by (fastforce simp: bl_def live_def)+
    then show ?thesis using numbered_bounds [of x 0 ts] numbered_bounds [of y "int (length ts)" us] by simp
  qed
  moreover have "int (length bl) \<le> hl" "int (length live) \<le> sl"
    using init(1,2) length_filter_le [of _ "last_n (nat hl) (numbered 0 ts)"]
    by (force simp: bl_def live_def intro: order_trans [OF of_nat_mono])+
  ultimately show ?thesis
    by (auto simp: p sorted_wrt_append)
qed

theorem pending_strictly_increasing_witness:
  "\<exists>s0 s1 i. init_stream 1 1 = Inr s0 \<and> subscribe (foldl emit s0 []) None = (s1, i) \<and>
     int (length (pending (foldl emit s1 (replicate 9 \<lparr>tr_event = METRIC, from_state = READY,
        to_state = READY, tr_detail = (), ts_ms = 0\<rparr>)) i)) \<le> 2"
proof -
  obtain s0 :: "unit event_stream" where s0: "init_stream 1 1 = Inr s0"
    by (simp add: init_stream_def)
  obtain s1 i where s1: "subscribe (foldl emit s0 []) None = (s1, i)"
    by (metis surj_pair)
  show ?thesis
    using s0 s1 pending_strictly_increasing [OF s0 s1] by fastforce
qed

end
