(* ===== verification/OfferEpochs.thy ===== *)
theory OfferEpochs
  imports Prelude
begin

text \<open>
  The session epochs of admitted connection offers, \<^verbatim>\<open>runner/offer_epochs.py\<close>:
  which session an offer belongs to when its wire connects. The specification
  \<open>stale_after\<close> reads the history of calls itself, most recent first.
\<close>

record offer_epochs =
  oe_current :: int
  oe_stamps :: "(conn_id, int) dict"

definition init_epochs :: offer_epochs where
  "init_epochs = \<lparr>oe_current = 0, oe_stamps = []\<rparr>"

definition session_started :: "offer_epochs \<Rightarrow> offer_epochs" where
  "session_started ep = ep\<lparr>oe_current := oe_current ep + 1\<rparr>"

definition stamp :: "offer_epochs \<Rightarrow> conn_id \<Rightarrow> offer_epochs" where
  "stamp ep conn_id = ep\<lparr>oe_stamps := dict_set conn_id (oe_current ep) (oe_stamps ep)\<rparr>"

definition consume :: "offer_epochs \<Rightarrow> conn_id \<Rightarrow> offer_epochs \<times> bool" where
  "consume ep conn_id =
     (ep\<lparr>oe_stamps := dict_del conn_id (oe_stamps ep)\<rparr>,
      case dict_get (oe_stamps ep) conn_id of
        None \<Rightarrow> False
      | Some stamped \<Rightarrow> stamped \<noteq> oe_current ep)"

datatype epoch_call = Started | Stamp conn_id | Consume conn_id

fun epoch_step :: "offer_epochs \<Rightarrow> epoch_call \<Rightarrow> offer_epochs" where
  "epoch_step ep Started = session_started ep"
| "epoch_step ep (Stamp c) = stamp ep c"
| "epoch_step ep (Consume c) = fst (consume ep c)"

lemmas epoch_defs = session_started_def stamp_def consume_def

text \<open>The epoch never goes back, and no stamp is from a later epoch.\<close>

interpretation epoch_level: step_monotone epoch_step oe_current
proof
  fix ep e
  show "oe_current ep \<le> oe_current (epoch_step ep e)"
    by (cases e) (simp_all add: epoch_defs)
qed

definition stamps_ok :: "offer_epochs \<Rightarrow> bool" where
  "stamps_ok ep \<longleftrightarrow> (\<forall>c e. dict_get (oe_stamps ep) c = Some e \<longrightarrow> e \<le> oe_current ep)"

interpretation stamps: step_invariant epoch_step stamps_ok
proof
  fix ep e
  assume "stamps_ok ep"
  then show "stamps_ok (epoch_step ep e)"
    by (cases e) (auto simp: stamps_ok_def epoch_defs dict_simps intro: order_trans [of _ "oe_current ep"])
qed

text \<open>
  Whether the connection's offer is stale, read off the calls so far: the last call about the
  connection decides, and only a session that started after its stamp makes it stale.
\<close>

fun stale_after :: "epoch_call list \<Rightarrow> bool \<Rightarrow> conn_id \<Rightarrow> bool" where
  "stale_after [] later c = False"
| "stale_after (Started # h) later c = stale_after h True c"
| "stale_after (Stamp c' # h) later c = (if c' = c then later else stale_after h later c)"
| "stale_after (Consume c' # h) later c = (if c' = c then False else stale_after h later c)"

lemma stale_after_run:
  "stale_after (rev ops) later c =
   (case dict_get (oe_stamps (foldl epoch_step init_epochs ops)) c of
      None \<Rightarrow> False
    | Some e \<Rightarrow> later \<or> e \<noteq> oe_current (foldl epoch_step init_epochs ops))"
proof (induction ops arbitrary: later rule: rev_induct)
  case Nil
  show ?case by (simp add: init_epochs_def)
next
  case (snoc op ops)
  define ep where "ep = foldl epoch_step init_epochs ops"
  have "stamps_ok ep"
    unfolding ep_def by (rule stamps.run_keeps) (simp add: stamps_ok_def init_epochs_def)
  then have le: "e \<le> oe_current ep" if "dict_get (oe_stamps ep) c = Some e" for e
    using that by (simp add: stamps_ok_def)
  show ?case
  proof (cases op)
    case Started
    with snoc.IH [of True] show ?thesis
      using le by (fastforce simp: ep_def [symmetric] epoch_defs split: option.splits)
  next
    case (Stamp c')
    with snoc.IH [of later] show ?thesis
      by (auto simp: ep_def [symmetric] epoch_defs dict_simps split: option.splits)
  next
    case (Consume c')
    with snoc.IH [of later] show ?thesis
      by (auto simp: ep_def [symmetric] epoch_defs dict_simps split: option.splits)
  qed
qed

text \<open>
  A connecting wire is judged stale exactly when the most recent call about its connection
  id was an admission stamp and a session has started since: an unstamped or already consumed id
  is never stale, a restamp in the live session never is, whatever the calls for other ids.
\<close>

theorem consume_reports_stale:
  "snd (consume (foldl epoch_step init_epochs ops) c) = stale_after (rev ops) False c"
  unfolding stale_after_run by (simp add: consume_def split: option.split)

end
