(* ===== verification/UploadStore.thy ===== *)
theory UploadStore
  imports Prelude
begin

text \<open>
  The session's uploads, \<^verbatim>\<open>upload_store.py\<close>. The asyncio event of each upload id is an
  explicit object: \<open>us_filled\<close> maps an id to the name of its event and \<open>us_set\<close> holds the
  events that are set. \<open>fetch\<close> awaits, so it is two steps: \<open>fetch_begin\<close> runs to the await and
  \<open>fetch_resume\<close> runs from it, told whether the wait timed out. \<open>minted\<close> is the id
  \<^verbatim>\<open>uuid.uuid4().hex\<close> returns.
\<close>

type_synonym upload_id = string

datatype upload_error =
    UnknownUploadError
  | UploadAlreadyCompleteError
  | UploadSizeMismatchError int int
  | UploadIdTakenError

record uploaded_file =
  uf_name :: string
  uf_mime_type :: string
  uf_data :: "nat list"

record slot =
  sl_upload_id :: upload_id
  sl_name :: string
  sl_mime_type :: string
  sl_size :: int
  sl_data :: "nat list option"

record upload_store =
  us_slots :: "(upload_id, slot) dict"
  us_filled :: "(upload_id, nat) dict"
  us_set :: "nat set"
  us_next_event :: nat

definition init_store :: upload_store where
  "init_store = \<lparr>us_slots = [], us_filled = [], us_set = {}, us_next_event = 0\<rparr>"

definition create_slot ::
  "upload_store \<Rightarrow> string \<Rightarrow> string \<Rightarrow> int \<Rightarrow> upload_id option \<Rightarrow> upload_id
     \<Rightarrow> upload_error + (upload_store \<times> upload_id)" where
  "create_slot st name mime_type sz upload_id minted =
     (let new = (\<lambda>uid. Inr (st\<lparr>us_slots :=
            dict_set uid \<lparr>sl_upload_id = uid, sl_name = name, sl_mime_type = mime_type,
                           sl_size = sz, sl_data = None\<rparr> (us_slots st)\<rparr>, uid))
      in case upload_id of
           None \<Rightarrow> new minted
         | Some uid \<Rightarrow>
             if dict_get (us_slots st) uid \<noteq> None then Inl UploadIdTakenError else new uid)"

definition expected_size :: "upload_store \<Rightarrow> upload_id \<Rightarrow> upload_error + int" where
  "expected_size st uid =
     (case dict_get (us_slots st) uid of
        None \<Rightarrow> Inl UnknownUploadError
      | Some sl \<Rightarrow> if sl_data sl \<noteq> None then Inl UploadAlreadyCompleteError else Inr (sl_size sl))"

definition waiter :: "upload_store \<Rightarrow> upload_id \<Rightarrow> upload_store \<times> nat" where
  "waiter st uid =
     (case dict_get (us_filled st) uid of
        None \<Rightarrow>
          (st\<lparr>us_filled := dict_set uid (us_next_event st) (us_filled st),
              us_next_event := Suc (us_next_event st)\<rparr>, us_next_event st)
      | Some ev \<Rightarrow> (st, ev))"

definition put :: "upload_store \<Rightarrow> upload_id \<Rightarrow> nat list \<Rightarrow> upload_error + upload_store" where
  "put st uid data =
     (case dict_get (us_slots st) uid of
        None \<Rightarrow> Inl UnknownUploadError
      | Some sl \<Rightarrow>
          if sl_data sl \<noteq> None then Inl UploadAlreadyCompleteError
          else if int (length data) \<noteq> sl_size sl
          then Inl (UploadSizeMismatchError (sl_size sl) (int (length data)))
          else
            let st1 = st\<lparr>us_slots := dict_set uid (sl\<lparr>sl_data := Some data\<rparr>) (us_slots st)\<rparr>;
                (st2, ev) = waiter st1 uid
            in Inr (st2\<lparr>us_set := insert ev (us_set st2)\<rparr>))"

definition completed :: "upload_store \<Rightarrow> upload_id \<Rightarrow> uploaded_file option" where
  "completed st uid =
     (case dict_get (us_slots st) uid of
        None \<Rightarrow> None
      | Some sl \<Rightarrow>
          (case sl_data sl of
             None \<Rightarrow> None
           | Some data \<Rightarrow>
               Some \<lparr>uf_name = sl_name sl, uf_mime_type = sl_mime_type sl, uf_data = data\<rparr>))"

datatype fetch_outcome = Fetched uploaded_file | Raised upload_error | Awaiting nat

definition fetch_begin ::
  "upload_store \<Rightarrow> upload_id \<Rightarrow> real \<Rightarrow> upload_store \<times> fetch_outcome" where
  "fetch_begin st uid wait_seconds =
     (case completed st uid of
        Some f \<Rightarrow> (st, Fetched f)
      | None \<Rightarrow>
          if wait_seconds \<le> 0 then (st, Raised UnknownUploadError)
          else let (st', ev) = waiter st uid in (st', Awaiting ev))"

definition fetch_resume ::
  "upload_store \<Rightarrow> upload_id \<Rightarrow> bool \<Rightarrow> upload_error + uploaded_file" where
  "fetch_resume st uid timed_out =
     (if timed_out then Inl UnknownUploadError
      else case completed st uid of None \<Rightarrow> Inl UnknownUploadError | Some f \<Rightarrow> Inr f)"

definition clear_store :: "upload_store \<Rightarrow> upload_store" where
  "clear_store st =
     st\<lparr>us_slots := [], us_set := us_set st \<union> snd ` set (us_filled st), us_filled := []\<rparr>"

lemmas upload_defs =
  create_slot_def expected_size_def waiter_def put_def completed_def fetch_begin_def
  fetch_resume_def clear_store_def

section \<open>Runs\<close>

datatype upload_call =
    CreateSlot string string int "upload_id option" upload_id
  | Put upload_id "nat list"
  | FetchBegin upload_id real
  | ClearStore

text \<open>A call that raises leaves the store as it was.\<close>

fun upload_step :: "upload_store \<Rightarrow> upload_call \<Rightarrow> upload_store" where
  "upload_step st (CreateSlot n m sz uid minted) =
     (case create_slot st n m sz uid minted of Inl _ \<Rightarrow> st | Inr (st', _) \<Rightarrow> st')"
| "upload_step st (Put uid data) = (case put st uid data of Inl _ \<Rightarrow> st | Inr st' \<Rightarrow> st')"
| "upload_step st (FetchBegin uid w) = fst (fetch_begin st uid w)"
| "upload_step st ClearStore = clear_store st"

text \<open>
  Well-formedness: a slot is filed under its own id, holds exactly the bytes it announced, and
  the event of an upload that holds bytes is set.
\<close>

definition slot_ok :: "upload_store \<Rightarrow> upload_id \<Rightarrow> slot \<Rightarrow> bool" where
  "slot_ok st uid sl \<longleftrightarrow> sl_upload_id sl = uid \<and>
     (\<forall>data. sl_data sl = Some data \<longrightarrow> int (length data) = sl_size sl)"

definition store_ok :: "upload_store \<Rightarrow> bool" where
  "store_ok st \<longleftrightarrow> (\<forall>uid sl. dict_get (us_slots st) uid = Some sl \<longrightarrow> slot_ok st uid sl)"

lemma waiter_slots [simp]: "us_slots (fst (waiter st uid)) = us_slots st"
  by (simp add: waiter_def split: option.splits)

lemma waiter_filled: "dict_get (us_filled (fst (waiter st uid))) uid = Some (snd (waiter st uid))"
  by (simp add: waiter_def dict_simps split: option.splits)

lemma waiter_other:
  "dict_get (us_filled st) u = Some ev \<Longrightarrow> dict_get (us_filled (fst (waiter st uid))) u = Some ev"
  by (auto simp: waiter_def dict_simps split: option.splits)

lemma put_cases:
  assumes "put st uid data = Inr st'"
  obtains sl where "dict_get (us_slots st) uid = Some sl" "sl_data sl = None"
    "int (length data) = sl_size sl"
    "us_slots st' = dict_set uid (sl\<lparr>sl_data := Some data\<rparr>) (us_slots st)"
    "us_filled st' = us_filled (fst (waiter st uid))"
    "us_set st' = insert (snd (waiter st uid)) (us_set st)"
  using assms
  by (auto simp: put_def waiter_def Let_def split: option.splits if_splits)

lemma upload_step_ok: "store_ok st \<Longrightarrow> store_ok (upload_step st c)"
proof (cases c)
  case (CreateSlot n m sz uid minted)
  assume "store_ok st"
  with CreateSlot show ?thesis
    by (auto simp: store_ok_def slot_ok_def create_slot_def Let_def dict_simps split: option.splits)
next
  case (Put uid data)
  assume "store_ok st"
  with Put show ?thesis
    by (auto simp: store_ok_def slot_ok_def dict_simps elim!: put_cases split: sum.splits if_splits)
next
  case (FetchBegin uid w)
  assume "store_ok st"
  with FetchBegin show ?thesis
    by (simp add: fetch_begin_def store_ok_def slot_ok_def split_beta split: option.splits)
next
  case ClearStore
  then show ?thesis
    by (simp add: clear_store_def store_ok_def)
qed

interpretation store: step_invariant upload_step store_ok
  by unfold_locales (rule upload_step_ok)

section \<open>Properties\<close>

text \<open>
  Upload round trip: once a slot is reserved, a write of the announced size is accepted
  and every later fetch of that id returns the announced name and mime type with exactly the
  written bytes, without waiting.
\<close>

theorem upload_round_trip:
  assumes "create_slot st name mime (int (length data)) uid minted = Inr (st1, u)"
  shows "\<exists>st2. put st1 u data = Inr st2 \<and>
    fetch_begin st2 u w =
      (st2, Fetched \<lparr>uf_name = name, uf_mime_type = mime, uf_data = data\<rparr>)"
proof -
  from assms obtain sl where sl: "dict_get (us_slots st1) u = Some sl" "sl_data sl = None"
    "sl_size sl = int (length data)" "sl_name sl = name" "sl_mime_type sl = mime"
    by (auto simp: create_slot_def Let_def dict_simps split: option.splits if_splits)
  then obtain st2 where st2: "put st1 u data = Inr st2"
    by (auto simp: put_def split_beta Let_def)
  then have "completed st2 u = Some \<lparr>uf_name = name, uf_mime_type = mime, uf_data = data\<rparr>"
    using sl by (elim put_cases) (simp add: completed_def dict_simps)
  with st2 show ?thesis
    by (simp add: fetch_begin_def)
qed

theorem upload_round_trip_witness:
  "\<exists>st1 st2. create_slot init_store ''a.png'' ''image/png'' 2 None ''u1'' = Inr (st1, ''u1'') \<and>
     put st1 ''u1'' [7, 9] = Inr st2 \<and>
     snd (fetch_begin st2 ''u1'' 0) =
       Fetched \<lparr>uf_name = ''a.png'', uf_mime_type = ''image/png'', uf_data = [7, 9]\<rparr>"
proof -
  obtain st1 where "create_slot init_store ''a.png'' ''image/png'' (int (length [7, 9 :: nat])) None ''u1''
      = Inr (st1, ''u1'')"
    by (simp add: create_slot_def)
  from upload_round_trip [OF this, of 0] this show ?thesis
    by auto
qed

text \<open>
  Every byte string the store hands back has the announced size: over any run of calls,
  whatever \<open>fetch\<close> returns came from a slot whose declared size is the number of bytes returned.
\<close>

theorem fetched_size_as_announced:
  assumes "fetch_resume (foldl upload_step init_store cs) uid timed_out = Inr f"
  shows "\<exists>sl. dict_get (us_slots (foldl upload_step init_store cs)) uid = Some sl \<and>
    sl_size sl = int (length (uf_data f)) \<and> sl_name sl = uf_name f"
proof -
  have "store_ok (foldl upload_step init_store cs)"
    by (rule store.run_keeps) (simp add: store_ok_def init_store_def)
  with assms show ?thesis
    by (auto simp: fetch_resume_def completed_def store_ok_def slot_ok_def
        split: if_splits option.splits)
qed

theorem fetched_size_as_announced_witness:
  "\<exists>sl. dict_get (us_slots (foldl upload_step init_store
       [CreateSlot ''a'' ''b'' 1 None ''u'', Put ''u'' [5]])) ''u'' = Some sl \<and> sl_size sl = 1"
  using fetched_size_as_announced
    [of "[CreateSlot ''a'' ''b'' 1 None ''u'', Put ''u'' [5]]" "''u''" False
        "\<lparr>uf_name = ''a'', uf_mime_type = ''b'', uf_data = [5]\<rparr>"]
  by (auto simp: upload_defs init_store_def Let_def)

text \<open>
  A waiting fetch keeps its event: until its upload is completed or the store is cleared, the
  event it awaits stays the one filed under its id.
\<close>

definition wakes :: "upload_id \<Rightarrow> upload_store \<Rightarrow> upload_call \<Rightarrow> bool" where
  "wakes uid st c \<longleftrightarrow> c = ClearStore \<or> (\<exists>data. c = Put uid data \<and> isl (put st uid data) = False)"

lemma event_kept:
  assumes "dict_get (us_filled st) uid = Some ev" "\<not> wakes uid st c"
  shows "dict_get (us_filled (upload_step st c)) uid = Some ev"
proof (cases c)
  case (CreateSlot n m sz u minted)
  with assms(1) show ?thesis
    by (auto simp: create_slot_def Let_def split: option.splits)
next
  case (Put u data)
  with assms show ?thesis
    by (auto simp: wakes_def waiter_other elim!: put_cases split: sum.splits)
next
  case (FetchBegin u w)
  with assms(1) show ?thesis
    by (auto simp: fetch_begin_def split_beta waiter_other split: option.splits)
next
  case ClearStore
  with assms(2) show ?thesis
    by (simp add: wakes_def)
qed

lemma wakes_sets:
  assumes "dict_get (us_filled st) uid = Some ev" "wakes uid st c"
  shows "ev \<in> us_set (upload_step st c)"
proof -
  have "snd (waiter st uid) = ev"
    using assms(1) by (simp add: waiter_def)
  moreover have "ev \<in> snd ` set (us_filled st)"
    using assms(1) by (metis map_of_SomeD imageI snd_conv)
  ultimately show ?thesis
    using assms(2)
    by (cases c) (auto simp: wakes_def clear_store_def simp del: image_iff elim!: put_cases
        split: sum.splits)
qed

fun quiet :: "upload_id \<Rightarrow> upload_store \<Rightarrow> upload_call list \<Rightarrow> bool" where
  "quiet uid st [] = True"
| "quiet uid st (c # cs) = (\<not> wakes uid st c \<and> quiet uid (upload_step st c) cs)"

lemma event_kept_run:
  "dict_get (us_filled st) uid = Some ev \<Longrightarrow> quiet uid st cs \<Longrightarrow>
   dict_get (us_filled (foldl upload_step st cs)) uid = Some ev"
  by (induction cs arbitrary: st) (simp_all add: event_kept)

text \<open>
  No wake-up is lost: a fetch that waits on an event is woken by the first call that either
  completes its upload or clears the store, whatever other calls ran since it began to wait.
\<close>

theorem no_lost_wakeup:
  assumes "fetch_begin st uid w = (st1, Awaiting ev)"
    and "quiet uid st1 cs"
    and "wakes uid (foldl upload_step st1 cs) c"
  shows "ev \<in> us_set (upload_step (foldl upload_step st1 cs) c)"
proof -
  have "st1 = fst (waiter st uid)" "ev = snd (waiter st uid)"
    using assms(1) by (auto simp: fetch_begin_def split_beta split: option.splits if_splits)
  then have "dict_get (us_filled st1) uid = Some ev"
    by (simp add: waiter_filled)
  then show ?thesis
    using wakes_sets [OF event_kept_run] assms(2,3) by blast
qed

theorem no_lost_wakeup_witness:
  "snd (fetch_begin init_store ''u'' 1) = Awaiting 0 \<and>
   0 \<in> us_set (upload_step (foldl upload_step (fst (fetch_begin init_store ''u'' 1))
          [CreateSlot ''a'' ''b'' 1 (Some ''u'') ''x'']) (Put ''u'' [5]))"
  using no_lost_wakeup [of init_store "''u''" 1 "fst (fetch_begin init_store ''u'' 1)" 0
      "[CreateSlot ''a'' ''b'' 1 (Some ''u'') ''x'']" "Put ''u'' [5]"]
  by (simp add: upload_defs init_store_def wakes_def)

end
