(* ===== verification/RunnerLifecycle.thy ===== *)
theory RunnerLifecycle
  imports ConnectionManager EventStream OfferEpochs UploadStore
begin

text \<open>
  The runner's session lifecycle, \<^verbatim>\<open>runner/runner.py\<close>: how the session machine, the
  connection registry, the offer epochs, the egress journal and the upload store are driven
  together, and the tasks the runner schedules on its loop.

  The machine has the runner's dispatcher as its listener (the metrics recorder, a second
  listener, only counts). A scheduled task is an entry of \<open>rn_tasks\<close>, with the point it has
  reached; a run picks any of them, so every interleaving of teardown with the other operations is
  covered. What is sent to the model is the list \<open>rn_model\<close> of reactor events. The model's
  contract is the parameter \<open>contract\<close>. Recording, step bookkeeping and per-client statistics
  are not part of this state.
\<close>

section \<open>State\<close>

datatype reactor_event =
    SessionStarted bool bool "int option"
  | SessionEnded end_reason
  | ClientConnected conn_id nat bool
  | ClientDisconnected conn_id nat

datatype teardown =
    CloseSession end_reason
  | AwaitWires end_reason
  | CloseAllTask
  | CloseWire conn_id

datatype notice = ModerationNotice | SessionEndedNotice string

record runner =
  rn_sm :: "unit session_machine"
  rn_connections :: connection_manager
  rn_epochs :: offer_epochs
  rn_events :: "detail event_stream"
  rn_uploads :: upload_store
  rn_session_start :: session_start
  rn_bridge :: bool
  rn_loop :: bool
  rn_accepting :: bool
  rn_orphan_seconds :: real
  rn_orphan_task :: bool
  rn_stats_task :: bool
  rn_tasks :: "teardown list"
  rn_model :: "reactor_event list"
  rn_notices :: "(notice \<times> conn_id list) list"
  rn_starting_input_done :: bool
  rn_shutdown :: "bool list"
  rn_media_depth :: "int option"
  rn_media_rate :: "real option"

definition RUNNING_STATES :: "session_state set" where
  "RUNNING_STATES = {WAITING, STREAMING, ORPHANED}"

definition STALE_CONNECTION_STATES :: "session_state set" where
  "STALE_CONNECTION_STATES = {READY, CLOSING, TERMINATED}"

datatype runtime_state = LOADING | AVAILABLE | SERVING | RT_TERMINATED

fun RUNTIME_STATES :: "session_state \<Rightarrow> runtime_state" where
  "RUNTIME_STATES CREATED = LOADING"
| "RUNTIME_STATES READY = AVAILABLE"
| "RUNTIME_STATES WAITING = SERVING"
| "RUNTIME_STATES STREAMING = SERVING"
| "RUNTIME_STATES ORPHANED = SERVING"
| "RUNTIME_STATES CLOSING = SERVING"
| "RUNTIME_STATES TERMINATED = RT_TERMINATED"

definition init_runner :: "detail event_stream \<Rightarrow> real \<Rightarrow> runner" where
  "init_runner events orphan_seconds =
     \<lparr>rn_sm = on_transition (init_machine CREATED) (), rn_connections = init_manager, rn_epochs = init_epochs,
      rn_events = events, rn_uploads = init_store,
      rn_session_start = \<lparr>ss_starting_input = None, ss_steps = None, ss_generation = STREAMED\<rparr>,
      rn_bridge = False, rn_loop = False, rn_accepting = True, rn_orphan_seconds = orphan_seconds,
      rn_orphan_task = False, rn_stats_task = False, rn_tasks = [], rn_model = [], rn_notices = [],
      rn_starting_input_done = True, rn_shutdown = [], rn_media_depth = None, rn_media_rate = None\<rparr>"

section \<open>Dispatch of a transition\<close>

definition detail_reason :: "detail \<Rightarrow> end_reason" where
  "detail_reason d = (case dict_get d ''reason'' of Some (DReason r) \<Rightarrow> r | _ \<Rightarrow> STOPPED)"

definition detail_text :: "detail \<Rightarrow> string" where
  "detail_text d = (case dict_get d ''close_reason'' of Some (DText s) \<Rightarrow> s | _ \<Rightarrow> [])"

definition detail_conn :: "detail \<Rightarrow> conn_id" where
  "detail_conn d = (case dict_get d ''conn_id'' of Some (DId c) \<Rightarrow> c | _ \<Rightarrow> 0)"

definition detail_system :: "detail \<Rightarrow> bool" where
  "detail_system d = (case dict_get d ''system'' of Some (DFlag b) \<Rightarrow> b | _ \<Rightarrow> False)"

definition detail_params :: "detail \<Rightarrow> (string, json) dict" where
  "detail_params d = (case dict_get d ''params'' of Some (DParams p) \<Rightarrow> p | _ \<Rightarrow> [])"

definition post :: "runner \<Rightarrow> reactor_event \<Rightarrow> runner" where
  "post r e = r\<lparr>rn_model := rn_model r @ [e]\<rparr>"

definition spawn_teardown :: "runner \<Rightarrow> teardown \<Rightarrow> runner" where
  "spawn_teardown r t = (if rn_loop r then r\<lparr>rn_tasks := rn_tasks r @ [t]\<rparr> else r)"

definition cancel_orphan_timeout :: "runner \<Rightarrow> runner" where
  "cancel_orphan_timeout r = r\<lparr>rn_orphan_task := False\<rparr>"

definition arm_orphan_timeout :: "runner \<Rightarrow> runner" where
  "arm_orphan_timeout r = (if \<not> rn_loop r \<or> rn_orphan_seconds r \<le> 0 then r else r\<lparr>rn_orphan_task := True\<rparr>)"

definition reset_orphan_timeout :: "runner \<Rightarrow> session_state \<Rightarrow> runner" where
  "reset_orphan_timeout r state =
     (let r1 = cancel_orphan_timeout r
      in if state \<in> {WAITING, ORPHANED} then arm_orphan_timeout r1 else r1)"

definition sync_runtime_stats :: "runner \<Rightarrow> session_state \<Rightarrow> runner" where
  "sync_runtime_stats r state =
     (if state \<in> RUNNING_STATES
      then (if \<not> rn_stats_task r \<and> rn_loop r then r\<lparr>rn_stats_task := True\<rparr> else r)
      else r\<lparr>rn_stats_task := False\<rparr>)"

definition dispatch_reactor_events :: "runner \<Rightarrow> detail transition \<Rightarrow> runner" where
  "dispatch_reactor_events r t =
     (let start = rn_session_start r;
          r1 = (if is_session_start t
                then post r (SessionStarted (ss_starting_input start \<noteq> None)
                       (ss_generation start = STEPPED) (ss_steps start)) else r);
          r2 = (if is_session_end t then post r1 (SessionEnded (detail_reason (tr_detail t))) else r1);
          r3 = (if tr_event t = CONNECTION_OPENED
                then post r2 (ClientConnected (detail_conn (tr_detail t)) (conn_count (rn_connections r2))
                       (detail_system (tr_detail t))) else r2)
      in if tr_event t = CONNECTION_CLOSED
         then post r3 (ClientDisconnected (detail_conn (tr_detail t)) (conn_count (rn_connections r3)))
         else r3)"

definition broadcast_notice :: "runner \<Rightarrow> notice \<Rightarrow> runner" where
  "broadcast_notice r n = r\<lparr>rn_notices := rn_notices r @ [(n, dict_keys (cm_by_id (rn_connections r)))]\<rparr>"

definition enter_closing :: "runner \<Rightarrow> detail \<Rightarrow> runner" where
  "enter_closing r d =
     (let reason = detail_reason d;
          r1 = (if reason = MODERATED then broadcast_notice r ModerationNotice
                else if detail_text d \<noteq> [] then broadcast_notice r (SessionEndedNotice (detail_text d))
                else r);
          r2 = r1\<lparr>rn_uploads := clear_store (rn_uploads r1), rn_starting_input_done := True\<rparr>
      in spawn_teardown r2 (CloseSession reason))"

definition enter_terminated :: "runner \<Rightarrow> session_event \<Rightarrow> detail \<Rightarrow> runner" where
  "enter_terminated r event d =
     (let r1 = (if event = EVICTION \<and> rn_loop r
                then spawn_teardown (r\<lparr>rn_uploads := clear_store (rn_uploads r), rn_starting_input_done := True\<rparr>)
                       CloseAllTask
                else r)
      in r1\<lparr>rn_shutdown := rn_shutdown r1 @ [dict_get d ''reason'' = Some (DReason REASON_ERROR)]\<rparr>)"

definition dispatch_transition :: "runner \<Rightarrow> detail transition \<Rightarrow> runner" where
  "dispatch_transition r t =
     (let r1 = (if is_session_start t
                then r\<lparr>rn_session_start := (case parse_session_start (detail_params (tr_detail t)) of
                         Inl _ \<Rightarrow> rn_session_start r | Inr s \<Rightarrow> s)\<rparr> else r);
          r2 = r1\<lparr>rn_events := emit (rn_events r1) t\<rparr>;
          r3 = (if rn_bridge r2 then dispatch_reactor_events r2 t else r2);
          entered = from_state t \<noteq> to_state t;
          r4 = (if entered then sync_runtime_stats (reset_orphan_timeout r3 (to_state t)) (to_state t) else r3);
          r5 = (if entered \<and> to_state t = CLOSING \<and> rn_loop r4 then enter_closing r4 (tr_detail t) else r4)
      in if entered \<and> to_state t = TERMINATED then enter_terminated r5 (tr_event t) (tr_detail t) else r5)"

definition dispatch_calls :: "runner \<Rightarrow> (unit \<times> detail transition) list \<Rightarrow> runner" where
  "dispatch_calls r calls = foldl (\<lambda>r c. dispatch_transition r (snd c)) r calls"

definition rn_send :: "int \<Rightarrow> runner \<Rightarrow> session_event \<Rightarrow> detail \<Rightarrow> runner \<times> bool" where
  "rn_send now r event d =
     (let (sm', calls, ok) = send now (rn_sm r) event d
      in (dispatch_calls (r\<lparr>rn_sm := sm'\<rparr>) calls, ok))"

definition rn_register :: "int \<Rightarrow> runner \<Rightarrow> connection \<Rightarrow> bool \<Rightarrow> bool \<Rightarrow> runner" where
  "rn_register now r conn sys occupies =
     (let (sm', cm', calls) = register now (rn_sm r) (rn_connections r) conn sys occupies
      in dispatch_calls (r\<lparr>rn_connections := cm', rn_sm := sm'\<rparr>) calls)"

section \<open>Operations\<close>

datatype runner_error =
    InvalidStart start_error
  | GenerationUnsupported
  | CommandRefused nat
  | SessionTransitionError string session_state
  | SessionNotRunningError
  | UnknownSessionError

record contract =
  supports_stepped :: bool
  accepts :: "string \<Rightarrow> (string, json) dict \<Rightarrow> bool"

definition runner_start :: "int \<Rightarrow> runner \<Rightarrow> bool \<Rightarrow> runner" where
  "runner_start now r loads =
     (let r1 = fst (rn_send now (r\<lparr>rn_loop := True\<rparr>) INITIALIZING [])
      in if loads then fst (rn_send now (r1\<lparr>rn_bridge := True\<rparr>) INITIALIZATION_SUCCESS [])
         else fst (rn_send now r1 INITIALIZATION_FAIL []))"

definition DRAIN_CLOSE_REASON :: string where
  "DRAIN_CLOSE_REASON = ''Session ended: the server is shutting down.''"

definition drain :: "int \<Rightarrow> runner \<Rightarrow> runner" where
  "drain now r =
     (let r1 = r\<lparr>rn_accepting := False\<rparr>
      in if sm_state (rn_sm r1) \<in> RUNNING_STATES
         then fst (rn_send now r1 STOP_SESSION
                [(''reason'', DReason STOPPED), (''close_reason'', DText DRAIN_CLOSE_REASON)])
         else r1)"

definition runner_health :: "runner \<Rightarrow> bool" where
  "runner_health r \<longleftrightarrow> sm_state (rn_sm r) \<noteq> TERMINATED"

definition runner_state :: "runner \<Rightarrow> runtime_state" where
  "runner_state r = RUNTIME_STATES (sm_state (rn_sm r))"

definition connection_opened :: "int \<Rightarrow> runner \<Rightarrow> connection \<Rightarrow> runner \<times> (unit, unit) wire_calls \<times> bool" where
  "connection_opened now r conn =
     (let (epochs', stale_epoch) = consume (rn_epochs r) (cn_id conn);
          r1 = r\<lparr>rn_epochs := epochs'\<rparr>
      in if sm_state (rn_sm r1) \<in> STALE_CONNECTION_STATES \<or> stale_epoch
         then (spawn_teardown r1 (CloseWire (cn_id conn)), [], False)
         else
           (rn_register now r1 conn False True,
            (case rn_media_depth r1 of None \<Rightarrow> [] | Some d \<Rightarrow> [(cn_id conn, Set_Media_Depth d)]) @
            (case rn_media_rate r1 of None \<Rightarrow> [] | Some f \<Rightarrow> [(cn_id conn, Set_Media_Rate f)]),
            True))"

definition connection_closed :: "int \<Rightarrow> runner \<Rightarrow> conn_id \<Rightarrow> runner \<times> (unit, unit) wire_calls" where
  "connection_closed now r cid =
     (let (sm', cm', calls, wire) = manager_drop now (rn_sm r) (rn_connections r) cid
      in (dispatch_calls (r\<lparr>rn_connections := cm', rn_sm := sm'\<rparr>) calls, wire))"

definition connection_answered :: "int \<Rightarrow> runner \<Rightarrow> conn_id \<Rightarrow> (string, string) dict \<Rightarrow> runner" where
  "connection_answered now r cid answer =
     fst (rn_send now r CONNECTION_ANSWERED [(''conn_id'', DId cid), (''answer'', DAnswer answer)])"

definition evict_on_failure :: "int \<Rightarrow> runner \<Rightarrow> string \<Rightarrow> runner" where
  "evict_on_failure now r error =
     fst (rn_send now r EVICTION [(''reason'', DReason REASON_ERROR), (''error'', DText error)])"

definition emit_chunk_ready :: "int \<Rightarrow> runner \<Rightarrow> string \<Rightarrow> int \<Rightarrow> runner" where
  "emit_chunk_ready now r recording_id idx =
     fst (rn_send now r CHUNK_READY [(''recording_id'', DText recording_id), (''idx'', DNum idx)])"

fun first_refusal :: "contract \<Rightarrow> starting_command list \<Rightarrow> nat \<Rightarrow> nat option" where
  "first_refusal c [] i = None"
| "first_refusal c (cmd # cmds) i =
     (if accepts c (sc_command cmd) (sc_data cmd) then first_refusal c cmds (Suc i) else Some i)"

definition check_generation :: "contract \<Rightarrow> runner \<Rightarrow> session_start \<Rightarrow> runner_error option" where
  "check_generation c r start =
     (if ss_generation start \<noteq> STEPPED \<or> \<not> rn_bridge r then None
      else if \<not> supports_stepped c then Some GenerationUnsupported else None)"

definition check_starting_input :: "contract \<Rightarrow> runner \<Rightarrow> session_start \<Rightarrow> runner_error option" where
  "check_starting_input c r start =
     (case ss_starting_input start of
        None \<Rightarrow> None
      | Some si \<Rightarrow> if \<not> rn_bridge r then None else map_option CommandRefused (first_refusal c (as_commands si) 0))"

definition runs_unattended :: "session_start \<Rightarrow> bool" where
  "runs_unattended start \<longleftrightarrow> ss_steps start \<noteq> None \<and> ss_generation start \<noteq> STEPPED"

text \<open>\<^verbatim>\<open>SystemConnection\<close>: no wire, no media, id 0.\<close>

definition system_connection :: connection where
  "system_connection =
     \<lparr>cn_id = SYSTEM_CONN_ID, carries_video = False, carries_audio = False, cn_version = V1,
      cn_max_message_size = 0x7FFFFFFFFFFFFFFF, cn_message_chunking = False, cn_origin = None,
      cn_observer = False, cn_watcher = False, cn_takes_hold = True, cn_latest_reading = None,
      cn_times_frames = False, cn_times_messages = False\<rparr>"

definition begin_session_inputs :: "int \<Rightarrow> runner \<Rightarrow> runner" where
  "begin_session_inputs now r =
     (let start = rn_session_start r;
          r1 = r\<lparr>rn_starting_input_done := False\<rparr>;
          r2 = (if ss_starting_input start \<noteq> None \<or> runs_unattended start
                then rn_register now r1 system_connection True (runs_unattended start) else r1)
      in if ss_starting_input start = None \<or> \<not> rn_loop r2 then r2\<lparr>rn_starting_input_done := True\<rparr> else r2)"

definition start_session ::
  "int \<Rightarrow> contract \<Rightarrow> runner \<Rightarrow> (string, json) dict \<Rightarrow> runner \<times> (runner_error + unit)" where
  "start_session now c r params =
     (case parse_session_start params of
        Inl e \<Rightarrow> (r, Inl (InvalidStart e))
      | Inr start \<Rightarrow>
          (case check_generation c r start of
             Some e \<Rightarrow> (r, Inl e)
           | None \<Rightarrow>
               (case check_starting_input c r start of
                  Some e \<Rightarrow> (r, Inl e)
                | None \<Rightarrow>
                    (let (r1, ok) = rn_send now r START_SESSION [(''params'', DParams params)]
                     in if \<not> ok then (r1, Inl (SessionTransitionError ''start'' (sm_state (rn_sm r1))))
                        else (begin_session_inputs now (r1\<lparr>rn_epochs := session_started (rn_epochs r1)\<rparr>), Inr ())))))"

definition stop_session :: "int \<Rightarrow> runner \<Rightarrow> bool \<Rightarrow> string \<Rightarrow> runner \<times> (runner_error + unit)" where
  "stop_session now r moderated reason =
     (let d = [(''reason'', DReason (if moderated then MODERATED else STOPPED))] @
              (if reason \<noteq> [] then [(''close_reason'', DText reason)] else []);
          (r1, ok) = rn_send now r STOP_SESSION d
      in if \<not> ok then (r1, Inl (SessionTransitionError ''stop'' (sm_state (rn_sm r1)))) else (r1, Inr ()))"

definition connection_failed :: "int \<Rightarrow> runner \<Rightarrow> conn_id \<Rightarrow> string \<Rightarrow> string \<Rightarrow> runner" where
  "connection_failed now r cid transport reason =
     (if claim_holder (rn_connections r) cid \<noteq> Some transport then r
      else
        let (epochs', stale_epoch) = consume (rn_epochs r) cid;
            r1 = r\<lparr>rn_epochs := epochs'\<rparr>
        in if sm_state (rn_sm r1) \<in> STALE_CONNECTION_STATES \<or> stale_epoch then r1
           else fst (rn_send now r1 ERROR
             [(''message'', DText reason), (''conn_id'', DId cid), (''transport'', DText transport)]))"

definition session_epoch :: "runner \<Rightarrow> int" where
  "session_epoch r = oe_current (rn_epochs r)"

definition offer_admitted :: "runner \<Rightarrow> conn_id \<Rightarrow> runner" where
  "offer_admitted r cid = r\<lparr>rn_epochs := stamp (rn_epochs r) cid\<rparr>"

definition require_session_running :: "runner \<Rightarrow> string \<Rightarrow> string \<Rightarrow> runner_error + unit" where
  "require_session_running r session_id sid =
     (if sm_state (rn_sm r) \<notin> RUNNING_STATES then Inl SessionNotRunningError
      else if sid \<noteq> session_id then Inl UnknownSessionError else Inr ())"

definition orphan_timeout :: "int \<Rightarrow> runner \<Rightarrow> runner" where
  "orphan_timeout now r =
     (if rn_orphan_task r then fst (rn_send now r TIMEOUT [(''reason'', DReason TIMED_OUT)]) else r)"

text \<open>
  One step of a scheduled task: \<open>_close_session\<close> empties the registry and then, once its wires
  have closed, signals that the cleanup is complete; a close that raises is logged and the signal
  still goes out.
\<close>

fun remove_at :: "nat \<Rightarrow> 'a list \<Rightarrow> 'a list" where
  "remove_at i xs = take i xs @ drop (Suc i) xs"

definition run_task :: "int \<Rightarrow> runner \<Rightarrow> nat \<Rightarrow> runner" where
  "run_task now r i =
     (if i < length (rn_tasks r) then
        (case rn_tasks r ! i of
           CloseSession reason \<Rightarrow>
             r\<lparr>rn_connections := fst (close_all (rn_connections r) :: _ \<times> (unit, unit) wire_calls),
               rn_tasks := (rn_tasks r)[i := AwaitWires reason]\<rparr>
         | AwaitWires reason \<Rightarrow>
             fst (rn_send now (r\<lparr>rn_tasks := remove_at i (rn_tasks r)\<rparr>) CLEANUP_COMPLETE
               [(''reason'', DReason reason)])
         | CloseAllTask \<Rightarrow>
             r\<lparr>rn_connections := fst (close_all (rn_connections r) :: _ \<times> (unit, unit) wire_calls),
               rn_tasks := remove_at i (rn_tasks r)\<rparr>
         | CloseWire cid \<Rightarrow> r\<lparr>rn_tasks := remove_at i (rn_tasks r)\<rparr>)
      else r)"

section \<open>Runs\<close>

datatype runner_op =
    OpStart contract "(string, json) dict"
  | OpStop bool string
  | OpDrain
  | OpOpened connection
  | OpClosed conn_id
  | OpAnswered conn_id "(string, string) dict"
  | OpAdmitted conn_id
  | OpFailed conn_id string string
  | OpEvict string
  | OpChunk string int
  | OpOrphan
  | OpTask nat
  | OpPublish conn_id string
  | OpUnpublish conn_id string
  | OpMint string "conn_id list"
  | OpClaim conn_id string
  | OpRelease conn_id string

definition with_manager :: "runner \<Rightarrow> manager_op \<Rightarrow> runner" where
  "with_manager r op = r\<lparr>rn_connections := snd (manager_step (rn_sm r, rn_connections r) op)\<rparr>"

fun runner_step :: "runner \<Rightarrow> int \<times> runner_op \<Rightarrow> runner" where
  "runner_step r (now, OpStart c params) = fst (start_session now c r params)"
| "runner_step r (now, OpStop moderated reason) = fst (stop_session now r moderated reason)"
| "runner_step r (now, OpDrain) = drain now r"
| "runner_step r (now, OpOpened conn) = fst (connection_opened now r conn)"
| "runner_step r (now, OpClosed cid) = fst (connection_closed now r cid)"
| "runner_step r (now, OpAnswered cid answer) = connection_answered now r cid answer"
| "runner_step r (now, OpAdmitted cid) = offer_admitted r cid"
| "runner_step r (now, OpFailed cid transport reason) = connection_failed now r cid transport reason"
| "runner_step r (now, OpEvict error) = evict_on_failure now r error"
| "runner_step r (now, OpChunk rid idx) = emit_chunk_ready now r rid idx"
| "runner_step r (now, OpOrphan) = orphan_timeout now r"
| "runner_step r (now, OpTask i) = run_task now r i"
| "runner_step r (now, OpPublish cid name) = with_manager r (Publish cid name)"
| "runner_step r (now, OpUnpublish cid name) = with_manager r (Unpublish cid name)"
| "runner_step r (now, OpMint transport draws) = with_manager r (Mint transport draws)"
| "runner_step r (now, OpClaim cid transport) = with_manager r (Claim cid transport)"
| "runner_step r (now, OpRelease cid transport) = with_manager r (Release cid transport)"

section \<open>What a dispatch leaves alone\<close>

text \<open>Every helper of the dispatch keeps the parts of the runner that other components own.\<close>

definition kept where
  "kept r = (rn_sm r, rn_connections r, rn_epochs r, rn_loop r, rn_bridge r, rn_orphan_seconds r, rn_events r)"

lemma kept_if: "kept (if b then r else s) = (if b then kept r else kept s)"
  by simp

lemma kept_post [simp]: "kept (post r e) = kept r"
  by (simp add: kept_def post_def)

lemma kept_spawn [simp]: "kept (spawn_teardown r t) = kept r"
  by (simp add: kept_def spawn_teardown_def)

lemma kept_orphan [simp]: "kept (reset_orphan_timeout r s) = kept r"
  by (simp add: kept_def reset_orphan_timeout_def arm_orphan_timeout_def cancel_orphan_timeout_def Let_def)

lemma kept_stats [simp]: "kept (sync_runtime_stats r s) = kept r"
  by (simp add: kept_def sync_runtime_stats_def)

lemma kept_reactor [simp]: "kept (dispatch_reactor_events r t) = kept r"
  by (simp add: dispatch_reactor_events_def Let_def kept_if)

lemma kept_notice [simp]: "kept (broadcast_notice r n) = kept r"
  by (simp add: kept_def broadcast_notice_def)

lemma kept_updates [simp]:
  "kept (r\<lparr>rn_uploads := u, rn_starting_input_done := b\<rparr>) = kept r"
  "kept (r\<lparr>rn_shutdown := s\<rparr>) = kept r" "kept (r\<lparr>rn_session_start := st\<rparr>) = kept r"
  by (simp_all add: kept_def)

lemma kept_closing [simp]: "kept (enter_closing r d) = kept r"
  by (simp add: enter_closing_def Let_def kept_if)

lemma kept_terminated [simp]: "kept (enter_terminated r e d) = kept r"
  by (simp add: enter_terminated_def Let_def kept_if)

definition after_emit :: "runner \<Rightarrow> detail transition \<Rightarrow> runner" where
  "after_emit r t =
     (let r1 = (if is_session_start t
                then r\<lparr>rn_session_start := (case parse_session_start (detail_params (tr_detail t)) of
                         Inl _ \<Rightarrow> rn_session_start r | Inr s \<Rightarrow> s)\<rparr> else r)
      in r1\<lparr>rn_events := emit (rn_events r1) t\<rparr>)"

lemma kept_dispatch: "kept (dispatch_transition r t) = kept (r\<lparr>rn_events := emit (rn_events r) t\<rparr>)"
proof -
  have "kept (dispatch_transition r t) = kept (after_emit r t)"
    unfolding dispatch_transition_def Let_def after_emit_def [unfolded Let_def, symmetric]
    by (simp only: kept_if kept_terminated kept_closing kept_stats kept_orphan kept_reactor if_cancel)
  also have "\<dots> = kept (r\<lparr>rn_events := emit (rn_events r) t\<rparr>)"
    by (simp add: after_emit_def kept_def)
  finally show ?thesis .
qed

lemma dispatch_frame [simp]:
  "rn_sm (dispatch_transition r t) = rn_sm r"
  "rn_connections (dispatch_transition r t) = rn_connections r"
  "rn_epochs (dispatch_transition r t) = rn_epochs r"
  "rn_loop (dispatch_transition r t) = rn_loop r"
  "rn_bridge (dispatch_transition r t) = rn_bridge r"
  "rn_orphan_seconds (dispatch_transition r t) = rn_orphan_seconds r"
  "rn_events (dispatch_transition r t) = emit (rn_events r) t"
  using kept_dispatch [of r t] by (simp_all add: kept_def)

text \<open>The timer, the statistics task and the scheduled teardown after a dispatch.\<close>

definition tasks_of where
  "tasks_of r = (rn_tasks r, rn_orphan_task r, rn_stats_task r, rn_loop r, rn_orphan_seconds r)"

lemma tasks_of_if: "tasks_of (if b then r else s) = (if b then tasks_of r else tasks_of s)"
  by simp

lemma tasks_of_post [simp]: "tasks_of (post r e) = tasks_of r"
  by (simp add: tasks_of_def post_def)

lemma tasks_of_reactor [simp]: "tasks_of (dispatch_reactor_events r t) = tasks_of r"
  by (simp add: dispatch_reactor_events_def Let_def tasks_of_if)

lemma tasks_of_after_emit [simp]: "tasks_of (after_emit r t) = tasks_of r"
  by (simp add: after_emit_def tasks_of_def)

lemma tasks_of_notice [simp]: "tasks_of (broadcast_notice r n) = tasks_of r"
  by (simp add: tasks_of_def broadcast_notice_def)

lemma tasks_of_timers:
  "tasks_of (sync_runtime_stats (reset_orphan_timeout r s) s) =
     (rn_tasks r, rn_loop r \<and> 0 < rn_orphan_seconds r \<and> s \<in> {WAITING, ORPHANED},
      s \<in> RUNNING_STATES \<and> (rn_stats_task r \<or> rn_loop r), rn_loop r, rn_orphan_seconds r)"
  by (auto simp: tasks_of_def sync_runtime_stats_def reset_orphan_timeout_def arm_orphan_timeout_def
      cancel_orphan_timeout_def Let_def)

lemma tasks_of_spawn:
  "tasks_of (spawn_teardown r t) =
     (rn_tasks r @ (if rn_loop r then [t] else []), rn_orphan_task r, rn_stats_task r, rn_loop r, rn_orphan_seconds r)"
  by (simp add: tasks_of_def spawn_teardown_def)

lemma tasks_of_closing:
  "tasks_of (enter_closing r d) =
     (rn_tasks r @ (if rn_loop r then [CloseSession (detail_reason d)] else []), rn_orphan_task r,
      rn_stats_task r, rn_loop r, rn_orphan_seconds r)"
  by (simp add: enter_closing_def Let_def tasks_of_spawn broadcast_notice_def)

lemma tasks_of_terminated:
  "tasks_of (enter_terminated r e d) =
     (rn_tasks r @ (if rn_loop r \<and> e = EVICTION then [CloseAllTask] else []), rn_orphan_task r,
      rn_stats_task r, rn_loop r, rn_orphan_seconds r)"
  by (simp add: enter_terminated_def Let_def tasks_of_def spawn_teardown_def)

lemma tasks_of_fields:
  "tasks_of r = (ts, ot, st, lp, os) \<longleftrightarrow>
   rn_tasks r = ts \<and> rn_orphan_task r = ot \<and> rn_stats_task r = st \<and> rn_loop r = lp \<and> rn_orphan_seconds r = os"
  by (simp add: tasks_of_def)

lemma dispatch_tasks:
  assumes "rn_loop r"
  shows "tasks_of (dispatch_transition r t) =
    (if from_state t = to_state t then tasks_of r
     else (rn_tasks r @ (if to_state t = CLOSING then [CloseSession (detail_reason (tr_detail t))] else [])
             @ (if to_state t = TERMINATED \<and> tr_event t = EVICTION then [CloseAllTask] else []),
           0 < rn_orphan_seconds r \<and> to_state t \<in> {WAITING, ORPHANED},
           to_state t \<in> RUNNING_STATES, rn_loop r, rn_orphan_seconds r))"
proof -
  define r3 where "r3 = (let r2 = after_emit r t in if rn_bridge r2 then dispatch_reactor_events r2 t else r2)"
  have r3: "tasks_of r3 = tasks_of r"
    by (simp add: r3_def Let_def)
  then have fields: "rn_tasks r3 = rn_tasks r" "rn_loop r3" "rn_orphan_seconds r3 = rn_orphan_seconds r"
    using assms by (simp_all add: tasks_of_def)
  define r4 where "r4 = sync_runtime_stats (reset_orphan_timeout r3 (to_state t)) (to_state t)"
  have r4: "rn_tasks r4 = rn_tasks r" "rn_loop r4" "rn_orphan_seconds r4 = rn_orphan_seconds r"
    "rn_orphan_task r4 = (0 < rn_orphan_seconds r \<and> to_state t \<in> {WAITING, ORPHANED})"
    "rn_stats_task r4 = (to_state t \<in> RUNNING_STATES)"
    using tasks_of_timers [of r3 "to_state t"] fields unfolding r4_def [symmetric] tasks_of_fields by auto
  have eq: "dispatch_transition r t =
    (if from_state t = to_state t then r3
     else if to_state t = TERMINATED then enter_terminated r4 (tr_event t) (tr_detail t)
     else if to_state t = CLOSING then enter_closing r4 (tr_detail t) else r4)"
    using r4(2) by (simp add: dispatch_transition_def r4_def r3_def after_emit_def Let_def)
  show ?thesis
    using r4 assms by (simp add: eq tasks_of_if r3 tasks_of_closing tasks_of_terminated) (simp add: tasks_of_def)
qed

text \<open>A legal move reaches the dispatcher once; an illegal one changes nothing.\<close>

lemma rn_send_rejected: "resolve (rn_sm r) e = None \<Longrightarrow> rn_send now r e d = (r, False)"
  by (simp add: rn_send_def send_def dispatch_calls_def)

lemma rn_send_accepted:
  assumes "sm_listeners (rn_sm r) = [()]" and "resolve (rn_sm r) e = Some target"
  shows "rn_send now r e d =
    (dispatch_transition (r\<lparr>rn_sm := (update_count (rn_sm r) e)\<lparr>sm_state := target\<rparr>\<rparr>)
       \<lparr>tr_event = e, from_state = sm_state (rn_sm r), to_state = target, tr_detail = d, ts_ms = now_ms now\<rparr>, True)"
proof -
  have "sm_listeners (update_count (rn_sm r) e) = [()]" "sm_state (update_count (rn_sm r) e) = sm_state (rn_sm r)"
    using assms(1) by (simp_all add: update_count_def)
  then show ?thesis
    using assms(2) by (simp add: rn_send_def send_def apply_move_def dispatch_calls_def)
qed

section \<open>The lifecycle invariant\<close>

text \<open>
  Three layers: the loaded runner agrees with its machine, its timers and its journal
  (\<open>core_ok\<close>); the registry agrees with the machine's live count (\<open>registry_ok\<close>); and exactly one
  teardown is under way while the session closes (\<open>teardown_ok\<close>).
\<close>

definition core_ok :: "runner \<Rightarrow> bool" where
  "core_ok r \<longleftrightarrow>
     sm_listeners (rn_sm r) = [()] \<and> rn_loop r \<and> rn_bridge r \<and> sm_state (rn_sm r) \<noteq> CREATED \<and>
     occupancy_ok (rn_sm r) \<and>
     rn_orphan_task r = (0 < rn_orphan_seconds r \<and> sm_state (rn_sm r) \<in> {WAITING, ORPHANED}) \<and>
     rn_stats_task r = (sm_state (rn_sm r) \<in> RUNNING_STATES) \<and>
     es_state (rn_events r) = Some (sm_state (rn_sm r))"

definition registry_ok :: "runner \<Rightarrow> bool" where
  "registry_ok r \<longleftrightarrow>
     manager_ok (rn_connections r) \<and>
     (sm_state (rn_sm r) \<in> CONNECTABLE \<longrightarrow> sm_live (rn_sm r) = int (card (occupying (rn_connections r)))) \<and>
     (sm_state (rn_sm r) = READY \<longrightarrow> cm_by_id (rn_connections r) = [])"

fun is_closer :: "teardown \<Rightarrow> bool" where
  "is_closer (CloseSession _) = True"
| "is_closer (AwaitWires _) = True"
| "is_closer _ = False"

definition teardown_ok :: "runner \<Rightarrow> bool" where
  "teardown_ok r \<longleftrightarrow>
     (sm_state (rn_sm r) \<noteq> TERMINATED \<longrightarrow>
        length (filter is_closer (rn_tasks r)) = (if sm_state (rn_sm r) = CLOSING then 1 else 0) \<and>
        CloseAllTask \<notin> set (rn_tasks r)) \<and>
     (\<forall>reason. sm_state (rn_sm r) = CLOSING \<and> AwaitWires reason \<in> set (rn_tasks r) \<longrightarrow>
        cm_by_id (rn_connections r) = [])"

lemma es_state_emit [simp]: "es_state (emit s t) = Some (to_state t)"
  by (simp add: emit_def fold_event_def Let_def)

lemma core_dispatch:
  assumes "core_ok r" and "from_state t = sm_state (rn_sm r)" and "to_state t = sm_state sm'"
    and "sm_listeners sm' = [()]" and "occupancy_ok sm'" and "sm_state sm' \<noteq> CREATED"
  shows "core_ok (dispatch_transition (r\<lparr>rn_sm := sm'\<rparr>) t)"
    and "rn_tasks (dispatch_transition (r\<lparr>rn_sm := sm'\<rparr>) t) = rn_tasks r @
      (if sm_state (rn_sm r) \<noteq> CLOSING \<and> sm_state sm' = CLOSING then [CloseSession (detail_reason (tr_detail t))] else []) @
      (if sm_state (rn_sm r) \<noteq> TERMINATED \<and> sm_state sm' = TERMINATED \<and> tr_event t = EVICTION then [CloseAllTask] else [])"
proof -
  have tasks: "tasks_of (dispatch_transition (r\<lparr>rn_sm := sm'\<rparr>) t) =
    (if sm_state (rn_sm r) = sm_state sm' then tasks_of r
     else (rn_tasks r @ (if sm_state sm' = CLOSING then [CloseSession (detail_reason (tr_detail t))] else [])
             @ (if sm_state sm' = TERMINATED \<and> tr_event t = EVICTION then [CloseAllTask] else []),
           0 < rn_orphan_seconds r \<and> sm_state sm' \<in> {WAITING, ORPHANED},
           sm_state sm' \<in> RUNNING_STATES, True, rn_orphan_seconds r))"
    using assms dispatch_tasks [of "r\<lparr>rn_sm := sm'\<rparr>" t] by (simp add: core_ok_def tasks_of_def)
  show "core_ok (dispatch_transition (r\<lparr>rn_sm := sm'\<rparr>) t)"
    using assms tasks by (auto simp: core_ok_def tasks_of_def split: if_splits)
  show "rn_tasks (dispatch_transition (r\<lparr>rn_sm := sm'\<rparr>) t) = rn_tasks r @
      (if sm_state (rn_sm r) \<noteq> CLOSING \<and> sm_state sm' = CLOSING then [CloseSession (detail_reason (tr_detail t))] else []) @
      (if sm_state (rn_sm r) \<noteq> TERMINATED \<and> sm_state sm' = TERMINATED \<and> tr_event t = EVICTION then [CloseAllTask] else [])"
    using tasks by (auto simp: tasks_of_def split: if_splits)
qed

lemma resolve_not_created: "resolve m e = Some t \<Longrightarrow> sm_state m \<noteq> CREATED \<Longrightarrow> t \<noteq> CREATED"
  by (cases e) (auto simp: resolve_def split: if_splits)

text \<open>The effect of one accepted move on the runner.\<close>

lemma send_moves:
  assumes "core_ok r" and "resolve (rn_sm r) e = Some target"
  shows "core_ok (fst (rn_send now r e d))" and "snd (rn_send now r e d)"
    and "rn_sm (fst (rn_send now r e d)) = (update_count (rn_sm r) e)\<lparr>sm_state := target\<rparr>"
    and "rn_connections (fst (rn_send now r e d)) = rn_connections r"
    and "rn_epochs (fst (rn_send now r e d)) = rn_epochs r"
    and "rn_tasks (fst (rn_send now r e d)) = rn_tasks r @
      (if sm_state (rn_sm r) \<noteq> CLOSING \<and> target = CLOSING then [CloseSession (detail_reason d)] else []) @
      (if sm_state (rn_sm r) \<noteq> TERMINATED \<and> target = TERMINATED \<and> e = EVICTION then [CloseAllTask] else [])"
proof -
  define sm' where "sm' = (update_count (rn_sm r) e)\<lparr>sm_state := target\<rparr>"
  define t where "t = \<lparr>tr_event = e, from_state = sm_state (rn_sm r), to_state = target,
      tr_detail = d, ts_ms = now_ms now\<rparr>"
  have lis: "sm_listeners (rn_sm r) = [()]" and occ: "occupancy_ok (rn_sm r)"
    using assms(1) by (simp_all add: core_ok_def)
  note acc = rn_send_accepted [OF lis assms(2), of now d, folded t_def sm'_def]
  have sm': "sm' = fst (send now (rn_sm r) e d)"
    using assms(2) by (simp add: send_def apply_move_def sm'_def split_beta)
  have ok: "occupancy_ok sm'" "sm_listeners sm' = [()]"
    unfolding sm' using send_occupancy_ok [OF occ] lis by simp_all
  have nc: "sm_state sm' \<noteq> CREATED"
    using resolve_not_created [OF assms(2)] assms(1) by (simp add: core_ok_def sm'_def)
  note core = core_dispatch [OF assms(1), of t sm', OF _ _ ok(2) ok(1) nc]
  show "core_ok (fst (rn_send now r e d))"
    unfolding acc fst_conv by (rule core(1)) (simp_all add: t_def sm'_def)
  show "rn_tasks (fst (rn_send now r e d)) = rn_tasks r @
      (if sm_state (rn_sm r) \<noteq> CLOSING \<and> target = CLOSING then [CloseSession (detail_reason d)] else []) @
      (if sm_state (rn_sm r) \<noteq> TERMINATED \<and> target = TERMINATED \<and> e = EVICTION then [CloseAllTask] else [])"
    unfolding acc fst_conv by (subst core(2)) (simp_all add: t_def sm'_def)
qed (simp_all add: rn_send_accepted [OF _ assms(2)] assms(1) [unfolded core_ok_def])

definition runner_ok :: "runner \<Rightarrow> bool" where
  "runner_ok r \<longleftrightarrow> core_ok r \<and> registry_ok r \<and> teardown_ok r"

lemma TRANSITIONS_connectable:
  "TRANSITIONS e s = Some target \<Longrightarrow> target \<in> CONNECTABLE \<Longrightarrow>
   (e = START_SESSION \<and> s = READY \<and> target = WAITING) \<or> (target = s \<and> (e = CONNECTION_ANSWERED \<or> e \<in> JOURNAL_EVENTS))"
  by (cases e) (auto simp: CONNECTABLE_def JOURNAL_EVENTS_def split: if_splits)

lemma TRANSITIONS_closing:
  "TRANSITIONS e s = Some target \<Longrightarrow> e \<noteq> CLEANUP_COMPLETE \<Longrightarrow> s \<noteq> CREATED \<Longrightarrow>
   target = s \<or> (e = START_SESSION \<and> s = READY \<and> target = WAITING) \<or>
   (s \<in> CONNECTABLE \<and> target = CLOSING) \<or> (e = EVICTION \<and> target = TERMINATED)"
  by (cases e) (auto simp: CONNECTABLE_def split: if_splits)

lemma resolve_other: "e \<notin> CONNECTION_EVENTS \<Longrightarrow> resolve m e = TRANSITIONS e (sm_state m)"
  by (simp add: resolve_def CONNECTION_EVENTS_def)

lemma occupying_empty: "cm_by_id cm = [] \<Longrightarrow> occupying cm = {}"
  by (simp add: occupying_def)

lemma send_registry_ok:
  assumes "core_ok r" and "registry_ok r" and "e \<notin> CONNECTION_EVENTS"
    and res: "resolve (rn_sm r) e = Some target"
    and empty: "target = READY \<Longrightarrow> sm_state (rn_sm r) \<noteq> READY \<Longrightarrow> cm_by_id (rn_connections r) = []"
  shows "registry_ok (fst (rn_send now r e d))"
proof -
  have tab: "TRANSITIONS e (sm_state (rn_sm r)) = Some target"
    using res resolve_other [OF assms(3), of "rn_sm r"] by simp
  have "sm_live (update_count (rn_sm r) e) = int (card (occupying (rn_connections r)))" if "target \<in> CONNECTABLE"
    using TRANSITIONS_connectable [OF tab that]
  proof
    assume "e = START_SESSION \<and> sm_state (rn_sm r) = READY \<and> target = WAITING"
    then show ?thesis
      using assms(2) by (simp add: registry_ok_def update_count_def JOURNAL_EVENTS_def occupying_empty)
  next
    assume "target = sm_state (rn_sm r) \<and> (e = CONNECTION_ANSWERED \<or> e \<in> JOURNAL_EVENTS)"
    then show ?thesis
      using assms(2,3) that by (simp add: registry_ok_def update_count_def CONNECTION_EVENTS_def)
  qed
  then show ?thesis
    using assms(2) empty by (auto simp: registry_ok_def send_moves [OF assms(1) res])
qed

lemma closers_zero:
  "length (filter is_closer ts) = 0 \<Longrightarrow> CloseSession reason \<notin> set ts \<and> AwaitWires reason \<notin> set ts"
  by (auto simp: filter_empty_conv)

lemma send_teardown_ok:
  assumes "core_ok r" and "teardown_ok r" and "e \<notin> CONNECTION_EVENTS" and "e \<noteq> CLEANUP_COMPLETE"
    and res: "resolve (rn_sm r) e = Some target"
  shows "teardown_ok (fst (rn_send now r e d))"
proof -
  have tab: "TRANSITIONS e (sm_state (rn_sm r)) = Some target" and nc: "sm_state (rn_sm r) \<noteq> CREATED"
    using res resolve_other [OF assms(3), of "rn_sm r"] assms(1) by (simp, simp add: core_ok_def)
  note moves = send_moves [OF assms(1) res]
  have zero: "CloseSession reason \<notin> set (rn_tasks r) \<and> AwaitWires reason \<notin> set (rn_tasks r)"
    if "sm_state (rn_sm r) \<in> CONNECTABLE" for reason
    using assms(2) that by (intro closers_zero) (auto simp: teardown_ok_def CONNECTABLE_def)
  from TRANSITIONS_closing [OF tab assms(4) nc] show ?thesis
    unfolding teardown_ok_def moves using assms(2) [unfolded teardown_ok_def] zero
    by (elim disjE) (auto simp: CONNECTABLE_def split: if_splits)
qed

lemma send_ok:
  assumes "runner_ok r" and "e \<notin> CONNECTION_EVENTS" and "e \<noteq> CLEANUP_COMPLETE"
  shows "runner_ok (fst (rn_send now r e d))"
proof (cases "resolve (rn_sm r) e")
  case None
  then show ?thesis using assms(1) by (simp add: rn_send_rejected)
next
  case (Some target)
  have ok: "core_ok r" "registry_ok r" "teardown_ok r"
    using assms(1) by (simp_all add: runner_ok_def)
  have tab: "TRANSITIONS e (sm_state (rn_sm r)) = Some target" and nc: "sm_state (rn_sm r) \<noteq> CREATED"
    using Some resolve_other [OF assms(2), of "rn_sm r"] ok(1) by (simp, simp add: core_ok_def)
  have "target = READY \<Longrightarrow> sm_state (rn_sm r) = READY"
    using TRANSITIONS_closing [OF tab assms(3) nc] by auto
  then have "registry_ok (fst (rn_send now r e d))"
    by (intro send_registry_ok [OF ok(1,2) assms(2) Some]) blast
  then show ?thesis
    using send_teardown_ok [OF ok(1,3) assms(2,3) Some] send_moves(1) [OF ok(1) Some]
    by (simp add: runner_ok_def)
qed

subsection \<open>Connections\<close>

lemma rn_register_eq:
  "rn_register now r conn sys occ =
     (let cm = rn_connections r; cm' = fst (snd (register now (rn_sm r) cm conn sys occ));
          r1 = r\<lparr>rn_connections := cm'\<rparr>
      in if cn_id conn \<in> set (dict_keys (cm_by_id cm)) then r1
         else if occ then fst (rn_send now r1 CONNECTION_OPENED (connection_detail conn sys))
         else (case send_without_occupancy now (rn_sm r) CONNECTION_OPENED (connection_detail conn sys) of
                 Inl _ \<Rightarrow> r1 | Inr (_, calls, _) \<Rightarrow> dispatch_calls r1 calls))"
  by (auto simp: rn_register_def register_def rn_send_def dispatch_calls_def Let_def split_beta
      send_without_occupancy_def split: sum.splits) (auto simp: apply_move_def Let_def)

lemma core_connections [simp]: "core_ok (r\<lparr>rn_connections := cm\<rparr>) = core_ok r"
  by (simp add: core_ok_def)

lemma self_loop_ok:
  assumes "core_ok r" and "from_state t = sm_state (rn_sm r)" and "to_state t = sm_state (rn_sm r)"
  shows "core_ok (dispatch_transition r t)" and "rn_tasks (dispatch_transition r t) = rn_tasks r"
proof -
  note dispatched = core_dispatch [OF assms(1), of t "rn_sm r"]
  show "core_ok (dispatch_transition r t)" "rn_tasks (dispatch_transition r t) = rn_tasks r"
    using dispatched assms by (simp_all add: core_ok_def [of r])
qed

text \<open>An open that does not occupy is a self-loop of the machine.\<close>

lemma register_unoccupying:
  fixes now :: int and sys :: bool and conn :: connection and r :: runner
  assumes "core_ok r" and "sm_state (rn_sm r) \<in> CONNECTABLE"
    and "cn_id conn \<notin> set (dict_keys (cm_by_id (rn_connections r)))"
  defines "r' \<equiv> rn_register now r conn sys False"
  shows "core_ok r'" and "rn_sm r' = rn_sm r" and "rn_tasks r' = rn_tasks r" and "rn_epochs r' = rn_epochs r"
    and "rn_connections r' = fst (snd (register now (rn_sm r) (rn_connections r) conn sys False))"
proof -
  define r1 where "r1 = r\<lparr>rn_connections := fst (snd (register now (rn_sm r) (rn_connections r) conn sys False))\<rparr>"
  define t where "t = \<lparr>tr_event = CONNECTION_OPENED, from_state = sm_state (rn_sm r), to_state = sm_state (rn_sm r),
      tr_detail = connection_detail conn sys, ts_ms = now_ms now\<rparr>"
  have lis: "sm_listeners (rn_sm r) = [()]" using assms(1) by (simp add: core_ok_def)
  have "r' = dispatch_transition r1 t"
    using assms(2,3) lis unfolding r'_def rn_register_eq
    by (simp add: Let_def send_without_occupancy_def CONNECTION_EVENTS_def apply_move_def dispatch_calls_def r1_def t_def)
  moreover have "core_ok r1" using assms(1) by (simp add: r1_def)
  ultimately show "core_ok r'" "rn_sm r' = rn_sm r" "rn_tasks r' = rn_tasks r" "rn_epochs r' = rn_epochs r"
    "rn_connections r' = fst (snd (register now (rn_sm r) (rn_connections r) conn sys False))"
    using self_loop_ok [of r1 t] by (simp_all add: r1_def t_def)
qed

lemma occupying_register:
  assumes "manager_ok cm"
  shows "occupying (fst (snd (register now sm cm conn sys occ))) =
    (if cn_id conn \<in> set (dict_keys (cm_by_id cm)) then occupying cm
     else if occ then insert (cn_id conn) (occupying cm) else occupying cm)"
  using assms unfolding register_manager
  by (auto simp: occupying_def Let_def dict_simps manager_ok_def)

lemma finite_occupying [simp]: "finite (occupying cm)"
  by (simp add: occupying_def)

lemma register_runner_ok:
  assumes "runner_ok r" and "sm_state (rn_sm r) \<in> CONNECTABLE"
  shows "runner_ok (rn_register now r conn sys occ)"
proof -
  define cm where "cm = rn_connections r"
  define cm' where "cm' = fst (snd (register now (rn_sm r) cm conn sys occ))"
  have ok: "core_ok r" "registry_ok r" "teardown_ok r" "manager_ok cm"
    using assms(1) by (simp_all add: runner_ok_def registry_ok_def cm_def)
  have live: "sm_live (rn_sm r) = int (card (occupying cm))"
    using ok(2) assms(2) by (simp add: registry_ok_def cm_def)
  have st: "sm_state (rn_sm r) \<noteq> READY" "sm_state (rn_sm r) \<noteq> CLOSING" "sm_state (rn_sm r) \<noteq> TERMINATED"
    using assms(2) by (auto simp: CONNECTABLE_def)
  have m': "manager_ok cm'" unfolding cm'_def by (rule register_ok [OF ok(4)])
  note occs = occupying_register [OF ok(4), of now "rn_sm r" conn sys occ, folded cm'_def]
  have same: "runner_ok r'" if "core_ok r'" "rn_sm r' = rn_sm r" "rn_tasks r' = rn_tasks r"
      "rn_connections r' = cm'" "occupying cm' = occupying cm" for r'
    using that ok(3) live st m' by (simp add: runner_ok_def registry_ok_def teardown_ok_def)
  consider (known) "cn_id conn \<in> set (dict_keys (cm_by_id cm))"
    | (quiet) "cn_id conn \<notin> set (dict_keys (cm_by_id cm))" "\<not> occ"
    | (counted) "cn_id conn \<notin> set (dict_keys (cm_by_id cm))" "occ" by blast
  then show ?thesis
  proof cases
    case known
    then have "rn_register now r conn sys occ = r\<lparr>rn_connections := cm'\<rparr>"
      by (simp add: rn_register_eq cm_def cm'_def Let_def)
    with known same [of "r\<lparr>rn_connections := cm'\<rparr>"] ok(1) occs show ?thesis by simp
  next
    case quiet
    then show ?thesis
      using register_unoccupying [OF ok(1) assms(2), of conn now sys] occs
      by (intro same) (simp_all add: cm_def cm'_def)
  next
    case counted
    define r1 where "r1 = r\<lparr>rn_connections := cm'\<rparr>"
    have core: "core_ok r1" and res: "resolve (rn_sm r1) CONNECTION_OPENED = Some STREAMING"
      using ok(1) assms(2) by (simp_all add: r1_def resolve_def)
    have eq: "rn_register now r conn sys occ = fst (rn_send now r1 CONNECTION_OPENED (connection_detail conn sys))"
      using counted by (simp add: rn_register_eq cm_def cm'_def r1_def Let_def)
    have "cn_id conn \<notin> occupying cm" using counted by (simp add: occupying_def)
    then have card: "card (occupying cm') = Suc (card (occupying cm))"
      using occs counted by simp
    note moves = send_moves [OF core res, of now "connection_detail conn sys", folded eq]
    have "registry_ok (rn_register now r conn sys occ)"
      using card live m' by (simp add: registry_ok_def moves update_count_def r1_def CONNECTABLE_def)
    moreover have "teardown_ok (rn_register now r conn sys occ)"
      using ok(3) st by (simp add: teardown_ok_def moves r1_def)
    ultimately show ?thesis using moves(1) by (simp add: runner_ok_def)
  qed
qed

lemma occupying_after_drop: "occupying (after_drop cm cid) = occupying cm - {cid}"
  by (auto simp: occupying_def after_drop_def)

lemma closed_eq:
  assumes "core_ok r" and "manager_ok (rn_connections r)" and "cid \<in> set (dict_keys (cm_by_id (rn_connections r)))"
  defines "r1 \<equiv> r\<lparr>rn_connections := after_drop (rn_connections r) cid\<rparr>"
    and "d \<equiv> the (dict_get (cm_details (rn_connections r)) cid)"
  shows "fst (connection_closed now r cid) =
    (if cid \<in> cm_unoccupying (rn_connections r)
     then (if sm_state (rn_sm r) \<in> CONNECTABLE
           then dispatch_transition r1 \<lparr>tr_event = CONNECTION_CLOSED, from_state = sm_state (rn_sm r),
                  to_state = sm_state (rn_sm r), tr_detail = d, ts_ms = now_ms now\<rparr>
           else r1)
     else fst (rn_send now r1 CONNECTION_CLOSED d))"
proof -
  have lis: "sm_listeners (rn_sm r) = [()]" using assms(1) by (simp add: core_ok_def)
  show ?thesis
    using lis by (simp add: connection_closed_def manager_drop_eq [OF assms(2,3)] rn_send_def dispatch_calls_def
        send_without_occupancy_def CONNECTION_EVENTS_def apply_move_def Let_def split_beta r1_def d_def)
qed

lemma after_drop_ok: "manager_ok cm \<Longrightarrow> cid \<in> set (dict_keys (cm_by_id cm)) \<Longrightarrow> manager_ok (after_drop cm cid)"
  using manager_drop_ok manager_drop_manager by metis

lemma closed_runner_ok:
  assumes "runner_ok r"
  shows "runner_ok (fst (connection_closed now r cid))"
proof (cases "cid \<in> set (dict_keys (cm_by_id (rn_connections r)))")
  case False
  then show ?thesis using assms by (simp add: connection_closed_def manager_drop_def dispatch_calls_def)
next
  case True
  define cm where "cm = rn_connections r"
  define r1 where "r1 = r\<lparr>rn_connections := after_drop cm cid\<rparr>"
  have ok: "core_ok r" "registry_ok r" "teardown_ok r" "manager_ok cm"
    using assms by (simp_all add: runner_ok_def registry_ok_def cm_def)
  have m': "manager_ok (after_drop cm cid)"
    using after_drop_ok [OF ok(4)] True by (simp add: cm_def)
  have nr: "sm_state (rn_sm r) \<noteq> READY"
    using ok(2) True by (auto simp: registry_ok_def)
  have core: "core_ok r1" using ok(1) by (simp add: r1_def)
  have td: "teardown_ok r1"
    using ok(3) by (auto simp: teardown_ok_def r1_def after_drop_def cm_def)
  note eq = closed_eq [OF ok(1) ok(4) [unfolded cm_def] True, of now, folded cm_def, folded r1_def]
  have live: "sm_live (rn_sm r) = int (card (occupying cm))" if "sm_state (rn_sm r) \<in> CONNECTABLE"
    using ok(2) that by (simp add: registry_ok_def cm_def)
  show ?thesis
  proof (cases "cid \<in> cm_unoccupying cm")
    case True
    then have "occupying (after_drop cm cid) = occupying cm"
      unfolding occupying_after_drop by (auto simp: occupying_def)
    then have reg: "registry_ok r1"
      using live m' nr by (auto simp: registry_ok_def r1_def)
    define t where "t = \<lparr>tr_event = CONNECTION_CLOSED, from_state = sm_state (rn_sm r),
        to_state = sm_state (rn_sm r), tr_detail = the (dict_get (cm_details cm) cid), ts_ms = now_ms now\<rparr>"
    have loop: "core_ok (dispatch_transition r1 t)" "rn_tasks (dispatch_transition r1 t) = rn_tasks r1"
      using self_loop_ok [OF core, of t] by (simp_all add: t_def r1_def)
    have "runner_ok (dispatch_transition r1 t)"
      using loop reg td by (simp add: runner_ok_def registry_ok_def teardown_ok_def)
    then show ?thesis
      using True core reg td by (simp add: eq t_def runner_ok_def)
  next
    case False
    then have occ: "cid \<in> occupying cm"
      using \<open>cid \<in> set _\<close> by (simp add: occupying_def cm_def)
    then have pos: "0 < card (occupying cm)"
      by (auto simp: card_gt_0_iff)
    have card: "card (occupying (after_drop cm cid)) = card (occupying cm) - 1"
      using occ by (simp add: occupying_after_drop)
    define d where "d = the (dict_get (cm_details cm) cid)"
    have closed: "fst (connection_closed now r cid) = fst (rn_send now r1 CONNECTION_CLOSED d)"
      using False by (simp add: eq d_def)
    show ?thesis
    proof (cases "sm_state (rn_sm r) = STREAMING")
      case True
      then have lv: "sm_live (rn_sm r) = int (card (occupying cm))" by (simp add: live CONNECTABLE_def)
      obtain target where res: "resolve (rn_sm r1) CONNECTION_CLOSED = Some target" and
        target: "target \<in> {ORPHANED, STREAMING}"
        using True by (cases "sm_live (rn_sm r) \<le> 1") (simp_all add: resolve_def r1_def)
      note moves = send_moves [OF core res, of now d]
      have reg: "registry_ok (fst (rn_send now r1 CONNECTION_CLOSED d))"
        unfolding registry_ok_def moves using card lv pos m' target
        by (auto simp: update_count_def r1_def of_nat_diff)
      have "teardown_ok (fst (rn_send now r1 CONNECTION_CLOSED d))"
        using td target True unfolding teardown_ok_def moves by (auto simp: r1_def)
      with reg moves(1) show ?thesis by (simp add: closed runner_ok_def)
    next
      case False
      then have "resolve (rn_sm r1) CONNECTION_CLOSED = None" by (simp add: resolve_def r1_def)
      then have same: "fst (connection_closed now r cid) = r1"
        by (simp add: closed rn_send_rejected)
      have "sm_state (rn_sm r) \<notin> CONNECTABLE"
      proof
        assume c: "sm_state (rn_sm r) \<in> CONNECTABLE"
        then have "sm_live (rn_sm r) = 0"
          using ok(1) False by (auto simp: core_ok_def occupancy_ok_def)
        with live [OF c] pos show False by simp
      qed
      then show ?thesis
        using core td m' nr by (simp add: same runner_ok_def registry_ok_def r1_def)
    qed
  qed
qed

subsection \<open>Operations\<close>

lemma runner_ok_updates [simp]:
  "runner_ok (r\<lparr>rn_epochs := ep\<rparr>) = runner_ok r"
  "runner_ok (r\<lparr>rn_starting_input_done := b\<rparr>) = runner_ok r"
  "runner_ok (r\<lparr>rn_accepting := b\<rparr>) = runner_ok r"
  by (simp_all add: runner_ok_def core_ok_def registry_ok_def teardown_ok_def)

lemma opened_runner_ok:
  assumes "runner_ok r"
  shows "runner_ok (fst (connection_opened now r conn))"
proof -
  define r1 where "r1 = r\<lparr>rn_epochs := fst (consume (rn_epochs r) (cn_id conn))\<rparr>"
  have ok: "runner_ok r1" using assms by (simp add: r1_def)
  have "sm_state (rn_sm r1) \<in> CONNECTABLE" if "sm_state (rn_sm r1) \<notin> STALE_CONNECTION_STATES"
    using ok that by (cases "sm_state (rn_sm r1)")
      (auto simp: runner_ok_def core_ok_def CONNECTABLE_def STALE_CONNECTION_STATES_def)
  moreover have "runner_ok (spawn_teardown r1 (CloseWire (cn_id conn)))"
    using ok by (auto simp: runner_ok_def core_ok_def registry_ok_def teardown_ok_def spawn_teardown_def)
  ultimately show ?thesis
    using register_runner_ok [OF ok] by (simp add: connection_opened_def split_beta Let_def r1_def)
qed

lemma send_start_state:
  assumes "core_ok r" and "snd (rn_send now r START_SESSION d)"
  shows "sm_state (rn_sm (fst (rn_send now r START_SESSION d))) = WAITING"
proof (cases "resolve (rn_sm r) START_SESSION")
  case (Some target)
  then have "target = WAITING" by (simp add: resolve_def split: if_splits)
  then show ?thesis by (simp add: send_moves [OF assms(1) Some])
qed (use assms in \<open>simp add: rn_send_rejected\<close>)

lemma begin_inputs_ok:
  assumes "runner_ok r" and "sm_state (rn_sm r) = WAITING"
  shows "runner_ok (begin_session_inputs now r)"
proof -
  have "runner_ok (rn_register now (r\<lparr>rn_starting_input_done := False\<rparr>) system_connection True occ)" for occ
    using assms by (intro register_runner_ok) (simp_all add: CONNECTABLE_def)
  then show ?thesis using assms by (simp add: begin_session_inputs_def Let_def)
qed

lemma start_runner_ok:
  assumes "runner_ok r"
  shows "runner_ok (fst (start_session now c r params))"
proof -
  define s where "s = rn_send now r START_SESSION [(''params'', DParams params)]"
  have ok: "runner_ok (fst s)"
    unfolding s_def using assms by (intro send_ok) (simp_all add: CONNECTION_EVENTS_def)
  have "runner_ok (begin_session_inputs now (fst s\<lparr>rn_epochs := session_started (rn_epochs (fst s))\<rparr>))" if "snd s"
  proof -
    have "core_ok r" using assms by (simp add: runner_ok_def)
    then have "sm_state (rn_sm (fst s)) = WAITING"
      using that unfolding s_def by (rule send_start_state)
    with ok show ?thesis by (intro begin_inputs_ok) simp_all
  qed
  then show ?thesis
    using assms ok
    by (simp add: start_session_def s_def [symmetric] split_beta Let_def split: sum.split option.split)
qed

lemma core_tasks [simp]: "core_ok (r\<lparr>rn_tasks := ts\<rparr>) = core_ok r"
  by (simp add: core_ok_def)

lemma filter_remove_at:
  assumes "i < length xs"
  shows "length (filter P (remove_at i xs)) + (if P (xs ! i) then 1 else 0) = length (filter P xs)"
proof -
  have "xs = take i xs @ xs ! i # drop (Suc i) xs"
    using assms by (rule id_take_nth_drop)
  then have "length (filter P xs) = length (filter P (take i xs @ xs ! i # drop (Suc i) xs))"
    by (rule arg_cong)
  then show ?thesis by simp
qed

lemma set_remove_at: "set (remove_at i xs) \<subseteq> set xs"
  by (auto dest: in_set_takeD in_set_dropD)

lemma filter_update_same:
  "i < length xs \<Longrightarrow> P (xs ! i) \<Longrightarrow> P y \<Longrightarrow> length (filter P (xs[i := y])) = length (filter P xs)"
proof (induction xs arbitrary: i)
  case (Cons x xs)
  then show ?case by (cases i) auto
qed simp

lemma retask_ok:
  assumes "core_ok r" and "manager_ok cm" and "sm_state (rn_sm r) \<in> {CLOSING, TERMINATED}"
    and "sm_state (rn_sm r) = CLOSING \<Longrightarrow> length (filter is_closer ts) = 1 \<and> CloseAllTask \<notin> set ts \<and> cm_by_id cm = []"
  shows "runner_ok (r\<lparr>rn_connections := cm, rn_tasks := ts\<rparr>)"
proof -
  have "core_ok (r\<lparr>rn_connections := cm, rn_tasks := ts\<rparr>)"
    using assms(1) by (simp add: core_ok_def)
  moreover have "registry_ok (r\<lparr>rn_connections := cm, rn_tasks := ts\<rparr>)"
    using assms(2,3) by (auto simp: registry_ok_def CONNECTABLE_def)
  moreover have "teardown_ok (r\<lparr>rn_connections := cm, rn_tasks := ts\<rparr>)"
    using assms(3,4) by (auto simp: teardown_ok_def)
  ultimately show ?thesis by (simp add: runner_ok_def)
qed

lemma closer_state:
  assumes "teardown_ok r" and "t \<in> set (rn_tasks r)"
  shows "is_closer t \<Longrightarrow> sm_state (rn_sm r) \<in> {CLOSING, TERMINATED}"
    and "t = CloseAllTask \<Longrightarrow> sm_state (rn_sm r) = TERMINATED"
proof -
  show "sm_state (rn_sm r) \<in> {CLOSING, TERMINATED}" if "is_closer t"
  proof (rule ccontr)
    assume "\<not> ?thesis"
    then have "filter is_closer (rn_tasks r) = []"
      using assms(1) by (simp add: teardown_ok_def)
    with assms(2) that show False by (auto simp: filter_empty_conv)
  qed
  show "sm_state (rn_sm r) = TERMINATED" if "t = CloseAllTask"
    using assms that by (auto simp: teardown_ok_def)
qed

lemma cleanup_ok:
  assumes "core_ok r" and "manager_ok (rn_connections r)" and "sm_state (rn_sm r) = CLOSING"
    and "cm_by_id (rn_connections r) = []" and "filter is_closer (rn_tasks r) = []"
    and "CloseAllTask \<notin> set (rn_tasks r)"
  shows "runner_ok (fst (rn_send now r CLEANUP_COMPLETE d))"
proof -
  have res: "resolve (rn_sm r) CLEANUP_COMPLETE = Some READY"
    using assms(3) by (simp add: resolve_def)
  note moves = send_moves [OF assms(1) res]
  show ?thesis
    using assms by (simp add: runner_ok_def registry_ok_def teardown_ok_def moves CONNECTABLE_def)
qed

lemma task_runner_ok:
  assumes "runner_ok r"
  shows "runner_ok (run_task now r i)"
proof (cases "i < length (rn_tasks r)")
  case True
  define cm' where "cm' = fst (close_all (rn_connections r) :: _ \<times> (unit, unit) wire_calls)"
  have cm': "manager_ok cm'" "cm_by_id cm' = []"
    unfolding cm'_def by (rule close_all_ok) (simp add: close_all_def)
  have ok: "core_ok r" "teardown_ok r" "manager_ok (rn_connections r)"
    using assms by (simp_all add: runner_ok_def registry_ok_def)
  have mem: "rn_tasks r ! i \<in> set (rn_tasks r)" using True by simp
  note removed = filter_remove_at [OF True, of is_closer] and subset = set_remove_at [of i "rn_tasks r"]
  note state = closer_state [OF ok(2) mem]
  show ?thesis
  proof (cases "rn_tasks r ! i")
    case (CloseSession reason)
    have "length (filter is_closer ((rn_tasks r)[i := AwaitWires reason])) = length (filter is_closer (rn_tasks r))"
      using True CloseSession by (intro filter_update_same) simp_all
    moreover have "set ((rn_tasks r)[i := AwaitWires reason]) \<subseteq> insert (AwaitWires reason) (set (rn_tasks r))"
      by (rule set_update_subset_insert)
    ultimately have "runner_ok (r\<lparr>rn_connections := cm', rn_tasks := (rn_tasks r)[i := AwaitWires reason]\<rparr>)"
      using state(1) CloseSession cm' ok by (intro retask_ok) (auto simp: teardown_ok_def)
    then show ?thesis using True CloseSession by (simp add: run_task_def cm'_def)
  next
    case (AwaitWires reason)
    define r0 where "r0 = r\<lparr>rn_tasks := remove_at i (rn_tasks r)\<rparr>"
    have eq: "run_task now r i = fst (rn_send now r0 CLEANUP_COMPLETE [(''reason'', DReason reason)])"
      using True AwaitWires by (simp add: run_task_def r0_def)
    show ?thesis
    proof (cases "sm_state (rn_sm r) = CLOSING")
      case closing: True
      have "filter is_closer (remove_at i (rn_tasks r)) = []"
        using removed ok(2) closing AwaitWires by (simp add: teardown_ok_def del: remove_at.simps)
      moreover have "cm_by_id (rn_connections r) = []" "CloseAllTask \<notin> set (remove_at i (rn_tasks r))"
        using ok(2) closing mem AwaitWires subset by (auto simp: teardown_ok_def simp del: remove_at.simps)
      ultimately show ?thesis
        unfolding eq using ok closing by (intro cleanup_ok) (simp_all add: r0_def del: remove_at.simps)
    next
      case False
      then have "sm_state (rn_sm r) = TERMINATED" using state(1) AwaitWires by auto
      moreover from this have "run_task now r i = r\<lparr>rn_connections := rn_connections r, rn_tasks := remove_at i (rn_tasks r)\<rparr>"
        unfolding eq by (subst rn_send_rejected) (simp_all add: resolve_def r0_def del: remove_at.simps)
      ultimately show ?thesis using ok by (simp only:) (intro retask_ok; simp)
    qed
  next
    case CloseAllTask
    have "runner_ok (r\<lparr>rn_connections := cm', rn_tasks := remove_at i (rn_tasks r)\<rparr>)"
      using state(2) CloseAllTask cm' ok by (intro retask_ok) auto
    then show ?thesis using True CloseAllTask by (simp add: run_task_def cm'_def)
  next
    case (CloseWire cid)
    have "runner_ok (r\<lparr>rn_tasks := remove_at i (rn_tasks r)\<rparr>)"
      using assms removed subset CloseWire
      by (auto simp: runner_ok_def registry_ok_def teardown_ok_def simp del: remove_at.simps)
    then show ?thesis using True CloseWire by (simp add: run_task_def del: remove_at.simps)
  qed
qed (use assms in \<open>simp add: run_task_def\<close>)

lemma claims_keep_registry [simp]:
  "cm_by_id (fst (new_conn_id cm t draws)) = cm_by_id cm"
  "cm_unoccupying (fst (new_conn_id cm t draws)) = cm_unoccupying cm"
  "cm_by_id (fst (claim_conn_id cm i t)) = cm_by_id cm"
  "cm_unoccupying (fst (claim_conn_id cm i t)) = cm_unoccupying cm"
  using new_conn_id_claims [of cm t draws] claim_conn_id_claims [of cm i t] by auto

fun registry_neutral :: "manager_op \<Rightarrow> bool" where
  "registry_neutral (Register _ _ _ _) = False"
| "registry_neutral (Drop _ _) = False"
| "registry_neutral CloseAll = False"
| "registry_neutral _ = True"

lemma manager_op_runner_ok:
  assumes "runner_ok r" and "registry_neutral op"
  shows "runner_ok (with_manager r op)"
proof -
  define cm' where "cm' = snd (manager_step (rn_sm r, rn_connections r) op)"
  have "manager_ok cm'"
    unfolding cm'_def using assms(1) by (intro manager_step_ok) (simp add: runner_ok_def registry_ok_def)
  moreover have "cm_by_id cm' = cm_by_id (rn_connections r) \<and> cm_unoccupying cm' = cm_unoccupying (rn_connections r)"
    using assms(2) unfolding cm'_def
    by (cases op) (auto simp: publish_track_def unpublish_track_def release_conn_id_def Let_def split: option.splits)
  ultimately show ?thesis
    using assms(1)
    by (simp add: with_manager_def cm'_def [symmetric] runner_ok_def registry_ok_def teardown_ok_def occupying_def)
qed

lemma failed_runner_ok: "runner_ok r \<Longrightarrow> runner_ok (connection_failed now r cid transport reason)"
  by (auto simp: connection_failed_def split_beta Let_def intro!: send_ok) (simp_all add: CONNECTION_EVENTS_def)

lemma runner_step_ok:
  assumes "runner_ok r"
  shows "runner_ok (runner_step r c)"
proof (cases c)
  case (Pair now op)
  note sends = send_ok [OF assms]
  show ?thesis
  proof (cases op)
    case (OpStop moderated reason)
    then show ?thesis using Pair sends
      by (simp add: stop_session_def split_beta Let_def CONNECTION_EVENTS_def)
  next
    case OpDrain
    then show ?thesis using Pair assms
      by (auto simp: drain_def Let_def CONNECTION_EVENTS_def intro!: send_ok)
  next
    case OpOrphan
    then show ?thesis using Pair assms sends by (simp add: orphan_timeout_def CONNECTION_EVENTS_def)
  qed (use Pair assms in \<open>simp_all add: start_runner_ok opened_runner_ok closed_runner_ok failed_runner_ok
      task_runner_ok manager_op_runner_ok offer_admitted_def connection_answered_def evict_on_failure_def
      emit_chunk_ready_def send_ok CONNECTION_EVENTS_def\<close>)
qed

interpretation lifecycle: step_invariant runner_step runner_ok
  by unfold_locales (rule runner_step_ok)

lemma runner_start_ok: "runner_ok (runner_start now (init_runner events secs) True)"
proof -
  define r0 where "r0 = init_runner events secs\<lparr>rn_loop := True\<rparr>"
  define r1 where "r1 = fst (rn_send now r0 INITIALIZING [])"
  have lis0: "sm_listeners (rn_sm r0) = [()]" and res0: "resolve (rn_sm r0) INITIALIZING = Some CREATED"
    by (simp_all add: r0_def init_runner_def on_transition_def init_machine_def resolve_def)
  define s0 where "s0 = r0\<lparr>rn_sm := (rn_sm r0)\<lparr>sm_live := 0, sm_state := CREATED\<rparr>\<rparr>"
  define t0 where "t0 = \<lparr>tr_event = INITIALIZING, from_state = sm_state (rn_sm r0), to_state = CREATED,
      tr_detail = [] :: detail, ts_ms = now_ms now\<rparr>"
  have r1_eq: "r1 = dispatch_transition s0 t0"
    using rn_send_accepted [OF lis0 res0, of now "[]"]
    by (simp add: r1_def s0_def t0_def update_count_def JOURNAL_EVENTS_def)
  have s0: "rn_sm s0 = (rn_sm r0)\<lparr>sm_live := 0\<rparr>" "rn_connections s0 = init_manager" "rn_loop s0" "rn_tasks s0 = []"
    "sm_state (rn_sm r0) = CREATED"
    by (simp_all add: s0_def r0_def init_runner_def on_transition_def init_machine_def)
  have "tasks_of r1 = tasks_of s0"
    using dispatch_tasks [OF s0(3), of t0] s0(5) by (simp add: r1_eq t0_def)
  then have "rn_tasks r1 = []" using s0(4) by (simp add: tasks_of_def)
  then have r1: "rn_sm r1 = (rn_sm r0)\<lparr>sm_live := 0\<rparr>" "rn_connections r1 = init_manager" "rn_loop r1" "rn_tasks r1 = []"
    using s0 by (simp_all add: r1_eq)
  define r2 where "r2 = r1\<lparr>rn_bridge := True\<rparr>"
  have lis: "sm_listeners (rn_sm r2) = [()]" and res: "resolve (rn_sm r2) INITIALIZATION_SUCCESS = Some READY"
    using lis0 s0(5) by (simp_all add: r2_def r1 resolve_def)
  define t where "t = \<lparr>tr_event = INITIALIZATION_SUCCESS, from_state = CREATED, to_state = READY,
      tr_detail = [] :: detail, ts_ms = now_ms now\<rparr>"
  define r3 where "r3 = r2\<lparr>rn_sm := (rn_sm r2)\<lparr>sm_live := 0, sm_state := READY\<rparr>\<rparr>"
  have eq: "runner_start now (init_runner events secs) True = dispatch_transition r3 t"
    using rn_send_accepted [OF lis res, of now "[]"]
    by (simp add: runner_start_def r0_def [symmetric] r1_def [symmetric] r2_def [symmetric] Let_def r3_def t_def
        update_count_def JOURNAL_EVENTS_def) (simp add: r2_def r1 s0(5))
  have tasks: "tasks_of (dispatch_transition r3 t) = ([], False, False, True, rn_orphan_seconds r3)"
    using dispatch_tasks [of r3 t] by (simp add: t_def r3_def r2_def r1 RUNNING_STATES_def)
  show ?thesis
    unfolding eq using lis tasks
    by (simp add: runner_ok_def core_ok_def registry_ok_def teardown_ok_def tasks_of_def t_def r3_def r2_def r1
        init_manager_ok occupancy_ok_def CONNECTABLE_def RUNNING_STATES_def)
      (simp add: init_manager_def)
qed

text \<open>The runner of a loaded model after any sequence of operations.\<close>

definition reached :: "int \<Rightarrow> detail event_stream \<Rightarrow> real \<Rightarrow> (int \<times> runner_op) list \<Rightarrow> runner" where
  "reached now events secs ops = foldl runner_step (runner_start now (init_runner events secs) True) ops"

lemma reached_ok: "runner_ok (reached now events secs ops)"
  unfolding reached_def by (rule lifecycle.run_keeps) (rule runner_start_ok)

section \<open>Properties\<close>

text \<open>
  C1. The session follows its clients: whatever the interleaving of session starts and stops,
  connections opening and closing, timeouts, evictions and teardown tasks, the machine's live
  count is the number of registered connections that occupy the session while it runs (and zero
  otherwise), so it streams exactly while one of them is connected; and a session that is ready
  for the next start has no connection left in the registry.
\<close>

theorem session_follows_clients:
  "let r = reached now events secs ops; state = sm_state (rn_sm r);
       clients = set (dict_keys (cm_by_id (rn_connections r))) - cm_unoccupying (rn_connections r)
   in sm_live (rn_sm r) = (if state \<in> {WAITING, STREAMING, ORPHANED} then int (card clients) else 0) \<and>
      (state = STREAMING) = (state \<in> {WAITING, STREAMING, ORPHANED} \<and> clients \<noteq> {}) \<and>
      (if state = READY then cm_by_id (rn_connections r) = [] else True)"
proof -
  define r where "r = reached now events secs ops"
  define clients where "clients = occupying (rn_connections r)"
  have ok: "occupancy_ok (rn_sm r)" "registry_ok r"
    using reached_ok [of now events secs ops] by (simp_all add: r_def runner_ok_def core_ok_def)
  have fin: "finite clients" by (simp add: clients_def)
  have live: "sm_live (rn_sm r) = (if sm_state (rn_sm r) \<in> CONNECTABLE then int (card clients) else 0)"
    using ok by (auto simp: registry_ok_def occupancy_ok_def clients_def CONNECTABLE_def)
  have "(sm_state (rn_sm r) = STREAMING) = (sm_state (rn_sm r) \<in> CONNECTABLE \<and> clients \<noteq> {})"
    using ok(1) live fin by (auto simp: occupancy_ok_def CONNECTABLE_def card_gt_0_iff split: if_splits)
  moreover have "CONNECTABLE = {WAITING, STREAMING, ORPHANED}"
    by (auto simp: CONNECTABLE_def)
  ultimately show ?thesis
    using live ok(2) unfolding r_def [symmetric] Let_def occupying_def [symmetric] clients_def [symmetric]
    by (simp add: registry_ok_def)
qed

text \<open>
  The runner's own clocks follow the state: in every reachable state the orphan timer is
  armed exactly while the session runs without a client (and a timeout is configured), and the
  statistics reporter exactly while a session runs; so a timer that fires always finds a session
  its \<open>TIMEOUT\<close> can close.
\<close>

theorem timers_follow_state:
  "let r = reached now events secs ops; state = sm_state (rn_sm r)
   in rn_orphan_task r = (0 < rn_orphan_seconds r \<and> (state = WAITING \<or> state = ORPHANED)) \<and>
      rn_stats_task r = (state = WAITING \<or> state = STREAMING \<or> state = ORPHANED) \<and>
      (if rn_orphan_task r then sm_state (rn_sm (orphan_timeout later r)) = CLOSING else orphan_timeout later r = r)"
proof -
  define r where "r = reached now events secs ops"
  have core: "core_ok r"
    using reached_ok [of now events secs ops] by (simp add: r_def runner_ok_def)
  have "sm_state (rn_sm (orphan_timeout later r)) = CLOSING" if armed: "rn_orphan_task r"
  proof -
    have res: "resolve (rn_sm r) TIMEOUT = Some CLOSING"
      using core armed by (auto simp: core_ok_def resolve_def)
    show ?thesis
      using armed by (simp add: orphan_timeout_def send_moves [OF core res])
  qed
  with core show ?thesis
    unfolding r_def [symmetric] by (auto simp: Let_def core_ok_def RUNNING_STATES_def orphan_timeout_def)
qed

text \<open>
  The journal tells the truth about the state: in every reachable state of a loaded runner
  the journal's snapshot names the machine's current state, and \<open>health\<close> and the lifecycle word
  agree with it.
\<close>

theorem snapshot_mirrors_machine:
  "let r = reached now events secs ops
   in ss_state (snapshot (rn_events r)) = Some (sm_state (rn_sm r)) \<and>
      (runner_health r = (runner_state r \<noteq> RT_TERMINATED)) \<and>
      (runner_state r \<noteq> LOADING)"
proof -
  define r where "r = reached now events secs ops"
  have core: "core_ok r"
    using reached_ok [of now events secs ops] by (simp add: r_def runner_ok_def)
  have "runner_health r = (runner_state r \<noteq> RT_TERMINATED)" "runner_state r \<noteq> LOADING"
    using core by (cases "sm_state (rn_sm r)"; simp add: runner_health_def runner_state_def core_ok_def)+
  with core show ?thesis
    unfolding r_def [symmetric] by (simp add: Let_def snapshot_def core_ok_def)
qed

lemma enter_closing_notices:
  "rn_notices (enter_closing r d) = rn_notices r @
     (if detail_reason d = MODERATED then [(ModerationNotice, dict_keys (cm_by_id (rn_connections r)))]
      else if detail_text d \<noteq> [] then [(SessionEndedNotice (detail_text d), dict_keys (cm_by_id (rn_connections r)))]
      else [])"
  "rn_uploads (enter_closing r d) = clear_store (rn_uploads r)"
  by (simp_all add: enter_closing_def spawn_teardown_def broadcast_notice_def Let_def)

definition egress where "egress r = (rn_notices r, rn_uploads r, rn_connections r)"

lemma egress_if: "egress (if b then r else s) = (if b then egress r else egress s)"
  by simp

lemma egress_kept [simp]:
  "egress (post r e) = egress r" "egress (after_emit r t) = egress r"
  "egress (sync_runtime_stats r s) = egress r" "egress (reset_orphan_timeout r s) = egress r"
  by (simp_all add: egress_def post_def after_emit_def sync_runtime_stats_def reset_orphan_timeout_def
      arm_orphan_timeout_def cancel_orphan_timeout_def Let_def)

lemma egress_reactor [simp]: "egress (dispatch_reactor_events r t) = egress r"
  by (simp add: dispatch_reactor_events_def Let_def egress_if)

lemma dispatch_closing:
  assumes "rn_loop r" and "from_state t \<noteq> CLOSING" and "to_state t = CLOSING"
  shows "rn_notices (dispatch_transition r t) = rn_notices r @
     (if detail_reason (tr_detail t) = MODERATED then [(ModerationNotice, dict_keys (cm_by_id (rn_connections r)))]
      else if detail_text (tr_detail t) \<noteq> []
      then [(SessionEndedNotice (detail_text (tr_detail t)), dict_keys (cm_by_id (rn_connections r)))] else [])"
    and "rn_uploads (dispatch_transition r t) = clear_store (rn_uploads r)"
proof -
  define r4 where "r4 = (let r2 = after_emit r t; r3 = (if rn_bridge r2 then dispatch_reactor_events r2 t else r2)
     in sync_runtime_stats (reset_orphan_timeout r3 CLOSING) CLOSING)"
  have r4: "egress r4 = egress r" "kept r4 = kept (r\<lparr>rn_events := emit (rn_events r) t\<rparr>)"
    by (simp add: r4_def Let_def egress_if) (simp add: r4_def Let_def kept_if after_emit_def kept_def [of "rn_events_update _ _"] kept_def [of r])
  then have "dispatch_transition r t = enter_closing r4 (tr_detail t)"
    using assms by (simp add: dispatch_transition_def r4_def after_emit_def Let_def kept_def)
  then show "rn_notices (dispatch_transition r t) = rn_notices r @
     (if detail_reason (tr_detail t) = MODERATED then [(ModerationNotice, dict_keys (cm_by_id (rn_connections r)))]
      else if detail_text (tr_detail t) \<noteq> []
      then [(SessionEndedNotice (detail_text (tr_detail t)), dict_keys (cm_by_id (rn_connections r)))] else [])"
    "rn_uploads (dispatch_transition r t) = clear_store (rn_uploads r)"
    using r4(1) by (simp_all add: enter_closing_notices egress_def)
qed

text \<open>
  C28. Stopping: a stop is accepted exactly while a session runs. Then the session is closing,
  its one teardown carries the end reason, every upload is gone, and the connected clients got
  exactly one notice: the moderation verdict for a moderated stop whatever else it carries, else
  the platform's close reason when there is one. Any other stop is refused with the current state
  and changes nothing.
\<close>

theorem stop_session_spec:
  assumes "runner_ok r"
  shows "case stop_session now r moderated reason of (r', result) \<Rightarrow>
    (if sm_state (rn_sm r) \<in> RUNNING_STATES
     then result = Inr () \<and> sm_state (rn_sm r') = CLOSING \<and> us_slots (rn_uploads r') = [] \<and>
       rn_tasks r' = rn_tasks r @ [CloseSession (if moderated then MODERATED else STOPPED)] \<and>
       rn_notices r' = rn_notices r @
         (if moderated then [(ModerationNotice, dict_keys (cm_by_id (rn_connections r)))]
          else if reason \<noteq> [] then [(SessionEndedNotice reason, dict_keys (cm_by_id (rn_connections r)))] else [])
     else r' = r \<and> result = Inl (SessionTransitionError ''stop'' (sm_state (rn_sm r))))"
proof -
  define d where "d = [(''reason'', DReason (if moderated then MODERATED else STOPPED))] @
      (if reason \<noteq> [] then [(''close_reason'', DText reason)] else [])"
  have det: "detail_reason d = (if moderated then MODERATED else STOPPED)" "detail_text d = reason"
    by (simp_all add: d_def detail_reason_def detail_text_def)
  have core: "core_ok r" using assms by (simp add: runner_ok_def)
  have stop: "stop_session now r moderated reason = (fst (rn_send now r STOP_SESSION d),
      if \<not> snd (rn_send now r STOP_SESSION d)
      then Inl (SessionTransitionError ''stop'' (sm_state (rn_sm (fst (rn_send now r STOP_SESSION d))))) else Inr ())"
    by (simp add: stop_session_def d_def split_beta Let_def)
  show ?thesis
  proof (cases "sm_state (rn_sm r) \<in> RUNNING_STATES")
    case True
    then have res: "resolve (rn_sm r) STOP_SESSION = Some CLOSING" and nc: "sm_state (rn_sm r) \<noteq> CLOSING"
      by (auto simp: RUNNING_STATES_def resolve_def)
    have lis: "sm_listeners (rn_sm r) = [()]" and "rn_loop r" using core by (simp_all add: core_ok_def)
    then show ?thesis
      using True nc unfolding stop
      by (simp add: send_moves [OF core res] det)
        (simp add: rn_send_accepted [OF lis res] dispatch_closing det clear_store_def split: if_splits)
  next
    case False
    then have "resolve (rn_sm r) STOP_SESSION = None"
      by (auto simp: RUNNING_STATES_def resolve_def)
    with False show ?thesis unfolding stop by (simp add: rn_send_rejected)
  qed
qed

text \<open>A streaming session with one client, for the witnesses.\<close>

definition demo_events :: "detail event_stream" where
  "demo_events = \<lparr>es_seq = 0, es_history = [], es_history_limit = 10, es_subscriber_limit = 10,
     es_streams = [], es_state = None, es_connections = 0\<rparr>"

definition demo_contract :: contract where
  "demo_contract = \<lparr>supports_stepped = False, accepts = (\<lambda>_ _. True)\<rparr>"

definition demo_ops :: "(int \<times> runner_op) list" where
  "demo_ops = [(1, OpStart demo_contract []), (2, OpOpened (client 7))]"

definition demo :: runner where
  "demo = reached 0 demo_events 0 demo_ops"

lemma demo_eval:
  "sm_state (rn_sm demo) = STREAMING" "dict_keys (cm_by_id (rn_connections demo)) = [7]"
  "rn_notices demo = []"
  by code_simp+

lemma demo_ok: "runner_ok demo"
  unfolding demo_def by (rule reached_ok)

theorem stop_session_spec_witness:
  "sm_state (rn_sm (fst (stop_session 3 demo True ''closing''))) = CLOSING \<and>
   rn_notices (fst (stop_session 3 demo True ''closing'')) = [(ModerationNotice, [7])]"
  using stop_session_spec [OF demo_ok, where now = 3 and moderated = True and reason = "''closing''"]
  by (simp add: demo_eval RUNNING_STATES_def split_beta)

lemma start_registry:
  assumes "runner_ok r" and "sm_state (rn_sm r) = WAITING" and "cm_by_id (rn_connections r) = []"
  shows "sm_state (rn_sm (begin_session_inputs now r)) =
      (if runs_unattended (rn_session_start r) then STREAMING else WAITING)"
    and "rn_epochs (begin_session_inputs now r) = rn_epochs r"
proof -
  define r1 where "r1 = r\<lparr>rn_starting_input_done := False\<rparr>"
  have core: "core_ok r1" and st: "sm_state (rn_sm r1) \<in> CONNECTABLE" and
    reg: "cm_by_id (rn_connections r1) = []"
    using assms by (simp_all add: r1_def runner_ok_def core_ok_def CONNECTABLE_def)
  note quiet = register_unoccupying [OF core st, of system_connection now True]
  define r2 where "r2 = r1\<lparr>rn_connections := fst (snd (register now (rn_sm r1) (rn_connections r1) system_connection True True))\<rparr>"
  have core2: "core_ok r2" and res: "resolve (rn_sm r2) CONNECTION_OPENED = Some STREAMING"
    using core st by (simp_all add: r2_def resolve_def)
  have counted: "rn_register now r1 system_connection True True =
      fst (rn_send now r2 CONNECTION_OPENED (connection_detail system_connection True))"
    using reg by (simp add: rn_register_eq r2_def Let_def)
  note moves = send_moves [OF core2 res, of now "connection_detail system_connection True", folded counted]
  show "sm_state (rn_sm (begin_session_inputs now r)) =
      (if runs_unattended (rn_session_start r) then STREAMING else WAITING)"
    and "rn_epochs (begin_session_inputs now r) = rn_epochs r"
    using moves quiet reg assms(2)
    by (auto simp: begin_session_inputs_def Let_def r1_def [symmetric] r2_def) (auto simp: r1_def)
qed

lemma session_start_if: "rn_session_start (if b then r else s) = (if b then rn_session_start r else rn_session_start s)"
  by simp

lemma session_start_kept [simp]:
  "rn_session_start (post r e) = rn_session_start r" "rn_session_start (spawn_teardown r t) = rn_session_start r"
  "rn_session_start (sync_runtime_stats r s) = rn_session_start r"
  "rn_session_start (reset_orphan_timeout r s) = rn_session_start r"
  by (simp_all add: post_def spawn_teardown_def sync_runtime_stats_def reset_orphan_timeout_def
      arm_orphan_timeout_def cancel_orphan_timeout_def Let_def)

lemma session_start_reactor [simp]: "rn_session_start (dispatch_reactor_events r t) = rn_session_start r"
  by (simp add: dispatch_reactor_events_def Let_def session_start_if)

lemma dispatch_session_start:
  assumes "is_session_start t" and "parse_session_start (detail_params (tr_detail t)) = Inr start"
  shows "rn_session_start (dispatch_transition r t) = start"
proof -
  have "to_state t = WAITING" using assms(1) by (simp add: is_session_start_def)
  then have "rn_session_start (dispatch_transition r t) = rn_session_start (after_emit r t)"
    unfolding dispatch_transition_def Let_def after_emit_def [unfolded Let_def, symmetric]
    by (simp add: session_start_if)
  then show ?thesis using assms by (simp add: after_emit_def)
qed

lemma resolve_quiet:
  "e \<noteq> START_SESSION \<Longrightarrow> resolve m e = Some t \<Longrightarrow>
     \<not> (sm_state m = READY \<and> t = WAITING) \<and> (t \<in> RUNNING_STATES \<longrightarrow> sm_state m \<in> RUNNING_STATES)"
  by (cases e) (auto simp: resolve_def CONNECTABLE_def RUNNING_STATES_def split: if_splits)

lemma dispatch_keeps_start:
  "\<not> is_session_start t \<Longrightarrow> rn_session_start (dispatch_transition r t) = rn_session_start r"
  by (simp add: dispatch_transition_def Let_def session_start_if enter_closing_def enter_terminated_def broadcast_notice_def)

lemma dispatch_calls_keeps:
  "(\<forall>c\<in>set calls. \<not> is_session_start (snd c)) \<Longrightarrow>
     rn_session_start (dispatch_calls r calls) = rn_session_start r \<and> rn_sm (dispatch_calls r calls) = rn_sm r
   \<and> rn_epochs (dispatch_calls r calls) = rn_epochs r"
  unfolding dispatch_calls_def by (induction calls arbitrary: r) (simp_all add: dispatch_keeps_start)

lemma machine_step_quiet:
  assumes "e \<noteq> START_SESSION"
  shows "\<forall>c\<in>set (snd (machine_step m (Send now e d))). \<not> is_session_start (snd c)"
    and "sm_state (fst (machine_step m (Send now e d))) \<in> RUNNING_STATES \<Longrightarrow> sm_state m \<in> RUNNING_STATES"
  using resolve_quiet [OF assms, of m]
  by (auto simp: send_def apply_move_def update_count_def is_session_start_def split_beta split: option.splits if_splits)

lemma machine_step_unoccupying:
  "\<forall>c\<in>set (snd (machine_step m (SendWithoutOccupancy now e d))). \<not> is_session_start (snd c)"
  "fst (machine_step m (SendWithoutOccupancy now e d)) = m"
  by (auto simp: send_without_occupancy_def apply_move_def is_session_start_def CONNECTABLE_def split_beta split: sum.splits if_splits)

lemma register_keeps_start: "rn_session_start (rn_register now r conn sys occ) = rn_session_start r"
proof -
  obtain m cm calls where reg: "register now (rn_sm r) (rn_connections r) conn sys occ = (m, cm, calls)"
    by (cases "register now (rn_sm r) (rn_connections r) conn sys occ")
  then have "\<forall>c\<in>set calls. \<not> is_session_start (snd c)"
    using machine_step_quiet [of CONNECTION_OPENED "rn_sm r" now "connection_detail conn sys"]
      machine_step_unoccupying [of "rn_sm r" now CONNECTION_OPENED "connection_detail conn sys"]
    by (auto simp: register_def Let_def split_beta simp del: machine_step.simps split: if_splits)
  then show ?thesis
    using dispatch_calls_keeps [of calls "r\<lparr>rn_connections := cm, rn_sm := m\<rparr>"] reg by (simp add: rn_register_def)
qed

lemma begin_inputs_keep_start: "rn_session_start (begin_session_inputs now r) = rn_session_start r"
  by (simp add: begin_session_inputs_def Let_def register_keeps_start)

lemma start_outcome:
  assumes "runner_ok r"
  shows "case start_session now c r params of (r', result) \<Rightarrow>
    (case parse_session_start params of
       Inl e \<Rightarrow> r' = r \<and> result = Inl (InvalidStart e)
     | Inr start \<Rightarrow>
         (case check_generation c r start of
            Some e \<Rightarrow> r' = r \<and> result = Inl e
          | None \<Rightarrow>
              (case check_starting_input c r start of
                 Some e \<Rightarrow> r' = r \<and> result = Inl e
               | None \<Rightarrow>
                   if sm_state (rn_sm r) = READY
                   then result = Inr () \<and> session_epoch r' = session_epoch r + 1 \<and> rn_session_start r' = start \<and>
                     sm_state (rn_sm r') = (if runs_unattended start then STREAMING else WAITING)
                   else r' = r \<and> result = Inl (SessionTransitionError ''start'' (sm_state (rn_sm r))))))"
proof (cases "parse_session_start params")
  case (Inr start)
  define d where "d = [(''params'', DParams params)]"
  define r1 where "r1 = fst (rn_send now r START_SESSION d)"
  have core: "core_ok r" using assms by (simp add: runner_ok_def)
  show ?thesis
  proof (cases "sm_state (rn_sm r) = READY")
    case True
    then have res: "resolve (rn_sm r) START_SESSION = Some WAITING" by (simp add: resolve_def)
    have lis: "sm_listeners (rn_sm r) = [()]" using core by (simp add: core_ok_def)
    note moves = send_moves [OF core res, of now d, folded r1_def]
    have ok: "runner_ok r1"
      unfolding r1_def using assms by (intro send_ok) (simp_all add: CONNECTION_EVENTS_def)
    have start: "rn_session_start r1 = start"
      unfolding r1_def rn_send_accepted [OF lis res] fst_conv
      by (rule dispatch_session_start) (simp_all add: is_session_start_def True Inr d_def detail_params_def)
    define r2 where "r2 = r1\<lparr>rn_epochs := session_started (rn_epochs r1)\<rparr>"
    have "runner_ok r2" "sm_state (rn_sm r2) = WAITING" "cm_by_id (rn_connections r2) = []"
      using ok moves True assms [unfolded runner_ok_def registry_ok_def] by (simp_all add: r2_def)
    note begun = start_registry [OF this, of now]
    have "start_session now c r params =
      (if check_generation c r start = None \<and> check_starting_input c r start = None
       then (begin_session_inputs now r2, Inr ())
       else (r, Inl (case check_generation c r start of Some e \<Rightarrow> e | None \<Rightarrow> the (check_starting_input c r start))))"
      using moves(2) by (auto simp: start_session_def Inr d_def [symmetric] split_beta Let_def r1_def r2_def split: option.splits)
    then show ?thesis
      using begun True start moves
      by (auto simp: Inr session_epoch_def r2_def session_started_def begin_inputs_keep_start split: option.splits)
  next
    case False
    then have "resolve (rn_sm r) START_SESSION = None" by (simp add: resolve_def)
    with False show ?thesis
      by (auto simp: start_session_def Inr rn_send_rejected Let_def split: option.splits)
  qed
qed (simp add: start_session_def)

lemma first_refusal_spec:
  "first_refusal c cmds i =
     (let k = length (takeWhile (\<lambda>cmd. accepts c (sc_command cmd) (sc_data cmd)) cmds)
      in if k < length cmds then Some (i + k) else None)"
  by (induction c cmds i rule: first_refusal.induct) (simp_all add: Let_def)

text \<open>The commands of a session's starting input, in order.\<close>

definition starting_commands :: "session_start \<Rightarrow> starting_command list" where
  "starting_commands start = (case ss_starting_input start of None \<Rightarrow> [] | Some si \<Rightarrow> as_commands si)"

lemma check_starting_input_spec:
  assumes "rn_bridge r"
  shows "check_starting_input c r start =
    (let k = length (takeWhile (\<lambda>cmd. accepts c (sc_command cmd) (sc_data cmd)) (starting_commands start))
     in if k < length (starting_commands start) then Some (CommandRefused k) else None)"
  using assms by (simp add: check_starting_input_def starting_commands_def first_refusal_spec Let_def split: option.split)

text \<open>
  C27. Starting, on a loaded runner that has not been drained: the first of these that holds
  refuses the start with its own error and leaves the runner exactly as it was. The body does not
  parse; it asks for a stepped session of a model that cannot step; a starting command does not pass
  the model's contract, the first such command being named; the session is not ready, its state
  being named. Otherwise the start is accepted: a new epoch begins, the session runs under the
  parsed parameters, and it waits for a client, or streams at once when it runs a fixed number of
  streamed steps with no client of its own.
\<close>

theorem start_session_spec:
  assumes "runner_ok r" and "rn_accepting r" and "(r', result) = start_session now c r params"
  shows "case parse_session_start params of
      Inl e \<Rightarrow> r' = r \<and> result = Inl (InvalidStart e)
    | Inr start \<Rightarrow>
        (let cmds = starting_commands start;
             passed = length (takeWhile (\<lambda>cmd. accepts c (sc_command cmd) (sc_data cmd)) cmds)
         in if ss_generation start = STEPPED \<and> \<not> supports_stepped c then r' = r \<and> result = Inl GenerationUnsupported
            else if passed < length cmds then r' = r \<and> result = Inl (CommandRefused passed)
            else if sm_state (rn_sm r) \<noteq> READY
            then r' = r \<and> result = Inl (SessionTransitionError ''start'' (sm_state (rn_sm r)))
            else result = Inr () \<and> session_epoch r' = session_epoch r + 1 \<and> rn_session_start r' = start
              \<and> sm_state (rn_sm r') = (if runs_unattended start then STREAMING else WAITING))"
proof -
  have "rn_bridge r"
    using assms(1) by (simp add: runner_ok_def core_ok_def)
  then have gen: "check_generation c r start = (if ss_generation start = STEPPED \<and> \<not> supports_stepped c then Some GenerationUnsupported else None)"
    and start: "check_starting_input c r start =
      (let k = length (takeWhile (\<lambda>cmd. accepts c (sc_command cmd) (sc_data cmd)) (starting_commands start))
       in if k < length (starting_commands start) then Some (CommandRefused k) else None)" for start
    by (simp_all add: check_generation_def check_starting_input_spec)
  show ?thesis
    using start_outcome [OF assms(1), where now = now and c = c and params = params] assms(3) [symmetric]
    by (auto simp: gen start Let_def split: sum.splits if_splits)
qed

theorem start_session_spec_witness:
  "let r = reached 0 demo_events 0 []
   in sm_state (rn_sm (fst (start_session 1 demo_contract r [(''steps'', JInt 5)]))) = STREAMING"
proof -
  have ready: "sm_state (rn_sm (reached 0 demo_events 0 [])) = READY" "rn_accepting (reached 0 demo_events 0 [])"
    by code_simp+
  have "parse_session_start [(''steps'', JInt 5)] = Inr \<lparr>ss_starting_input = None, ss_steps = Some 5, ss_generation = STREAMED\<rparr>"
    by (simp add: parse_session_start_def json_get_def MAX_STEPS_def)
  with start_session_spec [OF reached_ok [of 0 demo_events 0 "[]"] ready(2) prod.collapse, where now = 1 and c = demo_contract
      and params = "[(''steps'', JInt 5)]"] ready(1)
  show ?thesis
    by (simp add: Let_def starting_commands_def runs_unattended_def)
qed

end
