(* ===== verification/RunnerSessions.thy ===== *)
theory RunnerSessions
  imports RunnerLifecycle
begin

text \<open>
  Properties of whole sessions that join the runner's parts: teardown, offers that outlive
  their session, and where the journal's snapshot and a drain differ from their documentation.
\<close>

section \<open>Teardown always finishes\<close>

lemma closing_task:
  assumes "runner_ok r" and "sm_state (rn_sm r) = CLOSING"
  obtains i where "i < length (rn_tasks r)" and "is_closer (rn_tasks r ! i)"
proof -
  have "filter is_closer (rn_tasks r) \<noteq> []"
    using assms by (auto simp: runner_ok_def teardown_ok_def)
  then obtain t where "t \<in> set (rn_tasks r)" "is_closer t"
    by (auto simp: filter_empty_conv)
  then show ?thesis using that by (metis in_set_conv_nth)
qed

lemma await_wires_finishes:
  assumes "runner_ok r" and "sm_state (rn_sm r) = CLOSING"
    and "i < length (rn_tasks r)" and "rn_tasks r ! i = AwaitWires reason"
  shows "sm_state (rn_sm (run_task now r i)) = READY"
proof -
  define r0 where "r0 = r\<lparr>rn_tasks := remove_at i (rn_tasks r)\<rparr>"
  have core: "core_ok r0" using assms(1) by (simp add: r0_def runner_ok_def del: remove_at.simps)
  have res: "SessionMachine.resolve (rn_sm r0) CLEANUP_COMPLETE = Some READY"
    using assms(2) by (simp add: r0_def SessionMachine.resolve_def)
  show ?thesis
    using assms(3,4) send_moves(3) [OF core res] by (simp add: run_task_def r0_def)
qed

text \<open>
  C2. A closing session always reaches ready again: from every reachable state in which the
  session is closing, letting its pending teardown run (at most two steps of one task) unwinds it
  to ready with an empty registry, ready for the next start.
\<close>

theorem closing_session_reaches_ready:
  assumes "r = reached now events secs ops" and "sm_state (rn_sm r) = CLOSING"
  shows "\<exists>i n. n \<le> 2 \<and>
    (let r' = foldl runner_step r (replicate n (later, OpTask i))
     in sm_state (rn_sm r') = READY \<and> cm_by_id (rn_connections r') = [])"
proof -
  have ok: "runner_ok r" using assms(1) reached_ok by simp
  obtain i where i: "i < length (rn_tasks r)" "is_closer (rn_tasks r ! i)"
    using closing_task [OF ok assms(2)] .
  have empty: "cm_by_id (rn_connections s) = []" if "runner_ok s" "sm_state (rn_sm s) = READY" for s
    using that by (simp add: runner_ok_def registry_ok_def)
  show ?thesis
  proof (cases "rn_tasks r ! i")
    case (AwaitWires reason)
    have "sm_state (rn_sm (run_task later r i)) = READY"
      using await_wires_finishes [OF ok assms(2) i(1) AwaitWires] .
    with empty [OF task_runner_ok [OF ok]] show ?thesis
      by (intro exI [of _ i] exI [of _ 1]) simp
  next
    case (CloseSession reason)
    define r1 where "r1 = run_task later r i"
    have r1: "rn_sm r1 = rn_sm r" "rn_tasks r1 = (rn_tasks r)[i := AwaitWires reason]"
      using i(1) CloseSession by (simp_all add: r1_def run_task_def)
    have ok1: "runner_ok r1" unfolding r1_def by (rule task_runner_ok [OF ok])
    have "sm_state (rn_sm (run_task later r1 i)) = READY"
      using await_wires_finishes [OF ok1, of i reason later] assms(2) i(1) by (simp add: r1)
    with empty [OF task_runner_ok [OF ok1]] show ?thesis
      by (intro exI [of _ i] exI [of _ 2]) (simp add: numeral_2_eq_2 r1_def)
  qed (use i(2) in simp_all)
qed

theorem closing_session_reaches_ready_witness:
  "\<exists>i n. n \<le> 2 \<and>
    (let r' = foldl runner_step (reached 0 demo_events 0 (demo_ops @ [(3, OpStop False [])])) (replicate n (4, OpTask i))
     in sm_state (rn_sm r') = READY \<and> cm_by_id (rn_connections r') = [])"
  by (rule closing_session_reaches_ready [OF refl]) code_simp

section \<open>Offers of an earlier session\<close>

text \<open>Only a start, an offer, and a connection's own outcome touch the offer epochs.\<close>

lemma dispatch_calls_epochs [simp]:
  "rn_epochs (dispatch_calls r calls) = rn_epochs r"
  unfolding dispatch_calls_def by (induction calls arbitrary: r) simp_all

lemma rn_send_epochs [simp]: "rn_epochs (fst (rn_send now r e d)) = rn_epochs r"
  by (simp add: rn_send_def split_beta)

lemma rn_register_epochs [simp]: "rn_epochs (rn_register now r conn sys occ) = rn_epochs r"
  by (simp add: rn_register_def split_beta)

lemma begin_inputs_epochs [simp]: "rn_epochs (begin_session_inputs now r) = rn_epochs r"
  by (simp add: begin_session_inputs_def Let_def)

lemma start_epochs:
  "rn_epochs (fst (start_session now c r params)) =
     (if snd (start_session now c r params) = Inr () then session_started (rn_epochs r) else rn_epochs r)"
  by (auto simp: start_session_def split_beta Let_def split: sum.splits option.splits)

fun settles_offer :: "conn_id \<Rightarrow> runner_op \<Rightarrow> bool" where
  "settles_offer cid (OpOpened conn) = (cn_id conn = cid)"
| "settles_offer cid (OpAdmitted c) = (c = cid)"
| "settles_offer cid (OpFailed c _ _) = (c = cid)"
| "settles_offer cid _ = False"

lemma step_epochs:
  assumes "\<not> settles_offer cid op"
  shows "dict_get (oe_stamps (rn_epochs (runner_step r (now, op)))) cid = dict_get (oe_stamps (rn_epochs r)) cid \<and>
    oe_current (rn_epochs r) \<le> oe_current (rn_epochs (runner_step r (now, op)))"
proof (cases op)
  case (OpStart c params)
  then show ?thesis by (simp add: start_epochs session_started_def)
next
  case (OpOpened conn)
  then show ?thesis using assms
    by (simp add: connection_opened_def consume_def spawn_teardown_def split_beta Let_def dict_simps)
next
  case (OpFailed c transport reason)
  then show ?thesis using assms by (simp add: connection_failed_def consume_def split_beta Let_def dict_simps)
next
  case (OpAdmitted c)
  then show ?thesis using assms by (simp add: offer_admitted_def stamp_def dict_simps)
next
  case (OpTask i)
  then show ?thesis by (simp add: run_task_def split: teardown.splits)
next
  case (OpClosed c)
  then show ?thesis by (simp add: connection_closed_def split_beta)
qed (simp_all add: stop_session_def drain_def connection_answered_def evict_on_failure_def emit_chunk_ready_def
    orphan_timeout_def with_manager_def split_beta Let_def)

lemma run_epochs:
  "\<forall>(now, op) \<in> set ops. \<not> settles_offer cid op \<Longrightarrow>
   dict_get (oe_stamps (rn_epochs (foldl runner_step r ops))) cid = dict_get (oe_stamps (rn_epochs r)) cid \<and>
   oe_current (rn_epochs r) \<le> oe_current (rn_epochs (foldl runner_step r ops))"
proof (induction ops arbitrary: r)
  case (Cons c ops)
  obtain now op where c: "c = (now, op)" by fastforce
  have "\<not> settles_offer cid op" using Cons.prems c by auto
  note step = step_epochs [OF this, of r now]
  have "\<forall>(now, op) \<in> set ops. \<not> settles_offer cid op" using Cons.prems by simp
  from Cons.IH [OF this, of "runner_step r c"] step show ?case
    by (auto simp: c intro: order_trans)
qed simp

text \<open>
  C7. A wire never joins a session it was not offered to: when an offer was admitted and a later
  session has started since (the session's epoch moved on) without the connection being offered
  again, opening it is refused, its wire is scheduled to be closed, and neither the registry nor
  the session nor the model sees it.
\<close>

theorem stale_offer_never_joins:
  assumes "\<forall>(now, op) \<in> set ops. \<not> settles_offer (cn_id conn) op"
    and "r' = foldl runner_step (offer_admitted r (cn_id conn)) ops"
    and "session_epoch r' \<noteq> session_epoch r" and "rn_loop r'"
  shows "case connection_opened now r' conn of (r'', calls, registered) \<Rightarrow>
    \<not> registered \<and> calls = [] \<and> rn_connections r'' = rn_connections r' \<and> rn_sm r'' = rn_sm r' \<and>
    rn_model r'' = rn_model r' \<and> rn_tasks r'' = rn_tasks r' @ [CloseWire (cn_id conn)]"
proof -
  have "dict_get (oe_stamps (rn_epochs (offer_admitted r (cn_id conn)))) (cn_id conn) = Some (session_epoch r)"
    by (simp add: offer_admitted_def stamp_def dict_simps session_epoch_def)
  then have "dict_get (oe_stamps (rn_epochs r')) (cn_id conn) = Some (session_epoch r)"
    using run_epochs [OF assms(1), of "offer_admitted r (cn_id conn)"] by (simp add: assms(2))
  with assms(3,4) show ?thesis
    by (simp add: connection_opened_def consume_def spawn_teardown_def session_epoch_def)
qed

definition later_session :: runner where
  "later_session = foldl runner_step (offer_admitted demo 9)
     [(3, OpStop False []), (4, OpTask 0), (5, OpTask 0), (6, OpStart demo_contract [])]"

lemma later_session_eval:
  "session_epoch later_session = 2" "rn_loop later_session" "session_epoch demo = 1"
  by code_simp+

theorem stale_offer_never_joins_witness:
  "\<not> snd (snd (connection_opened 7 later_session (client 9)))"
  using stale_offer_never_joins [where conn = "client 9" and r = demo and now = 7 and r' = later_session
      and ops = "[(3, OpStop False []), (4, OpTask 0), (5, OpTask 0), (6, OpStart demo_contract [])]"]
    later_session_eval
  by (simp add: client_def later_session_def case_prod_unfold del: foldl.simps)

section \<open>Where the code and its documentation part\<close>

text \<open>
  The journal's connection count survives the session: after a client connected, the session
  was stopped and its teardown completed, the session is ready and the registry is empty, but the
  snapshot still reports the connection as open.
\<close>

theorem snapshot_overcounts_after_stop:
  "let r = foldl runner_step demo [(3, OpStop False []), (4, OpTask 0), (5, OpTask 0)]
   in ss_state (snapshot (rn_events r)) = Some READY \<and> cm_by_id (rn_connections r) = [] \<and>
      ss_connections (snapshot (rn_events r)) = 1"
  by code_simp

text \<open>
  Draining does not stop new sessions: for any ready runner, a drain clears the accepting
  flag and changes nothing else, and a start that was acceptable before is still accepted after it.
\<close>

theorem drain_still_accepts_starts:
  assumes "runner_ok r" and "sm_state (rn_sm r) = READY" and "parse_session_start params = Inr start"
    and "check_generation c r start = None" and "check_starting_input c r start = None"
  shows "\<not> rn_accepting (drain now r) \<and> snd (start_session later c (drain now r) params) = Inr () \<and>
    sm_state (rn_sm (fst (start_session later c (drain now r) params))) \<in> {WAITING, STREAMING}"
proof -
  have eq: "drain now r = r\<lparr>rn_accepting := False\<rparr>"
    using assms(2) by (simp add: drain_def RUNNING_STATES_def)
  have "runner_ok (drain now r)" using assms(1) by (simp add: eq)
  from start_outcome [OF this, where now = later and c = c and params = params] assms
  show ?thesis
    by (auto simp: eq split_beta check_generation_def check_starting_input_def split: option.splits)
qed

theorem drain_still_accepts_starts_witness:
  "snd (start_session 2 demo_contract (drain 1 (reached 0 demo_events 0 [])) []) = Inr ()"
proof -
  have ready: "sm_state (rn_sm (reached 0 demo_events 0 [])) = READY" by code_simp
  have parsed: "parse_session_start [] = Inr \<lparr>ss_starting_input = None, ss_steps = None, ss_generation = STREAMED\<rparr>"
    by (simp add: parse_session_start_def json_get_def)
  show ?thesis
    using drain_still_accepts_starts [OF reached_ok ready parsed, where c = demo_contract and now = 1 and later = 2]
    by (simp add: check_generation_def check_starting_input_def)
qed

end
