(* ===== verification/Spec2Isabelle.thy ===== *)
theory Spec2Isabelle
  imports ContractSchema ContractBuild RecorderFeed RecorderClips ModelClient ModelFrames
    AppBridge AppEngine BatchPolicy Stages InputBuffer SharedSlot Pacer StepFrames ServerSessions StepStore WireFrames
    RunnerSessions
begin

text \<open>
  A verification of the core of \<^bold>\<open>reactor-runtime\<close>, a Python runtime that hosts one real-time
  model, serves it to clients over WebRTC, LiveKit and HTTP, and can move the model's steps into a
  separate model server process. File names below are under
  \<^verbatim>\<open>src/src/reactor_runtime/\<close>.

  \<^bold>\<open>The program and its theories.\<close>

  \<^item> \<^bold>\<open>The runner\<close> owns a session. \<^verbatim>\<open>runner/state_machine.py\<close> and \<^verbatim>\<open>core/session.py\<close> are
    its state machine (\<open>SessionMachine\<close>): the transition table, the live count, the listeners.
    \<^verbatim>\<open>runner/connection_manager.py\<close> (\<open>ConnectionManager\<close>) registers connections, mints and
    claims their ids, arbitrates track publishers and fans messages and media out.
    \<^verbatim>\<open>runner/session_start.py\<close> (\<open>SessionStart\<close>) parses the body that starts a session,
    \<^verbatim>\<open>runner/offer_epochs.py\<close> (\<open>OfferEpochs\<close>) tells a late wire of an earlier session apart,
    \<^verbatim>\<open>event_stream.py\<close> (\<open>EventStream\<close>) is the journal with its subscribers and snapshot.
    \<open>RunnerLifecycle\<close> puts them together as \<^verbatim>\<open>runner/runner.py\<close> does: load, start, stop,
    drain, connection callbacks, the orphan timer, the statistics task and teardown, as one step
    function over which every interleaving of callbacks and tasks is a list of operations;
    \<open>RunnerSessions\<close> holds what concerns a whole session.

  \<^item> \<^bold>\<open>Values and buffers\<close>: \<^verbatim>\<open>core/values.py\<close> (\<open>Values\<close>: bundles, batches, chunks, health),
    \<^verbatim>\<open>core/stages.py\<close> and \<^verbatim>\<open>runner/stages.py\<close> (\<open>Stages\<close>),
    \<^verbatim>\<open>interface/internal/input_buffer.py\<close> (\<open>InputBuffer\<close>), \<^verbatim>\<open>upload_store.py\<close>
    (\<open>UploadStore\<close>), and \<^verbatim>\<open>protocol/frames.py\<close> (\<open>WireFrames\<close>: raw frames on the wire).

  \<^item> \<^bold>\<open>The transports' cores\<close>: \<^verbatim>\<open>transport/webrtc/pacer.py\<close> (\<open>Pacer\<close>) queues a model's
    frames and delivers one per tick; \<^verbatim>\<open>transport/step_frames.py\<close> decodes the H.264 frames of
    a step request (\<open>AnnexB\<close>: the byte stream; \<open>StepFrames\<close>: the request and the gate that keeps a
    connection's messages in order).

  \<^item> \<^bold>\<open>The model server\<close>: \<^verbatim>\<open>model_server/batching.py\<close> (\<open>BatchPolicy\<close>) queues requests and forms
    batches, \<^verbatim>\<open>model_server/connection.py\<close> (\<open>ServerConnection\<close>) is one session's state and
    outbox, \<^verbatim>\<open>model_server/server_core.py\<close> (\<open>ServerCore\<close>) joins them: readers, the step
    thread, futures, resets, drains. Its proofs are \<open>ServerAccounting\<close> (answers against requests),
    \<open>ServerLoad\<close> (one request per session) and \<open>ServerSessions\<close> (slots, states, exact accounting).
    \<^verbatim>\<open>ipc/blocks.py\<close> and \<^verbatim>\<open>ipc/slot.py\<close> (\<open>SharedSlot\<close>) carry its payloads in shared memory.
    \<^verbatim>\<open>model_server/client.py\<close> (\<open>ModelClient\<close>) is the session's side: connecting, calls, the reader and
    the end of the link; the frames of \<^verbatim>\<open>model_server/protocol.py\<close> are \<open>ModelFrames\<close>.

  \<^item> \<^bold>\<open>The command contract\<close>: \<^verbatim>\<open>core/typespec.py\<close> (\<open>TypeSpecs\<close>) says which wire values a field's
    type accepts, what they become and which JSON schema is published for it; \<^verbatim>\<open>core/fields.py\<close>,
    \<^verbatim>\<open>core/model.py\<close> and the validation of \<^verbatim>\<open>interface/model/contract.py\<close> (\<open>Contract\<close>) build
    command classes and validate calls; \<^verbatim>\<open>interface/model/schema.py\<close> (\<open>ContractSchema\<close>) publishes
    them as an OpenAPI document; \<open>ContractBuild\<close> is the walk over a model's classes that collects
    its commands and lifecycle hooks.

  \<^item> \<^bold>\<open>The application\<close>: \<open>AppLoop\<close> is the class a model derives from
    (\<^verbatim>\<open>interface/app/reactor_app.py\<close>) on its engine (\<^verbatim>\<open>interface/internal/reactor_core.py\<close>): the
    task that drains the inbound queue of commands, step requests and reactor events, and the
    step loop, which meet at the step lock. What the author's handlers and hooks do is an
    argument of each step. \<open>AppTasks\<close> proves what the two tasks keep of each other, \<open>AppRequests\<close>
    follows step requests, \<open>AppEngine\<close> holds outputs, playout settings and the end of the model's
    thread, and \<open>AppBridge\<close> (\<^verbatim>\<open>interface/internal/bridge.py\<close>) joins the application with the
    contract.

  \<^item> \<^bold>\<open>The recorder\<close>: \<^verbatim>\<open>recording/chunk_encoder.py\<close> (\<open>ChunkEncoder\<close>: the two timelines of an
    output), and \<^verbatim>\<open>recording/recorder.py\<close> with \<^verbatim>\<open>recording/markers.py\<close> (\<open>RecorderFeed\<close>: resampling
    onto the grid, the bounded queue, the worker, the audio buffer; \<open>RecorderClips\<close>: clip requests,
    the watcher, manifests, served paths, retention).

  \<^item> \<^bold>\<open>Step results\<close>: \<^verbatim>\<open>step_results/store.py\<close> saves each finished step as a folder
    (\<open>StepFolder\<close>: what a folder holds; \<open>StepStore\<close>: admission, the worker, publication, the reaper).

  \<open>Prelude\<close> holds what they share: dictionaries in insertion order, result sequences, queues that
  shed their oldest element, and the locales \<open>step_invariant\<close>, \<open>step_monotone\<close> and \<open>drop_oldest\<close>,
  each interpreted on the components' own operations.

  \<^bold>\<open>How the code is modelled.\<close> A class is a record of its fields and a method a function on it that
  returns the changed record; a raise is the \<open>Inl\<close> of a sum, a Python dict an association list in
  insertion order, an unbounded int an \<open>int\<close>, a byte or sample a word of its width, a time a real.
  Where threads or tasks interleave, a method is cut where it gives up a lock, awaits, or calls out,
  and each piece is a step of its own: \<open>pacer_step\<close>, \<open>gate_step\<close>, \<open>server_step\<close>, \<open>store_step\<close>,
  \<open>conn_step\<close>, \<open>app_step\<close>, \<open>feed_run_step\<close>, \<open>clip_step\<close>, \<open>client_op\<close> and the runner's step; a property
  quantifies over all lists of such steps. Code that is not in the repository is an argument: NumPy (\<open>numpy\<close>, \<open>wire_np\<close>), PyAV and FFmpeg (\<open>av\<close>, \<open>pyav\<close>), the
  protobuf parser, the transports' wires, the model's outcomes, the operating system's refusals.
  Where a property needs a documented law of such an argument it names it (\<open>av_sound\<close>,
  \<open>wn_sound\<close>), and its witness instantiates it.

  \<^bold>\<open>What is shown.\<close>

  \<^item> Of sessions: the live count and the state follow the registered clients under every
    interleaving; a closing session is ready again after at most two steps of its teardown; a wire
    of an earlier session never joins; start and stop behave on every branch as specified; timers
    run exactly in their states; a journal consumer that resumes misses and repeats nothing.

  \<^item> Of the model server: no request is answered twice; a session that stays open loses none; a
    drain leaves nothing unanswered; one request per session at a time; one session per slot, and
    no illegal move of a connection. Of its client: it speaks the protocol in order whatever
    fails, a step returns only its own reply, its end is final and reported once, connecting ends
    with its timeout, and a frame arrives whole or not at all.

  \<^item> Of the contract: validation implements its declarative specification and agrees with the
    published schema on both sides, for types and for whole request bodies (outside the gaps shown
    by concrete values); an accepted value coerces to its declared type; every built command has
    defaults that satisfy its own constraints; commands and hooks are the most derived ones.

  \<^item> Of the application: nothing runs or changes the session's state inside a step; step requests
    are answered once and in order under every interleaving, crashes and stops included, and one
    under way ends within eleven moves of the loop; accepted steps are numbered without gap up to
    the session's limit; a request stops at its first failing call, and an admitted one runs whole
    with validated arguments; the gate is open and the state set exactly when they should be; an
    emitted chunk splits into the frames it names; playout settings reach the consumers; the first
    crash is the one reported.

  \<^item> Of recordings: the recorded time follows the emitted media without drift, a batch fits the
    queue, audio is exact, frames reach the encoder in order, a stop drains the queue; segments are
    announced once and in order, an announced clip can be fetched, a served path stays inside its
    directory, retention removes exactly what has expired.

  \<^item> Of media: the pacer refines a plain queue, a flush is a clean cut, a submission ends; the
    search for NAL units equals a split at the start codes; a decoded request has exactly its
    pictures and the gate keeps messages in order; raw frames round trip, mixing never overflows,
    the size of a step's media is exact; a shared slot returns what was written, all or nothing.

  \<^item> Of step results: steps are saved in order and once, a closed store saves everything it
    promised within a bounded number of steps, and a published folder is complete and readable.

  \<^item> Of divergences: concrete runs show where the code does not do what it documents (a step lost
    at close, a fresh folder swept away, messages stranded behind a failed decode, a pacer revived
    during stop, a cancel that is answered, a snapshot that overcounts, values on which the runtime
    and its published schema disagree, clips that cannot be fetched, and smaller ones).

  \<^bold>\<open>Bounds.\<close> No definition uses fuel: every recursion is structural or has a measure, and a loop
  that waits is a step that may be repeated. \<open>work_left\<close> bounds the worker's steps after a close and
  \<open>unblocked_rounds\<close> the rounds of a submission; a client's connect loop takes the list of its attempts,
  and enough of them (the timeout over the first poll) end it; \<open>rank\<close> bounds the moves of the step loop
  until a requested step is over. The concrete runs are evaluated in the kernel.

  \<^bold>\<open>Not modelled.\<close> The WebRTC and LiveKit transports beyond the pacer and the step frames, the HTTP
  routes and process start-up (glue over third-party frameworks); the protobuf and JSON codecs
  (generated message classes outside the repository); the manifest, logging and metrics; the
  introspection of an application class (generated setters, the search for its holders); the codec library behind the encoder; the model server's
  processes, sockets and pickling; distributed serving. Of the runner, the content of statistics,
  command dispatch and step bookkeeping are left out. Floating-point rounding is not modelled: a
  time or rate is a real number, with \<open>pyfloat\<close> adding the infinities and NaN where they are tested.
\<close>

end
